(* ===== verification/Prelude.thy ===== *)
theory Prelude
  imports Main "HOL-Library.AList"
begin

section \<open>Prelude: exceptions, effects, dictionaries\<close>

text \<open>
  What every component of the model shares.
  \<^item> \<open>exn\<close>: the exceptions the code raises or catches, as values. \<open>exn_name\<close> is
    \<^verbatim>\<open>type(exc).__name__\<close>.
  \<^item> \<open>('w, 'a) io\<close>: a coroutine body run to completion. It takes the state of the world and
    returns an outcome (\<open>Inl\<close> an exception, \<open>Inr\<close> a result) together with the new state;
    the state changes made before an exception stay made, as in Python.
  \<^item> Python dictionaries as association lists in insertion order: \<open>AList.update\<close> overwrites in
    place or appends at the end, \<open>AList.delete\<close> removes, as \<^verbatim>\<open>d[k] = v\<close> and \<^verbatim>\<open>d.pop(k)\<close> do.
  The theorem collections: \<open>io_simps\<close> evaluates effects, \<open>io_elims\<close> inverts a successful run.
\<close>

named_theorems io_simps and dict_simps

subsection \<open>Exceptions\<close>

datatype exn =
    ValueError string
  | KeyError string
  | UnicodeDecodeError
  | AssertionError
  | TimeoutError
  | ResponseError string
  | BrokerUnavailableError
  | ConsumerCrashError
  | InsufficientFundsError int int
  | AccountNotFoundError string
  | IntegrityError
  | PayloadNotFoundError string
  | MessageTooLargeError nat nat
  | PaymentDeclinedError string
  | ShippingUnavailableError string
  | OtherException string string

fun exn_name :: "exn \<Rightarrow> string" where
  "exn_name (ValueError _) = ''ValueError''"
| "exn_name (KeyError _) = ''KeyError''"
| "exn_name UnicodeDecodeError = ''UnicodeDecodeError''"
| "exn_name AssertionError = ''AssertionError''"
| "exn_name TimeoutError = ''TimeoutError''"
| "exn_name (ResponseError _) = ''ResponseError''"
| "exn_name BrokerUnavailableError = ''BrokerUnavailableError''"
| "exn_name ConsumerCrashError = ''ConsumerCrashError''"
| "exn_name (InsufficientFundsError _ _) = ''InsufficientFundsError''"
| "exn_name (AccountNotFoundError _) = ''AccountNotFoundError''"
| "exn_name IntegrityError = ''IntegrityError''"
| "exn_name (PayloadNotFoundError _) = ''PayloadNotFoundError''"
| "exn_name (MessageTooLargeError _ _) = ''MessageTooLargeError''"
| "exn_name (PaymentDeclinedError _) = ''PaymentDeclinedError''"
| "exn_name (ShippingUnavailableError _) = ''ShippingUnavailableError''"
| "exn_name (OtherException c _) = c"

subsection \<open>Pure computations that may raise\<close>

definition bndr :: "exn + 'a \<Rightarrow> ('a \<Rightarrow> exn + 'b) \<Rightarrow> exn + 'b" where
  "bndr m k = (case m of Inl e \<Rightarrow> Inl e | Inr x \<Rightarrow> k x)"

lemma bndr_simps [simp]: "bndr (Inl e) k = Inl e" "bndr (Inr x) k = k x"
  by (simp_all add: bndr_def)

lemma bndr_Inr_iff: "bndr m k = Inr y \<longleftrightarrow> (\<exists>x. m = Inr x \<and> k x = Inr y)"
  by (cases m) auto

subsection \<open>Effects\<close>

type_synonym ('w, 'a) io = "'w \<Rightarrow> (exn + 'a) \<times> 'w"

definition ret :: "'a \<Rightarrow> ('w, 'a) io" where
  "ret x w = (Inr x, w)"

definition raise :: "exn \<Rightarrow> ('w, 'a) io" where
  "raise e w = (Inl e, w)"

definition bnd :: "('w, 'a) io \<Rightarrow> ('a \<Rightarrow> ('w, 'b) io) \<Rightarrow> ('w, 'b) io" where
  "bnd m k w = (case m w of (Inl e, w') \<Rightarrow> (Inl e, w') | (Inr x, w') \<Rightarrow> k x w')"

text \<open>\<open>try_io m\<close> is a \<^verbatim>\<open>try\<close> that hands the outcome to the code after it.\<close>

definition try_io :: "('w, 'a) io \<Rightarrow> ('w, exn + 'a) io" where
  "try_io m w = (case m w of (o1, w') \<Rightarrow> (Inr o1, w'))"

text \<open>\<open>finally_do m c\<close>: \<^verbatim>\<open>try: m finally: c\<close>, for a clean-up \<open>c\<close> that cannot raise.\<close>

definition finally_do :: "('w, 'a) io \<Rightarrow> ('w \<Rightarrow> 'w) \<Rightarrow> ('w, 'a) io" where
  "finally_do m c w = (case m w of (o1, w') \<Rightarrow> (o1, c w'))"

definition liftr :: "exn + 'a \<Rightarrow> ('w, 'a) io" where
  "liftr r w = (r, w)"

definition modify :: "('w \<Rightarrow> 'w) \<Rightarrow> ('w, unit) io" where
  "modify f w = (Inr (), f w)"

text \<open>A \<^verbatim>\<open>for x in xs\<close> loop whose body updates a local state \<open>s\<close>.\<close>

fun for_each :: "('x \<Rightarrow> 's \<Rightarrow> ('w, 's) io) \<Rightarrow> 'x list \<Rightarrow> 's \<Rightarrow> ('w, 's) io" where
  "for_each f [] s = ret s"
| "for_each f (x # xs) s = bnd (f x s) (\<lambda>s'. for_each f xs s')"

lemma ret_apply [simp, io_simps]: "ret x w = (Inr x, w)"
  by (simp add: ret_def)

lemma raise_apply [simp, io_simps]: "raise e w = (Inl e, w)"
  by (simp add: raise_def)

lemma liftr_apply [simp, io_simps]: "liftr r w = (r, w)"
  by (simp add: liftr_def)

lemma modify_apply [simp, io_simps]: "modify f w = (Inr (), f w)"
  by (simp add: modify_def)

lemma bnd_Inr [io_simps]: "m w = (Inr x, w') \<Longrightarrow> bnd m k w = k x w'"
  by (simp add: bnd_def)

lemma bnd_Inl [io_simps]: "m w = (Inl e, w') \<Longrightarrow> bnd m k w = (Inl e, w')"
  by (simp add: bnd_def)

lemma bnd_ret [simp, io_simps]: "bnd (ret x) k = k x"
  by (simp add: bnd_def fun_eq_iff)

lemma bnd_raise [simp, io_simps]: "bnd (raise e) k = raise e"
  by (simp add: bnd_def fun_eq_iff)

lemma bnd_liftr [simp, io_simps]:
  "bnd (liftr (Inr x)) k = k x" "bnd (liftr (Inl e)) k = raise e"
  by (simp_all add: bnd_def fun_eq_iff)

lemma bnd_modify [simp, io_simps]: "bnd (modify f) k w = k () (f w)"
  by (simp add: bnd_def)

lemma bnd_assoc: "bnd (bnd m k) h = bnd m (\<lambda>x. bnd (k x) h)"
  by (auto simp: bnd_def fun_eq_iff split: prod.splits sum.splits)

lemma bnd_eq_InrD:
  "bnd m k w = (Inr y, w'') \<Longrightarrow> \<exists>x w'. m w = (Inr x, w') \<and> k x w' = (Inr y, w'')"
  by (auto simp: bnd_def split: prod.splits sum.splits)

lemma bnd_InrE:
  assumes "bnd m k w = (Inr y, w'')"
  obtains x w' where "m w = (Inr x, w')" and "k x w' = (Inr y, w'')"
  using bnd_eq_InrD [OF assms] by blast

lemma bnd_InlE:
  assumes "bnd m k w = (Inl e, w'')"
  obtains (first) "m w = (Inl e, w'')"
    | (second) x w' where "m w = (Inr x, w')" and "k x w' = (Inl e, w'')"
  using assms by (auto simp: bnd_def split: prod.splits sum.splits)

lemma try_io_apply [io_simps]: "m w = (r, w') \<Longrightarrow> try_io m w = (Inr r, w')"
  by (simp add: try_io_def)

lemma try_io_eq_iff: "try_io m w = (Inr r, w') \<longleftrightarrow> m w = (r, w')"
  by (auto simp: try_io_def split: prod.splits)

lemma for_each_append:
  "for_each f (xs @ ys) s = bnd (for_each f xs s) (\<lambda>s'. for_each f ys s')"
  by (induction xs arbitrary: s)
    (auto simp: bnd_def fun_eq_iff split: prod.splits sum.splits)

text \<open>
  The invariant rule of a loop: a relation between the world and the local state that one
  body keeps is kept by the whole loop.
\<close>

lemma for_each_invariant:
  assumes step: "\<And>x s w s' w'. x \<in> set xs \<Longrightarrow> P s w \<Longrightarrow> f x s w = (Inr s', w') \<Longrightarrow> P s' w'"
    and run: "for_each f xs s w = (Inr s'', w'')" and init: "P s w"
  shows "P s'' w''"
  using assms
proof (induction xs arbitrary: s w)
  case Nil
  then show ?case by simp
next
  case (Cons x xs)
  from Cons.prems(2) obtain s1 w1 where "f x s w = (Inr s1, w1)"
    and rest: "for_each f xs s1 w1 = (Inr s'', w'')"
    by (auto elim: bnd_InrE)
  then have "P s1 w1"
    by (intro Cons.prems(1) [OF _ Cons.prems(3)]) auto
  with rest show ?case using Cons.IH Cons.prems(1) by (meson list.set_intros(2))
qed

subsection \<open>Outcome triples\<close>

text \<open>
  \<open>valid P m Q E\<close>: from a world satisfying \<open>P\<close> a result leaves \<open>Q\<close> and an exception leaves \<open>E\<close>.
  The rules compose triples along \<open>bnd\<close> and \<open>for_each\<close>; they serve the properties that hold
  whichever way a coroutine ends.
\<close>

definition valid :: "('w \<Rightarrow> bool) \<Rightarrow> ('w, 'a) io \<Rightarrow> ('a \<Rightarrow> 'w \<Rightarrow> bool) \<Rightarrow> (exn \<Rightarrow> 'w \<Rightarrow> bool) \<Rightarrow> bool" where
  "valid P m Q E \<longleftrightarrow> (\<forall>w. P w \<longrightarrow> (case m w of (Inr x, w') \<Rightarrow> Q x w' | (Inl e, w') \<Rightarrow> E e w'))"

lemma validI:
  assumes "\<And>w x w'. P w \<Longrightarrow> m w = (Inr x, w') \<Longrightarrow> Q x w'"
    and "\<And>w e w'. P w \<Longrightarrow> m w = (Inl e, w') \<Longrightarrow> E e w'"
  shows "valid P m Q E"
  using assms by (auto simp: valid_def split: prod.splits sum.splits)

lemma validD_Inr: "valid P m Q E \<Longrightarrow> P w \<Longrightarrow> m w = (Inr x, w') \<Longrightarrow> Q x w'"
  by (fastforce simp: valid_def)

lemma validD_Inl: "valid P m Q E \<Longrightarrow> P w \<Longrightarrow> m w = (Inl e, w') \<Longrightarrow> E e w'"
  by (fastforce simp: valid_def)

lemma valid_conseq:
  "valid P m Q E \<Longrightarrow> (\<And>w. P' w \<Longrightarrow> P w) \<Longrightarrow> (\<And>x w. Q x w \<Longrightarrow> Q' x w) \<Longrightarrow> (\<And>e w. E e w \<Longrightarrow> E' e w) \<Longrightarrow>
    valid P' m Q' E'"
  by (fastforce simp: valid_def split: prod.splits sum.splits)

lemma valid_bnd: "valid P m Q E \<Longrightarrow> (\<And>x. valid (Q x) (k x) S E) \<Longrightarrow> valid P (bnd m k) S E"
  by (fastforce simp: valid_def bnd_def split: prod.splits sum.splits)

lemma valid_ret: "(\<And>w. P w \<Longrightarrow> Q x w) \<Longrightarrow> valid P (ret x) Q E"
  by (simp add: valid_def)

lemma valid_liftr:
  "(\<And>w x. P w \<Longrightarrow> r = Inr x \<Longrightarrow> Q x w) \<Longrightarrow> (\<And>w e. P w \<Longrightarrow> r = Inl e \<Longrightarrow> E e w) \<Longrightarrow> valid P (liftr r) Q E"
  by (cases r) (simp_all add: valid_def)

lemma valid_modify: "(\<And>w. P w \<Longrightarrow> Q () (f w)) \<Longrightarrow> valid P (modify f) Q E"
  by (simp add: valid_def)

lemma valid_for_each:
  "(\<And>x s. x \<in> set xs \<Longrightarrow> valid (I s) (f x s) I E) \<Longrightarrow> valid (I s) (for_each f xs s) I E"
proof (induction xs arbitrary: s)
  case Nil
  then show ?case unfolding for_each.simps by (intro valid_ret)
next
  case (Cons x xs)
  show ?case unfolding for_each.simps
    by (rule valid_bnd [OF Cons.prems], simp) (intro Cons.IH Cons.prems, simp)
qed

subsection \<open>Dictionaries\<close>

type_synonym ('k, 'v) dict = "('k \<times> 'v) list"

text \<open>\<^verbatim>\<open>d[k]\<close>: a missing key raises.\<close>

definition dict_item :: "(string, 'v) dict \<Rightarrow> string \<Rightarrow> exn + 'v" where
  "dict_item d k = (case map_of d k of None \<Rightarrow> Inl (KeyError k) | Some v \<Rightarrow> Inr v)"

text \<open>\<^verbatim>\<open>d.get(k, x)\<close>.\<close>

definition dict_get :: "('k, 'v) dict \<Rightarrow> 'k \<Rightarrow> 'v \<Rightarrow> 'v" where
  "dict_get d k x = (case map_of d k of None \<Rightarrow> x | Some v \<Rightarrow> v)"

text \<open>\<^verbatim>\<open>{**d, **e}\<close>: the entries of \<open>e\<close> are stored into \<open>d\<close>, left to right.\<close>

definition dict_merge :: "('k, 'v) dict \<Rightarrow> ('k, 'v) dict \<Rightarrow> ('k, 'v) dict" where
  "dict_merge d e = fold (\<lambda>(k, v). AList.update k v) e d"

abbreviation dict_keys :: "('k, 'v) dict \<Rightarrow> 'k list" where
  "dict_keys d \<equiv> map fst d"

lemma map_of_update [simp, dict_simps]: "map_of (AList.update k v d) = (map_of d)(k \<mapsto> v)"
  by (simp add: update_conv')

lemma map_of_delete [simp, dict_simps]: "map_of (AList.delete k d) = (map_of d)(k := None)"
  by (simp add: delete_conv')

lemma dict_merge_Nil [simp]: "dict_merge d [] = d"
  by (simp add: dict_merge_def)

lemma dict_merge_Cons [simp]:
  "dict_merge d ((k, v) # e) = dict_merge (AList.update k v d) e"
  by (simp add: dict_merge_def)

lemma map_of_merge_distinct:
  "distinct (dict_keys e) \<Longrightarrow>
    map_of (dict_merge d e) k = (case map_of e k of None \<Rightarrow> map_of d k | Some v \<Rightarrow> Some v)"
proof (induction e arbitrary: d)
  case Nil
  then show ?case by simp
next
  case (Cons p e)
  obtain a b where p: "p = (a, b)" by (cases p)
  have "map_of e a = None" using Cons.prems p by (auto simp: map_of_eq_None_iff)
  then show ?case using Cons p by (auto split: option.splits)
qed

lemma distinct_dict_merge:
  "distinct (dict_keys d) \<Longrightarrow> distinct (dict_keys (dict_merge d e))"
  by (induction e arbitrary: d) (auto simp: distinct_update split: prod.splits)

lemma dict_update_fresh:
  "k \<notin> set (dict_keys d) \<Longrightarrow> AList.update k v d = d @ [(k, v)]"
  by (induction d) auto

lemma dict_merge_fresh:
  "distinct (dict_keys e) \<Longrightarrow> set (dict_keys e) \<inter> set (dict_keys d) = {} \<Longrightarrow>
    dict_merge d e = d @ e"
proof (induction e arbitrary: d)
  case Nil
  then show ?case by simp
next
  case (Cons p e)
  obtain a b where p: "p = (a, b)" by (cases p)
  have "AList.update a b d = d @ [(a, b)]"
    using Cons.prems p by (intro dict_update_fresh) auto
  then show ?case using Cons p by auto
qed

end
