(* ===== verification/Metrics.thy ===== *)
theory Metrics
  imports Prelude
begin

section \<open>The metrics registry\<close>

text \<open>
  \<^verbatim>\<open>message_broker_patterns/metrics.py\<close>. Every method of \<^verbatim>\<open>MetricsRegistry\<close> holds the
  registry's lock for its whole body, so each is one atomic function on the dictionary of
  patterns. The reading of \<^verbatim>\<open>datetime.now(UTC).isoformat()\<close> is an argument (\<open>now\<close>).
  The module-level \<^verbatim>\<open>REGISTRY\<close> is the field \<open>reg\<close> of the world state, beside the wall clock's
  current reading; every pattern's world extends this record.
\<close>

record pattern_metrics =
  label :: string
  counters :: "(string, int) dict"
  last_updated :: string

type_synonym registry = "(string, pattern_metrics) dict"

definition empty_registry :: registry where
  "empty_registry = []"

definition register :: "string \<Rightarrow> string \<Rightarrow> string \<Rightarrow> registry \<Rightarrow> pattern_metrics \<times> registry" where
  "register pattern_id lbl now r =
     (case map_of r pattern_id of
        Some existing \<Rightarrow> (existing, r)
      | None \<Rightarrow>
          (let metrics = \<lparr>label = lbl, counters = [], last_updated = now\<rparr>
           in (metrics, AList.update pattern_id metrics r)))"

definition increment :: "string \<Rightarrow> string \<Rightarrow> int \<Rightarrow> string \<Rightarrow> registry \<Rightarrow> registry" where
  "increment pattern_id key amount now r =
     (let metrics = (case map_of r pattern_id of
            Some m \<Rightarrow> m
          | None \<Rightarrow> \<lparr>label = pattern_id, counters = [], last_updated = now\<rparr>);
          metrics' = metrics
            \<lparr>counters := AList.update key (dict_get (counters metrics) key 0 + amount)
               (counters metrics),
             last_updated := now\<rparr>
      in AList.update pattern_id metrics' r)"

text \<open>One row of the snapshot: the JSON object's four fields.\<close>

record snapshot_row =
  row_id :: string
  row_label :: string
  row_counters :: "(string, int) dict"
  row_last_updated :: string

definition snapshot :: "registry \<Rightarrow> snapshot_row list" where
  "snapshot r = map (\<lambda>(pattern_id, m).
     \<lparr>row_id = pattern_id, row_label = label m, row_counters = counters m,
      row_last_updated = last_updated m\<rparr>) r"

text \<open>The value a reader of the registry sees for one counter.\<close>

definition counter :: "registry \<Rightarrow> string \<Rightarrow> string \<Rightarrow> int" where
  "counter r pattern_id key =
     (case map_of r pattern_id of None \<Rightarrow> 0 | Some m \<Rightarrow> dict_get (counters m) key 0)"

subsection \<open>The world every pattern shares\<close>

record metrics_world =
  reg :: registry
  wall :: string

definition incr :: "string \<Rightarrow> string \<Rightarrow> int \<Rightarrow> ('x metrics_world_scheme, unit) io" where
  "incr p k n w = (Inr (), w\<lparr>reg := increment p k n (wall w) (reg w)\<rparr>)"

lemma incr_apply [io_simps]:
  "incr p k n w = (Inr (), w\<lparr>reg := increment p k n (wall w) (reg w)\<rparr>)"
  by (simp add: incr_def)

lemma bnd_incr [simp, io_simps]:
  "bnd (incr p k n) f w = f () (w\<lparr>reg := increment p k n (wall w) (reg w)\<rparr>)"
  by (simp add: bnd_def incr_def)

subsection \<open>Counters\<close>

lemma counter_increment:
  "counter (increment p k n now r) q j =
     counter r q j + (if q = p \<and> j = k then n else 0)"
  by (auto simp: counter_def increment_def Let_def dict_get_def split: option.splits)

lemma distinct_increment [simp]:
  "distinct (dict_keys r) \<Longrightarrow> distinct (dict_keys (increment p k n now r))"
  by (simp add: increment_def Let_def distinct_update)

lemma distinct_register [simp]:
  "distinct (dict_keys r) \<Longrightarrow> distinct (dict_keys (snd (register p l now r)))"
  by (auto simp: register_def Let_def distinct_update split: option.splits)

lemma counter_register: "counter (snd (register p l now r)) q j = counter r q j"
  by (auto simp: counter_def register_def Let_def dict_get_def split: option.splits)

lemma map_of_snapshot_counters:
  "map_of (map (\<lambda>row. (row_id row, row_counters row)) (snapshot r)) p =
     map_option counters (map_of r p)"
  by (induction r) (auto simp: snapshot_def)

text \<open>A trace of increments, as the pattern modules issue them.\<close>

definition increments :: "(string \<times> string \<times> int \<times> string) list \<Rightarrow> registry \<Rightarrow> registry" where
  "increments ops r = fold (\<lambda>(p, k, n, now). increment p k n now) ops r"

lemma counter_increments:
  "counter (increments ops r) q j =
     counter r q j + (\<Sum>(p, k, n, now) \<leftarrow> ops. if p = q \<and> k = j then n else 0)"
  by (induction ops arbitrary: r) (auto simp: increments_def counter_increment split: if_splits)

end
