(* ===== verification/PyText.thy ===== *)
theory PyText
  imports Prelude
begin

section \<open>Python text: UTF-8 and decimal integers\<close>

text \<open>
  A Python \<^verbatim>\<open>str\<close> is modelled by its UTF-8 encoding, a \<open>string\<close> of bytes satisfying
  \<open>valid_utf8\<close>; \<^verbatim>\<open>bytes\<close> is any \<open>string\<close>. So \<^verbatim>\<open>str.encode()\<close> is the identity and
  \<^verbatim>\<open>bytes.decode()\<close> is \<open>py_decode\<close>, which raises on ill-formed input as the strict decoder
  does. \<open>py_str_int\<close> and \<open>py_int\<close> are \<^verbatim>\<open>str(n)\<close> and \<^verbatim>\<open>int(s)\<close> in base 10: white space
  is stripped, a sign and single underscores between digits are accepted, everything else
  raises. White space and digits outside ASCII, which Python accepts as well, are rejected here,
  and Python's limit of 4300 digits for these conversions is not modelled.
\<close>

subsection \<open>Strict UTF-8 decoding\<close>

abbreviation code :: "char \<Rightarrow> nat" where
  "code c \<equiv> of_char c"

definition cont_byte :: "char \<Rightarrow> bool" where
  "cont_byte b \<longleftrightarrow> 128 \<le> code b \<and> code b \<le> 191"

definition second_of_three :: "char \<Rightarrow> char \<Rightarrow> bool" where
  "second_of_three a b \<longleftrightarrow> cont_byte b \<and>
     (code a = 224 \<longrightarrow> 160 \<le> code b) \<and> (code a = 237 \<longrightarrow> code b \<le> 159)"

definition second_of_four :: "char \<Rightarrow> char \<Rightarrow> bool" where
  "second_of_four a b \<longleftrightarrow> cont_byte b \<and>
     (code a = 240 \<longrightarrow> 144 \<le> code b) \<and> (code a = 244 \<longrightarrow> code b \<le> 143)"

fun valid_utf8 :: "string \<Rightarrow> bool" where
  "valid_utf8 [] \<longleftrightarrow> True"
| "valid_utf8 (a # s) \<longleftrightarrow>
    (if code a < 128 then valid_utf8 s
     else case s of [] \<Rightarrow> False
     | b # s1 \<Rightarrow>
       if 194 \<le> code a \<and> code a \<le> 223 then cont_byte b \<and> valid_utf8 s1
       else case s1 of [] \<Rightarrow> False
       | c # s2 \<Rightarrow>
         if 224 \<le> code a \<and> code a \<le> 239
         then second_of_three a b \<and> cont_byte c \<and> valid_utf8 s2
         else case s2 of [] \<Rightarrow> False
         | d # s3 \<Rightarrow> 240 \<le> code a \<and> code a \<le> 244 \<and> second_of_four a b \<and>
             cont_byte c \<and> cont_byte d \<and> valid_utf8 s3)"

definition py_decode :: "string \<Rightarrow> exn + string" where
  "py_decode b = (if valid_utf8 b then Inr b else Inl UnicodeDecodeError)"

definition is_ascii :: "string \<Rightarrow> bool" where
  "is_ascii s \<longleftrightarrow> list_all (\<lambda>c. code c < 128) s"

lemma is_ascii_simps [simp]:
  "is_ascii []" "is_ascii (c # s) \<longleftrightarrow> code c < 128 \<and> is_ascii s"
  "is_ascii (s @ t) \<longleftrightarrow> is_ascii s \<and> is_ascii t"
  by (simp_all add: is_ascii_def)

lemma valid_utf8_ascii: "is_ascii s \<Longrightarrow> valid_utf8 s"
  by (induction s) (auto simp: is_ascii_def)

lemma py_decode_valid [simp]: "valid_utf8 s \<Longrightarrow> py_decode s = Inr s"
  by (simp add: py_decode_def)

lemma py_decode_ascii [simp]: "is_ascii s \<Longrightarrow> py_decode s = Inr s"
  by (simp add: valid_utf8_ascii)

lemma py_decode_Inr: "py_decode s = Inr t \<longleftrightarrow> t = s \<and> valid_utf8 s"
  by (auto simp: py_decode_def)

subsection \<open>Decimal integers\<close>

definition digit_char :: "nat \<Rightarrow> char" where
  "digit_char n = char_of (48 + n)"

definition is_digit :: "char \<Rightarrow> bool" where
  "is_digit c \<longleftrightarrow> 48 \<le> code c \<and> code c \<le> 57"

definition digit_val :: "char \<Rightarrow> nat" where
  "digit_val c = code c - 48"

definition is_space :: "char \<Rightarrow> bool" where
  "is_space c \<longleftrightarrow> (9 \<le> code c \<and> code c \<le> 13) \<or> (28 \<le> code c \<and> code c \<le> 32)"

definition py_strip :: "string \<Rightarrow> string" where
  "py_strip s = rev (dropWhile is_space (rev (dropWhile is_space s)))"

fun nat_digits :: "nat \<Rightarrow> string" where
  "nat_digits n =
     (if n < 10 then [digit_char n] else nat_digits (n div 10) @ [digit_char (n mod 10)])"

declare nat_digits.simps [simp del]

definition py_str_int :: "int \<Rightarrow> string" where
  "py_str_int i = (if i < 0 then CHR ''-'' # nat_digits (nat (- i)) else nat_digits (nat i))"

text \<open>\<^verbatim>\<open>f"{n:0kd}"\<close> of a natural number: padded with zeros to \<open>k\<close> digits.\<close>

definition zero_pad :: "nat \<Rightarrow> nat \<Rightarrow> string" where
  "zero_pad k n = (let d = nat_digits n in replicate (k - length d) (CHR ''0'') @ d)"

fun read_digits :: "nat \<Rightarrow> string \<Rightarrow> nat option" where
  "read_digits acc [] = Some acc"
| "read_digits acc (c # cs) =
     (if is_digit c then read_digits (acc * 10 + digit_val c) cs
      else if c = CHR ''_'' then
        (case cs of [] \<Rightarrow> None
         | d # ds \<Rightarrow> if is_digit d then read_digits (acc * 10 + digit_val d) ds else None)
      else None)"

fun read_nat :: "string \<Rightarrow> nat option" where
  "read_nat [] = None"
| "read_nat (c # cs) = (if is_digit c then read_digits (digit_val c) cs else None)"

definition read_int :: "string \<Rightarrow> int option" where
  "read_int s = (case s of
      [] \<Rightarrow> None
    | c # cs \<Rightarrow>
        if c = CHR ''-'' then map_option (\<lambda>n. - int n) (read_nat cs)
        else if c = CHR ''+'' then map_option int (read_nat cs)
        else map_option int (read_nat s))"

definition py_int :: "string \<Rightarrow> exn + int" where
  "py_int s = (case read_int (py_strip s) of
      None \<Rightarrow> Inl (ValueError ''invalid literal for int() with base 10'')
    | Some i \<Rightarrow> Inr i)"

text \<open>The digits of a number read back as the number.\<close>

lemma digit_char_props [simp]:
  assumes "n < 10"
  shows "is_digit (digit_char n)" "digit_val (digit_char n) = n" "\<not> is_space (digit_char n)"
    "digit_char n \<noteq> CHR ''-''" "digit_char n \<noteq> CHR ''+''" "code (digit_char n) < 128"
proof -
  have c: "code (digit_char n) = 48 + n"
    using assms by (simp add: digit_char_def)
  show "is_digit (digit_char n)" "digit_val (digit_char n) = n" "\<not> is_space (digit_char n)"
    "code (digit_char n) < 128"
    using assms c by (simp_all add: is_digit_def digit_val_def is_space_def)
  have "code (digit_char n) \<noteq> code (CHR ''-'')" "code (digit_char n) \<noteq> code (CHR ''+'')"
    using c by simp_all
  then show "digit_char n \<noteq> CHR ''-''" "digit_char n \<noteq> CHR ''+''"
    by metis+
qed

lemma nat_digits_all: "list_all (\<lambda>c. \<exists>d<10. c = digit_char d) (nat_digits n)"
proof (induction n rule: nat_digits.induct)
  case (1 n)
  moreover have "\<exists>d<10. digit_char (n mod 10) = digit_char d"
    by (rule exI [of _ "n mod 10"]) simp
  ultimately show ?case by (subst nat_digits.simps) auto
qed

lemma nat_digits_nonempty [simp]: "nat_digits n \<noteq> []"
  by (subst nat_digits.simps) simp

lemma read_digits_foldl:
  "list_all is_digit s \<Longrightarrow>
    read_digits acc s = Some (foldl (\<lambda>a c. a * 10 + digit_val c) acc s)"
  by (induction s arbitrary: acc) auto

lemma foldl_nat_digits: "foldl (\<lambda>a c. a * 10 + digit_val c) 0 (nat_digits n) = n"
proof (induction n rule: nat_digits.induct)
  case (1 n)
  then show ?case by (subst nat_digits.simps) auto
qed

lemma nat_digits_are_digits: "list_all is_digit (nat_digits n)"
  using nat_digits_all [of n] by (auto simp: list_all_iff)

lemma read_nat_digits [simp]: "read_nat (nat_digits n) = Some n"
proof (cases "nat_digits n")
  case Nil
  then show ?thesis by simp
next
  case (Cons c cs)
  have "list_all is_digit (c # cs)" using nat_digits_are_digits [of n] Cons by simp
  moreover have "foldl (\<lambda>a c. a * 10 + digit_val c) (digit_val c) cs = n"
    using foldl_nat_digits [of n] Cons by simp
  ultimately show ?thesis by (simp add: Cons read_digits_foldl)
qed

lemma inj_nat_digits: "inj nat_digits"
  by (metis injI option.inject read_nat_digits)

lemma is_ascii_nat_digits [simp]: "is_ascii (nat_digits n)"
  using nat_digits_all [of n] by (auto simp: is_ascii_def list_all_iff)

lemma is_ascii_zero_pad [simp]: "is_ascii (zero_pad k n)"
proof -
  have "is_ascii (replicate j (CHR ''0''))" for j by (simp add: is_ascii_def list_all_iff)
  then show ?thesis by (simp add: zero_pad_def Let_def)
qed

lemma read_zero_pad: "foldl (\<lambda>a c. a * 10 + digit_val c) 0 (zero_pad k n) = n"
proof -
  have "foldl (\<lambda>a c. a * 10 + digit_val c) 0 (replicate j (CHR ''0'')) = 0" for j
    by (induction j) (simp_all add: digit_val_def)
  then show ?thesis by (simp add: zero_pad_def Let_def foldl_nat_digits)
qed

lemma zero_pad_inj: "zero_pad k m = zero_pad k n \<longleftrightarrow> m = n"
  by (metis read_zero_pad)

lemma is_ascii_py_str_int [simp]: "is_ascii (py_str_int i)"
  by (simp add: py_str_int_def)

lemma py_strip_id: "s = [] \<or> \<not> is_space (hd s) \<and> \<not> is_space (last s) \<Longrightarrow> py_strip s = s"
proof -
  have dw: "\<not> is_space (hd t) \<Longrightarrow> dropWhile is_space t = t" if "t \<noteq> []" for t
    using that by (cases t) auto
  assume "s = [] \<or> \<not> is_space (hd s) \<and> \<not> is_space (last s)"
  then show ?thesis
    by (cases "s = []") (simp_all add: py_strip_def dw hd_rev)
qed

lemma nat_digits_ends: "\<exists>d<10. hd (nat_digits n) = digit_char d" "\<exists>d<10. last (nat_digits n) = digit_char d"
  using nat_digits_all [of n] by (auto simp: list_all_iff)

lemma is_space_minus: "\<not> is_space (CHR ''-'')"
  by (simp add: is_space_def)

lemma py_strip_py_str_int: "py_strip (py_str_int i) = py_str_int i"
proof (rule py_strip_id)
  obtain d e where "d < 10" "hd (nat_digits (nat i)) = digit_char d"
    and "e < 10" "last (nat_digits (nat i)) = digit_char e"
    using nat_digits_ends by blast
  moreover obtain e' where "e' < 10" "last (nat_digits (nat (- i))) = digit_char e'"
    using nat_digits_ends by blast
  ultimately show "py_str_int i = [] \<or>
      \<not> is_space (hd (py_str_int i)) \<and> \<not> is_space (last (py_str_int i))"
    by (auto simp: py_str_int_def is_space_minus)
qed

lemma read_int_py_str_int: "read_int (py_str_int i) = Some i"
proof (cases "i < 0")
  case True
  then show ?thesis by (simp add: py_str_int_def read_int_def)
next
  case False
  obtain d where d: "d < 10" "hd (nat_digits (nat i)) = digit_char d"
    using nat_digits_ends by blast
  then obtain cs where "nat_digits (nat i) = digit_char d # cs"
    by (metis list.collapse nat_digits_nonempty)
  moreover have "read_nat (nat_digits (nat i)) = Some (nat i)" by simp
  ultimately show ?thesis using False d(1) by (simp add: py_str_int_def read_int_def del: read_nat.simps)
qed

lemma py_int_py_str_int [simp]: "py_int (py_str_int i) = Inr i"
  by (simp add: py_int_def py_strip_py_str_int read_int_py_str_int)

lemma py_str_int_inj: "py_str_int i = py_str_int j \<longleftrightarrow> i = j"
  by (metis py_int_py_str_int sum.inject(2))

subsection \<open>Decoding a whole entry\<close>

text \<open>\<^verbatim>\<open>{k.decode(): v.decode() for k, v in raw.items()}\<close>\<close>

fun decode_items :: "(string, string) dict \<Rightarrow> exn + (string, string) dict" where
  "decode_items [] = Inr []"
| "decode_items ((k, v) # raw) =
     bndr (py_decode k) (\<lambda>k'. bndr (py_decode v) (\<lambda>v'.
     bndr (decode_items raw) (\<lambda>d. Inr ((k', v') # d))))"

lemma decode_items_valid:
  "\<forall>(k, v) \<in> set raw. valid_utf8 k \<and> valid_utf8 v \<Longrightarrow> decode_items raw = Inr raw"
  by (induction raw rule: decode_items.induct) (auto simp: py_decode_def)

end
