(* ===== verification/Redis_Client.thy ===== *)
theory Redis_Client
  imports Metrics PyText
begin

section \<open>The Redis client as a parameter of the model\<close>

text \<open>
  Redis and \<^verbatim>\<open>redis.asyncio\<close> are not part of the repository. The commands the code awaits are
  the fields of a record \<open>'r redis\<close> over an abstract server state \<open>'r\<close>, and every definition
  that talks to Redis takes such a record as an argument. A field is one command as one atomic
  step: it returns an outcome and the server's next state.

  What the code relies on is stated once, as the assumptions of the locale \<open>redis_server\<close>: the
  documented effect of a command that succeeds, written over \<open>keyspace\<close>, an abstract view of
  the server (streams, consumer groups with their pending entries lists, sets with an expiry, the
  clock). A command may also fail, in which case nothing is assumed of it. The locale
  \<open>redis_available\<close> adds that a well-formed command does succeed, for the properties that
  say that work gets done.

  \<open>mem_redis\<close> is a small in-memory server that satisfies both; it only serves to show, in the
  witnesses, that the assumptions can hold.
\<close>

type_synonym fields = "(string, string) dict"
type_synonym entry = "string \<times> fields"
type_synonym reply = "(string \<times> entry list) list"

record 'r redis =
  xadd :: "string \<Rightarrow> fields \<Rightarrow> ('r, string) io"
  xread :: "string \<Rightarrow> string \<Rightarrow> int \<Rightarrow> ('r, reply) io"
  xlen :: "string \<Rightarrow> ('r, int) io"
  xgroup_create :: "string \<Rightarrow> string \<Rightarrow> ('r, unit) io"
  xreadgroup :: "string \<Rightarrow> string \<Rightarrow> string \<Rightarrow> string \<Rightarrow> int \<Rightarrow> int option \<Rightarrow> ('r, reply) io"
  xack :: "string \<Rightarrow> string \<Rightarrow> string \<Rightarrow> ('r, int) io"
  xpending :: "string \<Rightarrow> string \<Rightarrow> ('r, int) io"
  xautoclaim :: "string \<Rightarrow> string \<Rightarrow> string \<Rightarrow> int \<Rightarrow> int \<Rightarrow> ('r, entry list) io"
  sadd :: "string \<Rightarrow> string \<Rightarrow> ('r, int) io"
  sismember :: "string \<Rightarrow> string \<Rightarrow> ('r, int) io"
  pexpire_nx :: "string \<Rightarrow> int \<Rightarrow> ('r, int) io"
  delete_keys :: "string list \<Rightarrow> ('r, int) io"
  xrange :: "string \<Rightarrow> ('r, entry list) io"

text \<open>The world of a Redis-backed pattern, and a command run in it.\<close>

record 'r world = metrics_world +
  srv :: 'r

definition redis_call :: "('r, 'a) io \<Rightarrow> (('r, 'x) world_scheme, 'a) io" where
  "redis_call m w = (case m (srv w) of (res, r') \<Rightarrow> (res, w\<lparr>srv := r'\<rparr>))"

lemma redis_call_eq_iff:
  "redis_call m w = (res, w') \<longleftrightarrow> (\<exists>r'. m (srv w) = (res, r') \<and> w' = w\<lparr>srv := r'\<rparr>)"
  by (auto simp: redis_call_def split: prod.splits)

lemma redis_call_apply [io_simps]: "m (srv w) = (res, r') \<Longrightarrow> redis_call m w = (res, w\<lparr>srv := r'\<rparr>)"
  by (simp add: redis_call_def)

text \<open>\<^verbatim>\<open>_BUSYGROUP in str(exc)\<close>: substring search.\<close>

fun is_prefix :: "string \<Rightarrow> string \<Rightarrow> bool" where
  "is_prefix [] s = True"
| "is_prefix (c # p) [] = False"
| "is_prefix (c # p) (d # s) = (c = d \<and> is_prefix p s)"

fun contains :: "string \<Rightarrow> string \<Rightarrow> bool" where
  "contains p [] = (p = [])"
| "contains p (c # s) = (is_prefix p (c # s) \<or> contains p s)"

subsection \<open>Idioms the brokers share\<close>

text \<open>\<^verbatim>\<open>fields[b"k"].decode()\<close>: the key may be missing, its value may not be UTF-8.\<close>

definition get_text :: "fields \<Rightarrow> string \<Rightarrow> exn + string" where
  "get_text f k = bndr (dict_item f k) py_decode"

text \<open>\<^verbatim>\<open>if not results: return []\<close>, else the entries of the one stream read, \<^verbatim>\<open>results[0][1]\<close>.\<close>

definition first_stream :: "reply \<Rightarrow> entry list" where
  "first_stream results = (case results of [] \<Rightarrow> [] | r # _ \<Rightarrow> snd r)"

text \<open>
  The outcome of \<^verbatim>\<open>XGROUP CREATE\<close> inside \<^verbatim>\<open>try ... except ResponseError\<close>: a BUSYGROUP answer
  becomes \<^verbatim>\<open>False\<close>, any other error is raised again.
\<close>

definition created_or_busy :: "exn + unit \<Rightarrow> ('w, bool) io" where
  "created_or_busy res = (case res of
       Inr _ \<Rightarrow> ret True
     | Inl exc \<Rightarrow> (case exc of
         ResponseError m \<Rightarrow> if contains ''BUSYGROUP'' m then ret False else raise exc
       | _ \<Rightarrow> raise exc))"

lemma first_stream_single [simp]: "first_stream [(s, es)] = es"
  by (simp add: first_stream_def)

subsection \<open>The abstract view of the server\<close>

record pend =
  pe_id :: string
  pe_owner :: string
  pe_fields :: fields
  pe_since :: int

record grp =
  g_new :: "entry list"
  g_pel :: "pend list"

record strm =
  s_entries :: "entry list"
  s_groups :: "string \<Rightarrow> grp option"

record keyspace =
  ks_streams :: "string \<Rightarrow> strm"
  ks_sets :: "string \<Rightarrow> string set"
  ks_expiry :: "string \<Rightarrow> int option"
  ks_time :: int

definition ks_entries :: "keyspace \<Rightarrow> string \<Rightarrow> entry list" where
  "ks_entries k s = s_entries (ks_streams k s)"

definition ks_group :: "keyspace \<Rightarrow> string \<Rightarrow> string \<Rightarrow> grp option" where
  "ks_group k s g = s_groups (ks_streams k s) g"

definition ks_live_set :: "keyspace \<Rightarrow> string \<Rightarrow> string set" where
  "ks_live_set k key = (case ks_expiry k key of
      Some t \<Rightarrow> if t \<le> ks_time k then {} else ks_sets k key
    | None \<Rightarrow> ks_sets k key)"

definition ks_put_group :: "string \<Rightarrow> string \<Rightarrow> grp \<Rightarrow> keyspace \<Rightarrow> keyspace" where
  "ks_put_group s g gr k = k\<lparr>ks_streams := (ks_streams k)(s :=
     (ks_streams k s)\<lparr>s_groups := (s_groups (ks_streams k s))(g \<mapsto> gr)\<rparr>)\<rparr>"

definition ks_xadd :: "string \<Rightarrow> string \<Rightarrow> fields \<Rightarrow> keyspace \<Rightarrow> keyspace" where
  "ks_xadd s i f k = k\<lparr>ks_streams := (ks_streams k)(s :=
     \<lparr>s_entries = s_entries (ks_streams k s) @ [(i, f)],
      s_groups = (\<lambda>g. map_option (\<lambda>gr. gr\<lparr>g_new := g_new gr @ [(i, f)]\<rparr>)
        (s_groups (ks_streams k s) g))\<rparr>)\<rparr>"

text \<open>\<^verbatim>\<open>XREAD\<close>'s cursor: the entries after an id, all of them after \<open>''0''\<close>.\<close>

definition after_id :: "string \<Rightarrow> entry list \<Rightarrow> entry list" where
  "after_id i es = (if i = ''0'' then es else tl (dropWhile (\<lambda>e. fst e \<noteq> i) es))"

definition mk_reply :: "string \<Rightarrow> entry list \<Rightarrow> reply" where
  "mk_reply s es = (if es = [] then [] else [(s, es)])"

lemma first_stream_mk_reply [simp]: "first_stream (mk_reply s es) = es"
  by (simp add: first_stream_def mk_reply_def)

lemma dropWhile_nth:
  "distinct (map fst es) \<Longrightarrow> m < length es \<Longrightarrow> dropWhile (\<lambda>e. fst e \<noteq> fst (es ! m)) es = drop m es"
proof (induction es arbitrary: m)
  case Nil
  then show ?case by simp
next
  case (Cons e es)
  then show ?case by (cases m) (auto simp: image_iff dest: nth_mem)
qed

lemma after_id_cursor:
  assumes "distinct (map fst es)" and "''0'' \<notin> fst ` set es" and "n \<le> length es"
  shows "after_id (if n = 0 then ''0'' else fst (es ! (n - 1))) es = drop n es"
proof (cases n)
  case 0
  then show ?thesis by (simp add: after_id_def)
next
  case (Suc m)
  moreover have "fst (es ! m) \<noteq> ''0''" using assms(2,3) Suc by (metis Suc_le_lessD image_eqI nth_mem)
  moreover have "tl (drop m es) = drop (Suc m) es" by (simp add: drop_Suc tl_drop)
  ultimately show ?thesis using assms dropWhile_nth [of es m]
    by (simp add: after_id_def)
qed

definition new_group :: "entry list \<Rightarrow> grp" where
  "new_group es = \<lparr>g_new = es, g_pel = []\<rparr>"

definition deliver :: "string \<Rightarrow> int \<Rightarrow> nat \<Rightarrow> grp \<Rightarrow> grp" where
  "deliver c t n gr = \<lparr>g_new = drop n (g_new gr),
     g_pel = g_pel gr @ map (\<lambda>(i, f). \<lparr>pe_id = i, pe_owner = c, pe_fields = f, pe_since = t\<rparr>)
       (take n (g_new gr))\<rparr>"

definition owned_by :: "string \<Rightarrow> grp \<Rightarrow> entry list" where
  "owned_by c gr = map (\<lambda>p. (pe_id p, pe_fields p)) (filter (\<lambda>p. pe_owner p = c) (g_pel gr))"

text \<open>Reading or claiming a pending entry restarts its idle time.\<close>

definition touch :: "string \<Rightarrow> int \<Rightarrow> string list \<Rightarrow> grp \<Rightarrow> grp" where
  "touch c t ids gr = gr\<lparr>g_pel := map (\<lambda>p. if pe_id p \<in> set ids
     then p\<lparr>pe_owner := c, pe_since := t\<rparr> else p) (g_pel gr)\<rparr>"

definition unpend :: "string \<Rightarrow> grp \<Rightarrow> grp" where
  "unpend i gr = gr\<lparr>g_pel := filter (\<lambda>p. pe_id p \<noteq> i) (g_pel gr)\<rparr>"

definition ks_ack :: "string \<Rightarrow> string \<Rightarrow> string \<Rightarrow> keyspace \<Rightarrow> keyspace" where
  "ks_ack s g i k = (case ks_group k s g of
      None \<Rightarrow> k
    | Some gr \<Rightarrow> ks_put_group s g (unpend i gr) k)"

text \<open>\<^verbatim>\<open>XAUTOCLAIM ... COUNT n\<close> scans at most \<open>10 * n\<close> pending entries.\<close>

definition claimable :: "int \<Rightarrow> int \<Rightarrow> nat \<Rightarrow> grp \<Rightarrow> entry list" where
  "claimable t min_idle n gr = map (\<lambda>p. (pe_id p, pe_fields p))
     (take n (filter (\<lambda>p. min_idle \<le> t - pe_since p) (take (10 * n) (g_pel gr))))"

definition ks_sadd :: "string \<Rightarrow> string \<Rightarrow> keyspace \<Rightarrow> keyspace" where
  "ks_sadd key m k = k\<lparr>ks_sets := (ks_sets k)(key := insert m (ks_live_set k key)),
     ks_expiry := (ks_expiry k)(key :=
       (if ks_live_set k key = {} then None else ks_expiry k key))\<rparr>"

definition ks_pexpire_nx :: "string \<Rightarrow> int \<Rightarrow> keyspace \<Rightarrow> keyspace" where
  "ks_pexpire_nx key ms k =
     (if ks_live_set k key \<noteq> {} \<and> ks_expiry k key = None
      then k\<lparr>ks_expiry := (ks_expiry k)(key \<mapsto> ks_time k + ms)\<rparr> else k)"

definition ks_delete :: "string list \<Rightarrow> keyspace \<Rightarrow> keyspace" where
  "ks_delete keys k = k\<lparr>
     ks_streams := (\<lambda>s. if s \<in> set keys then \<lparr>s_entries = [], s_groups = (\<lambda>_. None)\<rparr> else ks_streams k s),
     ks_sets := (\<lambda>key. if key \<in> set keys then {} else ks_sets k key),
     ks_expiry := (\<lambda>key. if key \<in> set keys then None else ks_expiry k key)\<rparr>"

subsection \<open>What the code relies on\<close>

locale redis_server =
  fixes R :: "'r redis" and view :: "'r \<Rightarrow> keyspace"
  assumes xadd_law: "xadd R s f r = (Inr i, r') \<Longrightarrow>
      view r' = ks_xadd s i f (view r) \<and> i \<noteq> ''0'' \<and> i \<notin> fst ` set (ks_entries (view r) s)"
    and xread_law: "xread R s i n r = (Inr rep, r') \<Longrightarrow> 1 \<le> n \<Longrightarrow>
      i = ''0'' \<or> i \<in> fst ` set (ks_entries (view r) s) \<Longrightarrow>
      view r' = view r \<and> rep = mk_reply s (take (nat n) (after_id i (ks_entries (view r) s)))"
    and xlen_law: "xlen R s r = (Inr m, r') \<Longrightarrow>
      view r' = view r \<and> m = int (length (ks_entries (view r) s))"
    and xgroup_create_law: "xgroup_create R s g r = (Inr (), r') \<Longrightarrow>
      ks_group (view r) s g = None \<and>
      view r' = ks_put_group s g (new_group (ks_entries (view r) s)) (view r)"
    and xgroup_busy_law: "xgroup_create R s g r = (Inl (ResponseError msg), r') \<Longrightarrow>
      contains ''BUSYGROUP'' msg \<Longrightarrow> ks_group (view r) s g \<noteq> None \<and> view r' = view r"
    and xreadgroup_new_law: "xreadgroup R g c s ''>'' n blk r = (Inr rep, r') \<Longrightarrow> 1 \<le> n \<Longrightarrow>
      \<exists>gr. ks_group (view r) s g = Some gr \<and> rep = mk_reply s (take (nat n) (g_new gr)) \<and>
        view r' = ks_put_group s g (deliver c (ks_time (view r)) (nat n) gr) (view r)"
    and xreadgroup_own_law: "xreadgroup R g c s ''0'' n blk r = (Inr rep, r') \<Longrightarrow> 1 \<le> n \<Longrightarrow>
      \<exists>gr es. ks_group (view r) s g = Some gr \<and> es = take (nat n) (owned_by c gr) \<and>
        rep = [(s, es)] \<and>
        view r' = ks_put_group s g (touch c (ks_time (view r)) (map fst es) gr) (view r)"
    and xack_law: "xack R s g i r = (Inr m, r') \<Longrightarrow>
      (case ks_group (view r) s g of
         None \<Rightarrow> m = 0 \<and> view r' = view r
       | Some gr \<Rightarrow> m = (if i \<in> pe_id ` set (g_pel gr) then 1 else 0) \<and>
           view r' = ks_put_group s g (unpend i gr) (view r))"
    and xpending_law: "xpending R s g r = (Inr m, r') \<Longrightarrow>
      view r' = view r \<and> (\<exists>gr. ks_group (view r) s g = Some gr \<and> m = int (length (g_pel gr)))"
    and xautoclaim_law: "xautoclaim R s g c min_idle n r = (Inr es, r') \<Longrightarrow> 1 \<le> n \<Longrightarrow>
      \<exists>gr. ks_group (view r) s g = Some gr \<and>
        es = claimable (ks_time (view r)) min_idle (nat n) gr \<and>
        view r' = ks_put_group s g (touch c (ks_time (view r)) (map fst es) gr) (view r)"
    and sadd_law: "sadd R key x r = (Inr m, r') \<Longrightarrow>
      m = (if x \<in> ks_live_set (view r) key then 0 else 1) \<and> view r' = ks_sadd key x (view r)"
    and sismember_law: "sismember R key x r = (Inr m, r') \<Longrightarrow>
      view r' = view r \<and> m = (if x \<in> ks_live_set (view r) key then 1 else 0)"
    and pexpire_nx_law: "pexpire_nx R key ms r = (Inr m, r') \<Longrightarrow>
      view r' = ks_pexpire_nx key ms (view r)"
    and delete_law: "delete_keys R keys r = (Inr m, r') \<Longrightarrow> view r' = ks_delete keys (view r)"
    and xrange_law: "xrange R s r = (Inr es, r') \<Longrightarrow> view r' = view r \<and> es = ks_entries (view r) s"

text \<open>\<open>redis_available\<close>: the server is up, so every well-formed command is answered.\<close>

locale redis_available = redis_server +
  assumes xadd_up: "f \<noteq> [] \<Longrightarrow> \<exists>i r'. xadd R s f r = (Inr i, r')"
    and xread_up: "1 \<le> n \<Longrightarrow> \<exists>rep r'. xread R s i n r = (Inr rep, r')"
    and xlen_up: "\<exists>m r'. xlen R s r = (Inr m, r')"
    and xgroup_create_up: "ks_group (view r) s g = None \<Longrightarrow>
      \<exists>r'. xgroup_create R s g r = (Inr (), r')"
    and xgroup_busy_up: "ks_group (view r) s g \<noteq> None \<Longrightarrow>
      \<exists>msg r'. xgroup_create R s g r = (Inl (ResponseError msg), r') \<and> contains ''BUSYGROUP'' msg"
    and xreadgroup_up: "ks_group (view r) s g \<noteq> None \<Longrightarrow> 1 \<le> n \<Longrightarrow> i \<in> {''>'', ''0''} \<Longrightarrow>
      \<exists>rep r'. xreadgroup R g c s i n blk r = (Inr rep, r')"
    and xack_up: "\<exists>m r'. xack R s g i r = (Inr m, r')"
    and xpending_up: "ks_group (view r) s g \<noteq> None \<Longrightarrow> \<exists>m r'. xpending R s g r = (Inr m, r')"
    and xautoclaim_up: "ks_group (view r) s g \<noteq> None \<Longrightarrow> 1 \<le> n \<Longrightarrow>
      \<exists>es r'. xautoclaim R s g c min_idle n r = (Inr es, r')"
    and sadd_up: "\<exists>m r'. sadd R key x r = (Inr m, r')"
    and sismember_up: "\<exists>m r'. sismember R key x r = (Inr m, r')"
    and pexpire_nx_up: "\<exists>m r'. pexpire_nx R key ms r = (Inr m, r')"
    and delete_up: "\<exists>m r'. delete_keys R keys r = (Inr m, r')"
    and xrange_up: "\<exists>es r'. xrange R s r = (Inr es, r')"

subsection \<open>Reading the view after an update\<close>

named_theorems ks_simps

lemma ks_entries_put_group [simp, ks_simps]: "ks_entries (ks_put_group s g gr k) = ks_entries k"
  by (simp add: ks_entries_def ks_put_group_def fun_eq_iff)

lemma ks_group_put_group [simp, ks_simps]:
  "ks_group (ks_put_group s g gr k) s' g' = (if s' = s \<and> g' = g then Some gr else ks_group k s' g')"
  by (simp add: ks_group_def ks_put_group_def)

lemma ks_entries_xadd [simp, ks_simps]:
  "ks_entries (ks_xadd s i f k) s' = (if s' = s then ks_entries k s @ [(i, f)] else ks_entries k s')"
  by (simp add: ks_entries_def ks_xadd_def)

lemma ks_group_xadd [simp, ks_simps]:
  "ks_group (ks_xadd s i f k) s' g =
     (if s' = s then map_option (\<lambda>gr. gr\<lparr>g_new := g_new gr @ [(i, f)]\<rparr>) (ks_group k s g)
      else ks_group k s' g)"
  by (simp add: ks_group_def ks_xadd_def)

lemma ks_delete_simps [simp, ks_simps]:
  "ks_entries (ks_delete keys k) s = (if s \<in> set keys then [] else ks_entries k s)"
  "ks_group (ks_delete keys k) s g = (if s \<in> set keys then None else ks_group k s g)"
  "ks_live_set (ks_delete keys k) key = (if key \<in> set keys then {} else ks_live_set k key)"
  "ks_time (ks_delete keys k) = ks_time k"
  by (auto simp: ks_delete_def ks_entries_def ks_group_def ks_live_set_def split: option.splits)

lemma ks_live_set_put_group [simp, ks_simps]: "ks_live_set (ks_put_group s g gr k) = ks_live_set k"
  by (auto simp: ks_live_set_def ks_put_group_def fun_eq_iff split: option.split)

lemma ks_live_set_xadd [simp, ks_simps]: "ks_live_set (ks_xadd s i f k) = ks_live_set k"
  by (auto simp: ks_live_set_def ks_xadd_def fun_eq_iff split: option.split)

lemma ks_time_simps [simp, ks_simps]:
  "ks_time (ks_put_group s g gr k) = ks_time k" "ks_time (ks_xadd s i f k) = ks_time k"
  "ks_time (ks_sadd key m k) = ks_time k" "ks_time (ks_pexpire_nx key ms k) = ks_time k"
  by (simp_all add: ks_put_group_def ks_xadd_def ks_sadd_def ks_pexpire_nx_def)

lemma ks_entries_sets [simp, ks_simps]:
  "ks_entries (ks_sadd key m k) = ks_entries k" "ks_entries (ks_pexpire_nx key ms k) = ks_entries k"
  by (simp_all add: ks_entries_def ks_sadd_def ks_pexpire_nx_def fun_eq_iff)

lemma ks_group_sets [simp, ks_simps]:
  "ks_group (ks_sadd key m k) = ks_group k" "ks_group (ks_pexpire_nx key ms k) = ks_group k"
  by (simp_all add: ks_group_def ks_sadd_def ks_pexpire_nx_def fun_eq_iff)

lemma ks_live_set_sadd [simp, ks_simps]:
  "ks_live_set (ks_sadd key m k) key' =
     (if key' = key then insert m (ks_live_set k key) else ks_live_set k key')"
  by (auto simp: ks_live_set_def ks_sadd_def split: option.splits if_splits)

lemma ks_live_set_pexpire_nx:
  "0 < ms \<Longrightarrow> ks_live_set (ks_pexpire_nx key ms k) = ks_live_set k"
  by (auto simp: ks_live_set_def ks_pexpire_nx_def fun_eq_iff split: option.splits if_splits)

lemma grp_sel_simps [simp, ks_simps]:
  "g_new (unpend i gr) = g_new gr" "g_new (touch c t ids gr) = g_new gr"
  "g_new (deliver c t n gr) = drop n (g_new gr)" "g_new (new_group es) = es"
  "g_pel (new_group es) = []"
  by (simp_all add: unpend_def touch_def deliver_def new_group_def)

lemma pel_ids_touch [simp, ks_simps]: "map pe_id (g_pel (touch c t ids gr)) = map pe_id (g_pel gr)"
  by (simp add: touch_def)

lemma pel_ids_unpend [simp, ks_simps]:
  "map pe_id (g_pel (unpend i gr)) = filter (\<lambda>j. j \<noteq> i) (map pe_id (g_pel gr))"
  by (simp add: unpend_def filter_map o_def)

lemma pel_ids_deliver [simp, ks_simps]:
  "map pe_id (g_pel (deliver c t n gr)) = map pe_id (g_pel gr) @ map fst (take n (g_new gr))"
  by (simp add: deliver_def case_prod_beta)

lemma ks_ack_simps [simp, ks_simps]:
  "ks_entries (ks_ack s g i k) = ks_entries k"
  "ks_live_set (ks_ack s g i k) = ks_live_set k"
  "ks_time (ks_ack s g i k) = ks_time k"
  "ks_group (ks_ack s g i k) s' g' =
     (if s' = s \<and> g' = g then map_option (unpend i) (ks_group k s g) else ks_group k s' g')"
  by (auto simp: ks_ack_def fun_eq_iff split: option.splits)

subsection \<open>A group's share of a stream\<close>

text \<open>
  Well-formedness of a consumer group: ids are unique in the stream, what is undelivered and what
  is pending are entries of the stream, and no entry is both.
\<close>

definition pel_entries :: "grp \<Rightarrow> entry list" where
  "pel_entries gr = map (\<lambda>p. (pe_id p, pe_fields p)) (g_pel gr)"

definition outstanding :: "grp \<Rightarrow> entry list" where
  "outstanding gr = pel_entries gr @ g_new gr"

definition group_wf :: "entry list \<Rightarrow> grp \<Rightarrow> bool" where
  "group_wf es gr \<longleftrightarrow> distinct (map fst es) \<and> set (outstanding gr) \<subseteq> set es \<and>
     distinct (map fst (outstanding gr))"

lemma pel_entries_simps [simp, ks_simps]:
  "pel_entries (touch c t ids gr) = pel_entries gr"
  "pel_entries (unpend i gr) = filter (\<lambda>e. fst e \<noteq> i) (pel_entries gr)"
  "pel_entries (deliver c t n gr) = pel_entries gr @ take n (g_new gr)"
  "pel_entries (new_group es) = []"
  by (simp_all add: pel_entries_def touch_def unpend_def deliver_def new_group_def filter_map
      o_def case_prod_beta)

lemma outstanding_simps [simp, ks_simps]:
  "outstanding (touch c t ids gr) = outstanding gr"
  "outstanding (deliver c t n gr) = outstanding gr"
  "outstanding (new_group es) = es"
  "outstanding (gr\<lparr>g_new := g_new gr @ es\<rparr>) = outstanding gr @ es"
  by (simp_all add: outstanding_def) (simp add: pel_entries_def)

lemma outstanding_unpend:
  "outstanding (unpend i gr) = filter (\<lambda>e. fst e \<noteq> i) (pel_entries gr) @ g_new gr"
  by (simp add: outstanding_def)

lemma group_wf_unpend: "group_wf es gr \<Longrightarrow> group_wf es (unpend i gr)"
  by (auto simp: group_wf_def outstanding_unpend outstanding_def distinct_map_filter)

lemma group_wf_keep: "outstanding gr' = outstanding gr \<Longrightarrow> group_wf es gr' = group_wf es gr"
  by (simp add: group_wf_def)

lemma group_wf_new_group: "distinct (map fst es) \<Longrightarrow> group_wf es (new_group es)"
  by (simp add: group_wf_def)

lemma group_wf_xadd:
  "group_wf es gr \<Longrightarrow> i \<notin> fst ` set es \<Longrightarrow>
    group_wf (es @ [(i, f)]) (gr\<lparr>g_new := g_new gr @ [(i, f)]\<rparr>)"
  by (auto simp: group_wf_def)

lemma owned_by_pel: "set (owned_by c gr) \<subseteq> set (pel_entries gr)"
  by (auto simp: owned_by_def pel_entries_def)

lemmas group_wf_intros = group_wf_unpend group_wf_new_group group_wf_xadd

subsection \<open>The idioms' effects\<close>

definition group_create :: "'r redis \<Rightarrow> string \<Rightarrow> string \<Rightarrow> (('r, 'x) world_scheme, bool) io" where
  "group_create R stream grp =
     bnd (try_io (redis_call (xgroup_create R stream grp))) created_or_busy"

definition group_read :: "'r redis \<Rightarrow> string \<Rightarrow> string \<Rightarrow> string \<Rightarrow> string \<Rightarrow> int \<Rightarrow> int option \<Rightarrow>
    (('r, 'x) world_scheme, entry list) io" where
  "group_read R grp consumer stream i count block =
     bnd (redis_call (xreadgroup R grp consumer stream i count block)) (\<lambda>results.
     ret (first_stream results))"

definition stream_add :: "'r redis \<Rightarrow> string \<Rightarrow> fields \<Rightarrow> (('r, 'x) world_scheme, string) io" where
  "stream_add R stream fs = redis_call (xadd R stream fs)"

definition group_ack :: "'r redis \<Rightarrow> string \<Rightarrow> string \<Rightarrow> string \<Rightarrow> (('r, 'x) world_scheme, int) io" where
  "group_ack R stream grp i = redis_call (xack R stream grp i)"

definition group_claim :: "'r redis \<Rightarrow> string \<Rightarrow> string \<Rightarrow> string \<Rightarrow> int \<Rightarrow> int \<Rightarrow>
    (('r, 'x) world_scheme, entry list) io" where
  "group_claim R stream grp consumer min_idle count =
     redis_call (xautoclaim R stream grp consumer min_idle count)"

definition delete_streams :: "'r redis \<Rightarrow> string list \<Rightarrow> (('r, 'x) world_scheme, int) io" where
  "delete_streams R keys = redis_call (delete_keys R keys)"

abbreviation app :: "('r, 'x) world_scheme \<Rightarrow> 'x" where
  "app w \<equiv> world.more w"

context redis_server
begin

abbreviation kv :: "('r, 'x) world_scheme \<Rightarrow> keyspace" where
  "kv w \<equiv> view (srv w)"

lemma group_create_effect:
  assumes "group_create R s g w = (Inr b, w')"
  shows "b = (ks_group (kv w) s g = None) \<and> app w' = app w \<and>
    kv w' = (if b then ks_put_group s g (new_group (ks_entries (kv w) s)) (kv w) else kv w)"
  using assms unfolding group_create_def created_or_busy_def
  by (auto elim!: bnd_InrE simp: try_io_eq_iff redis_call_eq_iff
      dest!: xgroup_create_law xgroup_busy_law split: sum.splits exn.splits if_splits)

lemma group_read_new_effect:
  assumes "group_read R g c s ''>'' n b w = (Inr es, w')" and "1 \<le> n"
  shows "\<exists>gr. ks_group (kv w) s g = Some gr \<and> es = take (nat n) (g_new gr) \<and>
    kv w' = ks_put_group s g (deliver c (ks_time (kv w)) (nat n) gr) (kv w) \<and> app w' = app w"
  using assms unfolding group_read_def
  by (auto elim!: bnd_InrE simp: redis_call_eq_iff dest!: xreadgroup_new_law)

lemma group_read_own_effect:
  assumes "group_read R g c s ''0'' n b w = (Inr es, w')" and "1 \<le> n"
  shows "\<exists>gr. ks_group (kv w) s g = Some gr \<and> es = take (nat n) (owned_by c gr) \<and>
    kv w' = ks_put_group s g (touch c (ks_time (kv w)) (map fst es) gr) (kv w) \<and> app w' = app w"
  using assms unfolding group_read_def
  by (auto elim!: bnd_InrE simp: redis_call_eq_iff dest!: xreadgroup_own_law)

lemma stream_add_effect:
  assumes "stream_add R s f w = (Inr i, w')"
  shows "kv w' = ks_xadd s i f (kv w) \<and> i \<noteq> ''0'' \<and> i \<notin> fst ` set (ks_entries (kv w) s) \<and>
    app w' = app w"
  using assms unfolding stream_add_def by (auto simp: redis_call_eq_iff dest!: xadd_law)

lemma group_ack_effect:
  assumes "group_ack R s g i w = (Inr m, w')"
  shows "kv w' = ks_ack s g i (kv w) \<and> app w' = app w"
  using assms unfolding group_ack_def
  by (auto simp: redis_call_eq_iff ks_ack_def dest!: xack_law split: option.splits)

lemma delete_streams_effect:
  assumes "delete_streams R keys w = (Inr m, w')"
  shows "kv w' = ks_delete keys (kv w) \<and> app w' = app w \<and> reg w' = reg w \<and> wall w' = wall w"
  using assms unfolding delete_streams_def by (auto simp: redis_call_eq_iff dest!: delete_law)

lemma group_claim_effect:
  assumes "group_claim R s g c mi n w = (Inr es, w')" and "1 \<le> n"
  shows "\<exists>gr. ks_group (kv w) s g = Some gr \<and> es = claimable (ks_time (kv w)) mi (nat n) gr \<and>
    kv w' = ks_put_group s g (touch c (ks_time (kv w)) (map fst es) gr) (kv w) \<and> app w' = app w"
  using assms unfolding group_claim_def by (auto simp: redis_call_eq_iff dest!: xautoclaim_law)

end

context redis_available
begin

lemma group_create_up: obtains b w' where "group_create R s g w = (Inr b, w')"
proof (cases "ks_group (kv w) s g")
  case None
  then obtain r' where "xgroup_create R s g (srv w) = (Inr (), r')"
    using xgroup_create_up by blast
  then have "group_create R s g w = (Inr True, w\<lparr>srv := r'\<rparr>)"
    by (simp add: group_create_def bnd_def try_io_def redis_call_def created_or_busy_def)
  then show ?thesis by (rule that)
next
  case (Some gr)
  then obtain msg r' where "xgroup_create R s g (srv w) = (Inl (ResponseError msg), r')"
    and "contains ''BUSYGROUP'' msg" using xgroup_busy_up [of "srv w" s g] by auto
  then have "group_create R s g w = (Inr False, w\<lparr>srv := r'\<rparr>)"
    by (simp add: group_create_def bnd_def try_io_def redis_call_def created_or_busy_def)
  then show ?thesis by (rule that)
qed

lemma group_read_up:
  assumes "ks_group (kv w) s g \<noteq> None" and "1 \<le> n" and "i \<in> {''>'', ''0''}"
  obtains es w' where "group_read R g c s i n b w = (Inr es, w')"
proof -
  obtain rep r' where "xreadgroup R g c s i n b (srv w) = (Inr rep, r')"
    using xreadgroup_up [OF assms] by blast
  then have "group_read R g c s i n b w = (Inr (first_stream rep), w\<lparr>srv := r'\<rparr>)"
    by (simp add: group_read_def bnd_def redis_call_def)
  then show ?thesis by (rule that)
qed

lemma stream_add_up: "f \<noteq> [] \<Longrightarrow> \<exists>i w'. stream_add R s f w = (Inr i, w')"
  using xadd_up [of f s "srv w"] by (auto simp: stream_add_def redis_call_def)

lemma group_ack_up: obtains m w' where "group_ack R s g i w = (Inr m, w')"
  using xack_up [of s g i "srv w"] by (auto simp: group_ack_def redis_call_def)

lemma delete_streams_up: obtains m w' where "delete_streams R keys w = (Inr m, w')"
  using delete_up [of keys "srv w"] by (auto simp: delete_streams_def redis_call_def)

lemma group_claim_up:
  assumes "ks_group (kv w) s g \<noteq> None" and "1 \<le> n"
  obtains es w' where "group_claim R s g c mi n w = (Inr es, w')"
  using xautoclaim_up [OF assms, of c mi] by (auto simp: group_claim_def redis_call_def)

end

end
