(* ===== verification/DLQ_Broker.thy ===== *)
theory DLQ_Broker
  imports Redis_Client
begin

section \<open>Dead letter queue: the payment and the broker\<close>

text \<open>
  \<^verbatim>\<open>dlq_pattern/models.py\<close> and \<^verbatim>\<open>dlq_pattern/broker.py\<close>. A method of \<^verbatim>\<open>DLQBroker\<close> is a
  definition over the world; the Redis client is its first argument. Logging is left out.
  The lemmas give each method's effect on the view of the server when it succeeds.
\<close>

subsection \<open>Payment\<close>

record payment =
  payment_id :: string
  amount_cents :: int
  payment_customer_id :: string
  currency :: string

definition payment_to_fields :: "payment \<Rightarrow> fields" where
  "payment_to_fields p =
     [(''payment_id'', payment_id p),
      (''amount_cents'', py_str_int (amount_cents p)),
      (''customer_id'', payment_customer_id p),
      (''currency'', currency p)]"

definition payment_from_fields :: "fields \<Rightarrow> exn + payment" where
  "payment_from_fields f =
     bndr (get_text f ''payment_id'') (\<lambda>pid.
     bndr (bndr (get_text f ''amount_cents'') py_int) (\<lambda>amount.
     bndr (get_text f ''customer_id'') (\<lambda>cust.
     bndr (get_text f ''currency'') (\<lambda>cur.
     Inr \<lparr>payment_id = pid, amount_cents = amount, payment_customer_id = cust, currency = cur\<rparr>))))"

definition payment_text_ok :: "payment \<Rightarrow> bool" where
  "payment_text_ok p \<longleftrightarrow> valid_utf8 (payment_id p) \<and> valid_utf8 (payment_customer_id p) \<and>
     valid_utf8 (currency p)"

lemma payment_roundtrip_extra:
  "payment_text_ok p \<Longrightarrow> payment_from_fields (payment_to_fields p @ extra) = Inr p"
  by (simp add: payment_from_fields_def payment_to_fields_def get_text_def dict_item_def
      payment_text_ok_def)

subsection \<open>The broker\<close>

definition MAIN_STREAM :: string where
  "MAIN_STREAM = ''payments:main''"

definition DLQ_STREAM :: string where
  "DLQ_STREAM = ''payments:dlq''"

definition PROCESSED_SET :: string where
  "PROCESSED_SET = ''payments:processed''"

lemma stream_names [simp]: "MAIN_STREAM \<noteq> DLQ_STREAM" "DLQ_STREAM \<noteq> MAIN_STREAM"
  by (simp_all add: MAIN_STREAM_def DLQ_STREAM_def)

definition dlq_publish :: "'r redis \<Rightarrow> payment \<Rightarrow> (('r, 'x) world_scheme, string) io" where
  "dlq_publish R payment =
     bnd (redis_call (xadd R MAIN_STREAM (payment_to_fields payment))) (\<lambda>msg_id.
     bnd (incr ''dlq'' ''payments_published'' 1) (\<lambda>_.
     ret msg_id))"

definition dlq_ensure_group ::
    "'r redis \<Rightarrow> string \<Rightarrow> string \<Rightarrow> (('r, 'x) world_scheme, bool) io" where
  "dlq_ensure_group R stream grp =
     bnd (try_io (redis_call (xgroup_create R stream grp))) created_or_busy"

definition dlq_ensure_all_groups :: "'r redis \<Rightarrow> string \<Rightarrow> (('r, 'x) world_scheme, unit) io" where
  "dlq_ensure_all_groups R grp =
     for_each (\<lambda>stream _. bnd (dlq_ensure_group R stream grp) (\<lambda>_. ret ()))
       [MAIN_STREAM, DLQ_STREAM] ()"

definition dlq_read_new ::
    "'r redis \<Rightarrow> string \<Rightarrow> string \<Rightarrow> int \<Rightarrow> int \<Rightarrow> (('r, 'x) world_scheme, entry list) io" where
  "dlq_read_new R grp consumer count block_ms =
     (let block = (if block_ms > 0 then Some block_ms else None)
      in bnd (redis_call (xreadgroup R grp consumer MAIN_STREAM ''>'' count block)) (\<lambda>results.
         ret (first_stream results)))"

definition dlq_read_pending ::
    "'r redis \<Rightarrow> string \<Rightarrow> string \<Rightarrow> int \<Rightarrow> (('r, 'x) world_scheme, entry list) io" where
  "dlq_read_pending R grp consumer count =
     bnd (redis_call (xreadgroup R grp consumer MAIN_STREAM ''0'' count None)) (\<lambda>results.
     ret (first_stream results))"

definition dlq_ack :: "'r redis \<Rightarrow> string \<Rightarrow> string \<Rightarrow> (('r, 'x) world_scheme, int) io" where
  "dlq_ack R grp message_id = redis_call (xack R MAIN_STREAM grp message_id)"

definition dlq_fields :: "payment \<Rightarrow> string \<Rightarrow> int \<Rightarrow> fields" where
  "dlq_fields payment reason attempt =
     dict_merge (payment_to_fields payment)
       [(''reason'', reason), (''attempt'', py_str_int attempt)]"

lemma dlq_fields_eq:
  "dlq_fields p reason n = payment_to_fields p @ [(''reason'', reason), (''attempt'', py_str_int n)]"
  unfolding dlq_fields_def by (rule dict_merge_fresh) (simp_all add: payment_to_fields_def)

definition move_to_dlq :: "'r redis \<Rightarrow> string \<Rightarrow> string \<Rightarrow> payment \<Rightarrow> string \<Rightarrow> int \<Rightarrow>
    (('r, 'x) world_scheme, string) io" where
  "move_to_dlq R grp message_id payment reason attempt =
     bnd (redis_call (xack R MAIN_STREAM grp message_id)) (\<lambda>_.
     bnd (redis_call (xadd R DLQ_STREAM (dlq_fields payment reason attempt))) (\<lambda>dlq_id.
     bnd (incr ''dlq'' ''moved_to_dlq'' 1) (\<lambda>_.
     ret dlq_id)))"

definition is_processed :: "'r redis \<Rightarrow> string \<Rightarrow> (('r, 'x) world_scheme, bool) io" where
  "is_processed R pid =
     bnd (redis_call (sismember R PROCESSED_SET pid)) (\<lambda>member. ret (member \<noteq> 0))"

definition mark_processed :: "'r redis \<Rightarrow> string \<Rightarrow> (('r, 'x) world_scheme, unit) io" where
  "mark_processed R pid = bnd (redis_call (sadd R PROCESSED_SET pid)) (\<lambda>_. ret ())"

definition read_dlq ::
    "'r redis \<Rightarrow> string \<Rightarrow> string \<Rightarrow> int \<Rightarrow> (('r, 'x) world_scheme, entry list) io" where
  "read_dlq R grp consumer count =
     bnd (redis_call (xreadgroup R grp consumer DLQ_STREAM ''>'' count None)) (\<lambda>results.
     ret (first_stream results))"

definition ack_dlq :: "'r redis \<Rightarrow> string \<Rightarrow> string \<Rightarrow> (('r, 'x) world_scheme, int) io" where
  "ack_dlq R grp message_id = redis_call (xack R DLQ_STREAM grp message_id)"

subsection \<open>Effects on the view of the server\<close>

text \<open>
  \<open>app\<close> is the part of the world the broker does not know: the handler's own state. No broker
  method touches it.
\<close>

context redis_server
begin

lemma dlq_publish_effect:
  assumes "dlq_publish R p w = (Inr i, w')"
  shows "kv w' = ks_xadd MAIN_STREAM i (payment_to_fields p) (kv w) \<and>
    i \<notin> fst ` set (ks_entries (kv w) MAIN_STREAM) \<and> app w' = app w"
proof -
  obtain r' where add: "xadd R MAIN_STREAM (payment_to_fields p) (srv w) = (Inr i, r')"
    and w': "srv w' = r'" "app w' = app w"
    using assms unfolding dlq_publish_def
    by (auto elim!: bnd_InrE simp: redis_call_eq_iff incr_def)
  then show ?thesis using xadd_law [OF add] by simp
qed

lemma dlq_read_new_effect:
  assumes "dlq_read_new R g c n b w = (Inr es, w')" and "1 \<le> n"
  shows "\<exists>gr. ks_group (kv w) MAIN_STREAM g = Some gr \<and> es = take (nat n) (g_new gr) \<and>
    kv w' = ks_put_group MAIN_STREAM g (deliver c (ks_time (kv w)) (nat n) gr) (kv w) \<and>
    app w' = app w"
  using assms unfolding dlq_read_new_def Let_def
  by (auto elim!: bnd_InrE simp: redis_call_eq_iff dest!: xreadgroup_new_law)

lemma dlq_read_pending_effect:
  assumes "dlq_read_pending R g c n w = (Inr es, w')" and "1 \<le> n"
  shows "\<exists>gr. ks_group (kv w) MAIN_STREAM g = Some gr \<and> es = take (nat n) (owned_by c gr) \<and>
    kv w' = ks_put_group MAIN_STREAM g (touch c (ks_time (kv w)) (map fst es) gr) (kv w) \<and>
    app w' = app w"
  using assms unfolding dlq_read_pending_def
  by (auto elim!: bnd_InrE simp: redis_call_eq_iff dest!: xreadgroup_own_law)

lemma dlq_ack_effect:
  assumes "dlq_ack R g i w = (Inr m, w')"
  shows "kv w' = ks_ack MAIN_STREAM g i (kv w) \<and> app w' = app w"
  using assms unfolding dlq_ack_def
  by (auto simp: redis_call_eq_iff ks_ack_def dest!: xack_law split: option.splits)

lemma move_to_dlq_effect:
  assumes "move_to_dlq R g i p reason n w = (Inr j, w')"
  shows "kv w' = ks_xadd DLQ_STREAM j (dlq_fields p reason n) (ks_ack MAIN_STREAM g i (kv w)) \<and>
    app w' = app w"
proof -
  obtain m r1 r2 where ack: "xack R MAIN_STREAM g i (srv w) = (Inr m, r1)"
    and add: "xadd R DLQ_STREAM (dlq_fields p reason n) r1 = (Inr j, r2)"
    and w': "srv w' = r2" "app w' = app w"
    using assms unfolding move_to_dlq_def
    by (auto elim!: bnd_InrE simp: redis_call_eq_iff incr_def)
  have "view r1 = ks_ack MAIN_STREAM g i (kv w)"
    using xack_law [OF ack] by (auto simp: ks_ack_def split: option.splits)
  then show ?thesis using xadd_law [OF add] w' by simp
qed

lemma is_processed_effect:
  assumes "is_processed R pid w = (Inr d, w')"
  shows "kv w' = kv w \<and> d = (pid \<in> ks_live_set (kv w) PROCESSED_SET) \<and> app w' = app w"
  using assms unfolding is_processed_def
  by (auto elim!: bnd_InrE simp: redis_call_eq_iff dest!: sismember_law split: if_splits)

lemma mark_processed_effect:
  assumes "mark_processed R pid w = (Inr d, w')"
  shows "kv w' = ks_sadd PROCESSED_SET pid (kv w) \<and> app w' = app w"
  using assms unfolding mark_processed_def
  by (auto elim!: bnd_InrE simp: redis_call_eq_iff dest!: sadd_law)

lemma dlq_ensure_group_effect:
  assumes "dlq_ensure_group R s g w = (Inr b, w')"
  shows "b = (ks_group (kv w) s g = None) \<and> app w' = app w \<and>
    kv w' = (if b then ks_put_group s g (new_group (ks_entries (kv w) s)) (kv w) else kv w)"
  by (rule group_create_effect [OF assms [unfolded dlq_ensure_group_def, folded group_create_def]])

end

subsection \<open>Effects when the server is up\<close>

context redis_available
begin

lemma redis_call_up:
  "m (srv w) = (Inr x, r') \<Longrightarrow> redis_call m w = (Inr x, w\<lparr>srv := r'\<rparr>)"
  by (simp add: redis_call_def)

lemma dlq_publish_up: "\<exists>i w'. dlq_publish R p w = (Inr i, w')"
proof -
  have "payment_to_fields p \<noteq> []" by (simp add: payment_to_fields_def)
  then obtain i r' where "xadd R MAIN_STREAM (payment_to_fields p) (srv w) = (Inr i, r')"
    using xadd_up by blast
  then show ?thesis by (simp add: dlq_publish_def bnd_Inr [OF redis_call_up])
qed

lemma dlq_read_new_up:
  assumes "ks_group (kv w) MAIN_STREAM g = Some gr" and "1 \<le> n"
  obtains w' where "dlq_read_new R g c n b w = (Inr (take (nat n) (g_new gr)), w')"
    and "kv w' = ks_put_group MAIN_STREAM g (deliver c (ks_time (kv w)) (nat n) gr) (kv w)"
    and "app w' = app w"
proof -
  obtain rep r' where
    "xreadgroup R g c MAIN_STREAM ''>'' n (if b > 0 then Some b else None) (srv w) = (Inr rep, r')"
    using xreadgroup_up [of "srv w" MAIN_STREAM g n "''>''"] assms by fastforce
  then have "\<exists>es w'. dlq_read_new R g c n b w = (Inr es, w')"
    by (simp add: dlq_read_new_def Let_def bnd_Inr [OF redis_call_up])
  then show ?thesis using dlq_read_new_effect [OF _ assms(2)] assms(1) that by fastforce
qed

lemma dlq_read_pending_up:
  assumes "ks_group (kv w) MAIN_STREAM g = Some gr" and "1 \<le> n"
  obtains w' where "dlq_read_pending R g c n w = (Inr (take (nat n) (owned_by c gr)), w')"
    and "kv w' = ks_put_group MAIN_STREAM g
      (touch c (ks_time (kv w)) (map fst (take (nat n) (owned_by c gr))) gr) (kv w)"
    and "app w' = app w"
proof -
  obtain rep r' where
    "xreadgroup R g c MAIN_STREAM ''0'' n None (srv w) = (Inr rep, r')"
    using xreadgroup_up [of "srv w" MAIN_STREAM g n "''0''"] assms by fastforce
  then have "\<exists>es w'. dlq_read_pending R g c n w = (Inr es, w')"
    by (simp add: dlq_read_pending_def bnd_Inr [OF redis_call_up])
  then show ?thesis using dlq_read_pending_effect [OF _ assms(2)] assms(1) that by fastforce
qed

lemma dlq_ack_up:
  obtains m w' where "dlq_ack R g i w = (Inr m, w')" and "kv w' = ks_ack MAIN_STREAM g i (kv w)"
    and "app w' = app w"
proof -
  obtain m r' where "xack R MAIN_STREAM g i (srv w) = (Inr m, r')" using xack_up by blast
  then have "\<exists>w'. dlq_ack R g i w = (Inr m, w')" by (simp add: dlq_ack_def redis_call_up)
  then show ?thesis using dlq_ack_effect that by blast
qed

lemma move_to_dlq_up:
  obtains j w' where "move_to_dlq R g i p reason n w = (Inr j, w')"
    and "kv w' = ks_xadd DLQ_STREAM j (dlq_fields p reason n) (ks_ack MAIN_STREAM g i (kv w))"
    and "app w' = app w"
proof -
  obtain m r1 where ack: "xack R MAIN_STREAM g i (srv w) = (Inr m, r1)" using xack_up by blast
  have "dlq_fields p reason n \<noteq> []" by (simp add: dlq_fields_def payment_to_fields_def)
  then obtain j r2 where "xadd R DLQ_STREAM (dlq_fields p reason n) r1 = (Inr j, r2)"
    using xadd_up by blast
  with ack have "\<exists>w'. move_to_dlq R g i p reason n w = (Inr j, w')"
    by (simp add: move_to_dlq_def bnd_Inr [OF redis_call_up])
  then show ?thesis using move_to_dlq_effect that by blast
qed

lemma is_processed_up:
  obtains w' where "is_processed R pid w = (Inr (pid \<in> ks_live_set (kv w) PROCESSED_SET), w')"
    and "kv w' = kv w" and "app w' = app w"
proof -
  obtain m r' where "sismember R PROCESSED_SET pid (srv w) = (Inr m, r')"
    using sismember_up by blast
  then have "\<exists>d w'. is_processed R pid w = (Inr d, w')"
    by (simp add: is_processed_def bnd_Inr [OF redis_call_up])
  then show ?thesis using is_processed_effect that by blast
qed

lemma dlq_ensure_group_up: "\<exists>b w'. dlq_ensure_group R s g w = (Inr b, w')"
  using group_create_up [of s g w] unfolding group_create_def dlq_ensure_group_def by blast

end

end
