(* ===== verification/DLQ_Consumer.thy ===== *)
theory DLQ_Consumer
  imports DLQ_Broker
begin

section \<open>Dead letter queue: the idempotent consumer\<close>

text \<open>
  \<^verbatim>\<open>dlq_pattern/consumer.py\<close>. \<open>dlq_process\<close> is the body of the \<^verbatim>\<open>for msg_id, fields in batch\<close>
  loop, \<open>dlq_poll\<close> one turn of the outer loop, \<open>run_idempotent_consumer\<close> the coroutine. The
  locals \<^verbatim>\<open>attempts\<close> and \<^verbatim>\<open>total_processed\<close> are the record \<open>dlq_locals\<close>. The handler is an
  argument: an effect on the world that may raise.

  The outer loop runs until \<^verbatim>\<open>stop_event\<close> is set by somebody else. Its environment is a list with
  one element per turn: what the other tasks did to the world before that turn (while this
  consumer slept or waited). The end of the list is the turn that finds the event set.
\<close>

type_synonym ('r, 'x) dlq_handler = "string \<Rightarrow> payment \<Rightarrow> (('r, 'x) world_scheme, unit) io"

record dlq_locals =
  attempts :: "(string, int) dict"
  total_processed :: int

definition dlq_failed :: "'r redis \<Rightarrow> string \<Rightarrow> int \<Rightarrow> string \<Rightarrow> payment \<Rightarrow> exn \<Rightarrow> dlq_locals \<Rightarrow>
    (('r, 'x) world_scheme, dlq_locals) io" where
  "dlq_failed R grp max_attempts msg_id payment exc l =
     (let attempt = dict_get (attempts l) msg_id 0 + 1;
          l' = l\<lparr>attempts := AList.update msg_id attempt (attempts l)\<rparr>
      in if attempt < max_attempts then ret l'
         else bnd (move_to_dlq R grp msg_id payment (exn_name exc) attempt) (\<lambda>_.
              ret (l'\<lparr>attempts := AList.delete msg_id (attempts l')\<rparr>)))"

definition dlq_succeeded :: "'r redis \<Rightarrow> string \<Rightarrow> string \<Rightarrow> payment \<Rightarrow> dlq_locals \<Rightarrow>
    (('r, 'x) world_scheme, dlq_locals) io" where
  "dlq_succeeded R grp msg_id payment l =
     bnd (mark_processed R (payment_id payment)) (\<lambda>_.
     bnd (dlq_ack R grp msg_id) (\<lambda>_.
     bnd (incr ''dlq'' ''payments_processed'' 1) (\<lambda>_.
     ret (l\<lparr>attempts := AList.delete msg_id (attempts l),
            total_processed := total_processed l + 1\<rparr>))))"

definition dlq_process :: "'r redis \<Rightarrow> string \<Rightarrow> string \<Rightarrow> ('r, 'x) dlq_handler \<Rightarrow> int \<Rightarrow>
    entry \<Rightarrow> dlq_locals \<Rightarrow> (('r, 'x) world_scheme, dlq_locals) io" where
  "dlq_process R consumer_id grp handler max_attempts m l =
     bnd (liftr (payment_from_fields (snd m))) (\<lambda>payment.
     bnd (is_processed R (payment_id payment)) (\<lambda>dup.
     if dup then
       bnd (dlq_ack R grp (fst m)) (\<lambda>_.
       bnd (incr ''dlq'' ''skipped_duplicate'' 1) (\<lambda>_.
       ret l))
     else
       bnd (try_io (handler consumer_id payment)) (\<lambda>res. case res of
         Inl exc \<Rightarrow> dlq_failed R grp max_attempts (fst m) payment exc l
       | Inr _ \<Rightarrow> dlq_succeeded R grp (fst m) payment l)))"

definition dlq_fetch :: "'r redis \<Rightarrow> string \<Rightarrow> string \<Rightarrow> int \<Rightarrow> int \<Rightarrow>
    (('r, 'x) world_scheme, entry list) io" where
  "dlq_fetch R consumer_id grp count block_ms =
     bnd (dlq_read_new R grp consumer_id count block_ms) (\<lambda>batch.
     if batch = [] then dlq_read_pending R grp consumer_id count else ret batch)"

definition dlq_poll :: "'r redis \<Rightarrow> string \<Rightarrow> string \<Rightarrow> ('r, 'x) dlq_handler \<Rightarrow> int \<Rightarrow> int \<Rightarrow> int \<Rightarrow>
    dlq_locals \<Rightarrow> (('r, 'x) world_scheme, dlq_locals) io" where
  "dlq_poll R consumer_id grp handler max_attempts count block_ms l =
     bnd (dlq_fetch R consumer_id grp count block_ms) (\<lambda>batch.
     for_each (dlq_process R consumer_id grp handler max_attempts) batch l)"

fun dlq_loop :: "'r redis \<Rightarrow> string \<Rightarrow> string \<Rightarrow> ('r, 'x) dlq_handler \<Rightarrow> int \<Rightarrow> int \<Rightarrow> int \<Rightarrow>
    (('r, 'x) world_scheme \<Rightarrow> ('r, 'x) world_scheme) list \<Rightarrow> dlq_locals \<Rightarrow>
    (('r, 'x) world_scheme, dlq_locals) io" where
  "dlq_loop R c g h mx n b [] l = ret l"
| "dlq_loop R c g h mx n b (env # envs) l =
     bnd (modify env) (\<lambda>_.
     bnd (dlq_poll R c g h mx n b l) (\<lambda>l'.
     dlq_loop R c g h mx n b envs l'))"

definition run_idempotent_consumer :: "'r redis \<Rightarrow> string \<Rightarrow> string \<Rightarrow> ('r, 'x) dlq_handler \<Rightarrow>
    int \<Rightarrow> int \<Rightarrow> int \<Rightarrow> (('r, 'x) world_scheme \<Rightarrow> ('r, 'x) world_scheme) list \<Rightarrow>
    (('r, 'x) world_scheme, int) io" where
  "run_idempotent_consumer R consumer_id grp handler max_attempts count block_ms envs =
     bnd (dlq_ensure_all_groups R grp) (\<lambda>_.
     bnd (dlq_loop R consumer_id grp handler max_attempts count block_ms envs
            \<lparr>attempts = [], total_processed = 0\<rparr>) (\<lambda>l.
     ret (total_processed l)))"

subsection \<open>No payment is lost\<close>

text \<open>
  An entry of the main stream is settled when its payment is recorded as processed or stands on
  the dead-letter stream. The invariant: every entry is still outstanding in the group
  (undelivered or pending) or settled.
\<close>

definition settled :: "keyspace \<Rightarrow> entry \<Rightarrow> bool" where
  "settled k e \<longleftrightarrow> (\<exists>p. payment_from_fields (snd e) = Inr p \<and>
     (payment_id p \<in> ks_live_set k PROCESSED_SET \<or>
      (\<exists>j reason n. (j, dlq_fields p reason n) \<in> set (ks_entries k DLQ_STREAM))))"

definition dlq_inv :: "string \<Rightarrow> keyspace \<Rightarrow> bool" where
  "dlq_inv g k \<longleftrightarrow> (\<exists>gr. ks_group k MAIN_STREAM g = Some gr \<and>
     group_wf (ks_entries k MAIN_STREAM) gr \<and>
     (\<forall>e \<in> set (ks_entries k MAIN_STREAM). e \<in> set (outstanding gr) \<or> settled k e))"

lemma settled_mono:
  "settled k e \<Longrightarrow> ks_live_set k PROCESSED_SET \<subseteq> ks_live_set k' PROCESSED_SET \<Longrightarrow>
    set (ks_entries k DLQ_STREAM) \<subseteq> set (ks_entries k' DLQ_STREAM) \<Longrightarrow> settled k' e"
  unfolding settled_def by blast

lemma dlq_inv_keep:
  assumes "dlq_inv g k" and "ks_group k MAIN_STREAM g = Some gr"
    and "ks_group k' MAIN_STREAM g = Some gr'" and "outstanding gr' = outstanding gr"
    and "ks_entries k' MAIN_STREAM = ks_entries k MAIN_STREAM"
    and "ks_live_set k PROCESSED_SET \<subseteq> ks_live_set k' PROCESSED_SET"
    and "set (ks_entries k DLQ_STREAM) \<subseteq> set (ks_entries k' DLQ_STREAM)"
  shows "dlq_inv g k'"
  using assms unfolding dlq_inv_def
  by (auto simp: group_wf_def intro: settled_mono)

lemma dlq_inv_publish:
  assumes "dlq_inv g k" and "i \<notin> fst ` set (ks_entries k MAIN_STREAM)"
  shows "dlq_inv g (ks_xadd MAIN_STREAM i f k)"
proof -
  obtain gr where gr: "ks_group k MAIN_STREAM g = Some gr"
    "group_wf (ks_entries k MAIN_STREAM) gr"
    "\<forall>e \<in> set (ks_entries k MAIN_STREAM). e \<in> set (outstanding gr) \<or> settled k e"
    using assms(1) by (auto simp: dlq_inv_def)
  have "settled k e \<Longrightarrow> settled (ks_xadd MAIN_STREAM i f k) e" for e
    by (erule settled_mono) auto
  then show ?thesis
    using gr group_wf_xadd [OF gr(2) assms(2)] unfolding dlq_inv_def by auto
qed

text \<open>Taking an entry off the pending list keeps the invariant once the entry is settled.\<close>

lemma dlq_inv_ack:
  assumes inv: "dlq_inv g k" and e: "e \<in> set (ks_entries k MAIN_STREAM)"
    and k': "ks_group k' MAIN_STREAM g = map_option (unpend (fst e)) (ks_group k MAIN_STREAM g)"
      "ks_entries k' MAIN_STREAM = ks_entries k MAIN_STREAM"
      "ks_live_set k PROCESSED_SET \<subseteq> ks_live_set k' PROCESSED_SET"
      "set (ks_entries k DLQ_STREAM) \<subseteq> set (ks_entries k' DLQ_STREAM)"
    and fin: "settled k' e"
  shows "dlq_inv g k'"
proof -
  obtain gr where gr: "ks_group k MAIN_STREAM g = Some gr"
    and wf: "group_wf (ks_entries k MAIN_STREAM) gr"
    and all: "\<forall>e \<in> set (ks_entries k MAIN_STREAM). e \<in> set (outstanding gr) \<or> settled k e"
    using inv by (auto simp: dlq_inv_def)
  have "x \<in> set (outstanding (unpend (fst e) gr)) \<or> settled k' x"
    if x: "x \<in> set (ks_entries k MAIN_STREAM)" for x
  proof (cases "fst x = fst e")
    case True
    then have "x = e"
      using x e wf by (metis eq_key_imp_eq_value group_wf_def prod.collapse)
    then show ?thesis using fin by simp
  next
    case False
    moreover have "settled k x \<Longrightarrow> settled k' x" by (erule settled_mono [OF _ k'(3,4)])
    ultimately show ?thesis
      using all x by (auto simp: outstanding_unpend outstanding_def)
  qed
  then show ?thesis
    using gr k'(1,2) group_wf_unpend [OF wf] by (auto simp: dlq_inv_def)
qed

subsection \<open>One message\<close>

context redis_server
begin

lemma dlq_failed_effect:
  assumes "dlq_failed R g mx i p e l w = (Inr l', w')"
  shows "app w' = app w \<and>
    (let n = dict_get (attempts l) i 0 + 1 in
     if n < mx then kv w' = kv w \<and> l' = l\<lparr>attempts := AList.update i n (attempts l)\<rparr>
     else \<exists>j. kv w' = ks_xadd DLQ_STREAM j (dlq_fields p (exn_name e) n)
                  (ks_ack MAIN_STREAM g i (kv w)) \<and>
          l' = l\<lparr>attempts := AList.delete i (AList.update i n (attempts l))\<rparr>)"
  using assms unfolding dlq_failed_def Let_def
  by (auto elim!: bnd_InrE dest!: move_to_dlq_effect split: if_splits)

lemma dlq_succeeded_effect:
  assumes "dlq_succeeded R g i p l w = (Inr l', w')"
  shows "app w' = app w \<and>
    kv w' = ks_ack MAIN_STREAM g i (ks_sadd PROCESSED_SET (payment_id p) (kv w)) \<and>
    l' = l\<lparr>attempts := AList.delete i (attempts l), total_processed := total_processed l + 1\<rparr>"
  using assms unfolding dlq_succeeded_def
  by (auto elim!: bnd_InrE dest!: mark_processed_effect dlq_ack_effect simp: incr_def)

text \<open>The three ways one message can go, given that no command failed.\<close>

lemma dlq_process_cases:
  assumes "dlq_process R c g h mx m l w = (Inr l', w')"
  obtains (skip) p where "payment_from_fields (snd m) = Inr p"
      "payment_id p \<in> ks_live_set (kv w) PROCESSED_SET"
      "kv w' = ks_ack MAIN_STREAM g (fst m) (kv w)" "app w' = app w" "l' = l"
  | (success) p w1 w2 where "payment_from_fields (snd m) = Inr p" "kv w1 = kv w" "app w1 = app w"
      "payment_id p \<notin> ks_live_set (kv w) PROCESSED_SET" "h c p w1 = (Inr (), w2)"
      "dlq_succeeded R g (fst m) p l w2 = (Inr l', w')"
  | (failure) p e w1 w2 where "payment_from_fields (snd m) = Inr p" "kv w1 = kv w" "app w1 = app w"
      "payment_id p \<notin> ks_live_set (kv w) PROCESSED_SET" "h c p w1 = (Inl e, w2)"
      "dlq_failed R g mx (fst m) p e l w2 = (Inr l', w')"
proof -
  obtain p d w1 where p: "payment_from_fields (snd m) = Inr p"
    and d: "is_processed R (payment_id p) w = (Inr d, w1)"
    and rest: "(if d then bnd (dlq_ack R g (fst m)) (\<lambda>_. bnd (incr ''dlq'' ''skipped_duplicate'' 1) (\<lambda>_. ret l))
       else bnd (try_io (h c p)) (\<lambda>res. case res of Inl exc \<Rightarrow> dlq_failed R g mx (fst m) p exc l
         | Inr _ \<Rightarrow> dlq_succeeded R g (fst m) p l)) w1 = (Inr l', w')"
    using assms unfolding dlq_process_def by (auto elim!: bnd_InrE)
  note eff = is_processed_effect [OF d]
  show ?thesis
  proof (cases d)
    case True
    then have "kv w' = ks_ack MAIN_STREAM g (fst m) (kv w1) \<and> app w' = app w1 \<and> l' = l"
      using rest by (auto elim!: bnd_InrE dest!: dlq_ack_effect simp: incr_def)
    then show ?thesis using skip p eff True by simp
  next
    case False
    then obtain res w2 where h: "h c p w1 = (res, w2)"
      and k: "(case res of Inl exc \<Rightarrow> dlq_failed R g mx (fst m) p exc l
         | Inr _ \<Rightarrow> dlq_succeeded R g (fst m) p l) w2 = (Inr l', w')"
      using rest by (auto elim!: bnd_InrE simp: try_io_eq_iff)
    then show ?thesis
      using success failure p eff False by (cases res) auto
  qed
qed

end

text \<open>
  What the handler and the other tasks may do to the server: anything that keeps the invariant and
  removes no entry of the main stream, such as publishing.
\<close>

definition dlq_benign ::
    "('r \<Rightarrow> keyspace) \<Rightarrow> string \<Rightarrow> (('r, 'x) world_scheme \<Rightarrow> ('r, 'x) world_scheme) \<Rightarrow> bool" where
  "dlq_benign view g m \<longleftrightarrow> (\<forall>w. dlq_inv g (view (srv w)) \<longrightarrow> dlq_inv g (view (srv (m w))) \<and>
     set (ks_entries (view (srv w)) MAIN_STREAM) \<subseteq> set (ks_entries (view (srv (m w))) MAIN_STREAM))"

lemma dlq_benignD:
  assumes "dlq_benign view g m" and "dlq_inv g (view (srv w))"
  shows "dlq_inv g (view (srv (m w)))"
    and "set (ks_entries (view (srv w)) MAIN_STREAM) \<subseteq> set (ks_entries (view (srv (m w))) MAIN_STREAM)"
  using assms by (auto simp: dlq_benign_def)

context redis_server
begin

lemma dlq_process_inv:
  assumes run: "dlq_process R c g h mx m l w = (Inr l', w')"
    and benign: "\<And>p. dlq_benign view g (\<lambda>w. snd (h c p w))"
    and inv: "dlq_inv g (kv w)" and m: "m \<in> set (ks_entries (kv w) MAIN_STREAM)"
  shows "dlq_inv g (kv w') \<and>
    set (ks_entries (kv w) MAIN_STREAM) \<subseteq> set (ks_entries (kv w') MAIN_STREAM)"
  using run
proof (cases rule: dlq_process_cases)
  case (skip p)
  moreover have "settled (kv w') m" using skip by (auto simp: settled_def)
  ultimately show ?thesis using dlq_inv_ack [OF inv m, of "kv w'"] by simp
next
  case (success p w1 w2)
  have inv2: "dlq_inv g (kv w2)" and sub:
    "set (ks_entries (kv w) MAIN_STREAM) \<subseteq> set (ks_entries (kv w2) MAIN_STREAM)"
    using dlq_benignD [OF benign [of p], of w1] success inv by auto
  moreover note eff = dlq_succeeded_effect [OF success(6)]
  moreover have "settled (kv w') m" using success(1) eff by (auto simp: settled_def)
  ultimately show ?thesis using dlq_inv_ack [OF inv2, of m "kv w'"] m by auto
next
  case (failure p e w1 w2)
  have inv2: "dlq_inv g (kv w2)" and sub:
    "set (ks_entries (kv w) MAIN_STREAM) \<subseteq> set (ks_entries (kv w2) MAIN_STREAM)"
    using dlq_benignD [OF benign [of p], of w1] failure inv by auto
  moreover note eff = dlq_failed_effect [OF failure(6)]
  show ?thesis
  proof (cases "dict_get (attempts l) (fst m) 0 + 1 < mx")
    case True
    then show ?thesis using eff inv2 sub by (simp add: Let_def)
  next
    case False
    then obtain j n where k: "kv w' = ks_xadd DLQ_STREAM j (dlq_fields p (exn_name e) n)
        (ks_ack MAIN_STREAM g (fst m) (kv w2))"
      using eff by (auto simp: Let_def)
    moreover have "settled (kv w') m" using failure(1) k by (auto simp: settled_def)
    ultimately show ?thesis using dlq_inv_ack [OF inv2, of m "kv w'"] m sub by auto
  qed
qed

lemma dlq_fetch_inv:
  assumes run: "dlq_fetch R c g n b w = (Inr batch, w')" and n: "1 \<le> n" and inv: "dlq_inv g (kv w)"
  shows "dlq_inv g (kv w') \<and> set batch \<subseteq> set (ks_entries (kv w') MAIN_STREAM) \<and>
    ks_entries (kv w') = ks_entries (kv w) \<and> ks_live_set (kv w') = ks_live_set (kv w) \<and>
    app w' = app w"
proof -
  obtain gr where gr: "ks_group (kv w) MAIN_STREAM g = Some gr"
    and sub: "set (outstanding gr) \<subseteq> set (ks_entries (kv w) MAIN_STREAM)"
    using inv by (auto simp: dlq_inv_def group_wf_def)
  obtain es w1 where es: "dlq_read_new R g c n b w = (Inr es, w1)"
    and k: "(if es = [] then dlq_read_pending R g c n else ret es) w1 = (Inr batch, w')"
    using run unfolding dlq_fetch_def by (auto elim: bnd_InrE)
  have new: "es = take (nat n) (g_new gr)" "app w1 = app w"
    "kv w1 = ks_put_group MAIN_STREAM g (deliver c (ks_time (kv w)) (nat n) gr) (kv w)"
    using dlq_read_new_effect [OF es n] gr by auto
  have inv1: "dlq_inv g (kv w1)"
    by (rule dlq_inv_keep [OF inv gr, where gr' = "deliver c (ks_time (kv w)) (nat n) gr"])
      (simp_all add: new(3))
  show ?thesis
  proof (cases "es = []")
    case True
    then have "kv w' = ks_put_group MAIN_STREAM g (touch c (ks_time (kv w1)) (map fst batch)
        (deliver c (ks_time (kv w)) (nat n) gr)) (kv w1)" "app w' = app w1"
      "batch = take (nat n) (owned_by c (deliver c (ks_time (kv w)) (nat n) gr))"
      using dlq_read_pending_effect [of g c n w1 batch w'] k n new(3) by auto
    moreover have "set (owned_by c (deliver c (ks_time (kv w)) (nat n) gr)) \<subseteq> set (outstanding gr)"
      using owned_by_pel [of c "deliver c (ks_time (kv w)) (nat n) gr"]
        set_take_subset [of "nat n" "g_new gr"] by (auto simp: outstanding_def)
    moreover have "dlq_inv g (kv w')"
      by (rule dlq_inv_keep [OF inv1, where gr = "deliver c (ks_time (kv w)) (nat n) gr"
            and gr' = "touch c (ks_time (kv w1)) (map fst batch)
              (deliver c (ks_time (kv w)) (nat n) gr)"])
        (simp_all add: calculation new(3))
    ultimately show ?thesis using new sub by (auto dest!: in_set_takeD)
  next
    case False
    then have "batch = es" "w' = w1" using k by auto
    moreover have "set es \<subseteq> set (outstanding gr)"
      by (auto simp: new(1) outstanding_def dest: in_set_takeD)
    ultimately show ?thesis using inv1 new(2,3) sub by auto
  qed
qed

end

context redis_server
begin

lemma dlq_poll_inv:
  assumes run: "dlq_poll R c g h mx n b l w = (Inr l', w')" and n: "1 \<le> n"
    and benign: "\<And>p. dlq_benign view g (\<lambda>w. snd (h c p w))" and inv: "dlq_inv g (kv w)"
  shows "dlq_inv g (kv w')"
proof -
  obtain batch w1 where fetch: "dlq_fetch R c g n b w = (Inr batch, w1)"
    and each: "for_each (dlq_process R c g h mx) batch l w1 = (Inr l', w')"
    using run unfolding dlq_poll_def by (auto elim: bnd_InrE)
  have start: "dlq_inv g (kv w1) \<and> set batch \<subseteq> set (ks_entries (kv w1) MAIN_STREAM)"
    using dlq_fetch_inv [OF fetch n inv] by blast
  have "dlq_inv g (kv w') \<and> set batch \<subseteq> set (ks_entries (kv w') MAIN_STREAM)"
  proof (rule for_each_invariant [where P = "\<lambda>l w. dlq_inv g (kv w) \<and>
      set batch \<subseteq> set (ks_entries (kv w) MAIN_STREAM)", OF _ each start])
    fix x s w s' w'
    assume "x \<in> set batch" "dlq_process R c g h mx x s w = (Inr s', w')"
      and "dlq_inv g (kv w) \<and> set batch \<subseteq> set (ks_entries (kv w) MAIN_STREAM)"
    then show "dlq_inv g (kv w') \<and> set batch \<subseteq> set (ks_entries (kv w') MAIN_STREAM)"
      using dlq_process_inv [where c = c and g = g and h = h and l = s and mx = mx, OF _ benign,
          of x w s' w'] by auto
  qed
  then show ?thesis by simp
qed

lemma dlq_loop_inv:
  assumes "dlq_loop R c g h mx n b envs l w = (Inr l', w')" and "1 \<le> n"
    and "\<And>p. dlq_benign view g (\<lambda>w. snd (h c p w))" and "\<forall>env \<in> set envs. dlq_benign view g env"
    and "dlq_inv g (kv w)"
  shows "dlq_inv g (kv w')"
  using assms(1,4,5)
proof (induction envs arbitrary: l w)
  case Nil
  then show ?case by simp
next
  case (Cons env envs)
  then obtain l1 w1 where poll: "dlq_poll R c g h mx n b l (env w) = (Inr l1, w1)"
    and rest: "dlq_loop R c g h mx n b envs l1 w1 = (Inr l', w')"
    by (auto elim: bnd_InrE)
  have "dlq_inv g (kv (env w))"
    using Cons.prems(2,3) by (auto intro: dlq_benignD(1))
  then have "dlq_inv g (kv w1)" by (rule dlq_poll_inv [OF poll assms(2,3)])
  then show ?case using Cons.IH [OF rest] Cons.prems(2) by simp
qed

end

subsection \<open>The whole run\<close>

lemma ks_put_same_streams:
  "settled (ks_put_group s g gr k) = settled k"
  by (simp add: settled_def fun_eq_iff)

context redis_server
begin

lemma dlq_ensure_all_effect:
  assumes "dlq_ensure_all_groups R g w = (Inr (), w')"
  shows "app w' = app w \<and> ks_entries (kv w') = ks_entries (kv w) \<and>
    ks_live_set (kv w') = ks_live_set (kv w) \<and>
    ks_group (kv w') MAIN_STREAM g = Some (case ks_group (kv w) MAIN_STREAM g of
      None \<Rightarrow> new_group (ks_entries (kv w) MAIN_STREAM) | Some gr \<Rightarrow> gr)"
  using assms unfolding dlq_ensure_all_groups_def
  by (auto elim!: bnd_InrE dest!: dlq_ensure_group_effect split: option.splits if_splits)

text \<open>
  The consumer may start on a fresh stream, on one that others have published to, or on one an
  earlier run left behind.
\<close>

lemma dlq_inv_start:
  assumes run: "dlq_ensure_all_groups R g w = (Inr (), w')"
    and start: "dlq_inv g (kv w) \<or> ks_group (kv w) MAIN_STREAM g = None \<and>
      distinct (map fst (ks_entries (kv w) MAIN_STREAM))"
  shows "dlq_inv g (kv w')"
  using start dlq_ensure_all_effect [OF run]
  by (auto simp: dlq_inv_def settled_def group_wf_new_group)

lemma run_idempotent_consumer_inv:
  assumes run: "run_idempotent_consumer R c g h mx n b envs w = (Inr tot, w')" and n: "1 \<le> n"
    and benign: "\<And>p. dlq_benign view g (\<lambda>w. snd (h c p w))"
      "\<forall>env \<in> set envs. dlq_benign view g env"
    and start: "dlq_inv g (kv w) \<or> ks_group (kv w) MAIN_STREAM g = None \<and>
      distinct (map fst (ks_entries (kv w) MAIN_STREAM))"
  shows "dlq_inv g (kv w')"
proof -
  obtain w1 l where "dlq_ensure_all_groups R g w = (Inr (), w1)"
    and loop: "dlq_loop R c g h mx n b envs \<lparr>attempts = [], total_processed = 0\<rparr> w1 = (Inr l, w')"
    using run unfolding run_idempotent_consumer_def by (auto elim!: bnd_InrE)
  then have "dlq_inv g (kv w1)" by (intro dlq_inv_start [OF _ start])
  then show ?thesis by (rule dlq_loop_inv [OF loop n benign])
qed

end

context redis_available
begin

lemma dlq_publish_benign: "dlq_benign view g (\<lambda>w. snd (dlq_publish R p w))"
  unfolding dlq_benign_def
proof (intro allI impI)
  fix w :: "('a, 'c) world_scheme"
  assume inv: "dlq_inv g (kv w)"
  obtain i w' where run: "dlq_publish R p w = (Inr i, w')" using dlq_publish_up by blast
  show "dlq_inv g (kv (snd (dlq_publish R p w))) \<and> set (ks_entries (kv w) MAIN_STREAM)
      \<subseteq> set (ks_entries (kv (snd (dlq_publish R p w))) MAIN_STREAM)"
    using dlq_publish_effect [OF run] dlq_inv_publish [OF inv] run by auto
qed

end

subsection \<open>No payment is charged twice\<close>

text \<open>
  A handler that charges the payment by appending its id to a log, or raises and charges nothing.
  It does not talk to the broker. The other tasks neither touch the log nor forget a processed
  payment.
\<close>

definition charges :: "('x \<Rightarrow> string list) \<Rightarrow> ('r, 'x) dlq_handler \<Rightarrow> bool" where
  "charges lg h \<longleftrightarrow> (\<forall>c p w res w'. h c p w = (res, w') \<longrightarrow> srv w' = srv w \<and>
     lg (app w') = (case res of Inr _ \<Rightarrow> lg (app w) @ [payment_id p] | Inl _ \<Rightarrow> lg (app w)))"

definition dlq_unrelated ::
    "('r \<Rightarrow> keyspace) \<Rightarrow> ('x \<Rightarrow> string list) \<Rightarrow>
     (('r, 'x) world_scheme \<Rightarrow> ('r, 'x) world_scheme) \<Rightarrow> bool" where
  "dlq_unrelated view lg m \<longleftrightarrow> (\<forall>w. lg (app (m w)) = lg (app w) \<and>
     ks_live_set (view (srv w)) PROCESSED_SET \<subseteq> ks_live_set (view (srv (m w))) PROCESSED_SET)"

definition charged_once :: "('x \<Rightarrow> string list) \<Rightarrow> keyspace \<Rightarrow> int \<Rightarrow> 'x \<Rightarrow> int \<Rightarrow> bool" where
  "charged_once lg k base x n \<longleftrightarrow> distinct (lg x) \<and> set (lg x) \<subseteq> ks_live_set k PROCESSED_SET \<and>
     int (length (lg x)) = base + n"

context redis_server
begin

lemma dlq_process_charged_once:
  assumes run: "dlq_process R c g h mx m l w = (Inr l', w')" and h: "charges lg h"
    and once: "charged_once lg (kv w) base (app w) (total_processed l)"
  shows "charged_once lg (kv w') base (app w') (total_processed l')"
  using run
proof (cases rule: dlq_process_cases)
  case (skip p)
  then show ?thesis using once by (simp add: charged_once_def)
next
  case (success p w1 w2)
  then have "lg (app w2) = lg (app w) @ [payment_id p]" "kv w2 = kv w"
    using h by (fastforce simp: charges_def)+
  then show ?thesis
    using once dlq_succeeded_effect [OF success(6)] success(4) by (auto simp: charged_once_def)
next
  case (failure p e w1 w2)
  then have "lg (app w2) = lg (app w)" "kv w2 = kv w"
    using h by (fastforce simp: charges_def)+
  then show ?thesis
    using once dlq_failed_effect [OF failure(6)] by (auto simp: charged_once_def Let_def split: if_splits)
qed

lemma dlq_fetch_live:
  assumes "dlq_fetch R c g n b w = (Inr batch, w')" and "1 \<le> n"
  shows "ks_live_set (kv w') = ks_live_set (kv w) \<and> app w' = app w"
  using assms unfolding dlq_fetch_def
  by (auto elim!: bnd_InrE split: if_splits dest!: dlq_read_new_effect dlq_read_pending_effect)

lemma dlq_poll_charged_once:
  assumes run: "dlq_poll R c g h mx n b l w = (Inr l', w')" and n: "1 \<le> n" and h: "charges lg h"
    and once: "charged_once lg (kv w) base (app w) (total_processed l)"
  shows "charged_once lg (kv w') base (app w') (total_processed l')"
proof -
  obtain batch w1 where fetch: "dlq_fetch R c g n b w = (Inr batch, w1)"
    and each: "for_each (dlq_process R c g h mx) batch l w1 = (Inr l', w')"
    using run unfolding dlq_poll_def by (auto elim: bnd_InrE)
  have "charged_once lg (kv w1) base (app w1) (total_processed l)"
    using dlq_fetch_live [OF fetch n] once by (simp add: charged_once_def)
  then show ?thesis
    by (intro for_each_invariant [where P = "\<lambda>l w. charged_once lg (kv w) base (app w) (total_processed l)",
          OF _ each]) (auto intro: dlq_process_charged_once [OF _ h])
qed

lemma dlq_loop_charged_once:
  assumes "dlq_loop R c g h mx n b envs l w = (Inr l', w')" and "1 \<le> n" and "charges lg h"
    and "\<forall>env \<in> set envs. dlq_unrelated view lg env"
    and "charged_once lg (kv w) base (app w) (total_processed l)"
  shows "charged_once lg (kv w') base (app w') (total_processed l')"
  using assms(1,4,5)
proof (induction envs arbitrary: l w)
  case Nil
  then show ?case by simp
next
  case (Cons env envs)
  then obtain l1 w1 where poll: "dlq_poll R c g h mx n b l (env w) = (Inr l1, w1)"
    and rest: "dlq_loop R c g h mx n b envs l1 w1 = (Inr l', w')"
    by (auto elim: bnd_InrE)
  have "charged_once lg (kv (env w)) base (app (env w)) (total_processed l)"
    using Cons.prems(2,3) by (fastforce simp: dlq_unrelated_def charged_once_def)
  then have "charged_once lg (kv w1) base (app w1) (total_processed l1)"
    by (rule dlq_poll_charged_once [OF poll assms(2,3)])
  then show ?case using Cons.IH [OF rest] Cons.prems(2) by simp
qed

lemma run_idempotent_consumer_once:
  assumes run: "run_idempotent_consumer R c g h mx n b envs w = (Inr tot, w')" and n: "1 \<le> n"
    and h: "charges lg h" and envs: "\<forall>env \<in> set envs. dlq_unrelated view lg env"
    and start: "distinct (lg (app w))" "set (lg (app w)) \<subseteq> ks_live_set (kv w) PROCESSED_SET"
  shows "distinct (lg (app w')) \<and> set (lg (app w')) \<subseteq> ks_live_set (kv w') PROCESSED_SET \<and>
    int (length (lg (app w'))) = int (length (lg (app w))) + tot"
proof -
  obtain w1 l where ens: "dlq_ensure_all_groups R g w = (Inr (), w1)" and tot: "tot = total_processed l"
    and loop: "dlq_loop R c g h mx n b envs \<lparr>attempts = [], total_processed = 0\<rparr> w1 = (Inr l, w')"
    using run unfolding run_idempotent_consumer_def by (auto elim!: bnd_InrE)
  have "charged_once lg (kv w1) (int (length (lg (app w)))) (app w1)
      (total_processed \<lparr>attempts = [], total_processed = 0\<rparr>)"
    using start dlq_ensure_all_effect [OF ens] by (simp add: charged_once_def)
  then show ?thesis
    using dlq_loop_charged_once [OF loop n h envs] by (simp add: charged_once_def tot)
qed

end

subsection \<open>What the pending list holds is tried again\<close>

text \<open>
  \<open>waiting g c es k\<close>: nothing new is in the group's stream, and \<open>es\<close> is what consumer \<open>c\<close> was
  handed earlier and has not acknowledged.
\<close>

definition waiting :: "string \<Rightarrow> string \<Rightarrow> entry list \<Rightarrow> keyspace \<Rightarrow> bool" where
  "waiting g c es k \<longleftrightarrow> (\<exists>gr. ks_group k MAIN_STREAM g = Some gr \<and> g_new gr = [] \<and>
     distinct (map pe_id (g_pel gr)) \<and> owned_by c gr = es)"

lemma deliver_nothing [simp]: "g_new gr = [] \<Longrightarrow> deliver c t n gr = gr"
  by (simp add: deliver_def)

lemma owned_by_touch:
  assumes "distinct (map pe_id (g_pel gr))" and "set ids \<subseteq> fst ` set (owned_by c gr)"
  shows "owned_by c (touch c t ids gr) = owned_by c gr"
proof -
  have owner: "pe_owner p = c" if p: "p \<in> set (g_pel gr)" "pe_id p \<in> set ids" for p
  proof -
    obtain q where "q \<in> set (g_pel gr)" "pe_owner q = c" "pe_id q = pe_id p"
      using p(2) assms(2) by (fastforce simp: owned_by_def)
    then show ?thesis using p(1) assms(1) by (metis distinct_map inj_onD)
  qed
  then have "filter (\<lambda>p. pe_owner (if pe_id p \<in> set ids then p\<lparr>pe_owner := c, pe_since := t\<rparr> else p) = c)
      (g_pel gr) = filter (\<lambda>p. pe_owner p = c) (g_pel gr)"
    by (intro filter_cong) auto
  then show ?thesis by (simp add: owned_by_def touch_def filter_map o_def if_distrib [of pe_id]
        if_distrib [of pe_fields])
qed

lemma owned_by_unpend: "owned_by c (unpend i gr) = filter (\<lambda>e. fst e \<noteq> i) (owned_by c gr)"
  by (simp add: owned_by_def unpend_def filter_map o_def conj_commute)

lemma waiting_ack:
  "waiting g c es k \<Longrightarrow> waiting g c (filter (\<lambda>e. fst e \<noteq> i) es) (ks_ack MAIN_STREAM g i k)"
  by (auto simp: waiting_def owned_by_unpend)

lemma dlq_loop_append:
  "dlq_loop R c g h mx n b (xs @ ys) l =
     bnd (dlq_loop R c g h mx n b xs l) (\<lambda>l'. dlq_loop R c g h mx n b ys l')"
  by (induction xs arbitrary: l) (auto simp: bnd_def fun_eq_iff split: prod.splits sum.splits)

context redis_available
begin

lemma dlq_fetch_waiting:
  assumes wait: "waiting g c es (kv w)" and n: "1 \<le> n"
  obtains w' where "dlq_fetch R c g n b w = (Inr (take (nat n) es), w')"
    and "waiting g c es (kv w')" and "ks_entries (kv w') = ks_entries (kv w)"
    and "ks_live_set (kv w') = ks_live_set (kv w)" and "app w' = app w"
proof -
  obtain gr where gr: "ks_group (kv w) MAIN_STREAM g = Some gr" "g_new gr = []"
    "distinct (map pe_id (g_pel gr))" "owned_by c gr = es"
    using wait by (auto simp: waiting_def)
  obtain w1 where r1: "dlq_read_new R g c n b w = (Inr [], w1)"
    and k1: "kv w1 = ks_put_group MAIN_STREAM g gr (kv w)" and a1: "app w1 = app w"
    using dlq_read_new_up [OF gr(1) n] gr(2) by (metis deliver_nothing take_Nil)
  have gr1: "ks_group (kv w1) MAIN_STREAM g = Some gr" by (simp add: k1)
  obtain w2 where r2: "dlq_read_pending R g c n w1 = (Inr (take (nat n) es), w2)"
    and k2: "kv w2 = ks_put_group MAIN_STREAM g
      (touch c (ks_time (kv w1)) (map fst (take (nat n) es)) gr) (kv w1)"
    and a2: "app w2 = app w1"
    using dlq_read_pending_up [OF gr1 n] gr(4) by metis
  have "waiting g c es (kv w2)"
    using gr owned_by_touch [OF gr(3), of "map fst (take (nat n) es)" c "ks_time (kv w1)"]
    by (auto simp: waiting_def k2 image_mono set_take_subset)
  moreover have "dlq_fetch R c g n b w = (Inr (take (nat n) es), w2)"
    by (simp add: dlq_fetch_def bnd_def r1 r2)
  ultimately show ?thesis using that k1 k2 a1 a2 by simp
qed

end

text \<open>A payment whose handler raises every time, without talking to the broker.\<close>

definition always_fails :: "('r, 'x) dlq_handler \<Rightarrow> string \<Rightarrow> payment \<Rightarrow> exn \<Rightarrow> bool" where
  "always_fails h c p e \<longleftrightarrow> (\<forall>w. \<exists>w'. h c p w = (Inl e, w') \<and> srv w' = srv w)"

context redis_available
begin

lemma dlq_poison_turn:
  assumes wait: "waiting g c [(i, f)] (kv w)" and n: "1 \<le> n" and h: "always_fails h c p e"
    and f: "payment_from_fields f = Inr p" and fresh: "payment_id p \<notin> ks_live_set (kv w) PROCESSED_SET"
  obtains w2 where "dlq_poll R c g h mx n b l w = dlq_failed R g mx i p e l w2"
    and "waiting g c [(i, f)] (kv w2)" and "ks_entries (kv w2) = ks_entries (kv w)"
    and "ks_live_set (kv w2) = ks_live_set (kv w)"
proof -
  obtain w1 where fetch: "dlq_fetch R c g n b w = (Inr [(i, f)], w1)"
    and w1: "waiting g c [(i, f)] (kv w1)" "ks_entries (kv w1) = ks_entries (kv w)"
      "ks_live_set (kv w1) = ks_live_set (kv w)"
    using dlq_fetch_waiting [OF wait n, of b] n by auto
  obtain w2 where d: "is_processed R (payment_id p) w1 = (Inr False, w2)" and k2: "kv w2 = kv w1"
    using is_processed_up [of "payment_id p" w1] fresh w1(3) by metis
  obtain w3 where h3: "h c p w2 = (Inl e, w3)" and k3: "kv w3 = kv w2"
    using h unfolding always_fails_def by metis
  have "dlq_poll R c g h mx n b l w = dlq_process R c g h mx (i, f) l w1"
    by (simp add: dlq_poll_def fetch bnd_def split: prod.splits sum.splits)
  also have "\<dots> = dlq_failed R g mx i p e l w3"
    by (simp add: dlq_process_def f bnd_def d try_io_def h3)
  finally show ?thesis using that w1 k2 k3 by simp
qed

lemma dlq_poison_retried:
  assumes "waiting g c [(i, f)] (kv w)" and "1 \<le> n" and "always_fails h c p e"
    and "payment_from_fields f = Inr p" and "payment_id p \<notin> ks_live_set (kv w) PROCESSED_SET"
    and "dict_get (attempts l) i 0 + int k < mx"
  shows "\<exists>l' w'. dlq_loop R c g h mx n b (replicate k (\<lambda>w. w)) l w = (Inr l', w') \<and>
    waiting g c [(i, f)] (kv w') \<and> ks_entries (kv w') = ks_entries (kv w) \<and>
    ks_live_set (kv w') = ks_live_set (kv w) \<and> total_processed l' = total_processed l \<and>
    dict_get (attempts l') i 0 = dict_get (attempts l) i 0 + int k"
  using assms(1,5,6)
proof (induction k arbitrary: l w)
  case 0
  then show ?case by simp
next
  case (Suc k)
  obtain w2 where poll: "dlq_poll R c g h mx n b l w = dlq_failed R g mx i p e l w2"
    and w2: "waiting g c [(i, f)] (kv w2)" "ks_entries (kv w2) = ks_entries (kv w)"
      "ks_live_set (kv w2) = ks_live_set (kv w)"
    using dlq_poison_turn [OF Suc.prems(1) assms(2,3,4) Suc.prems(2)] by metis
  define l2 where "l2 = l\<lparr>attempts := AList.update i (dict_get (attempts l) i 0 + 1) (attempts l)\<rparr>"
  have step: "dlq_poll R c g h mx n b l w = (Inr l2, w2)"
    using Suc.prems(3) by (simp add: poll dlq_failed_def Let_def l2_def)
  have l2: "dict_get (attempts l2) i 0 = dict_get (attempts l) i 0 + 1"
    "total_processed l2 = total_processed l"
    by (simp_all add: l2_def dict_get_def)
  have "payment_id p \<notin> ks_live_set (kv w2) PROCESSED_SET" using Suc.prems(2) w2(3) by simp
  moreover have "dict_get (attempts l2) i 0 + int k < mx" using Suc.prems(3) l2 by simp
  ultimately obtain l' w' where "dlq_loop R c g h mx n b (replicate k (\<lambda>w. w)) l2 w2 = (Inr l', w')"
    and "waiting g c [(i, f)] (kv w')" "ks_entries (kv w') = ks_entries (kv w2)"
    "ks_live_set (kv w') = ks_live_set (kv w2)" "total_processed l' = total_processed l2"
    "dict_get (attempts l') i 0 = dict_get (attempts l2) i 0 + int k"
    using Suc.IH [OF w2(1)] by blast
  then show ?case using w2 l2 by (simp add: bnd_def step)
qed

lemma dlq_poison_parked:
  assumes wait: "waiting g c [(i, f)] (kv w)" and n: "1 \<le> n" and h: "always_fails h c p e"
    and f: "payment_from_fields f = Inr p" and fresh: "payment_id p \<notin> ks_live_set (kv w) PROCESSED_SET"
    and mx: "1 \<le> mx" and new: "dict_get (attempts l) i 0 = 0"
  obtains l' w' j where "dlq_loop R c g h mx n b (replicate (nat mx) (\<lambda>w. w)) l w = (Inr l', w')"
    and "ks_entries (kv w') DLQ_STREAM = ks_entries (kv w) DLQ_STREAM @ [(j, dlq_fields p (exn_name e) mx)]"
    and "waiting g c [] (kv w')" and "total_processed l' = total_processed l"
proof -
  define k where "k = nat mx - 1"
  have k: "nat mx = k + 1" "dict_get (attempts l) i 0 + int k < mx" "int k + 1 = mx"
    using mx new by (simp_all add: k_def nat_diff_distrib)
  obtain l1 w1 where before: "dlq_loop R c g h mx n b (replicate k (\<lambda>w. w)) l w = (Inr l1, w1)"
    and w1: "waiting g c [(i, f)] (kv w1)" "ks_entries (kv w1) = ks_entries (kv w)"
      "ks_live_set (kv w1) = ks_live_set (kv w)" "total_processed l1 = total_processed l"
      "dict_get (attempts l1) i 0 = int k"
    using dlq_poison_retried [OF wait n h f fresh k(2), of b] new by auto
  have fresh1: "payment_id p \<notin> ks_live_set (kv w1) PROCESSED_SET" using fresh w1(3) by simp
  obtain w2 where poll: "dlq_poll R c g h mx n b l1 w1 = dlq_failed R g mx i p e l1 w2"
    and w2: "waiting g c [(i, f)] (kv w2)" "ks_entries (kv w2) = ks_entries (kv w1)"
    using dlq_poison_turn [OF w1(1) n h f fresh1] by metis
  obtain j w3 where mv: "move_to_dlq R g i p (exn_name e) mx w2 = (Inr j, w3)"
    and k3: "kv w3 = ks_xadd DLQ_STREAM j (dlq_fields p (exn_name e) mx) (ks_ack MAIN_STREAM g i (kv w2))"
    using move_to_dlq_up by blast
  have "\<exists>l3. dlq_poll R c g h mx n b l1 w1 = (Inr l3, w3) \<and> total_processed l3 = total_processed l1"
    using k(3) by (simp add: poll dlq_failed_def Let_def w1(5) bnd_def mv)
  then have "\<exists>l3. dlq_loop R c g h mx n b (replicate (nat mx) (\<lambda>w. w)) l w = (Inr l3, w3) \<and>
      total_processed l3 = total_processed l"
    using w1(4) by (auto simp: k(1) replicate_append_same [symmetric] dlq_loop_append
        bnd_def before simp del: replicate_append_same)
  moreover have "waiting g c [] (kv w3)"
    using waiting_ack [OF w2(1), of i] by (simp add: k3 waiting_def)
  ultimately show ?thesis using that k3 w1(2) w2(2) by auto
qed

end

subsection \<open>A message that does not parse\<close>

text \<open>
  \<^verbatim>\<open>Payment.from_fields\<close> is called outside the \<^verbatim>\<open>try\<close>: what it raises leaves the coroutine.
\<close>

context redis_available
begin

lemma dlq_ensure_all_up:
  obtains w' where "dlq_ensure_all_groups R g w = (Inr (), w')"
proof -
  obtain b1 w1 where 1: "dlq_ensure_group R MAIN_STREAM g w = (Inr b1, w1)"
    using dlq_ensure_group_up by blast
  obtain b2 w2 where 2: "dlq_ensure_group R DLQ_STREAM g w1 = (Inr b2, w2)"
    using dlq_ensure_group_up by blast
  have "dlq_ensure_all_groups R g w = (Inr (), w2)"
    by (simp add: dlq_ensure_all_groups_def bnd_def 1 2)
  then show ?thesis by (rule that)
qed

lemma waiting_ensure_all:
  "waiting g c es (kv w) \<Longrightarrow> dlq_ensure_all_groups R g w = (Inr (), w') \<Longrightarrow> waiting g c es (kv w')"
  by (auto simp: waiting_def dest!: dlq_ensure_all_effect)

lemma dlq_malformed_poll:
  assumes wait: "waiting g c ((i, f) # es) (kv w)" and n: "1 \<le> n"
    and f: "payment_from_fields f = Inl e"
  obtains w' where "dlq_poll R c g h mx n b l w = (Inl e, w')"
    and "waiting g c ((i, f) # es) (kv w')" and "ks_entries (kv w') = ks_entries (kv w)"
proof -
  obtain m where m: "nat n = Suc m" using n by (cases "nat n") auto
  obtain w' where fetch: "dlq_fetch R c g n b w = (Inr ((i, f) # take m es), w')"
    and w': "waiting g c ((i, f) # es) (kv w')" "ks_entries (kv w') = ks_entries (kv w)"
    using dlq_fetch_waiting [OF wait n, of b] m by auto
  have "dlq_poll R c g h mx n b l w = (Inl e, w')"
    by (simp add: dlq_poll_def bnd_def fetch dlq_process_def f)
  then show ?thesis using that w' by blast
qed

lemma run_malformed:
  assumes wait: "waiting g c ((i, f) # es) (kv w)" and n: "1 \<le> n"
    and f: "payment_from_fields f = Inl e"
  shows "\<exists>w'. run_idempotent_consumer R c g h mx n b ((\<lambda>w. w) # envs) w = (Inl e, w') \<and>
    waiting g c ((i, f) # es) (kv w') \<and> ks_entries (kv w') = ks_entries (kv w)"
proof -
  obtain w1 where start: "dlq_ensure_all_groups R g w = (Inr (), w1)" by (rule dlq_ensure_all_up)
  obtain w' where poll: "dlq_poll R c g h mx n b \<lparr>attempts = [], total_processed = 0\<rparr> w1 = (Inl e, w')"
    and w': "waiting g c ((i, f) # es) (kv w')" "ks_entries (kv w') = ks_entries (kv w1)"
    using dlq_malformed_poll [OF waiting_ensure_all [OF wait start] n f] by metis
  have "run_idempotent_consumer R c g h mx n b ((\<lambda>w. w) # envs) w = (Inl e, w')"
    by (simp add: run_idempotent_consumer_def bnd_def start poll)
  then show ?thesis using w' dlq_ensure_all_effect [OF start] by simp
qed

lemma run_poison:
  assumes wait: "waiting g c [(i, f)] (kv w)" and n: "1 \<le> n" and h: "always_fails h c p e"
    and f: "payment_from_fields f = Inr p" and fresh: "payment_id p \<notin> ks_live_set (kv w) PROCESSED_SET"
    and mx: "1 \<le> mx"
  shows "\<exists>w' j. run_idempotent_consumer R c g h mx n b (replicate (nat mx) (\<lambda>w. w)) w = (Inr 0, w') \<and>
    ks_entries (kv w') DLQ_STREAM = ks_entries (kv w) DLQ_STREAM @ [(j, dlq_fields p (exn_name e) mx)] \<and>
    waiting g c [] (kv w')"
proof -
  obtain w1 where start: "dlq_ensure_all_groups R g w = (Inr (), w1)" by (rule dlq_ensure_all_up)
  note eff = dlq_ensure_all_effect [OF start]
  have fresh1: "payment_id p \<notin> ks_live_set (kv w1) PROCESSED_SET" using fresh eff by simp
  obtain l' w' j where loop: "dlq_loop R c g h mx n b (replicate (nat mx) (\<lambda>w. w))
      \<lparr>attempts = [], total_processed = 0\<rparr> w1 = (Inr l', w')" and "total_processed l' = 0"
    and "ks_entries (kv w') DLQ_STREAM = ks_entries (kv w1) DLQ_STREAM @ [(j, dlq_fields p (exn_name e) mx)]"
    and "waiting g c [] (kv w')"
    using dlq_poison_parked [where b = b and l = "\<lparr>attempts = [], total_processed = 0\<rparr>",
        OF waiting_ensure_all [OF wait start] n h f fresh1 mx]
    by (simp add: dict_get_def) blast
  then show ?thesis using eff by (simp add: run_idempotent_consumer_def bnd_def start)
qed

end

end
