(* ===== verification/DLQ_Naive.thy ===== *)
theory DLQ_Naive
  imports DLQ_Consumer
begin

section \<open>Dead letter queue: the retry-forever baseline\<close>

text \<open>
  \<^verbatim>\<open>dlq_pattern/naive.py\<close>, which the repository keeps as the incorrect variant: it reads its own
  pending entries first and leaves the batch at the first failure. \<open>max_polls\<close> bounds the loop;
  \<open>env n\<close> is what the other tasks do before the poll that starts with \<^verbatim>\<open>polls = n\<close>.
\<close>

record naive_run_result =
  nr_processed :: "string list"
  nr_failures :: "(string, int) dict"
  nr_polls :: int

definition attempts_for :: "naive_run_result \<Rightarrow> string \<Rightarrow> int" where
  "attempts_for result pid = dict_get (nr_failures result) pid 0"

fun retry_forever_batch :: "'r redis \<Rightarrow> string \<Rightarrow> string \<Rightarrow> ('r, 'x) dlq_handler \<Rightarrow>
    entry list \<Rightarrow> naive_run_result \<Rightarrow> (('r, 'x) world_scheme, naive_run_result) io" where
  "retry_forever_batch R consumer_id grp handler [] result = ret result"
| "retry_forever_batch R consumer_id grp handler (m # batch) result =
     bnd (liftr (payment_from_fields (snd m))) (\<lambda>payment.
     bnd (try_io (handler consumer_id payment)) (\<lambda>res. case res of
       Inl exc \<Rightarrow>
         ret (result\<lparr>nr_failures := AList.update (payment_id payment)
           (dict_get (nr_failures result) (payment_id payment) 0 + 1) (nr_failures result)\<rparr>)
     | Inr _ \<Rightarrow>
         bnd (dlq_ack R grp (fst m)) (\<lambda>_.
         retry_forever_batch R consumer_id grp handler batch
           (result\<lparr>nr_processed := nr_processed result @ [payment_id payment]\<rparr>))))"

definition retry_forever_poll :: "'r redis \<Rightarrow> string \<Rightarrow> string \<Rightarrow> ('r, 'x) dlq_handler \<Rightarrow> int \<Rightarrow>
    naive_run_result \<Rightarrow> (('r, 'x) world_scheme, naive_run_result) io" where
  "retry_forever_poll R consumer_id grp handler count result =
     (let result = result\<lparr>nr_polls := nr_polls result + 1\<rparr>
      in bnd (dlq_read_pending R grp consumer_id count) (\<lambda>pending.
         bnd (if pending = [] then dlq_read_new R grp consumer_id count 0 else ret pending) (\<lambda>batch.
         retry_forever_batch R consumer_id grp handler batch result)))"

fun retry_forever_loop :: "'r redis \<Rightarrow> string \<Rightarrow> string \<Rightarrow> ('r, 'x) dlq_handler \<Rightarrow> int \<Rightarrow>
    (int \<Rightarrow> ('r, 'x) world_scheme \<Rightarrow> ('r, 'x) world_scheme) \<Rightarrow> nat \<Rightarrow> naive_run_result \<Rightarrow>
    (('r, 'x) world_scheme, naive_run_result) io" where
  "retry_forever_loop R c g h n env 0 result = ret result"
| "retry_forever_loop R c g h n env (Suc k) result =
     bnd (modify (env (nr_polls result))) (\<lambda>_.
     bnd (retry_forever_poll R c g h n result) (\<lambda>result'.
     retry_forever_loop R c g h n env k result'))"

definition run_retry_forever_consumer :: "'r redis \<Rightarrow> string \<Rightarrow> string \<Rightarrow> ('r, 'x) dlq_handler \<Rightarrow>
    int \<Rightarrow> int \<Rightarrow> (int \<Rightarrow> ('r, 'x) world_scheme \<Rightarrow> ('r, 'x) world_scheme) \<Rightarrow>
    (('r, 'x) world_scheme, naive_run_result) io" where
  "run_retry_forever_consumer R consumer_id grp handler max_polls count env =
     bnd (dlq_ensure_all_groups R grp) (\<lambda>_.
     retry_forever_loop R consumer_id grp handler count env (nat max_polls)
       \<lparr>nr_processed = [], nr_failures = [], nr_polls = 0\<rparr>)"

subsection \<open>Head-of-line blocking\<close>

context redis_available
begin

lemma retry_forever_poll_blocked:
  assumes wait: "waiting g c ((i, f) # es) (kv w)" and n: "1 \<le> n" and h: "always_fails h c p e"
    and f: "payment_from_fields f = Inr p"
  obtains w' where "retry_forever_poll R c g h n res w = (Inr (res\<lparr>nr_polls := nr_polls res + 1,
      nr_failures := AList.update (payment_id p) (dict_get (nr_failures res) (payment_id p) 0 + 1)
        (nr_failures res)\<rparr>), w')"
    and "waiting g c ((i, f) # es) (kv w')"
proof -
  obtain m where m: "nat n = Suc m" using n by (cases "nat n") auto
  obtain gr where gr: "ks_group (kv w) MAIN_STREAM g = Some gr" "g_new gr = []"
    "distinct (map pe_id (g_pel gr))" "owned_by c gr = (i, f) # es"
    using wait by (auto simp: waiting_def)
  obtain w1 where r1: "dlq_read_pending R g c n w = (Inr (take (nat n) ((i, f) # es)), w1)"
    and k1: "kv w1 = ks_put_group MAIN_STREAM g
      (touch c (ks_time (kv w)) (map fst (take (nat n) ((i, f) # es))) gr) (kv w)"
    using dlq_read_pending_up [OF gr(1) n] gr(4) by metis
  have r1': "dlq_read_pending R g c n w = (Inr ((i, f) # take m es), w1)" using r1 by (simp add: m)
  have wait1: "waiting g c ((i, f) # es) (kv w1)"
    using gr owned_by_touch [OF gr(3), of "map fst (take (nat n) ((i, f) # es))" c "ks_time (kv w)"]
      set_take_subset [of m es] by (auto simp: waiting_def k1 m)
  obtain w2 where h2: "h c p w1 = (Inl e, w2)" and "kv w2 = kv w1"
    using h unfolding always_fails_def by metis
  then show ?thesis using that wait1
    by (simp add: retry_forever_poll_def bnd_def r1' f try_io_def Let_def)
qed

lemma retry_forever_loop_blocked:
  assumes "waiting g c ((i, f) # es) (kv w)" and "1 \<le> n" and "always_fails h c p e"
    and "payment_from_fields f = Inr p"
  shows "\<exists>w'. retry_forever_loop R c g h n (\<lambda>_ w. w) (Suc k) res w = (Inr (res\<lparr>
      nr_polls := nr_polls res + int (Suc k), nr_failures := AList.update (payment_id p)
        (dict_get (nr_failures res) (payment_id p) 0 + int (Suc k)) (nr_failures res)\<rparr>), w') \<and>
    waiting g c ((i, f) # es) (kv w')"
  using assms(1)
proof (induction k arbitrary: res w)
  case 0
  obtain w' where "retry_forever_poll R c g h n res w = (Inr (res\<lparr>nr_polls := nr_polls res + 1,
      nr_failures := AList.update (payment_id p) (dict_get (nr_failures res) (payment_id p) 0 + 1)
        (nr_failures res)\<rparr>), w')" and "waiting g c ((i, f) # es) (kv w')"
    by (rule retry_forever_poll_blocked [OF 0 assms(2,3,4)])
  then show ?case by (simp add: bnd_def)
next
  case (Suc k)
  obtain w1 where poll: "retry_forever_poll R c g h n res w = (Inr (res\<lparr>nr_polls := nr_polls res + 1,
      nr_failures := AList.update (payment_id p) (dict_get (nr_failures res) (payment_id p) 0 + 1)
        (nr_failures res)\<rparr>), w1)" and w1: "waiting g c ((i, f) # es) (kv w1)"
    by (rule retry_forever_poll_blocked [OF Suc.prems assms(2,3,4)])
  have "retry_forever_loop R c g h n (\<lambda>_ w. w) (Suc (Suc k)) res w =
      retry_forever_loop R c g h n (\<lambda>_ w. w) (Suc k) (res\<lparr>nr_polls := nr_polls res + 1,
      nr_failures := AList.update (payment_id p) (dict_get (nr_failures res) (payment_id p) 0 + 1)
        (nr_failures res)\<rparr>) w1"
    by (subst retry_forever_loop.simps(2)) (simp add: bnd_def poll del: retry_forever_loop.simps)
  then show ?case
    using Suc.IH [OF w1, of "res\<lparr>nr_polls := nr_polls res + 1,
      nr_failures := AList.update (payment_id p) (dict_get (nr_failures res) (payment_id p) 0 + 1)
        (nr_failures res)\<rparr>"]
    by (simp add: dict_get_def algebra_simps del: retry_forever_loop.simps)
qed

lemma run_retry_forever_blocked:
  assumes wait: "waiting g c ((i, f) # es) (kv w)" and n: "1 \<le> n" and h: "always_fails h c p e"
    and f: "payment_from_fields f = Inr p" and polls: "1 \<le> max_polls"
  shows "\<exists>w'. run_retry_forever_consumer R c g h max_polls n (\<lambda>_ w. w) w =
      (Inr \<lparr>nr_processed = [], nr_failures = [(payment_id p, max_polls)], nr_polls = max_polls\<rparr>, w') \<and>
    waiting g c ((i, f) # es) (kv w')"
proof -
  obtain w1 where start: "dlq_ensure_all_groups R g w = (Inr (), w1)" by (rule dlq_ensure_all_up)
  obtain k where k: "nat max_polls = Suc k" using polls by (cases "nat max_polls") auto
  then have "int (Suc k) = max_polls" using polls by simp
  then show ?thesis
    using retry_forever_loop_blocked [OF waiting_ensure_all [OF wait start] n h f, of k
        "\<lparr>nr_processed = [], nr_failures = [], nr_polls = 0\<rparr>"]
    by (simp add: run_retry_forever_consumer_def bnd_def start k dict_get_def
        del: retry_forever_loop.simps)
qed

end

end
