(* ===== verification/DLQ_Spec.thy ===== *)
theory DLQ_Spec
  imports DLQ_Consumer
begin

section \<open>Dead letter queue: the consumer's specification\<close>

text \<open>
  What the consumer promises, without a broker: a \<open>pipeline\<close> of undelivered and delivered payments (each
  with its message id), the processed ids, the parked payments, the attempts and the number of charges.
  \<open>verdict\<close> says whether the handler accepts a payment. \<open>pipeline_turn\<close> is one turn. The consumer refines
  it step by step (\<open>implements\<close>), and the turns of the pipeline have a closed form (\<open>pipeline_drained\<close>).
\<close>

record pipeline =
  pl_new :: "(string \<times> payment) list"
  pl_pending :: "(string \<times> payment) list"
  pl_processed :: "string set"
  pl_parked :: "(payment \<times> string \<times> int) list"
  pl_inspected :: nat
  pl_tries :: "string \<Rightarrow> int"
  pl_total :: int

type_synonym verdict = "payment \<Rightarrow> exn option"

definition pl_drop :: "string \<Rightarrow> pipeline \<Rightarrow> pipeline" where
  "pl_drop i s = s\<lparr>pl_pending := filter (\<lambda>x. fst x \<noteq> i) (pl_pending s)\<rparr>"

definition pipeline_entry :: "int \<Rightarrow> verdict \<Rightarrow> string \<times> payment \<Rightarrow> pipeline \<Rightarrow> pipeline" where
  "pipeline_entry mx verdict = (\<lambda>(i, p) s.
     if payment_id p \<in> pl_processed s then pl_drop i s
     else case verdict p of
       None \<Rightarrow> (pl_drop i s)\<lparr>pl_processed := insert (payment_id p) (pl_processed s),
         pl_tries := (pl_tries s)(i := 0), pl_total := pl_total s + 1\<rparr>
     | Some e \<Rightarrow> (let n = pl_tries s i + 1 in
         if n < mx then s\<lparr>pl_tries := (pl_tries s)(i := n)\<rparr>
         else (pl_drop i s)\<lparr>pl_parked := pl_parked s @ [(p, exn_name e, n)], pl_tries := (pl_tries s)(i := 0)\<rparr>))"

definition deliver_new :: "nat \<Rightarrow> pipeline \<Rightarrow> pipeline" where
  "deliver_new n s = s\<lparr>pl_new := drop n (pl_new s), pl_pending := pl_pending s @ take n (pl_new s)\<rparr>"

definition turn_batch :: "nat \<Rightarrow> pipeline \<Rightarrow> (string \<times> payment) list" where
  "turn_batch n s = (if take n (pl_new s) = [] then take n (pl_pending s) else take n (pl_new s))"

definition pipeline_turn :: "int \<Rightarrow> nat \<Rightarrow> verdict \<Rightarrow> pipeline \<Rightarrow> pipeline" where
  "pipeline_turn mx n verdict s = fold (pipeline_entry mx verdict) (turn_batch n s) (deliver_new n s)"

fun pipeline_turns :: "int \<Rightarrow> nat \<Rightarrow> verdict \<Rightarrow> nat \<Rightarrow> pipeline \<Rightarrow> pipeline" where
  "pipeline_turns mx n verdict 0 s = s"
| "pipeline_turns mx n verdict (Suc k) s = pipeline_turns mx n verdict k (pipeline_turn mx n verdict s)"

lemmas turn_defs = pipeline_turn_def turn_batch_def deliver_new_def

text \<open>The payments the handler is called on, in order.\<close>

fun batch_calls :: "int \<Rightarrow> verdict \<Rightarrow> (string \<times> payment) list \<Rightarrow> pipeline \<Rightarrow> payment list" where
  "batch_calls mx verdict [] s = []"
| "batch_calls mx verdict (x # xs) s =
     (if payment_id (snd x) \<in> pl_processed s then [] else [snd x]) @ batch_calls mx verdict xs (pipeline_entry mx verdict x s)"

fun turns_calls :: "int \<Rightarrow> nat \<Rightarrow> verdict \<Rightarrow> nat \<Rightarrow> pipeline \<Rightarrow> payment list" where
  "turns_calls mx n verdict 0 s = []"
| "turns_calls mx n verdict (Suc k) s =
     batch_calls mx verdict (turn_batch n s) (deliver_new n s) @ turns_calls mx n verdict k (pipeline_turn mx n verdict s)"

subsection \<open>The refinement\<close>

definition parsed :: "entry \<Rightarrow> string \<times> payment \<Rightarrow> bool" where
  "parsed e x \<longleftrightarrow> fst e = fst x \<and> payment_from_fields (snd e) = Inr (snd x)"

definition implements :: "string \<Rightarrow> string \<Rightarrow> string set \<Rightarrow> keyspace \<Rightarrow> dlq_locals \<Rightarrow> pipeline \<Rightarrow> bool" where
  "implements g c others k l s \<longleftrightarrow> (\<exists>gr. ks_group k MAIN_STREAM g = Some gr \<and>
       list_all2 parsed (g_new gr) (pl_new s) \<and> list_all2 parsed (owned_by c gr) (pl_pending s) \<and>
       group_wf (ks_entries k MAIN_STREAM) gr \<and> pe_owner ` set (g_pel gr) \<subseteq> insert c others) \<and>
     ks_live_set k PROCESSED_SET = pl_processed s \<and>
     map snd (ks_entries k DLQ_STREAM) = map (\<lambda>(p, reason, n). dlq_fields p reason n) (pl_parked s) \<and>
     (\<exists>dg. ks_group k DLQ_STREAM g = Some dg \<and> g_new dg = drop (pl_inspected s) (ks_entries k DLQ_STREAM)) \<and>
     pl_inspected s \<le> length (pl_parked s) \<and>
     (\<forall>i. dict_get (attempts l) i 0 = pl_tries s i) \<and> total_processed l = pl_total s"

definition decides :: "verdict \<Rightarrow> string \<Rightarrow> ('r, 'x) dlq_handler \<Rightarrow> bool" where
  "decides verdict c h \<longleftrightarrow> (\<forall>p w. \<exists>w'. h c p w = (case verdict p of None \<Rightarrow> Inr () | Some e \<Rightarrow> Inl e, w') \<and> srv w' = srv w)"

text \<open>\<open>acts eff c h\<close>: a call of the handler on a payment does \<open>eff\<close> to the application's state.\<close>

definition acts :: "(payment \<Rightarrow> 'x \<Rightarrow> 'x) \<Rightarrow> string \<Rightarrow> ('r, 'x) dlq_handler \<Rightarrow> bool" where
  "acts eff c h \<longleftrightarrow> (\<forall>p w. app (snd (h c p w)) = eff p (app w))"

lemma parsed_filter:
  "list_all2 parsed es xs \<Longrightarrow> list_all2 parsed (filter (\<lambda>e. fst e \<noteq> i) es) (filter (\<lambda>x. fst x \<noteq> i) xs)"
  by (induction rule: list_all2_induct) (auto simp: parsed_def)

lemma owned_by_deliver: "owned_by c (deliver c t n gr) = owned_by c gr @ take n (g_new gr)"
  by (simp add: owned_by_def deliver_def filter_map comp_def case_prod_beta)

lemma dict_get_delete: "dict_get (AList.delete k d) j x = (if j = k then x else dict_get d j x)"
  by (simp add: dict_get_def delete_conv')

lemma dict_get_upd: "dict_get (AList.update k v d) j x = (if j = k then v else dict_get d j x)"
  by (simp add: dict_get_def update_conv')

lemma pel_distinct: "group_wf es gr \<Longrightarrow> distinct (map pe_id (g_pel gr))"
  by (simp add: group_wf_def outstanding_def pel_entries_def comp_def)

lemma implements_put_group:
  assumes imp: "implements g c others k l s"
    and "list_all2 parsed (g_new gr) new" and "list_all2 parsed (owned_by c gr) pending"
    and "group_wf (ks_entries k MAIN_STREAM) gr" and "pe_owner ` set (g_pel gr) \<subseteq> insert c others"
  shows "implements g c others (ks_put_group MAIN_STREAM g gr k) l (s\<lparr>pl_new := new, pl_pending := pending\<rparr>)"
  using assms unfolding implements_def by simp

lemma implements_group:
  assumes "implements g c others k l s"
  obtains gr where "ks_group k MAIN_STREAM g = Some gr" and "list_all2 parsed (g_new gr) (pl_new s)"
    and "list_all2 parsed (owned_by c gr) (pl_pending s)" and "group_wf (ks_entries k MAIN_STREAM) gr"
    and "pe_owner ` set (g_pel gr) \<subseteq> insert c others"
  using assms by (auto simp: implements_def)

lemma implements_drop:
  assumes imp: "implements g c others k l s"
  shows "implements g c others (ks_ack MAIN_STREAM g i k) l (pl_drop i s)"
proof -
  obtain gr where gr: "ks_group k MAIN_STREAM g = Some gr" "list_all2 parsed (g_new gr) (pl_new s)"
    "list_all2 parsed (owned_by c gr) (pl_pending s)" "group_wf (ks_entries k MAIN_STREAM) gr"
    "pe_owner ` set (g_pel gr) \<subseteq> insert c others" by (rule implements_group [OF imp])
  have "implements g c others (ks_put_group MAIN_STREAM g (unpend i gr) k) l
      (s\<lparr>pl_new := pl_new s, pl_pending := filter (\<lambda>x. fst x \<noteq> i) (pl_pending s)\<rparr>)"
  proof (rule implements_put_group [OF imp])
    show "pe_owner ` set (g_pel (unpend i gr)) \<subseteq> insert c others" using gr(5) by (auto simp: unpend_def)
  qed (use gr in \<open>simp_all add: owned_by_unpend parsed_filter group_wf_unpend\<close>)
  then show ?thesis by (simp add: ks_ack_def gr(1) pl_drop_def)
qed

lemma implements_deliver:
  assumes imp: "implements g c others k l s" and gr: "ks_group k MAIN_STREAM g = Some gr"
  shows "implements g c others (ks_put_group MAIN_STREAM g (deliver c t n gr) k) l
    (s\<lparr>pl_new := drop n (pl_new s), pl_pending := pl_pending s @ take n (pl_new s)\<rparr>)"
proof (rule implements_put_group [OF imp])
  show "pe_owner ` set (g_pel (deliver c t n gr)) \<subseteq> insert c others"
    using imp gr by (auto simp: implements_def deliver_def)
qed (use imp gr in \<open>simp_all add: implements_def owned_by_deliver group_wf_keep [OF outstanding_simps(2)]
    list_all2_appendI list_all2_takeI list_all2_dropI\<close>)

lemma implements_touch:
  assumes imp: "implements g c others k l s" and gr: "ks_group k MAIN_STREAM g = Some gr"
    and ids: "set ids \<subseteq> fst ` set (owned_by c gr)"
  shows "implements g c others (ks_put_group MAIN_STREAM g (touch c t ids gr) k) l s"
proof -
  have own: "owned_by c (touch c t ids gr) = owned_by c gr"
    using imp gr by (intro owned_by_touch ids pel_distinct [of "ks_entries k MAIN_STREAM"]) (simp add: implements_def)
  have "implements g c others (ks_put_group MAIN_STREAM g (touch c t ids gr) k) l
      (s\<lparr>pl_new := pl_new s, pl_pending := pl_pending s\<rparr>)"
  proof (rule implements_put_group [OF imp])
    show "pe_owner ` set (g_pel (touch c t ids gr)) \<subseteq> insert c others"
      using imp gr by (auto simp: implements_def touch_def)
  qed (use imp gr own in \<open>simp_all add: implements_def group_wf_keep [OF outstanding_simps(1)]\<close>)
  then show ?thesis by simp
qed

lemma implements_park:
  assumes imp: "implements g c others k l s"
  shows "implements g c others (ks_xadd DLQ_STREAM j (dlq_fields p r n) k) l
    (s\<lparr>pl_parked := pl_parked s @ [(p, r, n)]\<rparr>)"
proof -
  have "length (pl_parked s) = length (ks_entries k DLQ_STREAM)"
    using imp unfolding implements_def by (metis length_map)
  then show ?thesis using imp by (auto simp: implements_def)
qed

text \<open>Creating the groups, and another task publishing a payment.\<close>

lemma implements_same:
  assumes "implements g c others k l s" and "\<And>t. ks_group k' t g = ks_group k t g"
    and "ks_entries k' = ks_entries k" and "ks_live_set k' = ks_live_set k"
  shows "implements g c others k' l s"
  using assms by (simp add: implements_def)

lemma implements_publish:
  assumes imp: "implements g c others k l s" and p: "payment_text_ok p"
    and i: "i \<notin> fst ` set (ks_entries k MAIN_STREAM)"
  shows "implements g c others (ks_xadd MAIN_STREAM i (payment_to_fields p) k) l (s\<lparr>pl_new := pl_new s @ [(i, p)]\<rparr>)"
proof -
  obtain gr where gr: "ks_group k MAIN_STREAM g = Some gr" "list_all2 parsed (g_new gr) (pl_new s)"
    "list_all2 parsed (owned_by c gr) (pl_pending s)" "group_wf (ks_entries k MAIN_STREAM) gr"
    "pe_owner ` set (g_pel gr) \<subseteq> insert c others" by (rule implements_group [OF imp])
  have "parsed (i, payment_to_fields p) (i, p)"
    using payment_roundtrip_extra [OF p, of "[]"] by (simp add: parsed_def)
  then show ?thesis using imp gr group_wf_xadd [OF gr(4) i]
    by (auto simp: implements_def owned_by_def list_all2_appendI)
qed

context redis_available
begin

lemma process_implements:
  assumes imp: "implements g c others (kv w) l s" and h: "decides verdict c h" and m: "parsed m x"
  shows "\<exists>l' w'. dlq_process R c g h mx m l w = (Inr l', w') \<and> implements g c others (kv w') l' (pipeline_entry mx verdict x s)"
proof -
  obtain i p where x: "x = (i, p)" by (cases x)
  have mp: "fst m = i" "payment_from_fields (snd m) = Inr p" using m by (simp_all add: parsed_def x)
  obtain w1 where dup: "is_processed R (payment_id p) w = (Inr (payment_id p \<in> ks_live_set (kv w) PROCESSED_SET), w1)"
    and k1: "kv w1 = kv w" by (rule is_processed_up)
  have live: "ks_live_set (kv w) PROCESSED_SET = pl_processed s" using imp by (simp add: implements_def)
  note drop = implements_drop
  show ?thesis
  proof (cases "payment_id p \<in> pl_processed s")
    case True
    obtain a w2 where ack: "dlq_ack R g i w1 = (Inr a, w2)" "kv w2 = ks_ack MAIN_STREAM g i (kv w1)" by (rule dlq_ack_up)
    have "dlq_process R c g h mx m l w = (Inr l, w2\<lparr>reg := increment ''dlq'' ''skipped_duplicate'' 1 (wall w2) (reg w2)\<rparr>)"
      using dup ack(1) True live by (simp add: dlq_process_def mp bnd_Inr incr_def)
    then show ?thesis using drop [OF imp] True ack(2) by (simp add: pipeline_entry_def x k1)
  next
    case False
    obtain w2 where hd: "h c p w1 = (case verdict p of None \<Rightarrow> Inr () | Some e \<Rightarrow> Inl e, w2)" and k2: "kv w2 = kv w"
      using h k1 unfolding decides_def by metis
    show ?thesis
    proof (cases "verdict p")
      case None
      obtain r' n where sa: "sadd R PROCESSED_SET (payment_id p) (srv w2) = (Inr n, r')"
        using sadd_up by blast
      define w3 where "w3 = w2\<lparr>srv := r'\<rparr>"
      have mark: "mark_processed R (payment_id p) w2 = (Inr (), w3)"
        by (simp add: mark_processed_def bnd_def redis_call_def sa w3_def)
      have k3: "kv w3 = ks_sadd PROCESSED_SET (payment_id p) (kv w)" using mark_processed_effect [OF mark] k2 by simp
      obtain a w4 where ack: "dlq_ack R g i w3 = (Inr a, w4)" "kv w4 = ks_ack MAIN_STREAM g i (kv w3)" by (rule dlq_ack_up)
      define l' where "l' = l\<lparr>attempts := AList.delete i (attempts l), total_processed := total_processed l + 1\<rparr>"
      have "dlq_process R c g h mx m l w =
          (Inr l', w4\<lparr>reg := increment ''dlq'' ''payments_processed'' 1 (wall w4) (reg w4)\<rparr>)"
        using dup hd False live mark ack(1) None
        by (simp add: dlq_process_def mp bnd_Inr try_io_def dlq_succeeded_def incr_def l'_def)
      moreover have "implements g c others (kv w4) l' (pipeline_entry mx verdict x s)"
        using drop [OF imp] False None imp
        by (fastforce simp: implements_def pipeline_entry_def x ack(2) k3 l'_def dict_get_delete pl_drop_def)
      ultimately show ?thesis by auto
    next
      case (Some e)
      define n where "n = dict_get (attempts l) i 0 + 1"
      have n: "n = pl_tries s i + 1" using imp by (simp add: implements_def n_def)
      have step: "dlq_process R c g h mx m l w = dlq_failed R g mx i p e l w2"
        using dup hd False live Some by (simp add: dlq_process_def mp bnd_Inr try_io_def)
      show ?thesis
      proof (cases "n < mx")
        case True
        define l' where "l' = l\<lparr>attempts := AList.update i n (attempts l)\<rparr>"
        have "dlq_process R c g h mx m l w = (Inr l', w2)"
          using True by (simp add: step dlq_failed_def l'_def n_def Let_def)
        moreover have "implements g c others (kv w2) l' (pipeline_entry mx verdict x s)"
          using imp False Some True n by (simp add: implements_def pipeline_entry_def x k2 l'_def dict_get_upd Let_def)
        ultimately show ?thesis by blast
      next
        case False2: False
        obtain j w3 where mv: "move_to_dlq R g i p (exn_name e) n w2 = (Inr j, w3)"
          "kv w3 = ks_xadd DLQ_STREAM j (dlq_fields p (exn_name e) n) (ks_ack MAIN_STREAM g i (kv w2))"
          by (rule move_to_dlq_up)
        define l' where "l' = l\<lparr>attempts := AList.delete i (AList.update i n (attempts l))\<rparr>"
        have "dlq_process R c g h mx m l w = (Inr l', w3)"
          using False2 mv(1) by (simp add: step dlq_failed_def l'_def n_def Let_def bnd_Inr)
        moreover have "implements g c others (kv w3) l' (pipeline_entry mx verdict x s)"
          using implements_park [OF drop [OF imp], of j p "exn_name e" n] False Some False2 n
          by (simp add: implements_def pipeline_entry_def x mv(2) k2 l'_def dict_get_delete dict_get_upd Let_def pl_drop_def)
        ultimately show ?thesis by blast
      qed
    qed
  qed
qed

lemma process_calls:
  assumes "dlq_process R c g h mx m l w = (Inr l', w')" and m: "parsed m x" and "implements g c others (kv w) l s"
    and "acts eff c h"
  shows "app w' = (if payment_id (snd x) \<in> pl_processed s then app w else eff (snd x) (app w))"
proof -
  have x: "payment_from_fields (snd m) = Inr (snd x)" using m by (simp add: parsed_def)
  have live: "ks_live_set (kv w) PROCESSED_SET = pl_processed s" using assms(3) by (simp add: implements_def)
  show ?thesis using assms(1)
  proof (cases rule: dlq_process_cases)
    case (skip p)
    then show ?thesis using x live by simp
  next
    case (success p w1 w2)
    then show ?thesis using x live assms(4) dlq_succeeded_effect [OF success(6)]
      unfolding acts_def by (metis snd_conv sum.inject(2))
  next
    case (failure p e w1 w2)
    then show ?thesis using x live assms(4) dlq_failed_effect [OF failure(6)]
      unfolding acts_def by (metis snd_conv sum.inject(2))
  qed
qed

lemma batch_implements:
  assumes "implements g c others (kv w) l s" and h: "decides verdict c h" and "list_all2 parsed batch xs"
  shows "\<exists>l' w'. for_each (dlq_process R c g h mx) batch l w = (Inr l', w') \<and>
    implements g c others (kv w') l' (fold (pipeline_entry mx verdict) xs s) \<and>
    (\<forall>eff. acts eff c h \<longrightarrow> app w' = fold eff (batch_calls mx verdict xs s) (app w))"
  using assms(3,1)
proof (induction arbitrary: l w s rule: list_all2_induct)
  case (Cons m batch x xs)
  obtain l1 w1 where 1: "dlq_process R c g h mx m l w = (Inr l1, w1)" "implements g c others (kv w1) l1 (pipeline_entry mx verdict x s)"
    using process_implements [OF Cons.prems h Cons.hyps(1)] by blast
  obtain l' w' where 2: "for_each (dlq_process R c g h mx) batch l1 w1 = (Inr l', w')"
    "implements g c others (kv w') l' (fold (pipeline_entry mx verdict) xs (pipeline_entry mx verdict x s))"
    "\<forall>eff. acts eff c h \<longrightarrow> app w' = fold eff (batch_calls mx verdict xs (pipeline_entry mx verdict x s)) (app w1)"
    using Cons.IH [OF 1(2)] by blast
  have "app w' = fold eff (batch_calls mx verdict (x # xs) s) (app w)" if "acts eff c h" for eff
    using process_calls [OF 1(1) Cons.hyps(1) Cons.prems that] 2(3) that by simp
  then show ?case using 1(1) 2(1,2) by (simp add: bnd_Inr) 
qed simp

lemma fetch_implements:
  assumes imp: "implements g c others (kv w) l s" and n: "1 \<le> n"
  shows "\<exists>es w'. dlq_fetch R c g n b w = (Inr es, w') \<and> list_all2 parsed es (turn_batch (nat n) s) \<and>
    implements g c others (kv w') l (deliver_new (nat n) s) \<and> app w' = app w"
proof -
  obtain gr where gr: "ks_group (kv w) MAIN_STREAM g = Some gr" "list_all2 parsed (g_new gr) (pl_new s)"
    "list_all2 parsed (owned_by c gr) (pl_pending s)" by (rule implements_group [OF imp])
  obtain w1 where r1: "dlq_read_new R g c n b w = (Inr (take (nat n) (g_new gr)), w1)"
    "kv w1 = ks_put_group MAIN_STREAM g (deliver c (ks_time (kv w)) (nat n) gr) (kv w)" "app w1 = app w"
    by (rule dlq_read_new_up [OF gr(1) n])
  have imp1: "implements g c others (kv w1) l (deliver_new (nat n) s)"
    unfolding r1(2) deliver_new_def by (rule implements_deliver [OF imp gr(1)])
  show ?thesis
  proof (cases "take (nat n) (g_new gr) = []")
    case False
    then have "turn_batch (nat n) s = take (nat n) (pl_new s)" using gr(2) n by (auto simp: turn_batch_def list_all2_Nil)
    then show ?thesis using r1(1,3) False imp1 list_all2_takeI [OF gr(2)] by (simp add: dlq_fetch_def bnd_Inr)
  next
    case True
    then have new: "g_new gr = []" "pl_new s = []" using gr(2) n by auto
    have gr1: "ks_group (kv w1) MAIN_STREAM g = Some gr" using new by (simp add: r1(2))
    obtain w2 where r2: "dlq_read_pending R g c n w1 = (Inr (take (nat n) (owned_by c gr)), w2)"
      "kv w2 = ks_put_group MAIN_STREAM g (touch c (ks_time (kv w1)) (map fst (take (nat n) (owned_by c gr))) gr) (kv w1)"
      "app w2 = app w1"
      by (rule dlq_read_pending_up [OF gr1 n])
    have "implements g c others (kv w2) l (deliver_new (nat n) s)"
      unfolding r2(2) by (rule implements_touch [OF imp1 gr1]) (auto dest: in_set_takeD)
    then show ?thesis using r1(1,3) r2(1,3) True new list_all2_takeI [OF gr(3)]
      by (simp add: dlq_fetch_def bnd_Inr turn_batch_def)
  qed
qed

lemma poll_implements:
  assumes imp: "implements g c others (kv w) l s" and h: "decides verdict c h" and n: "1 \<le> n"
  shows "\<exists>l' w'. dlq_poll R c g h mx n b l w = (Inr l', w') \<and> implements g c others (kv w') l' (pipeline_turn mx (nat n) verdict s) \<and>
    (\<forall>eff. acts eff c h \<longrightarrow> app w' = fold eff (batch_calls mx verdict (turn_batch (nat n) s) (deliver_new (nat n) s)) (app w))"
proof -
  obtain es w1 where f: "dlq_fetch R c g n b w = (Inr es, w1)" "list_all2 parsed es (turn_batch (nat n) s)"
    "implements g c others (kv w1) l (deliver_new (nat n) s)" "app w1 = app w"
    using fetch_implements [OF imp n] by blast
  show ?thesis using batch_implements [OF f(3) h f(2), of mx] f(1,4) by (simp add: dlq_poll_def bnd_Inr pipeline_turn_def)
qed

lemma loop_implements:
  assumes "implements g c others (kv w) l s" and h: "decides verdict c h" and n: "1 \<le> n"
  shows "\<exists>l' w'. dlq_loop R c g h mx n b (replicate k (\<lambda>w. w)) l w = (Inr l', w') \<and>
    implements g c others (kv w') l' (pipeline_turns mx (nat n) verdict k s) \<and>
    (\<forall>eff. acts eff c h \<longrightarrow> app w' = fold eff (turns_calls mx (nat n) verdict k s) (app w))"
  using assms(1)
proof (induction k arbitrary: l w s)
  case (Suc k)
  obtain l1 w1 where 1: "dlq_poll R c g h mx n b l w = (Inr l1, w1)" "implements g c others (kv w1) l1 (pipeline_turn mx (nat n) verdict s)"
    "\<forall>eff. acts eff c h \<longrightarrow> app w1 = fold eff (batch_calls mx verdict (turn_batch (nat n) s) (deliver_new (nat n) s)) (app w)"
    using poll_implements [OF Suc.prems h n] by blast
  obtain l' w' where 2: "dlq_loop R c g h mx n b (replicate k (\<lambda>w. w)) l1 w1 = (Inr l', w')"
    "implements g c others (kv w') l' (pipeline_turns mx (nat n) verdict k (pipeline_turn mx (nat n) verdict s))"
    "\<forall>eff. acts eff c h \<longrightarrow> app w' = fold eff (turns_calls mx (nat n) verdict k (pipeline_turn mx (nat n) verdict s)) (app w1)"
    using Suc.IH [OF 1(2)] by blast
  then show ?case using 1(1,3) by (simp add: bnd_Inr)
qed auto

lemma dlq_ensure_all_again:
  assumes "dlq_ensure_all_groups R g w = (Inr (), w')"
    and "ks_group (kv w) MAIN_STREAM g \<noteq> None" and "ks_group (kv w) DLQ_STREAM g \<noteq> None"
  shows "kv w' = kv w"
  using assms unfolding dlq_ensure_all_groups_def
  by (auto elim!: bnd_InrE dest!: dlq_ensure_group_effect split: if_splits)

lemma run_implements:
  assumes imp: "implements g c others (kv w) \<lparr>attempts = [], total_processed = 0\<rparr> s" and h: "decides verdict c h"
    and n: "1 \<le> n"
  shows "\<exists>l' w'. run_idempotent_consumer R c g h mx n b (replicate k (\<lambda>w. w)) w =
      (Inr (pl_total (pipeline_turns mx (nat n) verdict k s)), w') \<and>
    implements g c others (kv w') l' (pipeline_turns mx (nat n) verdict k s) \<and>
    (\<forall>eff. acts eff c h \<longrightarrow> app w' = fold eff (turns_calls mx (nat n) verdict k s) (app w))"
proof -
  obtain w1 where start: "dlq_ensure_all_groups R g w = (Inr (), w1)" by (rule dlq_ensure_all_up)
  have a: "app w1 = app w" using dlq_ensure_all_effect [OF start] by simp
  have "implements g c others (kv w1) \<lparr>attempts = [], total_processed = 0\<rparr> s"
    using imp dlq_ensure_all_again [OF start] by (fastforce simp: implements_def)
  from loop_implements [OF this h n] obtain l' w' where
    "dlq_loop R c g h mx n b (replicate k (\<lambda>w. w)) \<lparr>attempts = [], total_processed = 0\<rparr> w1 = (Inr l', w')"
    and *: "implements g c others (kv w') l' (pipeline_turns mx (nat n) verdict k s)"
    and "\<forall>eff. acts eff c h \<longrightarrow> app w' = fold eff (turns_calls mx (nat n) verdict k s) (app w)" unfolding a by blast
  moreover have "total_processed l' = pl_total (pipeline_turns mx (nat n) verdict k s)" using * by (simp add: implements_def)
  ultimately show ?thesis by (auto simp: run_idempotent_consumer_def bnd_Inr start)
qed

end

subsection \<open>What the turns come to\<close>

definition unseen :: "pipeline \<Rightarrow> (string \<times> payment) list \<Rightarrow> (string \<times> payment) list" where
  "unseen s = filter (\<lambda>x. payment_id (snd x) \<notin> pl_processed s)"

definition accepted :: "verdict \<Rightarrow> pipeline \<Rightarrow> (string \<times> payment) list \<Rightarrow> (string \<times> payment) list" where
  "accepted verdict s xs = filter (\<lambda>x. verdict (snd x) = None) (unseen s xs)"

definition refused :: "verdict \<Rightarrow> pipeline \<Rightarrow> (string \<times> payment) list \<Rightarrow> (string \<times> payment) list" where
  "refused verdict s xs = filter (\<lambda>x. verdict (snd x) \<noteq> None) (unseen s xs)"

definition parked_as :: "verdict \<Rightarrow> int \<Rightarrow> string \<times> payment \<Rightarrow> payment \<times> string \<times> int" where
  "parked_as verdict n x = (snd x, exn_name (the (verdict (snd x))), n)"

definition separate :: "(string \<times> payment) list \<Rightarrow> bool" where
  "separate xs \<longleftrightarrow> distinct (map fst xs) \<and> distinct (map (payment_id \<circ> snd) xs)"

lemma separate_Cons:
  "separate (x # xs) \<longleftrightarrow> fst x \<notin> fst ` set xs \<and> payment_id (snd x) \<notin> (payment_id \<circ> snd) ` set xs \<and> separate xs"
  by (auto simp: separate_def)

lemma separate_filter: "separate xs \<Longrightarrow> separate (filter P xs)"
  by (simp add: separate_def distinct_map_filter)

lemma sorted_out_other:
  assumes "\<forall>y \<in> set xs. (payment_id (snd y) \<in> pl_processed s') = (payment_id (snd y) \<in> pl_processed s)"
  shows "accepted verdict s' xs = accepted verdict s xs" "refused verdict s' xs = refused verdict s xs"
proof -
  have "unseen s' xs = unseen s xs" unfolding unseen_def using assms by (intro filter_cong) auto
  then show "accepted verdict s' xs = accepted verdict s xs" "refused verdict s' xs = refused verdict s xs"
    by (simp_all add: accepted_def refused_def)
qed

lemma sorted_out_in:
  "x \<in> set (accepted verdict s xs) \<Longrightarrow> x \<in> set xs" "x \<in> set (refused verdict s xs) \<Longrightarrow> x \<in> set xs"
  by (auto simp: accepted_def refused_def unseen_def)

lemma sorted_out_Cons:
  "accepted verdict s (x # xs) =
     (if payment_id (snd x) \<notin> pl_processed s \<and> verdict (snd x) = None then [x] else []) @ accepted verdict s xs"
  "refused verdict s (x # xs) =
     (if payment_id (snd x) \<notin> pl_processed s \<and> verdict (snd x) \<noteq> None then [x] else []) @ refused verdict s xs"
  by (simp_all add: accepted_def refused_def unseen_def)

definition after_batch :: "int \<Rightarrow> int \<Rightarrow> verdict \<Rightarrow> (string \<times> payment) list \<Rightarrow> pipeline \<Rightarrow> pipeline" where
  "after_batch mx t verdict xs s = s\<lparr>
     pl_pending := filter (\<lambda>x. fst x \<notin> fst ` set xs \<or> t + 1 < mx \<and> fst x \<in> fst ` set (refused verdict s xs)) (pl_pending s),
     pl_processed := pl_processed s \<union> (payment_id \<circ> snd) ` set (accepted verdict s xs),
     pl_parked := pl_parked s @ (if t + 1 < mx then [] else map (parked_as verdict (t + 1)) (refused verdict s xs)),
     pl_tries := (\<lambda>i. if i \<in> fst ` set (accepted verdict s xs) then 0
       else if i \<in> fst ` set (refused verdict s xs) then if t + 1 < mx then t + 1 else 0 else pl_tries s i),
     pl_total := pl_total s + int (length (accepted verdict s xs))\<rparr>"

lemma entries_batch:
  assumes "separate xs" and "\<forall>x \<in> set xs. pl_tries s (fst x) = t"
  shows "fold (pipeline_entry mx verdict) xs s = after_batch mx t verdict xs s"
  using assms
proof (induction xs arbitrary: s)
  case Nil
  show ?case by (simp add: after_batch_def accepted_def refused_def unseen_def)
next
  case (Cons x xs)
  obtain i p where x: "x = (i, p)" by (cases x)
  define s1 where "s1 = pipeline_entry mx verdict x s"
  have sep: "i \<notin> fst ` set xs" "payment_id p \<notin> (payment_id \<circ> snd) ` set xs" "separate xs"
    using Cons.prems(1) by (simp_all add: separate_Cons x)
  have other: "fst y \<noteq> i" "payment_id (snd y) \<noteq> payment_id p" if "y \<in> set xs" for y
    using that sep(1,2) by force+
  have "\<forall>y \<in> set xs. (payment_id (snd y) \<in> pl_processed s1) = (payment_id (snd y) \<in> pl_processed s)"
    using other by (simp add: s1_def pipeline_entry_def x pl_drop_def Let_def split: option.split)
  note same = sorted_out_other [OF this]
  have notin: "i \<notin> fst ` set (accepted verdict s xs)" "i \<notin> fst ` set (refused verdict s xs)"
    using other(1) by (auto dest: sorted_out_in)
  have "\<forall>y \<in> set xs. pl_tries s1 (fst y) = t"
    using other Cons.prems(2) by (simp add: s1_def pipeline_entry_def x pl_drop_def Let_def split: option.split)
  then have "fold (pipeline_entry mx verdict) (x # xs) s = after_batch mx t verdict xs s1"
    using Cons.IH [OF sep(3)] by (simp add: s1_def)
  also have "\<dots> = after_batch mx t verdict (x # xs) s"
  proof -
    consider (dup) "payment_id p \<in> pl_processed s" "s1 = pl_drop i s"
      | (ok) "payment_id p \<notin> pl_processed s" "verdict p = None"
          "s1 = (pl_drop i s)\<lparr>pl_processed := insert (payment_id p) (pl_processed s),
            pl_tries := (pl_tries s)(i := 0), pl_total := pl_total s + 1\<rparr>"
      | (again) "payment_id p \<notin> pl_processed s" "verdict p \<noteq> None" "t + 1 < mx"
          "s1 = s\<lparr>pl_tries := (pl_tries s)(i := t + 1)\<rparr>"
      | (park) "payment_id p \<notin> pl_processed s" "verdict p \<noteq> None" "\<not> t + 1 < mx"
          "s1 = (pl_drop i s)\<lparr>pl_parked := pl_parked s @ [parked_as verdict (t + 1) x], pl_tries := (pl_tries s)(i := 0)\<rparr>"
      using Cons.prems(2)
      by (cases "payment_id p \<in> pl_processed s"; cases "verdict p"; cases "t + 1 < mx")
        (simp_all add: s1_def pipeline_entry_def x parked_as_def)
    then show ?thesis
    proof cases
      case dup
      then show ?thesis unfolding after_batch_def same sorted_out_Cons x using notin sep(1)
        by (intro pipeline.equality) (auto simp: pl_drop_def intro!: filter_cong)
    next
      case ok
      then show ?thesis unfolding after_batch_def same sorted_out_Cons x using notin sep(1)
        by (intro pipeline.equality) (auto simp: pl_drop_def intro!: filter_cong)
    next
      case again
      then show ?thesis unfolding after_batch_def same sorted_out_Cons x using notin sep(1)
        by (intro pipeline.equality) (auto intro!: filter_cong)
    next
      case park
      then show ?thesis unfolding after_batch_def same sorted_out_Cons x using notin sep(1)
        by (intro pipeline.equality) (auto simp: pl_drop_def intro!: filter_cong)
    qed
  qed
  finally show ?case .
qed

definition after_turns :: "int \<Rightarrow> verdict \<Rightarrow> int \<Rightarrow> pipeline \<Rightarrow> pipeline" where
  "after_turns mx verdict k s = s\<lparr>
     pl_new := [],
     pl_pending := (if k < mx then refused verdict s (pl_new s) else []),
     pl_processed := pl_processed s \<union> (payment_id \<circ> snd) ` set (accepted verdict s (pl_new s)),
     pl_parked := pl_parked s @ (if k < mx then [] else map (parked_as verdict mx) (refused verdict s (pl_new s))),
     pl_tries := (\<lambda>i. if k < mx \<and> i \<in> fst ` set (refused verdict s (pl_new s)) then k else 0),
     pl_total := pl_total s + int (length (accepted verdict s (pl_new s)))\<rparr>"

lemma in_sorted_out:
  "x \<in> set (accepted verdict s xs) \<longleftrightarrow> x \<in> set xs \<and> payment_id (snd x) \<notin> pl_processed s \<and> verdict (snd x) = None"
  "x \<in> set (refused verdict s xs) \<longleftrightarrow> x \<in> set xs \<and> payment_id (snd x) \<notin> pl_processed s \<and> verdict (snd x) \<noteq> None"
  by (auto simp: accepted_def refused_def unseen_def)

lemma in_refused:
  assumes "separate xs" and "x \<in> set xs"
  shows "fst x \<in> fst ` set (refused verdict s xs) \<longleftrightarrow> x \<in> set (refused verdict s xs)"
  using assms by (intro inj_on_image_mem_iff) (auto simp: separate_def distinct_map in_sorted_out)

lemma left_pending:
  assumes "separate xs"
  shows "filter (\<lambda>x. fst x \<notin> fst ` set xs \<or> b \<and> fst x \<in> fst ` set (refused verdict s xs)) xs =
    (if b then refused verdict s xs else [])"
proof -
  have "filter (\<lambda>x. fst x \<notin> fst ` set xs \<or> b \<and> fst x \<in> fst ` set (refused verdict s xs)) xs =
      filter (\<lambda>x. b \<and> x \<in> set (refused verdict s xs)) xs"
    by (intro filter_cong refl) (simp add: in_refused [OF assms])
  also have "\<dots> = (if b then refused verdict s xs else [])"
    by (auto simp: in_sorted_out refused_def unseen_def filter_filter intro!: filter_cong)
  finally show ?thesis .
qed

lemma accepted_not_refused:
  assumes "separate xs" and "i \<in> fst ` set (accepted verdict s xs)"
  shows "i \<notin> fst ` set (refused verdict s xs)"
proof -
  obtain x where "x \<in> set (accepted verdict s xs)" and i: "i = fst x" using assms(2) by blast
  then have "x \<in> set xs" and "x \<notin> set (refused verdict s xs)" by (simp_all add: in_sorted_out)
  then show ?thesis using in_refused [OF assms(1)] i by simp
qed

lemma refused_unseen:
  assumes "separate xs" and "pl_processed s1 = pl_processed s \<union> (payment_id \<circ> snd) ` set (accepted verdict s xs)"
  shows "unseen s1 (refused verdict s xs) = refused verdict s xs"
proof -
  have "payment_id (snd x) \<notin> pl_processed s1" if x: "x \<in> set (refused verdict s xs)" for x
  proof
    assume "payment_id (snd x) \<in> pl_processed s1"
    then obtain y where "y \<in> set (accepted verdict s xs)" "payment_id (snd x) = payment_id (snd y)"
      using x assms(2) by (auto simp: in_sorted_out)
    moreover have "inj_on (payment_id \<circ> snd) (set xs)" using assms(1) by (simp add: separate_def distinct_map)
    ultimately have "x = y" using x inj_onD [of "payment_id \<circ> snd" "set xs" x y] by (simp add: in_sorted_out)
    then show False using x \<open>y \<in> set (accepted verdict s xs)\<close> by (simp add: in_sorted_out)
  qed
  then show ?thesis by (simp add: unseen_def filter_id_conv)
qed

lemma first_turn:
  assumes "separate (pl_new s)" "length (pl_new s) \<le> n" "pl_pending s = []" "pl_tries s = (\<lambda>_. 0)" "1 \<le> mx"
  shows "pipeline_turn mx n verdict s = after_turns mx verdict 1 s"
proof -
  define s1 where "s1 = s\<lparr>pl_new := [], pl_pending := pl_new s\<rparr>"
  have sorted: "accepted verdict s1 (pl_new s) = accepted verdict s (pl_new s)"
      "refused verdict s1 (pl_new s) = refused verdict s (pl_new s)"
    by (rule sorted_out_other; simp add: s1_def)+
  have "pipeline_turn mx n verdict s = fold (pipeline_entry mx verdict) (pl_new s) s1"
    using assms(2,3) by (simp add: turn_defs s1_def)
  also have "\<dots> = after_batch mx 0 verdict (pl_new s) s1"
    using assms by (intro entries_batch) (auto simp: s1_def)
  also have "\<dots> = after_turns mx verdict 1 s"
    unfolding after_batch_def after_turns_def sorted using assms(3,4,5) accepted_not_refused [OF assms(1)]
    by (intro pipeline.equality) (auto simp: s1_def left_pending [OF assms(1), where b = True, simplified])
  finally show ?thesis .
qed

lemma next_turn:
  assumes "separate (pl_new s)" "length (pl_new s) \<le> n" "pl_pending s = []" "1 \<le> k" "1 \<le> mx"
  shows "pipeline_turn mx n verdict (after_turns mx verdict k s) = after_turns mx verdict (k + 1) s"
proof (cases "k < mx")
  case False
  then show ?thesis by (simp add: turn_defs after_turns_def)
next
  case True
  define R where "R = refused verdict s (pl_new s)"
  define s1 where "s1 = after_turns mx verdict k s"
  have R: "pl_pending s1 = R" "pl_new s1 = []" "length R \<le> n"
    using assms(2) True by (auto simp: s1_def after_turns_def R_def refused_def unseen_def intro: le_trans [OF length_filter_le])
  have sep: "separate R" using assms(1) by (simp add: R_def refused_def unseen_def separate_filter)
  have "unseen s1 R = R"
    unfolding R_def by (rule refused_unseen [OF assms(1)]) (simp add: s1_def after_turns_def)
  then have sorted: "accepted verdict s1 R = []" "refused verdict s1 R = R"
    by (auto simp: accepted_def refused_def filter_empty_conv filter_id_conv) (auto simp: R_def in_sorted_out)
  have last: "parked_as verdict (k + 1) x = parked_as verdict mx x" if "\<not> k + 1 < mx" for x
    using True that by (metis add1_zle_eq order_antisym_conv linorder_not_less)
  have same: "s1\<lparr>pl_new := [], pl_pending := R\<rparr> = s1" by (rule pipeline.equality) (simp_all add: R)
  have "pipeline_turn mx n verdict s1 = fold (pipeline_entry mx verdict) R s1"
    using R by (simp add: turn_defs same)
  also have "\<dots> = after_batch mx k verdict R s1"
    using True sep by (intro entries_batch) (auto simp: s1_def after_turns_def R_def)
  also have "\<dots> = after_turns mx verdict (k + 1) s"
    unfolding after_batch_def sorted R
    by (intro pipeline.equality) (use True last in \<open>auto simp: s1_def after_turns_def R_def fun_eq_iff filter_empty_conv\<close>)
  finally show ?thesis by (simp add: s1_def)
qed

lemma pipeline_turns_Suc: "pipeline_turns mx n verdict (Suc k) s = pipeline_turn mx n verdict (pipeline_turns mx n verdict k s)"
  by (induction k arbitrary: s) simp_all

lemma pipeline_turns_eq:
  assumes "separate (pl_new s)" "length (pl_new s) \<le> n" "pl_pending s = []" "pl_tries s = (\<lambda>_. 0)" "1 \<le> mx"
  shows "pipeline_turns mx n verdict (Suc k) s = after_turns mx verdict (int (Suc k)) s"
proof (induction k)
  case 0
  show ?case using first_turn [OF assms] by simp
next
  case (Suc k)
  then show ?case
    using next_turn [OF assms(1-3), of "int (Suc k)" mx verdict] assms(5)
    by (simp add: pipeline_turns_Suc [of mx n verdict "Suc k"] add.commute del: pipeline_turns.simps)
qed

text \<open>
  The calls of the handler: every unprocessed payment of a batch once, and the refused ones again in every
  turn up to the last attempt.
\<close>

lemma batch_calls_eq:
  assumes "separate xs"
  shows "batch_calls mx verdict xs s = map snd (unseen s xs)"
  using assms
proof (induction xs arbitrary: s)
  case (Cons x xs)
  have "\<forall>y \<in> set xs. (payment_id (snd y) \<in> pl_processed (pipeline_entry mx verdict x s)) = (payment_id (snd y) \<in> pl_processed s)"
    using Cons.prems by (force simp: separate_Cons pipeline_entry_def pl_drop_def Let_def split: prod.split option.split)
  then have "unseen (pipeline_entry mx verdict x s) xs = unseen s xs" unfolding unseen_def by (intro filter_cong) auto
  then show ?case using Cons by (simp add: separate_Cons unseen_def)
qed (simp add: unseen_def)

lemma concat_replicate_comm: "concat (replicate m xs) @ xs = xs @ concat (replicate m xs)"
  by (induction m) simp_all

lemma turns_calls_snoc:
  "turns_calls mx n verdict (Suc k) s = turns_calls mx n verdict k s @
    batch_calls mx verdict (turn_batch n (pipeline_turns mx n verdict k s)) (deliver_new n (pipeline_turns mx n verdict k s))"
  by (induction k arbitrary: s) simp_all

lemma next_calls:
  assumes "separate (pl_new s)" "length (pl_new s) \<le> n" "pl_pending s = []"
  shows "batch_calls mx verdict (turn_batch n (after_turns mx verdict k s)) (deliver_new n (after_turns mx verdict k s)) =
    (if k < mx then map snd (refused verdict s (pl_new s)) else [])"
proof -
  define R where "R = refused verdict s (pl_new s)"
  have "length R \<le> n" using assms(2) by (auto simp: R_def refused_def unseen_def intro: le_trans [OF length_filter_le])
  then have batch: "turn_batch n (after_turns mx verdict k s) = (if k < mx then R else [])"
    by (simp add: turn_batch_def after_turns_def R_def)
  have "unseen (deliver_new n (after_turns mx verdict k s)) R = R"
    unfolding R_def by (rule refused_unseen [OF assms(1)]) (simp add: deliver_new_def after_turns_def)
  moreover have "separate R" using assms(1) by (simp add: R_def refused_def unseen_def separate_filter)
  ultimately show ?thesis unfolding batch by (simp add: batch_calls_eq R_def)
qed

lemma turns_calls_eq:
  assumes "separate (pl_new s)" "length (pl_new s) \<le> n" "pl_pending s = []" "pl_tries s = (\<lambda>_. 0)" "1 \<le> mx"
  shows "turns_calls mx n verdict (Suc k) s = map snd (unseen s (pl_new s)) @
    concat (replicate (min k (nat mx - 1)) (map snd (refused verdict s (pl_new s))))"
proof (induction k)
  case 0
  have "unseen (deliver_new n s) (pl_new s) = unseen s (pl_new s)" by (simp add: unseen_def deliver_new_def)
  moreover have "turn_batch n s = pl_new s" using assms(2,3) by (simp add: turn_batch_def)
  ultimately show ?case using assms(1) by (simp add: batch_calls_eq)
next
  case (Suc k)
  have "min (Suc k) (nat mx - 1) = (if int (Suc k) < mx then Suc (min k (nat mx - 1)) else min k (nat mx - 1))" by auto
  then show ?case
    using Suc.IH next_calls [OF assms(1-3), of mx verdict "int (Suc k)"]
    by (simp add: turns_calls_snoc [of mx n verdict "Suc k"] pipeline_turns_eq [OF assms] concat_replicate_comm
        del: turns_calls.simps pipeline_turns.simps of_nat_Suc)
qed

context redis_available
begin

lemma run_settles:
  assumes imp: "implements g c {} (kv w) \<lparr>attempts = [], total_processed = 0\<rparr> s" and h: "decides verdict c h"
    and sep: "separate (pl_new s)" and len: "int (length (pl_new s)) \<le> n" and n: "1 \<le> n" and none: "pl_pending s = []"
    and mx: "1 \<le> mx" "mx \<le> int k"
  shows "\<exists>w' l'. run_idempotent_consumer R c g h mx n b (replicate k (\<lambda>w. w)) w =
      (Inr (int (length (accepted verdict s (pl_new s)))), w') \<and>
    implements g c {} (kv w') l' (after_turns mx verdict mx s) \<and>
    (\<forall>eff. acts eff c h \<longrightarrow> app w' = fold eff (map snd (unseen s (pl_new s)) @
      concat (replicate (nat mx - 1) (map snd (refused verdict s (pl_new s))))) (app w))"
proof -
  obtain j where j: "k = Suc j" using mx by (cases k) auto
  have s: "pl_tries s = (\<lambda>_. 0)" "pl_total s = 0" using imp by (auto simp: implements_def dict_get_def)
  have "length (pl_new s) \<le> nat n" using len n by linarith
  then have "pipeline_turns mx (nat n) verdict k s = after_turns mx verdict (int k) s"
    unfolding j using pipeline_turns_eq [OF sep _ none s(1) mx(1)] by blast
  also have "\<dots> = after_turns mx verdict mx s" using mx by (simp add: after_turns_def)
  finally have turns: "pipeline_turns mx (nat n) verdict k s = after_turns mx verdict mx s" .
  have "pl_total (after_turns mx verdict mx s) = int (length (accepted verdict s (pl_new s)))"
    using s(2) by (simp add: after_turns_def)
  moreover have most: "min j (nat mx - 1) = nat mx - 1" using mx(2) j by simp
  have "turns_calls mx (nat n) verdict k s = map snd (unseen s (pl_new s)) @
      concat (replicate (nat mx - 1) (map snd (refused verdict s (pl_new s))))"
    unfolding j turns_calls_eq [OF sep \<open>length (pl_new s) \<le> nat n\<close> none s(1) mx(1)] most ..
  ultimately show ?thesis using run_implements [OF imp h n, of mx b k] unfolding turns by metis
qed

text \<open>A drained group has nothing outstanding, so the next consumer of the group finds the same pipeline.\<close>

lemma implements_drained:
  assumes "implements g c {} k l s" and "pl_new s = []" and "pl_pending s = []"
  shows "\<exists>gr. ks_group k MAIN_STREAM g = Some gr \<and> outstanding gr = []"
    and "implements g c' {} k l s"
proof -
  obtain gr where gr: "ks_group k MAIN_STREAM g = Some gr" "list_all2 parsed (g_new gr) (pl_new s)"
    "list_all2 parsed (owned_by c gr) (pl_pending s)" "group_wf (ks_entries k MAIN_STREAM) gr"
    "pe_owner ` set (g_pel gr) \<subseteq> insert c {}" by (rule implements_group [OF assms(1)])
  then have "owned_by c gr = []" "g_new gr = []" using assms(2,3) by simp_all
  then have "\<forall>p \<in> set (g_pel gr). pe_owner p \<noteq> c" by (simp add: owned_by_def filter_empty_conv)
  moreover have "\<forall>p \<in> set (g_pel gr). pe_owner p = c" using gr(5) by auto
  ultimately have pel: "g_pel gr = []" by (cases "g_pel gr") auto
  then have out: "outstanding gr = []" using \<open>g_new gr = []\<close> by (simp add: outstanding_def pel_entries_def)
  show "\<exists>gr. ks_group k MAIN_STREAM g = Some gr \<and> outstanding gr = []" using gr(1) out by blast
  show "implements g c' {} k l s" using assms gr(1) pel by (simp add: implements_def owned_by_def)
qed

end

end
