(* ===== verification/Redis_Memory.thy ===== *)
theory Redis_Memory
  imports Redis_Client
begin

section \<open>An in-memory server\<close>

text \<open>
  \<open>mem_redis\<close> answers every command by its effect on a \<open>keyspace\<close>, with ids counted in unary
  (longer than every id already in the stream, so fresh). It discharges the assumptions of
  \<open>redis_available\<close>, which shows that they can hold together, and the witnesses run the
  code's definitions on it. No part of the program is modelled here.
\<close>

definition fresh_id :: "entry list \<Rightarrow> string" where
  "fresh_id es = replicate (Suc (fold (\<lambda>e n. max (length (fst e)) n) es 0)) (CHR ''1'')"

lemma fold_max_ge: "m \<le> fold (\<lambda>e n. max (f e) n) es (m::nat)"
proof (induction es arbitrary: m)
  case (Cons x es)
  have "max (f x) m \<le> fold (\<lambda>e n. max (f e) n) es (max (f x) m)" by (rule Cons)
  then show ?case by simp
qed simp

lemma fold_max_upper: "e \<in> set es \<Longrightarrow> f e \<le> fold (\<lambda>e n. max (f e) n) es (m::nat)"
proof (induction es arbitrary: m)
  case (Cons x es)
  then show ?case
    using fold_max_ge [of "max (f x) m" f es] by auto
qed simp

lemma fresh_id_fresh: "fresh_id es \<notin> fst ` set es"
proof
  assume "fresh_id es \<in> fst ` set es"
  then obtain e where e: "e \<in> set es" "fst e = fresh_id es" by auto
  have "length (fst e) \<le> fold (\<lambda>e n. max (length (fst e)) n) es 0"
    using fold_max_upper [OF e(1), of "\<lambda>e. length (fst e)" 0] by simp
  then show False using e(2) by (simp add: fresh_id_def)
qed

lemma fresh_id_nonzero: "fresh_id es \<noteq> ''0''"
  by (auto simp: fresh_id_def replicate_Suc)

definition no_such_group :: exn where
  "no_such_group = ResponseError ''NOGROUP No such consumer group''"

definition data_error :: exn where
  "data_error = OtherException ''DataError'' ''count must be a positive integer''"

definition mem_xadd :: "string \<Rightarrow> fields \<Rightarrow> (keyspace, string) io" where
  "mem_xadd s f k = (if f = [] then (Inl data_error, k)
     else (let i = fresh_id (ks_entries k s) in (Inr i, ks_xadd s i f k)))"

definition mem_xread :: "string \<Rightarrow> string \<Rightarrow> int \<Rightarrow> (keyspace, reply) io" where
  "mem_xread s i n k = (if n < 1 then (Inl data_error, k)
     else (Inr (mk_reply s (take (nat n) (after_id i (ks_entries k s)))), k))"

definition mem_xlen :: "string \<Rightarrow> (keyspace, int) io" where
  "mem_xlen s k = (Inr (int (length (ks_entries k s))), k)"

definition mem_xgroup_create :: "string \<Rightarrow> string \<Rightarrow> (keyspace, unit) io" where
  "mem_xgroup_create s g k = (case ks_group k s g of
      None \<Rightarrow> (Inr (), ks_put_group s g (new_group (ks_entries k s)) k)
    | Some gr \<Rightarrow> (Inl (ResponseError ''BUSYGROUP Consumer Group name already exists''), k))"

definition mem_xreadgroup ::
    "string \<Rightarrow> string \<Rightarrow> string \<Rightarrow> string \<Rightarrow> int \<Rightarrow> int option \<Rightarrow> (keyspace, reply) io" where
  "mem_xreadgroup g c s i n blk k = (if n < 1 then (Inl data_error, k)
     else case ks_group k s g of
       None \<Rightarrow> (Inl no_such_group, k)
     | Some gr \<Rightarrow>
         if i = ''>'' then (Inr (mk_reply s (take (nat n) (g_new gr))),
           ks_put_group s g (deliver c (ks_time k) (nat n) gr) k)
         else (let es = take (nat n) (owned_by c gr)
               in (Inr [(s, es)], ks_put_group s g (touch c (ks_time k) (map fst es) gr) k)))"

definition mem_xack :: "string \<Rightarrow> string \<Rightarrow> string \<Rightarrow> (keyspace, int) io" where
  "mem_xack s g i k = (case ks_group k s g of
      None \<Rightarrow> (Inr 0, k)
    | Some gr \<Rightarrow> (Inr (if i \<in> pe_id ` set (g_pel gr) then 1 else 0),
        ks_put_group s g (unpend i gr) k))"

definition mem_xpending :: "string \<Rightarrow> string \<Rightarrow> (keyspace, int) io" where
  "mem_xpending s g k = (case ks_group k s g of
      None \<Rightarrow> (Inl no_such_group, k)
    | Some gr \<Rightarrow> (Inr (int (length (g_pel gr))), k))"

definition mem_xautoclaim ::
    "string \<Rightarrow> string \<Rightarrow> string \<Rightarrow> int \<Rightarrow> int \<Rightarrow> (keyspace, entry list) io" where
  "mem_xautoclaim s g c min_idle n k = (if n < 1 then (Inl data_error, k)
     else case ks_group k s g of
       None \<Rightarrow> (Inl no_such_group, k)
     | Some gr \<Rightarrow>
         (let es = claimable (ks_time k) min_idle (nat n) gr
          in (Inr es, ks_put_group s g (touch c (ks_time k) (map fst es) gr) k)))"

definition mem_sadd :: "string \<Rightarrow> string \<Rightarrow> (keyspace, int) io" where
  "mem_sadd key x k = (Inr (if x \<in> ks_live_set k key then 0 else 1), ks_sadd key x k)"

definition mem_sismember :: "string \<Rightarrow> string \<Rightarrow> (keyspace, int) io" where
  "mem_sismember key x k = (Inr (if x \<in> ks_live_set k key then 1 else 0), k)"

definition mem_pexpire_nx :: "string \<Rightarrow> int \<Rightarrow> (keyspace, int) io" where
  "mem_pexpire_nx key ms k =
     (Inr (if ks_live_set k key \<noteq> {} \<and> ks_expiry k key = None then 1 else 0), ks_pexpire_nx key ms k)"

definition mem_delete :: "string list \<Rightarrow> (keyspace, int) io" where
  "mem_delete keys k = (Inr (int (length (remdups keys))), ks_delete keys k)"

definition mem_xrange :: "string \<Rightarrow> (keyspace, entry list) io" where
  "mem_xrange s k = (Inr (ks_entries k s), k)"

definition mem_redis :: "keyspace redis" where
  "mem_redis = \<lparr>xadd = mem_xadd, xread = mem_xread, xlen = mem_xlen,
     xgroup_create = mem_xgroup_create, xreadgroup = mem_xreadgroup, xack = mem_xack,
     xpending = mem_xpending, xautoclaim = mem_xautoclaim, sadd = mem_sadd,
     sismember = mem_sismember, pexpire_nx = mem_pexpire_nx,
     delete_keys = mem_delete, xrange = mem_xrange\<rparr>"

definition empty_keyspace :: keyspace where
  "empty_keyspace = \<lparr>ks_streams = (\<lambda>_. \<lparr>s_entries = [], s_groups = (\<lambda>_. None)\<rparr>),
     ks_sets = (\<lambda>_. {}), ks_expiry = (\<lambda>_. None), ks_time = 0\<rparr>"

lemmas mem_redis_defs = mem_redis_def mem_xadd_def mem_xread_def mem_xlen_def
  mem_xgroup_create_def mem_xreadgroup_def mem_xack_def mem_xpending_def mem_xautoclaim_def
  mem_sadd_def mem_sismember_def mem_pexpire_nx_def mem_delete_def mem_xrange_def

lemma busygroup_message:
  "contains ''BUSYGROUP'' ''BUSYGROUP Consumer Group name already exists''"
  "\<not> contains ''BUSYGROUP'' ''NOGROUP No such consumer group''"
  by simp_all

interpretation mem: redis_available mem_redis "\<lambda>k. k"
proof unfold_locales
  fix s f i r r'
  assume "xadd mem_redis s f r = (Inr i, r')"
  then show "r' = ks_xadd s i f r \<and> i \<noteq> ''0'' \<and> i \<notin> fst ` set (ks_entries r s)"
    using fresh_id_fresh [of "ks_entries r s"] fresh_id_nonzero
    by (auto simp: mem_redis_defs Let_def split: if_splits)
qed (auto simp: mem_redis_defs Let_def no_such_group_def data_error_def busygroup_message
      split: if_splits option.splits)

end
