(* ===== verification/DLQ_Properties.thy ===== *)
theory DLQ_Properties
  imports DLQ_Naive DLQ_Spec Redis_Memory
begin

section \<open>Dead letter queue: properties\<close>

text \<open>
  The properties of \<^verbatim>\<open>dlq_pattern\<close>, over the definitions of \<open>DLQ_Broker\<close>, \<open>DLQ_Consumer\<close>,
  \<open>DLQ_Naive\<close> and the specification \<open>DLQ_Spec\<close>. Each is stated for any Redis client that satisfies \<open>redis_server\<close> (or
  \<open>redis_available\<close> where work has to get done); the witnesses run the code on \<open>mem_redis\<close>.
\<close>

subsection \<open>A world to try the code on\<close>

definition demo_payment :: payment where
  "demo_payment = \<lparr>payment_id = ''p1'', amount_cents = -50, payment_customer_id = ''c1'',
     currency = ''EUR''\<rparr>"

definition demo_world :: "keyspace \<Rightarrow> 'x \<Rightarrow> (keyspace, 'x) world_scheme" where
  "demo_world k x = \<lparr>reg = [], wall = [], srv = k, \<dots> = x\<rparr>"

definition demo_stream :: keyspace where
  "demo_stream = ks_xadd MAIN_STREAM ''1'' (payment_to_fields demo_payment) empty_keyspace"

definition demo_pending :: "fields \<Rightarrow> keyspace" where
  "demo_pending f = ks_put_group MAIN_STREAM ''g''
     \<lparr>g_new = [], g_pel = [\<lparr>pe_id = ''1'', pe_owner = ''c'', pe_fields = f, pe_since = 0\<rparr>]\<rparr>
     (ks_xadd MAIN_STREAM ''1'' f empty_keyspace)"

definition demo_charge :: "(keyspace, string list) dlq_handler" where
  "demo_charge c p w = (Inr (), world.more_update (\<lambda>l. l @ [payment_id p]) w)"

definition demo_fail :: "(keyspace, string list) dlq_handler" where
  "demo_fail c p w = (Inl (ValueError ''declined''), w)"

lemma dlq_benign_same_srv: "(\<And>w. srv (m w) = srv w) \<Longrightarrow> dlq_benign view g m"
  by (simp add: dlq_benign_def)

lemma demo_charge_benign: "dlq_benign view g (\<lambda>w. snd (demo_charge c p w))"
  by (rule dlq_benign_same_srv) (simp add: demo_charge_def)

lemma demo_charges: "charges (\<lambda>l. l) demo_charge"
  by (auto simp: charges_def demo_charge_def)

lemma demo_waiting: "waiting ''g'' ''c'' [(''1'', f)] (demo_pending f)"
  by (simp add: waiting_def demo_pending_def owned_by_def)

lemma demo_always_fails: "always_fails demo_fail c p (ValueError ''declined'')"
  by (simp add: always_fails_def demo_fail_def)

lemma demo_text_ok: "payment_text_ok demo_payment"
  by code_simp

lemma demo_from_fields: "payment_from_fields (payment_to_fields demo_payment) = Inr demo_payment"
  using payment_roundtrip_extra [OF demo_text_ok, of "[]"] by simp

lemma demo_pending_sets: "ks_live_set (demo_pending f) = (\<lambda>_. {})"
  "ks_entries (demo_pending f) DLQ_STREAM = []"
  by (simp_all add: demo_pending_def) (simp_all add: empty_keyspace_def ks_live_set_def
      ks_entries_def fun_eq_iff)

lemma demo_srv [simp]: "srv (demo_world k x) = k" "app (demo_world k x) = x"
  by (simp_all add: demo_world_def)

lemma demo_stream_start: "ks_group demo_stream MAIN_STREAM ''g'' = None"
  "distinct (map fst (ks_entries demo_stream MAIN_STREAM))"
  by (simp_all add: demo_stream_def) (simp_all add: empty_keyspace_def ks_group_def ks_entries_def)

abbreviation demo_run :: "(exn + int) \<times> (keyspace, string list) world_scheme" where
  "demo_run \<equiv> run_idempotent_consumer mem_redis ''c'' ''g'' demo_charge 3 10 0
     [\<lambda>w. snd (dlq_publish mem_redis demo_payment w), \<lambda>w. w] (demo_world demo_stream [])"

lemma demo_run_result: "demo_run = (Inr 1, snd demo_run)"
proof -
  have "fst demo_run = Inr 1" by code_simp
  then show ?thesis by (metis prod.collapse)
qed

lemma demo_run_entry:
  "(''1'', payment_to_fields demo_payment) \<in> set (ks_entries (srv (snd demo_run)) MAIN_STREAM)"
  by code_simp

subsection \<open>Properties\<close>

text \<open>
  C1: no payment is lost. Whatever the handler raises, and whatever it and the other tasks do between
  the turns as long as they keep the invariant and remove nothing from the main stream (\<open>dlq_benign\<close>; publishing is so), when the consumer's run returns, every entry of the main stream is still outstanding
  in the consumer group (undelivered or pending, so it is handled again) or settled: its payment
  is in the processed set or stands on the dead-letter stream.
\<close>

theorem dlq_no_payment_lost:
  assumes "redis_server R view" and "1 \<le> count"
    and "\<And>p. dlq_benign view grp (\<lambda>w. snd (handler consumer_id p w))"
    and "\<forall>env \<in> set envs. dlq_benign view grp env"
    and "dlq_inv grp (view (srv w)) \<or> ks_group (view (srv w)) MAIN_STREAM grp = None \<and>
      distinct (map fst (ks_entries (view (srv w)) MAIN_STREAM))"
    and "run_idempotent_consumer R consumer_id grp handler max_attempts count block_ms envs w =
      (Inr tot, w')"
    and "e \<in> set (ks_entries (view (srv w')) MAIN_STREAM)"
  shows "(\<exists>gr. ks_group (view (srv w')) MAIN_STREAM grp = Some gr \<and> e \<in> set (outstanding gr)) \<or>
    settled (view (srv w')) e"
  using redis_server.run_idempotent_consumer_inv [OF assms(1,6,2,3,4,5)] assms(7)
  by (auto simp: dlq_inv_def)

theorem dlq_no_payment_lost_witness:
  "fst demo_run = Inr 1 \<and>
   ((\<exists>gr. ks_group (srv (snd demo_run)) MAIN_STREAM ''g'' = Some gr \<and>
      (''1'', payment_to_fields demo_payment) \<in> set (outstanding gr)) \<or>
    settled (srv (snd demo_run)) (''1'', payment_to_fields demo_payment))"
proof
  show "fst demo_run = Inr 1" using demo_run_result by (metis fst_conv)
  show "(\<exists>gr. ks_group (srv (snd demo_run)) MAIN_STREAM ''g'' = Some gr \<and>
      (''1'', payment_to_fields demo_payment) \<in> set (outstanding gr)) \<or>
    settled (srv (snd demo_run)) (''1'', payment_to_fields demo_payment)"
    by (rule dlq_no_payment_lost [where view = "\<lambda>k. k" and R = mem_redis,
          OF mem.redis_server_axioms _ demo_charge_benign _ _ demo_run_result demo_run_entry])
      (auto simp: demo_stream_start redis_available.dlq_publish_benign [OF mem.redis_available_axioms]
        intro: dlq_benign_same_srv)
qed

text \<open>
  C2: a payment is charged at most once. For a handler that appends the payment's id to a log when
  it succeeds, the log has no duplicates after the run, every id in it is in the processed set,
  and it has grown by exactly the number the consumer returns, however often the payments were
  redelivered or published again.
\<close>

theorem dlq_charged_at_most_once:
  assumes "redis_server R view" and "1 \<le> count" and "charges lg handler"
    and "\<forall>env \<in> set envs. dlq_unrelated view lg env"
    and "distinct (lg (app w))" and "set (lg (app w)) \<subseteq> ks_live_set (view (srv w)) PROCESSED_SET"
    and "run_idempotent_consumer R consumer_id grp handler max_attempts count block_ms envs w =
      (Inr tot, w')"
  shows "distinct (lg (app w')) \<and> set (lg (app w')) \<subseteq> ks_live_set (view (srv w')) PROCESSED_SET \<and>
    int (length (lg (app w'))) = int (length (lg (app w))) + tot"
  using redis_server.run_idempotent_consumer_once [OF assms(1,7,2,3,4,5,6)] .

theorem dlq_charged_at_most_once_witness:
  "app (snd demo_run) = [''p1''] \<and> distinct (app (snd demo_run)) \<and>
   set (app (snd demo_run)) \<subseteq> ks_live_set (srv (snd demo_run)) PROCESSED_SET \<and>
   int (length (app (snd demo_run))) = int (length ([] :: string list)) + 1"
proof
  show "app (snd demo_run) = [''p1'']" by code_simp
  have pub: "dlq_unrelated (\<lambda>k. k) (\<lambda>l. l)
      (\<lambda>w :: (keyspace, string list) world_scheme. snd (dlq_publish mem_redis demo_payment w))"
    unfolding dlq_unrelated_def
  proof
    fix w :: "(keyspace, string list) world_scheme"
    obtain i w' where "dlq_publish mem_redis demo_payment w = (Inr i, w')"
      using redis_available.dlq_publish_up [OF mem.redis_available_axioms] by blast
    then show "app (snd (dlq_publish mem_redis demo_payment w)) = app w \<and>
        ks_live_set (srv w) PROCESSED_SET
          \<subseteq> ks_live_set (srv (snd (dlq_publish mem_redis demo_payment w))) PROCESSED_SET"
      using redis_server.dlq_publish_effect [OF mem.redis_server_axioms, of demo_payment w i w']
      by auto
  qed
  show "distinct (app (snd demo_run)) \<and>
     set (app (snd demo_run)) \<subseteq> ks_live_set (srv (snd demo_run)) PROCESSED_SET \<and>
     int (length (app (snd demo_run))) = int (length ([] :: string list)) + 1"
    using dlq_charged_at_most_once [where view = "\<lambda>k. k" and lg = "\<lambda>l. l" and R = mem_redis,
        OF mem.redis_server_axioms _ demo_charges _ _ _ demo_run_result] pub
    by (auto simp: dlq_unrelated_def)
qed

text \<open>A server on which one payment waits undelivered.\<close>

definition demo_ready :: keyspace where
  "demo_ready = ks_put_group DLQ_STREAM ''g'' \<lparr>g_new = [], g_pel = []\<rparr> (ks_put_group MAIN_STREAM ''g''
     \<lparr>g_new = [(''1'', payment_to_fields demo_payment)], g_pel = []\<rparr> demo_stream)"

definition demo_pipeline :: pipeline where
  "demo_pipeline = \<lparr>pl_new = [(''1'', demo_payment)], pl_pending = [], pl_processed = {}, pl_parked = [],
     pl_inspected = 0, pl_tries = (\<lambda>_. 0), pl_total = 0\<rparr>"

definition demo_verdict :: verdict where
  "demo_verdict p = Some (ValueError ''declined'')"

lemma demo_decides: "decides demo_verdict c demo_fail"
  by (simp add: decides_def demo_fail_def demo_verdict_def)

lemma demo_ready_lookups: "ks_entries demo_ready MAIN_STREAM = [(''1'', payment_to_fields demo_payment)]"
  "ks_entries demo_ready DLQ_STREAM = []" "ks_live_set demo_ready PROCESSED_SET = {}"
  by (simp_all add: demo_ready_def demo_stream_def) (simp_all add: empty_keyspace_def ks_entries_def ks_live_set_def)

lemma demo_implements: "implements ''g'' ''c'' {} demo_ready \<lparr>attempts = [], total_processed = 0\<rparr> demo_pipeline"
  unfolding implements_def demo_ready_lookups
  by (simp add: demo_ready_def demo_pipeline_def parsed_def demo_from_fields owned_by_def group_wf_def outstanding_def
      pel_entries_def dict_get_def)

text \<open>
  C3: the consumer refines its specification. Started where the server holds the pipeline \<open>s\<close>, with a
  handler whose verdict depends on the payment alone, the run of \<open>k\<close> turns returns the number of charges
  the \<open>k\<close> turns of the specification make, and leaves the server and the consumer's own dictionary of
  attempts in the state the specification reaches: undelivered and pending payments, processed set,
  dead-letter stream with reason and attempt count, and attempts.
\<close>

theorem dlq_consumer_refines_pipeline:
  assumes "redis_available R view" and "1 \<le> count" and "decides verdict consumer_id handler"
    and "implements grp consumer_id others (view (srv w)) \<lparr>attempts = [], total_processed = 0\<rparr> s"
  shows "\<exists>l' w'. run_idempotent_consumer R consumer_id grp handler max_attempts count block_ms
      (replicate k (\<lambda>w. w)) w = (Inr (pl_total (pipeline_turns max_attempts (nat count) verdict k s)), w') \<and>
    implements grp consumer_id others (view (srv w')) l' (pipeline_turns max_attempts (nat count) verdict k s)"
  using redis_available.run_implements [OF assms(1,4,3,2), of max_attempts block_ms k] by blast

theorem dlq_consumer_refines_pipeline_witness:
  "\<exists>l' w'. run_idempotent_consumer mem_redis ''c'' ''g'' demo_fail 2 10 0 (replicate 2 (\<lambda>w. w))
      (demo_world demo_ready ([] :: string list)) = (Inr (pl_total (pipeline_turns 2 (nat 10) demo_verdict 2 demo_pipeline)), w') \<and>
    implements ''g'' ''c'' {} (srv w') l' (pipeline_turns 2 (nat 10) demo_verdict 2 demo_pipeline)"
  by (rule dlq_consumer_refines_pipeline [where view = "\<lambda>k. k", OF mem.redis_available_axioms _ demo_decides])
    (simp_all add: demo_implements)

text \<open>
  C4: every payment of a batch is settled within \<open>max_attempts\<close> turns. If nothing is pending and the
  undelivered payments, all different, fit into one read, then after \<open>max_attempts\<close> or more turns nothing
  of the group is outstanding; exactly the unprocessed payments the handler accepts have been charged and
  are in the processed set; exactly the unprocessed payments it refuses stand on the dead-letter stream,
  in order, after what was there, with the exception's class name and \<open>max_attempts\<close> attempts; the
  run returns the number of charges; and the handler was called once on every unprocessed payment and then
  again \<open>max_attempts - 1\<close> times on the refused ones, batch by batch, whatever a call does to its own state.
\<close>

theorem dlq_batch_settled:
  assumes "redis_available R view" and "1 \<le> count" and "decides verdict consumer_id handler"
    and "implements grp consumer_id {} (view (srv w)) \<lparr>attempts = [], total_processed = 0\<rparr> s"
    and "separate (pl_new s)" and "int (length (pl_new s)) \<le> count" and "pl_pending s = []"
    and "1 \<le> max_attempts" and "max_attempts \<le> int k"
  shows "\<exists>w' gr. run_idempotent_consumer R consumer_id grp handler max_attempts count block_ms
      (replicate k (\<lambda>w. w)) w = (Inr (int (length (accepted verdict s (pl_new s)))), w') \<and>
    ks_group (view (srv w')) MAIN_STREAM grp = Some gr \<and> outstanding gr = [] \<and>
    ks_live_set (view (srv w')) PROCESSED_SET = ks_live_set (view (srv w)) PROCESSED_SET \<union>
      (payment_id \<circ> snd) ` set (accepted verdict s (pl_new s)) \<and>
    map snd (ks_entries (view (srv w')) DLQ_STREAM) = map snd (ks_entries (view (srv w)) DLQ_STREAM) @
      map (\<lambda>(i, p). dlq_fields p (exn_name (the (verdict p))) max_attempts) (refused verdict s (pl_new s)) \<and>
    (\<forall>eff. acts eff consumer_id handler \<longrightarrow> app w' = fold eff (map snd (unseen s (pl_new s)) @
      concat (replicate (nat max_attempts - 1) (map snd (refused verdict s (pl_new s))))) (app w))"
proof -
  obtain w' l' where run: "run_idempotent_consumer R consumer_id grp handler max_attempts count block_ms
      (replicate k (\<lambda>w. w)) w = (Inr (int (length (accepted verdict s (pl_new s)))), w')"
    and imp: "implements grp consumer_id {} (view (srv w')) l' (after_turns max_attempts verdict max_attempts s)"
    and calls: "\<forall>eff. acts eff consumer_id handler \<longrightarrow> app w' = fold eff (map snd (unseen s (pl_new s)) @
      concat (replicate (nat max_attempts - 1) (map snd (refused verdict s (pl_new s))))) (app w)"
    using redis_available.run_settles [OF assms(1,4,3,5,6,2,7,8,9)] by metis
  have "\<exists>gr. ks_group (view (srv w')) MAIN_STREAM grp = Some gr \<and> outstanding gr = []"
    by (rule redis_available.implements_drained(1) [OF assms(1) imp]) (simp_all add: after_turns_def)
  moreover have "ks_live_set (view (srv w')) PROCESSED_SET = ks_live_set (view (srv w)) PROCESSED_SET \<union>
      (payment_id \<circ> snd) ` set (accepted verdict s (pl_new s))"
    and "map snd (ks_entries (view (srv w')) DLQ_STREAM) = map snd (ks_entries (view (srv w)) DLQ_STREAM) @
      map (\<lambda>(i, p). dlq_fields p (exn_name (the (verdict p))) max_attempts) (refused verdict s (pl_new s))"
    using imp assms(4) by (auto simp: implements_def after_turns_def parked_as_def comp_def case_prod_beta)
  ultimately show ?thesis using run calls by blast
qed

theorem dlq_batch_settled_witness:
  "\<exists>w' gr. run_idempotent_consumer mem_redis ''c'' ''g'' demo_fail 2 10 0 (replicate 2 (\<lambda>w. w))
      (demo_world demo_ready ([] :: string list)) =
      (Inr (int (length (accepted demo_verdict demo_pipeline (pl_new demo_pipeline)))), w') \<and>
    ks_group (srv w') MAIN_STREAM ''g'' = Some gr \<and> outstanding gr = [] \<and>
    ks_live_set (srv w') PROCESSED_SET = ks_live_set (srv (demo_world demo_ready ([] :: string list))) PROCESSED_SET \<union>
      (payment_id \<circ> snd) ` set (accepted demo_verdict demo_pipeline (pl_new demo_pipeline)) \<and>
    map snd (ks_entries (srv w') DLQ_STREAM) = map snd (ks_entries (srv (demo_world demo_ready ([] :: string list))) DLQ_STREAM) @
      map (\<lambda>(i, p). dlq_fields p (exn_name (the (demo_verdict p))) 2) (refused demo_verdict demo_pipeline (pl_new demo_pipeline)) \<and>
    (\<forall>eff. acts eff ''c'' (demo_fail :: (keyspace, string list) dlq_handler) \<longrightarrow> app w' = fold eff
      (map snd (unseen demo_pipeline (pl_new demo_pipeline)) @
        concat (replicate (nat 2 - 1) (map snd (refused demo_verdict demo_pipeline (pl_new demo_pipeline)))))
      (app (demo_world demo_ready [])))"
  by (rule dlq_batch_settled [where view = "\<lambda>k. k", OF mem.redis_available_axioms _ demo_decides])
    (simp_all add: demo_implements, simp_all add: separate_def demo_pipeline_def)

text \<open>
  A poison payment leaves the main stream after exactly \<open>max_attempts\<close> turns. Delivered to
  the consumer and failing every time, it is retried from the pending list; the last allowed
  attempt takes it off the list and appends it to the dead-letter stream with the exception's
  class name and the attempt count. Nothing counts as processed.
\<close>

theorem dlq_poison_dead_lettered:
  assumes "redis_available R view" and "1 \<le> count" and "1 \<le> max_attempts"
    and "waiting grp consumer_id [(msg_id, payment_to_fields p)] (view (srv w))"
    and "payment_text_ok p" and "payment_id p \<notin> ks_live_set (view (srv w)) PROCESSED_SET"
    and "always_fails handler consumer_id p exc"
  shows "\<exists>w' j. run_idempotent_consumer R consumer_id grp handler max_attempts count block_ms
      (replicate (nat max_attempts) (\<lambda>w. w)) w = (Inr 0, w') \<and>
    ks_entries (view (srv w')) DLQ_STREAM = ks_entries (view (srv w)) DLQ_STREAM @
      [(j, payment_to_fields p @ [(''reason'', exn_name exc), (''attempt'', py_str_int max_attempts)])] \<and>
    waiting grp consumer_id [] (view (srv w'))"
  using redis_available.run_poison [OF assms(1,4,2,7) _ assms(6,3)]
    payment_roundtrip_extra [OF assms(5), of "[]"] by (simp add: dlq_fields_eq)

theorem dlq_poison_dead_lettered_witness:
  "\<exists>w' j. run_idempotent_consumer mem_redis ''c'' ''g'' demo_fail 3 10 0 (replicate (nat 3) (\<lambda>w. w))
      (demo_world (demo_pending (payment_to_fields demo_payment)) []) = (Inr 0, w') \<and>
    ks_entries (srv w') DLQ_STREAM = ks_entries (srv (demo_world (demo_pending
        (payment_to_fields demo_payment)) ([] :: string list))) DLQ_STREAM @
      [(j, payment_to_fields demo_payment @
        [(''reason'', exn_name (ValueError ''declined'')), (''attempt'', py_str_int 3)])] \<and>
    waiting ''g'' ''c'' [] (srv w')"
  by (rule dlq_poison_dead_lettered [where view = "\<lambda>k. k" and msg_id = "''1''",
        OF mem.redis_available_axioms _ _ _ demo_text_ok _ demo_always_fails])
    (simp_all add: demo_waiting demo_pending_sets)

text \<open>
  C5: a message that does not parse is never dead-lettered. \<^verbatim>\<open>Payment.from_fields\<close> runs outside
  the \<^verbatim>\<open>try\<close>, so what it raises ends the coroutine; the message stays at the head of the
  consumer's pending list, so a restarted consumer ends the same way, and nothing reaches the
  dead-letter stream.
\<close>

theorem dlq_malformed_crashes_consumer:
  assumes "redis_available R view" and "1 \<le> count"
    and "waiting grp consumer_id ((msg_id, f) # es) (view (srv w))"
    and "payment_from_fields f = Inl exc"
  shows "\<exists>w'. run_idempotent_consumer R consumer_id grp handler max_attempts count block_ms
      ((\<lambda>w. w) # envs) w = (Inl exc, w') \<and>
    waiting grp consumer_id ((msg_id, f) # es) (view (srv w')) \<and>
    ks_entries (view (srv w')) = ks_entries (view (srv w))"
  by (rule redis_available.run_malformed [OF assms(1,3,2,4)])

theorem dlq_malformed_crashes_consumer_witness:
  "\<exists>w'. run_idempotent_consumer mem_redis ''c'' ''g'' demo_charge 3 10 0 [\<lambda>w. w]
      (demo_world (demo_pending [(''payment_id'', ''p1'')]) []) = (Inl (KeyError ''amount_cents''), w') \<and>
    waiting ''g'' ''c'' [(''1'', [(''payment_id'', ''p1'')])] (srv w') \<and>
    ks_entries (srv w') = ks_entries (srv (demo_world (demo_pending [(''payment_id'', ''p1'')])
      ([] :: string list)))"
  by (rule dlq_malformed_crashes_consumer [where view = "\<lambda>k. k", OF mem.redis_available_axioms])
    (simp_all add: demo_waiting, code_simp)

text \<open>
  The retry-forever baseline blocks the head of the line. With a payment that always fails at
  the head of its pending list it makes \<open>max_polls\<close> polls, all of them spent on that payment, and
  processes nothing of what waits behind it.
\<close>

theorem dlq_naive_head_of_line_blocking:
  assumes "redis_available R view" and "1 \<le> count" and "1 \<le> max_polls"
    and "waiting grp consumer_id ((msg_id, payment_to_fields p) # es) (view (srv w))"
    and "payment_text_ok p" and "always_fails handler consumer_id p exc"
  shows "\<exists>w'. run_retry_forever_consumer R consumer_id grp handler max_polls count (\<lambda>_ w. w) w =
      (Inr \<lparr>nr_processed = [], nr_failures = [(payment_id p, max_polls)], nr_polls = max_polls\<rparr>, w') \<and>
    waiting grp consumer_id ((msg_id, payment_to_fields p) # es) (view (srv w'))"
  using redis_available.run_retry_forever_blocked [OF assms(1,4,2,6) _ assms(3)]
    payment_roundtrip_extra [OF assms(5), of "[]"] by simp

theorem dlq_naive_head_of_line_blocking_witness:
  "\<exists>w'. run_retry_forever_consumer mem_redis ''c'' ''g'' demo_fail 7 10 (\<lambda>_ w. w)
      (demo_world (demo_pending (payment_to_fields demo_payment)) []) =
      (Inr \<lparr>nr_processed = [], nr_failures = [(payment_id demo_payment, 7)], nr_polls = 7\<rparr>, w') \<and>
    waiting ''g'' ''c'' [(''1'', payment_to_fields demo_payment)] (srv w')"
  by (rule dlq_naive_head_of_line_blocking [where view = "\<lambda>k. k",
        OF mem.redis_available_axioms _ _ _ demo_text_ok demo_always_fails])
    (simp_all add: demo_waiting)

text \<open>
  The payment round trip. The fields a payment is published with, and those it is dead-lettered
  with, decode to the same payment, for every text and every amount, negative ones included.
\<close>

theorem dlq_payment_roundtrip:
  assumes "payment_text_ok p"
  shows "payment_from_fields (payment_to_fields p) = Inr p \<and>
    payment_from_fields (dlq_fields p reason attempt) = Inr p"
  using payment_roundtrip_extra [OF assms, of "[]"] payment_roundtrip_extra [OF assms]
  by (simp add: dlq_fields_eq)

theorem dlq_payment_roundtrip_witness:
  "payment_from_fields (payment_to_fields demo_payment) = Inr demo_payment \<and>
    payment_from_fields (dlq_fields demo_payment ''ValueError'' 3) = Inr demo_payment"
  by (rule dlq_payment_roundtrip [OF demo_text_ok])

text \<open>
  A server on which appending to the dead-letter stream fails, for the next property.
\<close>

definition flaky_redis :: "keyspace redis" where
  "flaky_redis = mem_redis\<lparr>xadd := (\<lambda>s f k.
     if s = DLQ_STREAM then (Inl (OtherException ''ConnectionError'' ''''), k) else mem_xadd s f k)\<rparr>"

lemma flaky_redis_server: "redis_server flaky_redis (\<lambda>k. k)"
  using mem.redis_server_axioms unfolding redis_server_def flaky_redis_def
  by (simp add: mem_redis_def split: if_splits)

text \<open>
  C6: \<^verbatim>\<open>move_to_dlq\<close> acknowledges before it appends. If the append fails (and changes nothing), the
  exception leaves the method with the entry off the main stream's pending list and not on the
  dead-letter stream: no consumer of the group is handed it again and the payment is nowhere
  outstanding.
\<close>

theorem dlq_move_loses_payment:
  assumes "redis_server R view" and "ks_group (view (srv w)) MAIN_STREAM grp = Some gr"
    and "group_wf es gr" and "msg_id \<in> pe_id ` set (g_pel gr)"
    and "xack R MAIN_STREAM grp msg_id (srv w) = (Inr m, r1)"
    and "xadd R DLQ_STREAM (dlq_fields p reason attempt) r1 = (Inl exc, r2)" and "view r2 = view r1"
  shows "\<exists>w' gr'. move_to_dlq R grp msg_id p reason attempt w = (Inl exc, w') \<and>
    ks_entries (view (srv w')) DLQ_STREAM = ks_entries (view (srv w)) DLQ_STREAM \<and>
    ks_group (view (srv w')) MAIN_STREAM grp = Some gr' \<and> msg_id \<notin> fst ` set (outstanding gr')"
proof -
  have ack: "view r1 = ks_put_group MAIN_STREAM grp (unpend msg_id gr) (view (srv w))"
    using redis_server.xack_law [OF assms(1,5)] assms(2) by simp
  have "msg_id \<in> fst ` set (pel_entries gr)"
    using assms(4) by (auto simp: pel_entries_def image_image)
  then have "msg_id \<notin> fst ` set (g_new gr)"
    using assms(3) by (auto simp: group_wf_def outstanding_def)
  then have "msg_id \<notin> fst ` set (outstanding (unpend msg_id gr))"
    by (auto simp: outstanding_unpend)
  then show ?thesis
    using assms(5,6,7) ack by (simp add: move_to_dlq_def bnd_def redis_call_def)
qed

theorem dlq_move_loses_payment_witness:
  "\<exists>w' gr'. move_to_dlq flaky_redis ''g'' ''1'' demo_payment ''ValueError'' 3
      (demo_world (demo_pending (payment_to_fields demo_payment)) ()) =
      (Inl (OtherException ''ConnectionError'' ''''), w') \<and>
    ks_entries (srv w') DLQ_STREAM = ks_entries (srv (demo_world (demo_pending
      (payment_to_fields demo_payment)) ())) DLQ_STREAM \<and>
    ks_group (srv w') MAIN_STREAM ''g'' = Some gr' \<and> ''1'' \<notin> fst ` set (outstanding gr')"
  by (rule dlq_move_loses_payment [where view = "\<lambda>k. k"
        and es = "[(''1'', payment_to_fields demo_payment)]" and m = 1
        and gr = "\<lparr>g_new = [], g_pel = [\<lparr>pe_id = ''1'', pe_owner = ''c'',
          pe_fields = payment_to_fields demo_payment, pe_since = 0\<rparr>]\<rparr>", OF flaky_redis_server])
    (simp_all add: demo_pending_def flaky_redis_def mem_redis_def mem_xack_def group_wf_def
      outstanding_def pel_entries_def)

end
