(* ===== verification/ES_Account.thy ===== *)
theory ES_Account
  imports PyText
begin

section \<open>Event sourcing: events and the aggregate\<close>

text \<open>
  \<^verbatim>\<open>event_sourcing_pattern/events.py\<close> and \<^verbatim>\<open>event_sourcing_pattern/aggregate.py\<close>. An event class
  is a constructor; its \<^verbatim>\<open>event_type\<close> field, which no code overrides, is \<open>event_type\<close>. A command
  method is an effect on the account: it returns the event it produced or raises, and the account
  after it.
\<close>

definition account_stream :: "string \<Rightarrow> string" where
  "account_stream account_id = ''account:'' @ account_id @ '':events''"

lemma account_stream_inj: "account_stream a = account_stream b \<longleftrightarrow> a = b"
  by (simp add: account_stream_def)

datatype account_event =
    AccountCreated string string
  | MoneyDeposited string string
  | MoneyWithdrawn string string

fun event_type :: "account_event \<Rightarrow> string" where
  "event_type (AccountCreated account_id owner_id) = ''AccountCreated''"
| "event_type (MoneyDeposited account_id amount) = ''MoneyDeposited''"
| "event_type (MoneyWithdrawn account_id amount) = ''MoneyWithdrawn''"

fun event_account :: "account_event \<Rightarrow> string" where
  "event_account (AccountCreated account_id owner_id) = account_id"
| "event_account (MoneyDeposited account_id amount) = account_id"
| "event_account (MoneyWithdrawn account_id amount) = account_id"

definition created_to_dict :: "string \<Rightarrow> string \<Rightarrow> (string, string) dict" where
  "created_to_dict account_id owner_id =
     [(''event_type'', ''AccountCreated''), (''account_id'', account_id), (''owner_id'', owner_id)]"

definition deposited_to_dict :: "string \<Rightarrow> string \<Rightarrow> (string, string) dict" where
  "deposited_to_dict account_id amount =
     [(''event_type'', ''MoneyDeposited''), (''account_id'', account_id), (''amount'', amount)]"

definition withdrawn_to_dict :: "string \<Rightarrow> string \<Rightarrow> (string, string) dict" where
  "withdrawn_to_dict account_id amount =
     [(''event_type'', ''MoneyWithdrawn''), (''account_id'', account_id), (''amount'', amount)]"

fun event_to_dict :: "account_event \<Rightarrow> (string, string) dict" where
  "event_to_dict (AccountCreated account_id owner_id) = created_to_dict account_id owner_id"
| "event_to_dict (MoneyDeposited account_id amount) = deposited_to_dict account_id amount"
| "event_to_dict (MoneyWithdrawn account_id amount) = withdrawn_to_dict account_id amount"

lemmas to_dict_defs [simp] = created_to_dict_def deposited_to_dict_def withdrawn_to_dict_def

definition created_from_dict :: "(string, string) dict \<Rightarrow> exn + account_event" where
  "created_from_dict data =
     bndr (dict_item data ''account_id'') (\<lambda>aid.
     bndr (dict_item data ''owner_id'') (\<lambda>owner.
     Inr (AccountCreated aid owner)))"

definition deposited_from_dict :: "(string, string) dict \<Rightarrow> exn + account_event" where
  "deposited_from_dict data =
     bndr (dict_item data ''account_id'') (\<lambda>aid.
     bndr (dict_item data ''amount'') (\<lambda>amount.
     Inr (MoneyDeposited aid amount)))"

definition withdrawn_from_dict :: "(string, string) dict \<Rightarrow> exn + account_event" where
  "withdrawn_from_dict data =
     bndr (dict_item data ''account_id'') (\<lambda>aid.
     bndr (dict_item data ''amount'') (\<lambda>amount.
     Inr (MoneyWithdrawn aid amount)))"

definition event_classes ::
    "(string, (string, string) dict \<Rightarrow> exn + account_event) dict" where
  "event_classes =
     [(''AccountCreated'', created_from_dict),
      (''MoneyDeposited'', deposited_from_dict),
      (''MoneyWithdrawn'', withdrawn_from_dict)]"

definition decode_event :: "(string, string) dict \<Rightarrow> exn + account_event" where
  "decode_event raw = bndr (decode_items raw) (\<lambda>data.
     let etype = dict_get data ''event_type'' []
     in case map_of event_classes etype of
       None \<Rightarrow> Inl (ValueError (''Unknown event_type: '' @ etype))
     | Some from_dict \<Rightarrow> from_dict data)"

fun event_text_ok :: "account_event \<Rightarrow> bool" where
  "event_text_ok (AccountCreated a b) \<longleftrightarrow> valid_utf8 a \<and> valid_utf8 b"
| "event_text_ok (MoneyDeposited a b) \<longleftrightarrow> valid_utf8 a \<and> valid_utf8 b"
| "event_text_ok (MoneyWithdrawn a b) \<longleftrightarrow> valid_utf8 a \<and> valid_utf8 b"

lemma event_keys_valid [simp]:
  "valid_utf8 ''event_type''" "valid_utf8 ''account_id''" "valid_utf8 ''owner_id''"
  "valid_utf8 ''amount''" "valid_utf8 ''AccountCreated''" "valid_utf8 ''MoneyDeposited''"
  "valid_utf8 ''MoneyWithdrawn''"
  by code_simp+

lemma decode_event_to_dict: "event_text_ok ev \<Longrightarrow> decode_event (event_to_dict ev) = Inr ev"
  by (cases ev) (simp_all add: decode_event_def decode_items_valid dict_get_def event_classes_def
      created_from_dict_def deposited_from_dict_def withdrawn_from_dict_def dict_item_def)

subsection \<open>The aggregate\<close>

record bank_account =
  account_id :: string
  owner_id :: string
  balance :: int
  version :: int
  created :: bool

definition new_account :: "string \<Rightarrow> bank_account" where
  "new_account aid = \<lparr>account_id = aid, owner_id = [], balance = 0, version = 0, created = False\<rparr>"

definition apply_event :: "account_event \<Rightarrow> bank_account \<Rightarrow> exn + bank_account" where
  "apply_event ev acc = bndr (case ev of
       AccountCreated aid owner \<Rightarrow>
         Inr (acc\<lparr>account_id := aid, owner_id := owner, created := True\<rparr>)
     | MoneyDeposited _ amount \<Rightarrow>
         bndr (py_int amount) (\<lambda>n. Inr (acc\<lparr>balance := balance acc + n\<rparr>))
     | MoneyWithdrawn _ amount \<Rightarrow>
         bndr (py_int amount) (\<lambda>n. Inr (acc\<lparr>balance := balance acc - n\<rparr>)))
     (\<lambda>acc'. Inr (acc'\<lparr>version := version acc' + 1\<rparr>))"

text \<open>\<^verbatim>\<open>self._apply(event); return event\<close>\<close>

definition emit :: "account_event \<Rightarrow> (bank_account, account_event) io" where
  "emit ev acc = (case apply_event ev acc of
      Inl exc \<Rightarrow> (Inl exc, acc)
    | Inr acc' \<Rightarrow> (Inr ev, acc'))"

definition require_created :: "(bank_account, unit) io" where
  "require_created acc =
     (if \<not> created acc then (Inl (ValueError ''Account not created''), acc) else (Inr (), acc))"

definition account_create :: "string \<Rightarrow> (bank_account, account_event) io" where
  "account_create owner acc =
     (if created acc then (Inl (ValueError ''Account already created''), acc)
      else emit (AccountCreated (account_id acc) owner) acc)"

definition account_deposit :: "int \<Rightarrow> (bank_account, account_event) io" where
  "account_deposit amount = bnd require_created (\<lambda>_ acc.
     if amount \<le> 0 then (Inl (ValueError ''Deposit amount must be positive''), acc)
     else emit (MoneyDeposited (account_id acc) (py_str_int amount)) acc)"

definition account_withdraw :: "int \<Rightarrow> (bank_account, account_event) io" where
  "account_withdraw amount = bnd require_created (\<lambda>_ acc.
     if amount \<le> 0 then (Inl (ValueError ''Withdrawal amount must be positive''), acc)
     else if amount > balance acc then (Inl (InsufficientFundsError amount (balance acc)), acc)
     else emit (MoneyWithdrawn (account_id acc) (py_str_int amount)) acc)"

fun replay_onto :: "account_event list \<Rightarrow> bank_account \<Rightarrow> exn + bank_account" where
  "replay_onto [] acc = Inr acc"
| "replay_onto (ev # evs) acc = bndr (apply_event ev acc) (\<lambda>acc'. replay_onto evs acc')"

definition replay :: "account_event list \<Rightarrow> exn + bank_account" where
  "replay events = replay_onto events (new_account [])"

subsection \<open>Commands as data\<close>

datatype account_command = Create string | Deposit int | Withdraw int

fun run_command :: "account_command \<Rightarrow> (bank_account, account_event) io" where
  "run_command (Create owner) = account_create owner"
| "run_command (Deposit amount) = account_deposit amount"
| "run_command (Withdraw amount) = account_withdraw amount"

lemmas command_defs = account_create_def account_deposit_def account_withdraw_def
  require_created_def emit_def bnd_def

lemma apply_event_simps [simp]:
  "apply_event (AccountCreated a own) acc =
     Inr (acc\<lparr>account_id := a, owner_id := own, created := True, version := version acc + 1\<rparr>)"
  "apply_event (MoneyDeposited a (py_str_int n)) acc =
     Inr (acc\<lparr>balance := balance acc + n, version := version acc + 1\<rparr>)"
  "apply_event (MoneyWithdrawn a (py_str_int n)) acc =
     Inr (acc\<lparr>balance := balance acc - n, version := version acc + 1\<rparr>)"
  by (simp_all add: apply_event_def)

text \<open>A command either raises and changes nothing, or its event's application is its effect.\<close>

lemma run_command_Inl: "run_command c acc = (Inl exc, acc') \<Longrightarrow> acc' = acc"
  by (cases c) (auto simp: command_defs split: if_splits)

lemma run_command_Inr:
  "run_command c acc = (Inr ev, acc') \<Longrightarrow> apply_event ev acc = Inr acc'"
  by (cases c) (auto simp: command_defs split: if_splits)

lemma replay_onto_append:
  "replay_onto (xs @ ys) acc = bndr (replay_onto xs acc) (\<lambda>acc'. replay_onto ys acc')"
  by (induction xs arbitrary: acc) (auto simp: bndr_def split: sum.splits)

subsection \<open>The write side of any aggregate\<close>

text \<open>
  An aggregate validates a command, produces an event and folds it into its state. Everything the
  pattern promises about replay follows from one law: the state after a command is the
  application of the event it produced, and a refused command changes nothing.
\<close>

locale aggregate =
  fixes handle :: "'c \<Rightarrow> 's \<Rightarrow> (exn + 'e) \<times> 's" and appl :: "'e \<Rightarrow> 's \<Rightarrow> exn + 's"
  assumes handle_refused: "handle c s = (Inl exc, s') \<Longrightarrow> s' = s"
    and handle_accepted: "handle c s = (Inr ev, s') \<Longrightarrow> appl ev s = Inr s'"
begin

fun live :: "'c list \<Rightarrow> 's \<Rightarrow> 'e list \<times> 's" where
  "live [] s = ([], s)"
| "live (c # cs) s = (case handle c s of
      (Inl _, s') \<Rightarrow> live cs s'
    | (Inr ev, s') \<Rightarrow> (case live cs s' of (evs, s'') \<Rightarrow> (ev # evs, s'')))"

fun folded :: "'e list \<Rightarrow> 's \<Rightarrow> exn + 's" where
  "folded [] s = Inr s"
| "folded (ev # evs) s = bndr (appl ev s) (folded evs)"

lemma folded_live: "live cs s = (evs, s') \<Longrightarrow> folded evs s = Inr s'"
proof (induction cs arbitrary: s evs)
  case Nil
  then show ?case by simp
next
  case (Cons c cs)
  obtain r s1 where h: "handle c s = (r, s1)" by (cases "handle c s")
  show ?case
  proof (cases r)
    case (Inl exc)
    then show ?thesis using Cons h handle_refused [of c s exc s1] by simp
  next
    case (Inr ev)
    obtain evs1 where rest: "live cs s1 = (evs1, s')" and "evs = ev # evs1"
      using Cons.prems h Inr by (auto split: prod.splits)
    then show ?thesis using Cons.IH [OF rest] handle_accepted [of c s ev s1] h Inr by simp
  qed
qed

text \<open>An invariant of the state that every accepted event keeps holds after any commands.\<close>

lemma live_invariant:
  assumes "\<And>c s ev s'. P s \<Longrightarrow> handle c s = (Inr ev, s') \<Longrightarrow> P s'" and "P s"
    and "live cs s = (evs, s')"
  shows "P s'"
  using assms(2,3)
proof (induction cs arbitrary: s evs)
  case Nil
  then show ?case by simp
next
  case (Cons c cs)
  obtain r s1 where h: "handle c s = (r, s1)" by (cases "handle c s")
  show ?case
  proof (cases r)
    case (Inl exc)
    then show ?thesis using Cons h handle_refused [of c s exc s1] by simp
  next
    case (Inr ev)
    then have "P s1" using assms(1) Cons.prems(1) h by blast
    then show ?thesis using Cons.IH Cons.prems(2) h Inr by (auto split: prod.splits)
  qed
qed

end

interpretation account: aggregate run_command apply_event
  by unfold_locales (auto intro: run_command_Inl run_command_Inr)

lemma replay_onto_folded: "replay_onto evs acc = account.folded evs acc"
  by (induction evs arbitrary: acc) (auto simp: bndr_def split: sum.splits)

subsection \<open>The account's invariant\<close>

definition account_ok :: "bank_account \<Rightarrow> bool" where
  "account_ok acc \<longleftrightarrow> 0 \<le> balance acc \<and> 0 \<le> version acc \<and>
     (\<not> created acc \<longrightarrow> balance acc = 0 \<and> version acc = 0)"

lemma account_ok_new [simp]: "account_ok (new_account aid)"
  by (simp add: account_ok_def new_account_def)

lemma run_command_ok: "account_ok acc \<Longrightarrow> run_command c acc = (res, acc') \<Longrightarrow> account_ok acc'"
  by (cases c) (auto simp: command_defs account_ok_def split: if_splits)

lemma live_ok: "account_ok acc \<Longrightarrow> account.live cs acc = (evs, acc') \<Longrightarrow> account_ok acc'"
  by (rule account.live_invariant [where P = account_ok]) (auto intro: run_command_ok)

text \<open>What an event does to the balance.\<close>

fun event_delta :: "account_event \<Rightarrow> int" where
  "event_delta (AccountCreated _ _) = 0"
| "event_delta (MoneyDeposited _ amount) = (case py_int amount of Inr n \<Rightarrow> n | Inl _ \<Rightarrow> 0)"
| "event_delta (MoneyWithdrawn _ amount) = - (case py_int amount of Inr n \<Rightarrow> n | Inl _ \<Rightarrow> 0)"

lemma apply_event_balance:
  "apply_event ev acc = Inr acc' \<Longrightarrow> balance acc' = balance acc + event_delta ev \<and>
     version acc' = version acc + 1"
  by (cases ev) (auto simp: apply_event_def bndr_Inr_iff)

lemma replay_onto_balance:
  "replay_onto evs acc = Inr acc' \<Longrightarrow> balance acc' = balance acc + (\<Sum>ev \<leftarrow> evs. event_delta ev) \<and>
     version acc' = version acc + int (length evs)"
proof (induction evs arbitrary: acc)
  case (Cons ev evs)
  then obtain acc1 where "apply_event ev acc = Inr acc1" "replay_onto evs acc1 = Inr acc'"
    by (auto simp: bndr_Inr_iff)
  then show ?case using Cons.IH apply_event_balance by fastforce
qed simp

end
