(* ===== verification/ES_Store.thy ===== *)
theory ES_Store
  imports ES_Account Redis_Client
begin

section \<open>Event sourcing: the store and the projector\<close>

text \<open>
  \<^verbatim>\<open>event_sourcing_pattern/store.py\<close> and \<^verbatim>\<open>event_sourcing_pattern/projector.py\<close>, and the write
  side's \<^verbatim>\<open>_persist\<close> of \<^verbatim>\<open>scripts/run_event_sourcing_pattern.py\<close>. The projector's loop gets, per
  turn, what the other tasks did before it; the end of that list is \<^verbatim>\<open>stop_event\<close> found set.
\<close>

definition es_append :: "'r redis \<Rightarrow> string \<Rightarrow> string \<Rightarrow> (string, string) dict \<Rightarrow>
    (('r, 'x) world_scheme, string) io" where
  "es_append R aid etype payload =
     (let stream = account_stream aid;
          fields = dict_merge [(''event_type'', etype)] payload
      in bnd (redis_call (xadd R stream fields)) (\<lambda>msg_id.
         bnd (incr ''event_sourcing'' ''events_appended'' 1) (\<lambda>_.
         ret msg_id)))"

definition es_read :: "'r redis \<Rightarrow> string \<Rightarrow> string \<Rightarrow> (('r, 'x) world_scheme, entry list) io" where
  "es_read R aid last_id =
     bnd (redis_call (xread R (account_stream aid) last_id 100)) (\<lambda>results.
     ret (first_stream results))"

definition es_length :: "'r redis \<Rightarrow> string \<Rightarrow> (('r, 'x) world_scheme, int) io" where
  "es_length R aid = redis_call (xlen R (account_stream aid))"

definition es_persist :: "'r redis \<Rightarrow> account_event \<Rightarrow> (('r, 'x) world_scheme, unit) io" where
  "es_persist R ev =
     bnd (es_append R (event_account ev) (event_type ev) (event_to_dict ev)) (\<lambda>_. ret ())"

text \<open>A command on the aggregate, and what its caller does with the event; a refusal is raised.\<close>

definition command_then :: "(bank_account, account_event) io \<Rightarrow> bank_account \<Rightarrow>
    (account_event \<Rightarrow> bank_account \<Rightarrow> ('w, 'a) io) \<Rightarrow> ('w, 'a) io" where
  "command_then m acct k = (case m acct of (Inl exc, _) \<Rightarrow> raise exc | (Inr ev, acct') \<Rightarrow> k ev acct')"

subsection \<open>The read model\<close>

record account_summary =
  sm_account_id :: string
  sm_owner_id :: string
  sm_balance :: int
  sm_version :: int
  sm_last_updated :: "string option"

definition new_summary :: "string \<Rightarrow> account_summary" where
  "new_summary aid = \<lparr>sm_account_id = aid, sm_owner_id = [], sm_balance = 0, sm_version = 0,
     sm_last_updated = None\<rparr>"

definition summary_apply :: "(string, string) dict \<Rightarrow> string \<Rightarrow> account_summary \<Rightarrow>
    exn + account_summary" where
  "summary_apply raw now s = bndr (decode_event raw) (\<lambda>ev.
     bndr (case ev of
         AccountCreated aid owner \<Rightarrow> Inr (s\<lparr>sm_account_id := aid, sm_owner_id := owner\<rparr>)
       | MoneyDeposited _ amount \<Rightarrow>
           bndr (py_int amount) (\<lambda>n. Inr (s\<lparr>sm_balance := sm_balance s + n\<rparr>))
       | MoneyWithdrawn _ amount \<Rightarrow>
           bndr (py_int amount) (\<lambda>n. Inr (s\<lparr>sm_balance := sm_balance s - n\<rparr>)))
     (\<lambda>s'. Inr (s'\<lparr>sm_version := sm_version s' + 1, sm_last_updated := Some now\<rparr>)))"

type_synonym projection = "account_summary \<times> string"

definition project_entry :: "entry \<Rightarrow> projection \<Rightarrow> (('r, 'x) world_scheme, projection) io" where
  "project_entry m st w = bnd (liftr (summary_apply (snd m) (wall w) (fst st))) (\<lambda>s'.
     bnd (incr ''event_sourcing'' ''read_model_events_applied'' 1) (\<lambda>_.
     ret (s', fst m))) w"

definition project_poll :: "'r redis \<Rightarrow> string \<Rightarrow> projection \<Rightarrow> (('r, 'x) world_scheme, projection) io" where
  "project_poll R aid st =
     bnd (es_read R aid (snd st)) (\<lambda>batch. for_each project_entry batch st)"

fun project_loop :: "'r redis \<Rightarrow> string \<Rightarrow> int \<Rightarrow>
    (('r, 'x) world_scheme \<Rightarrow> ('r, 'x) world_scheme) list \<Rightarrow> projection \<Rightarrow>
    (('r, 'x) world_scheme, projection) io" where
  "project_loop R aid expected_version [] st = ret st"
| "project_loop R aid expected_version (env # envs) st =
     bnd (modify env) (\<lambda>_.
     bnd (project_poll R aid st) (\<lambda>st'.
     if expected_version \<le> sm_version (fst st') then ret st'
     else project_loop R aid expected_version envs st'))"

definition project :: "'r redis \<Rightarrow> string \<Rightarrow> int \<Rightarrow>
    (('r, 'x) world_scheme \<Rightarrow> ('r, 'x) world_scheme) list \<Rightarrow>
    (('r, 'x) world_scheme, account_summary) io" where
  "project R aid expected_version envs =
     bnd (project_loop R aid expected_version envs (new_summary aid, ''0'')) (\<lambda>st. ret (fst st))"

subsection \<open>The write side: commands and what they append\<close>

text \<open>
  A refused command appends nothing: its exception is raised before \<^verbatim>\<open>_persist\<close> is called, as in
  \<^verbatim>\<open>run_failure_path\<close>.
\<close>

fun write_side :: "'r redis \<Rightarrow> account_command list \<Rightarrow> bank_account \<Rightarrow>
    (('r, 'x) world_scheme, bank_account) io" where
  "write_side R [] acc = ret acc"
| "write_side R (c # cs) acc = (case run_command c acc of
      (Inl exc, acc') \<Rightarrow> write_side R cs acc'
    | (Inr ev, acc') \<Rightarrow> bnd (es_persist R ev) (\<lambda>_. write_side R cs acc'))"

lemma es_append_payload:
  "dict_merge [(''event_type'', event_type ev)] (event_to_dict ev) = event_to_dict ev"
  by (cases ev) simp_all

text \<open>What a reader of an account sees: its events, decoded.\<close>

definition history :: "keyspace \<Rightarrow> string \<Rightarrow> (exn + account_event) list" where
  "history k aid = map (\<lambda>e. decode_event (snd e)) (ks_entries k (account_stream aid))"

context redis_server
begin

abbreviation es_kv :: "('r, 'x) world_scheme \<Rightarrow> keyspace" where
  "es_kv w \<equiv> view (srv w)"

lemma es_persist_effect:
  assumes "es_persist R ev w = (Inr u, w')"
  shows "\<exists>i. i \<noteq> ''0'' \<and> i \<notin> fst ` set (ks_entries (es_kv w) (account_stream (event_account ev))) \<and>
    es_kv w' = ks_xadd (account_stream (event_account ev)) i (event_to_dict ev) (es_kv w)"
proof -
  obtain i r' where add: "xadd R (account_stream (event_account ev)) (event_to_dict ev) (srv w) = (Inr i, r')"
    and "srv w' = r'"
    using assms unfolding es_persist_def es_append_def es_append_payload Let_def
    by (auto elim!: bnd_InrE simp: redis_call_eq_iff incr_def)
  then show ?thesis using xadd_law [OF add] by blast
qed

lemma es_read_effect:
  assumes "es_read R aid i w = (Inr es, w')"
    and "i = ''0'' \<or> i \<in> fst ` set (ks_entries (es_kv w) (account_stream aid))"
  shows "es_kv w' = es_kv w \<and> es = take 100 (after_id i (ks_entries (es_kv w) (account_stream aid)))"
proof -
  obtain rep r' where "xread R (account_stream aid) i 100 (srv w) = (Inr rep, r')"
    and "es = first_stream rep" "srv w' = r'"
    using assms(1) unfolding es_read_def by (auto elim!: bnd_InrE simp: redis_call_eq_iff)
  then show ?thesis using xread_law [of "account_stream aid" i 100 "srv w" rep r'] assms(2) by simp
qed

text \<open>The store holds exactly the events of the accepted commands, in order.\<close>

lemma write_side_history:
  assumes "write_side R cs acc w = (Inr acc', w')" and "account.live cs acc = (evs, acc'')"
    and "\<And>ev. ev \<in> set evs \<Longrightarrow> event_account ev = aid \<and> event_text_ok ev"
  shows "acc' = acc'' \<and> history (es_kv w') aid = history (es_kv w) aid @ map Inr evs"
  using assms
proof (induction cs arbitrary: acc w evs)
  case Nil
  then show ?case by simp
next
  case (Cons c cs)
  obtain r acc1 where h: "run_command c acc = (r, acc1)" by (cases "run_command c acc")
  show ?case
  proof (cases r)
    case (Inl exc)
    then show ?thesis using Cons h by simp
  next
    case (Inr ev)
    obtain evs1 where live1: "account.live cs acc1 = (evs1, acc'')" and evs: "evs = ev # evs1"
      using Cons.prems(2) h Inr by (auto split: prod.splits)
    obtain w1 where per: "es_persist R ev w = (Inr (), w1)"
      and rest: "write_side R cs acc1 w1 = (Inr acc', w')"
      using Cons.prems(1) h Inr by (auto elim: bnd_InrE)
    have "event_account ev = aid" "event_text_ok ev" using Cons.prems(3) evs by auto
    then have "history (es_kv w1) aid = history (es_kv w) aid @ [Inr ev]"
      using es_persist_effect [OF per] by (auto simp: history_def decode_event_to_dict)
    moreover have "acc' = acc'' \<and> history (es_kv w') aid = history (es_kv w1) aid @ map Inr evs1"
      using Cons.IH [OF rest live1] Cons.prems(3) evs by simp
    ultimately show ?thesis using evs by simp
  qed
qed

end

subsection \<open>The read model follows the aggregate\<close>

definition matches :: "bank_account \<Rightarrow> account_summary \<Rightarrow> bool" where
  "matches acc s \<longleftrightarrow> sm_owner_id s = owner_id acc \<and> sm_balance s = balance acc \<and>
     sm_version s = version acc \<and> (created acc \<longrightarrow> sm_account_id s = account_id acc)"

lemma summary_apply_matches:
  assumes "decode_event raw = Inr ev" and "apply_event ev acc = Inr acc'" and "matches acc s"
  obtains s' where "summary_apply raw now s = Inr s'" and "matches acc' s'"
  using assms
  by (cases ev) (auto simp: summary_apply_def apply_event_def matches_def bndr_Inr_iff)

subsection \<open>The cursor\<close>

text \<open>
  \<open>good_stream\<close>: the account's stream decodes and replays, and its ids serve as cursors.
  \<open>tracks k aid n st\<close>: the projector's locals after the first \<open>n\<close> events of the stream.
\<close>

definition good_stream :: "keyspace \<Rightarrow> string \<Rightarrow> account_event list \<Rightarrow> bool" where
  "good_stream k aid evs \<longleftrightarrow> history k aid = map Inr evs \<and> (\<exists>acc. replay evs = Inr acc) \<and>
     distinct (map fst (ks_entries k (account_stream aid))) \<and>
     ''0'' \<notin> fst ` set (ks_entries k (account_stream aid))"

definition tracks :: "keyspace \<Rightarrow> string \<Rightarrow> nat \<Rightarrow> projection \<Rightarrow> bool" where
  "tracks k aid n st \<longleftrightarrow> n \<le> length (history k aid) \<and>
     snd st = (if n = 0 then ''0'' else fst (ks_entries k (account_stream aid) ! (n - 1))) \<and>
     (\<exists>evs acc. map Inr evs = take n (history k aid) \<and> replay evs = Inr acc \<and> matches acc (fst st))"

lemma replay_version: "replay_onto evs acc = Inr acc' \<Longrightarrow> version acc' = version acc + int (length evs)"
  by (simp add: replay_onto_balance)

lemma tracks_version: "tracks k aid n st \<Longrightarrow> sm_version (fst st) = int n"
proof -
  assume t: "tracks k aid n st"
  then obtain evs acc where "map Inr evs = take n (history k aid)" "replay evs = Inr acc"
    "matches acc (fst st)" "n \<le> length (history k aid)" by (auto simp: tracks_def)
  moreover from this have "length evs = n" by (metis length_map length_take min.absorb2)
  ultimately show ?thesis using replay_version [of evs "new_account []" acc]
    by (simp add: replay_def matches_def new_account_def)
qed

text \<open>Folding a batch of decodable events into the read model cannot fail.\<close>

lemma project_batch:
  assumes "map (\<lambda>e. decode_event (snd e)) batch = map Inr evs" and "replay_onto evs acc = Inr acc'"
    and "matches acc s"
  shows "\<exists>s' w'. for_each project_entry batch (s, i) w =
      (Inr (s', if batch = [] then i else fst (last batch)), w') \<and> matches acc' s' \<and> srv w' = srv w"
  using assms
proof (induction batch arbitrary: evs acc s i w)
  case Nil
  then show ?case by simp
next
  case (Cons m batch)
  then obtain ev evs1 acc1 where evs: "evs = ev # evs1" "decode_event (snd m) = Inr ev"
    "map (\<lambda>e. decode_event (snd e)) batch = map Inr evs1"
    and acc1: "apply_event ev acc = Inr acc1" "replay_onto evs1 acc1 = Inr acc'"
    by (cases evs) (auto simp: bndr_Inr_iff)
  obtain s1 where s1: "summary_apply (snd m) (wall w) s = Inr s1" and "matches acc1 s1"
    by (rule summary_apply_matches [OF evs(2) acc1(1) Cons.prems(3)])
  moreover obtain w1 where "project_entry m (s, i) w = (Inr (s1, fst m), w1)" "srv w1 = srv w"
    using s1 by (simp add: project_entry_def incr_def)
  ultimately show ?case
    using Cons.IH [OF evs(3) acc1(2), of s1 "fst m" w1] by (auto simp: bnd_def)
qed

lemma history_split: "take n (history k aid) @ map (\<lambda>e. decode_event (snd e))
    (take j (drop n (ks_entries k (account_stream aid)))) = take (n + j) (history k aid)"
  by (simp add: history_def take_map [symmetric] drop_map [symmetric] take_add)

text \<open>One batch read at the cursor moves the projector forward by the batch.\<close>

lemma tracks_batch:
  assumes good: "good_stream k aid evs" and tr: "tracks k aid n st"
    and batch: "batch = take 100 (drop n (ks_entries k (account_stream aid)))"
  shows "\<exists>st' w'. for_each project_entry batch st w = (Inr st', w') \<and> srv w' = srv w \<and>
    tracks k aid (min (length (history k aid)) (n + 100)) st'"
proof -
  let ?es = "ks_entries k (account_stream aid)"
  have len: "length (history k aid) = length ?es" by (simp add: history_def)
  obtain evs1 acc where evs1: "map Inr evs1 = take n (history k aid)" "replay evs1 = Inr acc"
    "matches acc (fst st)" and n: "n \<le> length ?es"
    using tr len by (auto simp: tracks_def)
  define evs2 where "evs2 = take 100 (drop n evs)"
  have hist: "history k aid = map Inr evs" using good by (simp add: good_stream_def)
  have e1: "evs1 = take n evs" using evs1(1) hist by (simp add: take_map inj_map_eq_map)
  have e2: "map (\<lambda>e. decode_event (snd e)) batch = map Inr evs2"
    using hist by (simp add: batch evs2_def history_def take_map [symmetric] drop_map [symmetric])
  obtain acc2 where acc2: "replay_onto evs2 acc = Inr acc2"
  proof -
    have "evs = evs1 @ evs2 @ drop 100 (drop n evs)"
      unfolding e1 evs2_def by (metis append_take_drop_id)
    moreover obtain acc3 where "replay evs = Inr acc3" using good by (auto simp: good_stream_def)
    ultimately have "bndr (replay_onto evs2 acc) (replay_onto (drop 100 (drop n evs))) = Inr acc3"
      using evs1(2) by (metis bndr_simps(2) replay_def replay_onto_append)
    then show ?thesis using that by (auto simp: bndr_Inr_iff)
  qed
  obtain s' w' where run: "for_each project_entry batch (fst st, snd st) w =
      (Inr (s', if batch = [] then snd st else fst (last batch)), w')" "matches acc2 s'" "srv w' = srv w"
    using project_batch [OF e2 acc2 evs1(3)] by blast
  define N where "N = min (length ?es) (n + 100)"
  have "take n evs @ evs2 = take (n + 100) evs" by (simp add: evs2_def take_add)
  then have "map Inr (evs1 @ evs2) = take N (history k aid)"
    using len by (simp add: hist e1 take_map [symmetric] take_take min_def N_def)
  moreover have "replay (evs1 @ evs2) = Inr acc2"
    using evs1(2) acc2 by (simp add: replay_def replay_onto_append)
  moreover have "(if batch = [] then snd st else fst (last batch)) =
      (if N = 0 then ''0'' else fst (?es ! (N - 1)))"
  proof (cases "n = length ?es")
    case True
    then show ?thesis using tr by (simp add: tracks_def batch N_def)
  next
    case False
    then have "batch \<noteq> []" using n by (simp add: batch)
    moreover have "last batch = ?es ! (N - 1)"
      using False n by (simp add: batch last_conv_nth min_def nth_append N_def)
        (auto simp: add.commute intro!: arg_cong [where f = "(!) ?es"])
    ultimately show ?thesis using False n by (auto simp: N_def)
  qed
  moreover have "N \<le> length (history k aid)" by (simp add: N_def len)
  ultimately have "tracks k aid N (s', if batch = [] then snd st else fst (last batch))"
    unfolding tracks_def using run(2) by (intro conjI exI [of _ "evs1 @ evs2"] exI [of _ acc2]) simp_all
  then have "tracks k aid (min (length (history k aid)) (n + 100))
      (s', if batch = [] then snd st else fst (last batch))" by (simp add: N_def len)
  then show ?thesis using run by auto
qed

subsection \<open>Runs of the projector\<close>

text \<open>The other tasks may append to the account's stream, events that decode and replay.\<close>

definition es_grows :: "('r \<Rightarrow> keyspace) \<Rightarrow> string \<Rightarrow>
    (('r, 'x) world_scheme \<Rightarrow> ('r, 'x) world_scheme) \<Rightarrow> bool" where
  "es_grows view aid env \<longleftrightarrow> (\<forall>w. (\<exists>evs. good_stream (view (srv w)) aid evs) \<longrightarrow>
     (\<exists>ext evs. ks_entries (view (srv (env w))) (account_stream aid) =
        ks_entries (view (srv w)) (account_stream aid) @ ext \<and>
        good_stream (view (srv (env w))) aid evs))"

lemma tracks_grow:
  assumes "tracks k aid n st"
    and "ks_entries k' (account_stream aid) = ks_entries k (account_stream aid) @ ext"
  shows "tracks k' aid n st"
  using assms by (auto simp: tracks_def history_def nth_append)

lemma tracks_cursor:
  assumes "tracks k aid n st" and "good_stream k aid evs"
  shows "after_id (snd st) (ks_entries k (account_stream aid)) = drop n (ks_entries k (account_stream aid))"
    and "snd st = ''0'' \<or> snd st \<in> fst ` set (ks_entries k (account_stream aid))"
proof -
  have n: "n \<le> length (ks_entries k (account_stream aid))"
    using assms(1) by (simp add: tracks_def history_def)
  show "after_id (snd st) (ks_entries k (account_stream aid)) = drop n (ks_entries k (account_stream aid))"
    using after_id_cursor [OF _ _ n] assms by (simp add: tracks_def good_stream_def)
  show "snd st = ''0'' \<or> snd st \<in> fst ` set (ks_entries k (account_stream aid))"
    using assms(1) n by (cases n) (auto simp: tracks_def history_def dest: nth_mem)
qed

lemma tracks_start: "tracks k aid 0 (new_summary aid, ''0'')"
  by (auto simp: tracks_def matches_def new_summary_def new_account_def replay_def)

context redis_server
begin

lemma project_poll_effect:
  assumes run: "project_poll R aid st w = (Inr st', w')" and good: "good_stream (es_kv w) aid evs"
    and tr: "tracks (es_kv w) aid n st"
  shows "es_kv w' = es_kv w \<and> tracks (es_kv w) aid (min (length (history (es_kv w) aid)) (n + 100)) st'"
proof -
  obtain batch w1 where rd: "es_read R aid (snd st) w = (Inr batch, w1)"
    and each: "for_each project_entry batch st w1 = (Inr st', w')"
    using run unfolding project_poll_def by (auto elim: bnd_InrE)
  have eff: "es_kv w1 = es_kv w" "batch = take 100 (drop n (ks_entries (es_kv w) (account_stream aid)))"
    using es_read_effect [OF rd tracks_cursor(2) [OF tr good]] tracks_cursor(1) [OF tr good] by auto
  show ?thesis using tracks_batch [OF good tr eff(2), of w1] each eff(1) by auto
qed

lemma project_loop_prefix:
  assumes "project_loop R aid v envs st w = (Inr st', w')" and "\<forall>env \<in> set envs. es_grows view aid env"
    and "good_stream (es_kv w) aid evs" and "tracks (es_kv w) aid n st"
  shows "\<exists>n' evs'. good_stream (es_kv w') aid evs' \<and> tracks (es_kv w') aid n' st'"
  using assms
proof (induction envs arbitrary: st w n evs)
  case Nil
  then show ?case by auto
next
  case (Cons env envs)
  then obtain st1 w1 where poll: "project_poll R aid st (env w) = (Inr st1, w1)"
    and rest: "(if v \<le> sm_version (fst st1) then ret st1 else project_loop R aid v envs st1) w1 = (Inr st', w')"
    by (auto elim: bnd_InrE)
  obtain ext evs1 where grow: "ks_entries (es_kv (env w)) (account_stream aid) =
      ks_entries (es_kv w) (account_stream aid) @ ext" and good1: "good_stream (es_kv (env w)) aid evs1"
    using Cons.prems(2,3) by (fastforce simp: es_grows_def)
  have "tracks (es_kv (env w)) aid n st" by (rule tracks_grow [OF Cons.prems(4) grow])
  then obtain m where m: "es_kv w1 = es_kv (env w)" "tracks (es_kv w1) aid m st1"
    using project_poll_effect [OF poll good1] by auto
  show ?case
  proof (cases "v \<le> sm_version (fst st1)")
    case True
    then show ?thesis using rest m good1 by auto
  next
    case False
    then show ?thesis using Cons.IH [of st1 w1 evs1 m] rest m good1 Cons.prems(2) by auto
  qed
qed

end

context redis_available
begin

lemma es_read_up:
  obtains es w' where "es_read R aid i w = (Inr es, w')"
proof -
  obtain rep r' where "xread R (account_stream aid) i 100 (srv w) = (Inr rep, r')"
    using xread_up [of 100] by fastforce
  then have "es_read R aid i w = (Inr (first_stream rep), w\<lparr>srv := r'\<rparr>)"
    by (simp add: es_read_def bnd_def redis_call_def)
  then show ?thesis by (rule that)
qed

lemma es_persist_up:
  obtains w' where "es_persist R ev w = (Inr (), w')"
proof -
  have "event_to_dict ev \<noteq> []" by (cases ev) simp_all
  then obtain i r' where "xadd R (account_stream (event_account ev)) (event_to_dict ev) (srv w) = (Inr i, r')"
    using xadd_up by blast
  then have "\<exists>w'. es_persist R ev w = (Inr (), w')"
    by (simp add: es_persist_def es_append_def es_append_payload bnd_def redis_call_def incr_def)
  then show ?thesis using that by blast
qed

lemma write_side_up: "\<exists>w'. write_side R cs acc w = (Inr (snd (account.live cs acc)), w')"
proof (induction cs arbitrary: acc w)
  case Nil
  then show ?case by simp
next
  case (Cons c cs)
  obtain r acc1 where h: "run_command c acc = (r, acc1)" by (cases "run_command c acc")
  show ?case
  proof (cases r)
    case (Inl exc)
    then show ?thesis using Cons h by simp
  next
    case (Inr ev)
    obtain w1 where "es_persist R ev w = (Inr (), w1)" by (rule es_persist_up)
    then show ?thesis using Cons [of acc1 w1] h Inr by (auto simp: bnd_def split: prod.splits)
  qed
qed

lemma project_poll_up:
  assumes good: "good_stream (es_kv w) aid evs" and tr: "tracks (es_kv w) aid n st"
  obtains st' w' where "project_poll R aid st w = (Inr st', w')" and "es_kv w' = es_kv w"
    and "tracks (es_kv w) aid (min (length (history (es_kv w) aid)) (n + 100)) st'"
proof -
  obtain batch w1 where rd: "es_read R aid (snd st) w = (Inr batch, w1)" by (rule es_read_up)
  have "batch = take 100 (drop n (ks_entries (es_kv w) (account_stream aid)))"
    using es_read_effect [OF rd tracks_cursor(2) [OF tr good]] tracks_cursor(1) [OF tr good] by auto
  then obtain st' w' where "for_each project_entry batch st w1 = (Inr st', w')"
    using tracks_batch [OF good tr] by blast
  then have run: "project_poll R aid st w = (Inr st', w')" by (simp add: project_poll_def bnd_def rd)
  show ?thesis using that [OF run] project_poll_effect [OF run good tr] by blast
qed

text \<open>With nothing else going on, \<open>j\<close> polls cover \<open>100 * j\<close> events.\<close>

lemma project_loop_catches_up:
  assumes "good_stream (es_kv w) aid evs" and "tracks (es_kv w) aid n st"
    and "v \<le> int (length (history (es_kv w) aid))" and "v \<le> int n + 100 * int j" and "1 \<le> j"
  shows "\<exists>st' w' m. project_loop R aid v (replicate j (\<lambda>w. w)) st w = (Inr st', w') \<and>
    es_kv w' = es_kv w \<and> tracks (es_kv w) aid m st' \<and> v \<le> int m"
  using assms
proof (induction j arbitrary: n st w)
  case 0
  then show ?case by simp
next
  case (Suc j)
  obtain st1 w1 where poll: "project_poll R aid st w = (Inr st1, w1)" and k1: "es_kv w1 = es_kv w"
    and tr: "tracks (es_kv w) aid (min (length (history (es_kv w) aid)) (n + 100)) st1"
    by (rule project_poll_up [OF Suc.prems(1,2)])
  show ?case
  proof (cases "v \<le> sm_version (fst st1)")
    case True
    then show ?thesis using poll tr tracks_version [OF tr] k1 by (auto simp: bnd_def)
  next
    case False
    then have "\<not> v \<le> int (min (length (history (es_kv w) aid)) (n + 100))"
      using tracks_version [OF tr] by simp
    then have n: "min (length (history (es_kv w) aid)) (n + 100) = n + 100" "\<not> v \<le> int n + 100"
      using Suc.prems(3) by (auto simp: min_def split: if_splits)
    then have "1 \<le> j" using Suc.prems(4) by (cases j) auto
    then show ?thesis
      using Suc.IH [of w1 "n + 100" st1] Suc.prems n tr False k1 poll by (auto simp: bnd_def)
  qed
qed

end

subsection \<open>What the write side leaves behind\<close>

definition owners_ok :: "account_command list \<Rightarrow> bool" where
  "owners_ok cs \<longleftrightarrow> list_all (\<lambda>c. case c of Create owner \<Rightarrow> valid_utf8 owner | _ \<Rightarrow> True) cs"

lemma run_command_event:
  assumes "run_command c acc = (Inr ev, acc')" and "valid_utf8 (account_id acc)"
    and "case c of Create owner \<Rightarrow> valid_utf8 owner | _ \<Rightarrow> True"
  shows "event_account ev = account_id acc \<and> event_text_ok ev \<and> account_id acc' = account_id acc"
  using assms by (cases c) (auto simp: command_defs valid_utf8_ascii split: if_splits)

lemma live_events:
  assumes "account.live cs acc = (evs, acc')" and "valid_utf8 (account_id acc)" and "owners_ok cs"
  shows "\<forall>ev \<in> set evs. event_account ev = account_id acc \<and> event_text_ok ev"
  using assms
proof (induction cs arbitrary: acc evs)
  case Nil
  then show ?case by simp
next
  case (Cons c cs)
  obtain r acc1 where h: "run_command c acc = (r, acc1)" by (cases "run_command c acc")
  show ?case
  proof (cases r)
    case (Inl exc)
    then show ?thesis using Cons h run_command_Inl [of c acc exc acc1] by (simp add: owners_ok_def)
  next
    case (Inr ev)
    obtain evs1 where l1: "account.live cs acc1 = (evs1, acc')" and evs: "evs = ev # evs1"
      using Cons.prems(1) h Inr by (auto split: prod.splits)
    have ev: "event_account ev = account_id acc \<and> event_text_ok ev \<and> account_id acc1 = account_id acc"
      using run_command_event [of c acc ev acc1] h Inr Cons.prems(2,3) by (simp add: owners_ok_def)
    show ?thesis using Cons.IH [OF l1] Cons.prems(2,3) ev evs by (simp add: owners_ok_def)
  qed
qed

text \<open>The first event of an account is its creation, so replay does not need to know its id.\<close>

lemma live_first:
  assumes "account.live cs acc = (ev # evs, acc')" and "\<not> created acc"
  shows "\<exists>owner. ev = AccountCreated (account_id acc) owner"
  using assms
proof (induction cs)
  case Nil
  then show ?case by simp
next
  case (Cons c cs)
  show ?case
  proof (cases c)
    case (Create owner)
    then show ?thesis using Cons.prems by (auto simp: command_defs split: prod.splits)
  qed (use Cons in \<open>simp_all add: command_defs\<close>)
qed

lemma live_replay:
  assumes "account.live cs (new_account aid) = (evs, acc)" and "evs \<noteq> []"
  shows "replay evs = Inr acc"
proof -
  obtain ev evs1 where evs: "evs = ev # evs1" using assms(2) by (cases evs) auto
  then obtain owner where "ev = AccountCreated aid owner"
    using live_first [of cs "new_account aid" ev evs1 acc] assms(1) by (auto simp: new_account_def)
  then have "replay evs = replay_onto evs (new_account aid)"
    by (simp add: replay_def evs new_account_def)
  then show ?thesis
    using account.folded_live [OF assms(1)] by (simp add: replay_onto_folded)
qed

definition ids_ok :: "string \<Rightarrow> keyspace \<Rightarrow> bool" where
  "ids_ok s k \<longleftrightarrow> distinct (map fst (ks_entries k s)) \<and> ''0'' \<notin> fst ` set (ks_entries k s)"

context redis_server
begin

lemma write_side_ids:
  assumes "write_side R cs acc w = (Inr acc', w')" and "ids_ok s (es_kv w)"
  shows "ids_ok s (es_kv w')"
  using assms
proof (induction cs arbitrary: acc w)
  case Nil
  then show ?case by simp
next
  case (Cons c cs)
  obtain r acc1 where h: "run_command c acc = (r, acc1)" by (cases "run_command c acc")
  show ?case
  proof (cases r)
    case (Inl exc)
    then show ?thesis using Cons h by simp
  next
    case (Inr ev)
    obtain w1 where per: "es_persist R ev w = (Inr (), w1)"
      and rest: "write_side R cs acc1 w1 = (Inr acc', w')"
      using Cons.prems(1) h Inr by (auto elim: bnd_InrE)
    have "ids_ok s (es_kv w1)"
      using es_persist_effect [OF per] Cons.prems(2) by (auto simp: ids_ok_def split: if_splits)
    then show ?thesis by (rule Cons.IH [OF rest])
  qed
qed

lemma write_side_good:
  assumes run: "write_side R cs (new_account aid) w = (Inr acc, w')"
    and empty: "ks_entries (es_kv w) (account_stream aid) = []"
    and utf8: "valid_utf8 aid" "owners_ok cs"
  obtains evs where "good_stream (es_kv w') aid evs" and "version acc = int (length evs)"
    and "account.live cs (new_account aid) = (evs, acc)"
proof -
  obtain evs acc2 where live: "account.live cs (new_account aid) = (evs, acc2)"
    by (cases "account.live cs (new_account aid)")
  have "\<forall>ev \<in> set evs. event_account ev = aid \<and> event_text_ok ev"
    using live_events [OF live] utf8 by (simp add: new_account_def)
  then have hist: "acc = acc2" "history (es_kv w') aid = map Inr evs"
    using write_side_history [OF run live, of aid] empty by (auto simp: history_def)
  have "ids_ok (account_stream aid) (es_kv w')"
    by (rule write_side_ids [OF run]) (simp add: ids_ok_def empty)
  moreover have "\<exists>acc. replay evs = Inr acc"
    using live_replay [OF live] by (cases "evs = []") (auto simp: replay_def)
  moreover have "version acc = int (length evs)"
    using replay_version [of evs "new_account aid" acc2] account.folded_live [OF live]
    by (simp add: replay_onto_folded hist(1) new_account_def)
  ultimately show ?thesis
    using that live hist by (auto simp: good_stream_def ids_ok_def)
qed

end

context redis_server
begin

lemma read_replays:
  assumes "ks_entries (view (srv w)) (account_stream aid) = []"
    and "valid_utf8 aid" and "owners_ok cmds"
    and "write_side R cmds (new_account aid) w = (Inr acc, w1)" and "created acc"
    and "version acc \<le> 100" and "es_read R aid ''0'' w1 = (Inr raws, w2)"
  shows "\<exists>evs. map (\<lambda>e. decode_event (snd e)) raws = map Inr evs \<and> replay evs = Inr acc"
proof -
  obtain evs where good: "good_stream (es_kv w1) aid evs" and v: "version acc = int (length evs)"
    and live: "account.live cmds (new_account aid) = (evs, acc)"
    by (rule write_side_good [OF assms(4,1-3)])
  have raws: "raws = take 100 (ks_entries (es_kv w1) (account_stream aid))"
    using es_read_effect [OF assms(7)] by (simp add: after_id_def)
  have "length (history (es_kv w1) aid) \<le> 100"
    using good v assms(6) by (simp add: good_stream_def)
  then have "map (\<lambda>e. decode_event (snd e)) raws = map Inr evs"
    using good by (simp add: raws good_stream_def history_def)
  moreover have "evs \<noteq> []" using live assms(5) account.folded_live [OF live]
    by (auto simp: new_account_def)
  ultimately show ?thesis using live_replay [OF live] by blast
qed

lemma read_truncates:
  assumes "ks_entries (view (srv w)) (account_stream aid) = []"
    and "valid_utf8 aid" and "owners_ok cmds"
    and "write_side R cmds (new_account aid) w = (Inr acc, w1)"
    and "100 < version acc" and "es_read R aid ''0'' w1 = (Inr raws, w2)"
  shows "length raws = 100 \<and> (\<exists>evs acc'. map (\<lambda>e. decode_event (snd e)) raws = map Inr evs \<and>
    replay evs = Inr acc' \<and> version acc' = 100 \<and> version acc' < version acc)"
proof -
  obtain evs where good: "good_stream (es_kv w1) aid evs" and v: "version acc = int (length evs)"
    and live: "account.live cmds (new_account aid) = (evs, acc)"
    by (rule write_side_good [OF assms(4,1-3)])
  have raws: "raws = take 100 (ks_entries (es_kv w1) (account_stream aid))"
    using es_read_effect [OF assms(6)] by (simp add: after_id_def)
  have hist: "history (es_kv w1) aid = map Inr evs" using good by (simp add: good_stream_def)
  then have "length (ks_entries (es_kv w1) (account_stream aid)) = length evs"
    by (metis history_def length_map)
  then have len: "length raws = 100" using v assms(5) by (simp add: raws)
  have dec: "map (\<lambda>e. decode_event (snd e)) raws = map Inr (take 100 evs)"
    using hist by (simp add: raws history_def take_map [symmetric])
  obtain accs where "replay (take 100 evs @ drop 100 evs) = Inr accs"
    using good by (auto simp: good_stream_def)
  then obtain acc' where acc': "replay (take 100 evs) = Inr acc'"
    by (auto simp: replay_def replay_onto_append bndr_Inr_iff simp del: append_take_drop_id)
  have "version acc' = 100"
    using replay_onto_balance [of "take 100 evs" "new_account []" acc'] acc' v assms(5)
    by (simp add: replay_def new_account_def)
  then show ?thesis using len dec acc' assms(5) by auto
qed

lemma project_prefix:
  assumes "good_stream (view (srv w)) aid evs0" and "\<forall>env \<in> set envs. es_grows view aid env"
    and "project R aid expected_version envs w = (Inr s, w')"
  shows "\<exists>n evs acc. sm_version s = int n \<and> n \<le> length (history (view (srv w')) aid) \<and>
    map Inr evs = take n (history (view (srv w')) aid) \<and> replay evs = Inr acc \<and>
    sm_balance s = balance acc \<and> sm_owner_id s = owner_id acc"
proof -
  obtain st where loop: "project_loop R aid expected_version envs (new_summary aid, ''0'') w = (Inr st, w')"
    and s: "s = fst st"
    using assms(3) unfolding project_def by (auto elim!: bnd_InrE)
  obtain n where tr: "tracks (es_kv w') aid n st"
    using project_loop_prefix [OF loop assms(2,1) tracks_start] by blast
  then show ?thesis using tracks_version [OF tr] s by (auto simp: tracks_def matches_def)
qed

end

context redis_available
begin

lemma project_follows:
  assumes good: "good_stream (es_kv w) aid evs" and live: "account.live cmds (new_account aid) = (evs, acc)"
    and v: "version acc = int (length evs)" "version acc \<le> 100 * int polls" "1 \<le> polls"
  shows "\<exists>s w'. project R aid (version acc) (replicate polls (\<lambda>w. w)) w = (Inr s, w') \<and>
    sm_balance s = balance acc \<and> sm_version s = version acc \<and> sm_owner_id s = owner_id acc \<and> es_kv w' = es_kv w"
proof -
  have hist: "history (es_kv w) aid = map Inr evs" using good by (simp add: good_stream_def)
  obtain st w2 m where loop: "project_loop R aid (version acc) (replicate polls (\<lambda>w. w))
      (new_summary aid, ''0'') w = (Inr st, w2)" and tr: "tracks (es_kv w) aid m st"
    and m: "version acc \<le> int m" "es_kv w2 = es_kv w"
    using project_loop_catches_up [OF good tracks_start, of "version acc" polls] hist v by auto
  have "m = length evs" using tr m(1) v(1) hist by (simp add: tracks_def)
  then obtain acc' where acc': "replay evs = Inr acc'" "matches acc' (fst st)"
    using tr hist by (auto simp: tracks_def inj_map_eq_map)
  have "sm_balance (fst st) = balance acc \<and> sm_version (fst st) = version acc \<and>
      sm_owner_id (fst st) = owner_id acc"
  proof (cases "evs = []")
    case True
    then have "acc = new_account aid" "acc' = new_account []"
      using account.folded_live [OF live] acc'(1) by (simp_all add: replay_def)
    then show ?thesis using acc'(2) by (simp add: matches_def new_account_def)
  next
    case False
    then have "acc' = acc" using live_replay [OF live] acc'(1) by simp
    then show ?thesis using acc'(2) by (simp add: matches_def)
  qed
  then show ?thesis using loop m(2) by (auto simp: project_def bnd_def)
qed

lemma project_agrees:
  assumes "ks_entries (view (srv w)) (account_stream aid) = []"
    and "valid_utf8 aid" and "owners_ok cmds"
    and "write_side R cmds (new_account aid) w = (Inr acc, w1)"
    and "version acc \<le> 100 * int polls" and "1 \<le> polls"
  shows "\<exists>s w2. project R aid (version acc) (replicate polls (\<lambda>w. w)) w1 = (Inr s, w2) \<and>
    sm_balance s = balance acc \<and> sm_version s = version acc \<and> sm_owner_id s = owner_id acc"
proof -
  obtain evs where "good_stream (es_kv w1) aid evs" "version acc = int (length evs)"
    "account.live cmds (new_account aid) = (evs, acc)"
    by (rule write_side_good [OF assms(4,1-3)])
  then show ?thesis using project_follows assms(5,6) by blast
qed

end

end
