(* ===== verification/ES_Naive.thy ===== *)
theory ES_Naive
  imports ES_Account
begin

section \<open>Event sourcing: the state-only baseline\<close>

text \<open>
  \<^verbatim>\<open>event_sourcing_pattern/naive.py\<close>: one mutable row per account. The SQLite connection is the
  state: the \<^verbatim>\<open>accounts\<close> table (\<open>None\<close> while it does not exist) as an association list keyed by the
  primary key, and the clock's reading. A statement is one atomic step; a failing \<^verbatim>\<open>INSERT\<close> is
  rolled back by \<^verbatim>\<open>with conn\<close>. An \<^verbatim>\<open>INTEGER\<close> column takes 64 bits: a larger Python integer makes
  \<^verbatim>\<open>execute\<close> raise \<^verbatim>\<open>OverflowError\<close> before anything is written.
\<close>

record account_row =
  ar_owner_id :: string
  ar_balance :: int
  ar_updated_at :: string

record accounts_db =
  accounts :: "(string, account_row) dict option"
  db_now :: string

definition no_such_table :: exn where
  "no_such_table = OtherException ''OperationalError'' ''no such table: accounts''"

definition sqlite_int :: "int \<Rightarrow> exn + int" where
  "sqlite_int n = (if - (2 ^ 63) \<le> n \<and> n < 2 ^ 63 then Inr n
     else Inl (OtherException ''OverflowError'' ''Python int too large to convert to SQLite INTEGER''))"

definition create_accounts_table :: "(accounts_db, unit) io" where
  "create_accounts_table = modify (\<lambda>db. case accounts db of
      None \<Rightarrow> db\<lparr>accounts := Some []\<rparr>
    | Some _ \<Rightarrow> db)"

definition create_account :: "string \<Rightarrow> string \<Rightarrow> (accounts_db, unit) io" where
  "create_account aid owner db = (case accounts db of
      None \<Rightarrow> (Inl no_such_table, db)
    | Some rows \<Rightarrow>
        if map_of rows aid \<noteq> None then (Inl IntegrityError, db)
        else (Inr (), db\<lparr>accounts := Some (rows @
          [(aid, \<lparr>ar_owner_id = owner, ar_balance = 0, ar_updated_at = db_now db\<rparr>)])\<rparr>))"

definition get_balance :: "string \<Rightarrow> (accounts_db, int) io" where
  "get_balance aid db = (case accounts db of
      None \<Rightarrow> (Inl no_such_table, db)
    | Some rows \<Rightarrow> (case map_of rows aid of
        None \<Rightarrow> (Inl (AccountNotFoundError aid), db)
      | Some row \<Rightarrow> (Inr (ar_balance row), db)))"

definition overwrite_balance :: "string \<Rightarrow> int \<Rightarrow> (accounts_db, int) io" where
  "overwrite_balance aid new_balance =
     bnd (liftr (sqlite_int new_balance)) (\<lambda>n db. case accounts db of
       None \<Rightarrow> (Inl no_such_table, db)
     | Some rows \<Rightarrow> (Inr new_balance, db\<lparr>accounts := Some (map (\<lambda>(k, row).
         (k, if k = aid then row\<lparr>ar_balance := n, ar_updated_at := db_now db\<rparr> else row)) rows)\<rparr>))"

definition deposit :: "string \<Rightarrow> int \<Rightarrow> (accounts_db, int) io" where
  "deposit aid amount =
     (if amount \<le> 0 then raise (ValueError ''Deposit amount must be positive'')
      else bnd (get_balance aid) (\<lambda>bal. overwrite_balance aid (bal + amount)))"

definition withdraw :: "string \<Rightarrow> int \<Rightarrow> (accounts_db, int) io" where
  "withdraw aid amount =
     (if amount \<le> 0 then raise (ValueError ''Withdrawal amount must be positive'')
      else bnd (get_balance aid) (\<lambda>bal.
        if amount > bal then raise (InsufficientFundsError amount bal)
        else overwrite_balance aid (bal - amount)))"

subsection \<open>The row against the event-sourced account\<close>

text \<open>The commands as the demo script dispatches them, refused ones skipped.\<close>

fun naive_command :: "string \<Rightarrow> account_command \<Rightarrow> (accounts_db, unit) io" where
  "naive_command aid (Create owner) = create_account aid owner"
| "naive_command aid (Deposit n) = bnd (deposit aid n) (\<lambda>_. ret ())"
| "naive_command aid (Withdraw n) = bnd (withdraw aid n) (\<lambda>_. ret ())"

fun naive_commands :: "string \<Rightarrow> account_command list \<Rightarrow> accounts_db \<Rightarrow> accounts_db" where
  "naive_commands aid [] db = db"
| "naive_commands aid (c # cs) db = naive_commands aid cs (snd (naive_command aid c db))"

definition row_of :: "string \<Rightarrow> accounts_db \<Rightarrow> account_row option" where
  "row_of aid db = (case accounts db of None \<Rightarrow> None | Some rows \<Rightarrow> map_of rows aid)"

text \<open>What the one row still says about an account: its owner and its balance.\<close>

definition row_matches :: "bank_account \<Rightarrow> account_row option \<Rightarrow> bool" where
  "row_matches acc row \<longleftrightarrow> map_option (\<lambda>r. (ar_owner_id r, ar_balance r)) row =
     (if created acc then Some (owner_id acc, balance acc) else None)"

lemma row_of_overwrite: "map_of (map (\<lambda>(k, row). (k, if k = aid then f row else row)) rows) aid =
    map_option f (map_of rows aid)"
  by (induction rows) auto

lemma naive_command_row:
  assumes "row_matches acc (row_of aid db)" and "accounts db \<noteq> None"
    and "run_command c acc = (res, acc')" and "balance acc' < 2 ^ 63" and "account_ok acc"
  shows "row_matches acc' (row_of aid (snd (naive_command aid c db))) \<and>
    accounts (snd (naive_command aid c db)) \<noteq> None"
proof -
  obtain rows where rows: "accounts db = Some rows" using assms(2) by blast
  show ?thesis
    using assms rows run_command_ok [OF assms(5,3)]
    by (cases c) (auto simp: command_defs account_ok_def row_matches_def row_of_def create_account_def deposit_def
        withdraw_def get_balance_def overwrite_balance_def sqlite_int_def map_of_append
        row_of_overwrite map_add_def liftr_def raise_def split: if_splits option.splits)
qed

text \<open>As long as no balance leaves the column's range, the row follows the account.\<close>

fun in_range :: "account_command list \<Rightarrow> bank_account \<Rightarrow> bool" where
  "in_range [] acc \<longleftrightarrow> True"
| "in_range (c # cs) acc \<longleftrightarrow> balance (snd (run_command c acc)) < 2 ^ 63 \<and>
     in_range cs (snd (run_command c acc))"

lemma live_Cons_snd: "snd (account.live (c # cs) acc) = snd (account.live cs (snd (run_command c acc)))"
  by (simp split: prod.splits sum.splits)

lemma naive_commands_row:
  assumes "row_matches acc (row_of aid db)" and "accounts db \<noteq> None" and "account_ok acc"
    and "in_range cs acc"
  shows "row_matches (snd (account.live cs acc)) (row_of aid (naive_commands aid cs db))"
  using assms
proof (induction cs arbitrary: acc db)
  case Nil
  then show ?case by simp
next
  case (Cons c cs)
  obtain res acc1 where h: "run_command c acc = (res, acc1)" by (cases "run_command c acc")
  have "row_matches acc1 (row_of aid (snd (naive_command aid c db))) \<and>
      accounts (snd (naive_command aid c db)) \<noteq> None"
    using naive_command_row [OF Cons.prems(1,2) h _ Cons.prems(3)] Cons.prems(4) h by simp
  moreover have "account_ok acc1" by (rule run_command_ok [OF Cons.prems(3) h])
  ultimately show ?case using Cons.IH [of acc1] Cons.prems(4) h live_Cons_snd [of c cs acc] by simp
qed

end
