(* ===== verification/ES_Properties.thy ===== *)
theory ES_Properties
  imports ES_Store ES_Naive Redis_Memory
begin

section \<open>Event sourcing: properties\<close>

text \<open>
  The properties of \<^verbatim>\<open>event_sourcing_pattern\<close>. Sequences of commands are lists of
  \<open>account_command\<close>; \<open>account.live\<close> (from the locale \<open>aggregate\<close>) gives the events the accepted ones
  produced and the account after them, \<open>write_side\<close> also appends each event to the store.
\<close>

definition es_demo_commands :: "account_command list" where
  "es_demo_commands = [Create ''demo-user'', Deposit 1500, Deposit 400, Withdraw 300, Withdraw 2000,
     Withdraw 200, Withdraw 700]"

definition es_demo_world :: "(keyspace, unit) world_scheme" where
  "es_demo_world = \<lparr>reg = [], wall = ''now'', srv = empty_keyspace, \<dots> = ()\<rparr>"

definition es_long_commands :: "account_command list" where
  "es_long_commands = Create ''u'' # replicate 101 (Deposit 1)"

abbreviation es_demo_run :: "account_command list \<Rightarrow>
    (exn + bank_account) \<times> (keyspace, unit) world_scheme" where
  "es_demo_run cs \<equiv> write_side mem_redis cs (new_account ''a'') es_demo_world"

definition es_demo_account :: bank_account where
  "es_demo_account = \<lparr>account_id = ''a'', owner_id = ''demo-user'', balance = 700, version = 6,
     created = True\<rparr>"

lemma es_demo_live: "snd (account.live es_demo_commands (new_account ''a'')) = es_demo_account"
  by (simp add: es_demo_commands_def command_defs new_account_def es_demo_account_def)

lemma es_run_result: "es_demo_run cs = (Inr (snd (account.live cs (new_account ''a''))), snd (es_demo_run cs))"
  using redis_available.write_side_up [OF mem.redis_available_axioms, of cs "new_account ''a''" es_demo_world]
  by auto

lemma es_demo_result: "es_demo_run es_demo_commands = (Inr es_demo_account, snd (es_demo_run es_demo_commands))"
  using es_run_result [of es_demo_commands] by (simp only: es_demo_live)

lemma es_demo_start: "ks_entries (srv es_demo_world) s = []" "valid_utf8 ''a''" "owners_ok es_demo_commands"
  by (simp add: es_demo_world_def empty_keyspace_def ks_entries_def) code_simp+

lemma es_long_owners: "owners_ok es_long_commands"
  by code_simp

lemma live_deposits: "created acc \<Longrightarrow>
    version (snd (account.live (replicate n (Deposit 1)) acc)) = version acc + int n"
  by (induction n arbitrary: acc) (simp_all add: live_Cons_snd command_defs del: account.live.simps(2))

lemma es_long_version: "version (snd (account.live es_long_commands (new_account ''a''))) = 102"
  using live_deposits [of "\<lparr>account_id = ''a'', owner_id = ''u'', balance = 0, version = 1, created = True\<rparr>" 101]
  by (simp add: es_long_commands_def live_Cons_snd command_defs new_account_def del: account.live.simps(2))

text \<open>
  C7: the read model agrees with the write side. After any commands on a new account, the projector
  started with the live aggregate's version as its target, given one poll per hundred events, returns
  a summary with the aggregate's balance, version and owner.
\<close>

theorem es_read_model_agrees:
  assumes "redis_available R view" and "ks_entries (view (srv w)) (account_stream aid) = []"
    and "valid_utf8 aid" and "owners_ok cmds"
    and "write_side R cmds (new_account aid) w = (Inr acc, w1)"
    and "version acc \<le> 100 * int polls" and "1 \<le> polls"
  shows "\<exists>s w2. project R aid (version acc) (replicate polls (\<lambda>w. w)) w1 = (Inr s, w2) \<and>
    sm_balance s = balance acc \<and> sm_version s = version acc \<and> sm_owner_id s = owner_id acc"
  by (rule redis_available.project_agrees [OF assms])

theorem es_read_model_agrees_witness:
  "\<exists>s w2. project mem_redis ''a'' (version es_demo_account) (replicate 1 (\<lambda>w. w))
      (snd (es_demo_run es_demo_commands)) = (Inr s, w2) \<and>
    sm_balance s = balance es_demo_account \<and> sm_version s = version es_demo_account \<and>
    sm_owner_id s = owner_id es_demo_account"
  by (rule es_read_model_agrees [where view = "\<lambda>k. k", OF mem.redis_available_axioms
        es_demo_start(1) es_demo_start(2,3) es_demo_result]) (simp_all add: es_demo_account_def)

text \<open>
  C10: replaying the store rebuilds the aggregate. After commands on a new account that produced at
  most a hundred events, reading the stream from the beginning and folding the decoded events gives
  the live aggregate, field for field.
\<close>

theorem es_replay_rebuilds_account:
  assumes "redis_server R view" and "ks_entries (view (srv w)) (account_stream aid) = []"
    and "valid_utf8 aid" and "owners_ok cmds"
    and "write_side R cmds (new_account aid) w = (Inr acc, w1)" and "created acc"
    and "version acc \<le> 100" and "es_read R aid ''0'' w1 = (Inr raws, w2)"
  shows "\<exists>evs. map (\<lambda>e. decode_event (snd e)) raws = map Inr evs \<and> replay evs = Inr acc"
  by (rule redis_server.read_replays [OF assms])

theorem es_replay_rebuilds_account_witness:
  "\<exists>raws w2 evs. es_read mem_redis ''a'' ''0'' (snd (es_demo_run es_demo_commands)) = (Inr raws, w2) \<and>
    map (\<lambda>e. decode_event (snd e)) raws = map Inr evs \<and> replay evs = Inr es_demo_account"
proof -
  obtain raws w2 where rd: "es_read mem_redis ''a'' ''0'' (snd (es_demo_run es_demo_commands)) = (Inr raws, w2)"
    by (rule redis_available.es_read_up [OF mem.redis_available_axioms])
  have "\<exists>evs. map (\<lambda>e. decode_event (snd e)) raws = map Inr evs \<and> replay evs = Inr es_demo_account"
    by (rule es_replay_rebuilds_account [where view = "\<lambda>k. k", OF mem.redis_server_axioms
          es_demo_start(1) es_demo_start(2,3) es_demo_result _ _ rd])
      (simp_all add: es_demo_account_def)
  then show ?thesis using rd by blast
qed

text \<open>
  \<^verbatim>\<open>EventStore.read\<close> does not read the full history. With more than a hundred events in the
  stream, a read from \<^verbatim>\<open>"0"\<close> returns the first hundred only, so the replayed aggregate stands at
  version 100, behind the live one.
\<close>

theorem es_read_truncates_history:
  assumes "redis_server R view" and "ks_entries (view (srv w)) (account_stream aid) = []"
    and "valid_utf8 aid" and "owners_ok cmds"
    and "write_side R cmds (new_account aid) w = (Inr acc, w1)"
    and "100 < version acc" and "es_read R aid ''0'' w1 = (Inr raws, w2)"
  shows "length raws = 100 \<and> (\<exists>evs acc'. map (\<lambda>e. decode_event (snd e)) raws = map Inr evs \<and>
    replay evs = Inr acc' \<and> version acc' = 100 \<and> version acc' < version acc)"
  by (rule redis_server.read_truncates [OF assms])

theorem es_read_truncates_history_witness:
  "\<exists>raws acc w2. es_demo_run es_long_commands = (Inr acc, snd (es_demo_run es_long_commands)) \<and>
    es_read mem_redis ''a'' ''0'' (snd (es_demo_run es_long_commands)) = (Inr raws, w2) \<and>
    length raws = 100 \<and> (\<exists>evs acc'. map (\<lambda>e. decode_event (snd e)) raws = map Inr evs \<and>
      replay evs = Inr acc' \<and> version acc' = 100 \<and> version acc' < version acc)"
proof -
  obtain raws w2 where rd: "es_read mem_redis ''a'' ''0'' (snd (es_demo_run es_long_commands)) = (Inr raws, w2)"
    by (rule redis_available.es_read_up [OF mem.redis_available_axioms])
  have "length raws = 100 \<and> (\<exists>evs acc'. map (\<lambda>e. decode_event (snd e)) raws = map Inr evs \<and>
      replay evs = Inr acc' \<and> version acc' = 100 \<and>
      version acc' < version (snd (account.live es_long_commands (new_account ''a''))))"
    by (rule es_read_truncates_history [where view = "\<lambda>k. k", OF mem.redis_server_axioms
          es_demo_start(1) es_demo_start(2) es_long_owners es_run_result _ rd]) (simp add: es_long_version)
  then show ?thesis using rd es_run_result [of es_long_commands] by blast
qed

text \<open>
  C8: the read model is always a point of the account's history. Whatever events others append
  while the projector runs, and whether it caught up or was stopped, the summary it returns is the
  fold of the first \<open>n\<close> events of the final stream, with \<open>n\<close> its version: no event is skipped,
  repeated or reordered.
\<close>

theorem es_projection_is_prefix:
  assumes "redis_server R view" and "good_stream (view (srv w)) aid evs0"
    and "\<forall>env \<in> set envs. es_grows view aid env"
    and "project R aid expected_version envs w = (Inr s, w')"
  shows "\<exists>n evs acc. sm_version s = int n \<and> n \<le> length (history (view (srv w')) aid) \<and>
    map Inr evs = take n (history (view (srv w')) aid) \<and> replay evs = Inr acc \<and>
    sm_balance s = balance acc \<and> sm_owner_id s = owner_id acc"
  by (rule redis_server.project_prefix [OF assms])

theorem es_projection_is_prefix_witness:
  "\<exists>s w' n evs acc. project mem_redis ''a'' 6 [\<lambda>w. w] (snd (es_demo_run es_demo_commands)) = (Inr s, w') \<and>
    sm_version s = int n \<and> n \<le> length (history (srv w') ''a'') \<and>
    map Inr evs = take n (history (srv w') ''a'') \<and> replay evs = Inr acc \<and>
    sm_balance s = balance acc \<and> sm_owner_id s = owner_id acc"
proof -
  let ?w = "snd (es_demo_run es_demo_commands)"
  obtain evs0 where good: "good_stream (srv ?w) ''a'' evs0"
    by (rule redis_server.write_side_good [OF mem.redis_server_axioms es_demo_result
          es_demo_start(1) es_demo_start(2,3)])
  have "\<exists>s w'. project mem_redis ''a'' 6 [\<lambda>w. w] ?w = (Inr s, w')"
    using redis_available.project_agrees [OF mem.redis_available_axioms es_demo_start(1)
        es_demo_start(2,3) es_demo_result, of 1] by (auto simp: es_demo_account_def)
  then obtain s w' where run: "project mem_redis ''a'' 6 [\<lambda>w. w] ?w = (Inr s, w')" by blast
  have "\<forall>env \<in> set [\<lambda>w :: (keyspace, unit) world_scheme. w]. es_grows (\<lambda>k. k) ''a'' env"
    by (auto simp: es_grows_def)
  from es_projection_is_prefix [where view = "\<lambda>k. k", OF mem.redis_server_axioms good this run]
  show ?thesis using run by blast
qed

text \<open>
  C9: the account's invariant. After any sequence of commands on a new account, refused ones
  included, the balance is not negative and equals the sum of what the produced events deposited and
  withdrew, the version is the number of those events, and folding them onto the new account gives
  exactly the live state.
\<close>

theorem es_account_invariant:
  assumes "account.live cmds (new_account aid) = (evs, acc)"
  shows "0 \<le> balance acc \<and> balance acc = (\<Sum>ev \<leftarrow> evs. event_delta ev) \<and>
    version acc = int (length evs) \<and> replay_onto evs (new_account aid) = Inr acc"
proof -
  have fold: "replay_onto evs (new_account aid) = Inr acc"
    using account.folded_live [OF assms] by (simp add: replay_onto_folded)
  then show ?thesis
    using live_ok [OF account_ok_new assms] replay_onto_balance [OF fold]
    by (simp add: account_ok_def new_account_def)
qed

theorem es_account_invariant_witness:
  "\<exists>evs. length evs = 6 \<and> 0 \<le> balance es_demo_account \<and>
    balance es_demo_account = (\<Sum>ev \<leftarrow> evs. event_delta ev) \<and>
    version es_demo_account = int (length evs) \<and>
    replay_onto evs (new_account ''a'') = Inr es_demo_account"
proof -
  obtain evs where "account.live es_demo_commands (new_account ''a'') = (evs, es_demo_account)"
    by (rule redis_server.write_side_good [OF mem.redis_server_axioms es_demo_result
          es_demo_start(1) es_demo_start(2,3)])
  from es_account_invariant [OF this] show ?thesis
    by (intro exI [of _ evs]) (auto simp: es_demo_account_def)
qed

text \<open>
  The event codec. \<^verbatim>\<open>decode_event\<close> gives back the event whose \<^verbatim>\<open>to_dict\<close> was stored, so events
  with the same stored form are equal; a stored form without a known \<^verbatim>\<open>event_type\<close> raises \<^verbatim>\<open>ValueError\<close>.
\<close>

theorem es_event_codec:
  assumes "event_text_ok ev" and "\<forall>(k, v) \<in> set raw. valid_utf8 k \<and> valid_utf8 v"
    and "dict_get raw ''event_type'' [] \<notin> {''AccountCreated'', ''MoneyDeposited'', ''MoneyWithdrawn''}"
  shows "decode_event (event_to_dict ev) = Inr ev \<and>
    decode_event raw = Inl (ValueError (''Unknown event_type: '' @ dict_get raw ''event_type'' []))"
  using decode_event_to_dict [OF assms(1)] decode_items_valid [OF assms(2)] assms(3)
  by (simp add: decode_event_def [of raw] event_classes_def)

theorem es_event_codec_witness:
  "decode_event (event_to_dict (MoneyDeposited ''a'' ''12'')) = Inr (MoneyDeposited ''a'' ''12'') \<and>
    decode_event [(''amount'', ''12'')] = Inl (ValueError (''Unknown event_type: '' @
      dict_get [(''amount'', ''12'')] ''event_type'' []))"
  by (rule es_event_codec) code_simp+

text \<open>
  The state-only baseline keeps the balance and nothing else. Fed the same commands, its row
  holds the event-sourced account's owner and balance (as long as no balance leaves SQLite's 64-bit
  range), so two histories that end in the same balance leave the same row behind.
\<close>

theorem es_naive_keeps_only_state:
  assumes "accounts db = Some []" and "in_range cmds (new_account aid)"
    and "in_range cmds' (new_account aid)"
    and "snd (account.live cmds (new_account aid)) = acc" and "snd (account.live cmds' (new_account aid)) = acc'"
    and "created acc" and "created acc'" and "owner_id acc = owner_id acc'" and "balance acc = balance acc'"
  shows "\<exists>row row'. row_of aid (naive_commands aid cmds db) = Some row \<and>
    row_of aid (naive_commands aid cmds' db) = Some row' \<and> ar_balance row = balance acc \<and>
    ar_owner_id row = owner_id acc \<and> ar_balance row' = ar_balance row \<and> ar_owner_id row' = ar_owner_id row"
proof -
  have start: "row_matches (new_account aid) (row_of aid db)"
    using assms(1) by (simp add: row_matches_def row_of_def new_account_def)
  have "row_matches acc (row_of aid (naive_commands aid cmds db))"
    using naive_commands_row [OF start _ account_ok_new assms(2)] assms(1,4) by simp
  moreover have "row_matches acc' (row_of aid (naive_commands aid cmds' db))"
    using naive_commands_row [OF start _ account_ok_new assms(3)] assms(1,5) by simp
  ultimately show ?thesis using assms(6-9) by (auto simp: row_matches_def)
qed

theorem es_naive_keeps_only_state_witness:
  "\<exists>row row'. row_of ''a'' (naive_commands ''a'' es_demo_commands \<lparr>accounts = Some [], db_now = []\<rparr>) = Some row \<and>
    row_of ''a'' (naive_commands ''a'' [Create ''demo-user'', Deposit 700]
      \<lparr>accounts = Some [], db_now = []\<rparr>) = Some row' \<and>
    ar_balance row = balance (snd (account.live es_demo_commands (new_account ''a''))) \<and>
    ar_owner_id row = owner_id (snd (account.live es_demo_commands (new_account ''a''))) \<and>
    ar_balance row' = ar_balance row \<and> ar_owner_id row' = ar_owner_id row"
proof -
  have a: "snd (account.live [Create ''demo-user'', Deposit 700] (new_account ''a'')) =
      \<lparr>account_id = ''a'', owner_id = ''demo-user'', balance = 700, version = 2, created = True\<rparr>"
    by (simp add: command_defs new_account_def)
  show ?thesis
    by (rule es_naive_keeps_only_state [OF _ _ _ refl refl])
      (simp_all add: a es_demo_live, simp_all add: es_demo_account_def es_demo_commands_def command_defs new_account_def)
qed

end
