(* ===== verification/Competing_Consumers.thy ===== *)
theory Competing_Consumers
  imports Redis_Client
begin

section \<open>Competing consumers\<close>

text \<open>
  \<^verbatim>\<open>competing_consumers_pattern/models.py\<close>, \<^verbatim>\<open>broker.py\<close>, \<^verbatim>\<open>consumer.py\<close> and the baseline
  \<^verbatim>\<open>naive.py\<close>. The handler is an effect on the world that may raise; an exception of the handler, or
  of \<^verbatim>\<open>Task.from_fields\<close>, ends the coroutine. The environment list has one element per turn of the
  outer loop, as in the other consumers.
\<close>

record task =
  task_id :: string
  task_payload :: string

definition task_to_fields :: "task \<Rightarrow> fields" where
  "task_to_fields t = [(''task_id'', task_id t), (''payload'', task_payload t)]"

definition task_from_fields :: "fields \<Rightarrow> exn + task" where
  "task_from_fields f =
     bndr (get_text f ''task_id'') (\<lambda>tid.
     bndr (get_text f ''payload'') (\<lambda>pl.
     Inr \<lparr>task_id = tid, task_payload = pl\<rparr>))"

lemma task_roundtrip:
  "valid_utf8 (task_id t) \<Longrightarrow> valid_utf8 (task_payload t) \<Longrightarrow> task_from_fields (task_to_fields t) = Inr t"
  by (simp add: task_from_fields_def task_to_fields_def get_text_def dict_item_def py_decode_def)

subsection \<open>The broker\<close>

definition cc_publish :: "'r redis \<Rightarrow> string \<Rightarrow> fields \<Rightarrow> (('r, 'x) world_scheme, string) io" where
  "cc_publish R stream task_fields =
     bnd (redis_call (xadd R stream task_fields)) (\<lambda>msg_id.
     bnd (incr ''competing_consumers'' ''messages_published'' 1) (\<lambda>_.
     ret msg_id))"

definition cc_ensure_group ::
    "'r redis \<Rightarrow> string \<Rightarrow> string \<Rightarrow> (('r, 'x) world_scheme, bool) io" where
  "cc_ensure_group R stream grp =
     bnd (try_io (redis_call (xgroup_create R stream grp))) created_or_busy"

definition cc_read_new :: "'r redis \<Rightarrow> string \<Rightarrow> string \<Rightarrow> string \<Rightarrow> int \<Rightarrow> int \<Rightarrow>
    (('r, 'x) world_scheme, entry list) io" where
  "cc_read_new R stream grp consumer count block_ms =
     bnd (redis_call (xreadgroup R grp consumer stream ''>'' count (Some block_ms))) (\<lambda>results.
     ret (first_stream results))"

definition cc_ack :: "'r redis \<Rightarrow> string \<Rightarrow> string \<Rightarrow> string \<Rightarrow> (('r, 'x) world_scheme, int) io" where
  "cc_ack R stream grp message_id = redis_call (xack R stream grp message_id)"

definition cc_reclaim_stale :: "'r redis \<Rightarrow> string \<Rightarrow> string \<Rightarrow> string \<Rightarrow> int \<Rightarrow> int \<Rightarrow>
    (('r, 'x) world_scheme, entry list) io" where
  "cc_reclaim_stale R stream grp consumer min_idle_ms count =
     redis_call (xautoclaim R stream grp consumer min_idle_ms count)"

definition cc_pending_count ::
    "'r redis \<Rightarrow> string \<Rightarrow> string \<Rightarrow> (('r, 'x) world_scheme, int) io" where
  "cc_pending_count R stream grp = redis_call (xpending R stream grp)"

subsection \<open>The consumer\<close>

type_synonym ('r, 'x) cc_handler = "string \<Rightarrow> task \<Rightarrow> (('r, 'x) world_scheme, unit) io"

definition cc_handle_one :: "'r redis \<Rightarrow> string \<Rightarrow> string \<Rightarrow> string \<Rightarrow> ('r, 'x) cc_handler \<Rightarrow>
    entry \<Rightarrow> int \<Rightarrow> (('r, 'x) world_scheme, int) io" where
  "cc_handle_one R stream grp consumer_id handler m handled =
     bnd (liftr (task_from_fields (snd m))) (\<lambda>task.
     bnd (handler consumer_id task) (\<lambda>_.
     bnd (cc_ack R stream grp (fst m)) (\<lambda>_.
     bnd (incr ''competing_consumers'' ''messages_consumed'' 1) (\<lambda>_.
     ret (handled + 1)))))"

definition cc_handle_batch :: "'r redis \<Rightarrow> string \<Rightarrow> string \<Rightarrow> string \<Rightarrow> entry list \<Rightarrow>
    ('r, 'x) cc_handler \<Rightarrow> (('r, 'x) world_scheme, int) io" where
  "cc_handle_batch R stream grp consumer_id batch handler =
     for_each (cc_handle_one R stream grp consumer_id handler) batch 0"

definition cc_turn :: "'r redis \<Rightarrow> string \<Rightarrow> string \<Rightarrow> string \<Rightarrow> ('r, 'x) cc_handler \<Rightarrow> int \<Rightarrow> int \<Rightarrow> int \<Rightarrow>
    int \<Rightarrow> (('r, 'x) world_scheme, int) io" where
  "cc_turn R stream grp consumer_id handler count block_ms reclaim_min_idle_ms total_handled =
     bnd (cc_reclaim_stale R stream grp consumer_id reclaim_min_idle_ms count) (\<lambda>reclaimed.
     bnd (if reclaimed = [] then ret total_handled
          else bnd (cc_handle_batch R stream grp consumer_id reclaimed handler) (\<lambda>n.
               ret (total_handled + n))) (\<lambda>total_handled.
     bnd (cc_read_new R stream grp consumer_id count block_ms) (\<lambda>batch.
     if batch = [] then ret total_handled
     else bnd (cc_handle_batch R stream grp consumer_id batch handler) (\<lambda>n.
          ret (total_handled + n)))))"

fun cc_loop :: "'r redis \<Rightarrow> string \<Rightarrow> string \<Rightarrow> string \<Rightarrow> ('r, 'x) cc_handler \<Rightarrow> int \<Rightarrow> int \<Rightarrow> int \<Rightarrow>
    (('r, 'x) world_scheme \<Rightarrow> ('r, 'x) world_scheme) list \<Rightarrow> int \<Rightarrow>
    (('r, 'x) world_scheme, int) io" where
  "cc_loop R s g c h n b mi [] total_handled = ret total_handled"
| "cc_loop R s g c h n b mi (env # envs) total_handled =
     bnd (modify env) (\<lambda>_.
     bnd (cc_turn R s g c h n b mi total_handled) (\<lambda>total_handled.
     cc_loop R s g c h n b mi envs total_handled))"

definition run_consumer :: "'r redis \<Rightarrow> string \<Rightarrow> string \<Rightarrow> string \<Rightarrow> ('r, 'x) cc_handler \<Rightarrow>
    int \<Rightarrow> int \<Rightarrow> int \<Rightarrow> (('r, 'x) world_scheme \<Rightarrow> ('r, 'x) world_scheme) list \<Rightarrow>
    (('r, 'x) world_scheme, int) io" where
  "run_consumer R stream grp consumer_id handler count block_ms reclaim_min_idle_ms envs =
     bnd (cc_ensure_group R stream grp) (\<lambda>_.
     bnd (incr ''competing_consumers'' ''consumer_joins'' 1) (\<lambda>_.
     cc_loop R stream grp consumer_id handler count block_ms reclaim_min_idle_ms envs 0))"

subsection \<open>The baseline without a consumer group\<close>

record bare_locals =
  last_id :: string
  bare_handled :: int

definition bare_one :: "string \<Rightarrow> ('r, 'x) cc_handler \<Rightarrow> entry \<Rightarrow> bare_locals \<Rightarrow>
    (('r, 'x) world_scheme, bare_locals) io" where
  "bare_one consumer_id handler m l =
     bnd (liftr (task_from_fields (snd m))) (\<lambda>task.
     bnd (handler consumer_id task) (\<lambda>_.
     ret (l\<lparr>last_id := fst m, bare_handled := bare_handled l + 1\<rparr>)))"

fun bare_loop :: "'r redis \<Rightarrow> string \<Rightarrow> string \<Rightarrow> ('r, 'x) cc_handler \<Rightarrow> int \<Rightarrow>
    (('r, 'x) world_scheme \<Rightarrow> ('r, 'x) world_scheme) list \<Rightarrow> bare_locals \<Rightarrow>
    (('r, 'x) world_scheme, bare_locals) io" where
  "bare_loop R stream c h n [] l = ret l"
| "bare_loop R stream c h n (env # envs) l =
     bnd (modify env) (\<lambda>_.
     bnd (redis_call (xread R stream (last_id l) n)) (\<lambda>results.
     bnd (for_each (bare_one c h) (first_stream results) l) (\<lambda>l'.
     bare_loop R stream c h n envs l')))"

definition run_bare_read_consumer :: "'r redis \<Rightarrow> string \<Rightarrow> string \<Rightarrow> ('r, 'x) cc_handler \<Rightarrow> int \<Rightarrow>
    (('r, 'x) world_scheme \<Rightarrow> ('r, 'x) world_scheme) list \<Rightarrow> (('r, 'x) world_scheme, int) io" where
  "run_bare_read_consumer R stream consumer_id handler count envs =
     bnd (bare_loop R stream consumer_id handler count envs
       \<lparr>last_id = ''0'', bare_handled = 0\<rparr>) (\<lambda>l. ret (bare_handled l))"

lemmas cc_broker_defs = cc_ensure_group_def cc_read_new_def cc_ack_def cc_reclaim_stale_def

lemma cc_broker_idioms:
  "cc_ensure_group R s g = group_create R s g"
  "cc_read_new R s g c n b = group_read R g c s ''>'' n (Some b)"
  "cc_ack R s g i = group_ack R s g i"
  "cc_reclaim_stale R s g c mi n = group_claim R s g c mi n"
  by (simp_all add: cc_broker_defs group_create_def group_read_def group_ack_def group_claim_def)

subsection \<open>No task is lost, however the consumer ends\<close>

definition task_done :: "('x \<Rightarrow> string list) \<Rightarrow> 'x \<Rightarrow> entry \<Rightarrow> bool" where
  "task_done lg x e \<longleftrightarrow> (\<exists>t. task_from_fields (snd e) = Inr t \<and> task_id t \<in> set (lg x))"

definition cc_inv :: "string \<Rightarrow> string \<Rightarrow> ('x \<Rightarrow> string list) \<Rightarrow> keyspace \<Rightarrow> 'x \<Rightarrow> bool" where
  "cc_inv s g lg k x \<longleftrightarrow> (\<exists>gr. ks_group k s g = Some gr \<and> group_wf (ks_entries k s) gr \<and>
     (\<forall>e \<in> set (ks_entries k s). e \<in> set (outstanding gr) \<or> task_done lg x e))"

text \<open>A handler that records the task it handled in a log, and does not talk to the broker.\<close>

definition records_task :: "('x \<Rightarrow> string list) \<Rightarrow> ('r, 'x) cc_handler \<Rightarrow> bool" where
  "records_task lg h \<longleftrightarrow> (\<forall>c t w res w'. h c t w = (res, w') \<longrightarrow> srv w' = srv w \<and>
     set (lg (app w)) \<subseteq> set (lg (app w')) \<and> (\<forall>u. res = Inr u \<longrightarrow> task_id t \<in> set (lg (app w'))))"

definition cc_benign :: "('r \<Rightarrow> keyspace) \<Rightarrow> string \<Rightarrow> string \<Rightarrow> ('x \<Rightarrow> string list) \<Rightarrow>
    (('r, 'x) world_scheme \<Rightarrow> ('r, 'x) world_scheme) \<Rightarrow> bool" where
  "cc_benign view s g lg m \<longleftrightarrow>
     (\<forall>w. cc_inv s g lg (view (srv w)) (app w) \<longrightarrow> cc_inv s g lg (view (srv (m w))) (app (m w)))"

lemma cc_inv_mono:
  assumes "cc_inv s g lg k x" and "set (lg x) \<subseteq> set (lg x')"
  shows "cc_inv s g lg k x'"
  using assms unfolding cc_inv_def task_done_def by blast

lemma cc_inv_keep:
  assumes "cc_inv s g lg k x" and "ks_group k s g = Some gr"
    and "ks_group k' s g = Some gr'" and "outstanding gr' = outstanding gr"
    and "ks_entries k' s = ks_entries k s"
  shows "cc_inv s g lg k' x"
  using assms unfolding cc_inv_def by (auto simp: group_wf_def)

lemma cc_inv_ack:
  assumes inv: "cc_inv s g lg k x" and e: "e \<in> set (ks_entries k s)" and fin: "task_done lg x e"
  shows "cc_inv s g lg (ks_ack s g (fst e) k) x"
proof -
  obtain gr where gr: "ks_group k s g = Some gr" "group_wf (ks_entries k s) gr"
    "\<forall>e \<in> set (ks_entries k s). e \<in> set (outstanding gr) \<or> task_done lg x e"
    using inv by (auto simp: cc_inv_def)
  have "y \<in> set (outstanding (unpend (fst e) gr)) \<or> task_done lg x y"
    if y: "y \<in> set (ks_entries k s)" for y
  proof (cases "fst y = fst e")
    case True
    then have "y = e" using y e gr(2) by (metis eq_key_imp_eq_value group_wf_def prod.collapse)
    then show ?thesis using fin by simp
  next
    case False
    then show ?thesis using gr(3) y by (auto simp: outstanding_unpend outstanding_def)
  qed
  then show ?thesis using gr(1) group_wf_unpend [OF gr(2)] by (auto simp: cc_inv_def)
qed

text \<open>The part of the world a triple speaks of: the invariant, and entries already read.\<close>

definition cc_holds :: "('r \<Rightarrow> keyspace) \<Rightarrow> string \<Rightarrow> string \<Rightarrow> ('x \<Rightarrow> string list) \<Rightarrow> entry list \<Rightarrow>
    ('r, 'x) world_scheme \<Rightarrow> bool" where
  "cc_holds view s g lg batch w \<longleftrightarrow> cc_inv s g lg (view (srv w)) (app w) \<and>
     set batch \<subseteq> set (ks_entries (view (srv w)) s)"

lemma claimable_pel: "set (claimable t mi n gr) \<subseteq> set (pel_entries gr)"
  by (auto simp: claimable_def pel_entries_def dest!: in_set_takeD)

context redis_available
begin

lemma valid_cc_ack:
  fixes P :: "('a, 'x) world_scheme \<Rightarrow> bool"
  assumes "\<And>w m w'. P w \<Longrightarrow> kv w' = ks_ack s g i (kv w) \<Longrightarrow> app w' = app w \<Longrightarrow> Q m w'"
  shows "valid P (cc_ack R s g i) Q E"
proof (rule validI)
  fix w m w'
  assume "P w" "cc_ack R s g i w = (Inr m, w')"
  then show "Q m w'" using assms [of w] group_ack_effect [of s g i w m w'] by (simp add: cc_broker_idioms)
next
  fix w e and w' :: "('a, 'x) world_scheme"
  assume "cc_ack R s g i w = (Inl e, w')"
  then show "E e w'" using group_ack_up [of s g i w] by (auto simp: cc_broker_idioms)
qed

lemma valid_cc_handle_one:
  assumes h: "records_task lg h" and m: "m \<in> set batch"
  shows "valid (cc_holds view s g lg batch) (cc_handle_one R s g c h m n)
    (\<lambda>_. cc_holds view s g lg batch) (\<lambda>_. cc_holds view s g lg batch)"
  unfolding cc_handle_one_def
proof (rule valid_bnd [where Q = "\<lambda>t w. cc_holds view s g lg batch w \<and>
      task_from_fields (snd m) = Inr t", OF valid_liftr])
  fix t
  show "valid (\<lambda>w. cc_holds view s g lg batch w \<and> task_from_fields (snd m) = Inr t)
    (bnd (h c t) (\<lambda>_. bnd (cc_ack R s g (fst m)) (\<lambda>_.
      bnd (incr ''competing_consumers'' ''messages_consumed'' 1) (\<lambda>_. ret (n + 1)))))
    (\<lambda>_. cc_holds view s g lg batch) (\<lambda>_. cc_holds view s g lg batch)"
  proof (rule valid_bnd [where Q = "\<lambda>_ w. cc_holds view s g lg batch w \<and> task_done lg (app w) m",
        OF validI])
    fix w u w'
    assume "cc_holds view s g lg batch w \<and> task_from_fields (snd m) = Inr t" "h c t w = (Inr u, w')"
    then show "cc_holds view s g lg batch w' \<and> task_done lg (app w') m"
      using h cc_inv_mono [of s g lg "kv w" "app w" "app w'"]
      by (auto simp: cc_holds_def records_task_def task_done_def)
  next
    fix w e w'
    assume "cc_holds view s g lg batch w \<and> task_from_fields (snd m) = Inr t" "h c t w = (Inl e, w')"
    then show "cc_holds view s g lg batch w'"
      using h cc_inv_mono [of s g lg "kv w" "app w" "app w'"]
      by (auto simp: cc_holds_def records_task_def)
  next
    show "valid (\<lambda>w. cc_holds view s g lg batch w \<and> task_done lg (app w) m)
      (bnd (cc_ack R s g (fst m)) (\<lambda>_. bnd (incr ''competing_consumers'' ''messages_consumed'' 1)
        (\<lambda>_. ret (n + 1)))) (\<lambda>_. cc_holds view s g lg batch) (\<lambda>_. cc_holds view s g lg batch)"
    proof (rule valid_bnd [OF valid_cc_ack])
      fix w w' :: "('a, 'b) world_scheme"
      assume "cc_holds view s g lg batch w \<and> task_done lg (app w) m"
        "kv w' = ks_ack s g (fst m) (kv w)" "app w' = app w"
      then show "cc_holds view s g lg batch w'"
        using m cc_inv_ack [of s g lg "kv w" "app w" m] by (auto simp: cc_holds_def)
    next
      show "valid (cc_holds view s g lg batch)
        (bnd (incr ''competing_consumers'' ''messages_consumed'' 1) (\<lambda>_. ret (n + 1)))
        (\<lambda>_. cc_holds view s g lg batch) (\<lambda>_. cc_holds view s g lg batch)"
        by (simp add: valid_def cc_holds_def)
    qed
  qed
qed simp_all

lemma valid_cc_handle_batch:
  assumes "records_task lg h"
  shows "valid (cc_holds view s g lg batch) (cc_handle_batch R s g c batch h)
    (\<lambda>_. cc_holds view s g lg []) (\<lambda>_. cc_holds view s g lg [])"
  unfolding cc_handle_batch_def
  by (rule valid_conseq [OF valid_for_each [where I = "\<lambda>_. cc_holds view s g lg batch"
          and E = "\<lambda>_. cc_holds view s g lg batch"]])
    (auto intro: valid_cc_handle_one assms simp: cc_holds_def)

lemma valid_cc_read_new:
  fixes lg :: "'x \<Rightarrow> string list"
  assumes "1 \<le> n"
  shows "valid (cc_holds view s g lg []) (cc_read_new R s g c n b)
    (\<lambda>batch. cc_holds view s g lg batch) (\<lambda>_. cc_holds view s g lg [])"
proof (rule validI)
  fix w es and w' :: "('a, 'x) world_scheme"
  assume w: "cc_holds view s g lg [] w" and run: "cc_read_new R s g c n b w = (Inr es, w')"
  obtain gr where gr: "ks_group (kv w) s g = Some gr" "es = take (nat n) (g_new gr)"
    "kv w' = ks_put_group s g (deliver c (ks_time (kv w)) (nat n) gr) (kv w)" "app w' = app w"
    using group_read_new_effect [OF run [unfolded cc_broker_idioms] assms] by auto
  have "cc_inv s g lg (kv w') (app w)"
    by (rule cc_inv_keep [OF _ gr(1), where gr' = "deliver c (ks_time (kv w)) (nat n) gr"])
      (use w in \<open>simp_all add: cc_holds_def gr(3)\<close>)
  moreover have "set es \<subseteq> set (ks_entries (kv w) s)"
    using w gr(1,2) by (auto simp: cc_holds_def cc_inv_def group_wf_def outstanding_def dest!: in_set_takeD)
  ultimately show "cc_holds view s g lg es w'" by (simp add: cc_holds_def gr(3,4))
next
  fix w e and w' :: "('a, 'x) world_scheme"
  assume w: "cc_holds view s g lg [] w" and run: "cc_read_new R s g c n b w = (Inl e, w')"
  then have "ks_group (kv w) s g \<noteq> None" by (auto simp: cc_holds_def cc_inv_def)
  then obtain es w1 where "cc_read_new R s g c n b w = (Inr es, w1)"
    unfolding cc_broker_idioms using assms by (metis group_read_up insertI1)
  then show "cc_holds view s g lg [] w'" using run by simp
qed

lemma valid_cc_reclaim:
  fixes lg :: "'x \<Rightarrow> string list"
  assumes "1 \<le> n"
  shows "valid (cc_holds view s g lg []) (cc_reclaim_stale R s g c mi n)
    (\<lambda>batch. cc_holds view s g lg batch) (\<lambda>_. cc_holds view s g lg [])"
proof (rule validI)
  fix w es and w' :: "('a, 'x) world_scheme"
  assume w: "cc_holds view s g lg [] w" and run: "cc_reclaim_stale R s g c mi n w = (Inr es, w')"
  obtain gr where gr: "ks_group (kv w) s g = Some gr" "es = claimable (ks_time (kv w)) mi (nat n) gr"
    "kv w' = ks_put_group s g (touch c (ks_time (kv w)) (map fst es) gr) (kv w)" "app w' = app w"
    using group_claim_effect [OF run [unfolded cc_broker_idioms] assms] by auto
  have "cc_inv s g lg (kv w') (app w)"
    by (rule cc_inv_keep [OF _ gr(1), where gr' = "touch c (ks_time (kv w)) (map fst es) gr"])
      (use w in \<open>simp_all add: cc_holds_def gr(3)\<close>)
  moreover have "set es \<subseteq> set (ks_entries (kv w) s)"
    using w gr(1,2) claimable_pel [of "ks_time (kv w)" mi "nat n" gr]
    by (auto simp: cc_holds_def cc_inv_def group_wf_def outstanding_def)
  ultimately show "cc_holds view s g lg es w'" by (simp add: cc_holds_def gr(3,4))
next
  fix w e and w' :: "('a, 'x) world_scheme"
  assume w: "cc_holds view s g lg [] w" and run: "cc_reclaim_stale R s g c mi n w = (Inl e, w')"
  then have "ks_group (kv w) s g \<noteq> None" by (auto simp: cc_holds_def cc_inv_def)
  then obtain es w1 where "cc_reclaim_stale R s g c mi n w = (Inr es, w1)"
    unfolding cc_broker_idioms using assms by (rule group_claim_up)
  then show "cc_holds view s g lg [] w'" using run by simp
qed

lemma cc_holds_less: "cc_holds view s g lg batch w \<Longrightarrow> cc_holds view s g lg [] w"
  by (simp add: cc_holds_def)

lemma valid_cc_batch_or_skip:
  assumes "records_task lg h"
  shows "valid (cc_holds view s g lg batch)
    (if batch = [] then ret n else bnd (cc_handle_batch R s g c batch h) (\<lambda>k. ret (n + k)))
    (\<lambda>_. cc_holds view s g lg []) (\<lambda>_. cc_holds view s g lg [])"
  using assms by (auto intro!: valid_bnd [OF valid_cc_handle_batch] valid_ret)

lemma valid_cc_turn:
  assumes "1 \<le> n" and "records_task lg h"
  shows "valid (cc_holds view s g lg []) (cc_turn R s g c h n b mi t)
    (\<lambda>_. cc_holds view s g lg []) (\<lambda>_. cc_holds view s g lg [])"
  unfolding cc_turn_def
  by (intro valid_bnd [OF valid_cc_reclaim [OF assms(1)]] valid_bnd [OF valid_cc_batch_or_skip [OF assms(2)]]
      valid_bnd [OF valid_cc_read_new [OF assms(1)]] valid_cc_batch_or_skip [OF assms(2)])

lemma valid_cc_loop:
  assumes "1 \<le> n" and "records_task lg h" and "\<forall>env \<in> set envs. cc_benign view s g lg env"
  shows "valid (cc_holds view s g lg []) (cc_loop R s g c h n b mi envs t)
    (\<lambda>_. cc_holds view s g lg []) (\<lambda>_. cc_holds view s g lg [])"
  using assms(3)
proof (induction envs arbitrary: t)
  case Nil
  then show ?case unfolding cc_loop.simps by (intro valid_ret)
next
  case (Cons env envs)
  have "valid (cc_holds view s g lg []) (modify env) (\<lambda>_. cc_holds view s g lg []) (\<lambda>_. cc_holds view s g lg [])"
    using Cons.prems by (intro valid_modify) (simp add: cc_holds_def cc_benign_def)
  then show ?case unfolding cc_loop.simps
    using Cons by (intro valid_bnd [OF _ valid_bnd [OF valid_cc_turn [OF assms(1,2)]]]) auto
qed

lemma run_consumer_keeps:
  assumes start: "cc_inv s g lg (kv w) (app w) \<or>
      ks_group (kv w) s g = None \<and> distinct (map fst (ks_entries (kv w) s))"
    and n: "1 \<le> n" and h: "records_task lg h" and envs: "\<forall>env \<in> set envs. cc_benign view s g lg env"
    and run: "run_consumer R s g c h n b mi envs w = (res, w')"
  shows "cc_inv s g lg (kv w') (app w')"
proof -
  obtain b1 w1 where mk: "cc_ensure_group R s g w = (Inr b1, w1)"
    unfolding cc_broker_idioms by (rule group_create_up)
  have "cc_inv s g lg (kv w1) (app w1)"
    using start group_create_effect [OF mk [unfolded cc_broker_idioms]]
    by (auto simp: cc_inv_def group_wf_new_group)
  moreover define w2 where "w2 = w1\<lparr>reg := increment ''competing_consumers'' ''consumer_joins'' 1 (wall w1) (reg w1)\<rparr>"
  ultimately have "cc_holds view s g lg [] w2" by (simp add: cc_holds_def)
  moreover have "cc_loop R s g c h n b mi envs 0 w2 = (res, w')"
    using run by (simp add: run_consumer_def bnd_def mk w2_def incr_def)
  ultimately have "cc_holds view s g lg [] w'"
    using valid_cc_loop [OF n h envs, of c b mi 0] by (auto simp: valid_def split: sum.splits)
  then show ?thesis by (simp add: cc_holds_def)
qed

end

subsection \<open>Each message goes to one consumer\<close>

text \<open>
  Any number of consumers and publishers interleave as steps of one relation; each step is one
  broker call, labelled with what it returned. \<open>Ticked\<close> lets time pass and the consumers run their
  own code.
\<close>

datatype cc_event =
    Published string fields
  | Delivered string "entry list"
  | Reclaimed string "entry list"
  | Acked string
  | Ticked

inductive cc_step :: "'r redis \<Rightarrow> ('r \<Rightarrow> keyspace) \<Rightarrow> string \<Rightarrow> string \<Rightarrow>
    ('r, 'x) world_scheme \<Rightarrow> cc_event \<Rightarrow> ('r, 'x) world_scheme \<Rightarrow> bool"
  for R view s g where
  publish: "cc_publish R s f w = (Inr i, w') \<Longrightarrow> cc_step R view s g w (Published i f) w'"
| read: "1 \<le> n \<Longrightarrow> cc_read_new R s g c n b w = (Inr es, w') \<Longrightarrow> cc_step R view s g w (Delivered c es) w'"
| reclaim: "1 \<le> n \<Longrightarrow> cc_reclaim_stale R s g c mi n w = (Inr es, w') \<Longrightarrow>
    cc_step R view s g w (Reclaimed c es) w'"
| ack: "cc_ack R s g i w = (Inr m, w') \<Longrightarrow> cc_step R view s g w (Acked i) w'"
| tick: "view (srv w') = (view (srv w))\<lparr>ks_time := t\<rparr> \<Longrightarrow> cc_step R view s g w Ticked w'"

inductive_cases cc_step_PublishedE: "cc_step R view s g w (Published i f) w'"
inductive_cases cc_step_DeliveredE: "cc_step R view s g w (Delivered c es) w'"
inductive_cases cc_step_ReclaimedE: "cc_step R view s g w (Reclaimed c es) w'"
inductive_cases cc_step_AckedE: "cc_step R view s g w (Acked i) w'"
inductive_cases cc_step_TickedE: "cc_step R view s g w Ticked w'"

inductive cc_run :: "'r redis \<Rightarrow> ('r \<Rightarrow> keyspace) \<Rightarrow> string \<Rightarrow> string \<Rightarrow>
    ('r, 'x) world_scheme \<Rightarrow> cc_event list \<Rightarrow> ('r, 'x) world_scheme \<Rightarrow> bool"
  for R view s g w where
  start: "cc_run R view s g w [] w"
| step: "cc_run R view s g w evs w1 \<Longrightarrow> cc_step R view s g w1 ev w2 \<Longrightarrow> cc_run R view s g w (evs @ [ev]) w2"

fun delivered :: "cc_event list \<Rightarrow> entry list" where
  "delivered [] = []"
| "delivered (Delivered c es # evs) = es @ delivered evs"
| "delivered (_ # evs) = delivered evs"

lemma delivered_snoc [simp]:
  "delivered (evs @ [ev]) = delivered evs @ (case ev of Delivered c es \<Rightarrow> es | _ \<Rightarrow> [])"
  by (induction evs rule: delivered.induct) (auto split: cc_event.splits)

definition cc_ledger :: "string \<Rightarrow> string \<Rightarrow> cc_event list \<Rightarrow> keyspace \<Rightarrow> bool" where
  "cc_ledger s g evs k \<longleftrightarrow> (\<exists>gr. ks_group k s g = Some gr \<and>
     delivered evs @ g_new gr = ks_entries k s \<and> distinct (map fst (ks_entries k s)) \<and>
     distinct (map fst (pel_entries gr)) \<and> set (pel_entries gr) \<subseteq> set (delivered evs) \<and>
     (\<forall>e \<in> set (delivered evs). e \<in> set (pel_entries gr) \<or> Acked (fst e) \<in> set evs) \<and>
     (\<forall>c es. Reclaimed c es \<in> set evs \<longrightarrow> set es \<subseteq> set (delivered evs)))"

lemma cc_ledgerE:
  assumes "cc_ledger s g evs k"
  obtains gr where "ks_group k s g = Some gr" and "delivered evs @ g_new gr = ks_entries k s"
    and "distinct (map fst (ks_entries k s))" and "distinct (map fst (pel_entries gr))"
    and "set (pel_entries gr) \<subseteq> set (delivered evs)"
    and "\<forall>e \<in> set (delivered evs). e \<in> set (pel_entries gr) \<or> Acked (fst e) \<in> set evs"
    and "\<forall>c es. Reclaimed c es \<in> set evs \<longrightarrow> set es \<subseteq> set (delivered evs)"
  using assms unfolding cc_ledger_def by blast

context redis_server
begin

lemma cc_publish_effect:
  assumes "cc_publish R s f w = (Inr i, w')"
  shows "kv w' = ks_xadd s i f (kv w) \<and> i \<notin> fst ` set (ks_entries (kv w) s)"
proof -
  obtain w1 where "stream_add R s f w = (Inr i, w1)" and "srv w' = srv w1"
    using assms unfolding cc_publish_def stream_add_def by (auto elim!: bnd_InrE simp: incr_def)
  then show ?thesis using stream_add_effect [of s f w i w1] by simp
qed

lemma cc_ledger_step:
  assumes led: "cc_ledger s g evs (kv w)" and step: "cc_step R view s g w ev w'"
  shows "cc_ledger s g (evs @ [ev]) (kv w')"
proof -
  obtain gr where gr: "ks_group (kv w) s g = Some gr" "delivered evs @ g_new gr = ks_entries (kv w) s"
    "distinct (map fst (ks_entries (kv w) s))" "distinct (map fst (pel_entries gr))"
    "set (pel_entries gr) \<subseteq> set (delivered evs)"
    "\<forall>e \<in> set (delivered evs). e \<in> set (pel_entries gr) \<or> Acked (fst e) \<in> set evs"
    "\<forall>c es. Reclaimed c es \<in> set evs \<longrightarrow> set es \<subseteq> set (delivered evs)"
    using led by (rule cc_ledgerE)
  show ?thesis
    using step
  proof (cases rule: cc_step.cases)
    case (publish f i)
    then have "kv w' = ks_xadd s i f (kv w)" "i \<notin> fst ` set (ks_entries (kv w) s)"
      using cc_publish_effect [of s f w i w'] by auto
    then show ?thesis using gr publish(1)
      by (auto simp: cc_ledger_def pel_entries_def)
  next
    case (read n c b es)
    then have "es = take (nat n) (g_new gr)"
      and k: "kv w' = ks_put_group s g (deliver c (ks_time (kv w)) (nat n) gr) (kv w)"
      using group_read_new_effect [of g c s n "Some b" w es w'] gr(1) by (auto simp: cc_broker_idioms)
    then have es: "es @ drop (nat n) (g_new gr) = g_new gr" and "take (nat n) (g_new gr) = es" by simp_all
    have "distinct (map fst (pel_entries gr @ es))"
    proof -
      have "distinct (map fst (delivered evs @ es @ drop (nat n) (g_new gr)))" using gr(2,3) es by simp
      then have "fst ` set (delivered evs) \<inter> fst ` set es = {}" "distinct (map fst es)" by auto
      then show ?thesis using gr(4,5) by auto
    qed
    then show ?thesis using gr read(1) k es \<open>take (nat n) (g_new gr) = es\<close>
      by (auto simp: cc_ledger_def) (use gr(7) in blast)
  next
    case (reclaim n c mi es)
    then have "es = claimable (ks_time (kv w)) mi (nat n) gr"
      and k: "kv w' = ks_put_group s g (touch c (ks_time (kv w)) (map fst es) gr) (kv w)"
      using group_claim_effect [of s g c mi n w es w'] gr(1) by (auto simp: cc_broker_idioms)
    then have "set es \<subseteq> set (delivered evs)" using claimable_pel gr(5) by blast
    then show ?thesis using gr reclaim(1) k by (auto simp: cc_ledger_def)
  next
    case (ack i m)
    then have k: "kv w' = ks_ack s g i (kv w)"
      using group_ack_effect [of s g i w m w'] by (simp add: cc_broker_idioms)
    then show ?thesis using gr ack(1)
      by (auto simp: cc_ledger_def distinct_map_filter)
  next
    case (tick t)
    then show ?thesis using gr by (auto simp: cc_ledger_def ks_group_def ks_entries_def)
  qed
qed

lemma cc_run_ledger:
  assumes "cc_run R view s g w evs w'" and "cc_ledger s g [] (kv w)"
  shows "cc_ledger s g evs (kv w')"
  using assms by induction (auto intro: cc_ledger_step)

end

subsection \<open>A consumer drains its group\<close>

text \<open>
  A handler that, for the consumer \<open>c\<close>, appends the item of each task to its log and succeeds; with any
  consumer and the task's id, \<open>logs_task\<close>.
\<close>

definition logs_with :: "('x \<Rightarrow> 'l list) \<Rightarrow> (task \<Rightarrow> 'l) \<Rightarrow> string \<Rightarrow> ('r, 'x) cc_handler \<Rightarrow> bool" where
  "logs_with lg item c h \<longleftrightarrow> (\<forall>t w. \<exists>w'. h c t w = (Inr (), w') \<and> srv w' = srv w \<and>
     lg (app w') = lg (app w) @ [item t])"

definition logs_task :: "('x \<Rightarrow> string list) \<Rightarrow> ('r, 'x) cc_handler \<Rightarrow> bool" where
  "logs_task lg h \<longleftrightarrow> (\<forall>c t w. \<exists>w'. h c t w = (Inr (), w') \<and> srv w' = srv w \<and>
     lg (app w') = lg (app w) @ [task_id t])"

lemma logs_task_with: "logs_task lg h \<Longrightarrow> logs_with lg task_id c h"
  by (simp add: logs_task_def logs_with_def)

lemma pel_entries_Nil [simp]: "pel_entries gr = [] \<longleftrightarrow> g_pel gr = []"
  by (simp add: pel_entries_def)

context redis_available
begin

lemma cc_handle_one_logs:
  assumes h: "logs_with lg item c h" and t: "task_from_fields (snd m) = Inr t"
  obtains w' where "cc_handle_one R s g c h m n w = (Inr (n + 1), w')"
    and "kv w' = ks_ack s g (fst m) (kv w)" and "lg (app w') = lg (app w) @ [item t]"
proof -
  obtain w1 where h1: "h c t w = (Inr (), w1)" "srv w1 = srv w" "lg (app w1) = lg (app w) @ [item t]"
    using h unfolding logs_with_def by metis
  obtain k w2 where a: "cc_ack R s g (fst m) w1 = (Inr k, w2)"
    unfolding cc_broker_idioms by (rule group_ack_up)
  show ?thesis using that h1 group_ack_effect [OF a [unfolded cc_broker_idioms]]
    by (simp add: cc_handle_one_def t bnd_def h1(1) a incr_def)
qed

lemma cc_batch_logs:
  assumes h: "logs_with lg item c h" and "map (\<lambda>e. task_from_fields (snd e)) batch = map Inr ts"
    and "ks_group (kv w) s g = Some gr" and "pel_entries gr = batch" and "distinct (map fst batch)"
  shows "\<exists>w' gr'. for_each (cc_handle_one R s g c h) batch n w = (Inr (n + int (length batch)), w') \<and>
    ks_group (kv w') s g = Some gr' \<and> g_pel gr' = [] \<and> g_new gr' = g_new gr \<and>
    ks_entries (kv w') = ks_entries (kv w) \<and> lg (app w') = lg (app w) @ map item ts"
  using assms(2-)
proof (induction batch arbitrary: ts n w gr)
  case Nil
  then show ?case by simp
next
  case (Cons m batch)
  then obtain t ts1 where ts: "ts = t # ts1" "task_from_fields (snd m) = Inr t"
    "map (\<lambda>e. task_from_fields (snd e)) batch = map Inr ts1" by (cases ts) auto
  obtain w1 where w1: "cc_handle_one R s g c h m n w = (Inr (n + 1), w1)"
    "kv w1 = ks_ack s g (fst m) (kv w)" "lg (app w1) = lg (app w) @ [item t]"
    by (rule cc_handle_one_logs [OF h ts(2)])
  have "filter (\<lambda>e. fst e \<noteq> fst m) batch = batch"
    using Cons.prems(4) by (intro filter_True) (metis distinct.simps(2) image_eqI list.simps(9) set_map)
  then have "pel_entries (unpend (fst m) gr) = batch" using Cons.prems(3) by simp
  then show ?case
    using Cons.IH [OF ts(3), of w1 "unpend (fst m) gr" "n + 1"] Cons.prems(2,4) w1 ts(1)
    by (auto simp: bnd_def)
qed

text \<open>\<open>fresh s g es k\<close>: everything delivered was acknowledged, \<open>es\<close> has not been delivered.\<close>

lemma cc_turn_logs:
  assumes h: "logs_with lg item c h" and n: "1 \<le> n"
    and es: "map (\<lambda>e. task_from_fields (snd e)) es = map Inr ts" "distinct (map fst es)"
    and gr: "ks_group (kv w) s g = Some \<lparr>g_new = es, g_pel = []\<rparr>"
  obtains w' where "cc_turn R s g c h n b mi t w = (Inr (t + int (length (take (nat n) es))), w')"
    and "ks_group (kv w') s g = Some \<lparr>g_new = drop (nat n) es, g_pel = []\<rparr>"
    and "ks_entries (kv w') = ks_entries (kv w)"
    and "lg (app w') = lg (app w) @ map item (take (nat n) ts)"
proof -
  obtain cl w1 where cl: "cc_reclaim_stale R s g c mi n w = (Inr cl, w1)"
    unfolding cc_broker_idioms using gr n by (metis group_claim_up option.distinct(1))
  have w1: "cl = []" "kv w1 = ks_put_group s g \<lparr>g_new = es, g_pel = []\<rparr> (kv w)" "app w1 = app w"
    using group_claim_effect [OF cl [unfolded cc_broker_idioms] n] gr
    by (auto simp: claimable_def touch_def)
  then have gr1: "ks_group (kv w1) s g = Some \<lparr>g_new = es, g_pel = []\<rparr>" by simp
  obtain bt w2 where bt: "cc_read_new R s g c n b w1 = (Inr bt, w2)"
    unfolding cc_broker_idioms using gr1 n by (metis group_read_up insertI1 option.distinct(1))
  define d where "d = deliver c (ks_time (kv w1)) (nat n) \<lparr>g_new = es, g_pel = []\<rparr>"
  have w2: "bt = take (nat n) es" "kv w2 = ks_put_group s g d (kv w1)" "app w2 = app w1"
    using group_read_new_effect [OF bt [unfolded cc_broker_idioms] n] gr1 by (auto simp: d_def)
  have d: "pel_entries d = bt" "g_new d = drop (nat n) es"
    by (simp_all add: d_def w2(1))
  have "map (\<lambda>e. task_from_fields (snd e)) bt = map Inr (take (nat n) ts)"
    using es(1) by (simp add: w2(1) take_map [symmetric])
  moreover have "distinct (map fst bt)" using es(2) by (simp add: w2(1) take_map [symmetric])
  moreover have "ks_group (kv w2) s g = Some d" by (simp add: w2(2))
  ultimately obtain w' gr' where w': "for_each (cc_handle_one R s g c h) bt 0 w2 =
      (Inr (0 + int (length bt)), w')" "ks_group (kv w') s g = Some gr'" "g_pel gr' = []"
      "g_new gr' = g_new d" "ks_entries (kv w') = ks_entries (kv w2)"
      "lg (app w') = lg (app w2) @ map item (take (nat n) ts)"
    using cc_batch_logs [OF h _ _ d(1)] by blast
  have run: "cc_turn R s g c h n b mi t w = (Inr (t + int (length bt)), w')"
  proof (cases "bt = []")
    case True
    then show ?thesis using w'(1) by (simp add: cc_turn_def bnd_def cl w1(1) bt)
  next
    case False
    then show ?thesis using w'(1) by (simp add: cc_turn_def bnd_def cl w1(1) bt cc_handle_batch_def)
  qed
  have "gr' = \<lparr>g_new = drop (nat n) es, g_pel = []\<rparr>" using w'(3,4) d(2) by simp
  then show ?thesis using that run w' w1 w2 by simp
qed

lemma cc_loop_drains:
  assumes h: "logs_with lg item c h" and n: "1 \<le> n"
    and "map (\<lambda>e. task_from_fields (snd e)) es = map Inr ts" and "distinct (map fst es)"
    and "ks_group (kv w) s g = Some \<lparr>g_new = es, g_pel = []\<rparr>" and "length es \<le> nat n * k"
  shows "\<exists>w'. cc_loop R s g c h n b mi (replicate k (\<lambda>w. w)) t w = (Inr (t + int (length es)), w') \<and>
    ks_group (kv w') s g = Some \<lparr>g_new = [], g_pel = []\<rparr> \<and> ks_entries (kv w') = ks_entries (kv w) \<and>
    lg (app w') = lg (app w) @ map item ts"
  using assms(3-)
proof (induction k arbitrary: es ts t w)
  case 0
  then show ?case by simp
next
  case (Suc k)
  obtain w1 where w1: "cc_turn R s g c h n b mi t w = (Inr (t + int (length (take (nat n) es))), w1)"
    "ks_group (kv w1) s g = Some \<lparr>g_new = drop (nat n) es, g_pel = []\<rparr>"
    "ks_entries (kv w1) = ks_entries (kv w)" "lg (app w1) = lg (app w) @ map item (take (nat n) ts)"
    by (rule cc_turn_logs [OF h n Suc.prems(1-3)])
  have "map (\<lambda>e. task_from_fields (snd e)) (drop (nat n) es) = map Inr (drop (nat n) ts)"
    using Suc.prems(1) by (simp add: drop_map [symmetric])
  moreover have "distinct (map fst (drop (nat n) es))"
    using Suc.prems(2) by (simp add: drop_map [symmetric])
  moreover have len: "length (drop (nat n) es) \<le> nat n * k" using Suc.prems(4) by simp
  ultimately obtain w' where w': "cc_loop R s g c h n b mi (replicate k (\<lambda>w. w))
      (t + int (length (take (nat n) es))) w1 = (Inr (t + int (length (take (nat n) es)) +
      int (length (drop (nat n) es))), w')" "ks_group (kv w') s g = Some \<lparr>g_new = [], g_pel = []\<rparr>"
      "ks_entries (kv w') = ks_entries (kv w1)"
      "lg (app w') = lg (app w1) @ map item (drop (nat n) ts)"
    using Suc.IH [OF _ _ w1(2) len] by blast
  have "int (length (take (nat n) es)) + int (length (drop (nat n) es)) = int (length es)"
    by (metis append_take_drop_id length_append of_nat_add)
  then show ?case using w' w1 by (simp add: bnd_def add.assoc flip: map_append)
qed

lemma run_consumer_drains:
  assumes h: "logs_with lg item c h" and n: "1 \<le> n"
    and es: "map (\<lambda>e. task_from_fields (snd e)) (ks_entries (kv w) s) = map Inr ts"
    and ids: "distinct (map fst (ks_entries (kv w) s))" and grp: "ks_group (kv w) s g = None"
    and k: "length (ks_entries (kv w) s) \<le> nat n * k"
  shows "\<exists>w'. run_consumer R s g c h n b mi (replicate k (\<lambda>w. w)) w =
      (Inr (int (length (ks_entries (kv w) s))), w') \<and>
    ks_group (kv w') s g = Some \<lparr>g_new = [], g_pel = []\<rparr> \<and>
    lg (app w') = lg (app w) @ map item ts"
proof -
  obtain b1 w1 where mk: "cc_ensure_group R s g w = (Inr b1, w1)"
    unfolding cc_broker_idioms by (rule group_create_up)
  note eff = group_create_effect [OF mk [unfolded cc_broker_idioms]]
  define w2 where "w2 = w1\<lparr>reg := increment ''competing_consumers'' ''consumer_joins'' 1 (wall w1) (reg w1)\<rparr>"
  have "ks_group (kv w2) s g = Some \<lparr>g_new = ks_entries (kv w) s, g_pel = []\<rparr>"
    and "app w2 = app w" using eff grp by (simp_all add: w2_def new_group_def)
  then obtain w' where "cc_loop R s g c h n b mi (replicate k (\<lambda>w. w)) 0 w2 =
      (Inr (0 + int (length (ks_entries (kv w) s))), w')"
      "ks_group (kv w') s g = Some \<lparr>g_new = [], g_pel = []\<rparr>" "lg (app w') = lg (app w) @ map item ts"
    using cc_loop_drains [OF h n es ids, of w2 s g k b mi 0] k by auto
  then show ?thesis by (simp add: run_consumer_def bnd_def mk w2_def incr_def)
qed

end

subsection \<open>The baseline broadcasts\<close>

definition bare_unrelated :: "('r \<Rightarrow> keyspace) \<Rightarrow> string \<Rightarrow> ('x \<Rightarrow> 'l list) \<Rightarrow>
    (('r, 'x) world_scheme \<Rightarrow> ('r, 'x) world_scheme) \<Rightarrow> bool" where
  "bare_unrelated view s lg env \<longleftrightarrow> (\<forall>w. ks_entries (view (srv (env w))) s = ks_entries (view (srv w)) s \<and>
     lg (app (env w)) = lg (app w))"

text \<open>As \<open>logs_with\<close>, where the handler's own state satisfies \<open>P\<close>.\<close>

definition logs_in :: "('x \<Rightarrow> bool) \<Rightarrow> ('x \<Rightarrow> 'l list) \<Rightarrow> (task \<Rightarrow> 'l) \<Rightarrow> string \<Rightarrow> ('r, 'x) cc_handler \<Rightarrow> bool" where
  "logs_in P lg item c h \<longleftrightarrow> (\<forall>t w. P (app w) \<longrightarrow> (\<exists>w'. h c t w = (Inr (), w') \<and> srv w' = srv w \<and>
     P (app w') \<and> lg (app w') = lg (app w) @ [item t]))"

lemma logs_task_in: "logs_task lg h \<Longrightarrow> logs_in (\<lambda>_. True) lg task_id c h"
  by (simp add: logs_task_def logs_in_def)

lemma bare_batch:
  assumes h: "logs_in P lg item c h" and "map (\<lambda>e. task_from_fields (snd e)) batch = map Inr ts" and "P (app w)"
  shows "\<exists>w'. for_each (bare_one c h) batch l w = (Inr \<lparr>last_id =
      (if batch = [] then last_id l else fst (last batch)),
      bare_handled = bare_handled l + int (length batch)\<rparr>, w') \<and>
    srv w' = srv w \<and> P (app w') \<and> lg (app w') = lg (app w) @ map item ts"
  using assms(2,3)
proof (induction batch arbitrary: ts l w)
  case Nil
  then show ?case by simp
next
  case (Cons m batch)
  then obtain t ts1 where ts: "ts = t # ts1" "task_from_fields (snd m) = Inr t"
    "map (\<lambda>e. task_from_fields (snd e)) batch = map Inr ts1" by (cases ts) auto
  obtain w1 where "h c t w = (Inr (), w1)" "srv w1 = srv w" "P (app w1)" "lg (app w1) = lg (app w) @ [item t]"
    using h Cons.prems(2) unfolding logs_in_def by metis
  then show ?case
    using Cons.IH [where l = "l\<lparr>last_id := fst m, bare_handled := bare_handled l + 1\<rparr>" and w = w1, OF ts(3)] ts
    by (auto simp: bnd_def bare_one_def)
qed

context redis_available
begin

lemma bare_loop_reads_all:
  assumes h: "logs_in P lg item c h" and n: "1 \<le> n"
    and envs: "\<forall>env \<in> set envs. bare_unrelated view s lg env \<and> (\<forall>w. P (app w) \<longrightarrow> P (app (env w)))"
    and es: "ks_entries (kv w) s = es" "map (\<lambda>e. task_from_fields (snd e)) es = map Inr ts"
      "distinct (map fst es)" "''0'' \<notin> fst ` set es"
    and l: "last_id l = (if m = 0 then ''0'' else fst (es ! (m - 1)))" "m \<le> length es"
    and k: "length es \<le> m + nat n * length envs" and init: "P (app w)"
  shows "\<exists>l' w'. bare_loop R s c h n envs l w = (Inr l', w') \<and>
    bare_handled l' = bare_handled l + int (length es - m) \<and>
    lg (app w') = lg (app w) @ map item (drop m ts) \<and> P (app w') \<and>
    ((\<forall>env \<in> set envs. \<forall>w. kv (env w) = kv w) \<longrightarrow> kv w' = kv w)"
  using envs es(1) l k init
proof (induction envs arbitrary: l w m)
  case Nil
  moreover have "length ts = length es" using es(2) by (metis length_map)
  ultimately show ?case by simp
next
  case (Cons env envs)
  have env: "ks_entries (kv (env w)) s = es" "lg (app (env w)) = lg (app w)" "P (app (env w))"
    using Cons.prems(1,2,6) by (auto simp: bare_unrelated_def)
  obtain rep r' where rd: "xread R s (last_id l) n (srv (env w)) = (Inr rep, r')"
    using xread_up [OF n] by blast
  have "last_id l = ''0'' \<or> last_id l \<in> fst ` set (ks_entries (kv (env w)) s)"
    using Cons.prems(3,4) env(1) by (cases m) (auto dest: nth_mem)
  then have rep: "view r' = kv (env w)" "first_stream rep = take (nat n) (drop m es)"
    using xread_law [OF rd n] after_id_cursor [OF es(3,4) Cons.prems(4)] env(1) Cons.prems(3) by auto
  define bt where "bt = take (nat n) (drop m es)"
  have "map (\<lambda>e. task_from_fields (snd e)) bt = map Inr (take (nat n) (drop m ts))"
    using es(2) by (simp add: bt_def take_map [symmetric] drop_map [symmetric])
  then obtain w1 where w1: "for_each (bare_one c h) bt l ((env w)\<lparr>srv := r'\<rparr>) = (Inr \<lparr>last_id =
      (if bt = [] then last_id l else fst (last bt)), bare_handled = bare_handled l + int (length bt)\<rparr>, w1)"
    "srv w1 = r'" "P (app w1)" "lg (app w1) = lg (app w) @ map item (take (nat n) (drop m ts))"
    using bare_batch [OF h, where batch = bt and l = l and w = "(env w)\<lparr>srv := r'\<rparr>"] env(2,3) by auto
  define m' where "m' = min (length es) (m + nat n)"
  have cursor: "(if bt = [] then last_id l else fst (last bt)) = (if m' = 0 then ''0'' else fst (es ! (m' - 1)))"
  proof (cases "m = length es")
    case True
    then show ?thesis using Cons.prems(3) by (simp add: bt_def m'_def)
  next
    case False
    then have "bt \<noteq> []" "m' \<noteq> 0" using Cons.prems(4) n by (auto simp: bt_def m'_def)
    moreover have "last bt = es ! (m' - 1)"
      using False Cons.prems(4) n by (simp add: bt_def last_conv_nth min_def nth_append m'_def)
        (auto simp: add.commute intro!: arg_cong [where f = "(!) es"])
    ultimately show ?thesis by simp
  qed
  have "m' \<le> length es" "length es \<le> m' + nat n * length envs"
    using Cons.prems(5) by (auto simp: m'_def)
  then obtain l' w' where rest: "bare_loop R s c h n envs \<lparr>last_id =
      (if bt = [] then last_id l else fst (last bt)), bare_handled = bare_handled l + int (length bt)\<rparr> w1 =
      (Inr l', w')" "bare_handled l' = bare_handled l + int (length bt) + int (length es - m')"
      "lg (app w') = lg (app w1) @ map item (drop m' ts)" "P (app w')"
      "(\<forall>env \<in> set envs. \<forall>w. kv (env w) = kv w) \<longrightarrow> kv w' = kv w1"
    using Cons.IH [of w1 "\<lparr>last_id = (if bt = [] then last_id l else fst (last bt)),
        bare_handled = bare_handled l + int (length bt)\<rparr>" m'] Cons.prems(1) w1(2,3) rep(1) env(1) cursor
    by auto
  have "int (length bt) + int (length es - m') = int (length es - m)"
    using Cons.prems(4) by (auto simp: bt_def m'_def min_def)
  moreover have "drop m ts = take (nat n) (drop m ts) @ drop m' ts"
  proof -
    have "length ts = length es" using es(2) by (metis length_map)
    then have "drop m' ts = drop (nat n) (drop m ts)" by (auto simp: m'_def min_def add.commute)
    then show ?thesis by (metis append_take_drop_id)
  qed
  ultimately show ?case using rest w1 rep
    by (auto simp: bnd_def redis_call_def rd bt_def simp flip: map_append)
qed

end

end
