(* ===== verification/CC_Properties.thy ===== *)
theory CC_Properties
  imports Competing_Consumers Redis_Memory
begin

section \<open>Competing consumers: properties\<close>

definition cc_task :: "string \<Rightarrow> task" where
  "cc_task i = \<lparr>task_id = i, task_payload = ''p''\<rparr>"

definition cc_stream :: keyspace where
  "cc_stream = ks_xadd ''s'' ''2'' (task_to_fields (cc_task ''t2''))
     (ks_xadd ''s'' ''1'' (task_to_fields (cc_task ''t1'')) empty_keyspace)"

definition cc_world :: "keyspace \<Rightarrow> (keyspace, string list) world_scheme" where
  "cc_world k = \<lparr>reg = [], wall = [], srv = k, \<dots> = []\<rparr>"

definition cc_log :: "(keyspace, string list) cc_handler" where
  "cc_log c t w = (Inr (), world.more_update (\<lambda>l. l @ [task_id t]) w)"

definition cc_crash :: "(keyspace, string list) cc_handler" where
  "cc_crash c t w = (Inl ConsumerCrashError, w)"

lemma cc_stream_facts:
  "ks_entries cc_stream ''s'' = [(''1'', task_to_fields (cc_task ''t1'')), (''2'', task_to_fields (cc_task ''t2''))]"
  "ks_group cc_stream ''s'' g = None"
  by (simp_all add: cc_stream_def) (simp_all add: empty_keyspace_def ks_entries_def ks_group_def)

lemma cc_tasks_parse: "task_from_fields (task_to_fields (cc_task ''t1'')) = Inr (cc_task ''t1'')"
  "task_from_fields (task_to_fields (cc_task ''t2'')) = Inr (cc_task ''t2'')"
  by code_simp+

lemma cc_log_logs: "logs_task (\<lambda>l. l) cc_log"
  by (simp add: logs_task_def cc_log_def)

lemma cc_crash_records: "records_task (\<lambda>l. l) cc_crash"
  by (auto simp: records_task_def cc_crash_def)

lemma cc_world_sel [simp]: "srv (cc_world k) = k" "app (cc_world k) = []"
  by (simp_all add: cc_world_def)

text \<open>
  C12: no task is lost, however a consumer ends. With the server up, whatever the handler does
  (succeed, or raise and so end the coroutine in the middle of a batch) and whatever the sibling
  consumers do in between, every task of the stream is afterwards still outstanding in the group, to
  be delivered or reclaimed, or recorded by a handler as done.
\<close>

theorem cc_no_task_lost:
  assumes "redis_available R view" and "1 \<le> count" and "records_task lg handler"
    and "\<forall>env \<in> set envs. cc_benign view stream grp lg env"
    and "cc_inv stream grp lg (view (srv w)) (app w) \<or> ks_group (view (srv w)) stream grp = None \<and>
      distinct (map fst (ks_entries (view (srv w)) stream))"
    and "run_consumer R stream grp c handler count block_ms min_idle envs w = (outcome, w')"
    and "e \<in> set (ks_entries (view (srv w')) stream)"
  shows "(\<exists>gr. ks_group (view (srv w')) stream grp = Some gr \<and> e \<in> set (outstanding gr)) \<or>
    task_done lg (app w') e"
  using redis_available.run_consumer_keeps [OF assms(1,5,2,3,4,6)] assms(7)
  by (auto simp: cc_inv_def)

theorem cc_no_task_lost_witness:
  "\<exists>outcome w'. run_consumer mem_redis ''s'' ''g'' ''c'' cc_crash 10 0 5000 [\<lambda>w. w] (cc_world cc_stream) =
      (outcome, w') \<and>
    (''1'', task_to_fields (cc_task ''t1'')) \<in> set (ks_entries (srv w') ''s'') \<and>
    ((\<exists>gr. ks_group (srv w') ''s'' ''g'' = Some gr \<and>
      (''1'', task_to_fields (cc_task ''t1'')) \<in> set (outstanding gr)) \<or>
     task_done (\<lambda>l. l) (app w') (''1'', task_to_fields (cc_task ''t1'')))"
proof -
  obtain outcome w' where run: "run_consumer mem_redis ''s'' ''g'' ''c'' cc_crash 10 0 5000 [\<lambda>w. w]
      (cc_world cc_stream) = (outcome, w')" by (cases "run_consumer mem_redis ''s'' ''g'' ''c'' cc_crash
      10 0 5000 [\<lambda>w. w] (cc_world cc_stream)")
  have "(''1'', task_to_fields (cc_task ''t1'')) \<in> set (ks_entries (srv (snd (run_consumer mem_redis ''s'' ''g''
      ''c'' cc_crash 10 0 5000 [\<lambda>w. w] (cc_world cc_stream)))) ''s'')" by code_simp
  then have e: "(''1'', task_to_fields (cc_task ''t1'')) \<in> set (ks_entries (srv w') ''s'')"
    by (simp add: run)
  have "(\<exists>gr. ks_group (srv w') ''s'' ''g'' = Some gr \<and>
      (''1'', task_to_fields (cc_task ''t1'')) \<in> set (outstanding gr)) \<or>
     task_done (\<lambda>l. l) (app w') (''1'', task_to_fields (cc_task ''t1''))"
    by (rule cc_no_task_lost [where view = "\<lambda>k. k", OF mem.redis_available_axioms _ cc_crash_records
          _ _ run e]) (simp_all add: cc_stream_facts cc_benign_def)
  then show ?thesis using run e by blast
qed

text \<open>
  C11: each message goes to exactly one consumer. Take any interleaving of publishes, reads for new
  work, reclaims and acknowledgements by any consumers of a fresh group. What the reads handed out,
  put together in order, is an initial part of the stream without duplicates, and the rest is still
  undelivered; a message that was handed out is pending or was acknowledged, and only messages that
  were handed out are ever reclaimed.
\<close>

theorem cc_exclusive_delivery:
  assumes "redis_server R view" and "cc_run R view stream grp w evs w'"
    and "ks_group (view (srv w)) stream grp = Some (new_group (ks_entries (view (srv w)) stream))"
    and "distinct (map fst (ks_entries (view (srv w)) stream))"
  shows "\<exists>gr. ks_group (view (srv w')) stream grp = Some gr \<and>
    delivered evs @ g_new gr = ks_entries (view (srv w')) stream \<and>
    distinct (map fst (delivered evs)) \<and>
    (\<forall>e \<in> set (delivered evs). e \<in> set (pel_entries gr) \<or> Acked (fst e) \<in> set evs) \<and>
    (\<forall>c es. Reclaimed c es \<in> set evs \<longrightarrow> set es \<subseteq> set (delivered evs))"
proof -
  have "cc_ledger stream grp [] (view (srv w))" using assms(3,4) by (simp add: cc_ledger_def)
  then have "cc_ledger stream grp evs (view (srv w'))"
    by (rule redis_server.cc_run_ledger [OF assms(1,2)])
  then show ?thesis by (rule cc_ledgerE) (metis distinct_append map_append)
qed

definition cc_grouped :: keyspace where
  "cc_grouped = ks_put_group ''s'' ''g'' (new_group (ks_entries cc_stream ''s'')) cc_stream"

theorem cc_exclusive_delivery_witness:
  "\<exists>w' gr. cc_run mem_redis (\<lambda>k. k) ''s'' ''g'' (cc_world cc_grouped)
      [Delivered ''a'' [(''1'', task_to_fields (cc_task ''t1''))], Acked ''1''] w' \<and>
    ks_group (srv w') ''s'' ''g'' = Some gr \<and>
    delivered [Delivered ''a'' [(''1'', task_to_fields (cc_task ''t1''))], Acked ''1''] @ g_new gr =
      ks_entries (srv w') ''s''"
proof -
  let ?w = "cc_world cc_grouped"
  obtain w1 where rd: "cc_read_new mem_redis ''s'' ''g'' ''a'' 1 0 ?w =
      (Inr [(''1'', task_to_fields (cc_task ''t1''))], w1)"
    by (simp add: cc_read_new_def bnd_def redis_call_def mem_redis_def mem_xreadgroup_def cc_grouped_def
        cc_stream_facts new_group_def)
  obtain m w2 where ak: "cc_ack mem_redis ''s'' ''g'' ''1'' w1 = (Inr m, w2)"
    unfolding cc_broker_idioms by (rule redis_available.group_ack_up [OF mem.redis_available_axioms])
  have "cc_run mem_redis (\<lambda>k. k) ''s'' ''g'' ?w [Delivered ''a'' [(''1'', task_to_fields (cc_task ''t1''))]] w1"
    using cc_run.step [OF cc_run.start cc_step.read [OF _ rd]] by simp
  then have run: "cc_run mem_redis (\<lambda>k. k) ''s'' ''g'' ?w
      [Delivered ''a'' [(''1'', task_to_fields (cc_task ''t1''))], Acked ''1''] w2"
    using cc_run.step [OF _ cc_step.ack [OF ak]] by fastforce
  then show ?thesis
    using cc_exclusive_delivery [where view = "\<lambda>k. k", OF mem.redis_server_axioms run]
    by (auto simp: cc_grouped_def cc_stream_facts)
qed

text \<open>
  C13: a consumer gets through its backlog. On a stream that was published before any group existed,
  with a handler that succeeds, \<open>k\<close> turns of \<open>count\<close> messages are enough for \<open>k * count\<close> tasks:
  the consumer returns their number, each was handled once and in stream order, and nothing is left
  undelivered or pending.
\<close>

theorem cc_consumer_drains:
  assumes "redis_available R view" and "1 \<le> count" and "logs_task lg handler"
    and "map (\<lambda>e. task_from_fields (snd e)) (ks_entries (view (srv w)) stream) = map Inr ts"
    and "distinct (map fst (ks_entries (view (srv w)) stream))"
    and "ks_group (view (srv w)) stream grp = None"
    and "length (ks_entries (view (srv w)) stream) \<le> nat count * k"
  shows "\<exists>w'. run_consumer R stream grp c handler count block_ms min_idle (replicate k (\<lambda>w. w)) w =
      (Inr (int (length (ks_entries (view (srv w)) stream))), w') \<and>
    ks_group (view (srv w')) stream grp = Some \<lparr>g_new = [], g_pel = []\<rparr> \<and>
    lg (app w') = lg (app w) @ map task_id ts"
  by (rule redis_available.run_consumer_drains [OF assms(1) logs_task_with [OF assms(3)] assms(2,4-7)])

theorem cc_consumer_drains_witness:
  "\<exists>w'. run_consumer mem_redis ''s'' ''g'' ''c'' cc_log 1 0 5000 (replicate 2 (\<lambda>w. w)) (cc_world cc_stream) =
      (Inr (int (length (ks_entries (srv (cc_world cc_stream)) ''s''))), w') \<and>
    ks_group (srv w') ''s'' ''g'' = Some \<lparr>g_new = [], g_pel = []\<rparr> \<and>
    app w' = app (cc_world cc_stream) @ map task_id [cc_task ''t1'', cc_task ''t2'']"
  by (rule cc_consumer_drains [where view = "\<lambda>k. k" and lg = "\<lambda>l. l",
        OF mem.redis_available_axioms _ cc_log_logs])
    (simp_all add: cc_stream_facts cc_tasks_parse)

text \<open>
  The bare-\<^verbatim>\<open>XREAD\<close> baseline does not share the work. Whatever the other workers do to the world
  (they cannot take anything away), each worker handles every one of the stream's tasks: it returns
  the length of the stream, and its handler ran once for each task. So \<open>N\<close> workers do \<open>N\<close> times the
  work.
\<close>

theorem cc_bare_read_broadcasts:
  assumes "redis_available R view" and "1 \<le> count" and "logs_task lg handler"
    and "\<forall>env \<in> set envs. bare_unrelated view stream lg env"
    and "map (\<lambda>e. task_from_fields (snd e)) (ks_entries (view (srv w)) stream) = map Inr ts"
    and "distinct (map fst (ks_entries (view (srv w)) stream))"
    and "''0'' \<notin> fst ` set (ks_entries (view (srv w)) stream)"
    and "length (ks_entries (view (srv w)) stream) \<le> nat count * length envs"
  shows "\<exists>w'. run_bare_read_consumer R stream c handler count envs w =
      (Inr (int (length (ks_entries (view (srv w)) stream))), w') \<and>
    lg (app w') = lg (app w) @ map task_id ts"
  using redis_available.bare_loop_reads_all [OF assms(1) logs_task_in [OF assms(3)] assms(2) _ refl assms(5,6,7), where envs = envs
      and l = "\<lparr>last_id = ''0'', bare_handled = 0\<rparr>" and m = 0 and c = c] assms(4,8)
  by (auto simp: run_bare_read_consumer_def bnd_def)

theorem cc_bare_read_broadcasts_witness:
  "\<exists>w'. run_bare_read_consumer mem_redis ''s'' ''c'' cc_log 1 [\<lambda>w. w, \<lambda>w. w] (cc_world cc_stream) =
      (Inr (int (length (ks_entries (srv (cc_world cc_stream)) ''s''))), w') \<and>
    app w' = app (cc_world cc_stream) @ map task_id [cc_task ''t1'', cc_task ''t2'']"
  by (rule cc_bare_read_broadcasts [where view = "\<lambda>k. k" and lg = "\<lambda>l. l",
        OF mem.redis_available_axioms _ cc_log_logs])
    (simp_all add: cc_stream_facts cc_tasks_parse bare_unrelated_def)

end
