(* ===== verification/PyFloat.thy ===== *)
theory PyFloat
  imports Complex_Main "HOL-Library.Log_Nat" PyText
begin

section \<open>Python floats\<close>

text \<open>
  A Python \<^verbatim>\<open>float\<close> is an IEEE 754 binary64 number. \<open>pyfloat\<close> is its value: not a number, an
  infinity (positive when the flag is set), or a rational; the sign of zero, which no comparison
  sees, is left out. An operation is the exact rational operation followed by \<open>round53\<close>: to the
  nearest number with a 53-bit significand (or the subnormal spacing), ties to the even one,
  overflowing to an infinity.
\<close>

datatype pyfloat = NaN | Infinite bool | Finite rat

fun le_zero :: "pyfloat \<Rightarrow> bool" where
  "le_zero NaN = False"
| "le_zero (Infinite pos) = (\<not> pos)"
| "le_zero (Finite q) = (q \<le> 0)"

text \<open>Comparison: nothing compares with \<^verbatim>\<open>nan\<close>.\<close>

fun fle :: "pyfloat \<Rightarrow> pyfloat \<Rightarrow> bool" where
  "fle (Finite p) (Finite q) = (p \<le> q)"
| "fle (Finite p) (Infinite pos) = pos"
| "fle (Infinite pos) (Finite q) = (\<not> pos)"
| "fle (Infinite pos) (Infinite pos') = (pos \<longrightarrow> pos')"
| "fle _ _ = False"

definition fless :: "pyfloat \<Rightarrow> pyfloat \<Rightarrow> bool" where
  "fless x y \<longleftrightarrow> fle x y \<and> \<not> fle y x"

definition is_finite :: "pyfloat \<Rightarrow> bool" where
  "is_finite x = (case x of Finite _ \<Rightarrow> True | _ \<Rightarrow> False)"

lemma fless_Finite [simp]: "fless (Finite p) (Finite q) \<longleftrightarrow> p < q"
  by (auto simp: fless_def)

text \<open>Rounding a rational to the nearest integer, ties to even.\<close>

definition round_even :: "rat \<Rightarrow> int" where
  "round_even q = (let n = \<lfloor>q\<rfloor>; d = q - of_int n in
     if d < 1 / 2 then n else if 1 / 2 < d then n + 1 else if even n then n else n + 1)"

definition pow2 :: "int \<Rightarrow> rat" where
  "pow2 e = (if 0 \<le> e then 2 ^ nat e else 1 / 2 ^ nat (- e))"

text \<open>The exponent of the leading bit of a positive rational.\<close>

definition exponent_of :: "rat \<Rightarrow> int" where
  "exponent_of q = (case quotient_of q of (n, d) \<Rightarrow>
     let e = bitlen n - bitlen d in if pow2 e \<le> q then e else e - 1)"

definition round53 :: "rat \<Rightarrow> pyfloat" where
  "round53 q = (if q = 0 then Finite 0 else
     let a = \<bar>q\<bar>; u = pow2 (max (exponent_of a - 52) (- 1074));
         v = of_int (round_even (a / u)) * u
     in if pow2 1024 \<le> v then Infinite (0 < q) else Finite (if 0 < q then v else - v))"

text \<open>Multiplication and division by a positive machine-sized integer, and \<^verbatim>\<open>int(x)\<close>.\<close>

fun mul_int :: "pyfloat \<Rightarrow> int \<Rightarrow> pyfloat" where
  "mul_int NaN k = NaN"
| "mul_int (Infinite pos) k = (if k = 0 then NaN else Infinite (pos = (0 < k)))"
| "mul_int (Finite q) k = round53 (q * of_int k)"

fun div_int :: "pyfloat \<Rightarrow> int \<Rightarrow> exn + pyfloat" where
  "div_int x k = (if k = 0 then Inl (OtherException ''ZeroDivisionError'' ''float division by zero'')
     else Inr (case x of NaN \<Rightarrow> NaN | Infinite pos \<Rightarrow> Infinite (pos = (0 < k))
       | Finite q \<Rightarrow> round53 (q / of_int k)))"

fun int_of_float :: "pyfloat \<Rightarrow> exn + int" where
  "int_of_float NaN = Inl (ValueError ''cannot convert float NaN to integer'')"
| "int_of_float (Infinite _) =
     Inl (OtherException ''OverflowError'' ''cannot convert float infinity to integer'')"
| "int_of_float (Finite q) = Inr (if 0 \<le> q then \<lfloor>q\<rfloor> else \<lceil>q\<rceil>)"

text \<open>
  \<^verbatim>\<open>str(x)\<close> and \<^verbatim>\<open>float(s)\<close>. What the code relies on is the documented round trip of the shortest
  representation, which is plain ASCII.
\<close>

record float_text =
  show_float :: "pyfloat \<Rightarrow> string"
  parse_float :: "string \<Rightarrow> exn + pyfloat"

definition float_text_ok :: "float_text \<Rightarrow> bool" where
  "float_text_ok fl \<longleftrightarrow> (\<forall>x. parse_float fl (show_float fl x) = Inr x \<and> is_ascii (show_float fl x))"

lemma round53_checks: "round53 (15 / 10 * 100) = Finite 150" "round53 0 = Finite 0"
  by code_simp+

end
