(* ===== verification/Saga.thy ===== *)
theory Saga
  imports PyFloat Redis_Client
begin

section \<open>The saga\<close>

text \<open>
  \<^verbatim>\<open>saga_pattern/\<close>: models, events, broker, the three services and the runner. An \<^verbatim>\<open>Order\<close> is a
  mutable object that the runner and the order service share, so orders live in a heap and the
  service's dictionary holds references. \<^verbatim>\<open>uuid.uuid4()\<close> draws from a sequence \<open>u\<close>. A \<^verbatim>\<open>float\<close> is a
  \<open>pyfloat\<close>; \<^verbatim>\<open>str\<close> and \<^verbatim>\<open>float\<close> on it are the two fields of \<open>float_text\<close>, of which only the
  documented round trip is used. The runner's loop gets its environment as a list, one element per
  turn.
\<close>

subsection \<open>Models and events\<close>

datatype saga_status = PENDING | PAYMENT_PROCESSING | PAID | SHIPPED | COMPLETED | CANCELLED

record order =
  order_id :: string
  customer_id :: string
  amount :: pyfloat
  status :: saga_status
  created_at :: string

definition STREAM_ORDERS :: string where
  "STREAM_ORDERS = ''saga:orders''"

definition STREAM_PAYMENTS :: string where
  "STREAM_PAYMENTS = ''saga:payments''"

definition STREAM_SHIPPING :: string where
  "STREAM_SHIPPING = ''saga:shipping''"

record order_created =
  oc_order_id :: string
  oc_customer_id :: string
  oc_amount :: string

definition order_created_to_dict :: "order_created \<Rightarrow> (string, string) dict" where
  "order_created_to_dict e =
     [(''event_type'', ''OrderCreated''), (''order_id'', oc_order_id e),
      (''customer_id'', oc_customer_id e), (''amount'', oc_amount e)]"

definition order_created_from_dict :: "(string, string) dict \<Rightarrow> exn + order_created" where
  "order_created_from_dict data =
     bndr (dict_item data ''order_id'') (\<lambda>oid.
     bndr (dict_item data ''customer_id'') (\<lambda>cid.
     bndr (dict_item data ''amount'') (\<lambda>am.
     Inr \<lparr>oc_order_id = oid, oc_customer_id = cid, oc_amount = am\<rparr>)))"

record payment_processed =
  pp_order_id :: string
  transaction_id :: string

definition payment_processed_to_dict :: "payment_processed \<Rightarrow> (string, string) dict" where
  "payment_processed_to_dict e =
     [(''event_type'', ''PaymentProcessed''), (''order_id'', pp_order_id e),
      (''transaction_id'', transaction_id e)]"

definition payment_processed_from_dict :: "(string, string) dict \<Rightarrow> exn + payment_processed" where
  "payment_processed_from_dict data =
     bndr (dict_item data ''order_id'') (\<lambda>oid.
     bndr (dict_item data ''transaction_id'') (\<lambda>tx.
     Inr \<lparr>pp_order_id = oid, transaction_id = tx\<rparr>))"

record payment_failed =
  pf_order_id :: string
  pf_reason :: string

definition payment_failed_to_dict :: "payment_failed \<Rightarrow> (string, string) dict" where
  "payment_failed_to_dict e =
     [(''event_type'', ''PaymentFailed''), (''order_id'', pf_order_id e), (''reason'', pf_reason e)]"

definition payment_failed_from_dict :: "(string, string) dict \<Rightarrow> exn + payment_failed" where
  "payment_failed_from_dict data =
     bndr (dict_item data ''order_id'') (\<lambda>oid.
     bndr (dict_item data ''reason'') (\<lambda>why.
     Inr \<lparr>pf_order_id = oid, pf_reason = why\<rparr>))"

record order_shipped =
  os_order_id :: string
  tracking_number :: string

definition order_shipped_to_dict :: "order_shipped \<Rightarrow> (string, string) dict" where
  "order_shipped_to_dict e =
     [(''event_type'', ''OrderShipped''), (''order_id'', os_order_id e),
      (''tracking_number'', tracking_number e)]"

definition order_shipped_from_dict :: "(string, string) dict \<Rightarrow> exn + order_shipped" where
  "order_shipped_from_dict data =
     bndr (dict_item data ''order_id'') (\<lambda>oid.
     bndr (dict_item data ''tracking_number'') (\<lambda>tn.
     Inr \<lparr>os_order_id = oid, tracking_number = tn\<rparr>))"

record order_cancelled =
  ox_order_id :: string
  ox_reason :: string

definition order_cancelled_to_dict :: "order_cancelled \<Rightarrow> (string, string) dict" where
  "order_cancelled_to_dict e =
     [(''event_type'', ''OrderCancelled''), (''order_id'', ox_order_id e), (''reason'', ox_reason e)]"

definition order_cancelled_from_dict :: "(string, string) dict \<Rightarrow> exn + order_cancelled" where
  "order_cancelled_from_dict data =
     bndr (dict_item data ''order_id'') (\<lambda>oid.
     bndr (dict_item data ''reason'') (\<lambda>why.
     Inr \<lparr>ox_order_id = oid, ox_reason = why\<rparr>))"

subsection \<open>Broker\<close>

record 'r saga_world = "'r world" +
  order_heap :: "nat \<Rightarrow> order"
  orders :: "(string, nat) dict"
  uuids_drawn :: nat

type_synonym ('r, 'a) saga_io = "('r saga_world, 'a) io"

definition saga_publish :: "'r redis \<Rightarrow> string \<Rightarrow> string \<Rightarrow> (string, string) dict \<Rightarrow>
    (('r, 'x) world_scheme, string) io" where
  "saga_publish R stream etype payload =
     (let fields = dict_merge [(''event_type'', etype)] payload
      in redis_call (xadd R stream fields))"

definition saga_consume :: "'r redis \<Rightarrow> string \<Rightarrow> string \<Rightarrow> (('r, 'x) world_scheme, entry list) io" where
  "saga_consume R stream last_id =
     bnd (redis_call (xread R stream last_id 100)) (\<lambda>results.
     ret (first_stream results))"

definition uuid4 :: "(nat \<Rightarrow> string) \<Rightarrow> ('r, string) saga_io" where
  "uuid4 u w = (Inr (u (uuids_drawn w)), w\<lparr>uuids_drawn := uuids_drawn w + 1\<rparr>)"

subsection \<open>Services\<close>

definition create_order :: "nat \<Rightarrow> ('r, unit) saga_io" where
  "create_order ref =
     bnd (modify (\<lambda>w. w\<lparr>orders := AList.update (order_id (order_heap w ref)) ref (orders w)\<rparr>)) (\<lambda>_.
     incr ''saga'' ''sagas_started'' 1)"

definition set_status :: "nat \<Rightarrow> saga_status \<Rightarrow> ('r, unit) saga_io" where
  "set_status ref st = modify (\<lambda>w. w\<lparr>order_heap := (order_heap w)(ref := (order_heap w ref)\<lparr>status := st\<rparr>)\<rparr>)"

definition publish_created :: "'r redis \<Rightarrow> float_text \<Rightarrow> nat \<Rightarrow> ('r, unit) saga_io" where
  "publish_created R fl ref =
     bnd (set_status ref PAYMENT_PROCESSING) (\<lambda>_ w.
       bnd (saga_publish R STREAM_ORDERS ''OrderCreated'' (order_created_to_dict
           \<lparr>oc_order_id = order_id (order_heap w ref), oc_customer_id = customer_id (order_heap w ref),
            oc_amount = show_float fl (amount (order_heap w ref))\<rparr>)) (\<lambda>_.
       ret ()) w)"

definition order_handle_payment_processed :: "payment_processed \<Rightarrow> ('r, unit) saga_io" where
  "order_handle_payment_processed ev w = (case map_of (orders w) (pp_order_id ev) of
      None \<Rightarrow> ret () w
    | Some ref \<Rightarrow> set_status ref PAID w)"

definition order_handle_payment_failed :: "'r redis \<Rightarrow> payment_failed \<Rightarrow> ('r, unit) saga_io" where
  "order_handle_payment_failed R ev w = (case map_of (orders w) (pf_order_id ev) of
      None \<Rightarrow> ret () w
    | Some ref \<Rightarrow>
        bnd (set_status ref CANCELLED) (\<lambda>_.
        bnd (incr ''saga'' ''sagas_cancelled'' 1) (\<lambda>_ w.
        bnd (saga_publish R STREAM_ORDERS ''OrderCancelled'' (order_cancelled_to_dict
          \<lparr>ox_order_id = order_id (order_heap w ref), ox_reason = pf_reason ev\<rparr>)) (\<lambda>_.
        ret ()) w)) w)"

definition order_handle_order_shipped :: "order_shipped \<Rightarrow> ('r, unit) saga_io" where
  "order_handle_order_shipped ev w = (case map_of (orders w) (os_order_id ev) of
      None \<Rightarrow> ret () w
    | Some ref \<Rightarrow>
        bnd (set_status ref COMPLETED) (\<lambda>_.
        incr ''saga'' ''sagas_completed'' 1) w)"

definition get_order :: "string \<Rightarrow> 'r saga_world \<Rightarrow> order option" where
  "get_order oid w = map_option (order_heap w) (map_of (orders w) oid)"

definition payment_handle_order_created :: "'r redis \<Rightarrow> float_text \<Rightarrow> (nat \<Rightarrow> string) \<Rightarrow> order_created \<Rightarrow>
    ('r, unit) saga_io" where
  "payment_handle_order_created R fl u ev =
     bnd (liftr (parse_float fl (oc_amount ev))) (\<lambda>am.
     if le_zero am then
       bnd (saga_publish R STREAM_PAYMENTS ''PaymentFailed'' (payment_failed_to_dict
         \<lparr>pf_order_id = oc_order_id ev, pf_reason = ''Invalid amount: '' @ oc_amount ev\<rparr>)) (\<lambda>_.
       ret ())
     else
       bnd (uuid4 u) (\<lambda>tx.
       bnd (saga_publish R STREAM_PAYMENTS ''PaymentProcessed'' (payment_processed_to_dict
         \<lparr>pp_order_id = oc_order_id ev, transaction_id = tx\<rparr>)) (\<lambda>_.
       ret ())))"

definition shipping_handle_payment_processed :: "'r redis \<Rightarrow> (nat \<Rightarrow> string) \<Rightarrow> payment_processed \<Rightarrow>
    ('r, unit) saga_io" where
  "shipping_handle_payment_processed R u ev =
     bnd (uuid4 u) (\<lambda>tn.
     bnd (saga_publish R STREAM_SHIPPING ''OrderShipped'' (order_shipped_to_dict
       \<lparr>os_order_id = pp_order_id ev, tracking_number = tn\<rparr>)) (\<lambda>_.
     ret ()))"

subsection \<open>Runner\<close>

definition terminal :: "saga_status \<Rightarrow> bool" where
  "terminal st \<longleftrightarrow> st \<in> {COMPLETED, CANCELLED}"

text \<open>
  A loop over one stream: the body gets the decoded \<^verbatim>\<open>event_type\<close> and the decoded fields; the local
  state is the stream's entry of \<^verbatim>\<open>last_ids\<close>.
\<close>

definition saga_entry :: "(string \<Rightarrow> (string, string) dict \<Rightarrow> ('r, unit) saga_io) \<Rightarrow> entry \<Rightarrow> string \<Rightarrow>
    ('r, string) saga_io" where
  "saga_entry body m last_id =
     bnd (liftr (py_decode (dict_get (snd m) ''event_type'' []))) (\<lambda>etype.
     bnd (liftr (decode_items (snd m))) (\<lambda>data.
     bnd (body etype data) (\<lambda>_.
     ret (fst m))))"

definition on_orders :: "'r redis \<Rightarrow> float_text \<Rightarrow> (nat \<Rightarrow> string) \<Rightarrow> string \<Rightarrow> (string, string) dict \<Rightarrow>
    ('r, unit) saga_io" where
  "on_orders R fl u etype data =
     (if etype = ''OrderCreated'' then
        bnd (liftr (order_created_from_dict data)) (payment_handle_order_created R fl u)
      else ret ())"

definition on_payments :: "'r redis \<Rightarrow> (nat \<Rightarrow> string) \<Rightarrow> string \<Rightarrow> (string, string) dict \<Rightarrow>
    ('r, unit) saga_io" where
  "on_payments R u etype data =
     (if etype = ''PaymentProcessed'' then
        bnd (liftr (payment_processed_from_dict data)) (\<lambda>evt.
        bnd (order_handle_payment_processed evt) (\<lambda>_.
        shipping_handle_payment_processed R u evt))
      else if etype = ''PaymentFailed'' then
        bnd (liftr (payment_failed_from_dict data)) (order_handle_payment_failed R)
      else ret ())"

definition on_shipping :: "string \<Rightarrow> (string, string) dict \<Rightarrow> ('r, unit) saga_io" where
  "on_shipping etype data =
     (if etype = ''OrderShipped'' then
        bnd (liftr (order_shipped_from_dict data)) order_handle_order_shipped
      else ret ())"

record saga_cursors =
  cur_orders :: string
  cur_payments :: string
  cur_shipping :: string

definition saga_turn :: "'r redis \<Rightarrow> float_text \<Rightarrow> (nat \<Rightarrow> string) \<Rightarrow> saga_cursors \<Rightarrow>
    ('r, saga_cursors) saga_io" where
  "saga_turn R fl u l =
     bnd (saga_consume R STREAM_ORDERS (cur_orders l)) (\<lambda>os.
     bnd (for_each (saga_entry (on_orders R fl u)) os (cur_orders l)) (\<lambda>co.
     bnd (saga_consume R STREAM_PAYMENTS (cur_payments l)) (\<lambda>ps.
     bnd (for_each (saga_entry (on_payments R u)) ps (cur_payments l)) (\<lambda>cp.
     bnd (saga_consume R STREAM_SHIPPING (cur_shipping l)) (\<lambda>ss.
     bnd (for_each (saga_entry on_shipping) ss (cur_shipping l)) (\<lambda>cs.
     ret \<lparr>cur_orders = co, cur_payments = cp, cur_shipping = cs\<rparr>))))))"

definition saga_finished :: "nat \<Rightarrow> 'r saga_world \<Rightarrow> bool" where
  "saga_finished ref w = (case get_order (order_id (order_heap w ref)) w of
      None \<Rightarrow> False
    | Some current \<Rightarrow> terminal (status current))"

fun saga_loop :: "'r redis \<Rightarrow> float_text \<Rightarrow> (nat \<Rightarrow> string) \<Rightarrow> nat \<Rightarrow>
    ('r saga_world \<Rightarrow> 'r saga_world) list \<Rightarrow> saga_cursors \<Rightarrow> ('r, unit) saga_io" where
  "saga_loop R fl u ref [] l = ret ()"
| "saga_loop R fl u ref (env # envs) l =
     bnd (modify env) (\<lambda>_.
     bnd (saga_turn R fl u l) (\<lambda>l' w.
       if saga_finished ref w then ret () w
       else saga_loop R fl u ref envs l' w))"

definition run_saga :: "'r redis \<Rightarrow> float_text \<Rightarrow> (nat \<Rightarrow> string) \<Rightarrow> nat \<Rightarrow>
    ('r saga_world \<Rightarrow> 'r saga_world) list \<Rightarrow> ('r, unit) saga_io" where
  "run_saga R fl u ref envs =
     bnd (create_order ref) (\<lambda>_.
     bnd (publish_created R fl ref) (\<lambda>_.
     saga_loop R fl u ref envs \<lparr>cur_orders = ''0'', cur_payments = ''0'', cur_shipping = ''0''\<rparr>))"

subsection \<open>Events on the streams\<close>

lemma saga_streams_distinct [simp]:
  "STREAM_ORDERS \<noteq> STREAM_PAYMENTS" "STREAM_ORDERS \<noteq> STREAM_SHIPPING"
  "STREAM_PAYMENTS \<noteq> STREAM_ORDERS" "STREAM_PAYMENTS \<noteq> STREAM_SHIPPING"
  "STREAM_SHIPPING \<noteq> STREAM_ORDERS" "STREAM_SHIPPING \<noteq> STREAM_PAYMENTS"
  by (simp_all add: STREAM_ORDERS_def STREAM_PAYMENTS_def STREAM_SHIPPING_def)

lemmas saga_to_dict_defs = order_created_to_dict_def payment_processed_to_dict_def
  payment_failed_to_dict_def order_shipped_to_dict_def order_cancelled_to_dict_def

lemmas saga_from_dict_defs = order_created_from_dict_def payment_processed_from_dict_def
  payment_failed_from_dict_def order_shipped_from_dict_def order_cancelled_from_dict_def

lemma saga_fields [simp]:
  "dict_merge [(''event_type'', ''OrderCreated'')] (order_created_to_dict oc) = order_created_to_dict oc"
  "dict_merge [(''event_type'', ''PaymentProcessed'')] (payment_processed_to_dict pp) = payment_processed_to_dict pp"
  "dict_merge [(''event_type'', ''PaymentFailed'')] (payment_failed_to_dict pf) = payment_failed_to_dict pf"
  "dict_merge [(''event_type'', ''OrderShipped'')] (order_shipped_to_dict sh) = order_shipped_to_dict sh"
  "dict_merge [(''event_type'', ''OrderCancelled'')] (order_cancelled_to_dict ox) = order_cancelled_to_dict ox"
  by (simp_all add: saga_to_dict_defs)

lemma saga_from_to_dict [simp]:
  "order_created_from_dict (order_created_to_dict oc) = Inr oc"
  "payment_processed_from_dict (payment_processed_to_dict pp) = Inr pp"
  "payment_failed_from_dict (payment_failed_to_dict pf) = Inr pf"
  "order_shipped_from_dict (order_shipped_to_dict sh) = Inr sh"
  by (simp_all add: saga_to_dict_defs saga_from_dict_defs dict_item_def)

lemma saga_etype [simp]:
  "dict_get (order_created_to_dict oc) ''event_type'' [] = ''OrderCreated''"
  "dict_get (payment_processed_to_dict pp) ''event_type'' [] = ''PaymentProcessed''"
  "dict_get (payment_failed_to_dict pf) ''event_type'' [] = ''PaymentFailed''"
  "dict_get (order_shipped_to_dict sh) ''event_type'' [] = ''OrderShipped''"
  "dict_get (order_cancelled_to_dict ox) ''event_type'' [] = ''OrderCancelled''"
  by (simp_all add: saga_to_dict_defs dict_get_def)

lemma saga_names_decode [simp]:
  "py_decode ''OrderCreated'' = Inr ''OrderCreated''"
  "py_decode ''PaymentProcessed'' = Inr ''PaymentProcessed''"
  "py_decode ''PaymentFailed'' = Inr ''PaymentFailed''" "py_decode ''OrderShipped'' = Inr ''OrderShipped''"
  "py_decode ''OrderCancelled'' = Inr ''OrderCancelled''"
  by code_simp+

lemma saga_keys_valid: "valid_utf8 ''event_type''" "valid_utf8 ''order_id''" "valid_utf8 ''customer_id''"
  "valid_utf8 ''amount''" "valid_utf8 ''transaction_id''" "valid_utf8 ''tracking_number''"
  "valid_utf8 ''reason''" "valid_utf8 ''OrderCreated''" "valid_utf8 ''PaymentProcessed''"
  "valid_utf8 ''PaymentFailed''" "valid_utf8 ''OrderShipped''" "valid_utf8 ''OrderCancelled''"
  by code_simp+

lemma decode_items_id: "decode_items raw = Inr d \<Longrightarrow> d = raw"
  by (induction raw arbitrary: d rule: decode_items.induct)
    (auto simp: bndr_Inr_iff py_decode_def split: if_splits)

lemma saga_decode:
  "valid_utf8 (oc_order_id oc) \<Longrightarrow> valid_utf8 (oc_customer_id oc) \<Longrightarrow> valid_utf8 (oc_amount oc) \<Longrightarrow>
    decode_items (order_created_to_dict oc) = Inr (order_created_to_dict oc)"
  "valid_utf8 (pp_order_id pp) \<Longrightarrow> valid_utf8 (transaction_id pp) \<Longrightarrow>
    decode_items (payment_processed_to_dict pp) = Inr (payment_processed_to_dict pp)"
  "valid_utf8 (pf_order_id pf) \<Longrightarrow> valid_utf8 (pf_reason pf) \<Longrightarrow>
    decode_items (payment_failed_to_dict pf) = Inr (payment_failed_to_dict pf)"
  "valid_utf8 (os_order_id sh) \<Longrightarrow> valid_utf8 (tracking_number sh) \<Longrightarrow>
    decode_items (order_shipped_to_dict sh) = Inr (order_shipped_to_dict sh)"
  by (rule decode_items_valid, simp add: saga_to_dict_defs saga_keys_valid)+

text \<open>\<open>is_event etype from m e\<close>: the runner reads entry \<open>m\<close> as the event \<open>e\<close>.\<close>

definition is_event :: "string \<Rightarrow> ((string, string) dict \<Rightarrow> exn + 'e) \<Rightarrow> entry \<Rightarrow> 'e \<Rightarrow> bool" where
  "is_event etype from_dict m e \<longleftrightarrow> py_decode (dict_get (snd m) ''event_type'' []) = Inr etype \<and>
     (\<exists>d. decode_items (snd m) = Inr d \<and> from_dict d = Inr e)"

lemma decode_then: "(\<exists>d. decode_items raw = Inr d \<and> from_dict d = Inr e) \<longleftrightarrow>
    (\<exists>d. decode_items raw = Inr d) \<and> from_dict raw = Inr e"
  by (metis decode_items_id)

lemma is_event_created [simp]:
  "is_event ''OrderCreated'' order_created_from_dict (i, order_created_to_dict oc) e \<longleftrightarrow>
     e = oc \<and> (\<exists>d. decode_items (order_created_to_dict oc) = Inr d)"
  "\<not> is_event ''PaymentProcessed'' fr (i, order_created_to_dict oc) e'"
  "\<not> is_event ''PaymentFailed'' fr (i, order_created_to_dict oc) e'"
  "\<not> is_event ''OrderShipped'' fr (i, order_created_to_dict oc) e'"
  by (auto simp: is_event_def decode_then)

lemma is_event_processed [simp]:
  "is_event ''PaymentProcessed'' payment_processed_from_dict (i, payment_processed_to_dict pp) e \<longleftrightarrow>
     e = pp \<and> (\<exists>d. decode_items (payment_processed_to_dict pp) = Inr d)"
  "\<not> is_event ''PaymentFailed'' fr (i, payment_processed_to_dict pp) e'"
  by (auto simp: is_event_def decode_then)

lemma is_event_failed [simp]:
  "is_event ''PaymentFailed'' payment_failed_from_dict (i, payment_failed_to_dict pf) e \<longleftrightarrow>
     e = pf \<and> (\<exists>d. decode_items (payment_failed_to_dict pf) = Inr d)"
  "\<not> is_event ''PaymentProcessed'' fr (i, payment_failed_to_dict pf) e'"
  by (auto simp: is_event_def decode_then)

lemma is_event_shipped [simp]:
  "is_event ''OrderShipped'' order_shipped_from_dict (i, order_shipped_to_dict sh) e \<longleftrightarrow>
     e = sh \<and> (\<exists>d. decode_items (order_shipped_to_dict sh) = Inr d)"
  by (auto simp: is_event_def decode_then)

lemma is_event_cancelled [simp]:
  "\<not> is_event ''OrderCreated'' fr (i, order_cancelled_to_dict ox) e'"
  by (auto simp: is_event_def)

subsection \<open>Cause and effect\<close>

text \<open>
  Every payment event goes back to an \<^verbatim>\<open>OrderCreated\<close> whose amount decided it, every shipment to a
  processed payment, and the status of an order the service holds to the event that set it.
\<close>

definition ordered :: "float_text \<Rightarrow> keyspace \<Rightarrow> string \<Rightarrow> bool \<Rightarrow> bool" where
  "ordered fl k oid refused \<longleftrightarrow> (\<exists>m \<in> set (ks_entries k STREAM_ORDERS). \<exists>oc am.
     is_event ''OrderCreated'' order_created_from_dict m oc \<and> oc_order_id oc = oid \<and>
     parse_float fl (oc_amount oc) = Inr am \<and> le_zero am = refused)"

definition charged :: "keyspace \<Rightarrow> string \<Rightarrow> bool" where
  "charged k oid \<longleftrightarrow> (\<exists>m \<in> set (ks_entries k STREAM_PAYMENTS). \<exists>pp.
     is_event ''PaymentProcessed'' payment_processed_from_dict m pp \<and> pp_order_id pp = oid)"

definition payment_refused :: "keyspace \<Rightarrow> string \<Rightarrow> bool" where
  "payment_refused k oid \<longleftrightarrow> (\<exists>m \<in> set (ks_entries k STREAM_PAYMENTS). \<exists>pf.
     is_event ''PaymentFailed'' payment_failed_from_dict m pf \<and> pf_order_id pf = oid)"

definition shipped :: "keyspace \<Rightarrow> string \<Rightarrow> bool" where
  "shipped k oid \<longleftrightarrow> (\<exists>m \<in> set (ks_entries k STREAM_SHIPPING). \<exists>sh.
     is_event ''OrderShipped'' order_shipped_from_dict m sh \<and> os_order_id sh = oid)"

fun justified :: "keyspace \<Rightarrow> string \<Rightarrow> saga_status \<Rightarrow> bool" where
  "justified k oid PAID = charged k oid"
| "justified k oid COMPLETED = shipped k oid"
| "justified k oid CANCELLED = payment_refused k oid"
| "justified k oid SHIPPED = False"
| "justified k oid _ = True"

definition saga_inv :: "float_text \<Rightarrow> keyspace \<Rightarrow> (string, nat) dict \<Rightarrow> (nat \<Rightarrow> order) \<Rightarrow> bool" where
  "saga_inv fl k os heap \<longleftrightarrow>
     (\<forall>oid. charged k oid \<longrightarrow> ordered fl k oid False) \<and>
     (\<forall>oid. payment_refused k oid \<longrightarrow> ordered fl k oid True) \<and>
     (\<forall>oid. shipped k oid \<longrightarrow> charged k oid) \<and>
     (\<forall>oid ref. map_of os oid = Some ref \<longrightarrow>
        order_id (heap ref) = oid \<and> justified k oid (status (heap ref)))"

lemma saga_monos:
  assumes "set (ks_entries k STREAM_ORDERS) \<subseteq> set (ks_entries k' STREAM_ORDERS)"
    and "set (ks_entries k STREAM_PAYMENTS) \<subseteq> set (ks_entries k' STREAM_PAYMENTS)"
    and "set (ks_entries k STREAM_SHIPPING) \<subseteq> set (ks_entries k' STREAM_SHIPPING)"
  shows "ordered fl k oid b \<Longrightarrow> ordered fl k' oid b" and "charged k oid \<Longrightarrow> charged k' oid"
    and "payment_refused k oid \<Longrightarrow> payment_refused k' oid" and "shipped k oid \<Longrightarrow> shipped k' oid"
    and "justified k oid st \<Longrightarrow> justified k' oid st"
proof -
  show "ordered fl k oid b \<Longrightarrow> ordered fl k' oid b" using assms(1) unfolding ordered_def by blast
  show c: "charged k oid \<Longrightarrow> charged k' oid" using assms(2) unfolding charged_def by blast
  show p: "payment_refused k oid \<Longrightarrow> payment_refused k' oid"
    using assms(2) unfolding payment_refused_def by blast
  show s: "shipped k oid \<Longrightarrow> shipped k' oid" using assms(3) unfolding shipped_def by blast
  show "justified k oid st \<Longrightarrow> justified k' oid st" using c p s by (cases st) auto
qed

text \<open>Appending an event keeps the invariant if the new event has its cause.\<close>

lemma saga_inv_xadd:
  assumes inv: "saga_inv fl k os heap"
    and pp: "\<And>pp. s = STREAM_PAYMENTS \<Longrightarrow> is_event ''PaymentProcessed'' payment_processed_from_dict (i, f) pp \<Longrightarrow>
      ordered fl k (pp_order_id pp) False"
    and pf: "\<And>pf. s = STREAM_PAYMENTS \<Longrightarrow> is_event ''PaymentFailed'' payment_failed_from_dict (i, f) pf \<Longrightarrow>
      ordered fl k (pf_order_id pf) True"
    and sh: "\<And>sh. s = STREAM_SHIPPING \<Longrightarrow> is_event ''OrderShipped'' order_shipped_from_dict (i, f) sh \<Longrightarrow>
      charged k (os_order_id sh)"
  shows "saga_inv fl (ks_xadd s i f k) os heap"
proof -
  let ?k = "ks_xadd s i f k"
  have mono: "set (ks_entries k s') \<subseteq> set (ks_entries ?k s')" for s' by auto
  note m = saga_monos [of k ?k, OF mono mono mono]
  have 1: "charged ?k oid \<Longrightarrow> charged k oid \<or> ordered fl k oid False" for oid
    using pp by (auto simp: charged_def split: if_splits)
  have 2: "payment_refused ?k oid \<Longrightarrow> payment_refused k oid \<or> ordered fl k oid True" for oid
    using pf by (auto simp: payment_refused_def split: if_splits)
  have 3: "shipped ?k oid \<Longrightarrow> shipped k oid \<or> charged k oid" for oid
    using sh by (auto simp: shipped_def split: if_splits)
  show ?thesis
    using inv 1 2 3 m unfolding saga_inv_def by blast
qed

lemma saga_inv_status:
  assumes "saga_inv fl k os heap" and "map_of os oid = Some ref" and "justified k oid st"
  shows "saga_inv fl k os (heap(ref := (heap ref)\<lparr>status := st\<rparr>))"
  using assms unfolding saga_inv_def by (auto, metis)

subsection \<open>Handlers and the runner keep cause and effect\<close>

definition grown :: "keyspace \<Rightarrow> keyspace \<Rightarrow> bool" where
  "grown k k' \<longleftrightarrow> (\<forall>s. set (ks_entries k s) \<subseteq> set (ks_entries k' s))"

lemma grown_refl [simp]: "grown k k"
  by (simp add: grown_def)

lemma grown_trans: "grown k k' \<Longrightarrow> grown k' k'' \<Longrightarrow> grown k k''"
  by (fastforce simp: grown_def)

lemma grown_xadd: "grown k k' \<Longrightarrow> grown k (ks_xadd s i f k')"
  by (auto simp: grown_def)

lemma grown_facts:
  assumes "grown k k'"
  shows "ordered fl k oid b \<Longrightarrow> ordered fl k' oid b" and "charged k oid \<Longrightarrow> charged k' oid"
    and "payment_refused k oid \<Longrightarrow> payment_refused k' oid" and "shipped k oid \<Longrightarrow> shipped k' oid"
  using assms saga_monos [of k k'] by (auto simp: grown_def)

definition saga_from :: "('r \<Rightarrow> keyspace) \<Rightarrow> float_text \<Rightarrow> keyspace \<Rightarrow> 'r saga_world \<Rightarrow> bool" where
  "saga_from view fl k0 w \<longleftrightarrow> saga_inv fl (view (srv w)) (orders w) (order_heap w) \<and>
     grown k0 (view (srv w))"

definition saga_benign :: "('r \<Rightarrow> keyspace) \<Rightarrow> float_text \<Rightarrow> ('r saga_world \<Rightarrow> 'r saga_world) \<Rightarrow> bool" where
  "saga_benign view fl env \<longleftrightarrow> (\<forall>w. saga_inv fl (view (srv w)) (orders w) (order_heap w) \<longrightarrow>
     saga_from view fl (view (srv w)) (env w))"

definition cursor_ok :: "keyspace \<Rightarrow> string \<Rightarrow> string \<Rightarrow> bool" where
  "cursor_ok k s c \<longleftrightarrow> c = ''0'' \<or> c \<in> fst ` set (ks_entries k s)"

lemma cursor_ok_grown: "cursor_ok k s c \<Longrightarrow> grown k k' \<Longrightarrow> cursor_ok k' s c"
  by (auto simp: cursor_ok_def grown_def)

lemma after_id_subset: "set (after_id i es) \<subseteq> set es"
proof -
  have "set (tl xs) \<subseteq> set xs" for xs :: "entry list" by (cases xs) auto
  then have "set (tl (dropWhile (\<lambda>e. fst e \<noteq> i) es)) \<subseteq> set (dropWhile (\<lambda>e. fst e \<noteq> i) es)" .
  then show ?thesis by (auto simp: after_id_def dest: set_dropWhileD)
qed

lemma set_status_saga:
  "set_status ref st w = (Inr u, w') \<Longrightarrow> saga_from view fl k0 w \<Longrightarrow> map_of (orders w) oid = Some ref \<Longrightarrow>
    justified (view (srv w)) oid st \<Longrightarrow>
    saga_from view fl k0 w' \<and> srv w' = srv w \<and> orders w' = orders w"
  by (auto simp: set_status_def saga_from_def intro: saga_inv_status)

lemma order_handle_payment_processed_saga:
  assumes "order_handle_payment_processed ev w = (Inr u, w')" and "saga_from view fl k0 w"
    and "charged (view (srv w)) (pp_order_id ev)"
  shows "saga_from view fl k0 w' \<and> srv w' = srv w"
  using assms set_status_saga [of _ PAID w u w' view fl k0 "pp_order_id ev"]
  by (auto simp: order_handle_payment_processed_def split: option.splits)

lemma order_handle_order_shipped_saga:
  assumes "order_handle_order_shipped ev w = (Inr u, w')" and "saga_from view fl k0 w"
    and "shipped (view (srv w)) (os_order_id ev)"
  shows "saga_from view fl k0 w'"
proof (cases "map_of (orders w) (os_order_id ev)")
  case None
  then show ?thesis using assms by (simp add: order_handle_order_shipped_def)
next
  case (Some ref)
  then obtain w1 where st: "set_status ref COMPLETED w = (Inr (), w1)" and "srv w' = srv w1"
    "orders w' = orders w1" "order_heap w' = order_heap w1"
    using assms(1) by (auto simp: order_handle_order_shipped_def set_status_def incr_def)
  then show ?thesis
    using set_status_saga [OF st assms(2) Some] assms(3) by (auto simp: saga_from_def)
qed

context redis_server
begin

lemma saga_publish_effect:
  assumes "saga_publish R s t p w = (Inr i, w')"
  shows "\<exists>r'. w' = w\<lparr>srv := r'\<rparr> \<and> view r' = ks_xadd s i (dict_merge [(''event_type'', t)] p) (kv w)"
  using assms unfolding saga_publish_def Let_def
  by (auto simp: redis_call_eq_iff dest!: xadd_law)

lemma saga_consume_effect:
  assumes "saga_consume R s c w = (Inr es, w')" and "cursor_ok (kv w) s c"
  shows "\<exists>r'. w' = w\<lparr>srv := r'\<rparr> \<and> view r' = kv w \<and> es = take 100 (after_id c (ks_entries (kv w) s))"
proof -
  obtain rep r' where rd: "xread R s c 100 (srv w) = (Inr rep, r')" and "es = first_stream rep"
    "w' = w\<lparr>srv := r'\<rparr>"
    using assms(1) unfolding saga_consume_def by (auto elim!: bnd_InrE simp: redis_call_eq_iff)
  then show ?thesis using xread_law [OF rd] assms(2)
    by (intro exI [of _ r']) (simp add: cursor_ok_def)
qed

lemma payment_handle_saga:
  assumes run: "payment_handle_order_created R fl u ev w = (Inr x, w')" and ok: "saga_from view fl k0 w"
    and ord: "\<And>am. parse_float fl (oc_amount ev) = Inr am \<Longrightarrow> ordered fl (kv w) (oc_order_id ev) (le_zero am)"
  shows "saga_from view fl k0 w'"
proof -
  obtain am where am: "parse_float fl (oc_amount ev) = Inr am"
    using run unfolding payment_handle_order_created_def by (auto elim: bnd_InrE)
  show ?thesis
  proof (cases "le_zero am")
    case True
    then obtain i where "saga_publish R STREAM_PAYMENTS ''PaymentFailed'' (payment_failed_to_dict
        \<lparr>pf_order_id = oc_order_id ev, pf_reason = ''Invalid amount: '' @ oc_amount ev\<rparr>) w = (Inr i, w')"
      using run unfolding payment_handle_order_created_def am by (auto elim: bnd_InrE)
    from saga_publish_effect [OF this] show ?thesis
      using ok ord [OF am] True by (auto simp: saga_from_def intro!: saga_inv_xadd grown_xadd)
  next
    case False
    then obtain i w1 tx where "uuid4 u w = (Inr tx, w1)" and "saga_publish R STREAM_PAYMENTS
        ''PaymentProcessed'' (payment_processed_to_dict \<lparr>pp_order_id = oc_order_id ev, transaction_id = tx\<rparr>)
        w1 = (Inr i, w')"
      using run unfolding payment_handle_order_created_def am by (auto elim!: bnd_InrE)
    with saga_publish_effect [OF this(2)] show ?thesis
      using ok ord [OF am] False
      by (auto simp: saga_from_def uuid4_def intro!: saga_inv_xadd grown_xadd)
  qed
qed

lemma shipping_handle_saga:
  assumes run: "shipping_handle_payment_processed R u ev w = (Inr x, w')" and ok: "saga_from view fl k0 w"
    and "charged (kv w) (pp_order_id ev)"
  shows "saga_from view fl k0 w'"
proof -
  obtain i w1 tn where "uuid4 u w = (Inr tn, w1)" and "saga_publish R STREAM_SHIPPING ''OrderShipped''
      (order_shipped_to_dict \<lparr>os_order_id = pp_order_id ev, tracking_number = tn\<rparr>) w1 = (Inr i, w')"
    using run unfolding shipping_handle_payment_processed_def by (auto elim!: bnd_InrE)
  with saga_publish_effect [OF this(2)] show ?thesis
    using ok assms(3) by (auto simp: saga_from_def uuid4_def intro!: saga_inv_xadd grown_xadd)
qed

lemma order_handle_payment_failed_saga:
  assumes run: "order_handle_payment_failed R ev w = (Inr x, w')" and ok: "saga_from view fl k0 w"
    and ref: "payment_refused (kv w) (pf_order_id ev)"
  shows "saga_from view fl k0 w'"
proof (cases "map_of (orders w) (pf_order_id ev)")
  case None
  then show ?thesis using run ok by (simp add: order_handle_payment_failed_def)
next
  case (Some ref1)
  define w1 where "w1 = w\<lparr>order_heap := (order_heap w)(ref1 := (order_heap w ref1)\<lparr>status := CANCELLED\<rparr>)\<rparr>"
  have st: "set_status ref1 CANCELLED w = (Inr (), w1)" by (simp add: set_status_def w1_def)
  define w2 where "w2 = w1\<lparr>reg := increment ''saga'' ''sagas_cancelled'' 1 (wall w1) (reg w1)\<rparr>"
  have w2: "srv w2 = srv w1" "orders w2 = orders w1" "order_heap w2 = order_heap w1"
    by (simp_all add: w2_def)
  have "bnd (saga_publish R STREAM_ORDERS ''OrderCancelled'' (order_cancelled_to_dict
      \<lparr>ox_order_id = order_id (order_heap w2 ref1), ox_reason = pf_reason ev\<rparr>)) (\<lambda>_. ret ()) w2 = (Inr x, w')"
    using run Some by (simp add: order_handle_payment_failed_def bnd_def st incr_def w2_def)
  then obtain i where pub: "saga_publish R STREAM_ORDERS ''OrderCancelled'' (order_cancelled_to_dict
      \<lparr>ox_order_id = order_id (order_heap w2 ref1), ox_reason = pf_reason ev\<rparr>) w2 = (Inr i, w')"
    by (auto elim!: bnd_InrE)
  have "saga_from view fl k0 w1 \<and> srv w1 = srv w"
    using set_status_saga [OF st ok Some] ref by simp
  then show ?thesis
    using saga_publish_effect [OF pub] w2 by (auto simp: saga_from_def intro!: saga_inv_xadd grown_xadd)
qed

end

context redis_server
begin

text \<open>One entry: what the body does keeps cause and effect, and the cursor moves to the entry.\<close>

lemma saga_entry_run:
  assumes "saga_entry body m c w = (Inr c', w')"
  obtains etype d where "py_decode (dict_get (snd m) ''event_type'' []) = Inr etype"
    and "decode_items (snd m) = Inr d" and "body etype d w = (Inr (), w')" and "c' = fst m"
  using assms unfolding saga_entry_def by (auto elim!: bnd_InrE)

lemma saga_stream_loop:
  assumes run: "for_each (saga_entry body) es c w = (Inr c', w')"
    and ok: "saga_from view fl k0 w" and es: "set es \<subseteq> set (ks_entries (kv w) s)"
    and cur: "cursor_ok (kv w) s c"
    and body: "\<And>m etype d w w'. m \<in> set (ks_entries (kv w) s) \<Longrightarrow> saga_from view fl k0 w \<Longrightarrow>
      py_decode (dict_get (snd m) ''event_type'' []) = Inr etype \<Longrightarrow> decode_items (snd m) = Inr d \<Longrightarrow>
      body etype d w = (Inr (), w') \<Longrightarrow> saga_from view fl k0 w' \<and> grown (kv w) (kv w')"
  shows "saga_from view fl k0 w' \<and> grown (kv w) (kv w') \<and> cursor_ok (kv w') s c'"
proof -
  have "saga_from view fl k0 w' \<and> grown (kv w) (kv w') \<and> cursor_ok (kv w') s c'"
  proof (rule for_each_invariant [where P = "\<lambda>c w1. saga_from view fl k0 w1 \<and> grown (kv w) (kv w1) \<and>
      cursor_ok (kv w1) s c", OF _ run])
    fix x c1 w1 c2 w2
    assume x: "x \<in> set es" and P: "saga_from view fl k0 w1 \<and> grown (kv w) (kv w1) \<and> cursor_ok (kv w1) s c1"
      and step: "saga_entry body x c1 w1 = (Inr c2, w2)"
    have xin: "x \<in> set (ks_entries (kv w1) s)" using x es P by (auto simp: grown_def)
    obtain etype d where b: "py_decode (dict_get (snd x) ''event_type'' []) = Inr etype"
      "decode_items (snd x) = Inr d" "body etype d w1 = (Inr (), w2)" "c2 = fst x"
      using step by (rule saga_entry_run)
    have "saga_from view fl k0 w2 \<and> grown (kv w1) (kv w2)"
      using body [OF xin _ b(1,2,3)] P by blast
    moreover from this xin have "cursor_ok (kv w2) s c2" by (auto simp: cursor_ok_def grown_def b(4))
    ultimately show "saga_from view fl k0 w2 \<and> grown (kv w) (kv w2) \<and> cursor_ok (kv w2) s c2"
      using P grown_trans by blast
  qed (use ok cur in simp)
  then show ?thesis .
qed

text \<open>With \<open>k0\<close> the state before the step, keeping \<open>saga_from\<close> also says that streams only grow.\<close>

lemma on_orders_saga:
  assumes m: "m \<in> set (ks_entries (kv w) STREAM_ORDERS)"
    and d: "py_decode (dict_get (snd m) ''event_type'' []) = Inr etype" "decode_items (snd m) = Inr d"
    and run: "on_orders R fl u etype d w = (Inr (), w')" and ok: "saga_from view fl k0 w"
  shows "saga_from view fl k0 w'"
proof (cases "etype = ''OrderCreated''")
  case True
  then obtain oc where oc: "order_created_from_dict d = Inr oc"
    and pay: "payment_handle_order_created R fl u oc w = (Inr (), w')"
    using run by (auto simp: on_orders_def elim!: bnd_InrE)
  have "is_event ''OrderCreated'' order_created_from_dict m oc" using d oc True by (simp add: is_event_def)
  then have "ordered fl (kv w) (oc_order_id oc) (le_zero am)" if "parse_float fl (oc_amount oc) = Inr am" for am
    using m that by (auto simp: ordered_def)
  then show ?thesis by (rule payment_handle_saga [OF pay ok])
next
  case False
  then show ?thesis using run ok by (simp add: on_orders_def)
qed

lemma on_payments_saga:
  assumes m: "m \<in> set (ks_entries (kv w) STREAM_PAYMENTS)"
    and d: "py_decode (dict_get (snd m) ''event_type'' []) = Inr etype" "decode_items (snd m) = Inr d"
    and run: "on_payments R u etype d w = (Inr (), w')" and ok: "saga_from view fl k0 w"
  shows "saga_from view fl k0 w'"
proof (cases "etype = ''PaymentProcessed''")
  case True
  then obtain pp w1 where pp: "payment_processed_from_dict d = Inr pp"
    and ord: "order_handle_payment_processed pp w = (Inr (), w1)"
    and shp: "shipping_handle_payment_processed R u pp w1 = (Inr (), w')"
    using run by (auto simp: on_payments_def elim!: bnd_InrE)
  have "charged (kv w) (pp_order_id pp)" using m d pp True by (auto simp: charged_def is_event_def)
  then show ?thesis
    using order_handle_payment_processed_saga [OF ord ok] shipping_handle_saga [OF shp] by simp
next
  case False
  show ?thesis
  proof (cases "etype = ''PaymentFailed''")
    case True
    then obtain pf where pf: "payment_failed_from_dict d = Inr pf"
      and ord: "order_handle_payment_failed R pf w = (Inr (), w')"
      using run by (auto simp: on_payments_def elim!: bnd_InrE)
    have "payment_refused (kv w) (pf_order_id pf)"
      using m d pf True by (auto simp: payment_refused_def is_event_def)
    then show ?thesis by (rule order_handle_payment_failed_saga [OF ord ok])
  next
    case False
    with \<open>etype \<noteq> ''PaymentProcessed''\<close> show ?thesis using run ok by (simp add: on_payments_def)
  qed
qed

lemma on_shipping_saga:
  assumes m: "m \<in> set (ks_entries (kv w) STREAM_SHIPPING)"
    and d: "py_decode (dict_get (snd m) ''event_type'' []) = Inr etype" "decode_items (snd m) = Inr d"
    and run: "on_shipping etype d w = (Inr (), w')" and ok: "saga_from view fl k0 w"
  shows "saga_from view fl k0 w'"
proof (cases "etype = ''OrderShipped''")
  case True
  then obtain sh where sh: "order_shipped_from_dict d = Inr sh"
    and ord: "order_handle_order_shipped sh w = (Inr (), w')"
    using run by (auto simp: on_shipping_def elim!: bnd_InrE)
  have "shipped (kv w) (os_order_id sh)" using m d sh True by (auto simp: shipped_def is_event_def)
  then show ?thesis by (rule order_handle_order_shipped_saga [OF ord ok])
next
  case False
  then show ?thesis using run ok by (simp add: on_shipping_def)
qed

text \<open>One phase of a turn: read a stream at its cursor, handle the entries.\<close>

lemma saga_phase:
  assumes read: "saga_consume R s c w = (Inr es, w1)"
    and each: "for_each (saga_entry body) es c w1 = (Inr c', w')"
    and inv: "saga_inv fl (kv w) (orders w) (order_heap w)" and cur: "cursor_ok (kv w) s c"
    and body: "\<And>k0 m etype d w w'. m \<in> set (ks_entries (kv w) s) \<Longrightarrow>
      py_decode (dict_get (snd m) ''event_type'' []) = Inr etype \<Longrightarrow> decode_items (snd m) = Inr d \<Longrightarrow>
      body etype d w = (Inr (), w') \<Longrightarrow> saga_from view fl k0 w \<Longrightarrow> saga_from view fl k0 w'"
  shows "saga_inv fl (kv w') (orders w') (order_heap w') \<and> grown (kv w) (kv w') \<and> cursor_ok (kv w') s c'"
proof -
  obtain r' where w1: "w1 = w\<lparr>srv := r'\<rparr>" "view r' = kv w"
    and es: "es = take 100 (after_id c (ks_entries (kv w) s))"
    using saga_consume_effect [OF read cur] by auto
  have sub: "set es \<subseteq> set (ks_entries (kv w1) s)"
    using after_id_subset [of c "ks_entries (kv w) s"] w1 es by (auto dest: in_set_takeD)
  have "saga_from view fl (kv w1) w' \<and> grown (kv w1) (kv w') \<and> cursor_ok (kv w') s c'"
  proof (rule saga_stream_loop [OF each _ sub])
    show "saga_from view fl (kv w1) w1" using inv w1 by (simp add: saga_from_def)
    show "cursor_ok (kv w1) s c" using cur w1 by simp
    fix m etype d w w'
    assume a: "m \<in> set (ks_entries (kv w) s)" "saga_from view fl (kv w1) w"
      "py_decode (dict_get (snd m) ''event_type'' []) = Inr etype" "decode_items (snd m) = Inr d"
      "body etype d w = (Inr (), w')"
    have "saga_from view fl (kv w) w" using a(2) by (simp add: saga_from_def)
    then have "saga_from view fl (kv w) w'" using body [OF a(1,3-5)] by blast
    then show "saga_from view fl (kv w1) w' \<and> grown (kv w) (kv w')"
      using body [OF a(1,3-5,2)] by (simp add: saga_from_def)
  qed
  then show ?thesis using w1 by (simp add: saga_from_def)
qed

definition cursors_ok :: "keyspace \<Rightarrow> saga_cursors \<Rightarrow> bool" where
  "cursors_ok k l \<longleftrightarrow> cursor_ok k STREAM_ORDERS (cur_orders l) \<and>
     cursor_ok k STREAM_PAYMENTS (cur_payments l) \<and> cursor_ok k STREAM_SHIPPING (cur_shipping l)"

lemma saga_turn_inv:
  assumes run: "saga_turn R fl u l w = (Inr l', w')"
    and inv: "saga_inv fl (kv w) (orders w) (order_heap w)" and cur: "cursors_ok (kv w) l"
  shows "saga_inv fl (kv w') (orders w') (order_heap w') \<and> grown (kv w) (kv w') \<and> cursors_ok (kv w') l'"
proof -
  obtain es1 es2 es3 w1 w2 w3 w4 w5 co cp cs where
    1: "saga_consume R STREAM_ORDERS (cur_orders l) w = (Inr es1, w1)"
      "for_each (saga_entry (on_orders R fl u)) es1 (cur_orders l) w1 = (Inr co, w2)" and
    2: "saga_consume R STREAM_PAYMENTS (cur_payments l) w2 = (Inr es2, w3)"
      "for_each (saga_entry (on_payments R u)) es2 (cur_payments l) w3 = (Inr cp, w4)" and
    3: "saga_consume R STREAM_SHIPPING (cur_shipping l) w4 = (Inr es3, w5)"
      "for_each (saga_entry on_shipping) es3 (cur_shipping l) w5 = (Inr cs, w')" and
    l': "l' = \<lparr>cur_orders = co, cur_payments = cp, cur_shipping = cs\<rparr>"
    using run unfolding saga_turn_def by (auto elim!: bnd_InrE)
  have c: "cursor_ok (kv w) STREAM_ORDERS (cur_orders l)" "cursor_ok (kv w) STREAM_PAYMENTS (cur_payments l)"
    "cursor_ok (kv w) STREAM_SHIPPING (cur_shipping l)" using cur by (simp_all add: cursors_ok_def)
  have p1: "saga_inv fl (kv w2) (orders w2) (order_heap w2) \<and> grown (kv w) (kv w2) \<and>
      cursor_ok (kv w2) STREAM_ORDERS co"
    by (rule saga_phase [OF 1 inv c(1)]) (rule on_orders_saga)
  have p2: "saga_inv fl (kv w4) (orders w4) (order_heap w4) \<and> grown (kv w2) (kv w4) \<and>
      cursor_ok (kv w4) STREAM_PAYMENTS cp"
    by (rule saga_phase [OF 2]) (use p1 c cursor_ok_grown in \<open>blast intro: on_payments_saga\<close>)+
  have p3: "saga_inv fl (kv w') (orders w') (order_heap w') \<and> grown (kv w4) (kv w') \<and>
      cursor_ok (kv w') STREAM_SHIPPING cs"
    by (rule saga_phase [OF 3]) (use p1 p2 c cursor_ok_grown grown_trans in \<open>blast intro: on_shipping_saga\<close>)+
  have "grown (kv w2) (kv w')" using p2 p3 grown_trans by blast
  then have "grown (kv w) (kv w')" "cursor_ok (kv w') STREAM_ORDERS co" "cursor_ok (kv w') STREAM_PAYMENTS cp"
    using p1 p2 p3 grown_trans cursor_ok_grown by blast+
  then show ?thesis using p3 by (simp add: cursors_ok_def l')
qed

lemma saga_loop_inv:
  assumes "saga_loop R fl u ref envs l w = (Inr x, w')" and "\<forall>env \<in> set envs. saga_benign view fl env"
    and "saga_inv fl (kv w) (orders w) (order_heap w)" and "cursors_ok (kv w) l"
  shows "saga_inv fl (kv w') (orders w') (order_heap w')"
  using assms
proof (induction envs arbitrary: l w)
  case Nil
  then show ?case by simp
next
  case (Cons env envs)
  obtain l1 w1 where turn: "saga_turn R fl u l (env w) = (Inr l1, w1)"
    and rest: "(if saga_finished ref w1 then ret () w1 else saga_loop R fl u ref envs l1 w1) = (Inr x, w')"
    using Cons.prems(1) by (auto elim!: bnd_InrE)
  have "saga_from view fl (kv w) (env w)" using Cons.prems(2,3) by (auto simp: saga_benign_def)
  then have "saga_inv fl (kv (env w)) (orders (env w)) (order_heap (env w))" "cursors_ok (kv (env w)) l"
    using Cons.prems(4) cursor_ok_grown by (auto simp: saga_from_def cursors_ok_def)
  note s = saga_turn_inv [OF turn this]
  show ?case
  proof (cases "saga_finished ref w1")
    case True
    then show ?thesis using rest s by auto
  next
    case False
    then show ?thesis using Cons.IH [of l1 w1] rest s Cons.prems(2) by simp
  qed
qed

lemma run_saga_inv:
  assumes run: "run_saga R fl u ref envs w = (Inr x, w')"
    and envs: "\<forall>env \<in> set envs. saga_benign view fl env"
    and inv: "saga_inv fl (kv w) (orders w) (order_heap w)" and new: "status (order_heap w ref) = PENDING"
  shows "saga_inv fl (kv w') (orders w') (order_heap w')"
proof -
  define w1 where "w1 = w\<lparr>orders := AList.update (order_id (order_heap w ref)) ref (orders w),
    reg := increment ''saga'' ''sagas_started'' 1 (wall w) (reg w),
    order_heap := (order_heap w)(ref := (order_heap w ref)\<lparr>status := PAYMENT_PROCESSING\<rparr>)\<rparr>"
  obtain i w2 where pub: "saga_publish R STREAM_ORDERS ''OrderCreated'' (order_created_to_dict
      \<lparr>oc_order_id = order_id (order_heap w1 ref), oc_customer_id = customer_id (order_heap w1 ref),
       oc_amount = show_float fl (amount (order_heap w1 ref))\<rparr>) w1 = (Inr i, w2)"
    and loop: "saga_loop R fl u ref envs \<lparr>cur_orders = ''0'', cur_payments = ''0'', cur_shipping = ''0''\<rparr> w2 =
      (Inr x, w')"
    using run unfolding run_saga_def create_order_def publish_created_def set_status_def
    by (auto elim!: bnd_InrE simp: w1_def incr_def)
  have "saga_inv fl (kv w1) (orders w1) (order_heap w1)"
    using inv new unfolding saga_inv_def w1_def by auto
  then have "saga_inv fl (kv w2) (orders w2) (order_heap w2)"
    using saga_publish_effect [OF pub] by (auto intro!: saga_inv_xadd)
  then show ?thesis
    by (rule saga_loop_inv [OF loop envs]) (simp add: cursors_ok_def cursor_ok_def)
qed

end

subsection \<open>A saga on empty streams\<close>

definition saga_order_ok :: "order \<Rightarrow> bool" where
  "saga_order_ok o1 \<longleftrightarrow> valid_utf8 (order_id o1) \<and> valid_utf8 (customer_id o1)"

definition created_event :: "float_text \<Rightarrow> order \<Rightarrow> order_created" where
  "created_event fl o1 = \<lparr>oc_order_id = order_id o1, oc_customer_id = customer_id o1,
     oc_amount = show_float fl (amount o1)\<rparr>"

lemma created_event_decodes:
  "saga_order_ok o1 \<Longrightarrow> float_text_ok fl \<Longrightarrow>
    decode_items (order_created_to_dict (created_event fl o1)) = Inr (order_created_to_dict (created_event fl o1))"
  by (rule saga_decode(1)) (simp_all add: saga_order_ok_def created_event_def float_text_ok_def valid_utf8_ascii)

lemma created_event_parses:
  "float_text_ok fl \<Longrightarrow> parse_float fl (oc_amount (created_event fl o1)) = Inr (amount o1)"
  by (simp add: created_event_def float_text_ok_def)

lemma after_id_zero [simp]: "after_id ''0'' es = es"
  by (simp add: after_id_def)

lemma for_each_saga_single:
  "for_each (saga_entry body) [(i, f)] c w = saga_entry body (i, f) c w"
  by (simp add: bnd_def split: prod.splits sum.splits)

lemma saga_entry_step:
  assumes "py_decode (dict_get f ''event_type'' []) = Inr etype" and "decode_items f = Inr d"
    and "body etype d w = (Inr (), w')"
  shows "saga_entry body (i, f) c w = (Inr i, w')"
  using assms by (simp add: saga_entry_def bnd_def)

lemma valid_utf8_append: "is_ascii s \<Longrightarrow> valid_utf8 t \<Longrightarrow> valid_utf8 (s @ t)"
  by (induction s) auto

context redis_available
begin

lemma saga_publish_up:
  obtains i r' where "saga_publish R s t p w = (Inr i, w\<lparr>srv := r'\<rparr>)"
    and "view r' = ks_xadd s i (dict_merge [(''event_type'', t)] p) (kv w)"
proof -
  have "map_of (dict_merge [(''event_type'', t)] p) ''event_type'' \<noteq> None"
  proof -
    have "map_of d k \<noteq> None \<Longrightarrow> map_of (dict_merge d p) k \<noteq> None" for d :: fields and k
      by (induction p arbitrary: d) (auto split: prod.splits)
    then show ?thesis by simp
  qed
  then have "dict_merge [(''event_type'', t)] p \<noteq> []" by auto
  then obtain i r' where add: "xadd R s (dict_merge [(''event_type'', t)] p) (srv w) = (Inr i, r')"
    using xadd_up by blast
  then have "saga_publish R s t p w = (Inr i, w\<lparr>srv := r'\<rparr>)"
    by (simp add: saga_publish_def redis_call_def Let_def)
  then show ?thesis using that xadd_law [OF add] by blast
qed

lemma saga_consume_up:
  assumes "cursor_ok (kv w) s c"
  obtains w' where "saga_consume R s c w = (Inr (take 100 (after_id c (ks_entries (kv w) s))), w')"
    and "kv w' = kv w" and "app w' = app w"
proof -
  obtain rep r' where "xread R s c 100 (srv w) = (Inr rep, r')" using xread_up [of 100] by fastforce
  then have run: "saga_consume R s c w = (Inr (first_stream rep), w\<lparr>srv := r'\<rparr>)"
    by (simp add: saga_consume_def bnd_def redis_call_def)
  obtain r2 where r2: "w\<lparr>srv := r'\<rparr> = w\<lparr>srv := r2\<rparr>" "view r2 = kv w"
    "first_stream rep = take 100 (after_id c (ks_entries (kv w) s))"
    using saga_consume_effect [OF run assms] by auto
  have "r' = r2" using arg_cong [OF r2(1), of srv] by simp
  then have "kv (w\<lparr>srv := r'\<rparr>) = kv w \<and> first_stream rep = take 100 (after_id c (ks_entries (kv w) s))"
    using r2 by simp
  then show ?thesis using that [of "w\<lparr>srv := r'\<rparr>"] run by auto
qed

text \<open>
  One lemma per handler on the events of this order: what it appends and what it does to the
  service's orders.
\<close>

lemma saga_fields_same: "app w' = app w \<Longrightarrow> orders w' = orders w \<and> order_heap w' = order_heap w \<and>
    uuids_drawn w' = uuids_drawn w"
  by (cases w; cases w') simp

lemma saga_paid:
  assumes ok: "float_text_ok fl" and am: "\<not> le_zero (amount o1)"
  obtains w' i where "on_orders R fl u ''OrderCreated'' (order_created_to_dict (created_event fl o1)) w = (Inr (), w')"
    and "kv w' = ks_xadd STREAM_PAYMENTS i (payment_processed_to_dict
      \<lparr>pp_order_id = order_id o1, transaction_id = u (uuids_drawn w)\<rparr>) (kv w)"
    and "orders w' = orders w" and "order_heap w' = order_heap w"
proof -
  let ?w = "w\<lparr>uuids_drawn := uuids_drawn w + 1\<rparr>"
  obtain i r' where "saga_publish R STREAM_PAYMENTS ''PaymentProcessed'' (payment_processed_to_dict
      \<lparr>pp_order_id = order_id o1, transaction_id = u (uuids_drawn w)\<rparr>) ?w = (Inr i, ?w\<lparr>srv := r'\<rparr>)"
    and k: "view r' = ks_xadd STREAM_PAYMENTS i (payment_processed_to_dict
      \<lparr>pp_order_id = order_id o1, transaction_id = u (uuids_drawn w)\<rparr>) (kv w)"
    by (rule saga_publish_up [of STREAM_PAYMENTS "''PaymentProcessed''" "payment_processed_to_dict
      \<lparr>pp_order_id = order_id o1, transaction_id = u (uuids_drawn w)\<rparr>" ?w]) simp
  then have "on_orders R fl u ''OrderCreated'' (order_created_to_dict (created_event fl o1)) w =
      (Inr (), ?w\<lparr>srv := r'\<rparr>)"
    using am created_event_parses [OF ok, of o1]
    by (simp add: on_orders_def payment_handle_order_created_def bnd_def uuid4_def)
      (simp add: created_event_def)
  then show ?thesis using that k by simp
qed

lemma saga_refused:
  assumes ok: "float_text_ok fl" and am: "le_zero (amount o1)"
  obtains w' i where "on_orders R fl u ''OrderCreated'' (order_created_to_dict (created_event fl o1)) w = (Inr (), w')"
    and "kv w' = ks_xadd STREAM_PAYMENTS i (payment_failed_to_dict \<lparr>pf_order_id = order_id o1,
      pf_reason = ''Invalid amount: '' @ show_float fl (amount o1)\<rparr>) (kv w)"
    and "orders w' = orders w" and "order_heap w' = order_heap w"
proof -
  obtain i r' where "saga_publish R STREAM_PAYMENTS ''PaymentFailed'' (payment_failed_to_dict
      \<lparr>pf_order_id = order_id o1, pf_reason = ''Invalid amount: '' @ show_float fl (amount o1)\<rparr>) w =
      (Inr i, w\<lparr>srv := r'\<rparr>)"
    and k: "view r' = ks_xadd STREAM_PAYMENTS i (payment_failed_to_dict \<lparr>pf_order_id = order_id o1,
      pf_reason = ''Invalid amount: '' @ show_float fl (amount o1)\<rparr>) (kv w)"
    by (rule saga_publish_up [of STREAM_PAYMENTS "''PaymentFailed''" "payment_failed_to_dict
      \<lparr>pf_order_id = order_id o1, pf_reason = ''Invalid amount: '' @ show_float fl (amount o1)\<rparr>" w]) simp
  then have "on_orders R fl u ''OrderCreated'' (order_created_to_dict (created_event fl o1)) w =
      (Inr (), w\<lparr>srv := r'\<rparr>)"
    using am created_event_parses [OF ok, of o1]
    by (simp add: on_orders_def payment_handle_order_created_def bnd_def)
      (simp add: created_event_def)
  then show ?thesis using that k by simp
qed

lemma saga_shipping:
  assumes ref: "map_of (orders w) (pp_order_id pp) = Some ref"
  obtains w' i where "on_payments R u ''PaymentProcessed'' (payment_processed_to_dict pp) w = (Inr (), w')"
    and "kv w' = ks_xadd STREAM_SHIPPING i (order_shipped_to_dict
      \<lparr>os_order_id = pp_order_id pp, tracking_number = u (uuids_drawn w)\<rparr>) (kv w)"
    and "orders w' = orders w"
    and "order_heap w' = (order_heap w)(ref := (order_heap w ref)\<lparr>status := PAID\<rparr>)"
proof -
  let ?w = "w\<lparr>order_heap := (order_heap w)(ref := (order_heap w ref)\<lparr>status := PAID\<rparr>),
    uuids_drawn := uuids_drawn w + 1\<rparr>"
  obtain i r' where "saga_publish R STREAM_SHIPPING ''OrderShipped'' (order_shipped_to_dict
      \<lparr>os_order_id = pp_order_id pp, tracking_number = u (uuids_drawn w)\<rparr>) ?w = (Inr i, ?w\<lparr>srv := r'\<rparr>)"
    and k: "view r' = ks_xadd STREAM_SHIPPING i (order_shipped_to_dict
      \<lparr>os_order_id = pp_order_id pp, tracking_number = u (uuids_drawn w)\<rparr>) (kv w)"
    by (rule saga_publish_up [of STREAM_SHIPPING "''OrderShipped''" "order_shipped_to_dict
      \<lparr>os_order_id = pp_order_id pp, tracking_number = u (uuids_drawn w)\<rparr>" ?w]) simp
  then have "on_payments R u ''PaymentProcessed'' (payment_processed_to_dict pp) w = (Inr (), ?w\<lparr>srv := r'\<rparr>)"
    using ref by (simp add: on_payments_def order_handle_payment_processed_def set_status_def
        shipping_handle_payment_processed_def bnd_def uuid4_def)
  then show ?thesis using that k by simp
qed

lemma saga_compensated:
  assumes ref: "map_of (orders w) (pf_order_id pf) = Some ref"
  obtains w' i where "on_payments R u ''PaymentFailed'' (payment_failed_to_dict pf) w = (Inr (), w')"
    and "kv w' = ks_xadd STREAM_ORDERS i (order_cancelled_to_dict
      \<lparr>ox_order_id = order_id (order_heap w ref), ox_reason = pf_reason pf\<rparr>) (kv w)"
    and "orders w' = orders w"
    and "order_heap w' = (order_heap w)(ref := (order_heap w ref)\<lparr>status := CANCELLED\<rparr>)"
proof -
  let ?w = "w\<lparr>order_heap := (order_heap w)(ref := (order_heap w ref)\<lparr>status := CANCELLED\<rparr>),
    reg := increment ''saga'' ''sagas_cancelled'' 1 (wall w) (reg w)\<rparr>"
  obtain i r' where "saga_publish R STREAM_ORDERS ''OrderCancelled'' (order_cancelled_to_dict
      \<lparr>ox_order_id = order_id (order_heap w ref), ox_reason = pf_reason pf\<rparr>) ?w = (Inr i, ?w\<lparr>srv := r'\<rparr>)"
    and k: "view r' = ks_xadd STREAM_ORDERS i (order_cancelled_to_dict
      \<lparr>ox_order_id = order_id (order_heap w ref), ox_reason = pf_reason pf\<rparr>) (kv w)"
    by (rule saga_publish_up [of STREAM_ORDERS "''OrderCancelled''" "order_cancelled_to_dict
      \<lparr>ox_order_id = order_id (order_heap w ref), ox_reason = pf_reason pf\<rparr>" ?w]) simp
  then have "on_payments R u ''PaymentFailed'' (payment_failed_to_dict pf) w = (Inr (), ?w\<lparr>srv := r'\<rparr>)"
    using ref by (simp add: on_payments_def order_handle_payment_failed_def set_status_def bnd_def incr_def)
  then show ?thesis using that k by simp
qed

lemma saga_completed:
  assumes ref: "map_of (orders w) (os_order_id sh) = Some ref"
  obtains w' where "on_shipping ''OrderShipped'' (order_shipped_to_dict sh) w = (Inr (), w')"
    and "kv w' = kv w" and "orders w' = orders w"
    and "order_heap w' = (order_heap w)(ref := (order_heap w ref)\<lparr>status := COMPLETED\<rparr>)"
  using ref that by (auto simp: on_shipping_def order_handle_order_shipped_def set_status_def bnd_def incr_def)

lemma saga_started:
  assumes o1: "order_heap w ref = o1" and empty: "ks_entries (kv w) STREAM_ORDERS = []"
  obtains w' i where "bnd (create_order ref) (\<lambda>_. publish_created R fl ref) w = (Inr (), w')"
    and "kv w' = ks_xadd STREAM_ORDERS i (order_created_to_dict (created_event fl o1)) (kv w)"
    and "map_of (orders w') (order_id o1) = Some ref"
    and "order_heap w' = (order_heap w)(ref := o1\<lparr>status := PAYMENT_PROCESSING\<rparr>)"
proof -
  let ?w = "w\<lparr>orders := AList.update (order_id o1) ref (orders w),
    reg := increment ''saga'' ''sagas_started'' 1 (wall w) (reg w),
    order_heap := (order_heap w)(ref := o1\<lparr>status := PAYMENT_PROCESSING\<rparr>)\<rparr>"
  obtain i r' where "saga_publish R STREAM_ORDERS ''OrderCreated'' (order_created_to_dict
      (created_event fl o1)) ?w = (Inr i, ?w\<lparr>srv := r'\<rparr>)"
    and k: "view r' = ks_xadd STREAM_ORDERS i (order_created_to_dict (created_event fl o1)) (kv w)"
    by (rule saga_publish_up [of STREAM_ORDERS "''OrderCreated''" "order_created_to_dict (created_event fl o1)" ?w])
      simp
  then have "bnd (create_order ref) (\<lambda>_. publish_created R fl ref) w = (Inr (), ?w\<lparr>srv := r'\<rparr>)"
    using o1 by (simp add: create_order_def publish_created_def set_status_def bnd_def incr_def
        created_event_def)
  then show ?thesis using that k by simp
qed

end

context redis_available
begin

lemma run_saga_start:
  assumes "bnd (create_order ref) (\<lambda>_. publish_created R fl ref) w = (Inr (), w1)"
  shows "run_saga R fl u ref envs w =
    saga_loop R fl u ref envs \<lparr>cur_orders = ''0'', cur_payments = ''0'', cur_shipping = ''0''\<rparr> w1"
  using assms by (simp add: run_saga_def bnd_assoc [symmetric] bnd_def split: prod.splits sum.splits)

text \<open>A phase whose stream holds one entry, and a phase whose stream is empty.\<close>

lemma saga_phase_one:
  assumes es: "ks_entries (kv w) s = [(i, f)]"
    and dec: "py_decode (dict_get f ''event_type'' []) = Inr etype" "decode_items f = Inr d"
    and body: "\<And>w1. kv w1 = kv w \<Longrightarrow> app w1 = app w \<Longrightarrow> \<exists>w2. body etype d w1 = (Inr (), w2) \<and> Q w2"
  obtains w' where "bnd (saga_consume R s ''0'') (\<lambda>es. for_each (saga_entry body) es ''0'') w = (Inr i, w')"
    and "Q w'"
proof -
  obtain w1 where c: "saga_consume R s ''0'' w = (Inr [(i, f)], w1)" "kv w1 = kv w" "app w1 = app w"
    using saga_consume_up [of w s "''0''"] es by (auto simp: cursor_ok_def)
  obtain w2 where b: "body etype d w1 = (Inr (), w2)" "Q w2" using body [OF c(2,3)] by blast
  have "bnd (saga_consume R s ''0'') (\<lambda>es. for_each (saga_entry body) es ''0'') w = (Inr i, w2)"
    using saga_entry_step [of f etype d body w1 w2 i "''0''", OF dec b(1)]
    by (simp add: bnd_def [of "saga_consume R s ''0''"] c(1) for_each_saga_single del: for_each.simps)
  then show ?thesis using that b(2) by blast
qed

lemma saga_phase_none:
  assumes es: "ks_entries (kv w) s = []"
  obtains w' where "bnd (saga_consume R s ''0'') (\<lambda>es. for_each (saga_entry body) es ''0'') w = (Inr ''0'', w')"
    and "kv w' = kv w" and "app w' = app w"
proof -
  obtain w1 where c: "saga_consume R s ''0'' w = (Inr [], w1)" "kv w1 = kv w" "app w1 = app w"
    using saga_consume_up [of w s "''0''"] es by (auto simp: cursor_ok_def)
  then show ?thesis using that by (simp add: bnd_def)
qed

lemma saga_turn_phases:
  assumes "bnd (saga_consume R STREAM_ORDERS ''0'') (\<lambda>es. for_each (saga_entry (on_orders R fl u)) es ''0'') w = (Inr co, w1)"
    and "bnd (saga_consume R STREAM_PAYMENTS ''0'') (\<lambda>es. for_each (saga_entry (on_payments R u)) es ''0'') w1 = (Inr cp, w2)"
    and "bnd (saga_consume R STREAM_SHIPPING ''0'') (\<lambda>es. for_each (saga_entry on_shipping) es ''0'') w2 = (Inr cs, w3)"
  shows "saga_turn R fl u \<lparr>cur_orders = ''0'', cur_payments = ''0'', cur_shipping = ''0''\<rparr> w =
    (Inr \<lparr>cur_orders = co, cur_payments = cp, cur_shipping = cs\<rparr>, w3)"
  using assms unfolding saga_turn_def by (auto simp: bnd_def split: prod.splits sum.splits)

abbreviation saga_read :: "'a redis \<Rightarrow> string \<Rightarrow> (string \<Rightarrow> (string, string) dict \<Rightarrow> ('a, unit) saga_io) \<Rightarrow>
    ('a, string) saga_io" where
  "saga_read R1 s body \<equiv> bnd (saga_consume R1 s ''0'') (\<lambda>es. for_each (saga_entry body) es ''0'')"

lemma saga_phase_paid:
  assumes es: "ks_entries (kv w) STREAM_ORDERS = [(i, order_created_to_dict (created_event fl o1))]"
    and ok: "saga_order_ok o1" "float_text_ok fl" and am: "\<not> le_zero (amount o1)"
  obtains w' tx j where "saga_read R STREAM_ORDERS (on_orders R fl u) w = (Inr i, w')"
    and "kv w' = ks_xadd STREAM_PAYMENTS j (payment_processed_to_dict
      \<lparr>pp_order_id = order_id o1, transaction_id = u tx\<rparr>) (kv w)"
    and "orders w' = orders w" and "order_heap w' = order_heap w"
proof (rule saga_phase_one [where body = "on_orders R fl u" and w = w and s = STREAM_ORDERS and
      Q = "\<lambda>w'. \<exists>tx j. kv w' = ks_xadd STREAM_PAYMENTS j (payment_processed_to_dict
        \<lparr>pp_order_id = order_id o1, transaction_id = u tx\<rparr>) (kv w) \<and> orders w' = orders w \<and>
        order_heap w' = order_heap w", OF es _ created_event_decodes [OF ok]])
  fix wa
  assume wa: "kv wa = kv w" "app wa = app w"
  obtain w2 j where "on_orders R fl u ''OrderCreated'' (order_created_to_dict (created_event fl o1)) wa = (Inr (), w2)"
    "kv w2 = ks_xadd STREAM_PAYMENTS j (payment_processed_to_dict
      \<lparr>pp_order_id = order_id o1, transaction_id = u (uuids_drawn wa)\<rparr>) (kv wa)" "orders w2 = orders wa"
    "order_heap w2 = order_heap wa" by (rule saga_paid [OF ok(2) am])
  then show "\<exists>w2. on_orders R fl u ''OrderCreated'' (order_created_to_dict (created_event fl o1)) wa = (Inr (), w2) \<and>
      (\<exists>tx j. kv w2 = ks_xadd STREAM_PAYMENTS j (payment_processed_to_dict
        \<lparr>pp_order_id = order_id o1, transaction_id = u tx\<rparr>) (kv w) \<and> orders w2 = orders w \<and>
        order_heap w2 = order_heap w)"
    using wa saga_fields_same [OF wa(2)] by metis
qed (use that in auto)

lemma saga_phase_refused:
  assumes es: "ks_entries (kv w) STREAM_ORDERS = [(i, order_created_to_dict (created_event fl o1))]"
    and ok: "saga_order_ok o1" "float_text_ok fl" and am: "le_zero (amount o1)"
  obtains w' j where "saga_read R STREAM_ORDERS (on_orders R fl u) w = (Inr i, w')"
    and "kv w' = ks_xadd STREAM_PAYMENTS j (payment_failed_to_dict
      \<lparr>pf_order_id = order_id o1, pf_reason = ''Invalid amount: '' @ show_float fl (amount o1)\<rparr>) (kv w)"
    and "orders w' = orders w" and "order_heap w' = order_heap w"
proof (rule saga_phase_one [where body = "on_orders R fl u" and w = w and s = STREAM_ORDERS and
      Q = "\<lambda>w'. \<exists>j. kv w' = ks_xadd STREAM_PAYMENTS j (payment_failed_to_dict \<lparr>pf_order_id = order_id o1,
        pf_reason = ''Invalid amount: '' @ show_float fl (amount o1)\<rparr>) (kv w) \<and> orders w' = orders w \<and>
        order_heap w' = order_heap w", OF es _ created_event_decodes [OF ok]])
  fix wa
  assume wa: "kv wa = kv w" "app wa = app w"
  obtain w2 j where "on_orders R fl u ''OrderCreated'' (order_created_to_dict (created_event fl o1)) wa = (Inr (), w2)"
    "kv w2 = ks_xadd STREAM_PAYMENTS j (payment_failed_to_dict \<lparr>pf_order_id = order_id o1,
      pf_reason = ''Invalid amount: '' @ show_float fl (amount o1)\<rparr>) (kv wa)" "orders w2 = orders wa"
    "order_heap w2 = order_heap wa" by (rule saga_refused [OF ok(2) am])
  then show "\<exists>w2. on_orders R fl u ''OrderCreated'' (order_created_to_dict (created_event fl o1)) wa = (Inr (), w2) \<and>
      (\<exists>j. kv w2 = ks_xadd STREAM_PAYMENTS j (payment_failed_to_dict \<lparr>pf_order_id = order_id o1,
        pf_reason = ''Invalid amount: '' @ show_float fl (amount o1)\<rparr>) (kv w) \<and> orders w2 = orders w \<and>
        order_heap w2 = order_heap w)"
    using wa saga_fields_same [OF wa(2)] by metis
qed (use that in auto)

lemma saga_phase_shipping:
  assumes es: "ks_entries (kv w) STREAM_PAYMENTS = [(j, payment_processed_to_dict pp)]"
    and ok: "valid_utf8 (pp_order_id pp)" "valid_utf8 (transaction_id pp)"
    and ref: "map_of (orders w) (pp_order_id pp) = Some ref"
  obtains w' tn k where "saga_read R STREAM_PAYMENTS (on_payments R u) w = (Inr j, w')"
    and "kv w' = ks_xadd STREAM_SHIPPING k (order_shipped_to_dict
      \<lparr>os_order_id = pp_order_id pp, tracking_number = u tn\<rparr>) (kv w)"
    and "orders w' = orders w"
    and "order_heap w' = (order_heap w)(ref := (order_heap w ref)\<lparr>status := PAID\<rparr>)"
proof (rule saga_phase_one [where body = "on_payments R u" and w = w and s = STREAM_PAYMENTS and
      Q = "\<lambda>w'. \<exists>tn k. kv w' = ks_xadd STREAM_SHIPPING k (order_shipped_to_dict
        \<lparr>os_order_id = pp_order_id pp, tracking_number = u tn\<rparr>) (kv w) \<and> orders w' = orders w \<and>
        order_heap w' = (order_heap w)(ref := (order_heap w ref)\<lparr>status := PAID\<rparr>)",
      OF es _ saga_decode(2) [OF ok]])
  fix wa
  assume wa: "kv wa = kv w" "app wa = app w"
  have ref': "map_of (orders wa) (pp_order_id pp) = Some ref"
    using saga_fields_same [OF wa(2)] ref by simp
  obtain w3 k where "on_payments R u ''PaymentProcessed'' (payment_processed_to_dict pp) wa = (Inr (), w3)"
    "kv w3 = ks_xadd STREAM_SHIPPING k (order_shipped_to_dict
      \<lparr>os_order_id = pp_order_id pp, tracking_number = u (uuids_drawn wa)\<rparr>) (kv wa)" "orders w3 = orders wa"
    "order_heap w3 = (order_heap wa)(ref := (order_heap wa ref)\<lparr>status := PAID\<rparr>)"
    by (rule saga_shipping [OF ref'])
  then show "\<exists>w3. on_payments R u ''PaymentProcessed'' (payment_processed_to_dict pp) wa = (Inr (), w3) \<and>
      (\<exists>tn k. kv w3 = ks_xadd STREAM_SHIPPING k (order_shipped_to_dict
        \<lparr>os_order_id = pp_order_id pp, tracking_number = u tn\<rparr>) (kv w) \<and> orders w3 = orders w \<and>
        order_heap w3 = (order_heap w)(ref := (order_heap w ref)\<lparr>status := PAID\<rparr>))"
    using wa saga_fields_same [OF wa(2)] by auto
qed (use that in auto)

lemma saga_phase_compensated:
  assumes es: "ks_entries (kv w) STREAM_PAYMENTS = [(j, payment_failed_to_dict pf)]"
    and ok: "valid_utf8 (pf_order_id pf)" "valid_utf8 (pf_reason pf)"
    and ref: "map_of (orders w) (pf_order_id pf) = Some ref"
  obtains w' k where "saga_read R STREAM_PAYMENTS (on_payments R u) w = (Inr j, w')"
    and "kv w' = ks_xadd STREAM_ORDERS k (order_cancelled_to_dict
      \<lparr>ox_order_id = order_id (order_heap w ref), ox_reason = pf_reason pf\<rparr>) (kv w)"
    and "orders w' = orders w"
    and "order_heap w' = (order_heap w)(ref := (order_heap w ref)\<lparr>status := CANCELLED\<rparr>)"
proof (rule saga_phase_one [where body = "on_payments R u" and w = w and s = STREAM_PAYMENTS and
      Q = "\<lambda>w'. \<exists>k. kv w' = ks_xadd STREAM_ORDERS k (order_cancelled_to_dict
        \<lparr>ox_order_id = order_id (order_heap w ref), ox_reason = pf_reason pf\<rparr>) (kv w) \<and> orders w' = orders w \<and>
        order_heap w' = (order_heap w)(ref := (order_heap w ref)\<lparr>status := CANCELLED\<rparr>)",
      OF es _ saga_decode(3) [OF ok]])
  fix wa
  assume wa: "kv wa = kv w" "app wa = app w"
  have ref': "map_of (orders wa) (pf_order_id pf) = Some ref"
    using saga_fields_same [OF wa(2)] ref by simp
  obtain w3 k where "on_payments R u ''PaymentFailed'' (payment_failed_to_dict pf) wa = (Inr (), w3)"
    "kv w3 = ks_xadd STREAM_ORDERS k (order_cancelled_to_dict
      \<lparr>ox_order_id = order_id (order_heap wa ref), ox_reason = pf_reason pf\<rparr>) (kv wa)" "orders w3 = orders wa"
    "order_heap w3 = (order_heap wa)(ref := (order_heap wa ref)\<lparr>status := CANCELLED\<rparr>)"
    by (rule saga_compensated [OF ref'])
  then show "\<exists>w3. on_payments R u ''PaymentFailed'' (payment_failed_to_dict pf) wa = (Inr (), w3) \<and>
      (\<exists>k. kv w3 = ks_xadd STREAM_ORDERS k (order_cancelled_to_dict
        \<lparr>ox_order_id = order_id (order_heap w ref), ox_reason = pf_reason pf\<rparr>) (kv w) \<and> orders w3 = orders w \<and>
        order_heap w3 = (order_heap w)(ref := (order_heap w ref)\<lparr>status := CANCELLED\<rparr>))"
    using wa saga_fields_same [OF wa(2)] by auto
qed (use that in auto)

lemma saga_phase_completed:
  assumes es: "ks_entries (kv w) STREAM_SHIPPING = [(k, order_shipped_to_dict sh)]"
    and ok: "valid_utf8 (os_order_id sh)" "valid_utf8 (tracking_number sh)"
    and ref: "map_of (orders w) (os_order_id sh) = Some ref"
  obtains w' where "saga_read R STREAM_SHIPPING on_shipping w = (Inr k, w')"
    and "kv w' = kv w" and "orders w' = orders w"
    and "order_heap w' = (order_heap w)(ref := (order_heap w ref)\<lparr>status := COMPLETED\<rparr>)"
proof (rule saga_phase_one [where body = on_shipping and w = w and s = STREAM_SHIPPING and
      Q = "\<lambda>w'. kv w' = kv w \<and> orders w' = orders w \<and>
        order_heap w' = (order_heap w)(ref := (order_heap w ref)\<lparr>status := COMPLETED\<rparr>)",
      OF es _ saga_decode(4) [OF ok]])
  fix wa
  assume wa: "kv wa = kv w" "app wa = app w"
  have ref': "map_of (orders wa) (os_order_id sh) = Some ref"
    using saga_fields_same [OF wa(2)] ref by simp
  obtain w4 where "on_shipping ''OrderShipped'' (order_shipped_to_dict sh) wa = (Inr (), w4)"
    "kv w4 = kv wa" "orders w4 = orders wa"
    "order_heap w4 = (order_heap wa)(ref := (order_heap wa ref)\<lparr>status := COMPLETED\<rparr>)"
    by (rule saga_completed [OF ref'])
  then show "\<exists>w4. on_shipping ''OrderShipped'' (order_shipped_to_dict sh) wa = (Inr (), w4) \<and>
      kv w4 = kv w \<and> orders w4 = orders w \<and>
        order_heap w4 = (order_heap w)(ref := (order_heap w ref)\<lparr>status := COMPLETED\<rparr>)"
    using wa saga_fields_same [OF wa(2)] by auto
qed (use that in auto)

lemma run_saga_one_turn:
  assumes start: "bnd (create_order ref) (\<lambda>_. publish_created R fl ref) w = (Inr (), w1)"
    and p: "saga_read R STREAM_ORDERS (on_orders R fl u) w1 = (Inr co, w2)"
      "saga_read R STREAM_PAYMENTS (on_payments R u) w2 = (Inr cp, w3)"
      "saga_read R STREAM_SHIPPING on_shipping w3 = (Inr cs, w4)"
    and fin: "saga_finished ref w4"
  shows "run_saga R fl u ref ((\<lambda>w. w) # envs) w = (Inr (), w4)"
  using fin by (simp add: run_saga_start [OF start] bnd_def [of "saga_turn R fl u _"] saga_turn_phases [OF p])

lemma run_saga_completes_heap:
  assumes o1: "order_heap w ref = o1" and ok: "saga_order_ok o1" "float_text_ok fl" "\<And>n. is_ascii (u n)"
    and am: "\<not> le_zero (amount o1)"
    and empty: "ks_entries (kv w) STREAM_ORDERS = []" "ks_entries (kv w) STREAM_PAYMENTS = []"
      "ks_entries (kv w) STREAM_SHIPPING = []"
  shows "\<exists>w' i j k tx tn. run_saga R fl u ref ((\<lambda>w. w) # envs) w = (Inr (), w') \<and>
    get_order (order_id o1) w' = Some (o1\<lparr>status := COMPLETED\<rparr>) \<and>
    ks_entries (kv w') STREAM_ORDERS = [(i, order_created_to_dict (created_event fl o1))] \<and>
    ks_entries (kv w') STREAM_PAYMENTS = [(j, payment_processed_to_dict
      \<lparr>pp_order_id = order_id o1, transaction_id = tx\<rparr>)] \<and>
    ks_entries (kv w') STREAM_SHIPPING = [(k, order_shipped_to_dict
      \<lparr>os_order_id = order_id o1, tracking_number = tn\<rparr>)] \<and>
    order_heap w' = (order_heap w)(ref := o1\<lparr>status := COMPLETED\<rparr>)"
proof -
  obtain w1 i where start: "bnd (create_order ref) (\<lambda>_. publish_created R fl ref) w = (Inr (), w1)"
    and w1: "kv w1 = ks_xadd STREAM_ORDERS i (order_created_to_dict (created_event fl o1)) (kv w)"
      "map_of (orders w1) (order_id o1) = Some ref" "order_heap w1 = (order_heap w)(ref := o1\<lparr>status := PAYMENT_PROCESSING\<rparr>)"
    by (rule saga_started [OF o1 empty(1)])
  have es1: "ks_entries (kv w1) STREAM_ORDERS = [(i, order_created_to_dict (created_event fl o1))]"
    by (simp add: w1 empty)
  obtain w2 tx j where p1: "saga_read R STREAM_ORDERS (on_orders R fl u) w1 = (Inr i, w2)"
    and w2: "kv w2 = ks_xadd STREAM_PAYMENTS j (payment_processed_to_dict
      \<lparr>pp_order_id = order_id o1, transaction_id = u tx\<rparr>) (kv w1)" "orders w2 = orders w1"
      "order_heap w2 = order_heap w1"
    by (rule saga_phase_paid [OF es1 ok(1,2) am])
  have es2: "ks_entries (kv w2) STREAM_PAYMENTS = [(j, payment_processed_to_dict
      \<lparr>pp_order_id = order_id o1, transaction_id = u tx\<rparr>)]"
    and ref2: "map_of (orders w2) (pp_order_id \<lparr>pp_order_id = order_id o1, transaction_id = u tx\<rparr>) = Some ref"
    by (simp_all add: w1 w2 empty)
  obtain w3 tn k where p2: "saga_read R STREAM_PAYMENTS (on_payments R u) w2 = (Inr j, w3)"
    and w3: "kv w3 = ks_xadd STREAM_SHIPPING k (order_shipped_to_dict
      \<lparr>os_order_id = order_id o1, tracking_number = u tn\<rparr>) (kv w2)" "orders w3 = orders w2"
      "order_heap w3 = (order_heap w2)(ref := (order_heap w2 ref)\<lparr>status := PAID\<rparr>)"
    by (rule saga_phase_shipping [where u = u, OF es2 _ _ ref2])
      (use ok in \<open>simp_all add: saga_order_ok_def valid_utf8_ascii\<close>)
  have es3: "ks_entries (kv w3) STREAM_SHIPPING = [(k, order_shipped_to_dict
      \<lparr>os_order_id = order_id o1, tracking_number = u tn\<rparr>)]"
    and ref3: "map_of (orders w3) (os_order_id \<lparr>os_order_id = order_id o1, tracking_number = u tn\<rparr>) = Some ref"
    by (simp_all add: w1 w2 w3 empty)
  obtain w4 where p3: "saga_read R STREAM_SHIPPING on_shipping w3 = (Inr k, w4)"
    and w4: "kv w4 = kv w3" "orders w4 = orders w3"
      "order_heap w4 = (order_heap w3)(ref := (order_heap w3 ref)\<lparr>status := COMPLETED\<rparr>)"
    by (rule saga_phase_completed [OF es3 _ _ ref3])
      (use ok in \<open>simp_all add: saga_order_ok_def valid_utf8_ascii\<close>)
  have fin: "get_order (order_id o1) w4 = Some (o1\<lparr>status := COMPLETED\<rparr>)" "order_id (order_heap w4 ref) = order_id o1"
    using w1 w2 w3 w4 by (simp_all add: get_order_def)
  then have "run_saga R fl u ref ((\<lambda>w. w) # envs) w = (Inr (), w4)"
    by (intro run_saga_one_turn [OF start p1 p2 p3]) (simp add: saga_finished_def terminal_def)
  then show ?thesis using fin(1) w1 w2 w3 w4 empty
    by (intro exI [of _ w4] exI [of _ i] exI [of _ j] exI [of _ k] exI [of _ "u tx"] exI [of _ "u tn"]) simp
qed

lemma run_saga_completes:
  assumes o1: "order_heap w ref = o1" and ok: "saga_order_ok o1" "float_text_ok fl" "\<And>n. is_ascii (u n)"
    and am: "\<not> le_zero (amount o1)"
    and empty: "ks_entries (kv w) STREAM_ORDERS = []" "ks_entries (kv w) STREAM_PAYMENTS = []"
      "ks_entries (kv w) STREAM_SHIPPING = []"
  shows "\<exists>w' i j k tx tn. run_saga R fl u ref ((\<lambda>w. w) # envs) w = (Inr (), w') \<and>
    get_order (order_id o1) w' = Some (o1\<lparr>status := COMPLETED\<rparr>) \<and>
    ks_entries (kv w') STREAM_ORDERS = [(i, order_created_to_dict (created_event fl o1))] \<and>
    ks_entries (kv w') STREAM_PAYMENTS = [(j, payment_processed_to_dict
      \<lparr>pp_order_id = order_id o1, transaction_id = tx\<rparr>)] \<and>
    ks_entries (kv w') STREAM_SHIPPING = [(k, order_shipped_to_dict
      \<lparr>os_order_id = order_id o1, tracking_number = tn\<rparr>)]"
  using run_saga_completes_heap [where envs = envs and u = u, OF o1 ok am empty] by blast

lemma run_saga_cancels:
  assumes o1: "order_heap w ref = o1" and ok: "saga_order_ok o1" "float_text_ok fl"
    and am: "le_zero (amount o1)"
    and empty: "ks_entries (kv w) STREAM_ORDERS = []" "ks_entries (kv w) STREAM_PAYMENTS = []"
      "ks_entries (kv w) STREAM_SHIPPING = []"
  shows "\<exists>w' i j k. run_saga R fl u ref ((\<lambda>w. w) # envs) w = (Inr (), w') \<and>
    get_order (order_id o1) w' = Some (o1\<lparr>status := CANCELLED\<rparr>) \<and>
    ks_entries (kv w') STREAM_ORDERS = [(i, order_created_to_dict (created_event fl o1)),
      (k, order_cancelled_to_dict \<lparr>ox_order_id = order_id o1,
        ox_reason = ''Invalid amount: '' @ show_float fl (amount o1)\<rparr>)] \<and>
    ks_entries (kv w') STREAM_PAYMENTS = [(j, payment_failed_to_dict \<lparr>pf_order_id = order_id o1,
      pf_reason = ''Invalid amount: '' @ show_float fl (amount o1)\<rparr>)] \<and>
    ks_entries (kv w') STREAM_SHIPPING = []"
proof -
  define why where "why = ''Invalid amount: '' @ show_float fl (amount o1)"
  have why: "valid_utf8 why" using ok(2) by (simp add: why_def float_text_ok_def valid_utf8_ascii)
  obtain w1 i where start: "bnd (create_order ref) (\<lambda>_. publish_created R fl ref) w = (Inr (), w1)"
    and w1: "kv w1 = ks_xadd STREAM_ORDERS i (order_created_to_dict (created_event fl o1)) (kv w)"
      "map_of (orders w1) (order_id o1) = Some ref" "order_heap w1 = (order_heap w)(ref := o1\<lparr>status := PAYMENT_PROCESSING\<rparr>)"
    by (rule saga_started [OF o1 empty(1)])
  have es1: "ks_entries (kv w1) STREAM_ORDERS = [(i, order_created_to_dict (created_event fl o1))]"
    by (simp add: w1 empty)
  obtain w2 j where p1: "saga_read R STREAM_ORDERS (on_orders R fl u) w1 = (Inr i, w2)"
    and w2: "kv w2 = ks_xadd STREAM_PAYMENTS j (payment_failed_to_dict
      \<lparr>pf_order_id = order_id o1, pf_reason = why\<rparr>) (kv w1)" "orders w2 = orders w1"
      "order_heap w2 = order_heap w1"
    unfolding why_def by (rule saga_phase_refused [OF es1 ok(1,2) am])
  have es2: "ks_entries (kv w2) STREAM_PAYMENTS = [(j, payment_failed_to_dict
      \<lparr>pf_order_id = order_id o1, pf_reason = why\<rparr>)]"
    and ref2: "map_of (orders w2) (pf_order_id \<lparr>pf_order_id = order_id o1, pf_reason = why\<rparr>) = Some ref"
    by (simp_all add: w1 w2 empty)
  obtain w3 k where p2: "saga_read R STREAM_PAYMENTS (on_payments R u) w2 = (Inr j, w3)"
    and w3: "kv w3 = ks_xadd STREAM_ORDERS k (order_cancelled_to_dict
      \<lparr>ox_order_id = order_id o1, ox_reason = why\<rparr>) (kv w2)" "orders w3 = orders w2"
      "order_heap w3 = (order_heap w2)(ref := (order_heap w2 ref)\<lparr>status := CANCELLED\<rparr>)"
    using that w1(3) w2(3) by (rule_tac saga_phase_compensated [where u = u, OF es2 _ _ ref2])
      (use ok why in \<open>simp_all add: saga_order_ok_def\<close>)
  obtain w4 where p3: "saga_read R STREAM_SHIPPING on_shipping w3 = (Inr ''0'', w4)"
    and w4: "kv w4 = kv w3" "app w4 = app w3"
    by (rule saga_phase_none [of w3 STREAM_SHIPPING]) (simp add: w1 w2 w3 empty)
  have fin: "get_order (order_id o1) w4 = Some (o1\<lparr>status := CANCELLED\<rparr>)" "order_id (order_heap w4 ref) = order_id o1"
    using w1 w2 w3 saga_fields_same [OF w4(2)] by (simp_all add: get_order_def)
  then have "run_saga R fl u ref ((\<lambda>w. w) # envs) w = (Inr (), w4)"
    by (intro run_saga_one_turn [OF start p1 p2 p3]) (simp add: saga_finished_def terminal_def)
  then show ?thesis using fin(1) w1 w2 w3 w4 empty
    by (intro exI [of _ w4] exI [of _ i] exI [of _ j] exI [of _ k]) (simp add: why_def)
qed

end

subsection \<open>A runner starts from the beginning of every stream\<close>

definition is_created :: "entry \<Rightarrow> bool" where
  "is_created m \<longleftrightarrow> py_decode (dict_get (snd m) ''event_type'' []) = Inr ''OrderCreated''"

abbreviation payment_events :: "keyspace \<Rightarrow> entry list" where
  "payment_events k \<equiv> ks_entries k STREAM_PAYMENTS"

context redis_server
begin

lemma on_orders_payments:
  assumes "on_orders R fl u etype d w = (Inr (), w')"
  shows "\<exists>new. payment_events (kv w') = payment_events (kv w) @ new \<and>
    length new = (if etype = ''OrderCreated'' then 1 else 0) \<and>
    ks_entries (kv w') STREAM_ORDERS = ks_entries (kv w) STREAM_ORDERS"
proof (cases "etype = ''OrderCreated''")
  case True
  then obtain oc am where am: "parse_float fl (oc_amount oc) = Inr am"
    and pay: "payment_handle_order_created R fl u oc w = (Inr (), w')"
    using assms by (auto simp: on_orders_def payment_handle_order_created_def elim!: bnd_InrE)
  have "\<exists>t p i w1. kv w1 = kv w \<and> saga_publish R STREAM_PAYMENTS t p w1 = (Inr i, w')"
  proof (cases "le_zero am")
    case True
    then obtain t p i where "saga_publish R STREAM_PAYMENTS t p w = (Inr i, w')"
      using pay by (fastforce simp: payment_handle_order_created_def am elim!: bnd_InrE)
    then show ?thesis by blast
  next
    case False
    then obtain tx wa where "uuid4 u w = (Inr tx, wa)" and "\<exists>t p i. saga_publish R STREAM_PAYMENTS t p wa = (Inr i, w')"
      using pay by (fastforce simp: payment_handle_order_created_def am elim!: bnd_InrE)
    moreover from this(1) have "kv wa = kv w" by (auto simp: uuid4_def)
    ultimately show ?thesis by blast
  qed
  then obtain t p i w1 where "kv w1 = kv w" and pub: "saga_publish R STREAM_PAYMENTS t p w1 = (Inr i, w')"
    by blast
  then show ?thesis using saga_publish_effect [OF pub] True by auto
next
  case False
  then show ?thesis using assms by (simp add: on_orders_def)
qed

lemma orders_phase_payments:
  assumes "for_each (saga_entry (on_orders R fl u)) es c w = (Inr c', w')"
  shows "\<exists>new. payment_events (kv w') = payment_events (kv w) @ new \<and> length new = length (filter is_created es)"
  using assms
proof (induction es arbitrary: c w)
  case Nil
  then show ?case by simp
next
  case (Cons m es)
  then obtain c1 w1 where step: "saga_entry (on_orders R fl u) m c w = (Inr c1, w1)"
    and rest: "for_each (saga_entry (on_orders R fl u)) es c1 w1 = (Inr c', w')"
    by (auto elim: bnd_InrE)
  obtain etype d where d: "py_decode (dict_get (snd m) ''event_type'' []) = Inr etype"
    "on_orders R fl u etype d w = (Inr (), w1)" using step by (rule saga_entry_run)
  obtain new1 where "payment_events (kv w1) = payment_events (kv w) @ new1"
    "length new1 = (if is_created m then 1 else 0)"
    using on_orders_payments [OF d(2)] d(1) by (auto simp: is_created_def)
  then show ?case using Cons.IH [OF rest] by force
qed

lemma on_payments_same:
  assumes "on_payments R u etype d w = (Inr (), w')"
  shows "payment_events (kv w') = payment_events (kv w)"
  using assms unfolding on_payments_def order_handle_payment_processed_def
    shipping_handle_payment_processed_def order_handle_payment_failed_def
  by (auto elim!: bnd_InrE split: if_splits option.splits
      simp: set_status_def uuid4_def incr_def dest!: saga_publish_effect)

lemma on_shipping_same:
  assumes "on_shipping etype d w = (Inr (), w')"
  shows "payment_events (kv w') = payment_events (kv w)"
  using assms unfolding on_shipping_def order_handle_order_shipped_def
  by (auto elim!: bnd_InrE split: if_splits option.splits simp: set_status_def incr_def)

lemma phase_same:
  assumes "for_each (saga_entry body) es c w = (Inr c', w')"
    and "\<And>etype d w w'. body etype d w = (Inr (), w') \<Longrightarrow> payment_events (kv w') = payment_events (kv w)"
  shows "payment_events (kv w') = payment_events (kv w)"
  by (rule for_each_invariant [where P = "\<lambda>_ w1. payment_events (kv w1) = payment_events (kv w)", OF _ assms(1)])
    (auto elim!: saga_entry_run dest: assms(2))

lemma saga_turn_payments:
  assumes run: "saga_turn R fl u l w = (Inr l', w')" and l: "l = \<lparr>cur_orders = ''0'', cur_payments = ''0'', cur_shipping = ''0''\<rparr>"
  shows "\<exists>new. payment_events (kv w') = payment_events (kv w) @ new \<and>
    length new = length (filter is_created (take 100 (ks_entries (kv w) STREAM_ORDERS)))"
proof -
  obtain es1 es2 es3 w1 w2 w3 w4 w5 co cp cs where
    1: "saga_consume R STREAM_ORDERS ''0'' w = (Inr es1, w1)"
      "for_each (saga_entry (on_orders R fl u)) es1 ''0'' w1 = (Inr co, w2)" and
    2: "saga_consume R STREAM_PAYMENTS ''0'' w2 = (Inr es2, w3)"
      "for_each (saga_entry (on_payments R u)) es2 ''0'' w3 = (Inr cp, w4)" and
    3: "saga_consume R STREAM_SHIPPING ''0'' w4 = (Inr es3, w5)"
      "for_each (saga_entry on_shipping) es3 ''0'' w5 = (Inr cs, w')"
    using run unfolding saga_turn_def l by (auto elim!: bnd_InrE)
  have zero: "cursor_ok k s ''0''" for k s by (simp add: cursor_ok_def)
  have "es1 = take 100 (ks_entries (kv w) STREAM_ORDERS)" "kv w1 = kv w"
    using saga_consume_effect [OF 1(1) zero] by auto
  moreover have "kv w3 = kv w2" using saga_consume_effect [OF 2(1) zero] by auto
  moreover have "kv w5 = kv w4" using saga_consume_effect [OF 3(1) zero] by auto
  moreover have "payment_events (kv w4) = payment_events (kv w3)" by (rule phase_same [OF 2(2) on_payments_same])
  moreover have "payment_events (kv w') = payment_events (kv w5)" by (rule phase_same [OF 3(2) on_shipping_same])
  ultimately show ?thesis using orders_phase_payments [OF 1(2)] by auto
qed

lemma run_saga_recharges:
  assumes run: "run_saga R fl u ref [\<lambda>w. w] w = (Inr (), w')"
    and few: "length (ks_entries (kv w) STREAM_ORDERS) < 100"
  shows "\<exists>new. payment_events (kv w') = payment_events (kv w) @ new \<and>
    length new = length (filter is_created (ks_entries (kv w) STREAM_ORDERS)) + 1"
proof -
  obtain wa wb where ca: "create_order ref w = (Inr (), wa)" and cb: "publish_created R fl ref wa = (Inr (), wb)"
    and loop: "saga_loop R fl u ref [\<lambda>w. w] \<lparr>cur_orders = ''0'', cur_payments = ''0'', cur_shipping = ''0''\<rparr> wb = (Inr (), w')"
    using run unfolding run_saga_def by (auto elim!: bnd_InrE simp del: saga_loop.simps)
  have ka: "kv wa = kv w" using ca by (auto simp: create_order_def incr_def)
  have "\<exists>oc i w1. kv w1 = kv wa \<and>
      saga_publish R STREAM_ORDERS ''OrderCreated'' (order_created_to_dict oc) w1 = (Inr i, wb)"
    using cb unfolding publish_created_def set_status_def bnd_modify
    by (elim bnd_InrE, intro exI [of _ "\<lparr>oc_order_id = order_id (order_heap wa ref),
        oc_customer_id = customer_id (order_heap wa ref), oc_amount = show_float fl (amount (order_heap wa ref))\<rparr>"]
        exI [of _ "wa\<lparr>order_heap := (order_heap wa)(ref := (order_heap wa ref)\<lparr>status := PAYMENT_PROCESSING\<rparr>)\<rparr>"]
        exI conjI) (simp, simp)
  then obtain oc i w1 where w1: "kv w1 = kv w"
    and pub: "saga_publish R STREAM_ORDERS ''OrderCreated'' (order_created_to_dict oc) w1 = (Inr i, wb)"
    unfolding ka by blast
  obtain l' where turn: "saga_turn R fl u \<lparr>cur_orders = ''0'', cur_payments = ''0'', cur_shipping = ''0''\<rparr> wb = (Inr l', w')"
    using loop by (auto elim!: bnd_InrE split: if_splits)
  have k2: "kv wb = ks_xadd STREAM_ORDERS i (order_created_to_dict oc) (kv w)"
    using saga_publish_effect [OF pub] w1 by auto
  have "filter is_created (ks_entries (kv wb) STREAM_ORDERS) =
      filter is_created (ks_entries (kv w) STREAM_ORDERS) @ [(i, order_created_to_dict oc)]"
    by (simp add: k2 is_created_def)
  then show ?thesis using saga_turn_payments [OF turn refl] few k2 by auto
qed

end

end
