(* ===== verification/Saga_Progress.thy ===== *)
theory Saga_Progress
  imports Saga
begin

section \<open>The saga runner does not fail on well-formed streams\<close>

text \<open>
  With the server up, a turn of the runner raises only for an event it cannot read. \<open>saga_event_ok\<close>
  says that an entry is readable; every event the handlers publish is, so a runner started on
  readable streams returns, whatever those streams hold.
\<close>

definition saga_event_ok :: "float_text \<Rightarrow> entry \<Rightarrow> bool" where
  "saga_event_ok fl m \<longleftrightarrow> decode_items (snd m) = Inr (snd m) \<and>
     (\<exists>t. py_decode (dict_get (snd m) ''event_type'' []) = Inr t \<and>
       (t = ''OrderCreated'' \<longrightarrow> (\<exists>oc am. order_created_from_dict (snd m) = Inr oc \<and>
          parse_float fl (oc_amount oc) = Inr am)) \<and>
       (t = ''PaymentProcessed'' \<longrightarrow> (\<exists>pp. payment_processed_from_dict (snd m) = Inr pp)) \<and>
       (t = ''PaymentFailed'' \<longrightarrow> (\<exists>pf. payment_failed_from_dict (snd m) = Inr pf)) \<and>
       (t = ''OrderShipped'' \<longrightarrow> (\<exists>sh. order_shipped_from_dict (snd m) = Inr sh)))"

definition saga_readable :: "float_text \<Rightarrow> keyspace \<Rightarrow> bool" where
  "saga_readable fl k \<longleftrightarrow>
     (\<forall>s \<in> {STREAM_ORDERS, STREAM_PAYMENTS, STREAM_SHIPPING}. \<forall>m \<in> set (ks_entries k s). saga_event_ok fl m)"

text \<open>\<open>saga_step\<close>: at most one readable event is appended, and orders keep their ids.\<close>

definition saga_step :: "('r \<Rightarrow> keyspace) \<Rightarrow> float_text \<Rightarrow> 'r saga_world \<Rightarrow> 'r saga_world \<Rightarrow> bool" where
  "saga_step view fl w w' \<longleftrightarrow>
     (view (srv w') = view (srv w) \<or>
      (\<exists>s i f. view (srv w') = ks_xadd s i f (view (srv w)) \<and> saga_event_ok fl (i, f))) \<and>
     (\<forall>r. order_id (order_heap w' r) = order_id (order_heap w r))"

definition saga_wf :: "('r \<Rightarrow> keyspace) \<Rightarrow> float_text \<Rightarrow> saga_cursors \<Rightarrow> 'r saga_world \<Rightarrow> bool" where
  "saga_wf view fl l w \<longleftrightarrow> saga_readable fl (view (srv w)) \<and>
     (\<forall>r. valid_utf8 (order_id (order_heap w r))) \<and>
     cursor_ok (view (srv w)) STREAM_ORDERS (cur_orders l) \<and>
     cursor_ok (view (srv w)) STREAM_PAYMENTS (cur_payments l) \<and>
     cursor_ok (view (srv w)) STREAM_SHIPPING (cur_shipping l)"

lemma saga_step_grown: "saga_step view fl w w' \<Longrightarrow> grown (view (srv w)) (view (srv w'))"
  by (auto simp: saga_step_def grown_def)

lemma saga_readable_xadd: "saga_readable fl k \<Longrightarrow> saga_event_ok fl (i, f) \<Longrightarrow> saga_readable fl (ks_xadd s i f k)"
  by (auto simp: saga_readable_def)

lemma saga_wf_step:
  assumes "saga_wf view fl l w" and "saga_step view fl w w'"
  shows "saga_wf view fl l w'"
proof -
  have "saga_readable fl (view (srv w'))"
    using assms saga_readable_xadd [of fl "view (srv w)"] by (auto simp: saga_wf_def saga_step_def)
  moreover have "\<forall>r. valid_utf8 (order_id (order_heap w' r))"
    using assms by (simp add: saga_wf_def saga_step_def)
  moreover have "cursor_ok (view (srv w)) s c \<Longrightarrow> cursor_ok (view (srv w')) s c" for s c
    by (rule cursor_ok_grown [OF _ saga_step_grown [OF assms(2)]])
  ultimately show ?thesis using assms(1) by (simp add: saga_wf_def)
qed

lemma decoded_values_valid: "decode_items raw = Inr raw \<Longrightarrow> map_of raw k = Some v \<Longrightarrow> valid_utf8 v"
  by (induction raw rule: decode_items.induct) (auto simp: bndr_Inr_iff py_decode_def split: if_splits)

lemma dict_item_valid: "decode_items raw = Inr raw \<Longrightarrow> dict_item raw k = Inr v \<Longrightarrow> valid_utf8 v"
  by (auto simp: dict_item_def intro: decoded_values_valid split: option.splits)

lemma saga_from_dict_valid:
  assumes "decode_items d = Inr d"
  shows "order_created_from_dict d = Inr oc \<Longrightarrow> valid_utf8 (oc_order_id oc) \<and> valid_utf8 (oc_amount oc)"
    and "payment_processed_from_dict d = Inr pp \<Longrightarrow> valid_utf8 (pp_order_id pp)"
    and "payment_failed_from_dict d = Inr pf \<Longrightarrow> valid_utf8 (pf_order_id pf) \<and> valid_utf8 (pf_reason pf)"
  using dict_item_valid [OF assms] by (auto simp: saga_from_dict_defs bndr_Inr_iff)

lemma saga_event_oks:
  "valid_utf8 (pp_order_id pp) \<Longrightarrow> valid_utf8 (transaction_id pp) \<Longrightarrow> saga_event_ok fl (i, payment_processed_to_dict pp)"
  "valid_utf8 (pf_order_id pf) \<Longrightarrow> valid_utf8 (pf_reason pf) \<Longrightarrow> saga_event_ok fl (i, payment_failed_to_dict pf)"
  "valid_utf8 (os_order_id sh) \<Longrightarrow> valid_utf8 (tracking_number sh) \<Longrightarrow> saga_event_ok fl (i, order_shipped_to_dict sh)"
  by (simp_all add: saga_event_ok_def saga_decode)

lemma saga_event_ok_cancelled:
  assumes "valid_utf8 (ox_order_id ox)" and "valid_utf8 (ox_reason ox)"
  shows "saga_event_ok fl (i, order_cancelled_to_dict ox)"
proof -
  have "decode_items (order_cancelled_to_dict ox) = Inr (order_cancelled_to_dict ox)"
    by (rule decode_items_valid) (simp add: order_cancelled_to_dict_def saga_keys_valid assms)
  then show ?thesis by (simp add: saga_event_ok_def)
qed

lemma saga_event_ok_created:
  assumes "saga_order_ok o1" and "float_text_ok fl"
  shows "saga_event_ok fl (i, order_created_to_dict (created_event fl o1))"
  using created_event_decodes [OF assms] created_event_parses [OF assms(2), of o1] by (simp add: saga_event_ok_def)

lemma set_status_step:
  "set_status ref st w = (Inr (), w\<lparr>order_heap := (order_heap w)(ref := (order_heap w ref)\<lparr>status := st\<rparr>)\<rparr>)"
  by (simp add: set_status_def)

context redis_available
begin

lemma publish_steps:
  assumes "view (srv w1) = kv w" and "\<forall>r. order_id (order_heap w1 r) = order_id (order_heap w r)"
    and "\<And>i. saga_event_ok fl (i, dict_merge [(''event_type'', t)] p)"
  shows "\<exists>w'. bnd (saga_publish R s t p) (\<lambda>_. ret ()) w1 = (Inr (), w') \<and> saga_step view fl w w'"
proof -
  obtain i r' where "saga_publish R s t p w1 = (Inr i, w1\<lparr>srv := r'\<rparr>)"
    and "view r' = ks_xadd s i (dict_merge [(''event_type'', t)] p) (kv w1)"
    by (rule saga_publish_up)
  then show ?thesis using assms by (intro exI [of _ "w1\<lparr>srv := r'\<rparr>"]) (simp add: bnd_def saga_step_def, blast)
qed

lemma payment_steps:
  assumes am: "parse_float fl (oc_amount oc) = Inr am" and u: "\<And>n. is_ascii (u n)"
    and oc: "valid_utf8 (oc_order_id oc)" "valid_utf8 (oc_amount oc)"
  shows "\<exists>w'. payment_handle_order_created R fl u oc w = (Inr (), w') \<and> saga_step view fl w w'"
proof (cases "le_zero am")
  case True
  then show ?thesis unfolding payment_handle_order_created_def am bnd_liftr if_P [OF True]
    by (intro publish_steps) (use oc in \<open>simp_all add: saga_event_oks valid_utf8_append [of "''Invalid amount: ''", simplified]\<close>)
next
  case False
  let ?w = "w\<lparr>uuids_drawn := uuids_drawn w + 1\<rparr>"
  have "payment_handle_order_created R fl u oc w = bnd (saga_publish R STREAM_PAYMENTS ''PaymentProcessed''
      (payment_processed_to_dict \<lparr>pp_order_id = oc_order_id oc, transaction_id = u (uuids_drawn w)\<rparr>)) (\<lambda>_. ret ()) ?w"
    by (simp add: payment_handle_order_created_def am False) (simp add: bnd_def uuid4_def)
  then show ?thesis
    using publish_steps [of ?w w fl "''PaymentProcessed''" "payment_processed_to_dict
      \<lparr>pp_order_id = oc_order_id oc, transaction_id = u (uuids_drawn w)\<rparr>" STREAM_PAYMENTS] oc u
    by (simp add: saga_event_oks valid_utf8_ascii)
qed

lemma shipping_steps:
  assumes "valid_utf8 (pp_order_id pp)" and u: "\<And>n. is_ascii (u n)"
    and w1: "view (srv w1) = kv w" "\<forall>r. order_id (order_heap w1 r) = order_id (order_heap w r)"
  shows "\<exists>w'. shipping_handle_payment_processed R u pp w1 = (Inr (), w') \<and> saga_step view fl w w'"
proof -
  let ?w = "w1\<lparr>uuids_drawn := uuids_drawn w1 + 1\<rparr>"
  have "shipping_handle_payment_processed R u pp w1 = bnd (saga_publish R STREAM_SHIPPING ''OrderShipped''
      (order_shipped_to_dict \<lparr>os_order_id = pp_order_id pp, tracking_number = u (uuids_drawn w1)\<rparr>)) (\<lambda>_. ret ()) ?w"
    by (simp add: shipping_handle_payment_processed_def bnd_def uuid4_def)
  then show ?thesis
    using publish_steps [of ?w w fl "''OrderShipped''" "order_shipped_to_dict
      \<lparr>os_order_id = pp_order_id pp, tracking_number = u (uuids_drawn w1)\<rparr>" STREAM_SHIPPING] assms
    by (simp add: saga_event_oks valid_utf8_ascii)
qed

lemma compensation_steps:
  assumes "valid_utf8 (pf_reason pf)" and ids: "\<forall>r. valid_utf8 (order_id (order_heap w r))"
  shows "\<exists>w'. order_handle_payment_failed R pf w = (Inr (), w') \<and> saga_step view fl w w'"
proof (cases "map_of (orders w) (pf_order_id pf)")
  case None
  then show ?thesis by (simp add: order_handle_payment_failed_def saga_step_def)
next
  case (Some ref)
  let ?w = "w\<lparr>order_heap := (order_heap w)(ref := (order_heap w ref)\<lparr>status := CANCELLED\<rparr>),
    reg := increment ''saga'' ''sagas_cancelled'' 1 (wall w) (reg w)\<rparr>"
  have "order_handle_payment_failed R pf w = bnd (saga_publish R STREAM_ORDERS ''OrderCancelled''
      (order_cancelled_to_dict \<lparr>ox_order_id = order_id (order_heap w ref), ox_reason = pf_reason pf\<rparr>)) (\<lambda>_. ret ()) ?w"
    using Some by (simp add: order_handle_payment_failed_def set_status_def incr_def)
  then show ?thesis
    using publish_steps [of ?w w fl "''OrderCancelled''" "order_cancelled_to_dict
      \<lparr>ox_order_id = order_id (order_heap w ref), ox_reason = pf_reason pf\<rparr>" STREAM_ORDERS] assms
    by (simp add: saga_event_ok_cancelled)
qed


lemma on_orders_steps:
  assumes "saga_event_ok fl m" and "py_decode (dict_get (snd m) ''event_type'' []) = Inr t" and "\<And>n. is_ascii (u n)"
  shows "\<exists>w'. on_orders R fl u t (snd m) w = (Inr (), w') \<and> saga_step view fl w w'"
proof (cases "t = ''OrderCreated''")
  case True
  then obtain oc am where oc: "order_created_from_dict (snd m) = Inr oc" and am: "parse_float fl (oc_amount oc) = Inr am"
    and d: "decode_items (snd m) = Inr (snd m)"
    using assms(1,2) by (auto simp: saga_event_ok_def)
  show ?thesis using payment_steps [OF am assms(3)] saga_from_dict_valid(1) [OF d oc] oc True
    by (simp add: on_orders_def)
next
  case False
  then show ?thesis by (simp add: on_orders_def saga_step_def)
qed

lemma on_payments_steps:
  assumes "saga_event_ok fl m" and "py_decode (dict_get (snd m) ''event_type'' []) = Inr t" and u: "\<And>n. is_ascii (u n)"
    and ids: "\<forall>r. valid_utf8 (order_id (order_heap w r))"
  shows "\<exists>w'. on_payments R u t (snd m) w = (Inr (), w') \<and> saga_step view fl w w'"
proof -
  have d: "decode_items (snd m) = Inr (snd m)" using assms(1) by (simp add: saga_event_ok_def)
  consider "t = ''PaymentProcessed''" | "t = ''PaymentFailed''" | "t \<notin> {''PaymentProcessed'', ''PaymentFailed''}" by blast
  then show ?thesis
  proof cases
    case 1
    then obtain pp where pp: "payment_processed_from_dict (snd m) = Inr pp"
      using assms(1,2) by (auto simp: saga_event_ok_def)
    obtain w1 where w1: "order_handle_payment_processed pp w = (Inr (), w1)" "view (srv w1) = kv w"
      "\<forall>r. order_id (order_heap w1 r) = order_id (order_heap w r)"
      by (cases "map_of (orders w) (pp_order_id pp)")
        (simp_all add: order_handle_payment_processed_def set_status_def)
    have "on_payments R u t (snd m) w = shipping_handle_payment_processed R u pp w1"
      using pp 1 w1(1) by (simp add: on_payments_def bnd_def)
    then show ?thesis using shipping_steps [OF saga_from_dict_valid(2) [OF d pp] u w1(2,3)] by simp
  next
    case 2
    then obtain pf where pf: "payment_failed_from_dict (snd m) = Inr pf"
      using assms(1,2) by (auto simp: saga_event_ok_def)
    show ?thesis using compensation_steps [OF _ ids] saga_from_dict_valid(3) [OF d pf] pf 2
      by (simp add: on_payments_def)
  next
    case 3
    then show ?thesis by (simp add: on_payments_def saga_step_def)
  qed
qed

lemma on_shipping_steps:
  assumes "saga_event_ok fl m" and "py_decode (dict_get (snd m) ''event_type'' []) = Inr t"
  shows "\<exists>w'. on_shipping t (snd m) w = (Inr (), w') \<and> saga_step view fl w w'"
proof (cases "t = ''OrderShipped''")
  case True
  then obtain sh where "order_shipped_from_dict (snd m) = Inr sh" using assms by (auto simp: saga_event_ok_def)
  then show ?thesis using True
    by (cases "map_of (orders w) (os_order_id sh)")
      (simp_all add: on_shipping_def order_handle_order_shipped_def set_status_def incr_def saga_step_def)
next
  case False
  then show ?thesis by (simp add: on_shipping_def saga_step_def)
qed

text \<open>
  One loop over one stream: \<open>put c l\<close> stores the cursor of that stream. The entries read stay on the
  stream, so the cursor after the loop is the id of one of them.
\<close>

lemma phase_total:
  assumes body: "\<And>m t w1. saga_event_ok fl m \<Longrightarrow> py_decode (dict_get (snd m) ''event_type'' []) = Inr t \<Longrightarrow>
      saga_wf view fl l w1 \<Longrightarrow> \<exists>w'. body t (snd m) w1 = (Inr (), w') \<and> saga_step view fl w1 w'"
    and es: "\<forall>m \<in> set es. saga_event_ok fl m" "set es \<subseteq> set (ks_entries (kv w) s)"
    and c: "cursor_ok (kv w) s c" and wf: "saga_wf view fl l w"
  shows "\<exists>c' w'. for_each (saga_entry body) es c w = (Inr c', w') \<and> saga_wf view fl l w' \<and> cursor_ok (kv w') s c'"
  using es c wf
proof (induction es arbitrary: c w)
  case Nil
  then show ?case by simp
next
  case (Cons m es)
  obtain t where t: "py_decode (dict_get (snd m) ''event_type'' []) = Inr t" and d: "decode_items (snd m) = Inr (snd m)"
    using Cons.prems(1) by (auto simp: saga_event_ok_def)
  obtain w1 where run: "body t (snd m) w = (Inr (), w1)" and st: "saga_step view fl w w1"
    using body [OF _ t Cons.prems(4)] Cons.prems(1) by auto
  have "saga_entry body m c w = (Inr (fst m), w1)"
    using saga_entry_step [of "snd m" t "snd m" body w w1 "fst m" c] t d run by simp
  moreover have "grown (kv w) (kv w1)" by (rule saga_step_grown [OF st])
  then have "set (m # es) \<subseteq> set (ks_entries (kv w1) s)"
    using Cons.prems(2) by (auto simp: grown_def)
  then have "\<exists>c' w'. for_each (saga_entry body) es (fst m) w1 = (Inr c', w') \<and> saga_wf view fl l w' \<and> cursor_ok (kv w') s c'"
    using Cons.prems(1) saga_wf_step [OF Cons.prems(4) st]
    by (intro Cons.IH) (auto simp: cursor_ok_def)
  ultimately show ?case by (simp add: bnd_def)
qed

lemma read_total:
  assumes body: "\<And>m t w1. saga_event_ok fl m \<Longrightarrow> py_decode (dict_get (snd m) ''event_type'' []) = Inr t \<Longrightarrow>
      saga_wf view fl l w1 \<Longrightarrow> \<exists>w'. body t (snd m) w1 = (Inr (), w') \<and> saga_step view fl w1 w'"
    and s: "s \<in> {STREAM_ORDERS, STREAM_PAYMENTS, STREAM_SHIPPING}"
    and c: "cursor_ok (kv w) s c" and wf: "saga_wf view fl l w"
  shows "\<exists>es w1 c' w'. saga_consume R s c w = (Inr es, w1) \<and> for_each (saga_entry body) es c w1 = (Inr c', w') \<and>
    saga_wf view fl l w' \<and> cursor_ok (kv w') s c'"
proof -
  let ?es = "take 100 (after_id c (ks_entries (kv w) s))"
  obtain w1 where rd: "saga_consume R s c w = (Inr ?es, w1)" and w1: "kv w1 = kv w" "app w1 = app w"
    by (rule saga_consume_up [OF c])
  have "set ?es \<subseteq> set (ks_entries (kv w1) s)" using after_id_subset w1(1) by (metis order_trans set_take_subset)
  moreover from this have "\<forall>m \<in> set ?es. saga_event_ok fl m"
    using wf s w1(1) by (auto simp: saga_wf_def saga_readable_def)
  moreover have "saga_wf view fl l w1" using wf w1 saga_fields_same [OF w1(2)] by (simp add: saga_wf_def)
  ultimately have "\<exists>c' w'. for_each (saga_entry body) ?es c w1 = (Inr c', w') \<and> saga_wf view fl l w' \<and> cursor_ok (kv w') s c'"
    using c w1(1) by (intro phase_total body) simp_all
  then show ?thesis using rd by blast
qed

lemma saga_turn_total:
  assumes wf: "saga_wf view fl l w" and u: "\<And>n. is_ascii (u n)"
  shows "\<exists>l' w'. saga_turn R fl u l w = (Inr l', w') \<and> saga_wf view fl l' w'"
proof -
  obtain os w1 co w2 where 1: "saga_consume R STREAM_ORDERS (cur_orders l) w = (Inr os, w1)"
      "for_each (saga_entry (on_orders R fl u)) os (cur_orders l) w1 = (Inr co, w2)"
      "saga_wf view fl l w2" "cursor_ok (kv w2) STREAM_ORDERS co"
    using read_total [where s = STREAM_ORDERS and l = l and fl = fl and w = w and body = "on_orders R fl u"
        and c = "cur_orders l"] wf on_orders_steps u by (auto simp: saga_wf_def)
  let ?l1 = "l\<lparr>cur_orders := co\<rparr>"
  have wf2: "saga_wf view fl ?l1 w2" using 1 by (simp add: saga_wf_def)
  obtain ps w3 cp w4 where 2: "saga_consume R STREAM_PAYMENTS (cur_payments l) w2 = (Inr ps, w3)"
      "for_each (saga_entry (on_payments R u)) ps (cur_payments l) w3 = (Inr cp, w4)"
      "saga_wf view fl ?l1 w4" "cursor_ok (kv w4) STREAM_PAYMENTS cp"
    using read_total [where s = STREAM_PAYMENTS and l = ?l1 and fl = fl and w = w2 and body = "on_payments R u"
        and c = "cur_payments l"] wf2 on_payments_steps u by (auto simp: saga_wf_def)
  let ?l2 = "?l1\<lparr>cur_payments := cp\<rparr>"
  have wf4: "saga_wf view fl ?l2 w4" using 2 by (simp add: saga_wf_def)
  obtain ss w5 cs w6 where 3: "saga_consume R STREAM_SHIPPING (cur_shipping l) w4 = (Inr ss, w5)"
      "for_each (saga_entry on_shipping) ss (cur_shipping l) w5 = (Inr cs, w6)"
      "saga_wf view fl ?l2 w6" "cursor_ok (kv w6) STREAM_SHIPPING cs"
    using read_total [where s = STREAM_SHIPPING and l = ?l2 and fl = fl and w = w4 and body = on_shipping
        and c = "cur_shipping l"] wf4 on_shipping_steps by (auto simp: saga_wf_def)
  have "saga_turn R fl u l w = (Inr \<lparr>cur_orders = co, cur_payments = cp, cur_shipping = cs\<rparr>, w6)"
    using 1(1,2) 2(1,2) 3(1,2) by (simp add: saga_turn_def bnd_def)
  moreover have "saga_wf view fl \<lparr>cur_orders = co, cur_payments = cp, cur_shipping = cs\<rparr> w6"
    using 3 by (simp add: saga_wf_def)
  ultimately show ?thesis by blast
qed

lemma saga_loop_total:
  assumes "saga_wf view fl l w" and "\<And>n. is_ascii (u n)"
    and "\<forall>env \<in> set envs. \<forall>l w. saga_wf view fl l w \<longrightarrow> saga_wf view fl l (env w)"
  shows "\<exists>w'. saga_loop R fl u ref envs l w = (Inr (), w') \<and> saga_readable fl (kv w')"
  using assms
proof (induction envs arbitrary: l w)
  case Nil
  then show ?case by (simp add: saga_wf_def)
next
  case (Cons env envs)
  have "saga_wf view fl l (env w)" using Cons.prems(1,3) by simp
  then obtain l' w1 where t: "saga_turn R fl u l (env w) = (Inr l', w1)" and w1: "saga_wf view fl l' w1"
    using saga_turn_total [where u = u and fl = fl] Cons.prems(2) by blast
  obtain w' where "saga_loop R fl u ref envs l' w1 = (Inr (), w')" "saga_readable fl (kv w')"
    using Cons.IH [OF w1] Cons.prems(2,3) by auto
  then show ?case using t w1 by (simp add: bnd_def saga_wf_def)
qed

lemma run_saga_total:
  assumes "saga_readable fl (kv w)" and ids: "\<forall>r. valid_utf8 (order_id (order_heap w r))"
    and ok: "saga_order_ok (order_heap w ref)" "float_text_ok fl" and u: "\<And>n. is_ascii (u n)"
    and envs: "\<forall>env \<in> set envs. \<forall>l w. saga_wf view fl l w \<longrightarrow> saga_wf view fl l (env w)"
  shows "\<exists>w'. run_saga R fl u ref envs w = (Inr (), w') \<and> saga_readable fl (kv w')"
proof -
  let ?l = "\<lparr>cur_orders = ''0'', cur_payments = ''0'', cur_shipping = ''0''\<rparr>"
  obtain wa where wa: "create_order ref w = (Inr (), wa)" "kv wa = kv w" "order_heap wa = order_heap w"
    by (simp add: create_order_def incr_def)
  let ?w = "wa\<lparr>order_heap := (order_heap wa)(ref := (order_heap wa ref)\<lparr>status := PAYMENT_PROCESSING\<rparr>)\<rparr>"
  have "publish_created R fl ref wa = bnd (saga_publish R STREAM_ORDERS ''OrderCreated''
      (order_created_to_dict (created_event fl (order_heap w ref)))) (\<lambda>_. ret ()) ?w"
    by (simp add: publish_created_def set_status_def created_event_def wa)
  moreover have "\<forall>r. order_id (order_heap ?w r) = order_id (order_heap w r)" by (simp add: wa)
  then have "\<exists>w'. bnd (saga_publish R STREAM_ORDERS ''OrderCreated''
      (order_created_to_dict (created_event fl (order_heap w ref)))) (\<lambda>_. ret ()) ?w = (Inr (), w') \<and>
      saga_step view fl w w'"
    by (intro publish_steps) (simp_all add: wa saga_event_ok_created [OF ok])
  ultimately obtain wb where wb: "publish_created R fl ref wa = (Inr (), wb)" "saga_step view fl w wb"
    by auto
  have "saga_wf view fl ?l w" using assms(1) ids by (simp add: saga_wf_def cursor_ok_def)
  then obtain w' where "saga_loop R fl u ref envs ?l wb = (Inr (), w')" "saga_readable fl (kv w')"
    using saga_loop_total [where u = u, OF saga_wf_step [OF _ wb(2)] _ envs] u by blast
  then show ?thesis using wa(1) wb(1) by (simp add: run_saga_def bnd_def del: saga_loop.simps)
qed

end

end
