(* ===== verification/Saga_Naive.thy ===== *)
theory Saga_Naive
  imports Saga
begin

section \<open>The saga's baseline without compensation\<close>

text \<open>
  \<^verbatim>\<open>saga_pattern/naive.py\<close>. The three services and the caller's order form one state. The order is
  the caller's object, which the order service stores by reference; \<open>order_svc\<close> maps ids to the
  references of the heap.
\<close>

record naive_world =
  decline_for :: "string set"
  ledger :: "(string \<times> int) list"
  reject_for :: "string set"
  shipments :: "string list"
  order_svc :: "(string, nat) dict"
  nv_heap :: "nat \<Rightarrow> order"
  nv_uuids :: nat

definition nv_uuid4 :: "(nat \<Rightarrow> string) \<Rightarrow> (naive_world, string) io" where
  "nv_uuid4 u w = (Inr (u (nv_uuids w)), w\<lparr>nv_uuids := nv_uuids w + 1\<rparr>)"

definition charge :: "(nat \<Rightarrow> string) \<Rightarrow> string \<Rightarrow> int \<Rightarrow> (naive_world, string) io" where
  "charge u oid amount_cents w =
     (if oid \<in> decline_for w then raise (PaymentDeclinedError (''card declined for '' @ oid)) w
      else nv_uuid4 u (w\<lparr>ledger := ledger w @ [(oid, amount_cents)]\<rparr>))"

definition net_cents :: "string \<Rightarrow> naive_world \<Rightarrow> int" where
  "net_cents oid w = (\<Sum>(charged_id, cents) \<leftarrow> ledger w. if charged_id = oid then cents else 0)"

definition ship :: "(nat \<Rightarrow> string) \<Rightarrow> string \<Rightarrow> (naive_world, string) io" where
  "ship u oid w =
     (if oid \<in> reject_for w then raise (ShippingUnavailableError (''no stock for '' @ oid)) w
      else nv_uuid4 u (w\<lparr>shipments := shipments w @ [oid]\<rparr>))"

definition naive_create_order :: "nat \<Rightarrow> (naive_world, unit) io" where
  "naive_create_order ref =
     modify (\<lambda>w. w\<lparr>order_svc := AList.update (order_id (nv_heap w ref)) ref (order_svc w)\<rparr>)"

definition naive_get_order :: "string \<Rightarrow> naive_world \<Rightarrow> order option" where
  "naive_get_order oid w = map_option (nv_heap w) (map_of (order_svc w) oid)"

definition naive_status :: "nat \<Rightarrow> saga_status \<Rightarrow> (naive_world, unit) io" where
  "naive_status ref st = modify (\<lambda>w. w\<lparr>nv_heap := (nv_heap w)(ref := (nv_heap w ref)\<lparr>status := st\<rparr>)\<rparr>)"

definition place_order_without_compensation :: "(nat \<Rightarrow> string) \<Rightarrow> nat \<Rightarrow> (naive_world, string) io" where
  "place_order_without_compensation u ref =
     bnd (naive_create_order ref) (\<lambda>_.
     bnd (naive_status ref PAYMENT_PROCESSING) (\<lambda>_ w.
     bnd (liftr (int_of_float (mul_int (amount (nv_heap w ref)) 100))) (\<lambda>cents.
     bnd (charge u (order_id (nv_heap w ref)) cents) (\<lambda>_.
     bnd (naive_status ref PAID) (\<lambda>_.
     bnd (ship u (order_id (nv_heap w ref))) (\<lambda>tracking_number.
     bnd (naive_status ref COMPLETED) (\<lambda>_.
     ret tracking_number))))) w))"

lemma naive_stranded:
  assumes "int_of_float (mul_int (amount (nv_heap w ref)) 100) = Inr cents"
    and "order_id (nv_heap w ref) = oid" and "oid \<notin> decline_for w" and "oid \<in> reject_for w"
  shows "\<exists>w'. place_order_without_compensation u ref w =
      (Inl (ShippingUnavailableError (''no stock for '' @ oid)), w') \<and>
    net_cents oid w' = net_cents oid w + cents \<and> shipments w' = shipments w \<and>
    map_option status (naive_get_order oid w') = Some PAID"
  using assms
  by (simp add: place_order_without_compensation_def naive_create_order_def naive_status_def bnd_def
      charge_def ship_def nv_uuid4_def net_cents_def naive_get_order_def)

end
