(* ===== verification/Saga_Properties.thy ===== *)
theory Saga_Properties
  imports Saga_Progress Saga_Naive Redis_Memory
begin

section \<open>The saga: properties\<close>

text \<open>
  The properties of \<^verbatim>\<open>saga_pattern\<close>. The witnesses run the runner on the in-memory server with
  \<open>ratio_text\<close>, a rendering of floats as fractions.
\<close>

definition show_ratio :: "pyfloat \<Rightarrow> string" where
  "show_ratio x = (case x of NaN \<Rightarrow> ''nan'' | Infinite pos \<Rightarrow> (if pos then ''inf'' else ''-inf'')
     | Finite q \<Rightarrow> (case quotient_of q of (n, d) \<Rightarrow> py_str_int n @ ''/'' @ py_str_int d))"

definition parse_ratio :: "string \<Rightarrow> exn + pyfloat" where
  "parse_ratio s = (if s = ''nan'' then Inr NaN else if s = ''inf'' then Inr (Infinite True)
     else if s = ''-inf'' then Inr (Infinite False)
     else bndr (py_int (takeWhile (\<lambda>c. c \<noteq> CHR ''/'') s)) (\<lambda>n.
       bndr (py_int (tl (dropWhile (\<lambda>c. c \<noteq> CHR ''/'') s))) (\<lambda>d.
       Inr (Finite (of_int n / of_int d)))))"

definition ratio_text :: float_text where
  "ratio_text = \<lparr>show_float = show_ratio, parse_float = parse_ratio\<rparr>"

lemma slash_not_digit: "d < 10 \<Longrightarrow> CHR ''/'' \<noteq> digit_char d"
proof
  assume "d < 10" and "CHR ''/'' = digit_char d"
  then have "code (CHR ''/'') = 48 + d" by (simp add: digit_char_def)
  then show False by simp
qed

lemma py_str_int_no_slash: "c \<in> set (py_str_int i) \<Longrightarrow> c \<noteq> CHR ''/''"
  using nat_digits_all [of "nat i"] nat_digits_all [of "nat (- i)"] slash_not_digit
  by (auto simp: py_str_int_def list_all_iff split: if_splits)

lemma ratio_text_ok: "float_text_ok ratio_text"
proof -
  have "parse_ratio (show_ratio (Finite q)) = Inr (Finite q) \<and> is_ascii (show_ratio (Finite q))" for q
  proof -
    obtain n d where nd: "quotient_of q = (n, d)" by (cases "quotient_of q")
    have tw: "takeWhile (\<lambda>c. c \<noteq> CHR ''/'') (py_str_int n @ ''/'' @ py_str_int d) = py_str_int n"
      and dw: "dropWhile (\<lambda>c. c \<noteq> CHR ''/'') (py_str_int n @ ''/'' @ py_str_int d) = ''/'' @ py_str_int d"
      using py_str_int_no_slash by (simp_all add: takeWhile_append dropWhile_append)
    have "CHR ''/'' \<in> set (py_str_int n @ ''/'' @ py_str_int d)" by simp
    then have "py_str_int n @ ''/'' @ py_str_int d \<notin> {''nan'', ''inf'', ''-inf''}"
      by (intro notI) (elim insertE emptyE; simp only: list.set; simp)
    then show ?thesis
      using quotient_of_div [OF nd, symmetric] by (simp add: show_ratio_def parse_ratio_def nd tw [simplified] dw [simplified])
  qed
  moreover have "parse_ratio (show_ratio x) = Inr x \<and> is_ascii (show_ratio x)" if "\<forall>q. x \<noteq> Finite q" for x
    using that by (cases x) (simp_all add: show_ratio_def parse_ratio_def)
  ultimately show ?thesis unfolding float_text_ok_def ratio_text_def by (metis float_text.simps(1,2))
qed

definition demo_order :: "pyfloat \<Rightarrow> order" where
  "demo_order x = \<lparr>order_id = ''o1'', customer_id = ''c1'', amount = x, status = PENDING, created_at = ''now''\<rparr>"

definition demo_world :: "keyspace \<Rightarrow> pyfloat \<Rightarrow> keyspace saga_world" where
  "demo_world k x = \<lparr>reg = [], wall = ''now'', srv = k, order_heap = (\<lambda>_. demo_order x), orders = [],
     uuids_drawn = 0\<rparr>"

abbreviation demo_uuid :: "nat \<Rightarrow> string" where
  "demo_uuid \<equiv> nat_digits"

lemma demo_world_facts [simp]:
  "order_heap (demo_world k x) r = demo_order x" "srv (demo_world k x) = k" "orders (demo_world k x) = []"
  "amount (demo_order x) = x" "order_id (demo_order x) = ''o1''" "status (demo_order x) = PENDING"
  by (simp_all add: demo_world_def demo_order_def)

lemma demo_order_ok [simp]: "saga_order_ok (demo_order x)"
  by (simp add: saga_order_ok_def demo_order_def valid_utf8_ascii)

lemma demo_entries [simp]: "ks_entries empty_keyspace s = []"
  by (simp add: empty_keyspace_def ks_entries_def)

text \<open>
  C14: an order that can be paid is completed. With the server up and nothing on the three streams, an
  order whose amount is not at most zero is charged, shipped and completed within one turn of the
  runner, which then returns. The streams hold the three events of the order and nothing else.
\<close>

theorem saga_completes:
  assumes "redis_available R view" and "float_text_ok fl" and "\<And>n. is_ascii (u n)"
    and "saga_order_ok (order_heap w ref)" and "\<not> le_zero (amount (order_heap w ref))"
    and "ks_entries (view (srv w)) STREAM_ORDERS = []" and "ks_entries (view (srv w)) STREAM_PAYMENTS = []"
    and "ks_entries (view (srv w)) STREAM_SHIPPING = []"
  shows "\<exists>w' i j k tx tn. run_saga R fl u ref ((\<lambda>w. w) # envs) w = (Inr (), w') \<and>
    get_order (order_id (order_heap w ref)) w' = Some ((order_heap w ref)\<lparr>status := COMPLETED\<rparr>) \<and>
    ks_entries (view (srv w')) STREAM_ORDERS =
      [(i, order_created_to_dict (created_event fl (order_heap w ref)))] \<and>
    ks_entries (view (srv w')) STREAM_PAYMENTS = [(j, payment_processed_to_dict
      \<lparr>pp_order_id = order_id (order_heap w ref), transaction_id = tx\<rparr>)] \<and>
    ks_entries (view (srv w')) STREAM_SHIPPING = [(k, order_shipped_to_dict
      \<lparr>os_order_id = order_id (order_heap w ref), tracking_number = tn\<rparr>)]"
  by (rule redis_available.run_saga_completes [OF assms(1) refl assms(4,2,3,5,6,7,8)])

theorem saga_completes_witness:
  "\<exists>w' i j k tx tn.
    run_saga mem_redis ratio_text demo_uuid 0 [\<lambda>w. w] (demo_world empty_keyspace (Finite 150)) = (Inr (), w') \<and>
    get_order ''o1'' w' = Some ((demo_order (Finite 150))\<lparr>status := COMPLETED\<rparr>) \<and>
    ks_entries (srv w') STREAM_ORDERS =
      [(i, order_created_to_dict (created_event ratio_text (demo_order (Finite 150))))] \<and>
    ks_entries (srv w') STREAM_PAYMENTS = [(j, payment_processed_to_dict
      \<lparr>pp_order_id = ''o1'', transaction_id = tx\<rparr>)] \<and>
    ks_entries (srv w') STREAM_SHIPPING = [(k, order_shipped_to_dict
      \<lparr>os_order_id = ''o1'', tracking_number = tn\<rparr>)]"
  using saga_completes [where w = "demo_world empty_keyspace (Finite 150)" and ref = 0 and envs = "[]",
      OF mem.redis_available_axioms ratio_text_ok is_ascii_nat_digits] by simp

text \<open>
  C15: an order that cannot be paid is compensated. With an amount at most zero the payment is refused,
  the order is cancelled with the reason, the cancellation is published and nothing is shipped, all
  within one turn of the runner, which then returns.
\<close>

theorem saga_cancels:
  assumes "redis_available R view" and "float_text_ok fl"
    and "saga_order_ok (order_heap w ref)" and "le_zero (amount (order_heap w ref))"
    and "ks_entries (view (srv w)) STREAM_ORDERS = []" and "ks_entries (view (srv w)) STREAM_PAYMENTS = []"
    and "ks_entries (view (srv w)) STREAM_SHIPPING = []"
  shows "\<exists>w' i j k. run_saga R fl u ref ((\<lambda>w. w) # envs) w = (Inr (), w') \<and>
    get_order (order_id (order_heap w ref)) w' = Some ((order_heap w ref)\<lparr>status := CANCELLED\<rparr>) \<and>
    ks_entries (view (srv w')) STREAM_ORDERS =
      [(i, order_created_to_dict (created_event fl (order_heap w ref))),
       (k, order_cancelled_to_dict \<lparr>ox_order_id = order_id (order_heap w ref),
         ox_reason = ''Invalid amount: '' @ show_float fl (amount (order_heap w ref))\<rparr>)] \<and>
    ks_entries (view (srv w')) STREAM_PAYMENTS = [(j, payment_failed_to_dict
      \<lparr>pf_order_id = order_id (order_heap w ref),
       pf_reason = ''Invalid amount: '' @ show_float fl (amount (order_heap w ref))\<rparr>)] \<and>
    ks_entries (view (srv w')) STREAM_SHIPPING = []"
  by (rule redis_available.run_saga_cancels [OF assms(1) refl assms(3,2,4,5,6,7)])

theorem saga_cancels_witness:
  "\<exists>w' i j k.
    run_saga mem_redis ratio_text demo_uuid 0 [\<lambda>w. w] (demo_world empty_keyspace (Finite (- 5))) = (Inr (), w') \<and>
    get_order ''o1'' w' = Some ((demo_order (Finite (- 5)))\<lparr>status := CANCELLED\<rparr>) \<and>
    ks_entries (srv w') STREAM_ORDERS =
      [(i, order_created_to_dict (created_event ratio_text (demo_order (Finite (- 5))))),
       (k, order_cancelled_to_dict \<lparr>ox_order_id = ''o1'', ox_reason = ''Invalid amount: -5/1''\<rparr>)] \<and>
    ks_entries (srv w') STREAM_PAYMENTS = [(j, payment_failed_to_dict
      \<lparr>pf_order_id = ''o1'', pf_reason = ''Invalid amount: -5/1''\<rparr>)] \<and>
    ks_entries (srv w') STREAM_SHIPPING = []"
proof -
  have "show_float ratio_text (Finite (- 5)) = ''-5/1''" by code_simp
  then show ?thesis
    using saga_cancels [where w = "demo_world empty_keyspace (Finite (- 5))" and ref = 0 and envs = "[]"
        and u = demo_uuid, OF mem.redis_available_axioms ratio_text_ok] by simp
qed

text \<open>
  C16: cause and effect across the services. However many turns the runner takes, and whatever
  other services that keep the same rule do between them, afterwards a completed order was shipped, a
  shipped one was charged, a charged one was ordered with an amount that is not at most zero, and a
  cancelled one had its payment refused for an amount that is.
\<close>

theorem saga_cause_and_effect:
  assumes "redis_server R view" and "run_saga R fl u ref envs w = (Inr x, w')"
    and "\<forall>env \<in> set envs. saga_benign view fl env"
    and "saga_inv fl (view (srv w)) (orders w) (order_heap w)" and "status (order_heap w ref) = PENDING"
    and "get_order oid w' = Some ord"
  shows "(status ord = COMPLETED \<longrightarrow> shipped (view (srv w')) oid \<and> charged (view (srv w')) oid \<and>
      ordered fl (view (srv w')) oid False) \<and>
    (status ord = PAID \<longrightarrow> charged (view (srv w')) oid \<and> ordered fl (view (srv w')) oid False) \<and>
    (status ord = CANCELLED \<longrightarrow> payment_refused (view (srv w')) oid \<and> ordered fl (view (srv w')) oid True) \<and>
    status ord \<noteq> SHIPPED"
proof -
  have inv: "saga_inv fl (view (srv w')) (orders w') (order_heap w')"
    by (rule redis_server.run_saga_inv [OF assms(1-5)])
  obtain ref' where "map_of (orders w') oid = Some ref'" "ord = order_heap w' ref'"
    using assms(6) by (auto simp: get_order_def)
  then have "justified (view (srv w')) oid (status ord)" using inv by (auto simp: saga_inv_def)
  then show ?thesis using inv unfolding saga_inv_def by (cases "status ord") auto
qed

lemma demo_inv: "saga_inv fl empty_keyspace [] heap"
  by (simp add: saga_inv_def charged_def payment_refused_def shipped_def)

theorem saga_cause_and_effect_witness:
  "\<exists>w'. run_saga mem_redis ratio_text demo_uuid 0 [\<lambda>w. w] (demo_world empty_keyspace (Finite 150)) = (Inr (), w') \<and>
    shipped (srv w') ''o1'' \<and> charged (srv w') ''o1'' \<and> ordered ratio_text (srv w') ''o1'' False"
proof -
  let ?w = "demo_world empty_keyspace (Finite 150)"
  have "\<exists>w' i j k tx tn. run_saga mem_redis ratio_text demo_uuid 0 ((\<lambda>w. w) # []) ?w = (Inr (), w') \<and>
      get_order (order_id (demo_order (Finite 150))) w' = Some ((demo_order (Finite 150))\<lparr>status := COMPLETED\<rparr>) \<and>
      ks_entries (srv w') STREAM_ORDERS = [(i, order_created_to_dict (created_event ratio_text (demo_order (Finite 150))))] \<and>
      ks_entries (srv w') STREAM_PAYMENTS = [(j, payment_processed_to_dict
        \<lparr>pp_order_id = order_id (demo_order (Finite 150)), transaction_id = tx\<rparr>)] \<and>
      ks_entries (srv w') STREAM_SHIPPING = [(k, order_shipped_to_dict
        \<lparr>os_order_id = order_id (demo_order (Finite 150)), tracking_number = tn\<rparr>)]"
    by (rule redis_available.run_saga_completes [OF mem.redis_available_axioms]) (simp_all add: ratio_text_ok)
  then obtain w' where run: "run_saga mem_redis ratio_text demo_uuid 0 [\<lambda>w. w] ?w = (Inr (), w')"
    and o1: "get_order ''o1'' w' = Some ((demo_order (Finite 150))\<lparr>status := COMPLETED\<rparr>)"
    by auto
  have "shipped (srv w') ''o1'' \<and> charged (srv w') ''o1'' \<and> ordered ratio_text (srv w') ''o1'' False"
    using saga_cause_and_effect [OF mem.redis_server_axioms run _ _ _ o1]
    by (simp add: saga_benign_def saga_from_def demo_inv)
  then show ?thesis using run by blast
qed

text \<open>
  A restarted runner charges every order again. The cursors live in the run, and a new run reads
  the streams from the beginning: its first turn appends one payment event for every order-created
  event on the stream, besides the one for its own order, whether or not it was charged before.
\<close>

theorem saga_restart_charges_again:
  assumes "redis_server R view" and "run_saga R fl u ref [\<lambda>w. w] w = (Inr (), w')"
    and "length (ks_entries (view (srv w)) STREAM_ORDERS) < 100"
  shows "\<exists>new. ks_entries (view (srv w')) STREAM_PAYMENTS = ks_entries (view (srv w)) STREAM_PAYMENTS @ new \<and>
    length new = length (filter is_created (ks_entries (view (srv w)) STREAM_ORDERS)) + 1"
  by (rule redis_server.run_saga_recharges [OF assms])

definition demo_charged :: keyspace where
  "demo_charged = ks_xadd STREAM_ORDERS ''1'' (order_created_to_dict (created_event ratio_text (demo_order (Finite 1))))
     (ks_xadd STREAM_PAYMENTS ''2'' (payment_processed_to_dict \<lparr>pp_order_id = ''o1'', transaction_id = ''t''\<rparr>)
     empty_keyspace)"

lemma demo_charged_readable: "saga_readable ratio_text demo_charged"
  using saga_event_ok_created [OF demo_order_ok ratio_text_ok]
  by (simp add: saga_readable_def demo_charged_def saga_event_oks valid_utf8_ascii)

lemma demo_charged_runs: "\<exists>w'. run_saga mem_redis ratio_text demo_uuid 0 [\<lambda>w. w]
    (demo_world demo_charged (Finite 150)) = (Inr (), w') \<and> saga_readable ratio_text (srv w')"
  by (rule redis_available.run_saga_total [OF mem.redis_available_axioms])
    (simp_all add: demo_charged_readable ratio_text_ok valid_utf8_ascii)

theorem saga_restart_charges_again_witness:
  "\<exists>w' new. run_saga mem_redis ratio_text demo_uuid 0 [\<lambda>w. w] (demo_world demo_charged (Finite 150)) = (Inr (), w') \<and>
    ks_entries (srv w') STREAM_PAYMENTS = ks_entries demo_charged STREAM_PAYMENTS @ new \<and> length new = 2"
proof -
  obtain w' where run: "run_saga mem_redis ratio_text demo_uuid 0 [\<lambda>w. w]
      (demo_world demo_charged (Finite 150)) = (Inr (), w')"
    using demo_charged_runs by blast
  have "is_created (''1'', order_created_to_dict oc)" for oc by (simp add: is_created_def)
  then show ?thesis
    using saga_restart_charges_again [OF mem.redis_server_axioms run] run
    by (auto simp: demo_charged_def)
qed

text \<open>
  C17: the runner does not fail on readable streams. With the server up and streams on which
  every event can be read, the runner returns without raising after any number of turns, whatever the
  events are and whatever a readable environment adds between the turns, and leaves streams
  on which every event can be read.
\<close>

theorem saga_runner_never_raises:
  assumes "redis_available R view" and "float_text_ok fl" and "\<And>n. is_ascii (u n)"
    and "saga_readable fl (view (srv w))" and "\<forall>r. valid_utf8 (order_id (order_heap w r))"
    and "saga_order_ok (order_heap w ref)"
    and "\<forall>env \<in> set envs. \<forall>l w. saga_wf view fl l w \<longrightarrow> saga_wf view fl l (env w)"
  shows "\<exists>w'. run_saga R fl u ref envs w = (Inr (), w') \<and> saga_readable fl (view (srv w'))"
  by (rule redis_available.run_saga_total [OF assms(1,4,5,6,2,3,7)])

theorem saga_runner_never_raises_witness:
  "\<exists>w'. run_saga mem_redis ratio_text demo_uuid 0 [\<lambda>w. w, \<lambda>w. w] (demo_world demo_charged (Finite 150)) = (Inr (), w') \<and>
    saga_readable ratio_text (srv w')"
  using saga_runner_never_raises [where w = "demo_world demo_charged (Finite 150)" and ref = 0
      and envs = "[\<lambda>w. w, \<lambda>w. w]", OF mem.redis_available_axioms ratio_text_ok is_ascii_nat_digits]
  by (simp add: demo_charged_readable valid_utf8_ascii)

text \<open>
  Without compensation a charge is stranded. When shipping rejects an order the card accepted,
  placing it raises with the charge still on the ledger, nothing shipped and the order left paid.
\<close>

theorem saga_naive_strands_charge:
  assumes "int_of_float (mul_int (amount (nv_heap w ref)) 100) = Inr cents"
    and "order_id (nv_heap w ref) = oid" and "oid \<notin> decline_for w" and "oid \<in> reject_for w"
  shows "\<exists>w'. place_order_without_compensation u ref w =
      (Inl (ShippingUnavailableError (''no stock for '' @ oid)), w') \<and>
    net_cents oid w' = net_cents oid w + cents \<and> shipments w' = shipments w \<and>
    map_option status (naive_get_order oid w') = Some PAID"
  by (rule naive_stranded [OF assms])

definition demo_naive :: naive_world where
  "demo_naive = \<lparr>decline_for = {}, ledger = [], reject_for = {''o1''}, shipments = [], order_svc = [],
     nv_heap = (\<lambda>_. demo_order (Finite (15 / 10))), nv_uuids = 0\<rparr>"

theorem saga_naive_strands_charge_witness:
  "\<exists>w'. place_order_without_compensation demo_uuid 0 demo_naive =
      (Inl (ShippingUnavailableError ''no stock for o1''), w') \<and> net_cents ''o1'' w' = 150 \<and> shipments w' = [] \<and>
    map_option status (naive_get_order ''o1'' w') = Some PAID"
  using saga_naive_strands_charge [where w = demo_naive and ref = 0 and cents = 150 and oid = "''o1''"
      and u = demo_uuid] round53_checks(1)
  by (simp add: demo_naive_def net_cents_def)

end
