(* ===== verification/Priority.thy ===== *)
theory Priority
  imports Redis_Client
begin

section \<open>The priority queue\<close>

text \<open>
  \<^verbatim>\<open>priority_queue_pattern/models.py\<close>, \<^verbatim>\<open>broker.py\<close>, \<^verbatim>\<open>consumer.py\<close> and the baseline \<^verbatim>\<open>naive.py\<close>:
  one stream per priority, a consumer pinned to one of them, a consumer that scans them in order, and
  the single queue. A handler is an effect on the world that may raise. The specification of the strict
  consumer is \<open>serve\<close>, which takes a batch from the first non-empty queue.
\<close>

subsection \<open>Models\<close>

datatype priority = HIGH | NORMAL | LOW

fun priority_value :: "priority \<Rightarrow> string" where
  "priority_value HIGH = ''high''"
| "priority_value NORMAL = ''normal''"
| "priority_value LOW = ''low''"

definition all_priorities :: "priority list" where
  "all_priorities = [HIGH, NORMAL, LOW]"

text \<open>\<^verbatim>\<open>Priority(s)\<close>: the member with that value, or an error.\<close>

definition priority_of :: "string \<Rightarrow> exn + priority" where
  "priority_of s = (case find (\<lambda>p. priority_value p = s) all_priorities of
      None \<Rightarrow> Inl (ValueError (s @ '' is not a valid Priority''))
    | Some p \<Rightarrow> Inr p)"

record support_ticket =
  ticket_id :: string
  subject :: string
  ticket_priority :: priority
  ticket_customer_id :: string

definition ticket_to_fields :: "support_ticket \<Rightarrow> fields" where
  "ticket_to_fields t =
     [(''ticket_id'', ticket_id t), (''subject'', subject t),
      (''priority'', priority_value (ticket_priority t)), (''customer_id'', ticket_customer_id t)]"

definition ticket_from_fields :: "fields \<Rightarrow> exn + support_ticket" where
  "ticket_from_fields f =
     bndr (get_text f ''ticket_id'') (\<lambda>tid.
     bndr (get_text f ''subject'') (\<lambda>sub.
     bndr (bndr (get_text f ''priority'') priority_of) (\<lambda>p.
     bndr (get_text f ''customer_id'') (\<lambda>cid.
     Inr \<lparr>ticket_id = tid, subject = sub, ticket_priority = p, ticket_customer_id = cid\<rparr>))))"

text \<open>The order in which the tiers are meant to be served.\<close>

fun urgency :: "priority \<Rightarrow> nat" where
  "urgency HIGH = 0"
| "urgency NORMAL = 1"
| "urgency LOW = 2"

lemma urgency_inj [simp]: "urgency p = urgency q \<longleftrightarrow> p = q"
  by (cases p; cases q) simp_all

instantiation priority :: linorder
begin

definition less_eq_priority :: "priority \<Rightarrow> priority \<Rightarrow> bool" where
  "less_eq_priority p q \<longleftrightarrow> urgency p \<le> urgency q"

definition less_priority :: "priority \<Rightarrow> priority \<Rightarrow> bool" where
  "less_priority p q \<longleftrightarrow> urgency p < urgency q"

instance
  by standard (auto simp: less_eq_priority_def less_priority_def)

end

subsection \<open>The broker\<close>

fun STREAMS :: "priority \<Rightarrow> string" where
  "STREAMS HIGH = ''support:high''"
| "STREAMS NORMAL = ''support:normal''"
| "STREAMS LOW = ''support:low''"

definition pq_publish :: "'r redis \<Rightarrow> support_ticket \<Rightarrow> (('r, 'x) world_scheme, string) io" where
  "pq_publish R ticket =
     (let stream = STREAMS (ticket_priority ticket) in
      bnd (redis_call (xadd R stream (ticket_to_fields ticket))) (\<lambda>msg_id.
      bnd (incr ''priority_queue'' ''tickets_published'' 1) (\<lambda>_.
      bnd (incr ''priority_queue'' (priority_value (ticket_priority ticket) @ ''_published'') 1) (\<lambda>_.
      ret msg_id))))"

definition pq_ensure_group :: "'r redis \<Rightarrow> priority \<Rightarrow> string \<Rightarrow> (('r, 'x) world_scheme, bool) io" where
  "pq_ensure_group R priority grp =
     bnd (try_io (redis_call (xgroup_create R (STREAMS priority) grp))) created_or_busy"

definition pq_ensure_groups :: "'r redis \<Rightarrow> priority list \<Rightarrow> string \<Rightarrow> (('r, 'x) world_scheme, unit) io" where
  "pq_ensure_groups R ps grp =
     for_each (\<lambda>priority _. bnd (pq_ensure_group R priority grp) (\<lambda>_. ret ())) ps ()"

definition pq_ensure_all_groups :: "'r redis \<Rightarrow> string \<Rightarrow> (('r, 'x) world_scheme, unit) io" where
  "pq_ensure_all_groups R grp = pq_ensure_groups R all_priorities grp"

definition pq_read_new :: "'r redis \<Rightarrow> priority \<Rightarrow> string \<Rightarrow> string \<Rightarrow> int \<Rightarrow> int \<Rightarrow>
    (('r, 'x) world_scheme, entry list) io" where
  "pq_read_new R priority grp consumer count block_ms =
     (let block = (if 0 < block_ms then Some block_ms else None) in
      bnd (redis_call (xreadgroup R grp consumer (STREAMS priority) ''>'' count block)) (\<lambda>results.
      ret (first_stream results)))"

definition pq_ack :: "'r redis \<Rightarrow> priority \<Rightarrow> string \<Rightarrow> string \<Rightarrow> (('r, 'x) world_scheme, int) io" where
  "pq_ack R priority grp message_id = redis_call (xack R (STREAMS priority) grp message_id)"

definition pq_pending_count :: "'r redis \<Rightarrow> priority \<Rightarrow> string \<Rightarrow> (('r, 'x) world_scheme, int) io" where
  "pq_pending_count R priority grp = redis_call (xpending R (STREAMS priority) grp)"

subsection \<open>The consumers\<close>

type_synonym ('r, 'x) pq_handler = "string \<Rightarrow> support_ticket \<Rightarrow> (('r, 'x) world_scheme, unit) io"

definition pq_one :: "'r redis \<Rightarrow> priority \<Rightarrow> string \<Rightarrow> string \<Rightarrow> ('r, 'x) pq_handler \<Rightarrow> entry \<Rightarrow> int \<Rightarrow>
    (('r, 'x) world_scheme, int) io" where
  "pq_one R priority grp consumer_id handler m total_handled =
     bnd (liftr (ticket_from_fields (snd m))) (\<lambda>ticket.
     bnd (handler consumer_id ticket) (\<lambda>_.
     bnd (pq_ack R priority grp (fst m)) (\<lambda>_.
     bnd (incr ''priority_queue'' ''tickets_consumed'' 1) (\<lambda>_.
     bnd (incr ''priority_queue'' (priority_value priority @ ''_consumed'') 1) (\<lambda>_.
     ret (total_handled + 1))))))"

fun pq_loop :: "'r redis \<Rightarrow> priority \<Rightarrow> string \<Rightarrow> string \<Rightarrow> ('r, 'x) pq_handler \<Rightarrow> int \<Rightarrow> int \<Rightarrow>
    (('r, 'x) world_scheme \<Rightarrow> ('r, 'x) world_scheme) list \<Rightarrow> int \<Rightarrow> (('r, 'x) world_scheme, int) io" where
  "pq_loop R p g c h n b [] total_handled = ret total_handled"
| "pq_loop R p g c h n b (env # envs) total_handled =
     bnd (modify env) (\<lambda>_.
     bnd (pq_read_new R p g c n b) (\<lambda>batch.
     bnd (for_each (pq_one R p g c h) batch total_handled) (\<lambda>total_handled.
     pq_loop R p g c h n b envs total_handled)))"

definition pq_run_consumer :: "'r redis \<Rightarrow> priority \<Rightarrow> string \<Rightarrow> string \<Rightarrow> ('r, 'x) pq_handler \<Rightarrow> int \<Rightarrow> int \<Rightarrow>
    (('r, 'x) world_scheme \<Rightarrow> ('r, 'x) world_scheme) list \<Rightarrow> (('r, 'x) world_scheme, int) io" where
  "pq_run_consumer R priority consumer_id grp handler count block_ms envs =
     bnd (pq_ensure_group R priority grp) (\<lambda>_.
     pq_loop R priority grp consumer_id handler count block_ms envs 0)"

text \<open>The scan: the first tier with messages is handled and ends it.\<close>

fun strict_scan :: "'r redis \<Rightarrow> string \<Rightarrow> string \<Rightarrow> ('r, 'x) pq_handler \<Rightarrow> int \<Rightarrow> priority list \<Rightarrow> int \<Rightarrow>
    (('r, 'x) world_scheme, int) io" where
  "strict_scan R g c h n [] total_handled = ret total_handled"
| "strict_scan R g c h n (priority # ps) total_handled =
     bnd (pq_read_new R priority g c n 0) (\<lambda>batch.
     if batch = [] then strict_scan R g c h n ps total_handled
     else for_each (pq_one R priority g c h) batch total_handled)"

fun strict_loop :: "'r redis \<Rightarrow> string \<Rightarrow> string \<Rightarrow> ('r, 'x) pq_handler \<Rightarrow> int \<Rightarrow> priority list \<Rightarrow>
    (('r, 'x) world_scheme \<Rightarrow> ('r, 'x) world_scheme) list \<Rightarrow> int \<Rightarrow> (('r, 'x) world_scheme, int) io" where
  "strict_loop R g c h n order [] total_handled = ret total_handled"
| "strict_loop R g c h n order (env # envs) total_handled =
     bnd (modify env) (\<lambda>_.
     bnd (strict_scan R g c h n order total_handled) (\<lambda>total_handled.
     strict_loop R g c h n order envs total_handled))"

definition run_strict_priority_consumer :: "'r redis \<Rightarrow> string \<Rightarrow> string \<Rightarrow> ('r, 'x) pq_handler \<Rightarrow>
    priority list option \<Rightarrow> int \<Rightarrow> (('r, 'x) world_scheme \<Rightarrow> ('r, 'x) world_scheme) list \<Rightarrow>
    (('r, 'x) world_scheme, int) io" where
  "run_strict_priority_consumer R consumer_id grp handler priorities count envs =
     (let scan_order = (case priorities of Some ps \<Rightarrow> ps | None \<Rightarrow> [HIGH, NORMAL, LOW]) in
      bnd (pq_ensure_groups R scan_order grp) (\<lambda>_.
      strict_loop R grp consumer_id handler count scan_order envs 0))"

subsection \<open>The single queue\<close>

definition SINGLE_STREAM :: string where
  "SINGLE_STREAM = ''support:all''"

definition fifo_ensure_group :: "'r redis \<Rightarrow> string \<Rightarrow> (('r, 'x) world_scheme, unit) io" where
  "fifo_ensure_group R grp =
     bnd (try_io (redis_call (xgroup_create R SINGLE_STREAM grp))) (\<lambda>res.
     bnd (created_or_busy res) (\<lambda>_. ret ()))"

definition fifo_publish :: "'r redis \<Rightarrow> support_ticket \<Rightarrow> (('r, 'x) world_scheme, string) io" where
  "fifo_publish R ticket = redis_call (xadd R SINGLE_STREAM (ticket_to_fields ticket))"

definition fifo_one :: "'r redis \<Rightarrow> string \<Rightarrow> string \<Rightarrow> ('r, 'x) pq_handler \<Rightarrow> entry \<Rightarrow> support_ticket list \<Rightarrow>
    (('r, 'x) world_scheme, support_ticket list) io" where
  "fifo_one R grp consumer_id handler m served =
     bnd (liftr (ticket_from_fields (snd m))) (\<lambda>ticket.
     bnd (handler consumer_id ticket) (\<lambda>_.
     bnd (redis_call (xack R SINGLE_STREAM grp (fst m))) (\<lambda>_.
     ret (served @ [ticket]))))"

fun fifo_polls :: "'r redis \<Rightarrow> string \<Rightarrow> string \<Rightarrow> ('r, 'x) pq_handler \<Rightarrow> int \<Rightarrow> nat \<Rightarrow> support_ticket list \<Rightarrow>
    (('r, 'x) world_scheme, support_ticket list) io" where
  "fifo_polls R g c h n 0 served = ret served"
| "fifo_polls R g c h n (Suc k) served =
     bnd (redis_call (xreadgroup R g c SINGLE_STREAM ''>'' n None)) (\<lambda>results.
     bnd (for_each (fifo_one R g c h) (first_stream results) served) (\<lambda>served.
     fifo_polls R g c h n k served))"

definition run_fifo_consumer :: "'r redis \<Rightarrow> string \<Rightarrow> string \<Rightarrow> ('r, 'x) pq_handler \<Rightarrow> nat \<Rightarrow> int \<Rightarrow>
    (('r, 'x) world_scheme, support_ticket list) io" where
  "run_fifo_consumer R grp consumer_id handler max_polls count =
     bnd (fifo_ensure_group R grp) (\<lambda>_.
     fifo_polls R grp consumer_id handler count max_polls [])"

subsection \<open>Tickets\<close>

lemma priority_of_value [simp]: "priority_of (priority_value p) = Inr p"
  by (cases p) (simp_all add: priority_of_def all_priorities_def)

lemma priority_of_Inr: "priority_of s = Inr p \<longleftrightarrow> s = priority_value p"
proof
  assume "priority_of s = Inr p"
  then have "find (\<lambda>p. priority_value p = s) all_priorities = Some p"
    by (simp add: priority_of_def split: option.splits)
  then show "s = priority_value p" by (auto simp: find_Some_iff)
qed simp

lemma priority_of_Inl: "priority_of s = Inl e \<Longrightarrow> e = ValueError (s @ '' is not a valid Priority'')"
  by (auto simp: priority_of_def split: option.splits)

lemma priority_value_decodes [simp]: "py_decode (priority_value p) = Inr (priority_value p)"
  by (cases p) (simp_all add: is_ascii_def py_decode_ascii)

lemma STREAMS_inj [simp]: "STREAMS p = STREAMS q \<longleftrightarrow> p = q"
  by (cases p; cases q) simp_all

declare STREAMS.simps [simp del]

lemma all_priorities_complete: "p \<in> set all_priorities"
  by (cases p) (simp_all add: all_priorities_def)

definition ticket_ok :: "support_ticket \<Rightarrow> bool" where
  "ticket_ok t \<longleftrightarrow> valid_utf8 (ticket_id t) \<and> valid_utf8 (subject t) \<and> valid_utf8 (ticket_customer_id t)"

lemma ticket_fields:
  "dict_item (ticket_to_fields t) ''ticket_id'' = Inr (ticket_id t)"
  "dict_item (ticket_to_fields t) ''subject'' = Inr (subject t)"
  "dict_item (ticket_to_fields t) ''priority'' = Inr (priority_value (ticket_priority t))"
  "dict_item (ticket_to_fields t) ''customer_id'' = Inr (ticket_customer_id t)"
  by (simp_all add: ticket_to_fields_def dict_item_def)

lemma ticket_from_to_fields: "ticket_ok t \<Longrightarrow> ticket_from_fields (ticket_to_fields t) = Inr t"
  unfolding ticket_from_fields_def get_text_def ticket_fields bndr_simps ticket_ok_def priority_value_decodes
    priority_of_value by simp

lemma ticket_from_fields_priority:
  "ticket_from_fields f = Inr t \<Longrightarrow> map_of f ''priority'' = Some (priority_value (ticket_priority t))"
  by (auto simp: ticket_from_fields_def get_text_def dict_item_def bndr_Inr_iff priority_of_Inr py_decode_Inr
      split: option.splits)

subsection \<open>The specification: serve the first non-empty queue\<close>

definition serve :: "nat \<Rightarrow> priority list \<Rightarrow> (priority \<Rightarrow> 'a list) \<Rightarrow> 'a list \<times> (priority \<Rightarrow> 'a list)" where
  "serve n order q = (case find (\<lambda>p. q p \<noteq> []) order of
      None \<Rightarrow> ([], q)
    | Some p \<Rightarrow> (take n (q p), q(p := drop n (q p))))"

fun serve_turns :: "nat \<Rightarrow> priority list \<Rightarrow> nat \<Rightarrow> (priority \<Rightarrow> 'a list) \<Rightarrow> 'a list \<times> (priority \<Rightarrow> 'a list)" where
  "serve_turns n order 0 q = ([], q)"
| "serve_turns n order (Suc k) q =
     (let (now, q1) = serve n order q; (later, q2) = serve_turns n order k q1 in (now @ later, q2))"

lemma serve_first:
  assumes "fst (serve n order q) \<noteq> []"
  shows "\<exists>before p after. order = before @ p # after \<and> (\<forall>b \<in> set before. q b = []) \<and>
    fst (serve n order q) = take n (q p)"
  using assms
proof (induction order)
  case Nil
  then show ?case by (simp add: serve_def)
next
  case (Cons p order)
  show ?case
  proof (cases "q p = []")
    case True
    then have "serve n (p # order) q = serve n order q" by (simp add: serve_def)
    then obtain before p' after where "order = before @ p' # after" "\<forall>b \<in> set before. q b = []"
      "fst (serve n (p # order) q) = take n (q p')" using Cons by force
    then show ?thesis using True by (intro exI [of _ "p # before"]) auto
  next
    case False
    then show ?thesis by (intro exI [of _ "[]"]) (simp add: serve_def)
  qed
qed

text \<open>One turn moves the front of the backlog, taken tier by tier, to the output.\<close>

lemma serve_backlog:
  "distinct order \<Longrightarrow> fst (serve n order q) @ concat (map (snd (serve n order q)) order) = concat (map q order)"
proof (induction order)
  case Nil
  then show ?case by (simp add: serve_def)
next
  case (Cons p order)
  show ?case
  proof (cases "q p = []")
    case True
    then have s: "serve n (p # order) q = serve n order q" by (simp add: serve_def)
    have "snd (serve n order q) p = []"
      using True Cons.prems by (auto simp: serve_def split: option.splits dest: find_Some_iff [THEN iffD1])
    then show ?thesis using Cons True by (simp add: s)
  next
    case False
    have "map (\<lambda>a. if a = p then drop n (q p) else q a) order = map q order"
      using Cons.prems by (intro map_cong) auto
    then have "concat (map (\<lambda>a. if a = p then drop n (q p) else q a) order) = concat (map q order)" by (rule arg_cong)
    then show ?thesis using False by (simp add: serve_def fun_upd_def)
  qed
qed

lemma serve_progress:
  assumes "1 \<le> n" and "distinct order"
  shows "concat (map q order) = [] \<or> fst (serve n order q) \<noteq> []"
proof (cases "find (\<lambda>p. q p \<noteq> []) order")
  case None
  then show ?thesis by (simp add: find_None_iff)
next
  case (Some p)
  then have "q p \<noteq> []" by (auto simp: find_Some_iff)
  then show ?thesis using Some assms(1) by (simp add: serve_def)
qed

lemma serve_turns_backlog:
  assumes "distinct order"
  shows "fst (serve_turns n order k q) @ concat (map (snd (serve_turns n order k q)) order) = concat (map q order)"
proof (induction k arbitrary: q)
  case (Suc k)
  then show ?case using serve_backlog [OF assms, of n q]
    by (simp add: Let_def case_prod_beta)
qed simp

lemma serve_turns_all:
  assumes "1 \<le> n" and "distinct order" and "length (concat (map q order)) \<le> k"
  shows "fst (serve_turns n order k q) = concat (map q order)"
proof -
  have "length (concat (map (snd (serve_turns n order k q)) order)) \<le> length (concat (map q order)) - k"
  proof (induction k arbitrary: q)
    case (Suc k)
    let ?q1 = "snd (serve n order q)"
    have "length (concat (map (snd (serve_turns n order k ?q1)) order)) \<le> length (concat (map ?q1 order)) - k"
      by (rule Suc)
    moreover have "length (concat (map ?q1 order)) \<le> length (concat (map q order)) - 1"
    proof (cases "concat (map q order) = []")
      case True
      then show ?thesis using serve_backlog [OF assms(2), of n q] by (metis append_is_Nil_conv le0 list.size(3))
    next
      case False
      then have "1 \<le> length (fst (serve n order q))"
        using serve_progress [OF assms(1,2)] by (metis Suc_leI One_nat_def length_greater_0_conv)
      then show ?thesis using arg_cong [OF serve_backlog [OF assms(2), of n q], of length]
        by (simp only: length_append)
    qed
    ultimately show ?case by (simp add: Let_def case_prod_beta)
  qed simp
  then have "concat (map (snd (serve_turns n order k q)) order) = []" using assms(3)
    by (metis diff_is_0_eq' le_zero_eq length_0_conv)
  then show ?thesis using serve_turns_backlog [OF assms(2), of n k q] by (metis append_Nil2)
qed


subsection \<open>The strict consumer implements the specification\<close>

text \<open>
  \<open>tiers k g order q pl\<close>: every tier of \<open>order\<close> has the group, with \<open>q p\<close> undelivered and \<open>pl p\<close>
  delivered and unacknowledged (to this consumer or to others).
\<close>

definition tiers :: "keyspace \<Rightarrow> string \<Rightarrow> priority list \<Rightarrow> (priority \<Rightarrow> entry list) \<Rightarrow> (priority \<Rightarrow> entry list) \<Rightarrow> bool" where
  "tiers k g order q pl \<longleftrightarrow> (\<forall>p \<in> set order. distinct (map fst (pl p @ q p)) \<and>
     (\<exists>gr. ks_group k (STREAMS p) g = Some gr \<and> g_new gr = q p \<and> pel_entries gr = pl p))"

text \<open>A handler that succeeds and adds \<open>item t\<close> to the log kept in its part of the world.\<close>

definition logs_ticket_as :: "(support_ticket \<Rightarrow> 'y list) \<Rightarrow> ('x \<Rightarrow> 'y list) \<Rightarrow> string \<Rightarrow> ('r, 'x) pq_handler \<Rightarrow> bool" where
  "logs_ticket_as item lg c h \<longleftrightarrow>
     (\<forall>t w. \<exists>w'. h c t w = (Inr (), w') \<and> srv w' = srv w \<and> lg (app w') = lg (app w) @ item t)"

definition logs_ticket :: "('x \<Rightarrow> support_ticket list) \<Rightarrow> ('r, 'x) pq_handler \<Rightarrow> bool" where
  "logs_ticket lg h \<longleftrightarrow> (\<forall>c t w. \<exists>w'. h c t w = (Inr (), w') \<and> srv w' = srv w \<and> lg (app w') = lg (app w) @ [t])"

lemma logs_ticket_as: "logs_ticket lg h \<Longrightarrow> logs_ticket_as (\<lambda>t. [t]) lg c h"
  by (simp add: logs_ticket_def logs_ticket_as_def)

definition readable :: "entry list \<Rightarrow> bool" where
  "readable es \<longleftrightarrow> (\<forall>e \<in> set es. \<exists>t. ticket_from_fields (snd e) = Inr t)"

definition the_ticket :: "entry \<Rightarrow> support_ticket" where
  "the_ticket e = projr (ticket_from_fields (snd e))"

definition log_of :: "(support_ticket \<Rightarrow> 'y list) \<Rightarrow> entry list \<Rightarrow> 'y list" where
  "log_of item es = concat (map (\<lambda>e. item (the_ticket e)) es)"

lemma log_of_simps [simp]: "log_of item [] = []" "log_of item (e # es) = item (the_ticket e) @ log_of item es"
  "log_of item (es @ fs) = log_of item es @ log_of item fs" "log_of (\<lambda>t. [t]) es = map the_ticket es"
  by (simp_all add: log_of_def)

lemma readable_simps [simp]: "readable []" "readable (e # es) \<longleftrightarrow> ticket_from_fields (snd e) = Inr (the_ticket e) \<and> readable es"
  "readable (es @ fs) \<longleftrightarrow> readable es \<and> readable fs"
  by (auto simp: readable_def the_ticket_def)

lemma readable_take: "readable es \<Longrightarrow> readable (take n es)" and readable_drop: "readable es \<Longrightarrow> readable (drop n es)"
  by (auto simp: readable_def dest: in_set_takeD in_set_dropD)

lemmas pq_idioms = pq_read_new_def [unfolded Let_def, folded group_read_def] pq_ack_def [folded group_ack_def]
  pq_ensure_group_def [folded group_create_def]

context redis_available
begin

lemma pq_one_logs:
  assumes h: "logs_ticket_as item lg c h" and t: "ticket_from_fields (snd m) = Inr t"
  obtains w' where "pq_one R p g c h m n w = (Inr (n + 1), w')"
    and "kv w' = ks_ack (STREAMS p) g (fst m) (kv w)" and "lg (app w') = lg (app w) @ item t"
proof -
  obtain w1 where h1: "h c t w = (Inr (), w1)" "srv w1 = srv w" "lg (app w1) = lg (app w) @ item t"
    using h unfolding logs_ticket_as_def by metis
  obtain k w2 where a: "pq_ack R p g (fst m) w1 = (Inr k, w2)"
    unfolding pq_idioms by (rule group_ack_up)
  show ?thesis using that h1 group_ack_effect [OF a [unfolded pq_idioms]]
    by (simp add: pq_one_def t bnd_def h1(1) a incr_def)
qed

lemma pq_batch_logs:
  assumes h: "logs_ticket_as item lg c h" and "readable batch" and "ks_group (kv w) (STREAMS p) g = Some gr"
    and "pel_entries gr = pl @ batch" and "distinct (map fst (pl @ batch))"
  shows "\<exists>w' gr'. for_each (pq_one R p g c h) batch n w = (Inr (n + int (length batch)), w') \<and>
    ks_group (kv w') (STREAMS p) g = Some gr' \<and> pel_entries gr' = pl \<and> g_new gr' = g_new gr \<and>
    (\<forall>q. q \<noteq> p \<longrightarrow> ks_group (kv w') (STREAMS q) g = ks_group (kv w) (STREAMS q) g) \<and>
    lg (app w') = lg (app w) @ log_of item batch"
  using assms(2-)
proof (induction batch arbitrary: n w gr)
  case Nil
  then show ?case by simp
next
  case (Cons m batch)
  have t: "ticket_from_fields (snd m) = Inr (the_ticket m)" "readable batch" using Cons.prems(1) by simp_all
  obtain w1 where w1: "pq_one R p g c h m n w = (Inr (n + 1), w1)"
    "kv w1 = ks_ack (STREAMS p) g (fst m) (kv w)" "lg (app w1) = lg (app w) @ item (the_ticket m)"
    by (rule pq_one_logs [OF h t(1)])
  have "filter (\<lambda>e. fst e \<noteq> fst m) (pl @ batch) = pl @ batch"
    using Cons.prems(4) by (intro filter_True) (auto simp: image_iff)
  then have "pel_entries (unpend (fst m) gr) = pl @ batch" using Cons.prems(3) by simp
  then show ?case
    using Cons.IH [OF t(2), of w1 "unpend (fst m) gr" "n + 1"] Cons.prems(2,4) w1
    by (auto simp: bnd_def)
qed

lemma strict_scan_serves:
  assumes h: "logs_ticket_as item lg c h" and n: "1 \<le> n" and "distinct order"
    and "tiers (kv w) g order q pl" and "\<forall>p \<in> set order. readable (q p)"
  shows "\<exists>w'. strict_scan R g c h n order t w =
      (Inr (t + int (length (fst (serve (nat n) order q)))), w') \<and>
    tiers (kv w') g order (snd (serve (nat n) order q)) pl \<and>
    (\<forall>p. p \<notin> set order \<longrightarrow> ks_group (kv w') (STREAMS p) g = ks_group (kv w) (STREAMS p) g) \<and>
    lg (app w') = lg (app w) @ log_of item (fst (serve (nat n) order q))"
  using assms(3-)
proof (induction order arbitrary: w)
  case Nil
  then show ?case by (simp add: serve_def)
next
  case (Cons p order)
  obtain gr where gr: "ks_group (kv w) (STREAMS p) g = Some gr" "g_new gr = q p" "pel_entries gr = pl p"
    and ids: "distinct (map fst (pl p @ q p))" using Cons.prems(2) by (auto simp: tiers_def)
  obtain bt w1 where bt: "pq_read_new R p g c n 0 w = (Inr bt, w1)"
    unfolding pq_idioms using gr n by (metis group_read_up insertI1 option.distinct(1))
  define d where "d = deliver c (ks_time (kv w)) (nat n) gr"
  have w1: "bt = take (nat n) (q p)" "kv w1 = ks_put_group (STREAMS p) g d (kv w)" "app w1 = app w"
    using group_read_new_effect [OF bt [unfolded pq_idioms] n] gr by (auto simp: d_def)
  have d: "g_new d = drop (nat n) (q p)" "pel_entries d = pl p @ bt" by (simp_all add: d_def gr w1(1))
  have rest: "tiers (kv w1) g order q pl" using Cons.prems(1,2) by (auto simp: tiers_def w1(2))
  show ?case
  proof (cases "q p = []")
    case True
    then have s: "serve (nat n) (p # order) q = serve (nat n) order q" by (simp add: serve_def)
    have same: "snd (serve (nat n) order q) p = q p"
      using Cons.prems(1) by (auto simp: serve_def split: option.splits dest: find_Some_iff [THEN iffD1])
    obtain w' where w': "strict_scan R g c h n order t w1 =
        (Inr (t + int (length (fst (serve (nat n) order q)))), w')"
      "tiers (kv w') g order (snd (serve (nat n) order q)) pl"
      "\<forall>p. p \<notin> set order \<longrightarrow> ks_group (kv w') (STREAMS p) g = ks_group (kv w1) (STREAMS p) g"
      "lg (app w') = lg (app w1) @ log_of item (fst (serve (nat n) order q))"
      using Cons.IH [OF _ rest] Cons.prems(1,3) by auto
    have "ks_group (kv w') (STREAMS p) g = Some d" using w'(3) Cons.prems(1) by (simp add: w1(2))
    then have "tiers (kv w') g (p # order) (snd (serve (nat n) order q)) pl"
      using w'(2) ids d True w1(1) by (simp add: tiers_def same)
    then show ?thesis using w' w1 True by (simp add: s bnd_def bt)
  next
    case False
    then have s: "serve (nat n) (p # order) q = (bt, q(p := drop (nat n) (q p)))" by (simp add: serve_def w1(1))
    have ne: "bt \<noteq> []" using False n by (simp add: w1(1))
    have "map fst (pl p @ bt) = take (length (pl p) + nat n) (map fst (pl p @ q p))"
      by (simp add: w1(1) take_map)
    then have dist: "distinct (map fst (pl p @ bt))" using distinct_take [OF ids] by metis
    have rd: "readable bt" using Cons.prems(3) readable_take by (simp add: w1(1))
    have gr1: "ks_group (kv w1) (STREAMS p) g = Some d" by (simp add: w1(2))
    obtain w' gr' where w': "for_each (pq_one R p g c h) bt t w1 = (Inr (t + int (length bt)), w')"
      "ks_group (kv w') (STREAMS p) g = Some gr'" "pel_entries gr' = pl p" "g_new gr' = g_new d"
      "\<forall>q. q \<noteq> p \<longrightarrow> ks_group (kv w') (STREAMS q) g = ks_group (kv w1) (STREAMS q) g"
      "lg (app w') = lg (app w1) @ log_of item bt"
      using pq_batch_logs [OF h rd gr1 d(2) dist] by blast
    have "tiers (kv w') g (p # order) (q(p := drop (nat n) (q p))) pl"
    proof -
      have "distinct (map fst (pl p @ drop (nat n) (q p)))"
        using ids distinct_drop [of "map fst (q p)" "nat n"] set_drop_subset [of "nat n" "map fst (q p)"]
        by (auto simp: drop_map)
      then show ?thesis using w'(2-5) d rest Cons.prems(1) by (auto simp: tiers_def)
    qed
    then show ?thesis using w' w1 ne by (simp add: s bnd_def bt del: fun_upd_apply)
  qed
qed

lemma strict_loop_serves:
  assumes h: "logs_ticket_as item lg c h" and n: "1 \<le> n" and o: "distinct order"
    and "tiers (kv w) g order q pl" and "\<forall>p \<in> set order. readable (q p)"
  shows "\<exists>w'. strict_loop R g c h n order (replicate k (\<lambda>w. w)) t w =
      (Inr (t + int (length (fst (serve_turns (nat n) order k q)))), w') \<and>
    tiers (kv w') g order (snd (serve_turns (nat n) order k q)) pl \<and>
    lg (app w') = lg (app w) @ log_of item (fst (serve_turns (nat n) order k q))"
  using assms(4-)
proof (induction k arbitrary: q t w)
  case 0
  then show ?case by simp
next
  case (Suc k)
  let ?q = "snd (serve (nat n) order q)"
  obtain w1 where w1: "strict_scan R g c h n order t w = (Inr (t + int (length (fst (serve (nat n) order q)))), w1)"
    "tiers (kv w1) g order ?q pl" "lg (app w1) = lg (app w) @ log_of item (fst (serve (nat n) order q))"
    using strict_scan_serves [OF h n o Suc.prems] by blast
  have "\<forall>p \<in> set order. readable (?q p)"
    using Suc.prems(2) readable_drop by (auto simp: serve_def split: option.splits)
  then obtain w' where "strict_loop R g c h n order (replicate k (\<lambda>w. w))
      (t + int (length (fst (serve (nat n) order q)))) w1 =
      (Inr (t + int (length (fst (serve (nat n) order q))) + int (length (fst (serve_turns (nat n) order k ?q)))), w')"
    "tiers (kv w') g order (snd (serve_turns (nat n) order k ?q)) pl"
    "lg (app w') = lg (app w1) @ log_of item (fst (serve_turns (nat n) order k ?q))"
    using Suc.IH [OF w1(2)] by blast
  then show ?case using w1 by (simp add: bnd_def Let_def case_prod_beta add.assoc)
qed


lemma pq_ensure_groups_up:
  assumes "distinct order" and "\<forall>p \<in> set order. ks_group (kv w) (STREAMS p) g = None"
  shows "\<exists>w'. pq_ensure_groups R order g w = (Inr (), w') \<and> app w' = app w \<and>
    ks_entries (kv w') = ks_entries (kv w) \<and>
    (\<forall>p. ks_group (kv w') (STREAMS p) g =
      (if p \<in> set order then Some (new_group (ks_entries (kv w) (STREAMS p))) else ks_group (kv w) (STREAMS p) g))"
  using assms
proof (induction order arbitrary: w)
  case Nil
  then show ?case by (simp add: pq_ensure_groups_def)
next
  case (Cons p order)
  obtain b w1 where mk: "pq_ensure_group R p g w = (Inr b, w1)"
    unfolding pq_idioms by (rule group_create_up)
  have w1: "kv w1 = ks_put_group (STREAMS p) g (new_group (ks_entries (kv w) (STREAMS p))) (kv w)" "app w1 = app w"
    using group_create_effect [OF mk [unfolded pq_idioms]] Cons.prems(2) by auto
  have none: "\<forall>p \<in> set order. ks_group (kv w1) (STREAMS p) g = None" using Cons.prems by (auto simp: w1)
  obtain w' where w': "pq_ensure_groups R order g w1 = (Inr (), w')" "app w' = app w1"
    "ks_entries (kv w') = ks_entries (kv w1)"
    "\<forall>p. ks_group (kv w') (STREAMS p) g = (if p \<in> set order then Some (new_group (ks_entries (kv w1) (STREAMS p)))
      else ks_group (kv w1) (STREAMS p) g)"
    using Cons.IH [OF _ none] Cons.prems(1) by auto
  have "pq_ensure_groups R (p # order) g w = pq_ensure_groups R order g w1"
    by (simp add: pq_ensure_groups_def bnd_def mk)
  then show ?case using w' w1 by auto
qed

lemma strict_run_serves:
  assumes h: "logs_ticket_as item lg c h" and n: "1 \<le> n" and o: "distinct order"
    and new: "\<forall>p \<in> set order. ks_group (kv w) (STREAMS p) g = None"
    and ok: "\<forall>p \<in> set order. distinct (map fst (ks_entries (kv w) (STREAMS p))) \<and>
      readable (ks_entries (kv w) (STREAMS p))"
    and k: "length (concat (map (\<lambda>p. ks_entries (kv w) (STREAMS p)) order)) \<le> k"
  shows "\<exists>w'. run_strict_priority_consumer R c g h (Some order) n (replicate k (\<lambda>w. w)) w =
      (Inr (int (length (concat (map (\<lambda>p. ks_entries (kv w) (STREAMS p)) order)))), w') \<and>
    lg (app w') = lg (app w) @ log_of item (concat (map (\<lambda>p. ks_entries (kv w) (STREAMS p)) order)) \<and>
    (\<forall>p \<in> set order. \<exists>gr. ks_group (kv w') (STREAMS p) g = Some gr \<and> outstanding gr = [])"
proof -
  let ?q = "\<lambda>p. ks_entries (kv w) (STREAMS p)"
  obtain w1 where mk: "pq_ensure_groups R order g w = (Inr (), w1)" "app w1 = app w"
    "ks_entries (kv w1) = ks_entries (kv w)"
    "\<forall>p. ks_group (kv w1) (STREAMS p) g = (if p \<in> set order then Some (new_group (?q p))
      else ks_group (kv w) (STREAMS p) g)"
    using pq_ensure_groups_up [OF o new] by auto
  have t: "tiers (kv w1) g order ?q (\<lambda>_. [])" using ok mk(4) by (simp add: tiers_def)
  have all: "fst (serve_turns (nat n) order k ?q) = concat (map ?q order)"
    by (rule serve_turns_all [OF _ o k]) (use n in simp)
  have none: "snd (serve_turns (nat n) order k ?q) p = []" if "p \<in> set order" for p
    using serve_turns_backlog [OF o, of "nat n" k ?q] all that by simp
  obtain w' where w': "strict_loop R g c h n order (replicate k (\<lambda>w. w)) 0 w1 =
      (Inr (0 + int (length (fst (serve_turns (nat n) order k ?q)))), w')"
    "tiers (kv w') g order (snd (serve_turns (nat n) order k ?q)) (\<lambda>_. [])"
    "lg (app w') = lg (app w1) @ log_of item (fst (serve_turns (nat n) order k ?q))"
    using strict_loop_serves [OF h n o t] ok by blast
  have "\<forall>p \<in> set order. \<exists>gr. ks_group (kv w') (STREAMS p) g = Some gr \<and> outstanding gr = []"
    using w'(2) none by (fastforce simp: tiers_def outstanding_def)
  then show ?thesis using w' mk(1,2) unfolding all
    by (simp add: run_strict_priority_consumer_def bnd_def)
qed

text \<open>The consumer pinned to one priority.\<close>

lemma pq_loop_drains:
  assumes h: "logs_ticket_as item lg c h" and n: "1 \<le> n" and "tiers (kv w) g [p] q (\<lambda>_. [])" and "readable (q p)"
    and "length (q p) \<le> nat n * k"
  shows "\<exists>w'. pq_loop R p g c h n b (replicate k (\<lambda>w. w)) t w = (Inr (t + int (length (q p))), w') \<and>
    tiers (kv w') g [p] (\<lambda>_. []) (\<lambda>_. []) \<and>
    (\<forall>q. q \<noteq> p \<longrightarrow> ks_group (kv w') (STREAMS q) g = ks_group (kv w) (STREAMS q) g) \<and>
    lg (app w') = lg (app w) @ log_of item (q p)"
  using assms(3-)
proof (induction k arbitrary: q t w)
  case 0
  then show ?case by (simp add: tiers_def)
next
  case (Suc k)
  obtain gr where gr: "ks_group (kv w) (STREAMS p) g = Some gr" "g_new gr = q p" "pel_entries gr = []"
    and ids: "distinct (map fst (q p))" using Suc.prems(1) by (auto simp: tiers_def)
  obtain bt w1 where bt: "pq_read_new R p g c n b w = (Inr bt, w1)"
    unfolding pq_idioms using gr n by (metis group_read_up insertI1 option.distinct(1))
  define d where "d = deliver c (ks_time (kv w)) (nat n) gr"
  have w1: "bt = take (nat n) (q p)" "kv w1 = ks_put_group (STREAMS p) g d (kv w)" "app w1 = app w"
    using group_read_new_effect [OF bt [unfolded pq_idioms] n] gr by (auto simp: d_def)
  have d: "g_new d = drop (nat n) (q p)" "pel_entries d = [] @ bt" by (simp_all add: d_def gr w1(1))
  have dist: "distinct (map fst ([] @ bt))" using distinct_take [OF ids] by (simp add: w1(1) take_map)
  have rd: "readable bt" using Suc.prems(2) readable_take by (simp add: w1(1))
  have gr1: "ks_group (kv w1) (STREAMS p) g = Some d" by (simp add: w1(2))
  obtain w2 gr' where w2: "for_each (pq_one R p g c h) bt t w1 = (Inr (t + int (length bt)), w2)"
    "ks_group (kv w2) (STREAMS p) g = Some gr'" "pel_entries gr' = []" "g_new gr' = g_new d"
    "\<forall>q. q \<noteq> p \<longrightarrow> ks_group (kv w2) (STREAMS q) g = ks_group (kv w1) (STREAMS q) g"
    "lg (app w2) = lg (app w1) @ log_of item bt"
    using pq_batch_logs [OF h rd gr1 d(2) dist] by blast
  have "tiers (kv w2) g [p] (\<lambda>_. drop (nat n) (q p)) (\<lambda>_. [])"
    using w2(2-4) d distinct_drop [OF ids] by (simp add: tiers_def drop_map)
  moreover have len: "length (drop (nat n) (q p)) \<le> nat n * k" using Suc.prems(3) by simp
  ultimately obtain w' where "pq_loop R p g c h n b (replicate k (\<lambda>w. w)) (t + int (length bt)) w2 =
      (Inr (t + int (length bt) + int (length (drop (nat n) (q p)))), w')"
    "tiers (kv w') g [p] (\<lambda>_. []) (\<lambda>_. [])"
    "\<forall>q. q \<noteq> p \<longrightarrow> ks_group (kv w') (STREAMS q) g = ks_group (kv w2) (STREAMS q) g"
    "lg (app w') = lg (app w2) @ log_of item (drop (nat n) (q p))"
    using Suc.IH [of w2 "\<lambda>_. drop (nat n) (q p)" "t + int (length bt)"] Suc.prems(2) len readable_drop [of "q p" "nat n"]
    by blast
  moreover have "int (length bt) + int (length (drop (nat n) (q p))) = int (length (q p))"
    unfolding w1(1) by (metis append_take_drop_id length_append of_nat_add)
  ultimately show ?case using w1 w2 bt by (simp add: bnd_def add.assoc flip: log_of_simps(3))
qed

text \<open>The single queue serves in arrival order.\<close>

lemma fifo_batch_logs:
  assumes h: "logs_ticket_as item lg c h" and "readable batch" and "ks_group (kv w) SINGLE_STREAM g = Some gr"
    and "pel_entries gr = batch" and "distinct (map fst batch)"
  shows "\<exists>w' gr'. for_each (fifo_one R g c h) batch served w = (Inr (served @ map the_ticket batch), w') \<and>
    ks_group (kv w') SINGLE_STREAM g = Some gr' \<and> pel_entries gr' = [] \<and> g_new gr' = g_new gr \<and>
    lg (app w') = lg (app w) @ log_of item batch"
  using assms(2-)
proof (induction batch arbitrary: served w gr)
  case Nil
  then show ?case by simp
next
  case (Cons m batch)
  have t: "ticket_from_fields (snd m) = Inr (the_ticket m)" "readable batch" using Cons.prems(1) by simp_all
  obtain w1 where h1: "h c (the_ticket m) w = (Inr (), w1)" "srv w1 = srv w"
    "lg (app w1) = lg (app w) @ item (the_ticket m)" using h unfolding logs_ticket_as_def by metis
  obtain k w2 where a: "group_ack R SINGLE_STREAM g (fst m) w1 = (Inr k, w2)" by (rule group_ack_up)
  have one: "fifo_one R g c h m served w = (Inr (served @ [the_ticket m]), w2)"
    using a by (simp add: fifo_one_def t bnd_def h1(1) group_ack_def)
  have "filter (\<lambda>e. fst e \<noteq> fst m) batch = batch"
    using Cons.prems(4) by (intro filter_True) (auto simp: image_iff)
  then have "pel_entries (unpend (fst m) gr) = batch" using Cons.prems(3) by simp
  then show ?case
    using Cons.IH [OF t(2), of w2 "unpend (fst m) gr" "served @ [the_ticket m]"] Cons.prems(2,4)
      group_ack_effect [OF a] h1 one by (auto simp: bnd_def)
qed

lemma fifo_polls_serve:
  assumes h: "logs_ticket_as item lg c h" and n: "1 \<le> n" and "ks_group (kv w) SINGLE_STREAM g = Some gr"
    and "g_new gr = es" and "pel_entries gr = []" and "distinct (map fst es)" and "readable es"
  shows "\<exists>w'. fifo_polls R g c h n k served w = (Inr (served @ map the_ticket (take (nat n * k) es)), w') \<and>
    lg (app w') = lg (app w) @ log_of item (take (nat n * k) es)"
  using assms(3-)
proof (induction k arbitrary: served w gr es)
  case 0
  then show ?case by simp
next
  case (Suc k)
  obtain bt w1 where bt: "group_read R g c SINGLE_STREAM ''>'' n None w = (Inr bt, w1)"
    using Suc.prems(1) n by (metis group_read_up insertI1 option.distinct(1))
  define d where "d = deliver c (ks_time (kv w)) (nat n) gr"
  have w1: "bt = take (nat n) es" "kv w1 = ks_put_group SINGLE_STREAM g d (kv w)" "app w1 = app w"
    using group_read_new_effect [OF bt n] Suc.prems(1,2) by (auto simp: d_def)
  have d: "g_new d = drop (nat n) es" "pel_entries d = bt" using Suc.prems(2,3) by (simp_all add: d_def w1(1))
  have dist: "distinct (map fst bt)" using distinct_take [OF Suc.prems(4)] by (simp add: w1(1) take_map)
  obtain w2 gr' where w2: "for_each (fifo_one R g c h) bt served w1 = (Inr (served @ map the_ticket bt), w2)"
    "ks_group (kv w2) SINGLE_STREAM g = Some gr'" "pel_entries gr' = []" "g_new gr' = g_new d"
    "lg (app w2) = lg (app w1) @ log_of item bt"
    using fifo_batch_logs [OF h _ _ d(2) dist, of w1 g served] Suc.prems(5) readable_take [of es "nat n"]
    by (auto simp: w1)
  have "fifo_polls R g c h n (Suc k) served w = fifo_polls R g c h n k (served @ map the_ticket bt) w2"
    using bt w2(1) by (auto simp: group_read_def bnd_def split: prod.splits sum.splits)
  moreover obtain w' where "fifo_polls R g c h n k (served @ map the_ticket bt) w2 =
      (Inr ((served @ map the_ticket bt) @ map the_ticket (take (nat n * k) (drop (nat n) es))), w')"
    "lg (app w') = lg (app w2) @ log_of item (take (nat n * k) (drop (nat n) es))"
    using Suc.IH [OF w2(2) _ w2(3), of "drop (nat n) es"] d w2(4) readable_drop Suc.prems(4,5) distinct_drop
    by (metis drop_map)
  moreover have "bt @ take (nat n * k) (drop (nat n) es) = take (nat n * Suc k) es"
    by (simp add: w1(1) take_add [symmetric])
  ultimately show ?case using w1(3) w2(5) by (metis append_assoc map_append log_of_simps(3))
qed

lemma fifo_run_serves:
  assumes h: "logs_ticket_as item lg c h" and n: "1 \<le> n" and none: "ks_group (kv w) SINGLE_STREAM g = None"
    and "distinct (map fst (ks_entries (kv w) SINGLE_STREAM))" and "readable (ks_entries (kv w) SINGLE_STREAM)"
  shows "\<exists>w'. run_fifo_consumer R g c h k n w =
      (Inr (map the_ticket (take (nat n * k) (ks_entries (kv w) SINGLE_STREAM))), w') \<and>
    lg (app w') = lg (app w) @ log_of item (take (nat n * k) (ks_entries (kv w) SINGLE_STREAM))"
proof -
  obtain b w1 where mk: "group_create R SINGLE_STREAM g w = (Inr b, w1)" by (rule group_create_up)
  have w1: "kv w1 = ks_put_group SINGLE_STREAM g (new_group (ks_entries (kv w) SINGLE_STREAM)) (kv w)" "app w1 = app w"
    using group_create_effect [OF mk] none by auto
  have "fifo_ensure_group R g w = bnd (group_create R SINGLE_STREAM g) (\<lambda>_. ret ()) w"
    by (simp add: fifo_ensure_group_def group_create_def bnd_assoc)
  then have "fifo_ensure_group R g w = (Inr (), w1)" using mk by (simp add: bnd_def)
  then show ?thesis
    using fifo_polls_serve [OF h n, of w1 g "new_group (ks_entries (kv w) SINGLE_STREAM)"
        "ks_entries (kv w) SINGLE_STREAM" k "[]"] assms(4,5) w1
    by (auto simp: run_fifo_consumer_def bnd_def)
qed

lemma pq_publish_effect:
  assumes "pq_publish R t w = (Inr i, w')"
  shows "kv w' = ks_xadd (STREAMS (ticket_priority t)) i (ticket_to_fields t) (kv w) \<and>
    counter (reg w') ''priority_queue'' ''tickets_published'' = counter (reg w) ''priority_queue'' ''tickets_published'' + 1"
  using assms unfolding pq_publish_def Let_def
  by (cases "ticket_priority t")
    (auto elim!: bnd_InrE simp: redis_call_eq_iff incr_def counter_increment dest!: xadd_law)

end

end
