(* ===== verification/Priority_Properties.thy ===== *)
theory Priority_Properties
  imports Priority Redis_Memory
begin

section \<open>The priority queue: properties\<close>

definition demo_ticket :: "string \<Rightarrow> priority \<Rightarrow> support_ticket" where
  "demo_ticket i p = \<lparr>ticket_id = i, subject = ''s'', ticket_priority = p, ticket_customer_id = ''c''\<rparr>"

definition pq_demo_keys :: keyspace where
  "pq_demo_keys = ks_xadd (STREAMS HIGH) ''3'' (ticket_to_fields (demo_ticket ''h'' HIGH))
     (ks_xadd (STREAMS LOW) ''2'' (ticket_to_fields (demo_ticket ''l2'' LOW))
     (ks_xadd (STREAMS LOW) ''1'' (ticket_to_fields (demo_ticket ''l1'' LOW)) empty_keyspace))"

definition pq_world :: "keyspace \<Rightarrow> (keyspace, support_ticket list) world_scheme" where
  "pq_world k = \<lparr>reg = [], wall = [], srv = k, \<dots> = []\<rparr>"

definition pq_log :: "(keyspace, support_ticket list) pq_handler" where
  "pq_log c t w = (Inr (), world.more_update (\<lambda>l. l @ [t]) w)"

lemma pq_world_sel [simp]: "srv (pq_world k) = k" "app (pq_world k) = []"
  by (simp_all add: pq_world_def)

lemma pq_log_logs: "logs_ticket (\<lambda>l. l) pq_log"
  by (simp add: logs_ticket_def pq_log_def)

lemma demo_ticket_reads [simp]: "ticket_from_fields (ticket_to_fields (demo_ticket i p)) = Inr (demo_ticket i p)"
  if "is_ascii i"
  using that by (intro ticket_from_to_fields) (simp add: ticket_ok_def demo_ticket_def valid_utf8_ascii)

lemma pq_demo_entries:
  "ks_entries pq_demo_keys (STREAMS p) = (case p of
     HIGH \<Rightarrow> [(''3'', ticket_to_fields (demo_ticket ''h'' HIGH))]
   | NORMAL \<Rightarrow> []
   | LOW \<Rightarrow> [(''1'', ticket_to_fields (demo_ticket ''l1'' LOW)), (''2'', ticket_to_fields (demo_ticket ''l2'' LOW))])"
  "ks_group pq_demo_keys s g = None"
  by (cases p) (simp_all add: pq_demo_keys_def, simp_all add: empty_keyspace_def ks_entries_def ks_group_def)

text \<open>
  C18: strict priority. One turn of the strict consumer, from any state of its tiers (with messages of
  other consumers pending), takes its batch from the first tier that has an undelivered ticket: every
  tier scanned before that one is empty. It handles the batch in order, acknowledges it, and changes
  nothing else of the tiers and of the handler's log; if all tiers are empty it does nothing.
\<close>

theorem pq_strict_turn_serves_most_urgent:
  assumes "redis_available R view" and "logs_ticket lg handler" and "1 \<le> count" and "distinct order"
    and "tiers (view (srv w)) grp order q pl" and "\<forall>p \<in> set order. readable (q p)"
  shows "\<exists>w' batch. strict_scan R grp c handler count order t w = (Inr (t + int (length batch)), w') \<and>
    lg (app w') = lg (app w) @ map the_ticket batch \<and>
    ((batch = [] \<and> (\<forall>p \<in> set order. q p = []) \<and> tiers (view (srv w')) grp order q pl) \<or>
     (\<exists>before p after. order = before @ p # after \<and> (\<forall>b \<in> set before. q b = []) \<and> q p \<noteq> [] \<and>
        batch = take (nat count) (q p) \<and>
        tiers (view (srv w')) grp order (q(p := drop (nat count) (q p))) pl))"
proof -
  obtain w' where w': "strict_scan R grp c handler count order t w =
      (Inr (t + int (length (fst (serve (nat count) order q)))), w')"
    "tiers (view (srv w')) grp order (snd (serve (nat count) order q)) pl"
    "lg (app w') = lg (app w) @ map the_ticket (fst (serve (nat count) order q))"
    using redis_available.strict_scan_serves [OF assms(1) logs_ticket_as [OF assms(2)] assms(3-), unfolded log_of_simps(4)] by blast
  show ?thesis
  proof (cases "find (\<lambda>p. q p \<noteq> []) order")
    case None
    then have "serve (nat count) order q = ([], q)" by (simp add: serve_def)
    then show ?thesis using w' None by (intro exI [of _ w'] exI [of _ "[]"]) (simp add: find_None_iff)
  next
    case (Some p)
    then obtain i where i: "i < length order" "order ! i = p" "q p \<noteq> []" "\<forall>j<i. q (order ! j) = []"
      by (auto simp: find_Some_iff)
    have "order = take i order @ p # drop (Suc i) order" using i(1,2) by (metis id_take_nth_drop)
    moreover have "\<forall>b \<in> set (take i order). q b = []" using i(1,4) by (auto simp: in_set_conv_nth)
    ultimately show ?thesis using w' i(3) Some
      by (intro exI [of _ w'] exI [of _ "take (nat count) (q p)"]) (simp add: serve_def, blast)
  qed
qed

definition pq_demo_groups :: keyspace where
  "pq_demo_groups = ks_put_group (STREAMS LOW) ''g'' (new_group (ks_entries pq_demo_keys (STREAMS LOW)))
     (ks_put_group (STREAMS HIGH) ''g'' (new_group (ks_entries pq_demo_keys (STREAMS HIGH))) pq_demo_keys)"

theorem pq_strict_turn_serves_most_urgent_witness:
  "\<exists>w'. strict_scan mem_redis ''g'' ''c'' pq_log 10 [HIGH, LOW] 0 (pq_world pq_demo_groups) = (Inr 1, w') \<and>
    app w' = [demo_ticket ''h'' HIGH]"
proof -
  let ?q = "\<lambda>p. ks_entries pq_demo_keys (STREAMS p)"
  have t: "tiers (srv (pq_world pq_demo_groups)) ''g'' [HIGH, LOW] ?q (\<lambda>_. [])"
    by (simp add: tiers_def pq_demo_groups_def pq_demo_entries)
  have r: "\<forall>p \<in> set [HIGH, LOW]. readable (?q p)"
    by (simp add: pq_demo_entries the_ticket_def)
  have "\<exists>w' batch. strict_scan mem_redis ''g'' ''c'' pq_log 10 [HIGH, LOW] 0 (pq_world pq_demo_groups) =
      (Inr (0 + int (length batch)), w') \<and> app w' = app (pq_world pq_demo_groups) @ map the_ticket batch \<and>
    ((batch = [] \<and> (\<forall>p \<in> set [HIGH, LOW]. ?q p = []) \<and> tiers (srv w') ''g'' [HIGH, LOW] ?q (\<lambda>_. [])) \<or>
     (\<exists>before p after. [HIGH, LOW] = before @ p # after \<and> (\<forall>b \<in> set before. ?q b = []) \<and> ?q p \<noteq> [] \<and>
        batch = take (nat 10) (?q p) \<and> tiers (srv w') ''g'' [HIGH, LOW] (?q(p := drop (nat 10) (?q p))) (\<lambda>_. [])))"
    by (rule pq_strict_turn_serves_most_urgent [where view = "\<lambda>k. k", OF mem.redis_available_axioms pq_log_logs _ _ t r])
      simp_all
  then obtain w' batch where run: "strict_scan mem_redis ''g'' ''c'' pq_log 10 [HIGH, LOW] 0 (pq_world pq_demo_groups) =
      (Inr (0 + int (length batch)), w')" "app w' = app (pq_world pq_demo_groups) @ map the_ticket batch"
    and b: "(batch = [] \<and> (\<forall>p \<in> set [HIGH, LOW]. ?q p = []) \<and> tiers (srv w') ''g'' [HIGH, LOW] ?q (\<lambda>_. [])) \<or>
     (\<exists>before p after. [HIGH, LOW] = before @ p # after \<and> (\<forall>b \<in> set before. ?q b = []) \<and> ?q p \<noteq> [] \<and>
        batch = take (nat 10) (?q p) \<and> tiers (srv w') ''g'' [HIGH, LOW] (?q(p := drop (nat 10) (?q p))) (\<lambda>_. []))"
    by blast
  have "batch = ?q HIGH" using b by (elim disjE conjE exE) (auto simp: pq_demo_entries Cons_eq_append_conv)
  then show ?thesis using run by (simp add: pq_demo_entries the_ticket_def)
qed

text \<open>
  C19: the backlog is served in priority order. On tiers filled before the consumer starts, as many
  turns as there are tickets are enough for the strict consumer to handle every ticket of its tiers
  exactly once, tier by tier and each tier in arrival order; it returns their number and leaves
  nothing undelivered or pending. If every ticket was routed by its priority, the order in which they
  were handled is sorted by priority.
\<close>

theorem pq_strict_serves_in_priority_order:
  assumes "redis_available R view" and "logs_ticket lg handler" and "1 \<le> count" and "distinct order"
    and "\<forall>p \<in> set order. ks_group (view (srv w)) (STREAMS p) grp = None"
    and "\<forall>p \<in> set order. distinct (map fst (ks_entries (view (srv w)) (STREAMS p))) \<and>
      readable (ks_entries (view (srv w)) (STREAMS p))"
    and "length (concat (map (\<lambda>p. ks_entries (view (srv w)) (STREAMS p)) order)) \<le> k"
  shows "\<exists>w' served. run_strict_priority_consumer R c grp handler (Some order) count (replicate k (\<lambda>w. w)) w =
      (Inr (int (length served)), w') \<and>
    served = map the_ticket (concat (map (\<lambda>p. ks_entries (view (srv w)) (STREAMS p)) order)) \<and>
    lg (app w') = lg (app w) @ served \<and>
    (\<forall>p \<in> set order. \<exists>gr. ks_group (view (srv w')) (STREAMS p) grp = Some gr \<and> outstanding gr = []) \<and>
    (sorted order \<and> (\<forall>p \<in> set order. \<forall>e \<in> set (ks_entries (view (srv w)) (STREAMS p)).
       ticket_priority (the_ticket e) = p) \<longrightarrow> sorted (map ticket_priority served))"
proof -
  let ?q = "\<lambda>p. ks_entries (view (srv w)) (STREAMS p)"
  have sorted: "sorted (map ticket_priority (map the_ticket (concat (map ?q ps))))"
    if "sorted ps" "\<forall>p \<in> set ps. \<forall>e \<in> set (?q p). ticket_priority (the_ticket e) = p" for ps
    using that
  proof (induction ps)
    case (Cons p ps)
    have "map (ticket_priority \<circ> the_ticket) (?q p) = map (\<lambda>_. p) (?q p)"
      using Cons.prems(2) by (intro map_cong) auto
    then have "map (ticket_priority \<circ> the_ticket) (?q p) = replicate (length (?q p)) p"
      by (simp add: map_replicate_const)
    then show ?case using Cons by (auto simp: sorted_append)
  qed simp
  show ?thesis using redis_available.strict_run_serves [OF assms(1) logs_ticket_as [OF assms(2)] assms(3-), unfolded log_of_simps(4)] sorted by fastforce
qed

theorem pq_strict_serves_in_priority_order_witness:
  "\<exists>w'. run_strict_priority_consumer mem_redis ''c'' ''g'' pq_log (Some [HIGH, NORMAL, LOW]) 1
      (replicate 3 (\<lambda>w. w)) (pq_world pq_demo_keys) = (Inr 3, w') \<and>
    app w' = [demo_ticket ''h'' HIGH, demo_ticket ''l1'' LOW, demo_ticket ''l2'' LOW]"
  using pq_strict_serves_in_priority_order [where view = "\<lambda>k. k" and w = "pq_world pq_demo_keys" and k = 3
      and order = "[HIGH, NORMAL, LOW]" and c = "''c''" and grp = "''g''" and count = 1,
      OF mem.redis_available_axioms pq_log_logs]
  by (simp add: pq_demo_entries the_ticket_def) blast

text \<open>
  A consumer pinned to one priority drains that tier, whatever the other tiers hold: it handles
  the tier's undelivered tickets in order within \<open>k\<close> turns of \<open>count\<close>, and no other tier's group is
  touched.
\<close>

theorem pq_pinned_consumer_drains_its_tier:
  assumes "redis_available R view" and "logs_ticket lg handler" and "1 \<le> count"
    and "tiers (view (srv w)) grp [p] q (\<lambda>_. [])" and "readable (q p)" and "length (q p) \<le> nat count * k"
  shows "\<exists>w'. pq_loop R p grp c handler count block_ms (replicate k (\<lambda>w. w)) t w = (Inr (t + int (length (q p))), w') \<and>
    tiers (view (srv w')) grp [p] (\<lambda>_. []) (\<lambda>_. []) \<and>
    (\<forall>p'. p' \<noteq> p \<longrightarrow> ks_group (view (srv w')) (STREAMS p') grp = ks_group (view (srv w)) (STREAMS p') grp) \<and>
    lg (app w') = lg (app w) @ map the_ticket (q p)"
  by (rule redis_available.pq_loop_drains [OF assms(1) logs_ticket_as [OF assms(2)] assms(3-), unfolded log_of_simps(4)])

theorem pq_pinned_consumer_drains_its_tier_witness:
  "\<exists>w'. pq_loop mem_redis LOW ''g'' ''c'' pq_log 1 0 (replicate 2 (\<lambda>w. w)) 0 (pq_world pq_demo_groups) = (Inr 2, w') \<and>
    app w' = [demo_ticket ''l1'' LOW, demo_ticket ''l2'' LOW]"
proof -
  have "tiers (srv (pq_world pq_demo_groups)) ''g'' [LOW] (\<lambda>p. ks_entries pq_demo_keys (STREAMS p)) (\<lambda>_. [])"
    by (simp add: tiers_def pq_demo_groups_def pq_demo_entries)
  from pq_pinned_consumer_drains_its_tier [where view = "\<lambda>k. k", OF mem.redis_available_axioms pq_log_logs _ this,
      of 1 2 "''c''" 0 0]
  show ?thesis by (simp add: pq_demo_entries the_ticket_def) blast
qed

text \<open>
  The ticket codec. Reading back the fields of a ticket gives the ticket; a priority outside the
  three levels is an error; and a ticket that was read carries the priority written in its fields.
\<close>

theorem pq_ticket_codec:
  "(ticket_ok t \<longrightarrow> ticket_from_fields (ticket_to_fields t) = Inr t) \<and>
   (ticket_from_fields f = Inr t' \<longrightarrow> map_of f ''priority'' = Some (priority_value (ticket_priority t'))) \<and>
   (priority_of s = Inr p \<longleftrightarrow> s = priority_value p) \<and>
   ((\<forall>p. s \<noteq> priority_value p) \<longrightarrow> priority_of s = Inl (ValueError (s @ '' is not a valid Priority'')))"
proof (intro conjI impI)
  assume "\<forall>p. s \<noteq> priority_value p"
  then have "\<nexists>p. priority_of s = Inr p" by (simp add: priority_of_Inr)
  then show "priority_of s = Inl (ValueError (s @ '' is not a valid Priority''))"
    using priority_of_Inl by (cases "priority_of s") auto
qed (auto simp: ticket_from_to_fields ticket_from_fields_priority priority_of_Inr)

theorem pq_ticket_codec_witness:
  "ticket_from_fields (ticket_to_fields (demo_ticket ''a'' LOW)) = Inr (demo_ticket ''a'' LOW) \<and>
   priority_of ''urgent'' = Inl (ValueError ''urgent is not a valid Priority'')"
proof -
  have "ticket_ok (demo_ticket ''a'' LOW)" by (simp add: ticket_ok_def demo_ticket_def valid_utf8_ascii)
  moreover have "''urgent'' \<noteq> priority_value p" for p by (cases p) simp_all
  ultimately show ?thesis
    using pq_ticket_codec [of "demo_ticket ''a'' LOW" "[]" undefined "''urgent''"] by simp
qed

text \<open>
  Priority inversion in the single queue. The baseline serves the tickets of its one stream in
  arrival order, whatever their priorities: within \<open>k\<close> polls of \<open>count\<close>, exactly the first
  \<open>k * count\<close> of them.
\<close>

theorem pq_fifo_serves_in_arrival_order:
  assumes "redis_available R view" and "logs_ticket lg handler" and "1 \<le> count"
    and "ks_group (view (srv w)) SINGLE_STREAM grp = None"
    and "distinct (map fst (ks_entries (view (srv w)) SINGLE_STREAM))"
    and "readable (ks_entries (view (srv w)) SINGLE_STREAM)"
  shows "\<exists>w'. run_fifo_consumer R grp c handler k count w =
      (Inr (map the_ticket (take (nat count * k) (ks_entries (view (srv w)) SINGLE_STREAM))), w') \<and>
    lg (app w') = lg (app w) @ map the_ticket (take (nat count * k) (ks_entries (view (srv w)) SINGLE_STREAM))"
  by (rule redis_available.fifo_run_serves [OF assms(1) logs_ticket_as [OF assms(2)] assms(3-), unfolded log_of_simps(4)])

definition pq_fifo_keys :: keyspace where
  "pq_fifo_keys = ks_xadd SINGLE_STREAM ''2'' (ticket_to_fields (demo_ticket ''h'' HIGH))
     (ks_xadd SINGLE_STREAM ''1'' (ticket_to_fields (demo_ticket ''l'' LOW)) empty_keyspace)"

lemma pq_fifo_facts: "ks_entries pq_fifo_keys SINGLE_STREAM = [(''1'', ticket_to_fields (demo_ticket ''l'' LOW)),
    (''2'', ticket_to_fields (demo_ticket ''h'' HIGH))]" "ks_group pq_fifo_keys s g = None"
  by (simp_all add: pq_fifo_keys_def) (simp_all add: empty_keyspace_def ks_entries_def ks_group_def)

theorem pq_fifo_serves_in_arrival_order_witness:
  "\<exists>w'. run_fifo_consumer mem_redis ''g'' ''c'' pq_log 1 1 (pq_world pq_fifo_keys) = (Inr [demo_ticket ''l'' LOW], w')"
  using pq_fifo_serves_in_arrival_order [where view = "\<lambda>k. k" and w = "pq_world pq_fifo_keys" and count = 1 and k = 1,
      OF mem.redis_available_axioms pq_log_logs]
  by (simp add: pq_fifo_facts the_ticket_def) blast

end
