(* ===== verification/PyJson.thy ===== *)
theory PyJson
  imports PyFloat
begin

section \<open>JSON text as \<^verbatim>\<open>json.dumps\<close> writes it\<close>

text \<open>
  Values as the code builds them, and \<^verbatim>\<open>json.dumps\<close> with its defaults: separators \<^verbatim>\<open>", "\<close> and
  \<^verbatim>\<open>": "\<close>, keys in insertion order, and only printable ASCII in the output, every other character as
  an escape (a surrogate pair beyond the basic plane). A \<^verbatim>\<open>str\<close> is its UTF-8 encoding (\<open>PyText\<close>), so
  the escapes are computed from its code points.
\<close>

datatype json = JStr string | JInt int | JFloat pyfloat | JObj "(string \<times> json) list" | JList "json list"

subsection \<open>Code points\<close>

fun utf8_points :: "string \<Rightarrow> nat list" where
  "utf8_points [] = []"
| "utf8_points (a # s) =
    (if code a < 128 then code a # utf8_points s
     else case s of [] \<Rightarrow> []
     | b # s1 \<Rightarrow>
       if code a \<le> 223 then ((code a mod 32) * 64 + code b mod 64) # utf8_points s1
       else case s1 of [] \<Rightarrow> []
       | c # s2 \<Rightarrow>
         if code a \<le> 239
         then ((code a mod 16) * 4096 + (code b mod 64) * 64 + code c mod 64) # utf8_points s2
         else case s2 of [] \<Rightarrow> []
         | d # s3 \<Rightarrow> ((code a mod 8) * 262144 + (code b mod 64) * 4096 + (code c mod 64) * 64 +
             code d mod 64) # utf8_points s3)"

subsection \<open>Writing\<close>

definition hex_digit :: "nat \<Rightarrow> char" where
  "hex_digit n = (if n < 10 then char_of (48 + n) else char_of (87 + n))"

definition hex4 :: "nat \<Rightarrow> string" where
  "hex4 n = map (\<lambda>d. hex_digit (n div d mod 16)) [4096, 256, 16, 1]"

definition backslash :: char where
  "backslash = CHR 0x5C"

definition quote_mark :: char where
  "quote_mark = CHR 0x22"

definition json_escape :: "nat \<Rightarrow> string" where
  "json_escape p =
     (if p = 34 then [backslash, quote_mark]
      else if p = 92 then [backslash, backslash]
      else if p = 10 then backslash # ''n''
      else if p = 13 then backslash # ''r''
      else if p = 9 then backslash # ''t''
      else if p = 8 then backslash # ''b''
      else if p = 12 then backslash # ''f''
      else if 32 \<le> p \<and> p \<le> 126 then [char_of p]
      else if p < 65536 then backslash # CHR ''u'' # hex4 p
      else backslash # CHR ''u'' # hex4 (55296 + (p - 65536) div 1024) @
        backslash # CHR ''u'' # hex4 (56320 + (p - 65536) mod 1024))"

definition json_str :: "string \<Rightarrow> string" where
  "json_str s = quote_mark # concat (map json_escape (utf8_points s)) @ [quote_mark]"

definition json_float :: "float_text \<Rightarrow> pyfloat \<Rightarrow> string" where
  "json_float fl x = (case x of NaN \<Rightarrow> ''NaN'' | Infinite pos \<Rightarrow> (if pos then ''Infinity'' else ''-Infinity'')
     | Finite q \<Rightarrow> show_float fl x)"

fun join :: "string \<Rightarrow> string list \<Rightarrow> string" where
  "join sep [] = []"
| "join sep [x] = x"
| "join sep (x # y # xs) = x @ sep @ join sep (y # xs)"

fun json_dumps :: "float_text \<Rightarrow> json \<Rightarrow> string" where
  "json_dumps fl (JStr s) = json_str s"
| "json_dumps fl (JInt i) = py_str_int i"
| "json_dumps fl (JFloat x) = json_float fl x"
| "json_dumps fl (JObj kvs) = ''{'' @ join '', '' (map (\<lambda>(k, v). json_str k @ '': '' @ json_dumps fl v) kvs) @ ''}''"
| "json_dumps fl (JList xs) = ''['' @ join '', '' (map (json_dumps fl) xs) @ '']''"

subsection \<open>How long the text is\<close>

lemma hex4_length [simp]: "length (hex4 n) = 4"
  by (simp add: hex4_def)

lemma json_escape_length: "length (json_escape p) \<le> (if p < 65536 then 6 else 12)"
  by (simp add: json_escape_def)

lemma json_escape_points: "length (concat (map json_escape (utf8_points s))) \<le> 6 * length s"
proof (induction s rule: utf8_points.induct)
  case 1
  then show ?case by simp
next
  case (2 a s)
  have small: "length (json_escape p) \<le> 6" if "p < 65536" for p
    using json_escape_length [of p] that by simp
  have any: "length (json_escape p) \<le> 12" for p
    using json_escape_length [of p] by (simp split: if_splits)
  consider "code a < 128" | "128 \<le> code a" "s = []"
    | b s1 where "128 \<le> code a" "code a \<le> 223" "s = b # s1"
    | b where "223 < code a" "s = [b]"
    | b c s2 where "223 < code a" "code a \<le> 239" "s = b # c # s2"
    | b c where "239 < code a" "s = [b, c]"
    | b c d s3 where "239 < code a" "s = b # c # d # s3"
    by (metis leI list.exhaust)
  then show ?case
  proof cases
    case 1
    then show ?thesis using "2.IH"(1) small [of "code a"] by simp
  next
    case (3 b s1)
    have "(code a mod 32) * 64 + code b mod 64 < 65536"
      using mod_less_divisor [of 32 "code a"] mod_less_divisor [of 64 "code b"] by linarith
    then show ?thesis using "2.IH"(2) [of b s1] 3 small [of "(code a mod 32) * 64 + code b mod 64"] by simp
  next
    case (5 b c s2)
    have "(code a mod 16) * 4096 + (code b mod 64) * 64 + code c mod 64 < 65536"
      using mod_less_divisor [of 16 "code a"] mod_less_divisor [of 64 "code b"] mod_less_divisor [of 64 "code c"]
      by linarith
    then show ?thesis
      using "2.IH"(3) [of b "c # s2" c s2] 5 small [of "(code a mod 16) * 4096 + (code b mod 64) * 64 + code c mod 64"]
      by simp
  next
    case (7 b c d s3)
    then show ?thesis
      using "2.IH"(4) [of b "c # d # s3" c "d # s3" d s3]
        any [of "(code a mod 8) * 262144 + (code b mod 64) * 4096 + (code c mod 64) * 64 + code d mod 64"]
      by simp
  qed simp_all
qed

lemma json_str_length: "length (json_str s) \<le> 6 * length s + 2"
  using json_escape_points [of s] by (simp add: json_str_def)

lemma nat_digits_length: "n < 10 ^ d \<Longrightarrow> 1 \<le> d \<Longrightarrow> length (nat_digits n) \<le> d"
proof (induction n arbitrary: d rule: nat_digits.induct)
  case (1 n)
  show ?case
  proof (cases "n < 10")
    case True
    then show ?thesis using "1.prems" by (subst nat_digits.simps) simp
  next
    case False
    then obtain d' where d: "d = Suc d'" "1 \<le> d'" using "1.prems" by (cases d; cases "d - 1") auto
    then have "n div 10 < 10 ^ d'" using "1.prems"(1) by (simp add: less_mult_imp_div_less)
    then have "length (nat_digits (n div 10)) \<le> d'" using "1.IH" [OF False] d(2) by blast
    then show ?thesis using False d by (subst nat_digits.simps) simp
  qed
qed

lemma json_str_ascii:
  assumes "list_all (\<lambda>c. 32 \<le> code c \<and> code c \<le> 126 \<and> code c \<noteq> 34 \<and> code c \<noteq> 92) s"
  shows "json_str s = quote_mark # s @ [quote_mark]"
proof -
  have "concat (map json_escape (utf8_points s)) = s" using assms
    by (induction s) (auto simp: json_escape_def)
  then show ?thesis by (simp add: json_str_def)
qed

end
