(* ===== verification/Claim_Check.thy ===== *)
theory Claim_Check
  imports PyJson Metrics
begin

section \<open>The claim check\<close>

text \<open>
  \<^verbatim>\<open>claim_check_pattern/\<close>: models, storage, broker, producer, consumer, and the inline baseline.
  \<^verbatim>\<open>asyncio.Queue\<close> is a list, the directory of payload files a dictionary from paths to contents, and
  \<^verbatim>\<open>uuid4().hex\<close> draws from a sequence \<open>u\<close>. File operations succeed: errors of the operating system
  are not modelled. A \<^verbatim>\<open>datetime\<close> is its \<^verbatim>\<open>isoformat()\<close>, read from the world's clock. What the
  producer and the consumer need of the store is the locale \<open>payload_store\<close>.
\<close>

subsection \<open>Models\<close>

record payload =
  data :: string
  content_type :: string
  original_name :: string

definition size_bytes :: "payload \<Rightarrow> nat" where
  "size_bytes p = length (data p)"

record claim_check =
  claim_id :: string
  cl_content_type :: string
  cl_original_name :: string
  cl_size_bytes :: nat
  cl_created_at :: string

definition wire_size_bytes :: "float_text \<Rightarrow> claim_check \<Rightarrow> nat" where
  "wire_size_bytes fl c = length (json_dumps fl (JObj
     [(''claim_id'', JStr (claim_id c)), (''content_type'', JStr (cl_content_type c)),
      (''original_name'', JStr (cl_original_name c)), (''size_bytes'', JInt (int (cl_size_bytes c))),
      (''created_at'', JStr (cl_created_at c))]))"

subsection \<open>Storage\<close>

record file_store =
  files :: "(string, string) dict"
  uuids_minted :: nat

definition store_path :: "string \<Rightarrow> string \<Rightarrow> string" where
  "store_path dir cid = dir @ ''/'' @ cid @ ''.bin''"

definition store_put :: "string \<Rightarrow> (nat \<Rightarrow> string) \<Rightarrow> string \<Rightarrow> file_store \<Rightarrow> string \<times> file_store" where
  "store_put dir u d fs =
     (let cid = u (uuids_minted fs)
      in (cid, fs\<lparr>files := AList.update (store_path dir cid) d (files fs), uuids_minted := uuids_minted fs + 1\<rparr>))"

definition store_exists :: "string \<Rightarrow> string \<Rightarrow> file_store \<Rightarrow> bool" where
  "store_exists dir cid fs = (map_of (files fs) (store_path dir cid) \<noteq> None)"

definition store_get :: "string \<Rightarrow> string \<Rightarrow> file_store \<Rightarrow> exn + string" where
  "store_get dir cid fs = (case map_of (files fs) (store_path dir cid) of
      None \<Rightarrow> Inl (PayloadNotFoundError cid)
    | Some d \<Rightarrow> Inr d)"

definition store_delete :: "string \<Rightarrow> string \<Rightarrow> file_store \<Rightarrow> file_store" where
  "store_delete dir cid fs = fs\<lparr>files := AList.delete (store_path dir cid) (files fs)\<rparr>"

definition path_for :: "string \<Rightarrow> string \<Rightarrow> string" where
  "path_for dir cid = store_path dir cid"

subsection \<open>What a payload store promises\<close>

locale payload_store =
  fixes put :: "'d \<Rightarrow> 's \<Rightarrow> 'i \<times> 's" and get :: "'i \<Rightarrow> 's \<Rightarrow> exn + 'd" and del :: "'i \<Rightarrow> 's \<Rightarrow> 's"
    and has :: "'i \<Rightarrow> 's \<Rightarrow> bool"
  assumes get_put: "put d s = (i, s') \<Longrightarrow> get i s' = Inr d"
    and get_put_other: "put d s = (i, s') \<Longrightarrow> j \<noteq> i \<Longrightarrow> get j s' = get j s"
    and get_del: "\<exists>e. get i (del i s) = Inl e"
    and get_del_other: "j \<noteq> i \<Longrightarrow> get j (del i s) = get j s"
    and has_get: "has i s \<longleftrightarrow> (\<exists>d. get i s = Inr d)"
begin

text \<open>Every payload stays redeemable while others are stored or deleted under other ids.\<close>

definition redeemable :: "('i \<times> 'd) list \<Rightarrow> 's \<Rightarrow> bool" where
  "redeemable ps s \<longleftrightarrow> distinct (map fst ps) \<and> (\<forall>(i, d) \<in> set ps. get i s = Inr d)"

lemma redeemable_Nil [simp]: "redeemable [] s"
  by (simp add: redeemable_def)

lemma redeemable_put:
  "redeemable ps s \<Longrightarrow> put d s = (i, s') \<Longrightarrow> i \<notin> fst ` set ps \<Longrightarrow> redeemable (ps @ [(i, d)]) s'"
  using get_put [of d s i s'] get_put_other [of d s i s'] by (fastforce simp: redeemable_def)

lemma redeemable_hd: "redeemable ((i, d) # ps) s \<Longrightarrow> get i s = Inr d"
  and redeemable_tl: "redeemable ((i, d) # ps) s \<Longrightarrow> redeemable ps s"
  by (auto simp: redeemable_def)

lemma redeemable_del: "redeemable ((i, d) # ps) s \<Longrightarrow> redeemable ps (del i s)"
  using get_del_other [of _ i s] by (fastforce simp: redeemable_def)

lemma not_has_del [simp]: "\<not> has i (del i s)"
  using get_del [of i s] by (auto simp: has_get)

lemma has_del_other: "j \<noteq> i \<Longrightarrow> has j (del i s) = has j s"
  by (simp add: has_get get_del_other)

lemma redeemable_has: "redeemable ps s \<Longrightarrow> (i, d) \<in> set ps \<Longrightarrow> has i s"
  by (auto simp: redeemable_def has_get)

end

lemma store_path_inj [simp]: "store_path dir i = store_path dir j \<longleftrightarrow> i = j"
  by (simp add: store_path_def)

interpretation fs: payload_store "store_put dir u" "store_get dir" "store_delete dir" "store_exists dir"
  for dir u
  by unfold_locales (auto simp: store_put_def store_get_def store_delete_def store_exists_def Let_def
      split: option.splits)

subsection \<open>Broker\<close>

record claim_world = metrics_world +
  cq :: "claim_check list"
  cstore :: file_store

abbreviation claim_app :: "'x claim_world_scheme \<Rightarrow> 'x" where
  "claim_app w \<equiv> claim_world.more w"

definition claim_publish :: "float_text \<Rightarrow> claim_check \<Rightarrow> ('x claim_world_scheme, unit) io" where
  "claim_publish fl c =
     bnd (modify (\<lambda>w. w\<lparr>cq := cq w @ [c]\<rparr>)) (\<lambda>_.
     (let wire_size = wire_size_bytes fl c;
          bytes_saved = max (int (cl_size_bytes c) - int wire_size) 0 in
      bnd (incr ''claim_check'' ''claim_checks_published'' 1) (\<lambda>_.
      incr ''claim_check'' ''broker_bytes_saved'' bytes_saved)))"

text \<open>
  \<^verbatim>\<open>get(timeout)\<close> with a positive timeout, in the state the wait ends in; and \<^verbatim>\<open>get(None)\<close>, which waits
  through the environment's steps until a claim is there, and does not return without one.
\<close>

definition claim_get :: "('x claim_world_scheme, claim_check option) io" where
  "claim_get w = (case cq w of [] \<Rightarrow> (Inr None, w) | c # cs \<Rightarrow> (Inr (Some c), w\<lparr>cq := cs\<rparr>))"

fun claim_get_blocking :: "('x claim_world_scheme \<Rightarrow> 'x claim_world_scheme) list \<Rightarrow> 'x claim_world_scheme \<Rightarrow>
    (claim_check \<times> 'x claim_world_scheme) option" where
  "claim_get_blocking envs w = (case cq w of
      c # cs \<Rightarrow> Some (c, w\<lparr>cq := cs\<rparr>)
    | [] \<Rightarrow> (case envs of [] \<Rightarrow> None | env # envs' \<Rightarrow> claim_get_blocking envs' (env w)))"

declare claim_get_blocking.simps [simp del]

definition claim_qsize :: "'x claim_world_scheme \<Rightarrow> nat" where
  "claim_qsize w = length (cq w)"

definition claim_empty :: "'x claim_world_scheme \<Rightarrow> bool" where
  "claim_empty w = (cq w = [])"

subsection \<open>Producer and consumer\<close>

definition claim_check_in :: "float_text \<Rightarrow> string \<Rightarrow> (nat \<Rightarrow> string) \<Rightarrow> payload \<Rightarrow>
    ('x claim_world_scheme, claim_check) io" where
  "claim_check_in fl dir u p w =
     (case store_put dir u (data p) (cstore w) of (cid, fs) \<Rightarrow>
        bnd (incr ''claim_check'' ''payloads_stored'' 1) (\<lambda>_ w.
          let claim = \<lparr>claim_id = cid, cl_content_type = content_type p, cl_original_name = original_name p,
                cl_size_bytes = size_bytes p, cl_created_at = wall w\<rparr> in
          bnd (claim_publish fl claim) (\<lambda>_. ret claim) w) (w\<lparr>cstore := fs\<rparr>))"

type_synonym 'x claim_handler = "string \<Rightarrow> claim_check \<Rightarrow> payload \<Rightarrow> ('x claim_world_scheme, unit) io"

definition redeem :: "string \<Rightarrow> string \<Rightarrow> bool \<Rightarrow> 'x claim_handler \<Rightarrow> claim_check \<Rightarrow> int \<Rightarrow>
    ('x claim_world_scheme, int) io" where
  "redeem dir consumer_id delete_after handler claim total_handled w =
     bnd (liftr (store_get dir (claim_id claim) (cstore w))) (\<lambda>d.
     bnd (incr ''claim_check'' ''payloads_retrieved'' 1) (\<lambda>_.
     bnd (handler consumer_id claim
       \<lparr>data = d, content_type = cl_content_type claim, original_name = cl_original_name claim\<rparr>) (\<lambda>_.
     bnd (incr ''claim_check'' ''payloads_processed'' 1) (\<lambda>_.
     bnd (if delete_after then
            bnd (modify (\<lambda>w. w\<lparr>cstore := store_delete dir (claim_id claim) (cstore w)\<rparr>)) (\<lambda>_.
            incr ''claim_check'' ''payloads_deleted'' 1)
          else ret ()) (\<lambda>_.
     ret (total_handled + 1)))))) w"

fun claim_loop :: "string \<Rightarrow> string \<Rightarrow> bool \<Rightarrow> 'x claim_handler \<Rightarrow>
    ('x claim_world_scheme \<Rightarrow> 'x claim_world_scheme) list \<Rightarrow> int \<Rightarrow> ('x claim_world_scheme, int) io" where
  "claim_loop dir cid del h [] total_handled = ret total_handled"
| "claim_loop dir cid del h (env # envs) total_handled =
     bnd (modify env) (\<lambda>_.
     bnd claim_get (\<lambda>got. case got of
       None \<Rightarrow> claim_loop dir cid del h envs total_handled
     | Some claim \<Rightarrow> bnd (redeem dir cid del h claim total_handled) (claim_loop dir cid del h envs)))"

definition run_claim_consumer :: "string \<Rightarrow> 'x claim_handler \<Rightarrow> string \<Rightarrow> bool \<Rightarrow>
    ('x claim_world_scheme \<Rightarrow> 'x claim_world_scheme) list \<Rightarrow> ('x claim_world_scheme, int) io" where
  "run_claim_consumer dir handler consumer_id delete_after envs =
     claim_loop dir consumer_id delete_after handler envs 0"

subsection \<open>The inline baseline\<close>

definition MAX_MESSAGE_BYTES :: nat where
  "MAX_MESSAGE_BYTES = 1048576"

record inline_broker =
  iq :: "string list"
  max_message_bytes :: nat
  bytes_transferred :: nat

definition new_inline_broker :: "nat \<Rightarrow> inline_broker" where
  "new_inline_broker limit = \<lparr>iq = [], max_message_bytes = limit, bytes_transferred = 0\<rparr>"

definition encode_inline :: "float_text \<Rightarrow> payload \<Rightarrow> string" where
  "encode_inline fl p =
     (let header = json_dumps fl (JObj [(''content_type'', JStr (content_type p)),
        (''original_name'', JStr (original_name p)), (''size_bytes'', JInt (int (size_bytes p)))])
      in header @ [CHR 0x0A] @ data p)"

definition inline_publish :: "string \<Rightarrow> (inline_broker, nat) io" where
  "inline_publish message b =
     (if max_message_bytes b < length message
      then raise (MessageTooLargeError (length message) (max_message_bytes b)) b
      else ret (length message)
        (b\<lparr>iq := iq b @ [message], bytes_transferred := bytes_transferred b + length message\<rparr>))"

definition inline_get :: "inline_broker \<Rightarrow> (string \<times> inline_broker) option" where
  "inline_get b = (case iq b of [] \<Rightarrow> None | m # ms \<Rightarrow> Some (m, b\<lparr>iq := ms\<rparr>))"

definition inline_qsize :: "inline_broker \<Rightarrow> nat" where
  "inline_qsize b = length (iq b)"

definition publish_payload_inline :: "float_text \<Rightarrow> payload \<Rightarrow> (inline_broker, nat) io" where
  "publish_payload_inline fl p = inline_publish (encode_inline fl p)"

subsection \<open>Publishing and redeeming\<close>

definition logs_payload_as :: "(claim_check \<Rightarrow> payload \<Rightarrow> 'i) \<Rightarrow> ('x \<Rightarrow> 'i list) \<Rightarrow> 'x claim_handler \<Rightarrow> bool" where
  "logs_payload_as f lg h \<longleftrightarrow> (\<forall>c cl p w. \<exists>w'. h c cl p w = (Inr (), w') \<and> cq w' = cq w \<and> cstore w' = cstore w \<and>
     lg (claim_app w') = lg (claim_app w) @ [f cl p])"

definition logs_payload :: "('x \<Rightarrow> (claim_check \<times> payload) list) \<Rightarrow> 'x claim_handler \<Rightarrow> bool" where
  "logs_payload = logs_payload_as Pair"

text \<open>\<open>holds dir w ps\<close>: the queue holds one claim per payload, and the store their bytes.\<close>

definition token_of :: "claim_check \<Rightarrow> payload \<Rightarrow> bool" where
  "token_of c p \<longleftrightarrow> cl_content_type c = content_type p \<and> cl_original_name c = original_name p \<and>
     cl_size_bytes c = size_bytes p"

definition claims_data :: "claim_check list \<Rightarrow> payload list \<Rightarrow> (string \<times> string) list" where
  "claims_data cs ps = zip (map claim_id cs) (map data ps)"

lemma claims_data_simps [simp]:
  "claims_data [] ps = []" "claims_data (c # cs) (p # ps) = (claim_id c, data p) # claims_data cs ps"
  "length cs = length ps \<Longrightarrow> claims_data (cs @ [c]) (ps @ [p]) = claims_data cs ps @ [(claim_id c, data p)]"
  "length cs = length ps \<Longrightarrow> map fst (claims_data cs ps) = map claim_id cs"
  by (simp_all add: claims_data_def)

fun check_in_all :: "float_text \<Rightarrow> string \<Rightarrow> (nat \<Rightarrow> string) \<Rightarrow> payload list \<Rightarrow> claim_check list \<Rightarrow>
    ('x claim_world_scheme, claim_check list) io" where
  "check_in_all fl dir u [] cs = ret cs"
| "check_in_all fl dir u (p # ps) cs =
     bnd (claim_check_in fl dir u p) (\<lambda>c. check_in_all fl dir u ps (cs @ [c]))"

lemma claim_check_in_run:
  obtains c w' where "claim_check_in fl dir u p w = (Inr c, w')" and "token_of c p"
    and "claim_id c = u (uuids_minted (cstore w))" and "cq w' = cq w @ [c]"
    and "cstore w' = snd (store_put dir u (data p) (cstore w))" and "claim_app w' = claim_app w"
  by (simp add: claim_check_in_def claim_publish_def token_of_def bnd_assoc Let_def store_put_def)

lemma check_in_all_run:
  assumes u: "inj u" and "length cs = length done1" and "list_all2 token_of cs done1"
    and "cq w = q @ cs" and "fs.redeemable dir (claims_data cs done1) (cstore w)"
    and "\<forall>c \<in> set cs. \<exists>n < uuids_minted (cstore w). claim_id c = u n"
  shows "\<exists>cs' w'. check_in_all fl dir u ps cs w = (Inr (cs @ cs'), w') \<and> list_all2 token_of (cs @ cs') (done1 @ ps) \<and>
    cq w' = q @ cs @ cs' \<and> fs.redeemable dir (claims_data (cs @ cs') (done1 @ ps)) (cstore w') \<and>
    claim_app w' = claim_app w"
  using assms(2-)
proof (induction ps arbitrary: cs done1 w)
  case Nil
  then show ?case by simp
next
  case (Cons p ps)
  obtain c w1 where run: "claim_check_in fl dir u p w = (Inr c, w1)" "token_of c p"
    and c: "claim_id c = u (uuids_minted (cstore w))" and w1: "cq w1 = cq w @ [c]"
    "cstore w1 = snd (store_put dir u (data p) (cstore w))" "claim_app w1 = claim_app w"
    by (rule claim_check_in_run)
  have put: "store_put dir u (data p) (cstore w) = (claim_id c, cstore w1)"
    by (simp add: w1(2) c store_put_def Let_def)
  have "claim_id c \<notin> fst ` set (claims_data cs done1)"
  proof
    assume "claim_id c \<in> fst ` set (claims_data cs done1)"
    then have "claim_id c \<in> set (map claim_id cs)"
      using Cons.prems(1) by (metis claims_data_simps(4) list.set_map)
    then obtain n where "n < uuids_minted (cstore w)" "u n = u (uuids_minted (cstore w))"
      using Cons.prems(5) c by auto
    then show False using u by (simp add: inj_eq)
  qed
  then have "fs.redeemable dir (claims_data (cs @ [c]) (done1 @ [p])) (cstore w1)"
    using fs.redeemable_put [OF Cons.prems(4) put] Cons.prems(1) by simp
  moreover have "\<forall>c' \<in> set (cs @ [c]). \<exists>n < uuids_minted (cstore w1). claim_id c' = u n"
    using Cons.prems(5) c by (auto simp: w1(2) store_put_def Let_def) (meson less_SucI)
  moreover have "list_all2 token_of (cs @ [c]) (done1 @ [p])"
    using Cons.prems(2) run(2) by (simp add: list_all2_appendI)
  moreover have "cq w1 = q @ cs @ [c]" "length (cs @ [c]) = length (done1 @ [p])"
    using Cons.prems(1,3) w1(1) by simp_all
  ultimately have "\<exists>cs' w'. check_in_all fl dir u ps (cs @ [c]) w1 = (Inr ((cs @ [c]) @ cs'), w') \<and>
      list_all2 token_of ((cs @ [c]) @ cs') ((done1 @ [p]) @ ps) \<and> cq w' = q @ (cs @ [c]) @ cs' \<and>
      fs.redeemable dir (claims_data ((cs @ [c]) @ cs') ((done1 @ [p]) @ ps)) (cstore w') \<and>
      claim_app w' = claim_app w1"
    by (intro Cons.IH) simp_all
  then obtain cs' w' where "check_in_all fl dir u ps (cs @ [c]) w1 = (Inr ((cs @ [c]) @ cs'), w')"
    "list_all2 token_of ((cs @ [c]) @ cs') ((done1 @ [p]) @ ps)" "cq w' = q @ (cs @ [c]) @ cs'"
    "fs.redeemable dir (claims_data ((cs @ [c]) @ cs') ((done1 @ [p]) @ ps)) (cstore w')"
    "claim_app w' = claim_app w1"
    by blast
  then show ?case using run(1) w1(3) by (intro exI [of _ "c # cs'"] exI [of _ w']) (simp add: bnd_def)
qed

lemma redeem_logs:
  assumes h: "logs_payload_as f lg h" and d: "store_get dir (claim_id c) (cstore w) = Inr (data p)" and t: "token_of c p"
  obtains w' where "redeem dir cid del h c n w = (Inr (n + 1), w')" and "cq w' = cq w"
    and "cstore w' = (if del then store_delete dir (claim_id c) (cstore w) else cstore w)"
    and "lg (claim_app w') = lg (claim_app w) @ [f c p]"
proof -
  let ?w = "w\<lparr>reg := increment ''claim_check'' ''payloads_retrieved'' 1 (wall w) (reg w)\<rparr>"
  have p: "\<lparr>data = data p, content_type = cl_content_type c, original_name = cl_original_name c\<rparr> = p"
    using t by (simp add: token_of_def)
  obtain w1 where h1: "h cid c p ?w = (Inr (), w1)" "cq w1 = cq w" "cstore w1 = cstore w"
    "lg (claim_app w1) = lg (claim_app w) @ [f c p]"
    using h unfolding logs_payload_as_def by (metis (no_types, lifting) claim_world.select_convs claim_world.surjective
        claim_world.update_convs metrics_world.update_convs(1))
  show ?thesis
    using that h1 by (cases del) (simp_all add: redeem_def d p bnd_def incr_def)
qed

lemma claim_loop_delivers:
  assumes h: "logs_payload_as f lg h" and "list_all2 token_of (cq w) ps"
    and "fs.redeemable dir (claims_data (cq w) ps) (cstore w)" and "length ps \<le> k"
  shows "\<exists>w'. claim_loop dir cid del h (replicate k (\<lambda>w. w)) n w = (Inr (n + int (length ps)), w') \<and> cq w' = [] \<and>
    lg (claim_app w') = lg (claim_app w) @ map (case_prod f) (zip (cq w) ps) \<and>
    (\<forall>c \<in> set (cq w). store_exists dir (claim_id c) (cstore w') = (\<not> del)) \<and>
    (\<forall>i. i \<notin> claim_id ` set (cq w) \<longrightarrow> store_exists dir i (cstore w') = store_exists dir i (cstore w))"
  using assms(2-)
proof (induction k arbitrary: ps n w)
  case 0
  then show ?case by simp
next
  case (Suc k)
  show ?case
  proof (cases "cq w")
    case Nil
    then have "claim_loop dir cid del h (replicate (Suc k) (\<lambda>w. w)) n w =
        claim_loop dir cid del h (replicate k (\<lambda>w. w)) n w"
      by (simp add: bnd_def claim_get_def)
    moreover have "ps = []" using Suc.prems(1) Nil by simp
    ultimately show ?thesis using Suc.IH [of w "[]" n] Nil by simp
  next
    case (Cons c cs)
    then obtain p ps' where ps: "ps = p # ps'" "token_of c p" "list_all2 token_of cs ps'"
      using Suc.prems(1) by (cases ps) auto
    let ?w = "w\<lparr>cq := cs\<rparr>"
    have red: "fs.redeemable dir ((claim_id c, data p) # claims_data cs ps') (cstore ?w)"
      using Suc.prems(2) Cons ps(1) by simp
    obtain w1 where w1: "redeem dir cid del h c n ?w = (Inr (n + 1), w1)" "cq w1 = cs"
      "cstore w1 = (if del then store_delete dir (claim_id c) (cstore w) else cstore w)"
      "lg (claim_app w1) = lg (claim_app w) @ [f c p]"
      using redeem_logs [OF h fs.redeemable_hd [OF red] ps(2), of cid del n thesis] by simp
    have red1: "fs.redeemable dir (claims_data (cq w1) ps') (cstore w1)"
      using fs.redeemable_tl [OF red] fs.redeemable_del [OF red] w1(2,3) by simp
    obtain w' where w': "claim_loop dir cid del h (replicate k (\<lambda>w. w)) (n + 1) w1 =
        (Inr (n + 1 + int (length ps')), w')" "cq w' = []"
      "lg (claim_app w') = lg (claim_app w1) @ map (case_prod f) (zip cs ps')"
      "\<forall>c \<in> set cs. store_exists dir (claim_id c) (cstore w') = (\<not> del)"
      "\<forall>i. i \<notin> claim_id ` set cs \<longrightarrow> store_exists dir i (cstore w') = store_exists dir i (cstore w1)"
      using Suc.IH [of w1 ps' "n + 1"] ps(3) red1 Suc.prems(3) ps(1) w1(2) by auto
    have nin: "claim_id c \<notin> claim_id ` set cs"
      using red ps(3) unfolding fs.redeemable_def by (auto simp: list_all2_lengthD)
    have "store_exists dir (claim_id c) (cstore w1) = (\<not> del)"
      using fs.redeemable_has [OF red, of "claim_id c" "data p"] w1(3) by auto
    then show ?thesis using w' w1 Cons ps(1) nin
      by (auto simp: bnd_def claim_get_def fs.has_del_other)
  qed
qed

text \<open>A claim taken from the queue is gone, whatever then becomes of it.\<close>

lemma redeem_missing:
  "\<not> store_exists dir (claim_id c) (cstore w) \<Longrightarrow>
    redeem dir cid del h c n w = (Inl (PayloadNotFoundError (claim_id c)), w)"
  by (simp add: redeem_def store_exists_def store_get_def)

subsection \<open>Sizes\<close>

lemma wire_size_bound:
  assumes "cl_size_bytes c < 10 ^ d" and "1 \<le> d"
  shows "wire_size_bytes fl c \<le> 94 + d + 6 * (length (claim_id c) + length (cl_content_type c) +
    length (cl_original_name c) + length (cl_created_at c))"
proof -
  have key: "length (json_str k) = length k + 2" if "list_all (\<lambda>c. 32 \<le> code c \<and> code c \<le> 126 \<and> code c \<noteq> 34 \<and> code c \<noteq> 92) k" for k
    using json_str_ascii [OF that] by simp
  have "length (py_str_int (int (cl_size_bytes c))) \<le> d"
    using nat_digits_length [OF assms] by (simp add: py_str_int_def)
  then show ?thesis
    using json_str_length [of "claim_id c"] json_str_length [of "cl_content_type c"]
      json_str_length [of "cl_original_name c"] json_str_length [of "cl_created_at c"]
    by (simp add: wire_size_bytes_def key)
qed

lemma encode_inline_length: "length (data p) < length (encode_inline fl p)"
  by (simp add: encode_inline_def Let_def)

end
