(* ===== verification/Claim_Check_Properties.thy ===== *)
theory Claim_Check_Properties
  imports Claim_Check
begin

section \<open>The claim check: properties\<close>

definition claim_demo_world :: "(claim_check \<times> payload) list claim_world_scheme" where
  "claim_demo_world = \<lparr>reg = [], wall = ''now'', cq = [], cstore = \<lparr>files = [], uuids_minted = 0\<rparr>, \<dots> = []\<rparr>"

definition claim_log :: "(claim_check \<times> payload) list claim_handler" where
  "claim_log c cl p w = (Inr (), claim_world.more_update (\<lambda>l. l @ [(cl, p)]) w)"

definition claim_fail :: "(claim_check \<times> payload) list claim_handler" where
  "claim_fail c cl p w = (Inl ConsumerCrashError, w)"

definition demo_payload :: payload where
  "demo_payload = \<lparr>data = ''bytes'', content_type = ''t'', original_name = ''n''\<rparr>"

definition plain_floats :: float_text where
  "plain_floats = \<lparr>show_float = (\<lambda>_. ''0.0''), parse_float = (\<lambda>_. Inr (Finite 0))\<rparr>"

lemma claim_log_logs: "logs_payload (\<lambda>l. l) claim_log"
  by (simp add: logs_payload_def logs_payload_as_def claim_log_def)

text \<open>
  C20: what is checked in is delivered. Publish any payloads on an idle broker and run the consumer for
  at least as many turns, with a handler that succeeds: it returns their number, the handler got
  exactly these payloads, once each and in order, every payload with the claim check that describes
  it, the queue is empty, and the payloads are gone from the store exactly if deletion was asked for.
\<close>

theorem claim_check_delivers:
  assumes "inj u" and "logs_payload lg handler" and "cq w = []" and "length ps \<le> k"
  shows "\<exists>claims w1 w2. check_in_all fl dir u ps [] w = (Inr claims, w1) \<and> list_all2 token_of claims ps \<and>
    run_claim_consumer dir handler cid delete_after (replicate k (\<lambda>w. w)) w1 = (Inr (int (length ps)), w2) \<and>
    lg (claim_app w2) = lg (claim_app w) @ zip claims ps \<and> cq w2 = [] \<and>
    (\<forall>c \<in> set claims. store_exists dir (claim_id c) (cstore w2) = (\<not> delete_after))"
proof -
  obtain claims w1 where c: "check_in_all fl dir u ps [] w = (Inr ([] @ claims), w1)"
    "list_all2 token_of ([] @ claims) ([] @ ps)" "cq w1 = [] @ [] @ claims"
    "fs.redeemable dir (claims_data ([] @ claims) ([] @ ps)) (cstore w1)" "claim_app w1 = claim_app w"
    using check_in_all_run [OF assms(1), of "[]" "[]" w "[]" dir fl ps] assms(3) by auto
  obtain w2 where "claim_loop dir cid delete_after handler (replicate k (\<lambda>w. w)) 0 w1 = (Inr (0 + int (length ps)), w2)"
    "cq w2 = []" "lg (claim_app w2) = lg (claim_app w1) @ map (case_prod Pair) (zip (cq w1) ps)"
    "\<forall>c \<in> set (cq w1). store_exists dir (claim_id c) (cstore w2) = (\<not> delete_after)"
    using claim_loop_delivers [OF assms(2) [unfolded logs_payload_def], of w1 ps dir k cid delete_after 0] c assms(4) by auto
  then show ?thesis using c by (simp add: run_claim_consumer_def case_prod_Pair_iden)
qed

theorem claim_check_delivers_witness:
  "\<exists>claims w1 w2. check_in_all plain_floats ''d'' nat_digits [demo_payload, demo_payload] [] claim_demo_world = (Inr claims, w1) \<and>
    run_claim_consumer ''d'' claim_log ''c'' True [\<lambda>w. w, \<lambda>w. w] w1 = (Inr 2, w2) \<and>
    map snd (claim_app w2) = [demo_payload, demo_payload]"
proof -
  have start: "cq claim_demo_world = []" "claim_app claim_demo_world = []" by (simp_all add: claim_demo_world_def)
  obtain claims w1 w2 where "check_in_all plain_floats ''d'' nat_digits [demo_payload, demo_payload] [] claim_demo_world = (Inr claims, w1)"
    "list_all2 token_of claims [demo_payload, demo_payload]"
    "run_claim_consumer ''d'' claim_log ''c'' True (replicate 2 (\<lambda>w. w)) w1 = (Inr (int 2), w2)"
    "claim_app w2 = zip claims [demo_payload, demo_payload]"
    using claim_check_delivers [OF inj_nat_digits claim_log_logs start(1), of "[demo_payload, demo_payload]" 2
        plain_floats "''d''" "''c''" True] start(2) by auto
  then show ?thesis by (auto simp: numeral_2_eq_2 dest: list_all2_lengthD)
qed

text \<open>
  C21: only the claim crosses the broker. Publishing puts one claim on the queue; its size on the wire
  is bounded by its texts and the number of digits of the payload's size, whatever the bytes are,
  and the bytes saved are counted as the excess of the payload over the claim, never negative.
\<close>

theorem claim_check_wire_bound:
  assumes "claim_check_in fl dir u p w = (Inr c, w')" and "size_bytes p < 10 ^ d" and "1 \<le> d"
  shows "cq w' = cq w @ [c] \<and> wire_size_bytes fl c \<le> 94 + d + 6 * (length (claim_id c) +
      length (content_type p) + length (original_name p) + length (wall w)) \<and>
    counter (reg w') ''claim_check'' ''broker_bytes_saved'' =
      counter (reg w) ''claim_check'' ''broker_bytes_saved'' +
      max (int (size_bytes p) - int (wire_size_bytes fl c)) 0"
proof -
  have c: "cl_size_bytes c = size_bytes p \<and> cl_content_type c = content_type p \<and>
      cl_original_name c = original_name p \<and> cl_created_at c = wall w \<and> cq w' = cq w @ [c] \<and>
      counter (reg w') ''claim_check'' ''broker_bytes_saved'' =
      counter (reg w) ''claim_check'' ''broker_bytes_saved'' +
      max (int (size_bytes p) - int (wire_size_bytes fl c)) 0"
    using assms(1) by (auto simp: claim_check_in_def claim_publish_def bnd_assoc Let_def store_put_def
        counter_increment)
  then show ?thesis using wire_size_bound [of c d fl] assms(2,3) by auto
qed

theorem claim_check_wire_bound_witness:
  "\<exists>c w'. claim_check_in plain_floats ''d'' nat_digits demo_payload claim_demo_world = (Inr c, w') \<and>
    wire_size_bytes plain_floats c \<le> 95 + 6 * (length (claim_id c) + 5)"
proof -
  obtain c w' where run: "claim_check_in plain_floats ''d'' nat_digits demo_payload claim_demo_world = (Inr c, w')"
    by (rule claim_check_in_run)
  have "size_bytes demo_payload < 10 ^ 1" by (simp add: size_bytes_def demo_payload_def)
  from claim_check_wire_bound [OF run this] show ?thesis
    using run by (simp add: demo_payload_def claim_demo_world_def)
qed

text \<open>
  C22: delivery is at most once. A claim leaves the queue when it is read. If its payload is not in the
  store, or if the handler raises, the consumer ends with that error, the claim is on the queue no
  longer, and no other claim was touched; after a failed handler the payload is still in the store,
  with no claim left to redeem it.
\<close>

theorem claim_check_at_most_once:
  assumes "cq w = c # cs"
  shows "(\<not> store_exists dir (claim_id c) (cstore w) \<longrightarrow>
      run_claim_consumer dir handler cid del ((\<lambda>w. w) # envs) w =
        (Inl (PayloadNotFoundError (claim_id c)), w\<lparr>cq := cs\<rparr>)) \<and>
    (store_exists dir (claim_id c) (cstore w) \<and>
      (\<forall>cl p w. \<exists>e w'. handler cid cl p w = (Inl e, w') \<and> cq w' = cq w \<and> cstore w' = cstore w) \<longrightarrow>
      (\<exists>e w'. run_claim_consumer dir handler cid del ((\<lambda>w. w) # envs) w = (Inl e, w') \<and> cq w' = cs \<and>
        store_exists dir (claim_id c) (cstore w')))"
proof (intro conjI impI)
  assume "\<not> store_exists dir (claim_id c) (cstore w)"
  then have "redeem dir cid del handler c 0 (w\<lparr>cq := cs\<rparr>) =
      (Inl (PayloadNotFoundError (claim_id c)), w\<lparr>cq := cs\<rparr>)" by (simp add: redeem_missing)
  then show "run_claim_consumer dir handler cid del ((\<lambda>w. w) # envs) w =
      (Inl (PayloadNotFoundError (claim_id c)), w\<lparr>cq := cs\<rparr>)"
    using assms by (simp add: run_claim_consumer_def bnd_def claim_get_def)
next
  assume a: "store_exists dir (claim_id c) (cstore w) \<and>
    (\<forall>cl p w. \<exists>e w'. handler cid cl p w = (Inl e, w') \<and> cq w' = cq w \<and> cstore w' = cstore w)"
  then obtain d where d: "store_get dir (claim_id c) (cstore w) = Inr d" by (auto simp: fs.has_get)
  let ?w = "w\<lparr>cq := cs, reg := increment ''claim_check'' ''payloads_retrieved'' 1 (wall w) (reg w)\<rparr>"
  obtain e w' where h: "handler cid c \<lparr>data = d, content_type = cl_content_type c,
      original_name = cl_original_name c\<rparr> ?w = (Inl e, w')" "cq w' = cq ?w" "cstore w' = cstore ?w"
    using a by blast
  then have "redeem dir cid del handler c 0 (w\<lparr>cq := cs\<rparr>) = (Inl e, w')"
    using d by (simp add: redeem_def bnd_def [of "handler _ _ _"])
  then show "\<exists>e w'. run_claim_consumer dir handler cid del ((\<lambda>w. w) # envs) w = (Inl e, w') \<and> cq w' = cs \<and>
      store_exists dir (claim_id c) (cstore w')"
    using assms a h by (simp add: run_claim_consumer_def bnd_def claim_get_def)
qed

definition claim_orphan :: claim_check where
  "claim_orphan = \<lparr>claim_id = ''7'', cl_content_type = ''t'', cl_original_name = ''n'', cl_size_bytes = 5,
     cl_created_at = ''now''\<rparr>"

definition claim_orphan_world :: "(claim_check \<times> payload) list claim_world_scheme" where
  "claim_orphan_world = claim_demo_world\<lparr>cq := [claim_orphan]\<rparr>"

text \<open>The same claim with its payload in the store.\<close>

definition claim_stored_world :: "(claim_check \<times> payload) list claim_world_scheme" where
  "claim_stored_world = claim_orphan_world\<lparr>cstore := \<lparr>files = [(store_path ''d'' ''7'', ''bytes'')], uuids_minted = 8\<rparr>\<rparr>"

theorem claim_check_at_most_once_witness:
  "run_claim_consumer ''d'' claim_fail ''c'' True [\<lambda>w. w] claim_orphan_world =
     (Inl (PayloadNotFoundError ''7''), claim_demo_world) \<and>
   (\<exists>e w'. run_claim_consumer ''d'' claim_fail ''c'' True [\<lambda>w. w] claim_stored_world = (Inl e, w') \<and> cq w' = [] \<and>
     store_exists ''d'' ''7'' (cstore w'))"
proof
  show "run_claim_consumer ''d'' claim_fail ''c'' True [\<lambda>w. w] claim_orphan_world = (Inl (PayloadNotFoundError ''7''), claim_demo_world)"
    using claim_check_at_most_once [of claim_orphan_world claim_orphan "[]" "''d''" claim_fail "''c''" True "[]"]
    by (simp add: claim_orphan_def claim_orphan_world_def store_exists_def claim_demo_world_def)
  show "\<exists>e w'. run_claim_consumer ''d'' claim_fail ''c'' True [\<lambda>w. w] claim_stored_world = (Inl e, w') \<and> cq w' = [] \<and>
      store_exists ''d'' ''7'' (cstore w')"
    using claim_check_at_most_once [of claim_stored_world claim_orphan "[]" "''d''" claim_fail "''c''" True "[]"]
    by (simp add: claim_orphan_def claim_stored_world_def claim_orphan_world_def store_exists_def claim_fail_def)
qed

text \<open>
  The inline broker is limited by the payload. It rejects a message over its limit, and is then
  unchanged; otherwise it carries the whole message, and counts it. The message holds the payload, so
  every payload of the limit's size or more is rejected.
\<close>

theorem inline_broker_rejects_large_payloads:
  "(case publish_payload_inline fl p b of
      (Inl e, b') \<Rightarrow> b' = b \<and> e = MessageTooLargeError (length (encode_inline fl p)) (max_message_bytes b) \<and>
        max_message_bytes b < length (encode_inline fl p)
    | (Inr n, b') \<Rightarrow> n = length (encode_inline fl p) \<and> size_bytes p < n \<and> n \<le> max_message_bytes b \<and>
        iq b' = iq b @ [encode_inline fl p] \<and> bytes_transferred b' = bytes_transferred b + n) \<and>
   (max_message_bytes b \<le> size_bytes p \<longrightarrow>
      publish_payload_inline fl p b =
        (Inl (MessageTooLargeError (length (encode_inline fl p)) (max_message_bytes b)), b))"
  using encode_inline_length [of p fl]
  by (auto simp: publish_payload_inline_def inline_publish_def size_bytes_def)

theorem inline_broker_rejects_large_payloads_witness:
  "\<exists>e. publish_payload_inline plain_floats demo_payload (new_inline_broker 5) = (Inl e, new_inline_broker 5)"
  using inline_broker_rejects_large_payloads [where fl = plain_floats and p = demo_payload and b = "new_inline_broker 5"]
  by (simp add: new_inline_broker_def demo_payload_def size_bytes_def)

end
