(* ===== verification/Idempotency.thy ===== *)
theory Idempotency
  imports Redis_Client
begin

section \<open>Dedup stores\<close>

text \<open>
  \<^verbatim>\<open>entities/idempotency.py\<close>. The protocol \<^verbatim>\<open>IdempotencyStore\<close> is the locale \<open>dedup_store\<close>; its two
  implementations are the in-memory store, whose operations hold the \<^verbatim>\<open>asyncio.Lock\<close> for their whole
  body and so are atomic functions, and the store on a Redis set. Instants and intervals are integers
  (microseconds in memory, milliseconds for Redis). The reading of the clock is an argument.
\<close>

subsection \<open>The contract\<close>

text \<open>
  Consumers that race for messages ask to claim their keys, each at an instant of its own: \<open>tick t\<close> is the
  passing of time until \<open>t\<close>. The result is the list of the claims that were granted.
\<close>

definition claim_one :: "(int \<Rightarrow> 'w \<Rightarrow> 'w) \<Rightarrow> ('k \<Rightarrow> ('w, bool) io) \<Rightarrow> int \<times> 'k \<Rightarrow> (int \<times> 'k) list \<Rightarrow>
    ('w, (int \<times> 'k) list) io" where
  "claim_one tick mark c granted =
     bnd (modify (tick (fst c))) (\<lambda>_.
     bnd (mark (snd c)) (\<lambda>b.
     ret (if b then granted @ [c] else granted)))"

definition claim_all :: "(int \<Rightarrow> 'w \<Rightarrow> 'w) \<Rightarrow> ('k \<Rightarrow> ('w, bool) io) \<Rightarrow> (int \<times> 'k) list \<Rightarrow> ('w, (int \<times> 'k) list) io" where
  "claim_all tick mark claims = for_each (claim_one tick mark) claims []"

text \<open>
  \<open>live w\<close> are the keys recorded and not expired in the world \<open>w\<close>. A caller of \<open>mark_if_new\<close> holds
  the claim if and only if the key was not live.
\<close>

locale dedup_store =
  fixes is_processed :: "'k \<Rightarrow> ('w, bool) io" and mark_processed :: "'k \<Rightarrow> ('w, unit) io"
    and mark_if_new :: "'k \<Rightarrow> ('w, bool) io" and live :: "'w \<Rightarrow> 'k set" and ok :: "'w \<Rightarrow> bool"
  assumes is_processed_law: "ok w \<Longrightarrow> is_processed k w = (Inr b, w') \<Longrightarrow> ok w' \<and> live w' = live w \<and> b = (k \<in> live w)"
    and mark_processed_law: "ok w \<Longrightarrow> mark_processed k w = (Inr (), w') \<Longrightarrow> ok w' \<and> live w' = insert k (live w)"
    and mark_if_new_law: "ok w \<Longrightarrow> mark_if_new k w = (Inr b, w') \<Longrightarrow>
      ok w' \<and> live w' = insert k (live w) \<and> b = (k \<notin> live w)"
begin

text \<open>As long as time passes without a key expiring, no key is granted twice; \<open>I\<close> is why none expires.\<close>

lemma claims_granted_once:
  assumes "for_each (claim_one tick mark_if_new) cs granted w = (Inr granted', w')" and "ok w" and "I w"
    and "\<And>c v. c \<in> set cs \<Longrightarrow> ok v \<Longrightarrow> I v \<Longrightarrow> ok (tick (fst c) v) \<and> I (tick (fst c) v) \<and> live (tick (fst c) v) = live v"
    and "\<And>k v b v'. ok v \<Longrightarrow> I v \<Longrightarrow> mark_if_new k v = (Inr b, v') \<Longrightarrow> I v'"
    and "distinct (map snd granted)" and "snd ` set granted \<subseteq> live w"
  shows "distinct (map snd granted') \<and> snd ` set granted' = snd ` set granted \<union> (snd ` set cs - live w) \<and>
    live w' = live w \<union> snd ` set cs \<and> I w'"
  using assms
proof (induction cs arbitrary: granted w)
  case Nil
  then show ?case by simp
next
  case (Cons c cs)
  then obtain g w1 where one: "claim_one tick mark_if_new c granted w = (Inr g, w1)"
    and loop: "for_each (claim_one tick mark_if_new) cs g w1 = (Inr granted', w')"
    by (auto elim: bnd_InrE)
  let ?w = "tick (fst c) w"
  have t: "ok ?w" "I ?w" "live ?w = live w" using Cons.prems(4) [of c w] Cons.prems(2,3) by auto
  obtain b where m: "mark_if_new (snd c) ?w = (Inr b, w1)" and g: "g = (if b then granted @ [c] else granted)"
    using one by (auto simp: claim_one_def elim: bnd_InrE)
  note l = mark_if_new_law [OF t(1) m] and i = Cons.prems(5) [OF t(1,2) m]
  have b: "b = (snd c \<notin> live w)" and w1: "live w1 = insert (snd c) (live w)" "ok w1" using l t(3) by auto
  have d: "distinct (map snd g)" "snd ` set g \<subseteq> live w1" using Cons.prems(6,7) b w1(1) by (auto simp: g)
  have later: "ok (tick (fst c') v) \<and> I (tick (fst c') v) \<and> live (tick (fst c') v) = live v"
    if "c' \<in> set cs" "ok v" "I v" for c' v
    by (rule Cons.prems(4)) (use that in simp_all)
  have "distinct (map snd granted') \<and> snd ` set granted' = snd ` set g \<union> (snd ` set cs - live w1) \<and>
      live w' = live w1 \<union> snd ` set cs \<and> I w'"
    by (rule Cons.IH [OF loop w1(2) i later Cons.prems(5) d])
  then show ?case using b w1(1) by (auto simp: g)
qed

end

subsection \<open>The lifetime\<close>

definition DEFAULT_TTL :: int where
  "DEFAULT_TTL = 3600 * 1000000"

definition DEFAULT_PROCESSED_SET :: string where
  "DEFAULT_PROCESSED_SET = ''idempotency:processed''"

definition validate_ttl :: "int \<Rightarrow> exn + int" where
  "validate_ttl ttl = (if ttl \<le> 0 then Inl (ValueError ''ttl must be positive'') else Inr ttl)"

subsection \<open>The in-memory store\<close>

record mem_store =
  ms_ttl :: int
  expiry :: "(string, int) dict"

definition new_mem_store :: "int \<Rightarrow> exn + mem_store" where
  "new_mem_store ttl = bndr (validate_ttl ttl) (\<lambda>t. Inr \<lparr>ms_ttl = t, expiry = []\<rparr>)"

definition is_live :: "string \<Rightarrow> int \<Rightarrow> mem_store \<Rightarrow> bool \<times> mem_store" where
  "is_live key now s = (case map_of (expiry s) key of
      None \<Rightarrow> (False, s)
    | Some expires_at \<Rightarrow>
        if now < expires_at then (True, s)
        else (False, s\<lparr>expiry := AList.delete key (expiry s)\<rparr>))"

definition purge_expired :: "int \<Rightarrow> mem_store \<Rightarrow> mem_store" where
  "purge_expired now s =
     (let expired = map fst (filter (\<lambda>(key, expires_at). expires_at \<le> now) (expiry s))
      in s\<lparr>expiry := fold AList.delete expired (expiry s)\<rparr>)"

definition record_key :: "string \<Rightarrow> int \<Rightarrow> mem_store \<Rightarrow> mem_store" where
  "record_key key now s =
     (let s' = purge_expired now s in s'\<lparr>expiry := AList.update key (now + ms_ttl s') (expiry s')\<rparr>)"

definition mem_is_processed :: "string \<Rightarrow> int \<Rightarrow> mem_store \<Rightarrow> bool \<times> mem_store" where
  "mem_is_processed key now s = is_live key now s"

definition mem_mark_processed :: "string \<Rightarrow> int \<Rightarrow> mem_store \<Rightarrow> mem_store" where
  "mem_mark_processed key now s = record_key key now s"

definition mem_mark_if_new :: "string \<Rightarrow> int \<Rightarrow> mem_store \<Rightarrow> bool \<times> mem_store" where
  "mem_mark_if_new key now s = (case is_live key now s of
      (True, s') \<Rightarrow> (False, s')
    | (False, s') \<Rightarrow> (True, record_key key now s'))"

definition mem_size :: "int \<Rightarrow> mem_store \<Rightarrow> nat" where
  "mem_size now s = length (filter (\<lambda>(key, expires_at). now < expires_at) (expiry s))"

definition mem_live :: "int \<Rightarrow> mem_store \<Rightarrow> string set" where
  "mem_live now s = {k. \<exists>e. map_of (expiry s) k = Some e \<and> now < e}"

lemma map_of_fold_delete: "map_of (fold AList.delete ks d) k = (if k \<in> set ks then None else map_of d k)"
  by (induction ks arbitrary: d) auto

lemma purge_lookup:
  assumes "distinct (dict_keys (expiry s))"
  shows "map_of (expiry (purge_expired now s)) k = (case map_of (expiry s) k of
      None \<Rightarrow> None | Some e \<Rightarrow> if e \<le> now then None else Some e)"
proof -
  have "k \<in> fst ` {p \<in> set (expiry s). snd p \<le> now} \<longleftrightarrow> (\<exists>e. map_of (expiry s) k = Some e \<and> e \<le> now)"
    using assms by (force dest: map_of_SomeD)
  then show ?thesis
    by (auto simp: purge_expired_def Let_def map_of_fold_delete case_prod_beta image_iff split: option.splits)
qed

lemma distinct_fold_delete: "distinct (dict_keys d) \<Longrightarrow> distinct (dict_keys (fold AList.delete ks d))"
  by (induction ks arbitrary: d) (auto simp: distinct_delete)

lemma purge_wf [simp]: "distinct (dict_keys (expiry s)) \<Longrightarrow> distinct (dict_keys (expiry (purge_expired now s)))"
  "ms_ttl (purge_expired now s) = ms_ttl s"
  by (simp_all add: purge_expired_def Let_def distinct_fold_delete)

definition mem_ok :: "mem_store \<Rightarrow> bool" where
  "mem_ok s \<longleftrightarrow> 0 < ms_ttl s \<and> distinct (dict_keys (expiry s))"

lemma new_mem_store_ok: "new_mem_store ttl = Inr s \<Longrightarrow> mem_ok s \<and> mem_live now s = {}"
  by (auto simp: new_mem_store_def validate_ttl_def mem_ok_def mem_live_def bndr_Inr_iff split: if_splits)

lemma is_live_facts:
  assumes "mem_ok s"
  shows "fst (is_live k now s) = (k \<in> mem_live now s)" and "mem_ok (snd (is_live k now s))"
    and "now \<le> t \<Longrightarrow> mem_live t (snd (is_live k now s)) = mem_live t s"
    and "ms_ttl (snd (is_live k now s)) = ms_ttl s"
proof -
  show "mem_ok (snd (is_live k now s))" "ms_ttl (snd (is_live k now s)) = ms_ttl s"
    using assms by (simp_all add: is_live_def mem_ok_def distinct_delete split: option.split)
qed (auto simp: is_live_def mem_live_def split: option.splits)

lemma record_key_facts:
  assumes "mem_ok s"
  shows "mem_ok (record_key k now s)" and "ms_ttl (record_key k now s) = ms_ttl s"
    and "now \<le> t \<Longrightarrow> j \<in> mem_live t (record_key k now s) \<longleftrightarrow> (if j = k then t < now + ms_ttl s else j \<in> mem_live t s)"
    and "\<forall>(j, e) \<in> set (expiry (record_key k now s)). now < e"
proof -
  have d: "distinct (dict_keys (expiry s))" using assms by (simp add: mem_ok_def)
  show "mem_ok (record_key k now s)" using assms by (simp add: mem_ok_def record_key_def Let_def distinct_update)
  then have d': "distinct (dict_keys (expiry (record_key k now s)))" by (simp add: mem_ok_def)
  show "ms_ttl (record_key k now s) = ms_ttl s" by (simp add: record_key_def Let_def)
  show "j \<in> mem_live t (record_key k now s) \<longleftrightarrow> (if j = k then t < now + ms_ttl s else j \<in> mem_live t s)" if "now \<le> t"
    using that by (auto simp: record_key_def Let_def mem_live_def purge_lookup [OF d] split: option.splits if_splits)
  have "now < e" if "map_of (expiry (record_key k now s)) j = Some e" for j e
    using that assms by (auto simp: record_key_def Let_def purge_lookup [OF d] mem_ok_def split: if_splits option.splits)
  then show "\<forall>(j, e) \<in> set (expiry (record_key k now s)). now < e" using d' by fastforce
qed

lemma record_key_live: "mem_ok s \<Longrightarrow> mem_live now (record_key k now s) = insert k (mem_live now s)"
  using record_key_facts(3) [where s = s and k = k and now = now and t = now]
  by (intro set_eqI) (simp add: mem_ok_def)

subsection \<open>The in-memory store meets the contract\<close>

record idem_world =
  idem_clock :: int
  idem_store :: mem_store

definition in_mem_is_processed :: "string \<Rightarrow> (idem_world, bool) io" where
  "in_mem_is_processed k w = (case mem_is_processed k (idem_clock w) (idem_store w) of
     (b, s) \<Rightarrow> (Inr b, w\<lparr>idem_store := s\<rparr>))"

definition in_mem_mark_processed :: "string \<Rightarrow> (idem_world, unit) io" where
  "in_mem_mark_processed k w = (Inr (), w\<lparr>idem_store := mem_mark_processed k (idem_clock w) (idem_store w)\<rparr>)"

definition in_mem_mark_if_new :: "string \<Rightarrow> (idem_world, bool) io" where
  "in_mem_mark_if_new k w = (case mem_mark_if_new k (idem_clock w) (idem_store w) of
     (b, s) \<Rightarrow> (Inr b, w\<lparr>idem_store := s\<rparr>))"

definition in_mem_live :: "idem_world \<Rightarrow> string set" where
  "in_mem_live w = mem_live (idem_clock w) (idem_store w)"

lemma mem_mark_if_new_facts:
  assumes "mem_ok s"
  shows "fst (mem_mark_if_new k now s) = (k \<notin> mem_live now s)" and "mem_ok (snd (mem_mark_if_new k now s))"
    and "mem_live now (snd (mem_mark_if_new k now s)) = insert k (mem_live now s)"
proof -
  obtain b s' where l: "is_live k now s = (b, s')" by (cases "is_live k now s")
  note f = is_live_facts [OF assms, where k = k and now = now, unfolded l, simplified]
  show "fst (mem_mark_if_new k now s) = (k \<notin> mem_live now s)" "mem_ok (snd (mem_mark_if_new k now s))"
    using f record_key_facts(1) by (auto simp: mem_mark_if_new_def l split: bool.splits)
  show "mem_live now (snd (mem_mark_if_new k now s)) = insert k (mem_live now s)"
    using f(1,3) record_key_live [OF f(2), of now k]
    by (cases b) (simp_all add: mem_mark_if_new_def l insert_absorb)
qed

interpretation in_mem: dedup_store in_mem_is_processed in_mem_mark_processed in_mem_mark_if_new in_mem_live
    "\<lambda>w. mem_ok (idem_store w)"
proof unfold_locales
  fix w k b w'
  assume ok: "mem_ok (idem_store w)" and "in_mem_is_processed k w = (Inr b, w')"
  then show "mem_ok (idem_store w') \<and> in_mem_live w' = in_mem_live w \<and> b = (k \<in> in_mem_live w)"
    using is_live_facts [OF ok, where k = k and now = "idem_clock w"]
    by (auto simp: in_mem_is_processed_def mem_is_processed_def in_mem_live_def split: prod.splits)
next
  fix w k w'
  assume ok: "mem_ok (idem_store w)" and "in_mem_mark_processed k w = (Inr (), w')"
  then show "mem_ok (idem_store w') \<and> in_mem_live w' = insert k (in_mem_live w)"
    using record_key_facts(1) [OF ok] record_key_live [OF ok]
    by (auto simp: in_mem_mark_processed_def mem_mark_processed_def in_mem_live_def)
next
  fix w k b w'
  assume ok: "mem_ok (idem_store w)" and "in_mem_mark_if_new k w = (Inr b, w')"
  then show "mem_ok (idem_store w') \<and> in_mem_live w' = insert k (in_mem_live w) \<and> b = (k \<notin> in_mem_live w)"
    using mem_mark_if_new_facts [OF ok, where k = k and now = "idem_clock w"]
    by (cases "mem_mark_if_new k (idem_clock w) (idem_store w)") (simp add: in_mem_mark_if_new_def in_mem_live_def, clarsimp)
qed

subsection \<open>The Redis store\<close>

text \<open>\<open>ttl_ms\<close> is what the client makes of the \<^verbatim>\<open>timedelta\<close> it passes to \<^verbatim>\<open>PEXPIRE\<close>.\<close>

definition redis_is_processed :: "'r redis \<Rightarrow> string \<Rightarrow> string \<Rightarrow> (('r, 'x) world_scheme, bool) io" where
  "redis_is_processed R set_key key =
     bnd (redis_call (sismember R set_key key)) (\<lambda>member. ret (member \<noteq> 0))"

definition redis_mark_if_new :: "'r redis \<Rightarrow> string \<Rightarrow> int \<Rightarrow> string \<Rightarrow> (('r, 'x) world_scheme, bool) io" where
  "redis_mark_if_new R set_key ttl_ms key =
     bnd (redis_call (sadd R set_key key)) (\<lambda>added.
     bnd (redis_call (pexpire_nx R set_key ttl_ms)) (\<lambda>_.
     ret (added \<noteq> 0)))"

definition redis_mark_processed :: "'r redis \<Rightarrow> string \<Rightarrow> int \<Rightarrow> string \<Rightarrow> (('r, 'x) world_scheme, unit) io" where
  "redis_mark_processed R set_key ttl_ms key =
     bnd (redis_mark_if_new R set_key ttl_ms key) (\<lambda>_. ret ())"

locale redis_dedup = redis_server +
  fixes set_key :: string and ttl_ms :: int
  assumes ttl_positive: "0 < ttl_ms"
begin

lemma redis_is_processed_effect:
  assumes "redis_is_processed R set_key k w = (Inr b, w')"
  shows "b = (k \<in> ks_live_set (kv w) set_key) \<and> kv w' = kv w"
proof -
  obtain m w1 where m: "redis_call (sismember R set_key k) w = (Inr m, w1)" and r: "ret (m \<noteq> 0) w1 = (Inr b, w')"
    using assms unfolding redis_is_processed_def by (rule bnd_InrE)
  then obtain r' where "sismember R set_key k (srv w) = (Inr m, r')" "w1 = w\<lparr>srv := r'\<rparr>"
    by (auto simp: redis_call_eq_iff)
  then show ?thesis using r sismember_law [of set_key k "srv w" m r'] by (cases "k \<in> ks_live_set (kv w) set_key") auto
qed

lemma redis_mark_if_new_effect:
  assumes "redis_mark_if_new R set_key ttl_ms k w = (Inr b, w')"
  shows "b = (k \<notin> ks_live_set (kv w) set_key) \<and>
    ks_live_set (kv w') set_key = insert k (ks_live_set (kv w) set_key)"
  using assms ttl_positive unfolding redis_mark_if_new_def
  by (auto elim!: bnd_InrE simp: redis_call_eq_iff ks_live_set_pexpire_nx dest!: sadd_law pexpire_nx_law)

end

sublocale redis_dedup \<subseteq> dedup: dedup_store "redis_is_processed R set_key" "redis_mark_processed R set_key ttl_ms"
    "redis_mark_if_new R set_key ttl_ms" "\<lambda>w. ks_live_set (view (srv w)) set_key" "\<lambda>_. True"
proof unfold_locales
  fix w k b w'
  assume run: "redis_is_processed R set_key k w = (Inr b, w')"
  have "b = (k \<in> ks_live_set (view (srv w)) set_key)" and "view (srv w') = view (srv w)"
    by (rule conjunct1 [OF redis_is_processed_effect [OF run]], rule conjunct2 [OF redis_is_processed_effect [OF run]])
  then show "True \<and> ks_live_set (view (srv w')) set_key = ks_live_set (view (srv w)) set_key \<and>
      b = (k \<in> ks_live_set (view (srv w)) set_key)"
    by simp
next
  fix w k w'
  assume "redis_mark_processed R set_key ttl_ms k w = (Inr (), w')"
  then obtain b w1 where "redis_mark_if_new R set_key ttl_ms k w = (Inr b, w1)" and "ret () w1 = (Inr (), w')"
    unfolding redis_mark_processed_def by (rule bnd_InrE)
  then show "True \<and> ks_live_set (view (srv w')) set_key = insert k (ks_live_set (view (srv w)) set_key)"
    using redis_mark_if_new_effect by simp blast
next
  fix w k b w'
  assume run: "redis_mark_if_new R set_key ttl_ms k w = (Inr b, w')"
  show "True \<and> ks_live_set (view (srv w')) set_key = insert k (ks_live_set (view (srv w)) set_key) \<and>
      b = (k \<notin> ks_live_set (view (srv w)) set_key)"
    using redis_mark_if_new_effect [OF run] by blast
qed


text \<open>
  The window of the set: it ends at the instant at which the first write found it to end, or \<open>ttl_ms\<close> after
  that write if the set was new. Within the window a key is granted once, and then all keys are gone together.
\<close>

definition window_end :: "int \<Rightarrow> string \<Rightarrow> keyspace \<Rightarrow> int" where
  "window_end ttl_ms key k = (case ks_expiry k key of
      Some e \<Rightarrow> if ks_live_set k key = {} then ks_time k + ttl_ms else e
    | None \<Rightarrow> ks_time k + ttl_ms)"

context redis_dedup
begin

lemma redis_mark_if_new_keyspace:
  assumes "redis_mark_if_new R set_key ttl_ms k w = (Inr b, w')"
  shows "kv w' = ks_pexpire_nx set_key ttl_ms (ks_sadd set_key k (kv w))"
  using assms unfolding redis_mark_if_new_def
  by (auto elim!: bnd_InrE simp: redis_call_eq_iff dest!: sadd_law pexpire_nx_law)

lemma ks_mark_expiry:
  "ks_expiry (ks_pexpire_nx set_key ttl_ms (ks_sadd set_key k ks)) set_key = Some (window_end ttl_ms set_key ks)"
  "ks_time (ks_pexpire_nx set_key ttl_ms (ks_sadd set_key k ks)) = ks_time ks"
  by (auto simp: ks_pexpire_nx_def ks_sadd_def window_end_def ks_live_set_def split: option.splits)

lemma redis_claims_granted_once:
  assumes run: "claim_all tick (redis_mark_if_new R set_key ttl_ms) claims w = (Inr granted, w')"
    and tick: "\<And>t v. view (srv (tick t v)) = (view (srv v))\<lparr>ks_time := t\<rparr>"
    and first: "claims = (t0, k0) # rest"
    and within: "\<forall>c \<in> set claims. fst c < window_end ttl_ms set_key ((kv w)\<lparr>ks_time := t0\<rparr>)"
  shows "distinct (map snd granted) \<and> snd ` set granted = snd ` set claims - ks_live_set ((kv w)\<lparr>ks_time := t0\<rparr>) set_key \<and>
    (\<forall>t. ks_live_set ((kv w')\<lparr>ks_time := t\<rparr>) set_key = (if t < window_end ttl_ms set_key ((kv w)\<lparr>ks_time := t0\<rparr>)
      then ks_live_set ((kv w)\<lparr>ks_time := t0\<rparr>) set_key \<union> snd ` set claims else {}))"
proof -
  let ?mark = "redis_mark_if_new R set_key ttl_ms" and ?k0 = "(kv w)\<lparr>ks_time := t0\<rparr>"
  let ?E = "window_end ttl_ms set_key ?k0" and ?live = "\<lambda>v. ks_live_set (kv v) set_key"
  define I where "I v \<longleftrightarrow> ks_expiry (kv v) set_key = Some ?E \<and> ks_time (kv v) < ?E \<and> ?live v \<noteq> {}" for v :: "('a, 'b) world_scheme"
  obtain b w1 where m: "?mark k0 (tick t0 w) = (Inr b, w1)"
    and loop: "for_each (claim_one tick ?mark) rest (if b then [] @ [(t0, k0)] else []) w1 = (Inr granted, w')"
    using run unfolding claim_all_def first by (auto simp: claim_one_def elim!: bnd_InrE)
  have k1: "kv w1 = ks_pexpire_nx set_key ttl_ms (ks_sadd set_key k0 ?k0)"
    using redis_mark_if_new_keyspace [OF m] tick [of t0 w] by simp
  have b: "b = (k0 \<notin> ks_live_set ?k0 set_key)" "?live w1 = insert k0 (ks_live_set ?k0 set_key)"
    using redis_mark_if_new_effect [OF m] tick [of t0 w] by simp_all
  have I1: "I w1" using within by (simp add: I_def k1 ks_mark_expiry ks_live_set_pexpire_nx [OF ttl_positive] first)
  have time: "I (tick (fst c) v) \<and> ?live (tick (fst c) v) = ?live v" if "c \<in> set rest" "I v" for c v
    using that within tick [of "fst c" v] by (auto simp: I_def ks_live_set_def first split: option.splits if_splits)
  have mark: "I v'" if "I v" "?mark k v = (Inr c, v')" for k c and v v' :: "('a, 'b) world_scheme"
  proof -
    note k = redis_mark_if_new_keyspace [OF that(2)]
    have "window_end ttl_ms set_key (kv v) = ?E" using that(1) by (simp add: I_def window_end_def)
    then show ?thesis using that(1) by (simp add: I_def k ks_mark_expiry ks_live_set_pexpire_nx [OF ttl_positive])
  qed
  have once: "distinct (map snd granted) \<and> snd ` set granted = snd ` set (if b then [] @ [(t0, k0)] else []) \<union> (snd ` set rest - ?live w1) \<and>
      ?live w' = ?live w1 \<union> snd ` set rest \<and> I w'"
    by (rule dedup.claims_granted_once [where I = I, OF loop TrueI I1]) (use time mark b in \<open>auto split: if_splits\<close>)
  then have "ks_live_set ((kv w')\<lparr>ks_time := t\<rparr>) set_key = (if t < ?E then ?live w' else {})" for t
    by (auto simp: I_def ks_live_set_def)
  then show ?thesis using once b by (auto simp: first)
qed

end

subsection \<open>Claims on the in-memory store, one after the other in time\<close>

lemma mem_live_later: "k \<in> mem_live u s \<Longrightarrow> t \<le> u \<Longrightarrow> k \<in> mem_live t s"
  by (auto simp: mem_live_def)

text \<open>
  \<open>granted_so_far s0 t g s\<close>: from the store \<open>s0\<close>, with the grants \<open>g\<close> up to the instant \<open>t\<close>, to the store \<open>s\<close>.
\<close>

definition granted_so_far :: "mem_store \<Rightarrow> int \<Rightarrow> (int \<times> string) list \<Rightarrow> mem_store \<Rightarrow> bool" where
  "granted_so_far s0 t g s \<longleftrightarrow> mem_ok s \<and> ms_ttl s = ms_ttl s0 \<and>
     (\<forall>u k. t \<le> u \<longrightarrow> (k \<in> mem_live u s \<longleftrightarrow> (\<exists>t'. (t', k) \<in> set g \<and> u < t' + ms_ttl s0) \<or> k \<in> mem_live u s0)) \<and>
     sorted_wrt (\<lambda>(t, k) (t', k'). k = k' \<longrightarrow> t + ms_ttl s0 \<le> t') g \<and>
     (\<forall>(t', k) \<in> set g. t' \<le> t \<and> k \<notin> mem_live t' s0)"

lemma granted_so_far_claim:
  assumes g: "granted_so_far s0 t0 g s" and t: "t0 \<le> t"
  shows "granted_so_far s0 t (if fst (mem_mark_if_new k t s) then g @ [(t, k)] else g) (snd (mem_mark_if_new k t s)) \<and>
    (fst (mem_mark_if_new k t s) \<or> k \<in> mem_live t s0 \<or> (\<exists>t'. (t', k) \<in> set g \<and> t' \<le> t \<and> t < t' + ms_ttl s0))"
proof -
  have ok: "mem_ok s" and ttl: "ms_ttl s = ms_ttl s0"
    and live: "\<And>u k. t0 \<le> u \<Longrightarrow> k \<in> mem_live u s \<longleftrightarrow> (\<exists>t'. (t', k) \<in> set g \<and> u < t' + ms_ttl s0) \<or> k \<in> mem_live u s0"
    and srt: "sorted_wrt (\<lambda>(t, k) (t', k'). k = k' \<longrightarrow> t + ms_ttl s0 \<le> t') g"
    and old: "\<And>t' k. (t', k) \<in> set g \<Longrightarrow> t' \<le> t0 \<and> k \<notin> mem_live t' s0"
    using g by (auto simp: granted_so_far_def)
  obtain b s1 where l: "is_live k t s = (b, s1)" by (cases "is_live k t s")
  note f = is_live_facts [OF ok, where k = k and now = t, unfolded l, simplified]
  have s1: "mem_ok s1" "ms_ttl s1 = ms_ttl s0" "\<And>u. t \<le> u \<Longrightarrow> mem_live u s1 = mem_live u s" and b: "b = (k \<in> mem_live t s)"
    using f ttl by auto
  show ?thesis
  proof (cases b)
    case True
    then show ?thesis using s1 b live t srt old by (fastforce simp: mem_mark_if_new_def l granted_so_far_def)
  next
    case False
    have new: "k \<notin> mem_live t s0" "\<And>t'. (t', k) \<in> set g \<Longrightarrow> t' + ms_ttl s0 \<le> t" using False b live [OF t, of k] by force+
    note r = record_key_facts [OF s1(1), where k = k and now = t]
    have "j \<in> mem_live u (record_key k t s1) \<longleftrightarrow>
        (\<exists>t'. (t', j) \<in> set (g @ [(t, k)]) \<and> u < t' + ms_ttl s0) \<or> j \<in> mem_live u s0" if u: "t \<le> u" for u j
      using r(3) [OF u, of j] s1(2) s1(3) [OF u] live [of u j] t u new mem_live_later [OF _ u, of k s0] by (cases "j = k") (auto, force)
    moreover have "sorted_wrt (\<lambda>(t, k) (t', k'). k = k' \<longrightarrow> t + ms_ttl s0 \<le> t') (g @ [(t, k)])"
      using srt new(2) by (auto simp: sorted_wrt_append)
    ultimately show ?thesis using False r(1,2) s1(2) new(1) old t
      by (fastforce simp: mem_mark_if_new_def l granted_so_far_def)
  qed
qed

lemma mem_claims_granted:
  assumes "granted_so_far s0 t0 g (idem_store w)" and "sorted (map fst claims)" and "\<forall>c \<in> set claims. t0 \<le> fst c"
  shows "\<exists>g' w' t1. for_each (claim_one (\<lambda>t w. w\<lparr>idem_clock := t\<rparr>) in_mem_mark_if_new) claims g w = (Inr g', w') \<and>
    granted_so_far s0 t1 g' (idem_store w') \<and> set g \<subseteq> set g' \<and> set g' \<subseteq> set g \<union> set claims \<and>
    (\<forall>(t, k) \<in> set claims. (t, k) \<in> set g' \<or> k \<in> mem_live t s0 \<or> (\<exists>t'. (t', k) \<in> set g' \<and> t' \<le> t \<and> t < t' + ms_ttl s0))"
  using assms
proof (induction claims arbitrary: g w t0)
  case Nil
  then show ?case by auto
next
  case (Cons c claims)
  obtain t k where c: "c = (t, k)" by (cases c)
  have t: "t0 \<le> t" using Cons.prems(3) c by simp
  obtain b s1 where m: "mem_mark_if_new k t (idem_store w) = (b, s1)" by (cases "mem_mark_if_new k t (idem_store w)")
  let ?w = "w\<lparr>idem_clock := t, idem_store := s1\<rparr>" and ?g = "if b then g @ [c] else g"
  note st = granted_so_far_claim [OF Cons.prems(1) t, of k, unfolded m fst_conv snd_conv]
  have so: "granted_so_far s0 t ?g (idem_store ?w)" using st by (cases b) (simp_all add: c)
  obtain g' w' t1 where w': "for_each (claim_one (\<lambda>t w. w\<lparr>idem_clock := t\<rparr>) in_mem_mark_if_new) claims ?g ?w = (Inr g', w')"
    "granted_so_far s0 t1 g' (idem_store w')" "set ?g \<subseteq> set g'" "set g' \<subseteq> set ?g \<union> set claims"
    "\<forall>(t, k) \<in> set claims. (t, k) \<in> set g' \<or> k \<in> mem_live t s0 \<or> (\<exists>t'. (t', k) \<in> set g' \<and> t' \<le> t \<and> t < t' + ms_ttl s0)"
    using Cons.IH [OF so] Cons.prems(2) c by auto
  have "claim_one (\<lambda>t w. w\<lparr>idem_clock := t\<rparr>) in_mem_mark_if_new c g w = (Inr ?g, ?w)"
    by (simp add: claim_one_def in_mem_mark_if_new_def m c bnd_def)
  then have "for_each (claim_one (\<lambda>t w. w\<lparr>idem_clock := t\<rparr>) in_mem_mark_if_new) (c # claims) g w = (Inr g', w')"
    using w'(1) by (simp add: bnd_Inr)
  moreover have "set g \<subseteq> set g'" "set g' \<subseteq> set g \<union> set (c # claims)" using w'(3,4) by (auto split: if_splits)
  moreover have "(t, k) \<in> set g' \<or> k \<in> mem_live t s0 \<or> (\<exists>t'. (t', k) \<in> set g' \<and> t' \<le> t \<and> t < t' + ms_ttl s0)"
    using st w'(3) by (auto simp: c split: if_splits)
  ultimately show ?case using w'(2,5) by (intro exI [of _ g'], intro exI [of _ w'], intro exI [of _ t1]) (simp add: c)
qed

subsection \<open>The in-memory store against an unbounded log\<close>

text \<open>
  The reference keeps, for every key, the instant of its last recording, and forgets nothing: a key
  counts as processed for \<open>ttl\<close> after it. A trace is a list of timed operations; its results are the
  answers of the operations that have one.
\<close>

datatype dedup_op = Check string | Mark string | Claim string

fun mem_op :: "int \<Rightarrow> dedup_op \<Rightarrow> mem_store \<Rightarrow> bool list \<times> mem_store" where
  "mem_op now (Check k) s = (case mem_is_processed k now s of (b, s') \<Rightarrow> ([b], s'))"
| "mem_op now (Mark k) s = ([], mem_mark_processed k now s)"
| "mem_op now (Claim k) s = (case mem_mark_if_new k now s of (b, s') \<Rightarrow> ([b], s'))"

fun mem_run :: "(int \<times> dedup_op) list \<Rightarrow> mem_store \<Rightarrow> bool list \<times> mem_store" where
  "mem_run [] s = ([], s)"
| "mem_run ((now, p) # ops) s = (let (r, s1) = mem_op now p s; (rs, s2) = mem_run ops s1 in (r @ rs, s2))"

type_synonym mark_log = "string \<Rightarrow> int option"

definition remembered :: "int \<Rightarrow> mark_log \<Rightarrow> int \<Rightarrow> string \<Rightarrow> bool" where
  "remembered ttl m now k \<longleftrightarrow> (\<exists>t. m k = Some t \<and> now < t + ttl)"

fun log_op :: "int \<Rightarrow> int \<Rightarrow> dedup_op \<Rightarrow> mark_log \<Rightarrow> bool list \<times> mark_log" where
  "log_op ttl now (Check k) m = ([remembered ttl m now k], m)"
| "log_op ttl now (Mark k) m = ([], m(k \<mapsto> now))"
| "log_op ttl now (Claim k) m = (if remembered ttl m now k then ([False], m) else ([True], m(k \<mapsto> now)))"

fun log_run :: "int \<Rightarrow> (int \<times> dedup_op) list \<Rightarrow> mark_log \<Rightarrow> bool list \<times> mark_log" where
  "log_run ttl [] m = ([], m)"
| "log_run ttl ((now, p) # ops) m = (let (r, m1) = log_op ttl now p m; (rs, m2) = log_run ttl ops m1 in (r @ rs, m2))"

definition log_sim :: "int \<Rightarrow> mem_store \<Rightarrow> mark_log \<Rightarrow> bool" where
  "log_sim t0 s m \<longleftrightarrow> mem_ok s \<and> (\<forall>t k. t0 \<le> t \<longrightarrow> (k \<in> mem_live t s \<longleftrightarrow> remembered (ms_ttl s) m t k))"

lemma log_sim_record:
  assumes "log_sim t0 s m" and "t0 \<le> now"
  shows "log_sim now (record_key k now s) (m(k \<mapsto> now))"
proof -
  have ok: "mem_ok s" using assms(1) by (simp add: log_sim_def)
  show ?thesis
    using assms record_key_facts(1,2) [OF ok] record_key_facts(3) [OF ok, where k = k and now = now]
    by (simp add: log_sim_def remembered_def)
qed

lemma log_sim_is_live:
  assumes "log_sim t0 s m" and "t0 \<le> now"
  shows "fst (is_live k now s) = remembered (ms_ttl s) m now k" and "log_sim now (snd (is_live k now s)) m"
  using assms is_live_facts [where s = s and k = k and now = now] by (simp_all add: log_sim_def)

lemma mem_op_log_op:
  assumes "log_sim t0 s m" and "t0 \<le> now"
  shows "fst (mem_op now p s) = fst (log_op (ms_ttl s) now p m) \<and>
    log_sim now (snd (mem_op now p s)) (snd (log_op (ms_ttl s) now p m)) \<and> ms_ttl (snd (mem_op now p s)) = ms_ttl s"
proof (cases p)
  case (Check k)
  then show ?thesis using log_sim_is_live [OF assms, of k] is_live_facts(4) [where s = s and k = k and now = now] assms(1)
    by (simp add: mem_is_processed_def log_sim_def case_prod_beta)
next
  case (Mark k)
  then show ?thesis using log_sim_record [OF assms, of k] record_key_facts(2) [where s = s and k = k and now = now] assms(1)
    by (simp add: mem_mark_processed_def log_sim_def)
next
  case (Claim k)
  obtain b s1 where l: "is_live k now s = (b, s1)" by (cases "is_live k now s")
  have b: "b = remembered (ms_ttl s) m now k" and s1: "log_sim now s1 m" and t: "ms_ttl s1 = ms_ttl s"
    using log_sim_is_live [OF assms, of k] is_live_facts(4) [where s = s and k = k and now = now] assms(1) by (simp_all add: l log_sim_def)
  have "mem_ok s1" using s1 by (simp add: log_sim_def)
  then show ?thesis using log_sim_record [OF s1, of now k] record_key_facts(2) [where s = s1 and k = k and now = now] b s1 t Claim
    by (simp add: mem_mark_if_new_def l)
qed

lemma mem_run_log_run:
  assumes "log_sim t0 s m" and "sorted (map fst ops)" and "\<forall>x \<in> set ops. t0 \<le> fst x"
  shows "fst (mem_run ops s) = fst (log_run (ms_ttl s) ops m)"
  using assms
proof (induction ops arbitrary: s m t0)
  case Nil
  then show ?case by simp
next
  case (Cons op ops)
  obtain now p where op: "op = (now, p)" by (cases op)
  note st = mem_op_log_op [OF Cons.prems(1), of now p]
  have "t0 \<le> now" using Cons.prems(3) op by simp
  then have "fst (mem_run ops (snd (mem_op now p s))) =
      fst (log_run (ms_ttl (snd (mem_op now p s))) ops (snd (log_op (ms_ttl s) now p m)))"
    using Cons.IH [of now "snd (mem_op now p s)"] st Cons.prems(2) op by simp
  then show ?case using st \<open>t0 \<le> now\<close> by (simp add: op Let_def case_prod_beta)
qed

lemma record_key_size:
  assumes "mem_ok s"
  shows "length (expiry (record_key k now s)) = mem_size now (record_key k now s)"
proof -
  have "filter (\<lambda>(key, e). now < e) (expiry (record_key k now s)) = expiry (record_key k now s)"
    by (rule filter_True) (rule record_key_facts(4) [OF assms])
  then show ?thesis by (simp add: mem_size_def)
qed

text \<open>A window of no length disables the Redis store: the key is gone as soon as it is recorded.\<close>

context redis_server
begin

lemma redis_window_zero:
  assumes "redis_mark_if_new R set_key 0 k w = (Inr b, w')" and "ks_expiry (kv w) set_key = None"
  shows "ks_live_set (kv w') set_key = {}"
proof -
  obtain m w1 where m: "redis_call (sadd R set_key k) w = (Inr m, w1)"
    and r: "bnd (redis_call (pexpire_nx R set_key 0)) (\<lambda>_. ret (m \<noteq> 0)) w1 = (Inr b, w')"
    using assms(1) unfolding redis_mark_if_new_def by (rule bnd_InrE)
  have k1: "kv w1 = ks_sadd set_key k (kv w)" using m by (auto simp: redis_call_eq_iff dest!: sadd_law)
  obtain j w2 where p: "redis_call (pexpire_nx R set_key 0) w1 = (Inr j, w2)" and "ret (m \<noteq> 0) w2 = (Inr b, w')"
    using r by (rule bnd_InrE)
  then have k2: "kv w' = ks_pexpire_nx set_key 0 (ks_sadd set_key k (kv w))"
    by (auto simp: redis_call_eq_iff k1 [symmetric] dest!: pexpire_nx_law)
  have "ks_expiry (ks_sadd set_key k (kv w)) set_key = None" using assms(2) by (simp add: ks_sadd_def)
  then show ?thesis by (auto simp: k2 ks_pexpire_nx_def) (simp_all add: ks_live_set_def ks_sadd_def)
qed

end

end
