(* ===== verification/Idempotency_Properties.thy ===== *)
theory Idempotency_Properties
  imports Idempotency Redis_Memory
begin

section \<open>Dedup stores: properties\<close>

interpretation mem_dedup: redis_dedup mem_redis "\<lambda>k. k" "''seen''" 1000
  by unfold_locales simp

lemma sorted_wrt_distinct: "sorted_wrt (\<lambda>c d. f c \<noteq> f d) xs \<Longrightarrow> distinct (map f xs)"
  by (induction xs) auto

text \<open>
  C23: a claim is granted once in a lifetime, and again after it, by either store. Let any number of consumers
  ask to claim keys, in any order of the keys and with any repetitions, while the clock goes on between the
  claims. In the in-memory store, every key has its own lifetime: two grants of one key are at least a lifetime
  apart; a claim that is refused comes less than a lifetime after a grant of its key (or while a recording from
  before is live), so that within one lifetime no key is granted twice and the granted keys are those that were
  not recorded. In Redis all keys share a window, which ends a lifetime after the write that created the set:
  claims before its end are granted once a key, those that were not recorded, and are remembered until the end
  of the window and not beyond. This holds for every server and every positive lifetime.
\<close>

theorem dedup_grants_each_claim_once:
  fixes v :: "('r, 'x) world_scheme"
  shows "(sorted (map fst claims) \<and> mem_ok (idem_store w) \<longrightarrow>
     (\<exists>granted w'. claim_all (\<lambda>t w. w\<lparr>idem_clock := t\<rparr>) in_mem_mark_if_new claims w = (Inr granted, w') \<and>
       set granted \<subseteq> set claims \<and>
       sorted_wrt (\<lambda>(t, k) (t', k'). k = k' \<longrightarrow> t + ms_ttl (idem_store w) \<le> t') granted \<and>
       (\<forall>(t, k) \<in> set granted. k \<notin> mem_live t (idem_store w)) \<and>
       (\<forall>(t, k) \<in> set claims. (t, k) \<in> set granted \<or> k \<in> mem_live t (idem_store w) \<or>
         (\<exists>t'. (t', k) \<in> set granted \<and> t' \<le> t \<and> t < t' + ms_ttl (idem_store w))) \<and>
       ((\<forall>c \<in> set claims. \<forall>d \<in> set claims. fst d < fst c + ms_ttl (idem_store w)) \<longrightarrow> distinct (map snd granted) \<and>
         snd ` set granted = {k. \<exists>t. (t, k) \<in> set claims \<and> k \<notin> mem_live t (idem_store w)}))) \<and>
   (redis_server R view \<and> 0 < ttl_ms \<and> (\<forall>t v. view (srv (tick t v)) = (view (srv v))\<lparr>ks_time := t\<rparr>) \<and>
     claims = (t0, k0) # rest \<and> window = window_end ttl_ms set_key ((view (srv v))\<lparr>ks_time := t0\<rparr>) \<and>
     (\<forall>c \<in> set claims. fst c < window) \<and>
     claim_all tick (redis_mark_if_new R set_key ttl_ms) claims v = (Inr granted, v') \<longrightarrow>
     distinct (map snd granted) \<and>
     snd ` set granted = snd ` set claims - ks_live_set ((view (srv v))\<lparr>ks_time := t0\<rparr>) set_key \<and>
     (\<forall>t. ks_live_set ((view (srv v'))\<lparr>ks_time := t\<rparr>) set_key = (if t < window
       then ks_live_set ((view (srv v))\<lparr>ks_time := t0\<rparr>) set_key \<union> snd ` set claims else {})))"
proof (rule conjI; rule impI)
  assume 1: "sorted (map fst claims) \<and> mem_ok (idem_store w)"
  let ?s = "idem_store w" and ?far = "\<lambda>(t, k) (t', k'). k = k' \<longrightarrow> t + ms_ttl (idem_store w) \<le> t'"
  define t0 where "t0 = (case claims of [] \<Rightarrow> 0 | c # _ \<Rightarrow> fst c)"
  have start: "granted_so_far ?s t0 [] ?s" using 1 by (simp add: granted_so_far_def)
  have first: "\<forall>c \<in> set claims. t0 \<le> fst c" using 1 by (cases claims) (auto simp: t0_def)
  from mem_claims_granted [OF start conjunct1 [OF 1] first] obtain g w' t1 where r: "for_each (claim_one (\<lambda>t w. w\<lparr>idem_clock := t\<rparr>) in_mem_mark_if_new) claims [] w = (Inr g, w')"
    and so: "granted_so_far ?s t1 g (idem_store w')" and sub': "set g \<subseteq> set [] \<union> set claims"
    and refused: "\<forall>(t, k) \<in> set claims. (t, k) \<in> set g \<or> k \<in> mem_live t ?s \<or> (\<exists>t'. (t', k) \<in> set g \<and> t' \<le> t \<and> t < t' + ms_ttl ?s)"
    by (elim exE conjE) (rule that; assumption)
  have run: "claim_all (\<lambda>t w. w\<lparr>idem_clock := t\<rparr>) in_mem_mark_if_new claims w = (Inr g, w')" and sub: "set g \<subseteq> set claims"
    using r sub' by (simp_all add: claim_all_def)
  have far: "sorted_wrt ?far g" and new: "\<forall>(t, k) \<in> set g. k \<notin> mem_live t ?s"
    using so by (auto simp: granted_so_far_def)
  have "distinct (map snd g) \<and> snd ` set g = {k. \<exists>t. (t, k) \<in> set claims \<and> k \<notin> mem_live t ?s}"
    if window: "\<forall>c \<in> set claims. \<forall>d \<in> set claims. fst d < fst c + ms_ttl ?s"
  proof
    have "sorted_wrt (\<lambda>c d. snd c \<noteq> snd d) g"
    proof (rule sorted_wrt_mono_rel [OF _ far])
      fix c d assume cd: "c \<in> set g" "d \<in> set g" "?far c d"
      then have "fst d < fst c + ms_ttl ?s" using window sub by blast
      then show "snd c \<noteq> snd d" using cd(3) by (auto simp: case_prod_beta)
    qed
    then show "distinct (map snd g)" by (rule sorted_wrt_distinct)
    show "snd ` set g = {k. \<exists>t. (t, k) \<in> set claims \<and> k \<notin> mem_live t ?s}"
    proof (intro equalityI subsetI)
      fix k assume "k \<in> snd ` set g"
      then obtain t where "(t, k) \<in> set g" by auto
      then show "k \<in> {k. \<exists>t. (t, k) \<in> set claims \<and> k \<notin> mem_live t ?s}" using sub new by blast
    next
      fix k assume "k \<in> {k. \<exists>t. (t, k) \<in> set claims \<and> k \<notin> mem_live t ?s}"
      then obtain t' where "(t', k) \<in> set g" using refused by blast
      then show "k \<in> snd ` set g" by force
    qed
  qed
  then show "\<exists>granted w'. claim_all (\<lambda>t w. w\<lparr>idem_clock := t\<rparr>) in_mem_mark_if_new claims w = (Inr granted, w') \<and>
       set granted \<subseteq> set claims \<and> sorted_wrt ?far granted \<and>
       (\<forall>(t, k) \<in> set granted. k \<notin> mem_live t ?s) \<and>
       (\<forall>(t, k) \<in> set claims. (t, k) \<in> set granted \<or> k \<in> mem_live t ?s \<or>
         (\<exists>t'. (t', k) \<in> set granted \<and> t' \<le> t \<and> t < t' + ms_ttl ?s)) \<and>
       ((\<forall>c \<in> set claims. \<forall>d \<in> set claims. fst d < fst c + ms_ttl ?s) \<longrightarrow> distinct (map snd granted) \<and>
         snd ` set granted = {k. \<exists>t. (t, k) \<in> set claims \<and> k \<notin> mem_live t ?s})"
    using run far new sub refused by (intro exI conjI) auto
next
  assume r: "redis_server R view \<and> 0 < ttl_ms \<and> (\<forall>t v. view (srv (tick t v)) = (view (srv v))\<lparr>ks_time := t\<rparr>) \<and>
     claims = (t0, k0) # rest \<and> window = window_end ttl_ms set_key ((view (srv v))\<lparr>ks_time := t0\<rparr>) \<and>
     (\<forall>c \<in> set claims. fst c < window) \<and>
     claim_all tick (redis_mark_if_new R set_key ttl_ms) claims v = (Inr granted, v')"
  then have d: "redis_dedup R view ttl_ms" and claims: "claims = (t0, k0) # rest" by (simp_all add: redis_dedup_def redis_dedup_axioms_def)
  have tick: "view (srv (tick t v)) = (view (srv v))\<lparr>ks_time := t\<rparr>" for t v using r by blast
  have w: "window = window_end ttl_ms set_key ((view (srv v))\<lparr>ks_time := t0\<rparr>)"
    and run: "claim_all tick (redis_mark_if_new R set_key ttl_ms) claims v = (Inr granted, v')"
    and within: "\<forall>c \<in> set claims. fst c < window_end ttl_ms set_key ((view (srv v))\<lparr>ks_time := t0\<rparr>)" using r by blast+
  show "distinct (map snd granted) \<and>
     snd ` set granted = snd ` set claims - ks_live_set ((view (srv v))\<lparr>ks_time := t0\<rparr>) set_key \<and>
     (\<forall>t. ks_live_set ((view (srv v'))\<lparr>ks_time := t\<rparr>) set_key = (if t < window
       then ks_live_set ((view (srv v))\<lparr>ks_time := t0\<rparr>) set_key \<union> snd ` set claims else {}))"
    unfolding w by (rule redis_dedup.redis_claims_granted_once [OF d run tick claims within])
qed

definition idem_demo :: idem_world where
  "idem_demo = \<lparr>idem_clock = 0, idem_store = \<lparr>ms_ttl = 10, expiry = [(''old'', 5), (''stale'', 0)]\<rparr>\<rparr>"

definition dedup_world :: "(keyspace, unit) world_scheme" where
  "dedup_world = \<lparr>reg = [], wall = [], srv = empty_keyspace, \<dots> = ()\<rparr>"

definition until :: "int \<Rightarrow> (keyspace, unit) world_scheme \<Rightarrow> (keyspace, unit) world_scheme" where
  "until t v = v\<lparr>srv := (srv v)\<lparr>ks_time := t\<rparr>\<rparr>"

definition demo_claims :: "(int \<times> string) list" where
  "demo_claims = [(0, ''a''), (3, ''a''), (4, ''old''), (6, ''old''), (9, ''a''), (10, ''a'')]"

lemma dedup_runs:
  "fst (claim_all (\<lambda>t w. w\<lparr>idem_clock := t\<rparr>) in_mem_mark_if_new demo_claims idem_demo) =
    Inr [(0, ''a''), (6, ''old''), (10, ''a'')]"
  "fst (claim_all until (redis_mark_if_new mem_redis ''seen'' 1000) [(0, ''a''), (400, ''b''), (999, ''a'')] dedup_world) =
    Inr [(0, ''a''), (400, ''b'')]"
  subgoal by (simp add: claim_all_def claim_one_def in_mem_mark_if_new_def mem_mark_if_new_def is_live_def record_key_def
      purge_expired_def idem_demo_def demo_claims_def bnd_def Let_def)
  subgoal by (simp add: claim_all_def claim_one_def redis_mark_if_new_def redis_call_def until_def dedup_world_def mem_redis_def
      mem_sadd_def mem_pexpire_nx_def ks_sadd_def ks_pexpire_nx_def ks_live_set_def empty_keyspace_def bnd_def Let_def)
  done

theorem dedup_grants_each_claim_once_witness:
  "(\<exists>w'. claim_all (\<lambda>t w. w\<lparr>idem_clock := t\<rparr>) in_mem_mark_if_new demo_claims idem_demo =
      (Inr [(0, ''a''), (6, ''old''), (10, ''a'')], w') \<and>
      sorted_wrt (\<lambda>(t, k) (t', k'). k = k' \<longrightarrow> t + 10 \<le> t') [(0 :: int, ''a''), (6, ''old''), (10, ''a'')]) \<and>
   (\<exists>v'. claim_all until (redis_mark_if_new mem_redis ''seen'' 1000) [(0, ''a''), (400, ''b''), (999, ''a'')] dedup_world =
      (Inr [(0, ''a''), (400, ''b'')], v') \<and>
      (\<forall>t. ks_live_set ((srv v')\<lparr>ks_time := t\<rparr>) ''seen'' = (if t < 1000 then {''a'', ''b''} else {})))"
proof -
  let ?cs = "[(0, ''a''), (400, ''b''), (999, ''a'')] :: (int \<times> string) list"
  obtain v' where run: "claim_all until (redis_mark_if_new mem_redis ''seen'' 1000) ?cs dedup_world = (Inr [(0, ''a''), (400, ''b'')], v')"
    using dedup_runs(2) by (metis prod.collapse)
  have "mem_ok (idem_store idem_demo)" "sorted (map fst demo_claims)" by code_simp+
  then obtain g w' where w': "claim_all (\<lambda>t w. w\<lparr>idem_clock := t\<rparr>) in_mem_mark_if_new demo_claims idem_demo = (Inr g, w')"
    "sorted_wrt (\<lambda>(t, k) (t', k'). k = k' \<longrightarrow> t + ms_ttl (idem_store idem_demo) \<le> t') g"
    using conjunct1 [OF dedup_grants_each_claim_once] by blast
  have E: "window_end 1000 ''seen'' ((srv dedup_world)\<lparr>ks_time := 0\<rparr>) = 1000" "ks_live_set ((srv dedup_world)\<lparr>ks_time := 0\<rparr>) ''seen'' = {}"
    by (simp_all add: window_end_def dedup_world_def empty_keyspace_def ks_live_set_def)
  have "\<forall>t. ks_live_set ((srv v')\<lparr>ks_time := t\<rparr>) ''seen'' = (if t < 1000 then {''a'', ''b''} else {})"
    using conjunct2 [OF dedup_grants_each_claim_once [of ?cs undefined mem_redis "\<lambda>k. k" 1000 until 0 "''a''" "tl ?cs" 1000 "''seen''"
        dedup_world "[(0, ''a''), (400, ''b'')]" v']] E run mem.redis_server_axioms
    by (simp add: until_def insert_commute)
  moreover have "g = [(0, ''a''), (6, ''old''), (10, ''a'')]" using w'(1) dedup_runs(1) by simp
  moreover have "ms_ttl (idem_store idem_demo) = 10" by (simp add: idem_demo_def)
  ultimately show ?thesis using w' run by auto
qed

text \<open>
  C24: the in-memory store answers as if it forgot nothing. With a clock that does not go back, every
  sequence of checks, recordings and claims gets the answers of a reference that keeps the instant of
  the last recording of every key for ever and calls a key processed for exactly the lifetime after
  it: dropping expired entries on reads and sweeping them on writes is not observable. A lifetime that
  is not positive is rejected when the store is built.
\<close>

theorem dedup_memory_store_is_exact:
  assumes "new_mem_store ttl = Inr s" and "sorted (map fst ops)"
  shows "fst (mem_run ops s) = fst (log_run ttl ops (\<lambda>_. None)) \<and> 0 < ttl"
proof -
  have s: "0 < ttl \<and> ms_ttl s = ttl \<and> expiry s = []"
    using assms(1) by (auto simp: new_mem_store_def validate_ttl_def bndr_Inr_iff split: if_splits)
  define t0 where "t0 = (case ops of [] \<Rightarrow> 0 | op # _ \<Rightarrow> fst op)"
  have "log_sim t0 s (\<lambda>_. None)" using s by (simp add: log_sim_def mem_ok_def mem_live_def remembered_def)
  moreover have "\<forall>x \<in> set ops. t0 \<le> fst x" using assms(2) by (cases ops) (auto simp: t0_def)
  ultimately show ?thesis using mem_run_log_run [OF _ assms(2)] s by auto
qed

theorem dedup_memory_store_is_exact_witness:
  "\<exists>s. new_mem_store 10 = Inr s \<and>
    fst (mem_run [(0, Claim ''a''), (5, Claim ''a''), (9, Mark ''b''), (10, Check ''a''), (11, Claim ''a'')] s) =
      [True, False, False, True]"
proof -
  let ?ops = "[(0, Claim ''a''), (5, Claim ''a''), (9, Mark ''b''), (10, Check ''a''), (11, Claim ''a'')]"
  have n: "new_mem_store 10 = Inr \<lparr>ms_ttl = 10, expiry = []\<rparr>" by code_simp
  have "fst (log_run 10 ?ops (\<lambda>_. None)) = [True, False, False, True]" by (simp add: remembered_def)
  then show ?thesis using dedup_memory_store_is_exact [OF n, of ?ops] n by simp
qed

end
