(* ===== verification/Scatter_Gather.thy ===== *)
theory Scatter_Gather
  imports Metrics
begin

section \<open>Scatter-gather\<close>

text \<open>
  \<^verbatim>\<open>scatter_gather_pattern/\<close>: models, the in-memory topic broker, the airline service, the coordinator,
  the combining strategies and the sequential baseline. An \<^verbatim>\<open>asyncio.Queue\<close> is an object with identity:
  a number, with its contents in \<open>queues\<close>. Instants are integers (microseconds), the event loop's clock
  is the field \<open>loop_time\<close>. What the other tasks of the event loop do is an agenda: their steps, each with
  the instant at which it is due. Time passes while every task waits, until the next step is due or the
  timeout of the wait fires; a step may take a time of its own, as a callback that does not suspend.
\<close>

subsection \<open>Models\<close>

datatype distribution_strategy = RECIPIENT_LIST | PUBLISH_SUBSCRIBE

record search_request =
  rq_correlation_id :: string
  origin :: string
  destination :: string
  departure_date :: string
  passengers :: int
  rq_created_at :: string

record flight_quote =
  fq_correlation_id :: string
  airline :: string
  flight_number :: string
  price_cents :: int
  depart_at :: int

text \<open>What travels on a topic; the queues are not typed.\<close>

datatype sg_message = Request search_request | Quote flight_quote

fun correlation_of :: "sg_message \<Rightarrow> string" where
  "correlation_of (Request r) = rq_correlation_id r"
| "correlation_of (Quote q) = fq_correlation_id q"

subsection \<open>Combining strategies\<close>

definition sort_by_price :: "flight_quote list \<Rightarrow> flight_quote list" where
  "sort_by_price quotes = sort_key price_cents quotes"

text \<open>\<^verbatim>\<open>min(quotes, key=...)\<close> keeps the first of the smallest.\<close>

fun min_by_price :: "flight_quote \<Rightarrow> flight_quote list \<Rightarrow> flight_quote" where
  "min_by_price best [] = best"
| "min_by_price best (q # qs) = min_by_price (if price_cents q < price_cents best then q else best) qs"

definition cheapest :: "flight_quote list \<Rightarrow> flight_quote option" where
  "cheapest quotes = (case quotes of [] \<Rightarrow> None | q # qs \<Rightarrow> Some (min_by_price q qs))"

definition filter_departing_after :: "int \<Rightarrow> flight_quote list \<Rightarrow> flight_quote list" where
  "filter_departing_after threshold quotes = filter (\<lambda>q. threshold \<le> depart_at q) quotes"

subsection \<open>The topic broker\<close>

definition PATTERN_ID :: string where
  "PATTERN_ID = ''scatter_gather''"

text \<open>
  \<open>in_hand\<close> is the local variable \<^verbatim>\<open>request\<close> of each airline's \<^verbatim>\<open>serve\<close> while it sleeps, by the number of
  the airline's queue; \<open>stop_set\<close> is the \<^verbatim>\<open>asyncio.Event\<close> that ends the airlines' tasks.
\<close>

record topic_world = metrics_world +
  subs :: "(string, nat list) dict"
  queues :: "nat \<Rightarrow> sg_message list"
  next_queue :: nat
  loop_time :: int
  in_hand :: "nat \<Rightarrow> search_request option"
  stop_set :: bool

definition subscribe :: "string \<Rightarrow> ('x topic_world_scheme, nat) io" where
  "subscribe topic w =
     (let q = next_queue w in
      (Inr q, w\<lparr>next_queue := q + 1, queues := (queues w)(q := []),
         subs := AList.update topic (dict_get (subs w) topic [] @ [q]) (subs w)\<rparr>))"

definition unsubscribe :: "string \<Rightarrow> nat \<Rightarrow> 'x topic_world_scheme \<Rightarrow> 'x topic_world_scheme" where
  "unsubscribe topic q w = (case map_of (subs w) topic of
      None \<Rightarrow> w
    | Some qs \<Rightarrow> if qs = [] then w else w\<lparr>subs := AList.update topic (remove1 q qs) (subs w)\<rparr>)"

definition subscribers :: "string \<Rightarrow> 'x topic_world_scheme \<Rightarrow> nat list" where
  "subscribers topic w = dict_get (subs w) topic []"

definition enqueue :: "sg_message \<Rightarrow> nat \<Rightarrow> 'x topic_world_scheme \<Rightarrow> 'x topic_world_scheme" where
  "enqueue m q w = w\<lparr>queues := (queues w)(q := queues w q @ [m])\<rparr>"

definition sg_publish :: "string \<Rightarrow> sg_message \<Rightarrow> ('x topic_world_scheme, int) io" where
  "sg_publish topic message w =
     (let qs = subscribers topic w in
      bnd (for_each (\<lambda>q _. modify (enqueue message q)) qs ()) (\<lambda>_.
      bnd (incr PATTERN_ID ''messages_published'' 1) (\<lambda>_.
      ret (int (length qs)))) w)"

definition subscriber_count :: "string \<Rightarrow> 'x topic_world_scheme \<Rightarrow> nat" where
  "subscriber_count topic w = length (subscribers topic w)"

subsection \<open>An airline\<close>

type_synonym quote_lookup = "search_request \<Rightarrow> exn + flight_quote"

record airline_service =
  service_name :: string
  lookup :: quote_lookup
  service_response_topic :: string
  latency :: int
  service_queue :: nat

definition new_airline :: "string \<Rightarrow> quote_lookup \<Rightarrow> string \<Rightarrow> string \<Rightarrow> int \<Rightarrow>
    ('x topic_world_scheme, airline_service) io" where
  "new_airline name lk request_topic response_topic lat =
     bnd (subscribe request_topic) (\<lambda>q.
     ret \<lparr>service_name = name, lookup = lk, service_response_topic = response_topic, latency = lat,
       service_queue = q\<rparr>)"

text \<open>\<open>take_message q\<close>: the head of a queue, if there is one when the wait ends.\<close>

definition take_message :: "nat \<Rightarrow> ('x topic_world_scheme, sg_message option) io" where
  "take_message q w = (case queues w q of
      [] \<Rightarrow> (Inr None, w)
    | m # ms \<Rightarrow> (Inr (Some m), w\<lparr>queues := (queues w)(q := ms)\<rparr>))"

text \<open>The answer to one request: a lookup that raises publishes nothing.\<close>

definition answer :: "airline_service \<Rightarrow> search_request \<Rightarrow> int \<Rightarrow> ('x topic_world_scheme, int) io" where
  "answer a request served = (case lookup a request of
      Inl exc \<Rightarrow> bnd (incr PATTERN_ID ''service_failures'' 1) (\<lambda>_. ret served)
    | Inr quote \<Rightarrow>
        bnd (sg_publish (service_response_topic a) (Quote quote)) (\<lambda>_.
        bnd (incr PATTERN_ID ''responses_published'' 1) (\<lambda>_.
        ret (served + 1))))"

text \<open>
  A turn of \<^verbatim>\<open>serve\<close> is in two halves, because the coroutine is suspended at the sleep for its latency:
  \<open>receive\<close> takes a request, and answers at once if there is no latency to sleep; \<open>respond\<close> answers the
  request in hand. Only requests are sent to an airline.
\<close>

definition respond :: "airline_service \<Rightarrow> int \<Rightarrow> ('x topic_world_scheme, int) io" where
  "respond a served w = (case in_hand w (service_queue a) of
      None \<Rightarrow> (Inr served, w)
    | Some request \<Rightarrow> answer a request served (w\<lparr>in_hand := (in_hand w)(service_queue a := None)\<rparr>))"

definition receive :: "airline_service \<Rightarrow> int \<Rightarrow> ('x topic_world_scheme, int) io" where
  "receive a served =
     bnd (take_message (service_queue a)) (\<lambda>got. case got of
       Some (Request request) \<Rightarrow>
         bnd (modify (\<lambda>w. w\<lparr>in_hand := (in_hand w)(service_queue a \<mapsto> request)\<rparr>)) (\<lambda>_.
         if 0 < latency a then ret served else respond a served)
     | _ \<Rightarrow> ret served)"

text \<open>
  One turn, with \<open>poll\<close> the environment while it waits for a request and \<open>nap\<close> while it sleeps.
\<close>

definition serve_turn :: "airline_service \<Rightarrow> ('x topic_world_scheme \<Rightarrow> 'x topic_world_scheme) \<Rightarrow>
    ('x topic_world_scheme \<Rightarrow> 'x topic_world_scheme) \<Rightarrow> int \<Rightarrow> ('x topic_world_scheme, int) io" where
  "serve_turn a poll nap served w =
     (if stop_set w then (Inr served, w)
      else bnd (modify poll) (\<lambda>_. bnd (receive a served) (\<lambda>served w.
        if in_hand w (service_queue a) = None then (Inr served, w)
        else bnd (modify nap) (\<lambda>_. respond a served) w)) w)"

fun serve :: "airline_service \<Rightarrow> (('x topic_world_scheme \<Rightarrow> 'x topic_world_scheme) \<times>
    ('x topic_world_scheme \<Rightarrow> 'x topic_world_scheme)) list \<Rightarrow> int \<Rightarrow> ('x topic_world_scheme, int) io" where
  "serve a [] served = ret served"
| "serve a ((poll, nap) # envs) served = bnd (serve_turn a poll nap served) (serve a envs)"

subsection \<open>The coordinator\<close>

definition RESPONSE_TOPIC :: string where
  "RESPONSE_TOPIC = ''flights:search:responses''"

definition BROADCAST_REQUEST_TOPIC :: string where
  "BROADCAST_REQUEST_TOPIC = ''flights:search:requests''"

definition recipient_request_topic :: "string \<Rightarrow> string" where
  "recipient_request_topic name = ''flights:search:requests:'' @ name"

record coordinator =
  response_topic :: string
  broadcast_topic :: string

definition scatter :: "coordinator \<Rightarrow> search_request \<Rightarrow> distribution_strategy \<Rightarrow> string list option \<Rightarrow>
    ('x topic_world_scheme, int) io" where
  "scatter co request strategy recipients =
     bnd (if strategy = PUBLISH_SUBSCRIBE then sg_publish (broadcast_topic co) (Request request)
          else case recipients of
            None \<Rightarrow> raise (ValueError ''recipient-list strategy requires an explicit recipients list'')
          | Some names \<Rightarrow>
              for_each (\<lambda>name reached.
                bnd (sg_publish (recipient_request_topic name) (Request request)) (\<lambda>n. ret (reached + n))) names 0)
       (\<lambda>reached.
     bnd (incr PATTERN_ID ''requests_scattered'' 1) (\<lambda>_.
     ret reached))"

text \<open>The steps of the other tasks, with the instants at which they are due.\<close>

type_synonym 'w agenda = "(int \<times> ('w \<Rightarrow> 'w)) list"

text \<open>
  \<open>await_message q fires_at\<close> is the body of \<^verbatim>\<open>async with asyncio.timeout(remaining): await queue.get()\<close>, whose
  timer fires at \<open>fires_at\<close>. A queue that holds a message is read at once. Otherwise the event loop sleeps
  until the next step of another task is due and runs it; if that is not before the timer, the timer
  fires first (\<open>None\<close>, the \<^verbatim>\<open>TimeoutError\<close>). The steps that have not run are returned.
\<close>

fun await_message :: "nat \<Rightarrow> int \<Rightarrow> 'x topic_world_scheme agenda \<Rightarrow> 'x topic_world_scheme \<Rightarrow>
    sg_message option \<times> 'x topic_world_scheme agenda \<times> 'x topic_world_scheme" where
  "await_message q fires_at [] w = (case queues w q of
      m # ms \<Rightarrow> (Some m, [], w\<lparr>queues := (queues w)(q := ms)\<rparr>)
    | [] \<Rightarrow> (None, [], w\<lparr>loop_time := max (loop_time w) fires_at\<rparr>))"
| "await_message q fires_at ((due, step) # agenda) w = (case queues w q of
      m # ms \<Rightarrow> (Some m, (due, step) # agenda, w\<lparr>queues := (queues w)(q := ms)\<rparr>)
    | [] \<Rightarrow>
        if max (loop_time w) due < fires_at
        then await_message q fires_at agenda (step (w\<lparr>loop_time := max (loop_time w) due\<rparr>))
        else (None, (due, step) # agenda, w\<lparr>loop_time := max (loop_time w) fires_at\<rparr>))"

lemma await_message_shrinks:
  "await_message q f agenda w = (Some m, rest, w') \<Longrightarrow>
    length rest < length agenda \<or> rest = agenda \<and> length (queues w' q) < length (queues w q)"
  by (induction q f agenda w rule: await_message.induct) (fastforce split: list.splits if_splits)+

text \<open>The loop of \<^verbatim>\<open>gather\<close>.\<close>

function gather_loop :: "nat \<Rightarrow> string \<Rightarrow> int \<Rightarrow> int \<Rightarrow> 'x topic_world_scheme agenda \<Rightarrow> sg_message list \<Rightarrow>
    'x topic_world_scheme \<Rightarrow> sg_message list \<times> 'x topic_world_scheme agenda \<times> 'x topic_world_scheme" where
  "gather_loop q cid expected deadline agenda collected w =
     (if int (length collected) < expected then
        let remaining = deadline - loop_time w in
        if remaining \<le> 0 then (collected, agenda, w)
        else case await_message q (loop_time w + remaining) agenda w of
            (None, rest, w') \<Rightarrow> (collected, rest, w')
          | (Some quote, rest, w') \<Rightarrow> gather_loop q cid expected deadline rest
              (if correlation_of quote \<noteq> cid then collected else collected @ [quote]) w'
      else (collected, agenda, w))"
  by pat_completeness auto
termination
  by (relation "measures [\<lambda>(q, cid, e, d, agenda, c, w). length agenda, \<lambda>(q, cid, e, d, agenda, c, w). length (queues w q)]")
     (auto dest!: await_message_shrinks [OF sym])

declare gather_loop.simps [simp del]

definition gather :: "nat \<Rightarrow> string \<Rightarrow> int \<Rightarrow> int \<Rightarrow> 'x topic_world_scheme agenda \<Rightarrow>
    ('x topic_world_scheme, sg_message list \<times> 'x topic_world_scheme agenda) io" where
  "gather q cid expected timeout agenda w =
     (let deadline = loop_time w + timeout;
          (collected, rest, w') = gather_loop q cid expected deadline agenda [] w in
      bnd (incr PATTERN_ID ''responses_gathered'' (int (length collected))) (\<lambda>_.
      bnd (if int (length collected) < expected then incr PATTERN_ID ''partial_gathers'' 1 else ret ()) (\<lambda>_.
      ret (collected, rest))) w')"

text \<open>With the quotes comes what is left of the agenda: the other tasks go on after the search.\<close>

definition scatter_gather :: "coordinator \<Rightarrow> search_request \<Rightarrow> distribution_strategy \<Rightarrow> int \<Rightarrow> int \<Rightarrow>
    string list option \<Rightarrow> 'x topic_world_scheme agenda \<Rightarrow>
    ('x topic_world_scheme, sg_message list \<times> 'x topic_world_scheme agenda) io" where
  "scatter_gather co request strategy expected timeout recipients agenda =
     bnd (subscribe (response_topic co)) (\<lambda>q.
     finally_do
       (bnd (scatter co request strategy recipients) (\<lambda>_.
        gather q (rq_correlation_id request) expected timeout agenda))
       (unsubscribe (response_topic co) q))"

text \<open>The tasks go on: the steps of an agenda run, each when it is due.\<close>

fun run_agenda :: "'x topic_world_scheme agenda \<Rightarrow> 'x topic_world_scheme \<Rightarrow> 'x topic_world_scheme" where
  "run_agenda [] w = w"
| "run_agenda ((due, step) # agenda) w = run_agenda agenda (step (w\<lparr>loop_time := max (loop_time w) due\<rparr>))"

subsection \<open>The airlines' tasks\<close>

text \<open>
  The tasks that run \<^verbatim>\<open>serve\<close> on a request sent at the instant \<open>now\<close>, as the event loop schedules their
  halves: each airline receives at once, in the order of the tasks, and one with a latency responds when its
  sleep is over. Sleeps that end at the same instant end in the order of the tasks. After the stop event a
  task that has not received anything ends without serving; one that sleeps still responds.
\<close>

datatype half_turn = Receive airline_service | Respond airline_service

fun half_step :: "half_turn \<Rightarrow> 'x topic_world_scheme \<Rightarrow> 'x topic_world_scheme" where
  "half_step (Receive a) w = (if stop_set w then w else snd (receive a 0 w))"
| "half_step (Respond a) w = snd (respond a 0 w)"

fun half_due :: "int \<Rightarrow> half_turn \<Rightarrow> int" where
  "half_due now (Receive a) = now"
| "half_due now (Respond a) = now + latency a"

definition half_turns :: "airline_service list \<Rightarrow> half_turn list" where
  "half_turns services = map Receive services @ map Respond (sort_key latency (filter (\<lambda>a. 0 < latency a) services))"

definition timed_halves :: "int \<Rightarrow> half_turn list \<Rightarrow> 'x topic_world_scheme agenda" where
  "timed_halves now hs = map (\<lambda>h. (half_due now h, half_step h)) hs"

definition airline_steps :: "int \<Rightarrow> airline_service list \<Rightarrow> 'x topic_world_scheme agenda" where
  "airline_steps now services = timed_halves now (half_turns services)"

subsection \<open>The sequential baseline\<close>

fun gather_quotes_sequentially :: "search_request \<Rightarrow> (search_request \<Rightarrow> ('w, flight_quote) io) list \<Rightarrow>
    flight_quote list \<Rightarrow> ('w, flight_quote list) io" where
  "gather_quotes_sequentially request [] quotes = ret quotes"
| "gather_quotes_sequentially request (lk # lookups) quotes =
     bnd (lk request) (\<lambda>quote. gather_quotes_sequentially request lookups (quotes @ [quote]))"

subsection \<open>Combining\<close>

lemma min_by_price_sorted: "min_by_price best qs = hd (sort_key price_cents (best # qs))"
proof (induction qs arbitrary: best)
  case Nil
  then show ?case by simp
next
  case (Cons q qs)
  show ?case
  proof (cases "price_cents q < price_cents best")
    case True
    then show ?thesis using Cons [of q]
      by (cases "sort_key price_cents qs") auto
  next
    case False
    then show ?thesis using Cons [of best]
      by (cases "sort_key price_cents qs") auto
  qed
qed

lemma cheapest_sorted: "cheapest qs = (case sort_by_price qs of [] \<Rightarrow> None | q # _ \<Rightarrow> Some q)"
proof (cases qs)
  case Nil
  then show ?thesis by (simp add: cheapest_def sort_by_price_def)
next
  case (Cons q qs')
  then have "sort_by_price qs \<noteq> []" by (metis length_0_conv length_sort list.distinct(1) sort_by_price_def)
  then show ?thesis using Cons min_by_price_sorted [of q qs']
    by (cases "sort_by_price qs") (simp_all add: cheapest_def sort_by_price_def)
qed


subsection \<open>Gathering\<close>

text \<open>\<open>steps_within \<delta> agenda\<close>: no step of another task keeps the event loop busy for longer than \<open>\<delta>\<close>.\<close>

definition steps_within :: "int \<Rightarrow> 'x topic_world_scheme agenda \<Rightarrow> bool" where
  "steps_within \<delta> agenda \<longleftrightarrow> (\<forall>(due, step) \<in> set agenda. \<forall>w. loop_time w \<le> loop_time (step w) \<and> loop_time (step w) \<le> loop_time w + \<delta>)"

lemma steps_within_Cons [simp]: "steps_within \<delta> ((due, step) # agenda) \<longleftrightarrow>
    (\<forall>w. loop_time w \<le> loop_time (step w) \<and> loop_time (step w) \<le> loop_time w + \<delta>) \<and> steps_within \<delta> agenda"
  by (auto simp: steps_within_def)

lemma steps_within_append [simp]: "steps_within \<delta> (a @ b) \<longleftrightarrow> steps_within \<delta> a \<and> steps_within \<delta> b"
  by (auto simp: steps_within_def)

lemma await_message_suffix: "await_message q f agenda w = (res, rest, w') \<Longrightarrow> \<exists>ran. agenda = ran @ rest"
proof (induction q f agenda w rule: await_message.induct)
  case (2 q f due step agenda w)
  have here: "\<exists>ran. (due, step) # agenda = ran @ rest" if "rest = (due, step) # agenda" using that by (intro exI [of _ "[]"]) simp
  show ?case
  proof (cases "queues w q = [] \<and> max (loop_time w) due < f")
    case True
    then obtain ran where "agenda = ran @ rest" using "2.IH" "2.prems" by auto
    then show ?thesis by (intro exI [of _ "(due, step) # ran"]) simp
  next
    case False
    then show ?thesis using "2.prems" by (intro here) (auto split: list.splits if_splits)
  qed
qed (auto split: list.splits)

lemma await_message_clock:
  assumes "await_message q f agenda w = (res, rest, w')" and "steps_within \<delta> agenda" and "0 \<le> \<delta>" and "loop_time w \<le> f + \<delta>"
  shows "loop_time w \<le> loop_time w' \<and> loop_time w' \<le> f + \<delta> \<and> (res = None \<longrightarrow> f \<le> loop_time w' \<and> queues w' q = [])"
  using assms
proof (induction q f agenda w rule: await_message.induct)
  case (2 q f due step agenda w)
  show ?case
  proof (cases "queues w q = [] \<and> max (loop_time w) due < f")
    case True
    let ?w = "w\<lparr>loop_time := max (loop_time w) due\<rparr>"
    have b: "loop_time ?w \<le> loop_time (step ?w)" "loop_time (step ?w) \<le> loop_time ?w + \<delta>"
      using "2.prems"(2) unfolding steps_within_Cons by blast+
    have "loop_time (step ?w) \<le> f + \<delta>" using b(2) True by (simp add: max_def split: if_splits)
    then have "loop_time (step ?w) \<le> loop_time w' \<and> loop_time w' \<le> f + \<delta> \<and> (res = None \<longrightarrow> f \<le> loop_time w' \<and> queues w' q = [])"
      using "2.IH" "2.prems" True by simp
    then show ?thesis using b(1) by simp
  next
    case False
    then show ?thesis using "2.prems" by (auto split: list.splits if_splits)
  qed
qed (auto split: list.splits)

text \<open>If no step takes a time of its own, the timer fires on time, before the next step that is due.\<close>

lemma await_message_punctual:
  assumes "await_message q f agenda w = (res, rest, w')" and "steps_within 0 agenda" and "loop_time w < f"
  shows "(res = None \<longrightarrow> loop_time w' = f \<and> (rest \<noteq> [] \<longrightarrow> f \<le> fst (hd rest))) \<and> (res \<noteq> None \<longrightarrow> loop_time w' < f)"
  using assms
proof (induction q f agenda w rule: await_message.induct)
  case (2 q f due step agenda w)
  show ?case
  proof (cases "queues w q = [] \<and> max (loop_time w) due < f")
    case True
    let ?w = "w\<lparr>loop_time := max (loop_time w) due\<rparr>"
    have "loop_time (step ?w) \<le> loop_time ?w + 0" using "2.prems"(2) unfolding steps_within_Cons by blast
    then have "loop_time (step ?w) < f" using True by (simp add: max_def split: if_splits)
    then show ?thesis using "2.IH" "2.prems" True by simp
  next
    case False
    then show ?thesis using "2.prems" by (auto split: list.splits if_splits)
  qed
qed (auto split: list.splits)

text \<open>One turn of the loop, as a rule.\<close>

lemma gather_loop_cases [consumes 1, case_names returned timed_out got]:
  assumes "gather_loop q cid expected d agenda c w = (c', rest, w')"
  obtains (returned) "c' = c" "rest = agenda" "w' = w" "expected \<le> int (length c) \<or> d \<le> loop_time w"
  | (timed_out) "int (length c) < expected" "loop_time w < d" "await_message q d agenda w = (None, rest, w')" "c' = c"
  | (got) m rest1 w1 where "int (length c) < expected" "loop_time w < d"
      "await_message q d agenda w = (Some m, rest1, w1)"
      "gather_loop q cid expected d rest1 (if correlation_of m \<noteq> cid then c else c @ [m]) w1 = (c', rest, w')"
  using assms
  by (subst (asm) gather_loop.simps) (auto simp: Let_def split: if_splits option.splits prod.splits)

lemma gather_loop_induct [case_names turn]:
  assumes "\<And>q cid expected d agenda c w. (\<And>m rest1 w1. int (length c) < expected \<Longrightarrow> loop_time w < d \<Longrightarrow>
      await_message q d agenda w = (Some m, rest1, w1) \<Longrightarrow>
      P q cid expected d rest1 (if correlation_of m \<noteq> cid then c else c @ [m]) w1) \<Longrightarrow> P q cid expected d agenda c w"
  shows "P q cid expected d agenda c w"
  by (induction rule: gather_loop.induct) (rule assms, simp)

lemma gather_loop_late: "d \<le> loop_time w \<Longrightarrow> gather_loop q cid expected d agenda c w = (c, agenda, w)"
  by (simp add: gather_loop.simps)

lemma gather_loop_collects:
  assumes "gather_loop q cid expected d agenda c w = (c', rest, w')"
  shows "(\<exists>taken. c' = c @ filter (\<lambda>m. correlation_of m = cid) taken) \<and>
    (int (length c) \<le> expected \<longrightarrow> int (length c') \<le> expected) \<and> (\<exists>ran. agenda = ran @ rest)"
  using assms
proof (induction q cid expected d agenda c w arbitrary: c' rest w' rule: gather_loop_induct)
  case (turn q cid expected d agenda c w)
  from turn.prems show ?case
  proof (cases rule: gather_loop_cases)
    case returned
    then show ?thesis by (auto intro: exI [of _ "[]"])
  next
    case timed_out
    then show ?thesis using await_message_suffix [OF timed_out(3)] by (auto intro: exI [of _ "[]"])
  next
    case (got m rest1 w1)
    let ?c = "if correlation_of m \<noteq> cid then c else c @ [m]"
    have "(\<exists>taken. c' = ?c @ filter (\<lambda>m. correlation_of m = cid) taken) \<and>
        (int (length ?c) \<le> expected \<longrightarrow> int (length c') \<le> expected) \<and> (\<exists>ran. rest1 = ran @ rest)"
      by (rule turn.IH [OF got(1-4)])
    then obtain taken ran where t: "c' = ?c @ filter (\<lambda>m. correlation_of m = cid) taken"
      "int (length ?c) \<le> expected \<longrightarrow> int (length c') \<le> expected" "rest1 = ran @ rest" by blast
    obtain ran1 where "agenda = ran1 @ rest1" using await_message_suffix [OF got(3)] by blast
    moreover have "\<exists>taken. c' = c @ filter (\<lambda>m. correlation_of m = cid) taken"
      using t(1) by (intro exI [of _ "m # taken"]) simp
    ultimately show ?thesis using t(2,3) got(1) by auto
  qed
qed

lemma gather_loop_clock:
  assumes "gather_loop q cid expected d agenda c w = (c', rest, w')" and "steps_within \<delta> agenda" and "0 \<le> \<delta>"
    and "loop_time w \<le> d + \<delta>"
  shows "loop_time w \<le> loop_time w' \<and> loop_time w' \<le> d + \<delta> \<and> (int (length c') < expected \<longrightarrow> d \<le> loop_time w')"
  using assms
proof (induction q cid expected d agenda c w arbitrary: c' rest w' rule: gather_loop_induct)
  case (turn q cid expected d agenda c w)
  from turn.prems(1) show ?case
  proof (cases rule: gather_loop_cases)
    case returned
    then show ?thesis using turn.prems by auto
  next
    case timed_out
    then show ?thesis using await_message_clock [OF timed_out(3) turn.prems(2-4)] by simp
  next
    case (got m rest1 w1)
    have t: "loop_time w \<le> loop_time w1" "loop_time w1 \<le> d + \<delta>"
      using await_message_clock [OF got(3) turn.prems(2-4)] by auto
    have "steps_within \<delta> rest1" using await_message_suffix [OF got(3)] turn.prems(2) by auto
    then have "loop_time w1 \<le> loop_time w' \<and> loop_time w' \<le> d + \<delta> \<and> (int (length c') < expected \<longrightarrow> d \<le> loop_time w')"
      using t(2) turn.prems(3) got
      by (intro turn.IH [OF got(1-4)])
    then show ?thesis using t(1) by simp
  qed
qed

lemma gather_loop_punctual:
  assumes "gather_loop q cid expected d agenda c w = (c', rest, w')" and "steps_within 0 agenda"
    and "loop_time w < d" and "int (length c') < expected"
  shows "loop_time w' = d \<and> queues w' q = [] \<and> (rest \<noteq> [] \<longrightarrow> d \<le> fst (hd rest))"
  using assms
proof (induction q cid expected d agenda c w arbitrary: c' rest w' rule: gather_loop_induct)
  case (turn q cid expected d agenda c w)
  from turn.prems(1) show ?case
  proof (cases rule: gather_loop_cases)
    case returned
    then show ?thesis using turn.prems by auto
  next
    case timed_out
    then show ?thesis using await_message_punctual [OF timed_out(3) turn.prems(2,3)]
        await_message_clock [OF timed_out(3) turn.prems(2)] turn.prems(3) by simp
  next
    case (got m rest1 w1)
    have "steps_within 0 rest1" using await_message_suffix [OF got(3)] turn.prems(2) by auto
    moreover have "loop_time w1 < d" using await_message_punctual [OF got(3) turn.prems(2,3)] by simp
    ultimately show ?thesis using turn.prems(4) got
      by (intro turn.IH [OF got(1-4)])
  qed
qed

lemma gather_result:
  assumes "gather_loop q cid expected (loop_time w + timeout) agenda [] w = (c, rest, w1)"
  obtains w' where "gather q cid expected timeout agenda w = (Inr (c, rest), w')" and "loop_time w' = loop_time w1"
    and "subs w' = subs w1" and "queues w' = queues w1" and "in_hand w' = in_hand w1" and "stop_set w' = stop_set w1"
    and "counter (reg w') PATTERN_ID ''responses_gathered'' =
      counter (reg w1) PATTERN_ID ''responses_gathered'' + int (length c)"
    and "counter (reg w') PATTERN_ID ''partial_gathers'' =
      counter (reg w1) PATTERN_ID ''partial_gathers'' + (if int (length c) < expected then 1 else 0)"
  using assms that
  by (cases "int (length c) < expected") (simp_all add: gather_def bnd_def incr_def counter_increment)

subsection \<open>Publishing\<close>

lemma enqueue_all:
  assumes "distinct qs"
  shows "for_each (\<lambda>q _. modify (enqueue m q)) qs () w =
    (Inr (), w\<lparr>queues := \<lambda>x. queues w x @ (if x \<in> set qs then [m] else [])\<rparr>)"
  using assms
proof (induction qs arbitrary: w)
  case Nil
  then show ?case by simp
next
  case (Cons q qs)
  have "(\<lambda>x. queues (enqueue m q w) x @ (if x \<in> set qs then [m] else [])) =
      (\<lambda>x. queues w x @ (if x \<in> set (q # qs) then [m] else []))"
    using Cons.prems by (auto simp: enqueue_def fun_eq_iff)
  then show ?case using Cons.IH [of "enqueue m q w"] Cons.prems
    by (simp only: for_each.simps bnd_modify distinct.simps) (simp add: enqueue_def)
qed

lemma sg_publish_run:
  assumes "distinct (subscribers topic w)"
  obtains w' where "sg_publish topic m w = (Inr (int (length (subscribers topic w))), w')" and "subs w' = subs w"
    and "next_queue w' = next_queue w" and "loop_time w' = loop_time w" and "in_hand w' = in_hand w"
    and "stop_set w' = stop_set w"
    and "queues w' = (\<lambda>x. queues w x @ (if x \<in> set (subscribers topic w) then [m] else []))"
    and "counter (reg w') PATTERN_ID ''responses_published'' = counter (reg w) PATTERN_ID ''responses_published''"
  using that by (simp add: sg_publish_def Let_def bnd_def incr_def counter_increment enqueue_all [OF assms])

end
