(* ===== verification/Scatter_Search.thy ===== *)
theory Scatter_Search
  imports Scatter_Gather
begin

section \<open>A whole search\<close>

text \<open>
  The coordinator and the airlines together: a request is scattered, the airlines' tasks answer it
  while the coordinator waits, each after its latency, and the coordinator gathers until its deadline. Also what holds of \<open>scatter_gather\<close> whatever the
  environment does: its subscription is gone afterwards.
\<close>

lemma subscribers_update [simp]:
  "subscribers t (w\<lparr>subs := AList.update t' qs (subs w)\<rparr>) = (if t = t' then qs else subscribers t w)"
  by (simp add: subscribers_def dict_get_def)

lemma subscribers_cong: "subs w' = subs w \<Longrightarrow> subscribers t w' = subscribers t w"
  by (simp add: subscribers_def)

subsection \<open>Subscriptions\<close>

lemma subscribe_run:
  obtains w' where "subscribe topic w = (Inr (next_queue w), w')" and "next_queue w' = next_queue w + 1"
    and "queues w' = (queues w)(next_queue w := [])" and "loop_time w' = loop_time w"
    and "stop_set w' = stop_set w"
    and "\<forall>t. subscribers t w' = (if t = topic then subscribers topic w @ [next_queue w] else subscribers t w)"
  by (simp add: subscribe_def Let_def subscribers_def dict_get_def)

lemma unsubscribe_subscribers:
  "subscribers t (unsubscribe topic q w) = (if t = topic then remove1 q (subscribers topic w) else subscribers t w)"
  by (auto simp: unsubscribe_def subscribers_def dict_get_def split: option.splits)

lemma scatter_gather_unsubscribes:
  assumes "scatter_gather co r strategy expected timeout recipients envs w = (res, w')"
    and "\<And>res w1. bnd (scatter co r strategy recipients) (\<lambda>_. gather (next_queue w) (rq_correlation_id r) expected
      timeout envs) (snd (subscribe (response_topic co) w)) = (res, w1) \<Longrightarrow> distinct (subscribers (response_topic co) w1)"
  shows "next_queue w \<notin> set (subscribers (response_topic co) w')"
proof -
  obtain ws where ws: "subscribe (response_topic co) w = (Inr (next_queue w), ws)" by (rule subscribe_run [where topic = "response_topic co" and w = w])
  obtain res1 w1 where body: "bnd (scatter co r strategy recipients) (\<lambda>_. gather (next_queue w) (rq_correlation_id r)
      expected timeout envs) ws = (res1, w1)" by fastforce
  have "w' = unsubscribe (response_topic co) (next_queue w) w1"
    using assms(1) body by (simp add: scatter_gather_def bnd_def [of "subscribe _"] ws finally_do_def)
  moreover have "distinct (subscribers (response_topic co) w1)" using assms(2) [of res1 w1] body by (simp add: ws)
  ultimately show ?thesis by (simp add: unsubscribe_subscribers)
qed

subsection \<open>The airlines' turns\<close>

definition answers :: "airline_service \<Rightarrow> search_request \<Rightarrow> sg_message list" where
  "answers a r = (case lookup a r of Inl _ \<Rightarrow> [] | Inr quote \<Rightarrow> [Quote quote])"

lemma answer_run:
  assumes "distinct (subscribers (service_response_topic a) w)"
  obtains n' w' where "answer a r n w = (Inr n', w')" and "subs w' = subs w" and "loop_time w' = loop_time w"
    and "in_hand w' = in_hand w" and "stop_set w' = stop_set w"
    and "queues w' = (\<lambda>x. queues w x @ (if x \<in> set (subscribers (service_response_topic a) w) then answers a r else []))"
    and "counter (reg w') PATTERN_ID ''responses_published'' =
      counter (reg w) PATTERN_ID ''responses_published'' + int (length (answers a r))"
proof (cases "lookup a r")
  case (Inl e)
  then have "answers a r = []" by (simp add: answers_def)
  then show ?thesis using that Inl by (simp add: answer_def bnd_def incr_def counter_increment cong: if_cong)
next
  case (Inr quote)
  obtain w1 where w1: "sg_publish (service_response_topic a) (Quote quote) w =
      (Inr (int (length (subscribers (service_response_topic a) w))), w1)" "subs w1 = subs w"
    "loop_time w1 = loop_time w" "in_hand w1 = in_hand w" "stop_set w1 = stop_set w"
    "queues w1 = (\<lambda>x. queues w x @ (if x \<in> set (subscribers (service_response_topic a) w) then [Quote quote] else []))"
    "counter (reg w1) PATTERN_ID ''responses_published'' = counter (reg w) PATTERN_ID ''responses_published''"
    by (rule sg_publish_run [OF assms])
  moreover have "answers a r = [Quote quote]" using Inr by (simp add: answers_def)
  ultimately show ?thesis using that Inr
    by (simp add: answer_def bnd_def incr_def counter_increment cong: if_cong)
qed

text \<open>The airline of a half turn, and what it publishes when the request in its queue or in its hand is \<open>r\<close>.\<close>

fun airline_of :: "half_turn \<Rightarrow> airline_service" where
  "airline_of (Receive a) = a"
| "airline_of (Respond a) = a"

fun half_answers :: "search_request \<Rightarrow> half_turn \<Rightarrow> sg_message list" where
  "half_answers r (Receive a) = (if 0 < latency a then [] else answers a r)"
| "half_answers r (Respond a) = answers a r"

text \<open>
  Airlines \<open>rs\<close> are still to receive the request \<open>r\<close>, which is in their queues, and then airlines \<open>ss\<close> to respond,
  for whom it is in hand if they are not to receive it first; \<open>rt\<close> is the response topic.
\<close>

definition to_come :: "string \<Rightarrow> search_request \<Rightarrow> airline_service list \<Rightarrow> airline_service list \<Rightarrow>
    'x topic_world_scheme \<Rightarrow> bool" where
  "to_come rt r rs ss w \<longleftrightarrow> distinct (subscribers rt w) \<and> distinct rs \<and> distinct ss \<and> inj_on service_queue (set rs \<union> set ss) \<and>
     (\<forall>a \<in> set rs \<union> set ss. service_response_topic a = rt \<and> service_queue a \<notin> set (subscribers rt w)) \<and>
     (\<forall>a \<in> set rs. \<not> stop_set w \<and> queues w (service_queue a) = [Request r]) \<and>
     (\<forall>a \<in> set ss. 0 < latency a \<and> (a \<in> set rs \<or> in_hand w (service_queue a) = Some r))"

definition halves :: "airline_service list \<Rightarrow> airline_service list \<Rightarrow> half_turn list" where
  "halves rs ss = map Receive rs @ map Respond ss"

lemma halves_simps [simp]: "halves [] [] = []" "halves (a # rs) ss = Receive a # halves rs ss"
  "halves [] (a # ss) = Respond a # halves [] ss"
  by (simp_all add: halves_def)

lemma halves_Cons:
  "halves rs ss = h # hs \<Longrightarrow> (\<exists>a rs'. h = Receive a \<and> rs = a # rs' \<and> hs = halves rs' ss) \<or>
    (\<exists>a ss'. h = Respond a \<and> rs = [] \<and> ss = a # ss' \<and> hs = halves [] ss')"
  by (cases rs; cases ss) auto

lemma subscribers_simps [simp]: "subscribers t (w\<lparr>loop_time := x\<rparr>) = subscribers t w"
  "subscribers t (w\<lparr>queues := f\<rparr>) = subscribers t w" "subscribers t (w\<lparr>in_hand := g\<rparr>) = subscribers t w"
  "subscribers t (w\<lparr>stop_set := b\<rparr>) = subscribers t w"
  by (simp_all add: subscribers_def)

lemma to_come_wait [simp]: "to_come rt r rs ss (w\<lparr>loop_time := t\<rparr>) = to_come rt r rs ss w"
  by (simp add: to_come_def)

lemma to_come_take:
  "to_come rt r rs ss w \<Longrightarrow> q \<in> set (subscribers rt w) \<Longrightarrow> to_come rt r rs ss (w\<lparr>queues := (queues w)(q := ms)\<rparr>)"
  unfolding to_come_def by auto

text \<open>
  What a half turn does to the world: nothing to subscriptions and clock, and its answers to the queues on the
  response topic.
\<close>

definition half_done :: "string \<Rightarrow> airline_service \<Rightarrow> sg_message list \<Rightarrow> 'x topic_world_scheme \<Rightarrow> 'x topic_world_scheme \<Rightarrow> bool" where
  "half_done rt a ms w w' \<longleftrightarrow> subs w' = subs w \<and> loop_time w' = loop_time w \<and> stop_set w' = stop_set w \<and>
     (\<forall>x. x \<noteq> service_queue a \<longrightarrow> in_hand w' x = in_hand w x \<and>
        queues w' x = queues w x @ (if x \<in> set (subscribers rt w) then ms else [])) \<and>
     counter (reg w') PATTERN_ID ''responses_published'' =
       counter (reg w) PATTERN_ID ''responses_published'' + int (length ms)"

lemma respond_run:
  assumes "in_hand w (service_queue a) = Some r" and "service_response_topic a = rt" and "distinct (subscribers rt w)"
  shows "half_done rt a (answers a r) w (snd (respond a n w))"
proof -
  let ?w = "w\<lparr>in_hand := (in_hand w)(service_queue a := None)\<rparr>"
  obtain n' w' where w': "answer a r n ?w = (Inr n', w')" "subs w' = subs ?w" "loop_time w' = loop_time ?w"
    "in_hand w' = in_hand ?w" "stop_set w' = stop_set ?w"
    "queues w' = (\<lambda>x. queues ?w x @ (if x \<in> set (subscribers (service_response_topic a) ?w) then answers a r else []))"
    "counter (reg w') PATTERN_ID ''responses_published'' =
      counter (reg ?w) PATTERN_ID ''responses_published'' + int (length (answers a r))"
    by (rule answer_run [of a ?w r n]) (simp_all add: assms)
  then show ?thesis using assms by (simp add: half_done_def respond_def)
qed

lemma receive_run:
  assumes "queues w (service_queue a) = [Request r]" and "service_response_topic a = rt" and "distinct (subscribers rt w)"
  shows "half_done rt a (half_answers r (Receive a)) w (snd (receive a n w)) \<and>
    (0 < latency a \<longrightarrow> in_hand (snd (receive a n w)) (service_queue a) = Some r)"
proof -
  let ?w = "w\<lparr>queues := (queues w)(service_queue a := []), in_hand := (in_hand w)(service_queue a \<mapsto> r)\<rparr>"
  have run: "receive a n w = (if 0 < latency a then ret n else respond a n) ?w"
    by (simp add: receive_def take_message_def bnd_def [of "take_message _"] assms(1))
  show ?thesis
  proof (cases "0 < latency a")
    case True
    then show ?thesis using run by (simp add: half_done_def)
  next
    case False
    have "half_done rt a (answers a r) ?w (snd (respond a n ?w))" by (rule respond_run) (simp_all add: assms)
    then show ?thesis using run False by (simp add: half_done_def)
  qed
qed

lemma Receive_run:
  assumes tc: "to_come rt r (a # rs) ss w"
  shows "half_done rt a (half_answers r (Receive a)) w (half_step (Receive a) w) \<and> to_come rt r rs ss (half_step (Receive a) w)"
proof -
  let ?w = "half_step (Receive a) w"
  have d: "half_done rt a (half_answers r (Receive a)) w ?w" and h: "0 < latency a \<longrightarrow> in_hand ?w (service_queue a) = Some r"
    using receive_run [of w a r rt 0] tc by (auto simp: to_come_def)
  have s: "subscribers rt ?w = subscribers rt w" by (rule subscribers_cong) (use d in \<open>simp add: half_done_def\<close>)
  have apart: "service_queue b \<noteq> service_queue a" if "b \<in> set rs \<union> set ss" "b \<noteq> a" for b
    using tc that by (auto simp: to_come_def inj_on_def)
  have "\<not> stop_set ?w \<and> queues ?w (service_queue b) = [Request r]" if b: "b \<in> set rs" for b
  proof -
    have "b \<noteq> a" "service_queue b \<notin> set (subscribers rt w)" "\<not> stop_set w" "queues w (service_queue b) = [Request r]"
      using b tc by (auto simp: to_come_def)
    then show ?thesis using d apart [of b] b by (simp add: half_done_def)
  qed
  moreover have "0 < latency b \<and> (b \<in> set rs \<or> in_hand ?w (service_queue b) = Some r)" if b: "b \<in> set ss" for b
    using b tc d h apart [of b] by (cases "b = a") (auto simp: to_come_def half_done_def)
  moreover have "distinct (subscribers rt ?w) \<and> distinct rs \<and> distinct ss \<and> inj_on service_queue (set rs \<union> set ss) \<and>
      (\<forall>b \<in> set rs \<union> set ss. service_response_topic b = rt \<and> service_queue b \<notin> set (subscribers rt ?w))"
    using tc unfolding s by (auto simp: to_come_def intro: inj_on_subset)
  ultimately show ?thesis using d unfolding to_come_def by blast
qed

lemma Respond_run:
  assumes tc: "to_come rt r [] (a # ss) w"
  shows "half_done rt a (half_answers r (Respond a)) w (half_step (Respond a) w) \<and> to_come rt r [] ss (half_step (Respond a) w)"
proof -
  let ?w = "half_step (Respond a) w"
  have d: "half_done rt a (half_answers r (Respond a)) w ?w"
    using respond_run [of w a r rt 0] tc by (auto simp: to_come_def)
  have s: "subscribers rt ?w = subscribers rt w" by (rule subscribers_cong) (use d in \<open>simp add: half_done_def\<close>)
  have apart: "service_queue b \<noteq> service_queue a" if "b \<in> set ss" for b
    using tc that by (auto simp: to_come_def inj_on_def)
  have "0 < latency b \<and> in_hand ?w (service_queue b) = Some r" if b: "b \<in> set ss" for b
    using b tc d apart [of b] by (auto simp: to_come_def half_done_def)
  moreover have "distinct (subscribers rt ?w) \<and> distinct ss \<and> inj_on service_queue (set ss) \<and>
      (\<forall>b \<in> set ss. service_response_topic b = rt \<and> service_queue b \<notin> set (subscribers rt ?w))"
    using tc unfolding s by (auto simp: to_come_def intro: inj_on_subset)
  ultimately show ?thesis using d unfolding to_come_def by auto
qed

lemma half_step_run:
  assumes "to_come rt r rs ss w" and "halves rs ss = h # hs"
  shows "half_done rt (airline_of h) (half_answers r h) w (half_step h w) \<and>
    (\<exists>rs' ss'. hs = halves rs' ss' \<and> set rs' \<subseteq> set rs \<and> set ss' \<subseteq> set ss \<and> to_come rt r rs' ss' (half_step h w)) \<and>
    airline_of h \<in> set rs \<union> set ss"
  using halves_Cons [OF assms(2)]
proof (elim disjE exE conjE)
  fix a rs' assume "h = Receive a" "rs = a # rs'" "hs = halves rs' ss"
  note h = this
  have "\<exists>rs' ss'. hs = halves rs' ss' \<and> set rs' \<subseteq> set rs \<and> set ss' \<subseteq> set ss \<and> to_come rt r rs' ss' (half_step h w)"
    using Receive_run [of rt r a rs' ss w] assms(1) h by (intro exI [of _ rs'] exI [of _ ss]) auto
  then show ?thesis using Receive_run [of rt r a rs' ss w] assms(1) h by auto
next
  fix a ss' assume h: "h = Respond a" "rs = []" "ss = a # ss'" "hs = halves [] ss'"
  have "\<exists>rs' ss'. hs = halves rs' ss' \<and> set rs' \<subseteq> set rs \<and> set ss' \<subseteq> set ss \<and> to_come rt r rs' ss' (half_step h w)"
    using Respond_run [of rt r a ss' w] assms(1) h by (intro exI [of _ "[]"] exI [of _ ss']) auto
  then show ?thesis using Respond_run [of rt r a ss' w] assms(1) h by auto
qed

subsection \<open>Waiting for the airlines\<close>

text \<open>
  The half turns \<open>hs\<close> of a search have run, and \<open>halves rs ss\<close> are left: from \<open>w\<close> to \<open>w'\<close> the queue \<open>q\<close> of the
  search has got their answers, of which \<open>taken\<close> have been read.
\<close>

lemma await_airlines:
  assumes "await_message q d (timed_halves now (halves rs ss)) w = (res, rest, w')" and "to_come rt r rs ss w"
    and "q \<in> set (subscribers rt w)" and "loop_time w < d"
  shows "\<exists>hs rs' ss'. halves rs ss = hs @ halves rs' ss' \<and> rest = timed_halves now (halves rs' ss') \<and>
    to_come rt r rs' ss' w' \<and> subs w' = subs w \<and> (\<forall>h \<in> set hs. half_due now h < d) \<and>
    (case res of
       None \<Rightarrow> queues w q @ concat (map (half_answers r) hs) = [] \<and> loop_time w' = d \<and>
         (halves rs' ss' \<noteq> [] \<longrightarrow> d \<le> half_due now (hd (halves rs' ss')))
     | Some m \<Rightarrow> queues w q @ concat (map (half_answers r) hs) = m # queues w' q \<and> loop_time w' < d)"
  using assms
proof (induction "halves rs ss" arbitrary: rs ss w)
  case Nil
  then have "rs = []" "ss = []" by (simp_all add: halves_def)
  then show ?case using Nil.prems
    by (intro exI [of _ "[]"]) (auto simp: timed_halves_def to_come_take split: list.splits)
next
  case (Cons h hs0)
  note hd = Cons.hyps(2)
  have ag: "timed_halves now (halves rs ss) = (half_due now h, half_step h) # timed_halves now hs0"
    by (simp add: timed_halves_def flip: hd)
  let ?w = "w\<lparr>loop_time := max (loop_time w) (half_due now h)\<rparr>"
  show ?case
  proof (cases "queues w q = [] \<and> max (loop_time w) (half_due now h) < d")
    case False
    have "rest = timed_halves now (halves rs ss)" and "to_come rt r rs ss w'" and "subs w' = subs w"
      and "case res of None \<Rightarrow> queues w q = [] \<and> loop_time w' = d \<and> d \<le> half_due now h
        | Some m \<Rightarrow> queues w q = m # queues w' q \<and> loop_time w' < d"
      using Cons.prems False unfolding ag by (auto simp: to_come_take split: list.splits if_splits)
    then show ?thesis
      by (intro exI [of _ "[]"] exI [of _ rs] exI [of _ ss]) (auto simp: hd [symmetric] split: option.splits)
  next
    case True
    have tc: "to_come rt r rs ss ?w" using Cons.prems(2) by simp
    obtain rs1 ss1 where st: "half_done rt (airline_of h) (half_answers r h) ?w (half_step h ?w)" "hs0 = halves rs1 ss1"
      "to_come rt r rs1 ss1 (half_step h ?w)" "airline_of h \<in> set rs \<union> set ss"
      using half_step_run [OF tc hd [symmetric]] by blast
    have "q \<noteq> service_queue (airline_of h)" using st(4) Cons.prems(2,3) by (auto simp: to_come_def)
    then have q: "queues (half_step h ?w) q = half_answers r h" "subs (half_step h ?w) = subs w"
      "loop_time (half_step h ?w) < d"
      using st(1) True Cons.prems(3) by (simp_all add: half_done_def)
    have "q \<in> set (subscribers rt (half_step h ?w))" using Cons.prems(3) subscribers_cong [OF q(2)] by simp
    then obtain hs rs' ss' where ih: "hs0 = hs @ halves rs' ss'" "rest = timed_halves now (halves rs' ss')"
      "to_come rt r rs' ss' w'" "subs w' = subs (half_step h ?w)" "\<forall>h \<in> set hs. half_due now h < d"
      "case res of
         None \<Rightarrow> queues (half_step h ?w) q @ concat (map (half_answers r) hs) = [] \<and> loop_time w' = d \<and>
           (halves rs' ss' \<noteq> [] \<longrightarrow> d \<le> half_due now (hd (halves rs' ss')))
       | Some m \<Rightarrow> queues (half_step h ?w) q @ concat (map (half_answers r) hs) = m # queues w' q \<and> loop_time w' < d"
      using Cons.hyps(1) [OF st(2)] Cons.prems(1) True st(3) q(3) unfolding ag st(2) by simp blast
    have "halves rs ss = (h # hs) @ halves rs' ss'" using ih(1) hd by simp
    moreover have "\<forall>h \<in> set (h # hs). half_due now h < d" using ih(5) True by simp
    moreover have "case res of
        None \<Rightarrow> queues w q @ concat (map (half_answers r) (h # hs)) = [] \<and> loop_time w' = d \<and>
          (halves rs' ss' \<noteq> [] \<longrightarrow> d \<le> half_due now (hd (halves rs' ss')))
      | Some m \<Rightarrow> queues w q @ concat (map (half_answers r) (h # hs)) = m # queues w' q \<and> loop_time w' < d"
      using ih(6) q(1) True by (simp split: option.splits)
    moreover have "subs w' = subs w" using ih(4) q(2) by simp
    ultimately show ?thesis using ih(2,3) by blast
  qed
qed

text \<open>The whole gather: it has read the answers of the half turns that have run, up to the expected number.\<close>

lemma gather_airlines:
  fixes w w' :: "'x topic_world_scheme"
  assumes "gather_loop q cid expected d (timed_halves now (halves rs ss)) c w = (c', rest, w')" and "to_come rt r rs ss w"
    and "q \<in> set (subscribers rt w)" and "loop_time w < d"
  shows "\<exists>hs rs' ss'. halves rs ss = hs @ halves rs' ss' \<and> rest = timed_halves now (halves rs' ss') \<and>
    to_come rt r rs' ss' w' \<and> subs w' = subs w \<and> (\<forall>h \<in> set hs. half_due now h < d) \<and>
    c' = c @ take (nat (expected - int (length c)))
      (filter (\<lambda>m. correlation_of m = cid) (queues w q @ concat (map (half_answers r) hs))) \<and>
    (if int (length c') < expected
     then loop_time w' = d \<and> (halves rs' ss' \<noteq> [] \<longrightarrow> d \<le> half_due now (hd (halves rs' ss')))
     else loop_time w' < d)"
  using assms
proof (induction q cid expected d "timed_halves now (halves rs ss) :: 'x topic_world_scheme agenda" c w
    arbitrary: rs ss c' rest w' rule: gather_loop_induct)
  case (turn q cid expected d c w)
  from turn.prems(1) show ?case
  proof (cases rule: gather_loop_cases)
    case returned
    then have "expected \<le> int (length c)" using turn.prems(4) by simp
    then show ?thesis using returned turn.prems
      by - (rule exI [of _ "[] :: half_turn list"], rule exI [of _ rs], rule exI [of _ ss], auto)
  next
    case timed_out
    obtain hs rs' ss' where "halves rs ss = hs @ halves rs' ss'" "rest = timed_halves now (halves rs' ss')"
      "to_come rt r rs' ss' w'" "subs w' = subs w" "\<forall>h \<in> set hs. half_due now h < d"
      and none: "queues w q @ concat (map (half_answers r) hs) = []" "loop_time w' = d"
      "halves rs' ss' \<noteq> [] \<longrightarrow> d \<le> half_due now (hd (halves rs' ss'))"
      using await_airlines [OF timed_out(3) turn.prems(2-4)] by auto
    moreover have "c' = c @ take (nat (expected - int (length c)))
        (filter (\<lambda>m. correlation_of m = cid) (queues w q @ concat (map (half_answers r) hs)))"
      unfolding none(1) using timed_out(4) by simp
    ultimately show ?thesis using timed_out(1,4) by (intro exI conjI) (assumption | simp)+
  next
    case (got m rest1 w1)
    obtain hs1 rs1 ss1 where 1: "halves rs ss = hs1 @ halves rs1 ss1" "rest1 = timed_halves now (halves rs1 ss1)"
      "to_come rt r rs1 ss1 w1" "subs w1 = subs w" "\<forall>h \<in> set hs1. half_due now h < d"
      "queues w q @ concat (map (half_answers r) hs1) = m # queues w1 q" "loop_time w1 < d"
      using await_airlines [OF got(3) turn.prems(2-4)] by auto
    let ?c = "if correlation_of m \<noteq> cid then c else c @ [m]"
    have q: "q \<in> set (subscribers rt w1)" using turn.prems(3) subscribers_cong [OF 1(4)] by simp
    obtain hs rs' ss' where 2: "halves rs1 ss1 = hs @ halves rs' ss'" "rest = timed_halves now (halves rs' ss')"
      "to_come rt r rs' ss' w'" "subs w' = subs w1" "\<forall>h \<in> set hs. half_due now h < d"
      "c' = ?c @ take (nat (expected - int (length ?c)))
        (filter (\<lambda>m. correlation_of m = cid) (queues w1 q @ concat (map (half_answers r) hs)))"
      "if int (length c') < expected
       then loop_time w' = d \<and> (halves rs' ss' \<noteq> [] \<longrightarrow> d \<le> half_due now (hd (halves rs' ss')))
       else loop_time w' < d"
      using turn.hyps [OF got(1,2) got(3) [unfolded 1(2)] got(4) [unfolded 1(2)] 1(3) q 1(7)] by blast
    have msgs: "queues w q @ concat (map (half_answers r) (hs1 @ hs)) = m # queues w1 q @ concat (map (half_answers r) hs)"
      using 1(6) by (simp flip: append_assoc)
    obtain k where k: "nat (expected - int (length c)) = Suc k"
      using got(1) by (metis diff_gt_0_iff_gt zero_less_nat_eq Suc_pred)
    then have "nat (expected - int (length (c @ [m]))) = k" by simp
    then have "c' = c @ take (nat (expected - int (length c)))
        (filter (\<lambda>m. correlation_of m = cid) (queues w q @ concat (map (half_answers r) (hs1 @ hs))))"
      unfolding msgs 2(6) k by (simp add: k)
    moreover have "halves rs ss = (hs1 @ hs) @ halves rs' ss'" using 1(1) 2(1) by simp
    moreover have "\<forall>h \<in> set (hs1 @ hs). half_due now h < d" using 1(5) 2(5) by auto
    moreover have "subs w' = subs w" using 1(4) 2(4) by simp
    ultimately show ?thesis using 2(2,3,7) by blast
  qed
qed


text \<open>From an empty queue, with the half turns in the order of time: what is due before the deadline, and no more.\<close>

lemma sorted_split:
  assumes "sorted (map f (hs @ ks))" and "\<forall>h \<in> set hs. f h < (d :: int)" and "ks \<noteq> [] \<longrightarrow> d \<le> f (hd ks)"
  shows "filter (\<lambda>h. f h < d) (hs @ ks) = hs" and "filter (\<lambda>h. d \<le> f h) (hs @ ks) = ks"
proof -
  have "\<forall>k \<in> set ks. d \<le> f k" using assms(1,3) by (cases ks) (auto simp: sorted_append)
  then show "filter (\<lambda>h. f h < d) (hs @ ks) = hs" "filter (\<lambda>h. d \<le> f h) (hs @ ks) = ks"
    using assms(2) by (auto simp: filter_id_conv filter_empty_conv)
qed

lemma gather_in_time:
  fixes w w' :: "'x topic_world_scheme"
  assumes g: "gather_loop q cid expected d (timed_halves now (halves rs ss)) [] w = (c', rest, w')"
    and tc: "to_come rt r rs ss w" and q: "q \<in> set (subscribers rt w)" "queues w q = []" and t: "loop_time w < d"
    and so: "sorted (map (half_due now) (halves rs ss))"
  shows "c' = take (nat expected) (filter (\<lambda>m. correlation_of m = cid)
      (concat (map (half_answers r) (filter (\<lambda>h. half_due now h < d) (halves rs ss)))))"
    and "\<exists>rs' ss'. rest = timed_halves now (halves rs' ss') \<and> set (halves rs' ss') \<subseteq> set (halves rs ss) \<and> to_come rt r rs' ss' w' \<and>
      (if int (length c') < expected
       then loop_time w' = d \<and> halves rs' ss' = filter (\<lambda>h. d \<le> half_due now h) (halves rs ss) else loop_time w' < d)"
    and "subs w' = subs w"
proof -
  obtain hs rs' ss' where r: "halves rs ss = hs @ halves rs' ss'" "rest = timed_halves now (halves rs' ss')"
    "to_come rt r rs' ss' w'" "subs w' = subs w" "\<forall>h \<in> set hs. half_due now h < d"
    "c' = take (nat expected) (filter (\<lambda>m. correlation_of m = cid) (concat (map (half_answers r) hs)))"
    "if int (length c') < expected
     then loop_time w' = d \<and> (halves rs' ss' \<noteq> [] \<longrightarrow> d \<le> half_due now (hd (halves rs' ss')))
     else loop_time w' < d"
    using gather_airlines [OF g tc q(1) t] by (simp only: q(2) append_Nil list.size of_nat_0 diff_0_right) blast
  let ?due = "\<lambda>hs. filter (\<lambda>m. correlation_of m = cid) (concat (map (half_answers r) (filter (\<lambda>h. half_due now h < d) hs)))"
  show "subs w' = subs w" by (rule r(4))
  have all: "filter (\<lambda>h. half_due now h < d) (halves rs ss) = hs @ filter (\<lambda>h. half_due now h < d) (halves rs' ss')"
    using r(5) by (simp add: r(1) filter_id_conv)
  show "c' = take (nat expected) (?due (halves rs ss))"
  proof (cases "int (length c') < expected")
    case True
    then have "filter (\<lambda>h. half_due now h < d) (halves rs ss) = hs"
      using r(7) sorted_split(1) [OF so [unfolded r(1)] r(5)] unfolding r(1) by simp
    then show ?thesis using r(6) by (simp only:)
  next
    case False
    then have "nat expected \<le> length (filter (\<lambda>m. correlation_of m = cid) (concat (map (half_answers r) hs)))"
      using r(6) by simp
    then show ?thesis unfolding all r(6) by simp
  qed
  have "halves rs' ss' = filter (\<lambda>h. d \<le> half_due now h) (halves rs ss)" if "int (length c') < expected"
    using that r(7) sorted_split(2) [OF so [unfolded r(1)] r(5)] unfolding r(1) by simp
  then show "\<exists>rs' ss'. rest = timed_halves now (halves rs' ss') \<and> set (halves rs' ss') \<subseteq> set (halves rs ss) \<and> to_come rt r rs' ss' w' \<and>
      (if int (length c') < expected
       then loop_time w' = d \<and> halves rs' ss' = filter (\<lambda>h. d \<le> half_due now h) (halves rs ss) else loop_time w' < d)"
    using r(1-3,7) by - (rule exI [of _ rs'], rule exI [of _ ss'], auto)
qed

text \<open>The half turns that are left reach nobody but the subscribers of the response topic.\<close>

lemma run_halves:
  assumes "to_come rt r rs ss w"
  shows "subs (run_agenda (timed_halves now (halves rs ss)) w) = subs w \<and>
    (\<forall>x. x \<notin> service_queue ` (set rs \<union> set ss) \<and> x \<notin> set (subscribers rt w) \<longrightarrow>
      queues (run_agenda (timed_halves now (halves rs ss)) w) x = queues w x) \<and>
    counter (reg (run_agenda (timed_halves now (halves rs ss)) w)) PATTERN_ID ''responses_published'' =
      counter (reg w) PATTERN_ID ''responses_published'' + int (length (concat (map (half_answers r) (halves rs ss))))"
  using assms
proof (induction "halves rs ss" arbitrary: rs ss w)
  case Nil
  from Nil.hyps show ?case by (simp add: timed_halves_def flip: Nil.hyps)
next
  case (Cons h hs)
  let ?w = "w\<lparr>loop_time := max (loop_time w) (half_due now h)\<rparr>"
  have tc: "to_come rt r rs ss ?w" using Cons.prems by simp
  obtain rs1 ss1 where st: "half_done rt (airline_of h) (half_answers r h) ?w (half_step h ?w)" "hs = halves rs1 ss1"
    "set rs1 \<subseteq> set rs" "set ss1 \<subseteq> set ss" "to_come rt r rs1 ss1 (half_step h ?w)" "airline_of h \<in> set rs \<union> set ss"
    using half_step_run [OF tc Cons.hyps(2) [symmetric]] by blast
  have run: "run_agenda (timed_halves now (halves rs ss)) w = run_agenda (timed_halves now (halves rs1 ss1)) (half_step h ?w)"
    by (simp add: timed_halves_def flip: Cons.hyps(2) st(2))
  have s: "subs (half_step h ?w) = subs w" using st(1) by (simp add: half_done_def)
  note ih = Cons.hyps(1) [OF st(2,5)]
  have "queues (run_agenda (timed_halves now (halves rs ss)) w) x = queues w x"
    if x: "x \<notin> service_queue ` (set rs \<union> set ss)" "x \<notin> set (subscribers rt w)" for x
  proof -
    have "x \<notin> service_queue ` (set rs1 \<union> set ss1)" "x \<noteq> service_queue (airline_of h)" using x(1) st(3,4,6) by auto
    then show ?thesis using ih x(2) st(1) subscribers_cong [OF s, of rt] unfolding run by (simp add: half_done_def)
  qed
  moreover have "halves rs ss = h # halves rs1 ss1" using Cons.hyps(2) st(2) by simp
  ultimately show ?case using ih s st(1) unfolding run by (simp add: half_done_def)
qed

subsection \<open>The search\<close>

definition airlines_ready :: "coordinator \<Rightarrow> airline_service list \<Rightarrow> 'x topic_world_scheme \<Rightarrow> bool" where
  "airlines_ready co services w \<longleftrightarrow> response_topic co \<noteq> broadcast_topic co \<and> \<not> stop_set w \<and>
     subscribers (broadcast_topic co) w = map service_queue services \<and> distinct (map service_queue services) \<and>
     distinct (subscribers (response_topic co) w) \<and>
     (\<forall>q \<in> set (subscribers (response_topic co) w). q < next_queue w) \<and>
     (\<forall>a \<in> set services. service_response_topic a = response_topic co \<and> queues w (service_queue a) = [] \<and>
        service_queue a < next_queue w \<and> service_queue a \<notin> set (subscribers (response_topic co) w))"

text \<open>The airlines whose answer is there before the timeout, in the order of their latencies.\<close>

definition in_time :: "int \<Rightarrow> airline_service list \<Rightarrow> airline_service list" where
  "in_time timeout services = filter (\<lambda>a. latency a < timeout) (sort_key (\<lambda>a. max 0 (latency a)) services)"

lemma insort_key_last: "\<forall>y \<in> set xs. f y < f x \<Longrightarrow> insort_key f x (xs @ ys) = xs @ insort_key f x ys"
  by (induction xs) auto

lemma insort_key_cong: "\<forall>y \<in> insert x (set xs). f y = g y \<Longrightarrow> insort_key f x xs = insort_key g x xs"
  by (induction xs) auto

lemma sort_by_wait:
  fixes f :: "'b \<Rightarrow> int"
  shows "sort_key (\<lambda>a. max 0 (f a)) xs = filter (\<lambda>a. f a \<le> 0) xs @ sort_key f (filter (\<lambda>a. 0 < f a) xs)"
proof (induction xs)
  case (Cons x xs)
  let ?g = "\<lambda>a. max 0 (f a)"
  show ?case
  proof (cases "0 < f x")
    case False
    then show ?thesis using Cons by (simp add: insort_is_Cons)
  next
    case True
    have "insort_key ?g x (filter (\<lambda>a. f a \<le> 0) xs @ sort_key f (filter (\<lambda>a. 0 < f a) xs)) =
        filter (\<lambda>a. f a \<le> 0) xs @ insort_key ?g x (sort_key f (filter (\<lambda>a. 0 < f a) xs))"
      using True by (intro insort_key_last) auto
    also have "insort_key ?g x (sort_key f (filter (\<lambda>a. 0 < f a) xs)) = insort_key f x (sort_key f (filter (\<lambda>a. 0 < f a) xs))"
      using True by (intro insort_key_cong) auto
    finally show ?thesis using Cons True by simp
  qed
qed simp

lemma half_turns_sorted: "sorted (map (half_due now) (half_turns services))"
proof -
  have "sorted (map (\<lambda>x. now + latency x) (sort_key latency ss))" for ss
    using sorted_sort_key [of latency ss] by (simp add: sorted_map)
  then show ?thesis by (auto simp: half_turns_def sorted_append comp_def map_replicate_const)
qed

lemma half_turns_halves: "half_turns services = halves services (sort_key latency (filter (\<lambda>a. 0 < latency a) services))"
  by (simp add: half_turns_def halves_def)

lemma answers_in_time:
  assumes "0 < timeout"
  shows "concat (map (half_answers r) (filter (\<lambda>h. half_due now h < now + timeout) (half_turns services))) =
    concat (map (\<lambda>a. answers a r) (in_time timeout services))"
proof -
  have "concat (map (half_answers r) (map Receive services)) = concat (map (\<lambda>a. answers a r) (filter (\<lambda>a. latency a \<le> 0) services))"
    by (induction services) auto
  moreover have "filter (\<lambda>a. latency a \<le> 0 \<and> latency a < timeout) services = filter (\<lambda>a. latency a \<le> 0) services"
    using assms by (intro filter_cong) auto
  ultimately show ?thesis using assms
    by (simp add: half_turns_def in_time_def sort_by_wait comp_def filter_map conj_commute)
qed

text \<open>
  How a request reaches the airlines, by either strategy (\<open>addressed\<close>), and that they are there to answer it
  (\<open>services_ready\<close>).
\<close>

definition addressed :: "coordinator \<Rightarrow> distribution_strategy \<Rightarrow> string list option \<Rightarrow> airline_service list \<Rightarrow>
    'x topic_world_scheme \<Rightarrow> bool" where
  "addressed co strategy recipients services w \<longleftrightarrow> (case strategy of
      PUBLISH_SUBSCRIBE \<Rightarrow> response_topic co \<noteq> broadcast_topic co \<and>
        subscribers (broadcast_topic co) w = map service_queue services
    | RECIPIENT_LIST \<Rightarrow> recipients = Some (map service_name services) \<and>
        (\<forall>a \<in> set services. response_topic co \<noteq> recipient_request_topic (service_name a) \<and>
          subscribers (recipient_request_topic (service_name a)) w = [service_queue a]))"

definition services_ready :: "coordinator \<Rightarrow> airline_service list \<Rightarrow> 'x topic_world_scheme \<Rightarrow> bool" where
  "services_ready co services w \<longleftrightarrow> \<not> stop_set w \<and> distinct (map service_queue services) \<and>
     distinct (subscribers (response_topic co) w) \<and>
     (\<forall>q \<in> set (subscribers (response_topic co) w). q < next_queue w) \<and>
     (\<forall>a \<in> set services. service_response_topic a = response_topic co \<and> queues w (service_queue a) = [] \<and>
        service_queue a < next_queue w \<and> service_queue a \<notin> set (subscribers (response_topic co) w))"

lemma airlines_ready_addressed:
  "airlines_ready co services w \<longleftrightarrow> addressed co PUBLISH_SUBSCRIBE recipients services w \<and> services_ready co services w"
  by (auto simp: airlines_ready_def addressed_def services_ready_def)

lemma address_each:
  assumes "\<forall>a \<in> set services. subscribers (recipient_request_topic (service_name a)) w = [service_queue a]"
    and "distinct (map service_queue services)"
  shows "\<exists>w'. for_each (\<lambda>name reached. bnd (sg_publish (recipient_request_topic name) (Request r)) (\<lambda>n. ret (reached + n)))
      (map service_name services) n w = (Inr (n + int (length services)), w') \<and> subs w' = subs w \<and>
    loop_time w' = loop_time w \<and> stop_set w' = stop_set w \<and>
    queues w' = (\<lambda>x. queues w x @ (if x \<in> service_queue ` set services then [Request r] else []))"
  using assms
proof (induction services arbitrary: n w)
  case (Cons a services)
  obtain w1 where w1: "sg_publish (recipient_request_topic (service_name a)) (Request r) w = (Inr 1, w1)" "subs w1 = subs w"
    "loop_time w1 = loop_time w" "stop_set w1 = stop_set w" "queues w1 = (\<lambda>x. queues w x @ (if x = service_queue a then [Request r] else []))"
    using sg_publish_run [of "recipient_request_topic (service_name a)" w "Request r"] Cons.prems(1) by force
  have "\<forall>b \<in> set services. subscribers (recipient_request_topic (service_name b)) w1 = [service_queue b]"
    using Cons.prems(1) subscribers_cong [OF w1(2)] by simp
  moreover have "distinct (map service_queue services)" using Cons.prems(2) by simp
  ultimately obtain w' where w': "for_each (\<lambda>name reached. bnd (sg_publish (recipient_request_topic name) (Request r))
      (\<lambda>n. ret (reached + n))) (map service_name services) (n + 1) w1 = (Inr (n + 1 + int (length services)), w')"
    "subs w' = subs w1" "loop_time w' = loop_time w1" "stop_set w' = stop_set w1"
    "queues w' = (\<lambda>x. queues w1 x @ (if x \<in> service_queue ` set services then [Request r] else []))"
    using Cons.IH [of w1 "n + 1"] by blast
  have "service_queue a \<notin> service_queue ` set services" using Cons.prems(2) by simp
  then have "queues w' = (\<lambda>x. queues w x @ (if x \<in> service_queue ` set (a # services) then [Request r] else []))"
    by (auto simp: w'(5) w1(5) fun_eq_iff)
  moreover have "bnd (sg_publish (recipient_request_topic (service_name a)) (Request r)) (\<lambda>m. ret (n + m)) w = (Inr (n + 1), w1)"
    using w1(1) by (simp add: bnd_def)
  then have "for_each (\<lambda>name reached. bnd (sg_publish (recipient_request_topic name) (Request r)) (\<lambda>n. ret (reached + n)))
      (map service_name (a # services)) n w = (Inr (n + int (length (a # services))), w')"
    unfolding list.map for_each.simps by (simp only: bnd_Inr w'(1)) simp
  ultimately show ?case using w'(2-4) w1(2-4) by metis
qed simp

lemma scatter_reaches:
  fixes w :: "'x topic_world_scheme"
  assumes "addressed co strategy recipients services w" and "distinct (map service_queue services)"
  obtains w' where "scatter co r strategy recipients w = (Inr (int (length services)), w')" and "subs w' = subs w"
    and "loop_time w' = loop_time w" and "stop_set w' = stop_set w"
    and "queues w' = (\<lambda>x. queues w x @ (if x \<in> service_queue ` set services then [Request r] else []))"
proof -
  define send :: "('x topic_world_scheme, int) io" where "send = (if strategy = PUBLISH_SUBSCRIBE then sg_publish (broadcast_topic co) (Request r)
    else case recipients of
        None \<Rightarrow> raise (ValueError ''recipient-list strategy requires an explicit recipients list'')
      | Some names \<Rightarrow> for_each (\<lambda>name reached.
          bnd (sg_publish (recipient_request_topic name) (Request r)) (\<lambda>n. ret (reached + n))) names 0)"
  have "\<exists>w1. send w = (Inr (int (length services)), w1) \<and> subs w1 = subs w \<and> loop_time w1 = loop_time w \<and> stop_set w1 = stop_set w \<and>
    queues w1 = (\<lambda>x. queues w x @ (if x \<in> service_queue ` set services then [Request r] else []))"
  proof (cases strategy)
    case RECIPIENT_LIST
    then show ?thesis using assms address_each [of services w r 0] by (simp add: send_def addressed_def)
  next
    case PUBLISH_SUBSCRIBE
    then have "subscribers (broadcast_topic co) w = map service_queue services" using assms(1) by (simp add: addressed_def)
    then show ?thesis using sg_publish_run [of "broadcast_topic co" w "Request r"] assms(2) PUBLISH_SUBSCRIBE
      by (force simp: send_def)
  qed
  then obtain w1 where "send w = (Inr (int (length services)), w1)" "subs w1 = subs w" "loop_time w1 = loop_time w" "stop_set w1 = stop_set w"
    "queues w1 = (\<lambda>x. queues w x @ (if x \<in> service_queue ` set services then [Request r] else []))" by blast
  then show ?thesis using that by (simp add: scatter_def bnd_def [of send] flip: send_def)
qed

lemma to_come_unsubscribe:
  assumes "to_come rt r rs ss w"
  shows "to_come rt r rs ss (unsubscribe rt q w)"
proof -
  have "queues (unsubscribe rt q w) = queues w" "in_hand (unsubscribe rt q w) = in_hand w" "stop_set (unsubscribe rt q w) = stop_set w"
    by (simp_all add: unsubscribe_def split: option.split)
  then show ?thesis using assms
    by (auto simp: to_come_def unsubscribe_subscribers distinct_remove1 dest: notin_set_remove1)
qed

text \<open>
  A whole search. The half turns that are left when it returns still find their requests, and reach neither
  its queue nor anybody else who was not subscribed before.
\<close>

lemma search_settles:
  fixes w :: "'x topic_world_scheme"
  assumes to: "addressed co strategy recipients services w" and ready: "services_ready co services w" and t: "0 < timeout"
  obtains c rs ss w' where
    "scatter_gather co r strategy expected timeout recipients (airline_steps (loop_time w) services) w =
      (Inr (c, timed_halves (loop_time w) (halves rs ss)), w')"
    and "c = take (nat expected) (filter (\<lambda>m. correlation_of m = rq_correlation_id r)
      (concat (map (\<lambda>a. answers a r) (in_time timeout services))))"
    and "subscribers (response_topic co) w' = subscribers (response_topic co) w"
    and "to_come (response_topic co) r rs ss w'" and "set (halves rs ss) \<subseteq> set (half_turns services)"
    and "if int (length c) < expected then loop_time w' = loop_time w + timeout \<and>
        halves rs ss = filter (\<lambda>h. loop_time w + timeout \<le> half_due (loop_time w) h) (half_turns services)
      else loop_time w' < loop_time w + timeout"
proof -
  let ?rt = "response_topic co" and ?q = "next_queue w" and ?cid = "rq_correlation_id r" and ?now = "loop_time w"
  obtain ws where ws: "subscribe ?rt w = (Inr ?q, ws)" "queues ws = (queues w)(?q := [])" "loop_time ws = ?now" "stop_set ws = stop_set w"
    "\<forall>t. subscribers t ws = (if t = ?rt then subscribers ?rt w @ [?q] else subscribers t w)"
    by (rule subscribe_run [where topic = ?rt and w = w])
  have d: "distinct (map service_queue services)" using ready by (simp add: services_ready_def)
  have "addressed co strategy recipients services ws"
    using to by (auto simp: addressed_def ws(5) split: distribution_strategy.splits)
  then obtain wc where wc: "scatter co r strategy recipients ws = (Inr (int (length services)), wc)" "subs wc = subs ws"
    "loop_time wc = loop_time ws" "stop_set wc = stop_set ws"
    "queues wc = (\<lambda>x. queues ws x @ (if x \<in> service_queue ` set services then [Request r] else []))"
    using scatter_reaches d by blast
  have sub: "subscribers ?rt wc = subscribers ?rt w @ [?q]" using ws(5) subscribers_cong [OF wc(2)] by simp
  have nq: "\<forall>a \<in> set services. service_queue a \<noteq> ?q" using ready by (auto simp: services_ready_def)
  let ?ss = "sort_key latency (filter (\<lambda>a. 0 < latency a) services)"
  have "to_come ?rt r services ?ss wc"
  proof -
    have "distinct services" "inj_on service_queue (set services)" using d by (simp_all add: distinct_map)
    moreover have "distinct (subscribers ?rt wc)" using ready by (auto simp: sub services_ready_def)
    moreover have "\<forall>a \<in> set services. service_response_topic a = ?rt \<and> service_queue a \<notin> set (subscribers ?rt wc) \<and>
        \<not> stop_set wc \<and> queues wc (service_queue a) = [Request r]"
      using ready nq by (auto simp: sub ws(2,4) wc(4,5) services_ready_def)
    moreover have "set services \<union> set ?ss = set services" by auto
    ultimately show ?thesis unfolding to_come_def by (auto simp: distinct_filter)
  qed
  note tc = this
  have "?q \<notin> service_queue ` set services" using nq by auto
  then have empty: "queues wc ?q = []" by (auto simp: wc(5) ws(2))
  have now: "loop_time wc = ?now" using wc(3) ws(3) by simp
  obtain c rest w1 where g: "gather_loop ?q ?cid expected (?now + timeout) (timed_halves ?now (halves services ?ss)) [] wc = (c, rest, w1)"
    using prod_cases3 by blast
  have so: "sorted (map (half_due ?now) (halves services ?ss))" using half_turns_sorted half_turns_halves by metis
  have q: "?q \<in> set (subscribers ?rt wc)" and early: "loop_time wc < ?now + timeout" using t now by (simp_all add: sub)
  note in_time = gather_in_time [OF g tc q empty early so]
  obtain rs ss where left: "rest = timed_halves ?now (halves rs ss)" "set (halves rs ss) \<subseteq> set (half_turns services)"
    "to_come ?rt r rs ss w1" "if int (length c) < expected then loop_time w1 = ?now + timeout \<and>
        halves rs ss = filter (\<lambda>h. ?now + timeout \<le> half_due ?now h) (half_turns services)
      else loop_time w1 < ?now + timeout"
    using in_time(2) unfolding half_turns_halves by blast
  have c: "c = take (nat expected) (filter (\<lambda>m. correlation_of m = ?cid) (concat (map (\<lambda>a. answers a r) (in_time timeout services))))"
    using in_time(1) answers_in_time [OF t, of r ?now services] unfolding half_turns_halves by simp
  have "gather_loop ?q ?cid expected (loop_time wc + timeout) (airline_steps ?now services) [] wc = (c, rest, w1)"
    using g by (simp add: now airline_steps_def half_turns_halves)
  then obtain w2 where w2: "gather ?q ?cid expected timeout (airline_steps ?now services) wc = (Inr (c, rest), w2)"
    "loop_time w2 = loop_time w1" "subs w2 = subs w1" "queues w2 = queues w1" "in_hand w2 = in_hand w1" "stop_set w2 = stop_set w1"
    by (rule gather_result)
  have s2: "subscribers ?rt w2 = subscribers ?rt w @ [?q]"
    using sub subscribers_cong [of w2 wc ?rt] w2(3) in_time(3) by simp
  have "?q \<notin> set (subscribers ?rt w)" using ready by (auto simp: services_ready_def)
  then have "subscribers ?rt (unsubscribe ?rt ?q w2) = subscribers ?rt w"
    by (simp add: unsubscribe_subscribers remove1_append s2)
  moreover have "to_come ?rt r rs ss w2"
    using left(3) w2(4-6) subscribers_cong [OF w2(3), of ?rt] by (simp add: to_come_def)
  then have "to_come ?rt r rs ss (unsubscribe ?rt ?q w2)" by (rule to_come_unsubscribe)
  moreover have "loop_time (unsubscribe ?rt ?q w2) = loop_time w1"
    using w2(2) by (simp add: unsubscribe_def split: option.split)
  moreover have "scatter_gather co r strategy expected timeout recipients (airline_steps ?now services) w =
      (Inr (c, rest), unsubscribe ?rt ?q w2)"
    using ws(1) wc(1) w2(1) by (simp add: scatter_gather_def bnd_def finally_do_def)
  ultimately show ?thesis using that [of c rs ss "unsubscribe ?rt ?q w2"] c left(1,2,4) by simp
qed

lemma search_collects:
  fixes w :: "'x topic_world_scheme"
  assumes "airlines_ready co services w" and "0 < timeout"
  obtains c rest w' where
    "scatter_gather co r PUBLISH_SUBSCRIBE expected timeout None (airline_steps (loop_time w) services) w = (Inr (c, rest), w')"
    and "c = take (nat expected) (filter (\<lambda>m. correlation_of m = rq_correlation_id r)
      (concat (map (\<lambda>a. answers a r) (in_time timeout services))))"
    and "subscribers (response_topic co) w' = subscribers (response_topic co) w"
    and "if int (length c) < expected then loop_time w' = loop_time w + timeout else loop_time w' < loop_time w + timeout"
    and "queues (run_agenda rest w') (next_queue w) = queues w' (next_queue w)"
proof -
  have a: "addressed co PUBLISH_SUBSCRIBE None services w" "services_ready co services w"
    using assms(1) airlines_ready_addressed by blast+
  obtain c rs ss w' where s: "scatter_gather co r PUBLISH_SUBSCRIBE expected timeout None (airline_steps (loop_time w) services) w =
      (Inr (c, timed_halves (loop_time w) (halves rs ss)), w')"
    "c = take (nat expected) (filter (\<lambda>m. correlation_of m = rq_correlation_id r)
      (concat (map (\<lambda>a. answers a r) (in_time timeout services))))"
    "subscribers (response_topic co) w' = subscribers (response_topic co) w" "to_come (response_topic co) r rs ss w'"
    "set (halves rs ss) \<subseteq> set (half_turns services)"
    "if int (length c) < expected then loop_time w' = loop_time w + timeout \<and>
        halves rs ss = filter (\<lambda>h. loop_time w + timeout \<le> half_due (loop_time w) h) (half_turns services)
      else loop_time w' < loop_time w + timeout"
    by (rule search_settles [OF a assms(2)])
  have "set rs \<union> set ss \<subseteq> set services" using s(5) by (auto simp: halves_def half_turns_def)
  then have "next_queue w \<notin> service_queue ` (set rs \<union> set ss)" "next_queue w \<notin> set (subscribers (response_topic co) w')"
    using a(2) by (auto simp: s(3) services_ready_def)
  then have "queues (run_agenda (timed_halves (loop_time w) (halves rs ss)) w') (next_queue w) = queues w' (next_queue w)"
    using run_halves [OF s(4)] by blast
  then show ?thesis using that s(1-3,6) by presburger
qed

subsection \<open>The sequential baseline\<close>

text \<open>A lookup that takes a time and then answers or raises.\<close>

definition timed_lookup :: "int \<Rightarrow> (search_request \<Rightarrow> exn + flight_quote) \<Rightarrow> search_request \<Rightarrow>
    ('x topic_world_scheme, flight_quote) io" where
  "timed_lookup lat lk r w = (lk r, w\<lparr>loop_time := loop_time w + lat\<rparr>)"

lemma sequential_all:
  assumes "list_all2 (\<lambda>(lat, lk) quote. lk r = Inr quote) lookups quotes"
  shows "gather_quotes_sequentially r (map (\<lambda>(lat, lk). timed_lookup lat lk) lookups) acc w =
    (Inr (acc @ quotes), w\<lparr>loop_time := loop_time w + sum_list (map fst lookups)\<rparr>)"
  using assms
proof (induction lookups arbitrary: quotes acc w)
  case Nil
  then show ?case by simp
next
  case (Cons l lookups)
  then obtain lat lk quote qs where "l = (lat, lk)" "quotes = quote # qs" "lk r = Inr quote"
    "list_all2 (\<lambda>(lat, lk) quote. lk r = Inr quote) lookups qs"
    by (cases quotes; cases l) auto
  then show ?case
    using Cons.IH [of qs "acc @ [quote]" "w\<lparr>loop_time := loop_time w + lat\<rparr>"]
    by (simp add: bnd_def timed_lookup_def add.assoc)
qed

lemma sequential_raises:
  assumes "list_all2 (\<lambda>(lat, lk) quote. lk r = Inr quote) before quotes" and "lk r = Inl e"
  shows "gather_quotes_sequentially r (map (\<lambda>(lat, lk). timed_lookup lat lk) (before @ (lat, lk) # after)) acc w =
    (Inl e, w\<lparr>loop_time := loop_time w + sum_list (map fst before) + lat\<rparr>)"
  using assms
proof (induction before arbitrary: quotes acc w)
  case Nil
  then show ?case by (simp add: bnd_def timed_lookup_def)
next
  case (Cons l before)
  then obtain lat1 lk1 quote qs where "l = (lat1, lk1)" "quotes = quote # qs" "lk1 r = Inr quote"
    "list_all2 (\<lambda>(lat, lk) quote. lk r = Inr quote) before qs"
    by (cases quotes; cases l) auto
  then show ?case
    using Cons.IH [of qs "acc @ [quote]" "w\<lparr>loop_time := loop_time w + lat1\<rparr>"] Cons.prems(2)
    by (simp add: bnd_def timed_lookup_def add.assoc)
qed

end
