(* ===== verification/Scatter_Properties.thy ===== *)
theory Scatter_Properties
  imports Scatter_Search "HOL-Library.Multiset"
begin

section \<open>Properties of scatter-gather\<close>

text \<open>
  A whole search, the bounds of the gather, the combining strategies, and what the sequential baseline
  costs. The concrete world of the witnesses has four airlines, of which the first is too slow and the
  second is broken.
\<close>

definition demo_request :: search_request where
  "demo_request = \<lparr>rq_correlation_id = ''c1'', origin = ''LIS'', destination = ''OSL'',
     departure_date = ''2026-01-01'', passengers = 1, rq_created_at = ''now''\<rparr>"

definition demo_quote :: "string \<Rightarrow> int \<Rightarrow> flight_quote" where
  "demo_quote cid price = \<lparr>fq_correlation_id = cid, airline = ''a'', flight_number = ''1'', price_cents = price,
     depart_at = 7\<rparr>"

definition demo_coordinator :: coordinator where
  "demo_coordinator = \<lparr>response_topic = ''r'', broadcast_topic = ''b''\<rparr>"

definition demo_airlines :: "airline_service list" where
  "demo_airlines =
    [\<lparr>service_name = ''s'', lookup = (\<lambda>r. Inr (demo_quote (rq_correlation_id r) 50)), service_response_topic = ''r'',
       latency = 500000, service_queue = 0\<rparr>,
     \<lparr>service_name = ''a'', lookup = (\<lambda>r. Inl TimeoutError), service_response_topic = ''r'', latency = 0,
       service_queue = 1\<rparr>,
     \<lparr>service_name = ''y'', lookup = (\<lambda>r. Inr (demo_quote (rq_correlation_id r) 70)), service_response_topic = ''r'',
       latency = 5, service_queue = 2\<rparr>,
     \<lparr>service_name = ''z'', lookup = (\<lambda>r. Inr (demo_quote (rq_correlation_id r) 90)), service_response_topic = ''r'',
       latency = 0, service_queue = 3\<rparr>]"

definition demo_topics :: topic_world where
  "demo_topics = \<lparr>reg = [], wall = ''now'', subs = [(''b'', [0, 1, 2, 3])], queues = \<lambda>_. [], next_queue = 4,
     loop_time = 0, in_hand = \<lambda>_. None, stop_set = False\<rparr>"

text \<open>
  C25: a search gathers what the airlines answer in time, and only that. With the airlines subscribed and
  idle, their tasks started with the search, a broadcast search returns the quotes of the airlines whose
  latency is below the timeout and whose lookup answers, in the order in which they come (by latency, those of
  equal latency in the order of the tasks), up to the expected number. An airline that is too slow, whose lookup
  raises, or that quotes another search is only missing from the result. The search returns at its deadline
  if it has fewer quotes than expected, and earlier otherwise; the response topic then has the subscribers it
  had before, and the answers that are still to come do not reach the search's queue.
\<close>

theorem flight_search_collects:
  assumes "airlines_ready co services w" and "0 < timeout"
  shows "\<exists>c rest w'. scatter_gather co r PUBLISH_SUBSCRIBE expected timeout None
        (airline_steps (loop_time w) services) w = (Inr (c, rest), w') \<and>
    c = take (nat expected) (filter (\<lambda>m. correlation_of m = rq_correlation_id r)
        (concat (map (\<lambda>a. case lookup a r of Inl _ \<Rightarrow> [] | Inr quote \<Rightarrow> [Quote quote])
          (filter (\<lambda>a. latency a < timeout) (sort_key (\<lambda>a. max 0 (latency a)) services))))) \<and>
    (if int (length c) < expected then loop_time w' = loop_time w + timeout else loop_time w' < loop_time w + timeout) \<and>
    subscribers (response_topic co) w' = subscribers (response_topic co) w \<and>
    queues (run_agenda rest w') (next_queue w) = queues w' (next_queue w)"
proof -
  obtain c rest w' where "scatter_gather co r PUBLISH_SUBSCRIBE expected timeout None (airline_steps (loop_time w) services) w =
      (Inr (c, rest), w')"
    and "c = take (nat expected) (filter (\<lambda>m. correlation_of m = rq_correlation_id r)
      (concat (map (\<lambda>a. answers a r) (in_time timeout services))))"
    and "subscribers (response_topic co) w' = subscribers (response_topic co) w"
    and "if int (length c) < expected then loop_time w' = loop_time w + timeout else loop_time w' < loop_time w + timeout"
    and "queues (run_agenda rest w') (next_queue w) = queues w' (next_queue w)"
    by (rule search_collects [OF assms, of r expected])
  then show ?thesis unfolding answers_def in_time_def by blast
qed

theorem flight_search_collects_witness:
  "\<exists>rest w'. scatter_gather demo_coordinator demo_request PUBLISH_SUBSCRIBE 4 10 None (airline_steps 0 demo_airlines)
      demo_topics = (Inr ([Quote (demo_quote ''c1'' 90), Quote (demo_quote ''c1'' 70)], rest), w') \<and>
    loop_time w' = 10 \<and> subscribers ''r'' w' = []"
proof -
  have "airlines_ready demo_coordinator demo_airlines demo_topics"
    by (simp add: airlines_ready_def demo_coordinator_def demo_airlines_def demo_topics_def subscribers_def
        dict_get_def)
  from flight_search_collects [OF this, of 10 demo_request 4] show ?thesis
    by (simp add: demo_coordinator_def demo_airlines_def demo_topics_def subscribers_def dict_get_def
        demo_request_def demo_quote_def) blast
qed





text \<open>
  Combining. Sorting by price permutes the quotes, in ascending price and with quotes of equal price
  in the order of arrival. The scan of \<open>cheapest\<close> is the head of that sort, so of several cheapest quotes
  it picks the first that arrived, and it has no answer exactly when there is no quote.
\<close>

theorem combining_strategies:
  "mset (sort_by_price qs) = mset qs \<and> sorted (map price_cents (sort_by_price qs)) \<and>
   (\<forall>p. filter (\<lambda>q. price_cents q = p) (sort_by_price qs) = filter (\<lambda>q. price_cents q = p) qs) \<and>
   cheapest qs = (case sort_by_price qs of [] \<Rightarrow> None | q # _ \<Rightarrow> Some q) \<and>
   sort_by_price (filter_departing_after d qs) = filter_departing_after d (sort_by_price qs)"
  by (simp add: cheapest_sorted sort_by_price_def filter_departing_after_def sort_key_stable filter_sort mset_sort)

text \<open>
  The sequential baseline pays every latency and survives no failure. If every lookup answers it
  returns all quotes after the sum of the latencies; the first lookup that raises ends the search with
  its exception, after the latencies so far, without asking the airlines behind it.
\<close>

theorem sequential_search_costs_the_sum:
  assumes "list_all2 (\<lambda>(lat, lk) quote. lk r = Inr quote) before quotes" and "lk r = Inl e"
  shows "gather_quotes_sequentially r (map (\<lambda>(lat, lk). timed_lookup lat lk) before) [] w =
      (Inr quotes, w\<lparr>loop_time := loop_time w + sum_list (map fst before)\<rparr>) \<and>
    gather_quotes_sequentially r (map (\<lambda>(lat, lk). timed_lookup lat lk) (before @ (lat, lk) # behind)) [] w =
      (Inl e, w\<lparr>loop_time := loop_time w + sum_list (map fst before) + lat\<rparr>)"
  using sequential_all [OF assms(1), of "[]" w] 
    sequential_raises [where lk = lk and e = e and lat = lat and acc = "[]" and w = w, OF assms(1,2)] by simp

theorem sequential_search_costs_the_sum_witness:
  "fst (gather_quotes_sequentially demo_request (map (\<lambda>(lat, lk). timed_lookup lat lk)
      [(20, \<lambda>r. Inr (demo_quote ''c1'' 90)), (30, \<lambda>r. Inl TimeoutError), (40, \<lambda>r. Inr (demo_quote ''c1'' 80))])
      [] demo_topics) = Inl TimeoutError"
  using sequential_search_costs_the_sum [where before = "[(20, \<lambda>r. Inr (demo_quote ''c1'' 90))]"
      and quotes = "[demo_quote ''c1'' 90]" and lk = "\<lambda>r. Inl TimeoutError" and e = TimeoutError and lat = 30
      and behind = "[(40, \<lambda>r. Inr (demo_quote ''c1'' 80))]" and r = demo_request and w = demo_topics]
  by simp

end
