(* ===== verification/Chaos.thy ===== *)
theory Chaos
  imports PyFloat
begin

section \<open>Failure injection\<close>

text \<open>
  \<^verbatim>\<open>chaos.py\<close>: the fire policy, the injector with its four subclasses and the factories. Injectors and
  random generators are objects with identity: numbers, with their state in the world. A generator's
  state is the sequence of the draws it has left; \<open>gen seed\<close> is the sequence of \<^verbatim>\<open>random.Random(seed)\<close>.
  The wrapped callable is an argument of the call. \<open>slept\<close> records the awaited delays.
\<close>

definition DEFAULT_SEED :: int where
  "DEFAULT_SEED = 1729"

record fire_policy =
  probability :: "pyfloat option"
  on_call :: "int option"

text \<open>The four subclasses of \<^verbatim>\<open>ChaosInjector\<close>.\<close>

datatype fault = BrokerUnavailable | DuplicateDelivery | CrashBeforeAck | SlowConsumer (latency_of: pyfloat)

record injector =
  kind :: fault
  policy :: fire_policy
  calls :: int
  fires :: int
  rng :: nat

record chaos_world =
  injectors :: "nat \<Rightarrow> injector"
  next_injector :: nat
  rngs :: "nat \<Rightarrow> nat \<Rightarrow> rat"
  next_rng :: nat
  slept :: "pyfloat list"

subsection \<open>The policy\<close>

definition new_policy :: "float_text \<Rightarrow> pyfloat option \<Rightarrow> int option \<Rightarrow> exn + fire_policy" where
  "new_policy fl p n = (case (p, n) of
      (Some _, Some _) \<Rightarrow> Inl (ValueError ''configure probability or on_call, not both'')
    | (None, None) \<Rightarrow> Inl (ValueError ''configure a trigger: probability=<0.0-1.0> or on_call=<n>'')
    | (Some x, None) \<Rightarrow>
        if \<not> (fle (Finite 0) x \<and> fle x (Finite 1))
        then Inl (ValueError (''probability must be between 0.0 and 1.0, got '' @ show_float fl x))
        else Inr \<lparr>probability = p, on_call = n\<rparr>
    | (None, Some k) \<Rightarrow>
        if k < 1 then Inl (ValueError (''on_call must be a call ordinal >= 1, got '' @ py_str_int k))
        else Inr \<lparr>probability = p, on_call = n\<rparr>)"

text \<open>\<^verbatim>\<open>rng.random()\<close>.\<close>

definition draw :: "nat \<Rightarrow> ('x chaos_world_scheme, rat) io" where
  "draw g w = (Inr (rngs w g 0), w\<lparr>rngs := (rngs w)(g := \<lambda>n. rngs w g (Suc n))\<rparr>)"

definition should_fire :: "fire_policy \<Rightarrow> int \<Rightarrow> nat \<Rightarrow> ('x chaos_world_scheme, bool) io" where
  "should_fire pol call_ordinal g = (case probability pol of
      Some p \<Rightarrow> bnd (draw g) (\<lambda>x. ret (fless (Finite x) p))
    | None \<Rightarrow> ret (on_call pol = Some call_ordinal))"

definition describe :: "float_text \<Rightarrow> fire_policy \<Rightarrow> string" where
  "describe fl pol = (case on_call pol of
      Some n \<Rightarrow> ''on_call='' @ py_str_int n
    | None \<Rightarrow> ''probability='' @ (case probability pol of Some p \<Rightarrow> show_float fl p | None \<Rightarrow> ''None''))"

subsection \<open>The injector\<close>

definition new_rng :: "(int \<Rightarrow> nat \<Rightarrow> rat) \<Rightarrow> int \<Rightarrow> ('x chaos_world_scheme, nat) io" where
  "new_rng gen seed w =
     (Inr (next_rng w), w\<lparr>next_rng := next_rng w + 1, rngs := (rngs w)(next_rng w := gen seed)\<rparr>)"

definition add_injector :: "injector \<Rightarrow> ('x chaos_world_scheme, nat) io" where
  "add_injector j w =
     (Inr (next_injector w), w\<lparr>next_injector := next_injector w + 1, injectors := (injectors w)(next_injector w := j)\<rparr>)"

definition new_injector :: "float_text \<Rightarrow> (int \<Rightarrow> nat \<Rightarrow> rat) \<Rightarrow> fault \<Rightarrow> pyfloat option \<Rightarrow> int option \<Rightarrow> int \<Rightarrow>
    nat option \<Rightarrow> ('x chaos_world_scheme, nat) io" where
  "new_injector fl gen k p n seed shared =
     bnd (liftr (new_policy fl p n)) (\<lambda>pol.
     bnd (case shared of Some g \<Rightarrow> ret g | None \<Rightarrow> new_rng gen seed) (\<lambda>g.
     add_injector \<lparr>kind = k, policy = pol, calls = 0, fires = 0, rng = g\<rparr>))"

text \<open>\<^verbatim>\<open>sleep\<close> and the subclasses' \<^verbatim>\<open>_fire\<close>.\<close>

definition sleep :: "pyfloat \<Rightarrow> ('x chaos_world_scheme, unit) io" where
  "sleep seconds = modify (\<lambda>w. w\<lparr>slept := slept w @ [seconds]\<rparr>)"

definition unavailable_fire :: "('w, 'a) io \<Rightarrow> ('w, 'a) io" where
  "unavailable_fire call = raise BrokerUnavailableError"

definition duplicate_fire :: "('w, 'a) io \<Rightarrow> ('w, 'a) io" where
  "duplicate_fire call = bnd call (\<lambda>_. call)"

definition crash_fire :: "('w, 'a) io \<Rightarrow> ('w, 'a) io" where
  "crash_fire call = bnd call (\<lambda>_. raise ConsumerCrashError)"

definition slow_fire :: "pyfloat \<Rightarrow> ('x chaos_world_scheme, 'a) io \<Rightarrow> ('x chaos_world_scheme, 'a) io" where
  "slow_fire latency call = bnd (sleep latency) (\<lambda>_. call)"

definition fire :: "fault \<Rightarrow> ('x chaos_world_scheme, 'a) io \<Rightarrow> ('x chaos_world_scheme, 'a) io" where
  "fire k call = (case k of
      BrokerUnavailable \<Rightarrow> unavailable_fire call
    | DuplicateDelivery \<Rightarrow> duplicate_fire call
    | CrashBeforeAck \<Rightarrow> crash_fire call
    | SlowConsumer latency \<Rightarrow> slow_fire latency call)"

definition chaos_call :: "nat \<Rightarrow> ('b \<Rightarrow> ('x chaos_world_scheme, 'a) io) \<Rightarrow> 'b \<Rightarrow> ('x chaos_world_scheme, 'a) io" where
  "chaos_call i wrapped args =
     bnd (modify (\<lambda>w. w\<lparr>injectors := (injectors w)(i := (injectors w i)\<lparr>calls := calls (injectors w i) + 1\<rparr>)\<rparr>)) (\<lambda>_ w.
     let self = injectors w i in
     bnd (should_fire (policy self) (calls self) (rng self)) (\<lambda>fires_now.
       if \<not> fires_now then wrapped args
       else
         bnd (modify (\<lambda>w. w\<lparr>injectors := (injectors w)(i := (injectors w i)\<lparr>fires := fires (injectors w i) + 1\<rparr>)\<rparr>)) (\<lambda>_.
         fire (kind self) (wrapped args))) w)"

subsection \<open>The factories\<close>

definition broker_unavailable :: "float_text \<Rightarrow> (int \<Rightarrow> nat \<Rightarrow> rat) \<Rightarrow> pyfloat option \<Rightarrow> int option \<Rightarrow> int \<Rightarrow>
    nat option \<Rightarrow> ('x chaos_world_scheme, nat) io" where
  "broker_unavailable fl gen = new_injector fl gen BrokerUnavailable"

definition duplicate_delivery :: "float_text \<Rightarrow> (int \<Rightarrow> nat \<Rightarrow> rat) \<Rightarrow> pyfloat option \<Rightarrow> int option \<Rightarrow> int \<Rightarrow>
    nat option \<Rightarrow> ('x chaos_world_scheme, nat) io" where
  "duplicate_delivery fl gen = new_injector fl gen DuplicateDelivery"

definition crash_before_ack :: "float_text \<Rightarrow> (int \<Rightarrow> nat \<Rightarrow> rat) \<Rightarrow> pyfloat option \<Rightarrow> int option \<Rightarrow> int \<Rightarrow>
    nat option \<Rightarrow> ('x chaos_world_scheme, nat) io" where
  "crash_before_ack fl gen = new_injector fl gen CrashBeforeAck"

definition new_slow_consumer :: "float_text \<Rightarrow> (int \<Rightarrow> nat \<Rightarrow> rat) \<Rightarrow> pyfloat \<Rightarrow> pyfloat option \<Rightarrow> int option \<Rightarrow>
    int \<Rightarrow> nat option \<Rightarrow> ('x chaos_world_scheme, nat) io" where
  "new_slow_consumer fl gen latency p n seed shared =
     (if \<not> is_finite latency \<or> fle latency (Finite 0)
      then raise (ValueError (''latency must be finite positive seconds, got '' @ show_float fl latency))
      else new_injector fl gen (SlowConsumer latency) p n seed shared)"

definition slow_consumer :: "float_text \<Rightarrow> (int \<Rightarrow> nat \<Rightarrow> rat) \<Rightarrow> pyfloat \<Rightarrow> pyfloat option \<Rightarrow> int option \<Rightarrow> int \<Rightarrow>
    nat option \<Rightarrow> ('x chaos_world_scheme, nat) io" where
  "slow_consumer = new_slow_consumer"

subsection \<open>What a fault means, without the machinery\<close>

text \<open>
  The reference: \<open>schedule\<close> says which of the next calls fault, \<open>faulty\<close> what a fault does to a call
  on the application's own state, \<open>scheduled\<close> runs the calls by such a schedule. \<open>drive\<close> makes a list of
  calls one after another, each outcome caught. \<open>on_rest\<close> is a call that does not touch the injectors.
\<close>

definition schedule :: "fire_policy \<Rightarrow> int \<Rightarrow> (nat \<Rightarrow> rat) \<Rightarrow> nat \<Rightarrow> bool list" where
  "schedule pol made ds k = map (\<lambda>m. case probability pol of
      Some p \<Rightarrow> fless (Finite (ds m)) p
    | None \<Rightarrow> on_call pol = Some (made + 1 + int m)) [0..<k]"

fun faulty :: "fault \<Rightarrow> ('m, 'a) io \<Rightarrow> ('m, 'a) io" where
  "faulty BrokerUnavailable call = raise BrokerUnavailableError"
| "faulty DuplicateDelivery call = bnd call (\<lambda>_. call)"
| "faulty CrashBeforeAck call = bnd call (\<lambda>_. raise ConsumerCrashError)"
| "faulty (SlowConsumer _) call = call"

fun scheduled :: "fault \<Rightarrow> ('b \<Rightarrow> ('m, 'a) io) \<Rightarrow> bool list \<Rightarrow> 'b list \<Rightarrow> 'm \<Rightarrow> (exn + 'a) list \<times> 'm" where
  "scheduled k f (b # bs) (x # xs) m =
     (case (if b then faulty k (f x) else f x) m of (r, m') \<Rightarrow>
      case scheduled k f bs xs m' of (rs, m'') \<Rightarrow> (r # rs, m''))"
| "scheduled k f _ _ m = ([], m)"

fun drive :: "('b \<Rightarrow> ('w, 'a) io) \<Rightarrow> 'b list \<Rightarrow> 'w \<Rightarrow> (exn + 'a) list \<times> 'w" where
  "drive f [] w = ([], w)"
| "drive f (x # xs) w = (case f x w of (r, w') \<Rightarrow> case drive f xs w' of (rs, w'') \<Rightarrow> (r # rs, w''))"

definition on_rest :: "('m, 'a) io \<Rightarrow> ('m chaos_world_scheme, 'a) io" where
  "on_rest g w = (case g (chaos_world.more w) of (r, m) \<Rightarrow> (r, w\<lparr>chaos_world.more := m\<rparr>))"

subsection \<open>Runs\<close>

lemma schedule_Suc:
  "schedule pol made ds (Suc k) =
    (case probability pol of Some p \<Rightarrow> fless (Finite (ds 0)) p | None \<Rightarrow> on_call pol = Some (made + 1)) #
      schedule pol (made + 1) (\<lambda>m. ds (Suc m)) k"
proof -
  have "[0..<Suc k] = 0 # map Suc [0..<k]" by (simp add: map_Suc_upt upt_conv_Cons del: upt_Suc)
  then show ?thesis by (simp add: schedule_def comp_def add.assoc del: upt_Suc cong: option.case_cong)
qed

text \<open>The world after a batch of calls, given how many were made and fired, and the application's state.\<close>

definition after_calls :: "nat \<Rightarrow> nat \<Rightarrow> nat \<Rightarrow> 'm \<Rightarrow> 'm chaos_world_scheme \<Rightarrow> 'm chaos_world_scheme" where
  "after_calls i made fired m w =
     (let j = injectors w i in
      w\<lparr>injectors := (injectors w)(i := j\<lparr>calls := calls j + int made, fires := fires j + int fired\<rparr>),
        rngs := (case probability (policy j) of
            Some _ \<Rightarrow> (rngs w)(rng j := \<lambda>n. rngs w (rng j) (n + made))
          | None \<Rightarrow> rngs w),
        slept := slept w @ (case kind j of SlowConsumer l \<Rightarrow> replicate fired l | _ \<Rightarrow> []),
        chaos_world.more := m\<rparr>)"

lemma on_rest_twice: "bnd (on_rest g) (\<lambda>x. on_rest (h x)) = on_rest (bnd g h)"
  by (auto simp: on_rest_def bnd_def fun_eq_iff split: prod.splits sum.splits)

lemma on_rest_raise: "bnd (on_rest g) (\<lambda>_. raise e) = on_rest (bnd g (\<lambda>_. raise e))"
  by (auto simp: on_rest_def bnd_def fun_eq_iff split: prod.splits sum.splits)

lemma fire_on_rest:
  "fire k (on_rest g) w = on_rest (faulty k g)
    (w\<lparr>slept := slept w @ (case k of SlowConsumer l \<Rightarrow> [l] | _ \<Rightarrow> [])\<rparr>)"
  by (cases k)
    (simp_all add: fire_def unavailable_fire_def duplicate_fire_def crash_fire_def slow_fire_def sleep_def
      on_rest_twice on_rest_raise, simp_all add: on_rest_def)

lemma chaos_call_run:
  fixes w :: "'m chaos_world_scheme" and i :: nat
  defines "j \<equiv> injectors w i"
  defines "b \<equiv> hd (schedule (policy j) (calls j) (rngs w (rng j)) 1)"
  shows "chaos_call i (\<lambda>x. on_rest (g x)) x w =
    (case (if b then faulty (kind j) (g x) else g x) (chaos_world.more w) of
      (r, m) \<Rightarrow> (r, after_calls i 1 (if b then 1 else 0) m w))"
  unfolding j_def b_def
  by (cases "probability (policy (injectors w i))"; cases "kind (injectors w i)")
    (auto simp: chaos_call_def should_fire_def draw_def bnd_def Let_def schedule_def after_calls_def fire_on_rest
      on_rest_def split: prod.splits)

lemma injectors_after_calls: "injectors (after_calls i made fired m w) i =
    (injectors w i)\<lparr>calls := calls (injectors w i) + int made, fires := fires (injectors w i) + int fired\<rparr>"
  by (simp add: after_calls_def Let_def)

lemma after_calls_0: "after_calls i 0 0 (chaos_world.more w) w = w"
  by (cases "kind (injectors w i)"; cases "probability (policy (injectors w i))") (simp_all add: after_calls_def Let_def)

lemma after_calls_again:
  "after_calls i made fired m (after_calls i made' fired' m' w) = after_calls i (made' + made) (fired' + fired) m w"
  by (cases "kind (injectors w i)"; cases "probability (policy (injectors w i))")
    (simp_all add: after_calls_def Let_def add.assoc replicate_add add.commute [of made made'])

lemma drive_run:
  fixes w :: "'m chaos_world_scheme" and i :: nat and xs :: "'b list"
  defines "j \<equiv> injectors w i"
  defines "bs \<equiv> schedule (policy j) (calls j) (rngs w (rng j)) (length xs)"
  shows "drive (chaos_call i (\<lambda>x. on_rest (g x))) xs w =
    (case scheduled (kind j) g bs xs (chaos_world.more w) of
      (rs, m) \<Rightarrow> (rs, after_calls i (length xs) (length (filter (\<lambda>b. b) bs)) m w))"
  unfolding j_def bs_def
proof (induction xs arbitrary: w)
  case Nil
  then show ?case by (simp add: schedule_def after_calls_0)
next
  case (Cons x xs)
  let ?j = "injectors w i"
  define ds where "ds = rngs w (rng ?j)"
  define b where "b = hd (schedule (policy ?j) (calls ?j) ds 1)"
  have sched: "schedule (policy ?j) (calls ?j) ds (length (x # xs)) =
      b # schedule (policy ?j) (calls ?j + 1) (\<lambda>m. ds (Suc m)) (length xs)"
    by (simp add: schedule_Suc b_def cong: option.case_cong)
  obtain r m where first: "(if b then faulty (kind ?j) (g x) else g x) (chaos_world.more w) = (r, m)" by fastforce
  define w1 where "w1 = after_calls i 1 (if b then 1 else 0) m w"
  have call: "chaos_call i (\<lambda>x. on_rest (g x)) x w = (r, w1)"
    using chaos_call_run [of i g x w] first by (simp add: w1_def b_def ds_def)
  have j1: "injectors w1 i = ?j\<lparr>calls := calls ?j + 1, fires := fires ?j + (if b then 1 else 0)\<rparr>"
    by (simp add: w1_def injectors_after_calls)
  have rest: "schedule (policy ?j) (calls ?j + 1) (rngs w1 (rng ?j)) (length xs) =
      schedule (policy ?j) (calls ?j + 1) (\<lambda>m. ds (Suc m)) (length xs)"
    by (cases "probability (policy ?j)") (simp_all add: schedule_def w1_def after_calls_def Let_def ds_def)
  have m1: "chaos_world.more w1 = m" by (simp add: w1_def after_calls_def Let_def)
  obtain rs m' where second: "scheduled (kind ?j) g (schedule (policy ?j) (calls ?j + 1) (\<lambda>m. ds (Suc m)) (length xs)) xs m
      = (rs, m')" by fastforce
  have "drive (chaos_call i (\<lambda>x. on_rest (g x))) xs w1 = (rs, after_calls i (length xs)
      (length (filter (\<lambda>b. b) (schedule (policy ?j) (calls ?j + 1) (\<lambda>m. ds (Suc m)) (length xs)))) m' w1)"
    using Cons.IH [of w1] by (simp add: j1 rest m1 second)
  then show ?case using sched first second
    by (simp add: call ds_def [symmetric]) (simp add: w1_def after_calls_again)
qed

end
