(* ===== verification/Chaos_Properties.thy ===== *)
theory Chaos_Properties
  imports Chaos
begin

section \<open>Properties of failure injection\<close>

text \<open>A wrapped call runs as its schedule says, and what schedules a valid policy allows.\<close>

lemma filter_upt_single: "length (filter (\<lambda>m. k = m) [0..<c]) = (if k < c then 1 else 0)" for k :: nat
  by (induction c) auto

lemma filter_map_id: "filter (\<lambda>b. b) (map P xs) = map P (filter P xs)"
  by (induction xs) auto

text \<open>
  C27: an injector is its schedule. Whatever calls are made through an injector and however they end,
  their results and their effect on the application are those of the reference, where exactly the
  scheduled calls fault (no call, two calls, or the call and then a crash); afterwards the injector has
  counted its calls and its faults, its generator has advanced once per call when it draws and not
  otherwise, and only the delays of its faults were slept.
\<close>

theorem chaos_follows_schedule:
  fixes w :: "'m chaos_world_scheme" and xs :: "'b list"
  shows "drive (chaos_call i (\<lambda>x. on_rest (g x))) xs w =
    (let j = injectors w i;
         bs = schedule (policy j) (calls j) (rngs w (rng j)) (length xs);
         fired = length (filter (\<lambda>b. b) bs);
         (rs, m) = scheduled (kind j) g bs xs (chaos_world.more w)
     in (rs, w\<lparr>injectors := (injectors w)(i := j\<lparr>calls := calls j + int (length xs), fires := fires j + int fired\<rparr>),
           rngs := (case probability (policy j) of
               Some _ \<Rightarrow> (rngs w)(rng j := \<lambda>n. rngs w (rng j) (n + length xs))
             | None \<Rightarrow> rngs w),
           slept := slept w @ (case kind j of SlowConsumer l \<Rightarrow> replicate fired l | _ \<Rightarrow> []),
           chaos_world.more := m\<rparr>))"
  by (simp add: drive_run Let_def after_calls_def split: prod.splits)

text \<open>
  A policy is armed, and exact. A policy that could be built has exactly one trigger, in its range.
  With an ordinal \<open>k\<close> exactly one of the first \<open>c\<close> calls faults, once \<open>c\<close> has reached \<open>k\<close>; with
  probability one every call faults and with probability zero none does, for draws in \<open>[0, 1)\<close>.
\<close>

theorem chaos_policy_exact:
  assumes "new_policy fl p n = Inr pol"
  shows "case (p, n) of
      (Some x, None) \<Rightarrow> fle (Finite 0) x \<and> fle x (Finite 1) \<and>
        (x = Finite 1 \<longrightarrow> (\<forall>m. ds m < 1) \<longrightarrow> schedule pol 0 ds c = replicate c True) \<and>
        (x = Finite 0 \<longrightarrow> (\<forall>m. 0 \<le> ds m) \<longrightarrow> schedule pol 0 ds c = replicate c False)
    | (None, Some k) \<Rightarrow> 1 \<le> k \<and> length (filter (\<lambda>b. b) (schedule pol 0 ds c)) = (if k \<le> int c then 1 else 0)
    | _ \<Rightarrow> False"
proof (cases p)
  case (Some x)
  then have "n = None" and pol: "pol = \<lparr>probability = p, on_call = n\<rparr>" and "fle (Finite 0) x" "fle x (Finite 1)"
    using assms by (auto simp: new_policy_def split: option.splits if_splits)
  moreover have "\<not> ds m < 0" if "\<forall>m. 0 \<le> ds m" for m using that by (simp add: not_less)
  ultimately show ?thesis using Some by (simp add: schedule_def map_replicate_const)
next
  case None
  then obtain k where k: "n = Some k" "pol = \<lparr>probability = p, on_call = n\<rparr>" "1 \<le> k"
    using assms by (auto simp: new_policy_def split: option.splits if_splits)
  then have "k = 1 + int m \<longleftrightarrow> nat (k - 1) = m" for m by auto
  then have "length (filter (\<lambda>b. b) (schedule pol 0 ds c)) = length (filter (\<lambda>m. nat (k - 1) = m) [0..<c])"
    using None k(1,2) by (simp add: schedule_def filter_map_id)
  then show ?thesis using None k by (simp add: filter_upt_single) linarith
qed

theorem chaos_policy_exact_witness:
  "schedule \<lparr>probability = None, on_call = Some 2\<rparr> 0 (\<lambda>_. 0) 3 = [False, True, False] \<and>
   length (filter (\<lambda>b. b) (schedule \<lparr>probability = None, on_call = Some 2\<rparr> 0 (\<lambda>_. 0) 3)) = 1"
proof -
  have "new_policy fl None (Some 2) = Inr \<lparr>probability = None, on_call = Some 2\<rparr>" for fl
    by (simp add: new_policy_def)
  from chaos_policy_exact [OF this, of "\<lambda>_. 0" 3] show ?thesis
    by (simp add: schedule_def upt_rec)
qed

end
