(* ===== verification/Envelope.thy ===== *)
theory Envelope
  imports PyText
begin

section \<open>The message envelope\<close>

text \<open>
  \<^verbatim>\<open>entities/envelope.py\<close>. A \<^verbatim>\<open>datetime\<close> is its local time in microseconds and the offset of its zone
  from UTC, if it has one; \<^verbatim>\<open>isoformat\<close>, \<^verbatim>\<open>fromisoformat\<close> and \<^verbatim>\<open>repr\<close> on it are the fields of
  \<open>datetime_text\<close>, of which only the documented round trip for an instant in UTC is used. The range of
  years is not modelled. On the wire a key or a value is \<^verbatim>\<open>bytes\<close> or \<^verbatim>\<open>str\<close>.
\<close>

record datetime =
  local_us :: int
  utc_offset :: "int option"

record datetime_text =
  isoformat :: "datetime \<Rightarrow> string"
  fromisoformat :: "string \<Rightarrow> exn + datetime"
  repr_datetime :: "datetime \<Rightarrow> string"

definition is_utc :: "datetime \<Rightarrow> bool" where
  "is_utc d \<longleftrightarrow> utc_offset d = Some 0"

definition datetime_text_ok :: "datetime_text \<Rightarrow> bool" where
  "datetime_text_ok dt \<longleftrightarrow>
     (\<forall>d. is_utc d \<longrightarrow> fromisoformat dt (isoformat dt d) = Inr d \<and> is_ascii (isoformat dt d))"

definition to_utc :: "datetime \<Rightarrow> datetime" where
  "to_utc d = (case utc_offset d of
      Some off \<Rightarrow> d\<lparr>local_us := local_us d - off, utc_offset := Some 0\<rparr>
    | None \<Rightarrow> d)"

definition HEADER_FIELDS :: "string list" where
  "HEADER_FIELDS = [''causation_id'', ''correlation_id'', ''message_id'', ''occurred_at'']"

record envelope =
  message_id :: string
  correlation_id :: string
  causation_id :: string
  occurred_at :: datetime
  payload :: "(string, string) dict"

fun comma_join :: "string list \<Rightarrow> string" where
  "comma_join [] = []"
| "comma_join [x] = x"
| "comma_join (x # y # xs) = x @ '', '' @ comma_join (y # xs)"

text \<open>The constructor: \<^verbatim>\<open>__post_init__\<close> on the given field values.\<close>

definition new_envelope :: "datetime_text \<Rightarrow> string \<Rightarrow> string \<Rightarrow> string \<Rightarrow> datetime \<Rightarrow> (string, string) dict \<Rightarrow>
    exn + envelope" where
  "new_envelope dt mid corr caus at pl =
     (if utc_offset at = None
      then Inl (ValueError (''occurred_at must be timezone-aware (UTC); got naive '' @ repr_datetime dt at))
      else
        let collisions = filter (\<lambda>h. h \<in> set (dict_keys pl)) HEADER_FIELDS in
        if collisions \<noteq> []
        then Inl (ValueError (''payload keys collide with envelope headers: '' @ comma_join collisions))
        else Inr \<lparr>message_id = mid, correlation_id = (if corr = [] then mid else corr), causation_id = caus,
          occurred_at = to_utc at, payload = pl\<rparr>)"

definition envelope_to_fields :: "datetime_text \<Rightarrow> envelope \<Rightarrow> (string, string) dict" where
  "envelope_to_fields dt e = dict_merge
     [(''message_id'', message_id e), (''correlation_id'', correlation_id e), (''causation_id'', causation_id e),
      (''occurred_at'', isoformat dt (occurred_at e))] (payload e)"

datatype wire_text = Bytes string | Text string

fun decode :: "wire_text \<Rightarrow> exn + string" where
  "decode (Bytes b) = py_decode b"
| "decode (Text s) = Inr s"

text \<open>The comprehension: a key that decodes to one already there replaces its value.\<close>

fun decode_all :: "(wire_text \<times> wire_text) list \<Rightarrow> (string, string) dict \<Rightarrow> exn + (string, string) dict" where
  "decode_all [] d = Inr d"
| "decode_all ((k, v) # raw) d =
     bndr (decode k) (\<lambda>k'. bndr (decode v) (\<lambda>v'. decode_all raw (AList.update k' v' d)))"

definition envelope_from_fields :: "datetime_text \<Rightarrow> (wire_text \<times> wire_text) list \<Rightarrow> exn + envelope" where
  "envelope_from_fields dt raw =
     bndr (decode_all raw []) (\<lambda>decoded.
     bndr (bndr (dict_item decoded ''occurred_at'') (fromisoformat dt)) (\<lambda>at.
     bndr (dict_item decoded ''message_id'') (\<lambda>mid.
     bndr (dict_item decoded ''correlation_id'') (\<lambda>corr.
     bndr (dict_item decoded ''causation_id'') (\<lambda>caus.
     new_envelope dt mid corr caus at (filter (\<lambda>(k, v). k \<notin> set HEADER_FIELDS) decoded))))))"

subsection \<open>Well-formed envelopes\<close>

text \<open>What the constructor establishes, with a payload that is a dictionary.\<close>

definition envelope_ok :: "envelope \<Rightarrow> bool" where
  "envelope_ok e \<longleftrightarrow> is_utc (occurred_at e) \<and> set (dict_keys (payload e)) \<inter> set HEADER_FIELDS = {} \<and>
     (correlation_id e = [] \<longrightarrow> message_id e = []) \<and> distinct (dict_keys (payload e))"

lemma new_envelope_ok:
  "new_envelope dt mid corr caus at pl = Inr e \<Longrightarrow> distinct (dict_keys pl) \<Longrightarrow> envelope_ok e"
  by (auto simp: new_envelope_def envelope_ok_def Let_def filter_empty_conv to_utc_def is_utc_def
      split: if_splits option.splits) force+

lemma new_envelope_of_ok:
  assumes "envelope_ok e"
  shows "new_envelope dt (message_id e) (correlation_id e) (causation_id e) (occurred_at e) (payload e) = Inr e"
proof -
  have "filter (\<lambda>h. h \<in> set (dict_keys (payload e))) HEADER_FIELDS = []"
    using assms by (auto simp: envelope_ok_def filter_empty_conv)
  moreover have "to_utc (occurred_at e) = occurred_at e" "utc_offset (occurred_at e) = Some 0"
    using assms by (simp_all add: envelope_ok_def to_utc_def is_utc_def)
  ultimately show ?thesis using assms by (auto simp: new_envelope_def envelope_ok_def)
qed

lemma to_fields_eq:
  assumes "envelope_ok e"
  shows "envelope_to_fields dt e =
    [(''message_id'', message_id e), (''correlation_id'', correlation_id e), (''causation_id'', causation_id e),
     (''occurred_at'', isoformat dt (occurred_at e))] @ payload e"
  unfolding envelope_to_fields_def using assms
  by (intro dict_merge_fresh) (auto simp: envelope_ok_def HEADER_FIELDS_def)

lemma payload_filter:
  assumes "set (dict_keys pl) \<inter> set hs = {}"
  shows "filter (\<lambda>(k, v). k \<notin> set hs) pl = pl"
  using assms by (intro filter_True) (auto simp: image_iff)

lemma decode_all_merge:
  assumes "\<forall>(k, v) \<in> set d. decode (f k) = Inr k \<and> decode (f v) = Inr v"
  shows "decode_all (map (\<lambda>(k, v). (f k, f v)) d) acc = Inr (dict_merge acc d)"
  using assms
proof (induction d arbitrary: acc)
  case Nil
  then show ?case by simp
next
  case (Cons p d)
  then show ?case by (cases p) auto
qed

text \<open>Decoding a mapping that holds the envelope's fields, as text or as bytes.\<close>

lemma from_to_fields:
  assumes ok: "envelope_ok e" and dt: "datetime_text_ok dt"
    and f: "\<forall>(k, v) \<in> set (envelope_to_fields dt e). decode (f k) = Inr k \<and> decode (f v) = Inr v"
  shows "envelope_from_fields dt (map (\<lambda>(k, v). (f k, f v)) (envelope_to_fields dt e)) = Inr e"
proof -
  let ?d = "envelope_to_fields dt e"
  have "distinct (dict_keys ?d)"
    using ok by (auto simp: to_fields_eq [OF ok] envelope_ok_def HEADER_FIELDS_def)
  then have "decode_all (map (\<lambda>(k, v). (f k, f v)) ?d) [] = Inr ?d"
    using decode_all_merge [OF f, of "[]"] dict_merge_fresh [of ?d "[]"] by simp
  moreover have "filter (\<lambda>(k, v). k \<notin> set HEADER_FIELDS) ?d = payload e"
    using ok payload_filter [of "payload e" HEADER_FIELDS]
    by (simp add: to_fields_eq [OF ok] envelope_ok_def) (simp add: HEADER_FIELDS_def)
  moreover have "fromisoformat dt (isoformat dt (occurred_at e)) = Inr (occurred_at e)"
    using ok dt by (simp add: envelope_ok_def datetime_text_ok_def)
  ultimately show ?thesis using new_envelope_of_ok [OF ok]
    by (simp add: envelope_from_fields_def) (simp add: to_fields_eq [OF ok] dict_item_def)
qed

text \<open>A field that is not a header reads the same in the envelope's fields and in the payload's.\<close>

lemma dict_item_enveloped:
  assumes "envelope_ok e" and "k \<notin> set HEADER_FIELDS"
  shows "dict_item (envelope_to_fields dt e) k = dict_item (payload e) k"
  using assms(2) by (simp add: to_fields_eq [OF assms(1)] dict_item_def HEADER_FIELDS_def)

end
