(* ===== verification/Envelope_Properties.thy ===== *)
theory Envelope_Properties
  imports Envelope DLQ_Broker
begin

section \<open>Properties of the envelope\<close>

text \<open>Round trips through both wire forms, and that an enveloped payload still reads as itself.\<close>

definition demo_datetimes :: datetime_text where
  "demo_datetimes = \<lparr>isoformat = (\<lambda>d. py_str_int (local_us d)),
     fromisoformat = (\<lambda>s. bndr (py_int s) (\<lambda>n. Inr \<lparr>local_us = n, utc_offset = Some 0\<rparr>)),
     repr_datetime = (\<lambda>d. ''datetime'')\<rparr>"

lemma demo_datetimes_ok: "datetime_text_ok demo_datetimes"
  by (simp add: datetime_text_ok_def demo_datetimes_def is_utc_def)

text \<open>
  C28: an envelope survives the wire and is additive. Whatever the constructor accepts, \<open>from_fields\<close>
  rebuilds it from the fields as text, and from the fields as bytes when its texts are well formed; the
  payload's own decoder reads an enveloped payment as it reads the bare one.
\<close>

theorem envelope_roundtrip:
  assumes "new_envelope dt mid corr caus at pl = Inr e" and "distinct (dict_keys pl)" and "datetime_text_ok dt"
  shows "envelope_from_fields dt (map (\<lambda>(k, v). (Text k, Text v)) (envelope_to_fields dt e)) = Inr e \<and>
    ((\<forall>x \<in> {mid, corr, caus} \<union> fst ` set pl \<union> snd ` set pl. valid_utf8 x) \<longrightarrow>
      envelope_from_fields dt (map (\<lambda>(k, v). (Bytes k, Bytes v)) (envelope_to_fields dt e)) = Inr e) \<and>
    payment_from_fields (envelope_to_fields dt e) = payment_from_fields pl"
proof -
  have ok: "envelope_ok e" by (rule new_envelope_ok [OF assms(1,2)])
  have e: "payload e = pl" "message_id e = mid" "causation_id e = caus"
    "correlation_id e = (if corr = [] then mid else corr)"
    using assms(1) by (auto simp: new_envelope_def Let_def split: if_splits)
  have as_text: "envelope_from_fields dt (map (\<lambda>(k, v). (Text k, Text v)) (envelope_to_fields dt e)) = Inr e"
    by (rule from_to_fields [OF ok assms(3)]) auto
  have bytes: "envelope_from_fields dt (map (\<lambda>(k, v). (Bytes k, Bytes v)) (envelope_to_fields dt e)) = Inr e"
    if "\<forall>x \<in> {mid, corr, caus} \<union> fst ` set pl \<union> snd ` set pl. valid_utf8 x"
  proof (rule from_to_fields [OF ok assms(3)])
    have "valid_utf8 (isoformat dt (occurred_at e))"
      using ok assms(3) by (simp add: envelope_ok_def datetime_text_ok_def valid_utf8_ascii)
    then show "\<forall>(k, v) \<in> set (envelope_to_fields dt e). decode (Bytes k) = Inr k \<and> decode (Bytes v) = Inr v"
      using that e by (force simp: to_fields_eq [OF ok] py_decode_def valid_utf8_ascii)
  qed
  have "dict_item (envelope_to_fields dt e) k = dict_item pl k" if "k \<notin> set HEADER_FIELDS" for k
    using dict_item_enveloped [OF ok that] e(1) by simp
  then have "payment_from_fields (envelope_to_fields dt e) = payment_from_fields pl"
    by (simp add: payment_from_fields_def get_text_def HEADER_FIELDS_def)
  then show ?thesis using as_text bytes by blast
qed

theorem envelope_roundtrip_witness:
  "\<exists>e. new_envelope demo_datetimes ''m1'' '''' '''' \<lparr>local_us = 9, utc_offset = Some 2\<rparr>
       [(''payment_id'', ''P1''), (''amount_cents'', ''5''), (''customer_id'', ''C''), (''currency'', ''EUR'')] = Inr e \<and>
     correlation_id e = ''m1'' \<and> occurred_at e = \<lparr>local_us = 7, utc_offset = Some 0\<rparr> \<and>
     envelope_from_fields demo_datetimes (map (\<lambda>(k, v). (Text k, Text v)) (envelope_to_fields demo_datetimes e)) = Inr e"
proof -
  let ?pl = "[(''payment_id'', ''P1''), (''amount_cents'', ''5''), (''customer_id'', ''C''), (''currency'', ''EUR'')]"
  obtain e where e: "new_envelope demo_datetimes ''m1'' '''' '''' \<lparr>local_us = 9, utc_offset = Some 2\<rparr> ?pl = Inr e"
    "correlation_id e = ''m1''" "occurred_at e = \<lparr>local_us = 7, utc_offset = Some 0\<rparr>"
    by (simp add: new_envelope_def HEADER_FIELDS_def to_utc_def)
  then show ?thesis using envelope_roundtrip [OF e(1) _ demo_datetimes_ok] by (intro exI [of _ e]) simp
qed

end
