(* ===== verification/Bench.thy ===== *)
theory Bench
  imports PyJson
begin

section \<open>The benchmark harness\<close>

text \<open>
  \<^verbatim>\<open>bench.py\<close>: percentiles, the latency summary, windows, and a phase with its concurrent workers. A
  reading of \<^verbatim>\<open>now()\<close> is a rational (the clock is never \<^verbatim>\<open>nan\<close> or infinite), a difference of two
  readings is rounded as the float subtraction is. A worker runs without interruption from the end of
  one operation to the start of the next, so this stretch is one step (\<open>turn\<close>).
\<close>

subsection \<open>Floats in order\<close>

text \<open>
  An order on floats for the library's sorting. It agrees with \<open>fle\<close> on everything but \<^verbatim>\<open>nan\<close>, on which
  Python's \<^verbatim>\<open>sorted\<close> is not specified.
\<close>

fun float_key :: "pyfloat \<Rightarrow> nat \<times> rat" where
  "float_key NaN = (0, 0)"
| "float_key (Infinite pos) = (if pos then 3 else 1, 0)"
| "float_key (Finite q) = (2, q)"

lemma float_key_inj: "float_key x = float_key y \<Longrightarrow> x = y"
  by (cases x; cases y) (auto split: if_splits)

instantiation pyfloat :: linorder
begin

definition less_eq_pyfloat :: "pyfloat \<Rightarrow> pyfloat \<Rightarrow> bool" where
  "less_eq_pyfloat x y \<longleftrightarrow> fst (float_key x) < fst (float_key y) \<or>
     fst (float_key x) = fst (float_key y) \<and> snd (float_key x) \<le> snd (float_key y)"

definition less_pyfloat :: "pyfloat \<Rightarrow> pyfloat \<Rightarrow> bool" where
  "less_pyfloat x y \<longleftrightarrow> x \<le> y \<and> \<not> y \<le> (x :: pyfloat)"

instance
proof
  fix x y z :: pyfloat
  show "x < y \<longleftrightarrow> x \<le> y \<and> \<not> y \<le> x" by (simp add: less_pyfloat_def)
  show "x \<le> x" by (simp add: less_eq_pyfloat_def)
  show "x \<le> y \<Longrightarrow> y \<le> z \<Longrightarrow> x \<le> z" by (auto simp: less_eq_pyfloat_def)
  show "x \<le> y \<or> y \<le> x" by (auto simp: less_eq_pyfloat_def)
  assume "x \<le> y" "y \<le> x"
  then have "float_key x = float_key y" by (auto simp: less_eq_pyfloat_def prod_eq_iff)
  then show "x = y" by (rule float_key_inj)
qed

end

lemma less_eq_pyfloat_fle: "x \<noteq> NaN \<Longrightarrow> y \<noteq> NaN \<Longrightarrow> x \<le> y \<longleftrightarrow> fle x y"
  by (cases x; cases y) (auto simp: less_eq_pyfloat_def)

subsection \<open>Percentiles\<close>

definition float_ceil :: "pyfloat \<Rightarrow> exn + int" where
  "float_ceil x = (case x of
      NaN \<Rightarrow> Inl (ValueError ''cannot convert float NaN to integer'')
    | Infinite _ \<Rightarrow> Inl (OtherException ''OverflowError'' ''cannot convert float infinity to integer'')
    | Finite q \<Rightarrow> Inr \<lceil>q\<rceil>)"

text \<open>\<^verbatim>\<open>math.ceil(quantile / 100 * n)\<close>, the list index, and an index out of range.\<close>

definition rank_of :: "pyfloat \<Rightarrow> nat \<Rightarrow> exn + int" where
  "rank_of quantile n = bndr (div_int quantile 100) (\<lambda>x. float_ceil (mul_int x (int n)))"

definition percentile :: "float_text \<Rightarrow> pyfloat list \<Rightarrow> pyfloat \<Rightarrow> exn + pyfloat" where
  "percentile fl values quantile =
     (if values = [] then Inl (ValueError ''cannot take a percentile of an empty sequence'')
      else if \<not> (fle (Finite 0) quantile \<and> fle quantile (Finite 100))
      then Inl (ValueError (''quantile must be between 0 and 100, got '' @ show_float fl quantile))
      else
        let ordered = sort values in
        bndr (rank_of quantile (length ordered)) (\<lambda>rank.
        let i = nat (max (rank - 1) 0) in
        if i < length ordered then Inr (ordered ! i)
        else Inl (OtherException ''IndexError'' ''list index out of range'')))"

subsection \<open>The latency summary\<close>

fun float_add :: "pyfloat \<Rightarrow> pyfloat \<Rightarrow> pyfloat" where
  "float_add (Finite p) (Finite q) = round53 (p + q)"
| "float_add NaN _ = NaN"
| "float_add _ NaN = NaN"
| "float_add (Infinite pos) (Infinite pos') = (if pos = pos' then Infinite pos else NaN)"
| "float_add (Infinite pos) (Finite _) = Infinite pos"
| "float_add (Finite _) (Infinite pos) = Infinite pos"

fun float_neg :: "pyfloat \<Rightarrow> pyfloat" where
  "float_neg NaN = NaN"
| "float_neg (Infinite pos) = Infinite (\<not> pos)"
| "float_neg (Finite q) = Finite (- q)"

fun float_abs :: "pyfloat \<Rightarrow> pyfloat" where
  "float_abs NaN = NaN"
| "float_abs (Infinite _) = Infinite True"
| "float_abs (Finite q) = Finite \<bar>q\<bar>"

text \<open>\<^verbatim>\<open>sum\<close> of floats compensates the rounding error (Neumaier), since Python 3.12.\<close>

fun float_sum_from :: "pyfloat \<Rightarrow> pyfloat \<Rightarrow> pyfloat list \<Rightarrow> pyfloat" where
  "float_sum_from s c [] = (if c \<noteq> Finite 0 \<and> is_finite c then float_add s c else s)"
| "float_sum_from s c (x # xs) =
     (let t = float_add s x;
          lost = (if fle (float_abs x) (float_abs s)
                  then float_add (float_add s (float_neg t)) x
                  else float_add (float_add x (float_neg t)) s)
      in float_sum_from t (float_add c lost) xs)"

definition float_sum :: "pyfloat list \<Rightarrow> pyfloat" where
  "float_sum xs = float_sum_from (Finite 0) (Finite 0) xs"

record latency_summary =
  ls_count :: int
  min_ms :: pyfloat
  p50_ms :: pyfloat
  p95_ms :: pyfloat
  p99_ms :: pyfloat
  max_ms :: pyfloat
  mean_ms :: pyfloat

definition from_seconds :: "float_text \<Rightarrow> pyfloat list \<Rightarrow> exn + latency_summary" where
  "from_seconds fl latencies =
     (if latencies = [] then Inl (ValueError ''cannot summarise an empty latency sample'')
      else
        let ms = map (\<lambda>v. mul_int v 1000) latencies in
        bndr (percentile fl ms (Finite 50)) (\<lambda>p50.
        bndr (percentile fl ms (Finite 95)) (\<lambda>p95.
        bndr (percentile fl ms (Finite 99)) (\<lambda>p99.
        bndr (div_int (float_sum ms) (int (length ms))) (\<lambda>mean.
        Inr \<lparr>ls_count = int (length ms), min_ms = Min (set ms), p50_ms = p50, p95_ms = p95, p99_ms = p99,
          max_ms = Max (set ms), mean_ms = mean\<rparr>)))))"

text \<open>\<^verbatim>\<open>round(x, d)\<close>: the exact decimal, ties to even, read back as a float.\<close>

fun round_places :: "pyfloat \<Rightarrow> nat \<Rightarrow> pyfloat" where
  "round_places (Finite q) d = round53 (of_int (round_even (q * 10 ^ d)) / 10 ^ d)"
| "round_places x d = x"

definition summary_to_dict :: "latency_summary \<Rightarrow> (string, json) dict" where
  "summary_to_dict s =
     [(''count'', JInt (ls_count s)), (''min'', JFloat (round_places (min_ms s) 3)),
      (''p50'', JFloat (round_places (p50_ms s) 3)), (''p95'', JFloat (round_places (p95_ms s) 3)),
      (''p99'', JFloat (round_places (p99_ms s) 3)), (''max'', JFloat (round_places (max_ms s) 3)),
      (''mean'', JFloat (round_places (mean_ms s) 3))]"

subsection \<open>Windows\<close>

record window =
  ops :: "int option"
  seconds :: "pyfloat option"

definition new_window :: "float_text \<Rightarrow> int option \<Rightarrow> pyfloat option \<Rightarrow> exn + window" where
  "new_window fl n s = (case (n, s) of
      (Some _, Some _) \<Rightarrow> Inl (ValueError ''configure ops or seconds, not both'')
    | (None, None) \<Rightarrow> Inl (ValueError ''configure a window: ops=<n> or seconds=<s>'')
    | (Some k, None) \<Rightarrow>
        if k < 1 then Inl (ValueError (''ops must be a positive count, got '' @ py_str_int k))
        else Inr \<lparr>ops = n, seconds = s\<rparr>
    | (None, Some x) \<Rightarrow>
        if \<not> is_finite x \<or> fle x (Finite 0)
        then Inl (ValueError (''seconds must be finite and positive, got '' @ show_float fl x))
        else Inr \<lparr>ops = n, seconds = s\<rparr>)"

definition of_ops :: "float_text \<Rightarrow> int \<Rightarrow> exn + window" where
  "of_ops fl n = new_window fl (Some n) None"

definition of_seconds :: "float_text \<Rightarrow> pyfloat \<Rightarrow> exn + window" where
  "of_seconds fl s = new_window fl None (Some s)"

definition is_done :: "window \<Rightarrow> int \<Rightarrow> pyfloat \<Rightarrow> exn + bool" where
  "is_done w started elapsed = (case ops w of
      Some n \<Rightarrow> Inr (n \<le> started)
    | None \<Rightarrow> (case seconds w of Some s \<Rightarrow> Inr (fle s elapsed) | None \<Rightarrow> Inl AssertionError))"

definition describe_window :: "float_text \<Rightarrow> window \<Rightarrow> string" where
  "describe_window fl w = (case ops w of
      Some n \<Rightarrow> py_str_int n @ '' ops''
    | None \<Rightarrow> (case seconds w of Some s \<Rightarrow> show_float fl s | None \<Rightarrow> ''None'') @ ''s'')"

subsection \<open>A phase\<close>

text \<open>A worker has not begun, runs an operation it started at an instant, or has left its loop.\<close>

datatype worker = Fresh | Busy rat | Stopped

record phase =
  started :: int
  latencies :: "pyfloat list"
  workers :: "worker list"
  failed :: "exn option"

definition elapsed_between :: "rat \<Rightarrow> rat \<Rightarrow> pyfloat" where
  "elapsed_between later earlier = round53 (later - earlier)"

definition new_phase :: "nat \<Rightarrow> phase" where
  "new_phase concurrency = \<lparr>started = 0, latencies = [], workers = replicate concurrency Fresh, failed = None\<rparr>"

text \<open>The head of the worker's loop, with its readings for the window and for the operation's start.\<close>

definition admit :: "window \<Rightarrow> rat \<Rightarrow> nat \<Rightarrow> rat \<Rightarrow> rat \<Rightarrow> phase \<Rightarrow> phase" where
  "admit win started_at i t_check t_start s = (case is_done win (started s) (elapsed_between t_check started_at) of
      Inl e \<Rightarrow> s\<lparr>failed := Some e\<rparr>
    | Inr over \<Rightarrow> if over then s\<lparr>workers := (workers s)[i := Stopped]\<rparr>
        else s\<lparr>started := started s + 1, workers := (workers s)[i := Busy t_start]\<rparr>)"

text \<open>
  One turn of worker \<open>i\<close>: its operation ends at \<open>t_end\<close> with an outcome, then it is back at its loop's
  head. An operation that raises ends the phase, whatever the other workers do.
\<close>

record turn_event =
  who :: nat
  op_error :: "exn option"
  t_end :: rat
  t_check :: rat
  t_start :: rat

definition turn :: "window \<Rightarrow> rat \<Rightarrow> turn_event \<Rightarrow> phase \<Rightarrow> phase" where
  "turn win started_at ev s =
     (if failed s \<noteq> None \<or> length (workers s) \<le> who ev then s
      else case workers s ! who ev of
        Stopped \<Rightarrow> s
      | Fresh \<Rightarrow> admit win started_at (who ev) (t_check ev) (t_start ev) s
      | Busy t0 \<Rightarrow> (case op_error ev of
          Some e \<Rightarrow> s\<lparr>failed := Some e\<rparr>
        | None \<Rightarrow> admit win started_at (who ev) (t_check ev) (t_start ev)
            (s\<lparr>latencies := latencies s @ [elapsed_between (t_end ev) t0]\<rparr>)))"

definition phase_after :: "window \<Rightarrow> nat \<Rightarrow> rat \<Rightarrow> turn_event list \<Rightarrow> phase" where
  "phase_after win concurrency started_at evs = fold (turn win started_at) evs (new_phase concurrency)"

text \<open>What \<^verbatim>\<open>_run_phase\<close> returns or raises after these turns; \<open>None\<close> while workers are running.\<close>

definition run_phase :: "window \<Rightarrow> nat \<Rightarrow> rat \<Rightarrow> turn_event list \<Rightarrow> (exn + int \<times> pyfloat list) option" where
  "run_phase win concurrency started_at evs =
     (let s = phase_after win concurrency started_at evs in
      case failed s of
        Some e \<Rightarrow> Some (Inl e)
      | None \<Rightarrow> if list_all (\<lambda>w. w = Stopped) (workers s) then Some (Inr (started s, latencies s)) else None)"

subsection \<open>A bench run\<close>

record depth_sample =
  elapsed_s :: pyfloat
  depth :: int

datatype knob = KInt int | KFloat pyfloat | KStr string

record bench_result =
  br_name :: string
  knobs :: "(string, knob) dict"
  warmup_ops :: int
  br_ops :: int
  duration_s :: pyfloat
  throughput_ops_s :: pyfloat
  br_latency :: latency_summary
  latencies_s :: "pyfloat list"
  queue_depth :: "depth_sample list"
  extra :: "(string, json) dict"

text \<open>
  What happens around the code: the clock's readings, the workers' turns in the two phases, and the
  readings of the depth sampler, if there is one, with the final one apart.
\<close>

record bench_env =
  warm_start :: rat
  warm_turns :: "turn_event list"
  measure_start :: rat
  measure_turns :: "turn_event list"
  measure_end :: rat
  depth_readings :: "((rat \<times> int) list \<times> (rat \<times> int)) option"

text \<open>\<^verbatim>\<open>n / x\<close> for a positive \<open>x\<close>.\<close>

fun int_div_float :: "int \<Rightarrow> pyfloat \<Rightarrow> pyfloat" where
  "int_div_float n (Finite q) = round53 (of_int n / q)"
| "int_div_float n (Infinite _) = Finite 0"
| "int_div_float n NaN = NaN"

definition depth_series :: "bench_env \<Rightarrow> depth_sample list" where
  "depth_series env = (case depth_readings env of
      None \<Rightarrow> []
    | Some (during, final) \<Rightarrow> map (\<lambda>(t, d). \<lparr>elapsed_s = elapsed_between t (measure_start env), depth = d\<rparr>)
        (during @ [final]))"

definition bench_result_of :: "float_text \<Rightarrow> string \<Rightarrow> (string, knob) dict \<Rightarrow> int \<Rightarrow> int \<Rightarrow> pyfloat list \<Rightarrow> bench_env \<Rightarrow>
    exn + bench_result" where
  "bench_result_of fl name ks warm n lats env =
     (let duration = elapsed_between (measure_end env) (measure_start env) in
      bndr (from_seconds fl lats) (\<lambda>summary.
      Inr \<lparr>br_name = name, knobs = ks, warmup_ops = warm, br_ops = n, duration_s = duration,
        throughput_ops_s = (if fless (Finite 0) duration then int_div_float n duration else Finite 0),
        br_latency = summary, latencies_s = lats, queue_depth = depth_series env, extra = []\<rparr>))"

definition run_bench :: "float_text \<Rightarrow> string \<Rightarrow> window \<Rightarrow> window option \<Rightarrow> int \<Rightarrow> (string, knob) dict \<Rightarrow> bench_env \<Rightarrow>
    (exn + bench_result) option" where
  "run_bench fl name measured warmup concurrency ks env =
     (if concurrency < 1
      then Some (Inl (ValueError (''concurrency must be at least 1, got '' @ py_str_int concurrency)))
      else case (case warmup of
          None \<Rightarrow> Some (Inr (0, []))
        | Some w \<Rightarrow> run_phase w (nat concurrency) (warm_start env) (warm_turns env)) of
        None \<Rightarrow> None
      | Some (Inl e) \<Rightarrow> Some (Inl e)
      | Some (Inr (warm, _)) \<Rightarrow>
          (case run_phase measured (nat concurrency) (measure_start env) (measure_turns env) of
            None \<Rightarrow> None
          | Some (Inl e) \<Rightarrow> Some (Inl e)
          | Some (Inr (n, lats)) \<Rightarrow> Some (bench_result_of fl name ks warm n lats env)))"

subsection \<open>Reports\<close>

fun knob_json :: "knob \<Rightarrow> json" where
  "knob_json (KInt n) = JInt n"
| "knob_json (KFloat x) = JFloat x"
| "knob_json (KStr s) = JStr s"

fun knob_str :: "float_text \<Rightarrow> knob \<Rightarrow> string" where
  "knob_str fl (KInt n) = py_str_int n"
| "knob_str fl (KFloat x) = show_float fl x"
| "knob_str fl (KStr s) = s"

definition result_to_dict :: "bench_result \<Rightarrow> (string, json) dict" where
  "result_to_dict r =
     [(''name'', JStr (br_name r)), (''knobs'', JObj (map (\<lambda>(k, v). (k, knob_json v)) (knobs r))),
      (''warmup_ops'', JInt (warmup_ops r)), (''ops'', JInt (br_ops r)),
      (''duration_s'', JFloat (round_places (duration_s r) 4)),
      (''throughput_ops_s'', JFloat (round_places (throughput_ops_s r) 2)),
      (''latency_ms'', JObj (summary_to_dict (br_latency r))),
      (''queue_depth'', JList (map (\<lambda>d. JObj [(''elapsed_s'', JFloat (round_places (elapsed_s d) 4)),
         (''depth'', JInt (depth d))]) (queue_depth r))),
      (''extra'', JObj (extra r))]"

text \<open>\<^verbatim>\<open>re.sub(r"[^A-Za-z0-9.]+", "-", s).strip("-")\<close>: a run of other characters is one dash.\<close>

definition slug_char :: "char \<Rightarrow> bool" where
  "slug_char c \<longleftrightarrow> (65 \<le> code c \<and> code c \<le> 90) \<or> (97 \<le> code c \<and> code c \<le> 122) \<or> is_digit c \<or> c = CHR ''.''"

fun dash_runs :: "bool \<Rightarrow> string \<Rightarrow> string" where
  "dash_runs inside [] = []"
| "dash_runs inside (c # cs) =
     (if slug_char c then c # dash_runs False cs
      else if inside then dash_runs True cs else CHR ''-'' # dash_runs True cs)"

definition strip_dashes :: "string \<Rightarrow> string" where
  "strip_dashes s = rev (dropWhile (\<lambda>c. c = CHR ''-'') (rev (dropWhile (\<lambda>c. c = CHR ''-'') s)))"

definition clean :: "string \<Rightarrow> string" where
  "clean s = strip_dashes (dash_runs False s)"

definition slug :: "float_text \<Rightarrow> bench_result \<Rightarrow> string" where
  "slug fl r = join ''_'' (clean (br_name r) #
     map (\<lambda>(k, v). clean k @ ''-'' @ clean (knob_str fl v)) (knobs r))"

text \<open>\<^verbatim>\<open>_csv\<close> for cells that need no quotes; the cells here are numbers and the header's names.\<close>

definition csv_text :: "string list \<Rightarrow> string list list \<Rightarrow> string" where
  "csv_text header rows = concat (map (\<lambda>cells. join '','' cells @ [CHR 0x0A]) (header # rows))"

definition latency_csv :: "float_text \<Rightarrow> bench_result \<Rightarrow> string" where
  "latency_csv fl r = csv_text [''op'', ''latency_ms'']
     (map (\<lambda>(i, x). [py_str_int (int i), show_float fl (round_places (mul_int x 1000) 3)])
       (zip [1..<length (latencies_s r) + 1] (latencies_s r)))"

definition queue_depth_csv :: "float_text \<Rightarrow> bench_result \<Rightarrow> string" where
  "queue_depth_csv fl r = csv_text [''elapsed_s'', ''depth'']
     (map (\<lambda>d. [show_float fl (round_places (elapsed_s d) 4), py_str_int (depth d)]) (queue_depth r))"

end
