(* ===== verification/Bench_Floats.thy ===== *)
theory Bench_Floats
  imports Bench
begin

section \<open>Bounds of rounded ranks\<close>

text \<open>
  Rounding to a float never passes a machine-sized integer, so the rank \<open>percentile\<close> computes in floats
  stays within the sample. Also counting the elements of a sorted list around an index.
\<close>

lemma pow2_powi: "pow2 e = 2 powi e"
  by (simp add: pow2_def power_int_def field_simps)

lemma pow2_pos [simp]: "0 < pow2 e"
  by (simp add: pow2_powi)

lemma exponent_of_le:
  assumes "0 < q"
  shows "pow2 (exponent_of q) \<le> q"
proof -
  obtain n d where nd: "quotient_of q = (n, d)" by fastforce
  have d: "0 < d" "q = of_int n / of_int d"
    using quotient_of_denom_pos [OF nd] quotient_of_div [OF nd] by auto
  then have n: "0 < n" using assms by (simp add: zero_less_divide_iff)
  have "(2::int) ^ nat (bitlen n - 1) \<le> n" "d < 2 ^ nat (bitlen d)"
    using bitlen_bounds [OF n] bitlen_bounds [OF d(1)] by auto
  then have "of_int (2 ^ nat (bitlen n - 1)) \<le> (of_int n :: rat)" "of_int d \<le> (of_int (2 ^ nat (bitlen d)) :: rat)"
    using of_int_le_iff [where 'a = rat] less_imp_le by blast+
  then have "2 ^ nat (bitlen n - 1) / 2 ^ nat (bitlen d) \<le> q"
    using d n by (auto intro!: frac_le)
  moreover have "0 \<le> bitlen n - 1" using n by (simp add: bitlen_alt_def)
  then have "2 ^ nat (bitlen n - 1) / 2 ^ nat (bitlen d) = pow2 (bitlen n - 1 - bitlen d)"
    by (subst pow2_powi, subst power_int_diff) (simp_all add: power_int_def bitlen_nonneg)
  ultimately show ?thesis by (simp add: exponent_of_def nd Let_def algebra_simps)
qed

lemma round_even_le: "x \<le> of_int k \<Longrightarrow> round_even x \<le> k"
proof -
  assume x: "x \<le> of_int k"
  show ?thesis
  proof (cases "\<lfloor>x\<rfloor> = k")
    case True
    then have "x = of_int k" using x by (metis antisym of_int_floor_le)
    then show ?thesis by (simp add: round_even_def)
  next
    case False
    then have "\<lfloor>x\<rfloor> + 1 \<le> k" using x by (metis floor_mono floor_of_int order_le_less zless_imp_add1_zle)
    then show ?thesis by (simp add: round_even_def Let_def)
  qed
qed

lemma round_even_nonneg: "0 \<le> x \<Longrightarrow> 0 \<le> round_even x"
  by (simp add: round_even_def Let_def)

lemma round53_within:
  assumes "0 \<le> a" and "a \<le> of_int n" and "n < 2 ^ 53"
  shows "\<exists>v. round53 a = Finite v \<and> 0 \<le> v \<and> v \<le> of_int n"
proof (cases "a = 0")
  case True
  then show ?thesis using assms by (simp add: round53_def)
next
  case False
  let ?m = "max (exponent_of a - 52) (- 1074)"
  let ?u = "pow2 ?m"
  have n: "(of_int n :: rat) < 2 ^ 53" using assms(3) by (metis of_int_less_iff of_int_numeral of_int_power)
  have "pow2 (exponent_of a) \<le> a" using exponent_of_le [of a] assms(1) False by simp
  then have "(2::rat) powi (exponent_of a) < 2 powi 53" using assms(2) n by (simp add: pow2_powi)
  then have "exponent_of a < 53" by (metis power_int_increasing not_le one_le_numeral)
  then have m: "?m \<le> 0" by simp
  define k where "k = nat (- ?m)"
  have u: "?u = 1 / 2 ^ k" using m by (simp add: pow2_def k_def)
  have "a / ?u \<le> of_int (n * 2 ^ k)" using assms(2) by (simp add: u)
  then have "round_even (a / ?u) \<le> n * 2 ^ k" by (rule round_even_le)
  then have "of_int (round_even (a / ?u)) \<le> (of_int (n * 2 ^ k) :: rat)" by (simp only: of_int_le_iff)
  then have le: "of_int (round_even (a / ?u)) * ?u \<le> of_int n" by (simp add: u field_simps)
  have "0 \<le> round_even (a / ?u)" using assms(1) by (intro round_even_nonneg divide_nonneg_pos pow2_pos)
  then have "0 \<le> (of_int (round_even (a / ?u)) :: rat)" by (simp only: of_int_0_le_iff)
  then have ge: "0 \<le> of_int (round_even (a / ?u)) * ?u" by (intro mult_nonneg_nonneg less_imp_le [OF pow2_pos])
  have "of_int (round_even (a / ?u)) * ?u < pow2 1024"
    using le n by (simp add: pow2_def)
  then show ?thesis using assms(1) False le ge by (simp add: round53_def Let_def)
qed

lemma rank_of_bounds:
  assumes "fle (Finite 0) quantile" and "fle quantile (Finite 100)" and "int n < 2 ^ 53"
  shows "\<exists>rank. rank_of quantile n = Inr rank \<and> 0 \<le> rank \<and> rank \<le> int n"
proof -
  obtain q where q: "quantile = Finite q" "0 \<le> q" "q \<le> 100" using assms(1,2) by (cases quantile) auto
  obtain x where x: "round53 (q / 100) = Finite x" "0 \<le> x" "x \<le> 1"
    using round53_within [of "q / 100" 1] q by auto
  have "x * of_nat n \<le> of_int (int n)" using x(2,3) by (simp add: mult_left_le_one_le)
  then obtain y where y: "round53 (x * of_int (int n)) = Finite y" "0 \<le> y" "y \<le> of_int (int n)"
    using round53_within [of "x * of_int (int n)" "int n"] x assms(3) by auto
  then show ?thesis using q x by (simp add: rank_of_def float_ceil_def ceiling_le_iff)
qed

lemma sorted_nth_counts:
  fixes xs :: "'a::linorder list"
  assumes "sorted xs" and "i < length xs"
  shows "i < length (filter (\<lambda>y. y \<le> xs ! i) xs)" and "length (filter (\<lambda>y. y < xs ! i) xs) \<le> i"
proof -
  have xs: "xs = take (Suc i) xs @ drop (Suc i) xs" "xs = take i xs @ drop i xs" by simp_all
  have "\<forall>y \<in> set (take (Suc i) xs). y \<le> xs ! i"
    using assms by (auto simp: in_set_conv_nth intro!: sorted_nth_mono)
  then have "filter (\<lambda>y. y \<le> xs ! i) (take (Suc i) xs) = take (Suc i) xs" by (simp add: filter_id_conv)
  moreover have "length (filter (\<lambda>y. y \<le> xs ! i) xs) \<ge> length (filter (\<lambda>y. y \<le> xs ! i) (take (Suc i) xs))"
    by (subst (3) xs(1)) (simp del: append_take_drop_id)
  ultimately show "i < length (filter (\<lambda>y. y \<le> xs ! i) xs)" using assms(2) by simp
  have "\<forall>y \<in> set (drop i xs). \<not> y < xs ! i"
    using assms by (auto simp: in_set_conv_nth not_less intro!: sorted_nth_mono)
  then have "filter (\<lambda>y. y < xs ! i) (drop i xs) = []" by (simp add: filter_empty_conv)
  then have "length (filter (\<lambda>y. y < xs ! i) xs) = length (filter (\<lambda>y. y < xs ! i) (take i xs))"
    by (subst (2) xs(2)) (simp del: append_take_drop_id)
  also have "\<dots> \<le> i" using length_filter_le [of _ "take i xs"] assms(2) by (metis length_take min.absorb4)
  finally show "length (filter (\<lambda>y. y < xs ! i) xs) \<le> i" .
qed

lemma length_filter_sort: "length (filter P (sort xs)) = length (filter P xs)"
  by (simp add: filter_sort)

end
