(* ===== verification/Bench_Phase.thy ===== *)
theory Bench_Phase
  imports Bench
begin

section \<open>Workers under a count window\<close>

text \<open>
  The invariant of a phase whose window counts operations: every admitted operation is finished or in
  flight, never more are admitted than the window allows, and a worker only stops once that many were.
  A worker that has had more turns than the window has operations has stopped.
\<close>

definition busy :: "worker \<Rightarrow> bool" where
  "busy w \<longleftrightarrow> (case w of Busy _ \<Rightarrow> True | _ \<Rightarrow> False)"

lemma busy_simps [simp]: "busy (Busy t)" "\<not> busy Fresh" "\<not> busy Stopped"
  by (simp_all add: busy_def)

lemma length_filter_update:
  "i < length xs \<Longrightarrow> int (length (filter P (xs[i := x]))) =
    int (length (filter P xs)) - (if P (xs ! i) then 1 else 0) + (if P x then 1 else 0)"
proof (induction xs arbitrary: i)
  case Nil
  then show ?case by simp
next
  case (Cons y xs)
  show ?case
  proof (cases i)
    case 0
    then show ?thesis by simp
  next
    case (Suc j)
    then show ?thesis using Cons.IH [of j] Cons.prems by (auto split: if_splits)
  qed
qed

definition phase_ok :: "int \<Rightarrow> nat \<Rightarrow> phase \<Rightarrow> bool" where
  "phase_ok k n s \<longleftrightarrow> length (workers s) = n \<and>
     started s = int (length (latencies s)) + int (length (filter busy (workers s))) \<and> started s \<le> k \<and>
     (Stopped \<in> set (workers s) \<longrightarrow> started s = k)"

lemma new_phase_ok: "0 \<le> k \<Longrightarrow> phase_ok k n (new_phase n)"
  by (induction n) (auto simp: phase_ok_def new_phase_def)

lemma admit_ok:
  assumes "ops win = Some k" and "phase_ok k n s" and "i < n" and "\<not> busy (workers s ! i)"
  shows "phase_ok k n (admit win t0 i t1 t2 s)"
  using assms set_update_subset_insert [of "workers s" i Stopped] set_update_subset_insert [of "workers s" i "Busy t2"]
  by (auto simp: admit_def is_done_def phase_ok_def length_filter_update)

lemma turn_ok:
  assumes win: "ops win = Some k" and ok: "phase_ok k n s"
  shows "failed (turn win t0 ev s) = None \<longrightarrow> phase_ok k n (turn win t0 ev s)"
proof (cases "failed s \<noteq> None \<or> length (workers s) \<le> who ev")
  case True
  then have "turn win t0 ev s = s" unfolding turn_def by (rule if_P)
  then show ?thesis using ok by simp
next
  case False
  then have i: "who ev < n" using ok by (simp add: phase_ok_def)
  show ?thesis
  proof (cases "workers s ! who ev")
    case Fresh
    then show ?thesis using False admit_ok [OF win ok i] by (simp add: turn_def)
  next
    case (Busy t)
    show ?thesis
    proof (cases "op_error ev")
      case (Some e)
      then show ?thesis using False Busy by (simp add: turn_def)
    next
      case None
      let ?s = "s\<lparr>latencies := latencies s @ [elapsed_between (t_end ev) t]\<rparr>"
      have "turn win t0 ev s = admit win t0 (who ev) (t_check ev) (t_start ev) ?s"
        using False Busy None by (simp add: turn_def)
      moreover have "phase_ok k n (admit win t0 (who ev) (t_check ev) (t_start ev) ?s)"
        using ok i win Busy set_update_subset_insert [of "workers s" "who ev" Stopped]
          set_update_subset_insert [of "workers s" "who ev" "Busy (t_start ev)"]
        by (auto simp: admit_def is_done_def phase_ok_def length_filter_update)
      ultimately show ?thesis by simp
    qed
  next
    case Stopped
    then show ?thesis using False ok by (simp add: turn_def)
  qed
qed

lemma turn_failed_stays: "failed s \<noteq> None \<Longrightarrow> turn win t0 ev s = s"
  by (simp add: turn_def)

lemma fold_failed_stays: "failed s \<noteq> None \<Longrightarrow> fold (turn win t0) evs s = s"
  by (induction evs) (simp_all add: turn_failed_stays)

lemma phase_after_ok:
  assumes "ops win = Some k" and "0 \<le> k" and "failed (phase_after win n t0 evs) = None"
  shows "phase_ok k n (phase_after win n t0 evs)"
proof -
  have "failed (fold (turn win t0) evs s) = None \<Longrightarrow> phase_ok k n s \<Longrightarrow> phase_ok k n (fold (turn win t0) evs s)" for s
  proof (induction evs arbitrary: s)
    case Nil
    then show ?case by simp
  next
    case (Cons ev evs)
    then have "failed (turn win t0 ev s) = None" using fold_failed_stays [of "turn win t0 ev s"] by fastforce
    then show ?case using Cons.IH [of "turn win t0 ev s"] Cons.prems turn_ok [OF assms(1) Cons.prems(2), of t0 ev] by simp
  qed
  then show ?thesis using assms(3) new_phase_ok [OF assms(2)] by (simp add: phase_after_def)
qed

subsection \<open>Progress\<close>

lemma turn_progress:
  assumes "ops win = Some k" and "failed s = None" and "op_error ev = None" and "i < length (workers s)"
    and "workers s ! i = Stopped \<or> c \<le> started s"
  shows "failed (turn win t0 ev s) = None \<and> length (workers (turn win t0 ev s)) = length (workers s) \<and>
    (workers (turn win t0 ev s) ! i = Stopped \<or> (if who ev = i then c + 1 else c) \<le> started (turn win t0 ev s))"
  using assms
  by (cases "workers s ! who ev") (auto simp: turn_def admit_def is_done_def nth_list_update)

lemma fold_progress:
  assumes "ops win = Some k" and "failed s = None" and "\<forall>ev \<in> set evs. op_error ev = None" and "i < length (workers s)"
    and "workers s ! i = Stopped \<or> c \<le> started s"
  shows "failed (fold (turn win t0) evs s) = None \<and>
    (workers (fold (turn win t0) evs s) ! i = Stopped \<or>
     c + int (length (filter (\<lambda>ev. who ev = i) evs)) \<le> started (fold (turn win t0) evs s))"
  using assms
proof (induction evs arbitrary: s c)
  case Nil
  then show ?case by simp
next
  case (Cons ev evs)
  let ?s = "turn win t0 ev s" and ?c = "if who ev = i then c + 1 else c"
  have "failed ?s = None \<and> length (workers ?s) = length (workers s) \<and> (workers ?s ! i = Stopped \<or> ?c \<le> started ?s)"
    using turn_progress [of win k s ev i c t0] Cons.prems by simp
  then have "failed (fold (turn win t0) evs ?s) = None \<and> (workers (fold (turn win t0) evs ?s) ! i = Stopped \<or>
      ?c + int (length (filter (\<lambda>ev. who ev = i) evs)) \<le> started (fold (turn win t0) evs ?s))"
    using Cons.IH [of ?s ?c] Cons.prems by simp
  then show ?case by (simp add: add.assoc split: if_splits)
qed

lemma run_phase_result:
  assumes "ops win = Some k" and "0 \<le> k" and "0 < n" and "run_phase win n t0 evs = Some (Inr (m, lats))"
  shows "m = k \<and> int (length lats) = k"
proof -
  let ?s = "phase_after win n t0 evs"
  have s: "failed ?s = None" "list_all (\<lambda>w. w = Stopped) (workers ?s)" "m = started ?s" "lats = latencies ?s"
    using assms(4) by (auto simp: run_phase_def Let_def split: option.splits if_splits)
  have ok: "phase_ok k n ?s" by (rule phase_after_ok [OF assms(1,2) s(1)])
  have "filter busy (workers ?s) = []" using s(2) by (auto simp: filter_empty_conv list_all_iff)
  moreover have "workers ?s \<noteq> []" using ok assms(3) by (auto simp: phase_ok_def)
  then have "Stopped \<in> set (workers ?s)" using s(2) by (cases "workers ?s") auto
  ultimately show ?thesis using ok s(3,4) by (simp add: phase_ok_def)
qed

lemma run_phase_ends:
  assumes "ops win = Some k" and "0 \<le> k" and "\<forall>ev \<in> set evs. op_error ev = None"
    and "\<forall>i < n. k < int (length (filter (\<lambda>ev. who ev = i) evs))"
  shows "\<exists>m lats. run_phase win n t0 evs = Some (Inr (m, lats))"
proof -
  let ?s = "phase_after win n t0 evs"
  have new: "failed (new_phase n) = None" "length (workers (new_phase n)) = n" "started (new_phase n) = 0"
    by (simp_all add: new_phase_def)
  have step: "failed ?s = None \<and> (workers ?s ! i = Stopped \<or> int (length (filter (\<lambda>ev. who ev = i) evs)) \<le> started ?s)"
    if "i < n" for i
    using fold_progress [OF assms(1) new(1) assms(3), of i 0 t0] that new by (simp add: phase_after_def)
  have failed: "failed ?s = None"
  proof (cases n)
    case 0
    have "fold (turn win t0) evs s = s" if "workers s = []" for s
      using that by (induction evs arbitrary: s) (simp_all add: turn_def)
    then show ?thesis using new 0 by (simp add: phase_after_def)
  next
    case (Suc n')
    then show ?thesis using step [of 0] by simp
  qed
  then have ok: "phase_ok k n ?s" by (rule phase_after_ok [OF assms(1,2)])
  then have "workers ?s ! i = Stopped" if "i < n" for i
    using step [OF that] assms(4) that by (force simp: phase_ok_def)
  then have "list_all (\<lambda>w. w = Stopped) (workers ?s)" using ok by (auto simp: list_all_length phase_ok_def)
  then show ?thesis using failed by (simp add: run_phase_def Let_def)
qed

end
