(* ===== verification/Bench_Properties.thy ===== *)
theory Bench_Properties
  imports Bench_Floats Bench_Phase
begin

section \<open>Properties of the benchmark harness\<close>

text \<open>The percentile is a sample of its rank; a phase with a count window runs exactly its operations.\<close>

text \<open>
  C29: a percentile is a latency that was measured. For a quantile in range and a sample of any size a
  float counts exactly, the rank computed in floats never leaves the sample, so no index error is
  possible; the result is one of the values, at least rank of them are at most it and fewer than rank
  are smaller.
\<close>

theorem percentile_is_a_sample:
  assumes "values \<noteq> []" and "int (length values) < 2 ^ 53"
    and "fle (Finite 0) quantile" and "fle quantile (Finite 100)"
  shows "\<exists>x rank. percentile fl values quantile = Inr x \<and> rank_of quantile (length values) = Inr rank \<and>
    rank \<le> int (length values) \<and> x \<in> set values \<and>
    max rank 1 \<le> int (length (filter (\<lambda>v. v \<le> x) values)) \<and>
    int (length (filter (\<lambda>v. v < x) values)) < max rank 1"
proof -
  obtain rank where r: "rank_of quantile (length values) = Inr rank" "0 \<le> rank" "rank \<le> int (length values)"
    using rank_of_bounds [OF assms(3,4,2)] by blast
  let ?xs = "sort values"
  define i where "i = nat (max (rank - 1) 0)"
  have i: "i < length ?xs" using r assms(1) by (cases "values") (auto simp: i_def nat_less_iff max_def)
  have "percentile fl values quantile = Inr (?xs ! i)"
    using assms r i by (simp add: percentile_def Let_def i_def)
  moreover have "?xs ! i \<in> set values" using nth_mem [OF i] by simp
  moreover have "max rank 1 = int i + 1" by (simp add: i_def max_def)
  then have "max rank 1 \<le> int (length (filter (\<lambda>v. v \<le> ?xs ! i) values))"
    "int (length (filter (\<lambda>v. v < ?xs ! i) values)) < max rank 1"
    using sorted_nth_counts [OF sorted_sort i] by (simp_all add: length_filter_sort)
  ultimately show ?thesis using r by blast
qed

text \<open>
  The rank is not always \<open>\<lceil>q * n / 100\<rceil>\<close>: the quotient \<^verbatim>\<open>7 / 100\<close> is rounded up, so the seventh percentile
  of a hundred samples is the eighth smallest.
\<close>

lemma rounded_seven: "round53 (7 / 100) = Finite (1261007895663739 / 18014398509481984)"
  by code_simp

theorem percentile_rank_rounds_up: "rank_of (Finite 7) 100 = Inr 8 \<and> \<lceil>7 * 100 / (100 :: rat)\<rceil> = 7"
  by code_simp

theorem percentile_is_a_sample_witness:
  "\<forall>fl. \<exists>x. percentile fl [Finite 3, Finite 1, Finite 2] (Finite 50) = Inr x \<and> x \<in> {Finite 1, Finite 2, Finite 3}"
proof
  fix fl
  show "\<exists>x. percentile fl [Finite 3, Finite 1, Finite 2] (Finite 50) = Inr x \<and> x \<in> {Finite 1, Finite 2, Finite 3}"
    using percentile_is_a_sample [of "[Finite 3, Finite 1, Finite 2]" "Finite 50" fl] by auto
qed

text \<open>
  C30: a count window runs exactly its operations. However the concurrent workers interleave, no more
  operations are admitted than the window counts and at most \<open>concurrency\<close> are in flight; a phase that
  returns has admitted and measured exactly that many, and it does return once every worker has had one
  turn more than there are operations and none has failed.
\<close>

theorem bench_phase_runs_its_operations:
  assumes "of_ops fl k = Inr win" and "0 < n"
  shows "(\<forall>m lats. run_phase win n start evs = Some (Inr (m, lats)) \<longrightarrow> m = k \<and> int (length lats) = k) \<and>
    (let s = phase_after win n start evs in
     failed s = None \<longrightarrow> started s \<le> k \<and> started s - int (length (latencies s)) \<in> {0..int n}) \<and>
    ((\<forall>ev \<in> set evs. op_error ev = None) \<and> (\<forall>i < n. k < int (length (filter (\<lambda>ev. who ev = i) evs))) \<longrightarrow>
     (\<exists>lats. run_phase win n start evs = Some (Inr (k, lats))))"
proof -
  have win: "ops win = Some k" and k: "0 \<le> k" using assms(1) by (auto simp: of_ops_def new_window_def split: if_splits)
  have flight: "started s \<le> k \<and> started s - int (length (latencies s)) \<in> {0..int n}" if "phase_ok k n s" for s
    using that length_filter_le [of busy "workers s"] by (auto simp: phase_ok_def)
  show ?thesis
    using run_phase_result [OF win k assms(2)] run_phase_ends [OF win k] flight phase_after_ok [OF win k]
    unfolding Let_def by metis
qed

definition demo_turn :: "nat \<Rightarrow> turn_event" where
  "demo_turn i = \<lparr>who = i, op_error = None, t_end = 2, t_check = 2, t_start = 3\<rparr>"

theorem bench_phase_runs_its_operations_witness:
  "\<exists>lats. run_phase \<lparr>ops = Some 2, seconds = None\<rparr> 2 0
      (map demo_turn [0, 1, 0, 1, 0, 1]) = Some (Inr (2, lats))"
  using bench_phase_runs_its_operations [where fl = fl and k = 2 and win = "\<lparr>ops = Some 2, seconds = None\<rparr>" and n = 2
      and start = 0 and evs = "map demo_turn [0, 1, 0, 1, 0, 1]"]
  by (simp add: of_ops_def new_window_def demo_turn_def less_2_cases_iff)

end
