(* ===== verification/Json_Loads.thy ===== *)
theory Json_Loads
  imports PyJson
begin

section \<open>Reading JSON: \<^verbatim>\<open>json.loads\<close> on an object of texts and numbers\<close>

text \<open>
  The reader for what the repository reads back: an object whose values are strings or numbers. A string
  is read to its UTF-8 bytes, its escapes through code points. A nested value, an array, a literal other
  than \<^verbatim>\<open>NaN\<close> and \<^verbatim>\<open>Infinity\<close>, and an escaped lone surrogate are outside the model: they are errors here.
\<close>

subsection \<open>Code points as UTF-8\<close>

definition utf8_char :: "nat \<Rightarrow> string" where
  "utf8_char p =
     (if p < 128 then [char_of p]
      else if p < 2048 then [char_of (192 + p div 64), char_of (128 + p mod 64)]
      else if p < 65536
      then [char_of (224 + p div 4096), char_of (128 + p div 64 mod 64), char_of (128 + p mod 64)]
      else [char_of (240 + p div 262144), char_of (128 + p div 4096 mod 64), char_of (128 + p div 64 mod 64),
        char_of (128 + p mod 64)])"

subsection \<open>Strings\<close>

definition hex_value :: "char \<Rightarrow> nat option" where
  "hex_value c = (if is_digit c then Some (code c - 48)
     else if 97 \<le> code c \<and> code c \<le> 102 then Some (code c - 87)
     else if 65 \<le> code c \<and> code c \<le> 70 then Some (code c - 55)
     else None)"

fun take_hex :: "nat \<Rightarrow> nat \<Rightarrow> string \<Rightarrow> (nat \<times> string) option" where
  "take_hex 0 acc s = Some (acc, s)"
| "take_hex (Suc n) acc [] = None"
| "take_hex (Suc n) acc (c # s) = (case hex_value c of None \<Rightarrow> None | Some d \<Rightarrow> take_hex n (acc * 16 + d) s)"

lemma take_hex_length: "take_hex n acc s = Some (p, r) \<Longrightarrow> length r \<le> length s"
  by (induction n acc s rule: take_hex.induct) (fastforce split: option.splits)+

text \<open>One character after a backslash: the bytes it stands for and the rest.\<close>

definition take_escape :: "string \<Rightarrow> (string \<times> string) option" where
  "take_escape s = (case s of
      [] \<Rightarrow> None
    | e # r \<Rightarrow>
        if e = quote_mark \<or> e = backslash \<or> e = CHR ''/'' then Some ([e], r)
        else if e = CHR ''n'' then Some ([CHR 0x0A], r)
        else if e = CHR ''r'' then Some ([CHR 0x0D], r)
        else if e = CHR ''t'' then Some ([CHR 0x09], r)
        else if e = CHR ''b'' then Some ([CHR 0x08], r)
        else if e = CHR ''f'' then Some ([CHR 0x0C], r)
        else if e = CHR ''u'' then
          (case take_hex 4 0 r of
             None \<Rightarrow> None
           | Some (p, r1) \<Rightarrow>
               if p < 55296 \<or> 57343 < p then Some (utf8_char p, r1)
               else if 56319 < p then None
               else (case r1 of
                   b # u # r2 \<Rightarrow>
                     if b = backslash \<and> u = CHR ''u'' then
                       (case take_hex 4 0 r2 of
                          None \<Rightarrow> None
                        | Some (q, r3) \<Rightarrow>
                            if 56320 \<le> q \<and> q \<le> 57343
                            then Some (utf8_char (65536 + (p - 55296) * 1024 + (q - 56320)), r3)
                            else None)
                     else None
                 | _ \<Rightarrow> None))
        else None)"

lemma take_escape_length: "take_escape s = Some (bs, r) \<Longrightarrow> length r < length s"
  by (auto simp: take_escape_def less_Suc_eq_le dest!: take_hex_length split: list.splits if_splits option.splits)

text \<open>The characters after the opening quote, up to the closing one.\<close>

function scan_str :: "string \<Rightarrow> (string \<times> string) option" where
  "scan_str [] = None"
| "scan_str (c # s) =
     (if c = quote_mark then Some ([], s)
      else if c = backslash then
        (case take_escape s of None \<Rightarrow> None | Some (bs, r) \<Rightarrow>
           (case scan_str r of None \<Rightarrow> None | Some (t, r') \<Rightarrow> Some (bs @ t, r')))
      else if code c < 32 then None
      else (case scan_str s of None \<Rightarrow> None | Some (t, r') \<Rightarrow> Some (c # t, r')))"
  by pat_completeness auto
termination
  by (relation "measure length") (auto dest!: take_escape_length)

declare scan_str.simps [simp del]

subsection \<open>Numbers\<close>

definition span :: "('a \<Rightarrow> bool) \<Rightarrow> 'a list \<Rightarrow> 'a list \<times> 'a list" where
  "span P s = (takeWhile P s, dropWhile P s)"

text \<open>\<^verbatim>\<open>-?(0|[1-9]\d*)\<close>, \<^verbatim>\<open>(\.\d+)?\<close> and \<^verbatim>\<open>([eE][-+]?\d+)?\<close>: what matches and the rest.\<close>

definition scan_whole :: "string \<Rightarrow> (string \<times> string) option" where
  "scan_whole s =
     (let (sign, r) = (case s of c # r \<Rightarrow> if c = CHR ''-'' then ([c], r) else ([], s) | [] \<Rightarrow> ([], s)) in
      case r of
        [] \<Rightarrow> None
      | c # r' \<Rightarrow>
          if c = CHR ''0'' then Some (sign @ [c], r')
          else if is_digit c then (let (ds, r'') = span is_digit r' in Some (sign @ c # ds, r''))
          else None)"

definition scan_fraction :: "string \<Rightarrow> string \<times> string" where
  "scan_fraction s = (case s of
      [] \<Rightarrow> ([], s)
    | c # r \<Rightarrow> if c = CHR ''.'' then (let (ds, r') = span is_digit r in if ds = [] then ([], s) else (c # ds, r'))
        else ([], s))"

definition scan_exponent :: "string \<Rightarrow> string \<times> string" where
  "scan_exponent s = (case s of
      [] \<Rightarrow> ([], s)
    | c # r \<Rightarrow>
        if c = CHR ''e'' \<or> c = CHR ''E'' then
          (let (sign, r1) = (case r of d # r' \<Rightarrow> if d = CHR ''-'' \<or> d = CHR ''+'' then ([d], r') else ([], r)
                 | [] \<Rightarrow> ([], r));
               (ds, r2) = span is_digit r1
           in if ds = [] then ([], s) else (c # sign @ ds, r2))
        else ([], s))"

definition scan_number :: "string \<Rightarrow> (string \<times> bool \<times> string) option" where
  "scan_number s = (case scan_whole s of
      None \<Rightarrow> None
    | Some (w, r) \<Rightarrow>
        (let (f, r1) = scan_fraction r; (e, r2) = scan_exponent r1
         in Some (w @ f @ e, f \<noteq> [] \<or> e \<noteq> [], r2)))"

subsection \<open>Objects\<close>

definition is_ws :: "char \<Rightarrow> bool" where
  "is_ws c \<longleftrightarrow> c = CHR '' '' \<or> c = CHR 0x09 \<or> c = CHR 0x0A \<or> c = CHR 0x0D"

definition skip_ws :: "string \<Rightarrow> string" where
  "skip_ws s = dropWhile is_ws s"

fun strip_prefix :: "string \<Rightarrow> string \<Rightarrow> string option" where
  "strip_prefix [] s = Some s"
| "strip_prefix (c # p) [] = None"
| "strip_prefix (c # p) (d # s) = (if c = d then strip_prefix p s else None)"

definition scan_number_value :: "float_text \<Rightarrow> string \<Rightarrow> (json \<times> string) option" where
  "scan_number_value fl s = (case scan_number s of
      None \<Rightarrow> None
    | Some (t, is_float, r) \<Rightarrow>
        if is_float then (case parse_float fl t of Inl _ \<Rightarrow> None | Inr x \<Rightarrow> Some (JFloat x, r))
        else (case py_int t of Inl _ \<Rightarrow> None | Inr i \<Rightarrow> Some (JInt i, r)))"

definition scan_value :: "float_text \<Rightarrow> string \<Rightarrow> (json \<times> string) option" where
  "scan_value fl s = (case s of
      [] \<Rightarrow> None
    | c # r \<Rightarrow>
        if c = quote_mark then map_option (\<lambda>(t, r'). (JStr t, r')) (scan_str r)
        else (case strip_prefix ''NaN'' s of Some r' \<Rightarrow> Some (JFloat NaN, r')
          | None \<Rightarrow> (case strip_prefix ''Infinity'' s of Some r' \<Rightarrow> Some (JFloat (Infinite True), r')
          | None \<Rightarrow> (case strip_prefix ''-Infinity'' s of Some r' \<Rightarrow> Some (JFloat (Infinite False), r')
          | None \<Rightarrow> scan_number_value fl s))))"

text \<open>One pair, from its key's opening quote.\<close>

definition scan_pair :: "float_text \<Rightarrow> string \<Rightarrow> ((string \<times> json) \<times> string) option" where
  "scan_pair fl s = (case s of
      [] \<Rightarrow> None
    | c # r \<Rightarrow> if c \<noteq> quote_mark then None else
        (case scan_str r of None \<Rightarrow> None | Some (k, r1) \<Rightarrow>
        (case skip_ws r1 of [] \<Rightarrow> None | d # r2 \<Rightarrow> if d \<noteq> CHR '':'' then None else
        (case scan_value fl (skip_ws r2) of None \<Rightarrow> None | Some (v, r3) \<Rightarrow> Some ((k, v), skip_ws r3)))))"

text \<open>The pairs up to the closing brace; a later pair with the same key replaces the value.\<close>

fun scan_pairs :: "nat \<Rightarrow> float_text \<Rightarrow> (string, json) dict \<Rightarrow> string \<Rightarrow> ((string, json) dict \<times> string) option" where
  "scan_pairs 0 fl d s = None"
| "scan_pairs (Suc n) fl d s = (case scan_pair fl s of
      None \<Rightarrow> None
    | Some ((k, v), r) \<Rightarrow>
        (let d' = AList.update k v d in
         case r of
           [] \<Rightarrow> None
         | c # r' \<Rightarrow> if c = CHR ''}'' then Some (d', r')
             else if c = CHR '','' then scan_pairs n fl d' (skip_ws r')
             else None))"

definition json_error :: exn where
  "json_error = OtherException ''JSONDecodeError'' ''invalid JSON''"

definition json_loads :: "float_text \<Rightarrow> string \<Rightarrow> exn + (string, json) dict" where
  "json_loads fl s = (case skip_ws s of
      [] \<Rightarrow> Inl json_error
    | c # r \<Rightarrow>
        if c \<noteq> CHR ''{'' then Inl json_error
        else (case (case skip_ws r of
              [] \<Rightarrow> None
            | d # r' \<Rightarrow> if d = CHR ''}'' then Some ([], r') else scan_pairs (length s) fl [] (d # r')) of
          None \<Rightarrow> Inl json_error
        | Some (kvs, rest) \<Rightarrow> if skip_ws rest = [] then Inr kvs else Inl json_error))"

end
