(* ===== verification/Json_Roundtrip.thy ===== *)
theory Json_Roundtrip
  imports Json_Loads
begin

section \<open>What \<^verbatim>\<open>json.dumps\<close> writes, \<^verbatim>\<open>json.loads\<close> reads\<close>

text \<open>
  The round trip for an object of texts, integers and floats, in steps: code points and UTF-8, one
  escape, a whole string, a number, a pair, the object.
\<close>

subsection \<open>Code points\<close>

definition scalar_value :: "nat \<Rightarrow> bool" where
  "scalar_value p \<longleftrightarrow> p < 1114112 \<and> \<not> (55296 \<le> p \<and> p \<le> 57343)"

lemma mod_block: "k * m \<le> n \<Longrightarrow> n < k * m + m \<Longrightarrow> n = k * m + n mod m" for n :: nat
proof -
  assume "k * m \<le> n" "n < k * m + m"
  then obtain j where "n = k * m + j" "j < m" by (metis add_less_cancel_left le_Suc_ex)
  then show ?thesis by simp
qed

lemma div_64_64: "n div 4096 = n div 64 div 64" "n div 262144 = n div 64 div 64 div 64" for n :: nat
  by (simp_all add: div_mult2_eq [symmetric])

lemma base64_digits:
  fixes a b c d :: nat
  assumes "b < 64" and "c < 64" and "d < 64"
  shows "(a * 4096 + c * 64 + d) div 4096 = a" "(a * 4096 + c * 64 + d) div 64 mod 64 = c"
    "(a * 4096 + c * 64 + d) mod 64 = d"
    and "(a * 262144 + b * 4096 + c * 64 + d) div 262144 = a" "(a * 262144 + b * 4096 + c * 64 + d) div 4096 mod 64 = b"
    "(a * 262144 + b * 4096 + c * 64 + d) div 64 mod 64 = c" "(a * 262144 + b * 4096 + c * 64 + d) mod 64 = d"
proof -
  have three: "a * 4096 + c * 64 + d = (a * 64 + c) * 64 + d" by simp
  have four: "a * 262144 + b * 4096 + c * 64 + d = ((a * 64 + b) * 64 + c) * 64 + d" by simp
  have dm: "(x * 64 + y) div 64 = x" "(x * 64 + y) mod 64 = y" if "y < 64" for x y :: nat using that by simp_all
  show "(a * 4096 + c * 64 + d) div 4096 = a" "(a * 4096 + c * 64 + d) div 64 mod 64 = c"
    "(a * 4096 + c * 64 + d) mod 64 = d"
    by (simp_all only: three div_64_64 dm assms)
  show "(a * 262144 + b * 4096 + c * 64 + d) div 262144 = a" "(a * 262144 + b * 4096 + c * 64 + d) div 4096 mod 64 = b"
    "(a * 262144 + b * 4096 + c * 64 + d) div 64 mod 64 = c" "(a * 262144 + b * 4096 + c * 64 + d) mod 64 = d"
    by (simp_all only: four div_64_64 dm assms)
qed

lemma cont_byte_code: "cont_byte b \<Longrightarrow> code b = 128 + code b mod 64"
  using mod_block [of 2 64 "code b"] by (simp add: cont_byte_def)

lemma char_of_code: "code c = n \<Longrightarrow> char_of n = c"
  by (metis char_of_char)

text \<open>The three multi-byte forms: the code point, its range, and that it encodes to these bytes.\<close>

lemma two_bytes:
  assumes "194 \<le> code a" "code a \<le> 223" "cont_byte b"
  defines "p \<equiv> (code a mod 32) * 64 + code b mod 64"
  shows "utf8_char p = [a, b]" and "scalar_value p"
proof -
  have a: "code a = 192 + code a mod 32" using mod_block [of 6 32 "code a"] assms(1,2) by simp
  note b = cont_byte_code [OF assms(3)]
  have "2 \<le> code a mod 32" "code a mod 32 < 32" "code b mod 64 < 64" using assms(1) a by simp_all
  then have r: "128 \<le> p" "p < 2048" unfolding p_def by linarith+
  show "scalar_value p" using r by (simp add: scalar_value_def)
  have "p div 64 = code a mod 32" "p mod 64 = code b mod 64" unfolding p_def by simp_all
  then show "utf8_char p = [a, b]" using r a b by (simp add: utf8_char_def char_of_code)
qed

lemma three_bytes:
  assumes "224 \<le> code a" "code a \<le> 239" "second_of_three a b" "cont_byte c"
  defines "p \<equiv> (code a mod 16) * 4096 + (code b mod 64) * 64 + code c mod 64"
  shows "utf8_char p = [a, b, c]" and "scalar_value p"
proof -
  have a: "code a = 224 + code a mod 16" using mod_block [of 14 16 "code a"] assms(1,2) by simp
  have "cont_byte b" using assms(3) by (simp add: second_of_three_def)
  note b = cont_byte_code [OF this] and c = cont_byte_code [OF assms(4)]
  have low: "code a = 224 \<longrightarrow> 32 \<le> code b mod 64" and high: "code a = 237 \<longrightarrow> code b mod 64 < 32"
    using assms(3) b by (auto simp: second_of_three_def)
  define x y z where "x = code a mod 16" and "y = code b mod 64" and "z = code c mod 64"
  have xyz: "x < 16" "y < 64" "z < 64" "x = 0 \<longrightarrow> 32 \<le> y" "x = 13 \<longrightarrow> y < 32"
    using a low high by (auto simp: x_def y_def z_def)
  have p: "p = x * 4096 + y * 64 + z" by (simp add: p_def x_def y_def z_def)
  have r: "2048 \<le> p" "p < 65536" using xyz unfolding p by (cases "x = 0"; linarith)+
  have "\<not> (55296 \<le> p \<and> p \<le> 57343)" using xyz unfolding p by (cases "x = 13"; cases "x < 13") linarith+
  then show "scalar_value p" using r by (simp add: scalar_value_def)
  show "utf8_char p = [a, b, c]"
    using r base64_digits(1-3) [OF xyz(2,2,3), of x] a b c
    by (simp add: utf8_char_def p x_def [symmetric] y_def [symmetric] z_def [symmetric] char_of_code)
qed

lemma four_bytes:
  assumes "240 \<le> code a" "code a \<le> 244" "second_of_four a b" "cont_byte c" "cont_byte d"
  defines "p \<equiv> (code a mod 8) * 262144 + (code b mod 64) * 4096 + (code c mod 64) * 64 + code d mod 64"
  shows "utf8_char p = [a, b, c, d]" and "scalar_value p"
proof -
  have a: "code a = 240 + code a mod 8" using mod_block [of 30 8 "code a"] assms(1,2) by simp
  have "cont_byte b" using assms(3) by (simp add: second_of_four_def)
  note b = cont_byte_code [OF this] and c = cont_byte_code [OF assms(4)] and d = cont_byte_code [OF assms(5)]
  have low: "code a = 240 \<longrightarrow> 16 \<le> code b mod 64" and high: "code a = 244 \<longrightarrow> code b mod 64 < 16"
    using assms(3) b by (auto simp: second_of_four_def)
  define x y z u where "x = code a mod 8" and "y = code b mod 64" and "z = code c mod 64" and "u = code d mod 64"
  have xyz: "x \<le> 4" "y < 64" "z < 64" "u < 64" "x = 0 \<longrightarrow> 16 \<le> y" "x = 4 \<longrightarrow> y < 16"
    using a low high assms(2) by (auto simp: x_def y_def z_def u_def)
  have p: "p = x * 262144 + y * 4096 + z * 64 + u" by (simp add: p_def x_def y_def z_def u_def)
  have r: "65536 \<le> p" "p < 1114112" using xyz unfolding p by (cases "x = 0"; cases "x = 4"; linarith)+
  then show "scalar_value p" by (simp add: scalar_value_def)
  show "utf8_char p = [a, b, c, d]"
    using r base64_digits(4-7) [OF xyz(2,3,4), of x] a b c d
    by (simp add: utf8_char_def p x_def [symmetric] y_def [symmetric] z_def [symmetric] u_def [symmetric] char_of_code)
qed

lemma utf8_points_roundtrip:
  "valid_utf8 s \<Longrightarrow> concat (map utf8_char (utf8_points s)) = s \<and> list_all scalar_value (utf8_points s)"
proof (induction s rule: utf8_points.induct)
  case 1
  then show ?case by simp
next
  case (2 a s)
  show ?case
  proof (cases "code a < 128")
    case True
    then show ?thesis using "2.IH"(1) "2.prems" by (simp add: utf8_char_def scalar_value_def)
  next
    case high: False
    then obtain b s1 where s: "s = b # s1" using "2.prems" by (cases s) simp_all
    show ?thesis
    proof (cases "194 \<le> code a \<and> code a \<le> 223")
      case True
      then have "cont_byte b" "valid_utf8 s1" using "2.prems" high by (simp_all add: s)
      then show ?thesis using "2.IH"(2) [OF high s] two_bytes [of a b] True high by (simp add: s)
    next
      case not_two: False
      then obtain c s2 where s1: "s1 = c # s2" using "2.prems" high by (cases s1) (simp_all add: s split: if_splits)
      show ?thesis
      proof (cases "224 \<le> code a \<and> code a \<le> 239")
        case True
        then have "second_of_three a b" "cont_byte c" "valid_utf8 s2" using "2.prems" high not_two by (simp_all add: s s1)
        moreover have "\<not> code a \<le> 223" using True by linarith
        ultimately show ?thesis
          using "2.IH"(3) [OF high s _ s1] three_bytes [of a b c] True high by (simp add: s s1)
      next
        case not_three: False
        then obtain d s3 where s2: "s2 = d # s3" using "2.prems" high not_two by (cases s2) (simp_all add: s s1 split: if_splits)
        have v: "240 \<le> code a" "code a \<le> 244" "second_of_four a b" "cont_byte c" "cont_byte d" "valid_utf8 s3"
          using "2.prems" high not_two not_three by (simp_all add: s s1 s2)
        moreover have "\<not> code a \<le> 223" "\<not> code a \<le> 239" using v(1) by linarith+
        ultimately show ?thesis
          using "2.IH"(4) [OF high s _ s1 _ s2] four_bytes [of a b c d] high by (simp add: s s1 s2)
      qed
    qed
  qed
qed

subsection \<open>One escape\<close>

lemma hex_digit_value: "d < 16 \<Longrightarrow> hex_value (hex_digit d) = Some d"
  by (simp add: hex_value_def hex_digit_def is_digit_def)

lemma take_hex4: "p < 65536 \<Longrightarrow> take_hex 4 0 (hex4 p @ rest) = Some (p, rest)"
proof -
  assume p: "p < 65536"
  have q: "p div 4096 < 16" using p by (simp add: less_mult_imp_div_less)
  have "((p div 4096 * 16 + p div 256 mod 16) * 16 + p div 16 mod 16) * 16 + p mod 16 = p"
  proof -
    have "p div 4096 * 16 + p div 256 mod 16 = p div 256"
      using div_mult_mod_eq [of "p div 256" 16] by (simp add: div_mult2_eq [symmetric])
    moreover have "p div 256 * 16 + p div 16 mod 16 = p div 16"
      using div_mult_mod_eq [of "p div 16" 16] by (simp add: div_mult2_eq [symmetric])
    ultimately show ?thesis by simp
  qed
  moreover have "take_hex (Suc (Suc (Suc (Suc 0)))) 0 (hex_digit a # hex_digit b # hex_digit c # hex_digit d # rest) =
      Some (((a * 16 + b) * 16 + c) * 16 + d, rest)" if "a < 16" "b < 16" "c < 16" "d < 16" for a b c d
    using that by (simp add: hex_digit_value)
  moreover have "p div 256 mod 16 < 16" "p div 16 mod 16 < 16" "p mod 16 < 16" by simp_all
  moreover have "(4::nat) = Suc (Suc (Suc (Suc 0)))" by simp
  moreover have "hex4 p = [hex_digit (p div 4096), hex_digit (p div 256 mod 16), hex_digit (p div 16 mod 16),
      hex_digit (p mod 16)]" using q by (simp add: hex4_def)
  ultimately show ?thesis using q by (metis append_Cons append_Nil)
qed

lemma scan_str_escape:
  assumes "take_escape (e @ rest) = Some (bs, rest)"
  shows "scan_str (backslash # e @ rest) = map_option (\<lambda>(t, r). (bs @ t, r)) (scan_str rest)"
  using assms by (auto simp: scan_str.simps backslash_def quote_mark_def split: option.splits)

lemma scan_str_plain:
  assumes "c \<noteq> quote_mark" and "c \<noteq> backslash" and "32 \<le> code c"
  shows "scan_str (c # rest) = map_option (\<lambda>(t, r). (c # t, r)) (scan_str rest)"
  using assms by (auto simp: scan_str.simps split: option.splits)

lemma take_escape_u:
  assumes "p < 65536" and "scalar_value p"
  shows "take_escape ((CHR ''u'' # hex4 p) @ rest) = Some (utf8_char p, rest)"
  using assms take_hex4 [OF assms(1), of rest]
  by (auto simp: take_escape_def quote_mark_def backslash_def scalar_value_def)

lemma take_escape_pair:
  assumes "65536 \<le> p" and "p < 1114112"
  shows "take_escape ((CHR ''u'' # hex4 (55296 + (p - 65536) div 1024) @ backslash # CHR ''u'' #
    hex4 (56320 + (p - 65536) mod 1024)) @ rest) = Some (utf8_char p, rest)"
proof -
  define h l where "h = (p - 65536) div 1024" and "l = (p - 65536) mod 1024"
  have h: "h < 1024" using assms by (simp add: h_def less_mult_imp_div_less)
  have l: "l < 1024" by (simp add: l_def)
  have p: "65536 + (h * 1024 + l) = p" using assms(1) by (simp add: h_def l_def)
  have "take_hex 4 0 (hex4 (55296 + h) @ backslash # CHR ''u'' # hex4 (56320 + l) @ rest) =
      Some (55296 + h, backslash # CHR ''u'' # hex4 (56320 + l) @ rest)"
    using h by (intro take_hex4) simp
  moreover have "take_hex 4 0 (hex4 (56320 + l) @ rest) = Some (56320 + l, rest)" using l by (intro take_hex4) simp
  ultimately show ?thesis using h l p
    by (simp add: take_escape_def quote_mark_def backslash_def h_def [symmetric] l_def [symmetric] add.assoc)
qed

lemma special_chars:
  "char_of (34::nat) = CHR 0x22" "char_of (92::nat) = CHR 0x5C" "char_of (10::nat) = CHR 0x0A"
  "char_of (13::nat) = CHR 0x0D" "char_of (9::nat) = CHR 0x09" "char_of (8::nat) = CHR 0x08"
  "char_of (12::nat) = CHR 0x0C"
  by (rule char_of_code, simp)+

lemma scan_str_point:
  assumes "scalar_value p"
  shows "scan_str (json_escape p @ rest) = map_option (\<lambda>(t, r). (utf8_char p @ t, r)) (scan_str rest)"
proof -
  consider "p \<in> {34, 92, 10, 13, 9, 8, 12}" | "p \<notin> {34, 92}" "32 \<le> p" "p \<le> 126"
    | "p \<notin> {34, 92, 10, 13, 9, 8, 12}" "\<not> (32 \<le> p \<and> p \<le> 126)" "p < 65536" | "65536 \<le> p"
    by fastforce
  then show ?thesis
  proof cases
    case 1
    have "take_escape ([e] @ rest) = Some ([d], rest)" if "(e, d) \<in> {(quote_mark, quote_mark), (backslash, backslash),
        (CHR ''n'', CHR 0x0A), (CHR ''r'', CHR 0x0D), (CHR ''t'', CHR 0x09), (CHR ''b'', CHR 0x08), (CHR ''f'', CHR 0x0C)}"
      for e d using that by (auto simp: take_escape_def quote_mark_def backslash_def)
    note esc = scan_str_escape [OF this]
    show ?thesis using 1 esc [of quote_mark quote_mark] esc [of backslash backslash] esc [of "CHR ''n''" "CHR 0x0A"]
        esc [of "CHR ''r''" "CHR 0x0D"] esc [of "CHR ''t''" "CHR 0x09"] esc [of "CHR ''b''" "CHR 0x08"]
        esc [of "CHR ''f''" "CHR 0x0C"]
      by (auto simp: json_escape_def utf8_char_def quote_mark_def backslash_def special_chars)
  next
    case 2
    have "code (char_of p) = p" using 2 by simp
    moreover have "code quote_mark = 34" "code backslash = 92" by (simp_all add: quote_mark_def backslash_def)
    ultimately have "char_of p \<noteq> quote_mark" "char_of p \<noteq> backslash" "32 \<le> code (char_of p)"
      using 2 by (metis insertCI)+
    from scan_str_plain [OF this] show ?thesis using 2 by (simp add: json_escape_def utf8_char_def)
  next
    case 3
    then have "json_escape p = backslash # CHR ''u'' # hex4 p" by (auto simp: json_escape_def)
    then show ?thesis using scan_str_escape [OF take_escape_u [OF 3(3) assms]] by simp
  next
    case 4
    have "p < 1114112" using assms by (simp add: scalar_value_def)
    from scan_str_escape [OF take_escape_pair [OF 4 this]] show ?thesis using 4 by (simp add: json_escape_def)
  qed
qed

lemma scan_str_points:
  "list_all scalar_value ps \<Longrightarrow>
    scan_str (concat (map json_escape ps) @ quote_mark # rest) = Some (concat (map utf8_char ps), rest)"
  by (induction ps) (simp_all add: scan_str.simps scan_str_point)

lemma scan_str_json_str:
  assumes "valid_utf8 s"
  shows "json_str s @ rest = quote_mark # tl (json_str s) @ rest" and "scan_str (tl (json_str s) @ rest) = Some (s, rest)"
  using utf8_points_roundtrip [OF assms] scan_str_points [of "utf8_points s" rest] by (simp_all add: json_str_def)

end
