(* ===== verification/Json_Objects.thy ===== *)
theory Json_Objects
  imports Json_Roundtrip
begin

section \<open>Numbers and objects\<close>

subsection \<open>Numbers\<close>

text \<open>A number ends before a comma or a brace, and scans the same with one behind it.\<close>

definition delim :: "char \<Rightarrow> bool" where
  "delim c \<longleftrightarrow> c = CHR '','' \<or> c = CHR ''}''"

lemma delim_props:
  assumes "delim c"
  shows "\<not> is_digit c" "c \<noteq> CHR ''.''" "c \<noteq> CHR ''e''" "c \<noteq> CHR ''E''" "c \<noteq> CHR ''-''" "c \<noteq> CHR ''+''" "\<not> is_ws c"
  using assms by (auto simp: delim_def is_digit_def is_ws_def)

lemma span_delim:
  assumes "\<not> P c"
  shows "span P (t @ c # r) = (fst (span P t), snd (span P t) @ c # r)"
  using assms by (induction t) (auto simp: span_def)

lemma scan_whole_delim:
  assumes "scan_whole t = Some (w, t')" and "\<not> is_digit c"
  shows "scan_whole (t @ c # r) = Some (w, t' @ c # r)"
proof (cases t)
  case Nil
  then show ?thesis using assms(1) by (simp add: scan_whole_def)
next
  case (Cons a s)
  show ?thesis
  proof (cases "a = CHR ''-''")
    case True
    then obtain b s' where "s = b # s'" using assms(1) Cons by (cases s) (simp_all add: scan_whole_def)
    then show ?thesis using assms True Cons
      by (auto simp: scan_whole_def span_delim split: if_splits prod.splits)
  next
    case False
    then show ?thesis using assms Cons
      by (auto simp: scan_whole_def span_delim split: if_splits prod.splits)
  qed
qed

lemma scan_fraction_delim:
  assumes "delim c"
  shows "scan_fraction (t @ c # r) = (fst (scan_fraction t), snd (scan_fraction t) @ c # r)"
  using delim_props [OF assms] by (cases t) (auto simp: scan_fraction_def span_delim split: prod.splits)

lemma scan_exponent_delim:
  assumes "delim c"
  shows "scan_exponent (t @ c # r) = (fst (scan_exponent t), snd (scan_exponent t) @ c # r)"
proof (cases t)
  case Nil
  then show ?thesis using delim_props [OF assms] by (simp add: scan_exponent_def)
next
  case (Cons a s)
  have nd: "\<not> is_digit c" by (rule delim_props [OF assms])
  show ?thesis
  proof (cases s)
    case Nil
    then show ?thesis using Cons delim_props [OF assms] by (auto simp: scan_exponent_def span_def)
  next
    case s: (Cons b s')
    have "span is_digit (b # s' @ c # r) = (fst (span is_digit (b # s')), snd (span is_digit (b # s')) @ c # r)"
      using span_delim [where t = "b # s'" and P = is_digit and c = c and r = r, OF nd] by simp
    then show ?thesis using Cons s span_delim [where t = s' and P = is_digit and c = c and r = r, OF nd]
      by (auto simp: scan_exponent_def split: prod.splits)
  qed
qed

lemma scan_number_delim:
  assumes "scan_number t = Some (x, fl, t')" and "delim c"
  shows "scan_number (t @ c # r) = Some (x, fl, t' @ c # r)"
proof -
  obtain w s where w: "scan_whole t = Some (w, s)"
    using assms(1) by (auto simp: scan_number_def split: option.splits)
  obtain f s1 e s2 where f: "scan_fraction s = (f, s1)" and e: "scan_exponent s1 = (e, s2)" by fastforce
  then show ?thesis
    using assms(1) w scan_whole_delim [OF w delim_props(1) [OF assms(2)], of r] scan_fraction_delim [OF assms(2), of s r]
      scan_exponent_delim [OF assms(2), of s1 r]
    by (simp add: scan_number_def)
qed

lemma scan_whole_start:
  assumes "scan_whole s = Some x"
  shows "\<exists>c r. s = c # r \<and> (is_digit c \<or> c = CHR ''-'' \<and> (\<exists>d r'. r = d # r' \<and> is_digit d))"
proof -
  have zero: "is_digit (CHR ''0'')" by (simp add: is_digit_def)
  show ?thesis
  proof (cases s)
    case Nil
    then show ?thesis using assms by (simp add: scan_whole_def)
  next
    case (Cons a r)
    then show ?thesis using assms zero
      by (cases "a = CHR ''-''"; cases r) (auto simp: scan_whole_def split: if_splits)
  qed
qed

lemma nat_digits_head: "0 < n \<Longrightarrow> hd (nat_digits n) \<noteq> CHR ''0''"
proof (induction n rule: nat_digits.induct)
  case (1 n)
  have code: "code (CHR ''0'') = 48" by simp
  show ?case
  proof (cases "n < 10")
    case True
    then have "code (digit_char n) = 48 + n" by (simp add: digit_char_def)
    then have "digit_char n \<noteq> CHR ''0''" using "1.prems" code by (metis add_cancel_left_right less_numeral_extra(3))
    then show ?thesis using True by (subst nat_digits.simps) simp
  next
    case False
    then have "0 < n div 10" by (simp add: div_greater_zero_iff)
    then show ?thesis using False "1.IH" by (subst nat_digits.simps) simp
  qed
qed

lemma scan_whole_digits: "scan_whole (nat_digits n) = Some (nat_digits n, [])"
proof -
  obtain c cs where c: "nat_digits n = c # cs" by (metis list.exhaust nat_digits_nonempty)
  have d: "is_digit c" "list_all is_digit cs" using nat_digits_are_digits [of n] by (simp_all add: c)
  have "c \<noteq> CHR ''-''" using d(1) by (auto simp: is_digit_def)
  moreover have "span is_digit cs = (cs, [])"
    using d(2) by (induction cs) (simp_all add: span_def)
  moreover have "c = CHR ''0'' \<Longrightarrow> cs = []"
  proof -
    assume "c = CHR ''0''"
    then have "n = 0" using nat_digits_head [of n] c by fastforce
    then show "cs = []" using c by (simp add: nat_digits.simps)
  qed
  ultimately show ?thesis using d(1) by (auto simp: scan_whole_def c)
qed

lemma scan_whole_int: "scan_whole (py_str_int i) = Some (py_str_int i, [])"
proof -
  have "scan_whole (CHR ''-'' # nat_digits n) = Some (CHR ''-'' # nat_digits n, [])" for n
  proof -
    obtain c cs where c: "nat_digits n = c # cs" by (metis list.exhaust nat_digits_nonempty)
    then have "c \<noteq> CHR ''-''" using nat_digits_are_digits [of n] by (auto simp: is_digit_def)
    then show ?thesis using scan_whole_digits [of n] c by (auto simp: scan_whole_def split: if_splits prod.splits)
  qed
  then show ?thesis using scan_whole_digits by (simp add: py_str_int_def)
qed

lemma scan_number_int: "scan_number (py_str_int i) = Some (py_str_int i, False, [])"
  using scan_whole_int by (simp add: scan_number_def scan_fraction_def scan_exponent_def)

subsection \<open>Values\<close>

text \<open>The documented shape of \<^verbatim>\<open>repr\<close> of a finite float: a JSON number with a fraction or an exponent.\<close>

definition float_json_ok :: "float_text \<Rightarrow> bool" where
  "float_json_ok fl \<longleftrightarrow> float_text_ok fl \<and>
     (\<forall>q. scan_number (show_float fl (Finite q)) = Some (show_float fl (Finite q), True, []))"

fun scalar :: "json \<Rightarrow> bool" where
  "scalar (JStr s) = valid_utf8 s"
| "scalar (JInt i) = True"
| "scalar (JFloat x) = True"
| "scalar _ = False"

lemma scan_value_number:
  assumes "scan_number t = Some (t, b, [])" and "delim c"
  shows "scan_value fl (t @ c # r) =
      (if b then (case parse_float fl t of Inl _ \<Rightarrow> None | Inr x \<Rightarrow> Some (JFloat x, c # r))
       else (case py_int t of Inl _ \<Rightarrow> None | Inr i \<Rightarrow> Some (JInt i, c # r)))"
    and "t \<noteq> [] \<and> \<not> is_ws (hd t)"
proof -
  obtain x where x: "scan_whole t = Some x" using assms(1) by (cases "scan_whole t") (simp_all add: scan_number_def)
  from scan_whole_start [OF x] obtain a s where
    t: "t = a # s" "is_digit a \<or> a = CHR ''-'' \<and> (\<exists>d s'. s = d # s' \<and> is_digit d)" by (elim exE conjE)
  have not_minus: "\<not> is_digit (CHR ''-'')" by (simp add: is_digit_def)
  have other: "\<not> is_digit quote_mark" "\<not> is_digit (CHR ''N'')" "\<not> is_digit (CHR ''I'')"
    by (simp_all add: is_digit_def quote_mark_def)
  have minus: "quote_mark \<noteq> CHR ''-''" by (simp add: quote_mark_def)
  have a: "a \<noteq> quote_mark" "a \<noteq> CHR ''N''" "a \<noteq> CHR ''I''"
    using t(2) other minus by (auto simp del: char.inject)
  have "strip_prefix ''-Infinity'' (t @ c # r) = None"
  proof (cases "a = CHR ''-''")
    case True
    then obtain d s' where "s = d # s'" "is_digit d" using t(2) not_minus by metis
    then have "d \<noteq> CHR ''I''" using other(3) by metis
    then show ?thesis using t(1) \<open>s = d # s'\<close> True by simp
  next
    case False
    then show ?thesis using t(1) by simp
  qed
  moreover have "strip_prefix ''NaN'' (t @ c # r) = None" "strip_prefix ''Infinity'' (t @ c # r) = None"
    using t(1) a by simp_all
  ultimately show "scan_value fl (t @ c # r) =
      (if b then (case parse_float fl t of Inl _ \<Rightarrow> None | Inr x \<Rightarrow> Some (JFloat x, c # r))
       else (case py_int t of Inl _ \<Rightarrow> None | Inr i \<Rightarrow> Some (JInt i, c # r)))"
    using scan_number_delim [OF assms, of r] t(1) a(1) by (simp add: scan_value_def scan_number_value_def)
  show "t \<noteq> [] \<and> \<not> is_ws (hd t)" using t by (auto simp: is_ws_def is_digit_def)
qed

lemma scan_value_dumps:
  assumes "scalar v" and "float_json_ok fl" and "delim c"
  shows "scan_value fl (json_dumps fl v @ c # r) = Some (v, c # r)"
    and "json_dumps fl v \<noteq> [] \<and> \<not> is_ws (hd (json_dumps fl v))"
proof -
  have "scan_value fl (json_dumps fl v @ c # r) = Some (v, c # r) \<and>
      json_dumps fl v \<noteq> [] \<and> \<not> is_ws (hd (json_dumps fl v))"
  proof (cases v)
    case (JStr s)
    then show ?thesis using assms(1) scan_str_json_str [of s "c # r"]
      by (simp add: scan_value_def) (simp add: json_str_def quote_mark_def is_ws_def)
  next
    case (JInt i)
    then show ?thesis using scan_value_number(1) [OF scan_number_int [of i] assms(3), of fl r]
        scan_value_number(2) [OF scan_number_int [of i] assms(3)] by simp
  next
    case (JFloat x)
    show ?thesis
    proof (cases x)
      case (Finite q)
      have "scan_number (show_float fl x) = Some (show_float fl x, True, [])" "parse_float fl (show_float fl x) = Inr x"
        using assms(2) Finite by (simp_all add: float_json_ok_def float_text_ok_def)
      then show ?thesis using scan_value_number(1) [OF _ assms(3), of "show_float fl x" True fl r]
          scan_value_number(2) [OF _ assms(3), of "show_float fl x" True] JFloat Finite
        by (simp add: json_float_def)
    qed (use JFloat in \<open>auto simp: json_float_def scan_value_def is_ws_def quote_mark_def\<close>)
  qed (use assms(1) in simp_all)
  then show "scan_value fl (json_dumps fl v @ c # r) = Some (v, c # r)"
    and "json_dumps fl v \<noteq> [] \<and> \<not> is_ws (hd (json_dumps fl v))" by simp_all
qed

subsection \<open>Objects\<close>

definition pair_text :: "float_text \<Rightarrow> string \<times> json \<Rightarrow> string" where
  "pair_text fl kv = json_str (fst kv) @ '': '' @ json_dumps fl (snd kv)"

lemma skip_ws_id: "s \<noteq> [] \<Longrightarrow> \<not> is_ws (hd s) \<Longrightarrow> skip_ws s = s"
  by (cases s) (simp_all add: skip_ws_def)

lemma scan_pair_text:
  assumes "valid_utf8 (fst kv)" and "scalar (snd kv)" and "float_json_ok fl" and "delim c"
  shows "scan_pair fl (pair_text fl kv @ c # r) = Some (kv, c # r)"
proof -
  let ?v = "json_dumps fl (snd kv) @ c # r"
  note v = scan_value_dumps(1) [OF assms(2-4), of r] scan_value_dumps(2) [OF assms(2-4)]
  have ws: "skip_ws ?v = ?v" using v(2) by (intro skip_ws_id) simp_all
  have "skip_ws (CHR '' '' # ?v) = skip_ws ?v" by (simp add: skip_ws_def is_ws_def)
  moreover have "skip_ws (CHR '':'' # s) = CHR '':'' # s" for s by (simp add: skip_ws_def is_ws_def)
  moreover have "skip_ws (c # r) = c # r" using delim_props(7) [OF assms(4)] by (simp add: skip_ws_def)
  moreover have "pair_text fl kv @ c # r = quote_mark # tl (json_str (fst kv)) @ CHR '':'' # CHR '' '' # ?v"
    by (simp add: pair_text_def json_str_def)
  ultimately show ?thesis
    using scan_str_json_str(2) [OF assms(1), of "CHR '':'' # CHR '' '' # ?v"] ws v(1) by (simp add: scan_pair_def)
qed

lemma pair_text_head: "pair_text fl kv = quote_mark # tl (pair_text fl kv)"
  by (simp add: pair_text_def json_str_def)

lemma scan_pairs_text:
  assumes "kvs \<noteq> []" and "\<forall>kv \<in> set kvs. valid_utf8 (fst kv) \<and> scalar (snd kv)" and "float_json_ok fl"
    and "length kvs \<le> n"
  shows "scan_pairs n fl d (join '', '' (map (pair_text fl) kvs) @ CHR ''}'' # r) = Some (dict_merge d kvs, r)"
  using assms
proof (induction kvs arbitrary: d n)
  case Nil
  then show ?case by simp
next
  case (Cons kv kvs)
  obtain m where n: "n = Suc m" "length kvs \<le> m" using Cons.prems(4) by (cases n) auto
  obtain k v where kv: "kv = (k, v)" by (cases kv)
  have p: "valid_utf8 (fst kv)" "scalar (snd kv)" using Cons.prems(2) by auto
  have ends: "delim (CHR ''}'')" "delim (CHR '','')" by (simp_all add: delim_def)
  show ?case
  proof (cases kvs)
    case Nil
    then show ?thesis using scan_pair_text [OF p assms(3) ends(1), of r] n kv by simp
  next
    case (Cons kv' kvs')
    let ?rest = "join '', '' (map (pair_text fl) kvs) @ CHR ''}'' # r"
    have whole: "join '', '' (map (pair_text fl) (kv # kvs)) @ CHR ''}'' # r =
        pair_text fl kv @ CHR '','' # CHR '' '' # ?rest" by (simp add: Cons)
    obtain t where "pair_text fl kv' = quote_mark # t" using pair_text_head by blast
    then obtain t' where "?rest = quote_mark # t'" by (cases kvs') (auto simp: Cons)
    then have "skip_ws (CHR '' '' # ?rest) = ?rest" by (simp add: skip_ws_def is_ws_def quote_mark_def)
    then show ?thesis
      using scan_pair_text [OF p assms(3) ends(2), of "CHR '' '' # ?rest"] n kv
        Cons.IH [of m "AList.update k v d"] Cons.prems(2,3) Cons
      unfolding whole by simp
  qed
qed

lemma length_join: "\<forall>x \<in> set xs. x \<noteq> [] \<Longrightarrow> length xs \<le> length (join sep xs)"
proof (induction sep xs rule: join.induct)
  case (3 sep x y xs)
  then have "Suc (length xs) \<le> length (join sep (y # xs))" "1 \<le> length x" by (simp_all add: Suc_le_eq)
  then show ?case unfolding join.simps length_append length_Cons by linarith
qed (simp_all add: Suc_le_eq)

lemma json_loads_dumps:
  assumes "distinct (dict_keys kvs)" and "\<forall>kv \<in> set kvs. valid_utf8 (fst kv) \<and> scalar (snd kv)" and "float_json_ok fl"
  shows "json_loads fl (json_dumps fl (JObj kvs)) = Inr kvs"
proof -
  let ?j = "join '', '' (map (pair_text fl) kvs)"
  have pt: "(\<lambda>(k, v). json_str k @ '': '' @ json_dumps fl v) = pair_text fl" by (auto simp: pair_text_def)
  have s: "json_dumps fl (JObj kvs) = CHR ''{'' # ?j @ [CHR ''}'']" unfolding json_dumps.simps pt by simp
  show ?thesis
  proof (cases kvs)
    case Nil
    then show ?thesis unfolding s by (simp add: json_loads_def skip_ws_def is_ws_def)
  next
    case (Cons kv kvs')
    obtain t where "pair_text fl kv = quote_mark # t" using pair_text_head by blast
    then obtain t' where t': "?j = quote_mark # t'" by (cases kvs') (auto simp: Cons)
    have "\<forall>x \<in> set (map (pair_text fl) kvs). x \<noteq> []" using pair_text_head by (metis (no_types) ex_map_conv list.distinct(1))
    then have "length kvs \<le> length ?j" using length_join [of "map (pair_text fl) kvs" "'', ''"] by simp
    then have "scan_pairs (length (CHR ''{'' # ?j @ [CHR ''}''])) fl [] (?j @ [CHR ''}'']) = Some (dict_merge [] kvs, [])"
      using assms(2,3) Cons by (intro scan_pairs_text) simp_all
    moreover have "dict_merge [] kvs = kvs" using dict_merge_fresh [OF assms(1), of "[]"] by simp
    ultimately show ?thesis unfolding s using t'
      by (simp add: json_loads_def skip_ws_def is_ws_def quote_mark_def)
  qed
qed

subsection \<open>The assumption on float texts can hold\<close>

text \<open>Numerator and denominator around a point: a JSON number that determines the rational.\<close>

definition demo_show :: "pyfloat \<Rightarrow> string" where
  "demo_show x = (case x of NaN \<Rightarrow> ''nan'' | Infinite pos \<Rightarrow> (if pos then ''inf'' else ''-inf'')
     | Finite q \<Rightarrow> (case quotient_of q of (n, d) \<Rightarrow> py_str_int n @ CHR ''.'' # nat_digits (nat d)))"

definition demo_parse :: "string \<Rightarrow> exn + pyfloat" where
  "demo_parse s = (if s = ''nan'' then Inr NaN else if s = ''inf'' then Inr (Infinite True)
     else if s = ''-inf'' then Inr (Infinite False)
     else (let (a, b) = span (\<lambda>c. c \<noteq> CHR ''.'') s in
       bndr (py_int a) (\<lambda>n. bndr (py_int (tl b)) (\<lambda>d. Inr (Finite (of_int n / of_int d))))))"

definition demo_floats :: float_text where
  "demo_floats = \<lparr>show_float = demo_show, parse_float = demo_parse\<rparr>"

lemma py_str_int_chars: "c \<in> set (py_str_int i) \<Longrightarrow> is_digit c \<or> c = CHR ''-''"
  using nat_digits_are_digits [of "nat i"] nat_digits_are_digits [of "nat (- i)"]
  by (auto simp: py_str_int_def list_all_iff split: if_splits)

lemma demo_finite_parts:
  fixes n d :: int
  defines "s \<equiv> py_str_int n @ CHR ''.'' # nat_digits (nat d)"
  shows "span (\<lambda>c. c \<noteq> CHR ''.'') s = (py_str_int n, CHR ''.'' # nat_digits (nat d))"
    and "CHR ''.'' \<in> set s"
    and "scan_number s = Some (s, True, [])"
proof -
  have no_dot: "\<forall>c \<in> set (py_str_int n). c \<noteq> CHR ''.''" using py_str_int_chars by (fastforce simp: is_digit_def)
  then show "span (\<lambda>c. c \<noteq> CHR ''.'') s = (py_str_int n, CHR ''.'' # nat_digits (nat d))"
    by (simp add: s_def span_def)
  show "CHR ''.'' \<in> set s" by (simp add: s_def)
  have "scan_whole s = Some (py_str_int n, CHR ''.'' # nat_digits (nat d))"
    using scan_whole_delim [OF scan_whole_int [of n], of "CHR ''.''" "nat_digits (nat d)"]
    by (simp add: s_def is_digit_def)
  moreover have "span is_digit (nat_digits (nat d)) = (nat_digits (nat d), [])"
    using nat_digits_are_digits [of "nat d"] by (simp add: span_def list_all_iff takeWhile_eq_all_conv)
  ultimately show "scan_number s = Some (s, True, [])"
    by (simp add: scan_number_def scan_fraction_def scan_exponent_def s_def)
qed

lemma demo_floats_ok: "float_json_ok demo_floats"
proof -
  have "parse_float demo_floats (show_float demo_floats x) = Inr x \<and> is_ascii (show_float demo_floats x)" for x
  proof (cases x)
    case (Finite q)
    obtain n d where nd: "quotient_of q = (n, d)" by fastforce
    then have d: "0 < d" "q = of_int n / of_int d" using quotient_of_denom_pos quotient_of_div by auto
    let ?s = "py_str_int n @ CHR ''.'' # nat_digits (nat d)"
    have differ: "?s \<noteq> t" if "CHR ''.'' \<notin> set t" for t using that by auto
    have "?s \<noteq> ''nan''" "?s \<noteq> ''inf''" "?s \<noteq> ''-inf''" by (rule differ, simp)+
    moreover have "py_int (nat_digits (nat d)) = Inr d" using py_int_py_str_int [of d] d(1) by (simp add: py_str_int_def)
    ultimately show ?thesis using Finite nd d demo_finite_parts(1) [of n d]
      by (simp add: demo_floats_def demo_show_def demo_parse_def)
  qed (auto simp: demo_floats_def demo_show_def demo_parse_def)
  then have "float_text_ok demo_floats" by (simp add: float_text_ok_def)
  moreover have "scan_number (show_float demo_floats (Finite q)) = Some (show_float demo_floats (Finite q), True, [])" for q
    using demo_finite_parts(3) by (cases "quotient_of q") (simp add: demo_floats_def demo_show_def)
  ultimately show ?thesis by (simp add: float_json_ok_def)
qed

end
