(* ===== verification/Outbox.thy ===== *)
theory Outbox
  imports Json_Objects Redis_Memory
begin

section \<open>The transactional outbox\<close>

text \<open>
  \<^verbatim>\<open>outbox_pattern/\<close>: models, the SQLite store, the broker, the relay and the dual-write baseline. The
  database is part of the world: which tables exist, their rows, and the counter of
  \<^verbatim>\<open>AUTOINCREMENT\<close>. A \<^verbatim>\<open>with conn:\<close> block is a transaction: an exception restores the database. SQLite
  stores a \<^verbatim>\<open>nan\<close> as \<^verbatim>\<open>NULL\<close>, which the column does not allow. Instants are the texts of
  \<^verbatim>\<open>isoformat()\<close>.
\<close>

subsection \<open>Models\<close>

record ob_order =
  ob_order_id :: string
  ob_customer_id :: string
  ob_amount :: pyfloat
  ob_created_at :: string

record outbox_entry =
  oe_order_id :: string
  oe_payload :: string
  oe_id :: "int option"
  oe_created_at :: string

subsection \<open>The database\<close>

record outbox_row =
  or_id :: int
  or_order_id :: string
  or_payload :: string
  or_created_at :: string

record 'r outbox_world = "'r world" +
  tables :: "string list"
  order_rows :: "ob_order list"
  outbox_rows :: "outbox_row list"
  outbox_seq :: int

definition no_table :: "string \<Rightarrow> exn" where
  "no_table t = OtherException ''OperationalError'' (''no such table: '' @ t)"

definition transaction :: "(('r, 'x) outbox_world_scheme, 'a) io \<Rightarrow> (('r, 'x) outbox_world_scheme, 'a) io" where
  "transaction m w = (case m w of
      (Inr x, w') \<Rightarrow> (Inr x, w')
    | (Inl e, w') \<Rightarrow> (Inl e, w'\<lparr>order_rows := order_rows w, outbox_rows := outbox_rows w, outbox_seq := outbox_seq w\<rparr>))"

definition add_table :: "string \<Rightarrow> ('r, 'x) outbox_world_scheme \<Rightarrow> ('r, 'x) outbox_world_scheme" where
  "add_table t w = (if t \<in> set (tables w) then w else w\<lparr>tables := tables w @ [t]\<rparr>)"

definition create_tables :: "(('r, 'x) outbox_world_scheme, unit) io" where
  "create_tables = bnd (modify (add_table ''orders'')) (\<lambda>_. modify (add_table ''outbox''))"

text \<open>\<^verbatim>\<open>INSERT INTO orders\<close>: the table, the \<^verbatim>\<open>NOT NULL\<close> column and the primary key.\<close>

definition sql_insert_order :: "ob_order \<Rightarrow> (('r, 'x) outbox_world_scheme, unit) io" where
  "sql_insert_order order w =
     (if ''orders'' \<notin> set (tables w) then (Inl (no_table ''orders''), w)
      else if ob_amount order = NaN \<or> ob_order_id order \<in> ob_order_id ` set (order_rows w)
      then (Inl IntegrityError, w)
      else (Inr (), w\<lparr>order_rows := order_rows w @ [order]\<rparr>))"

text \<open>\<^verbatim>\<open>INSERT INTO outbox\<close>, giving \<^verbatim>\<open>cursor.lastrowid\<close>.\<close>

definition sql_insert_outbox :: "outbox_entry \<Rightarrow> (('r, 'x) outbox_world_scheme, int) io" where
  "sql_insert_outbox entry w =
     (if ''outbox'' \<notin> set (tables w) then (Inl (no_table ''outbox''), w)
      else (Inr (outbox_seq w + 1), w\<lparr>outbox_seq := outbox_seq w + 1,
        outbox_rows := outbox_rows w @ [\<lparr>or_id = outbox_seq w + 1, or_order_id = oe_order_id entry,
          or_payload = oe_payload entry, or_created_at = oe_created_at entry\<rparr>]\<rparr>))"

definition order_payload :: "float_text \<Rightarrow> ob_order \<Rightarrow> string" where
  "order_payload fl order = json_dumps fl (JObj
     [(''event'', JStr ''order_created''), (''order_id'', JStr (ob_order_id order)),
      (''customer_id'', JStr (ob_customer_id order)), (''amount'', JFloat (ob_amount order))])"

definition insert_order_with_outbox :: "float_text \<Rightarrow> ob_order \<Rightarrow> (('r, 'x) outbox_world_scheme, outbox_entry) io" where
  "insert_order_with_outbox fl order w =
     (let entry = \<lparr>oe_order_id = ob_order_id order, oe_payload = order_payload fl order, oe_id = None,
        oe_created_at = wall w\<rparr> in
      bnd (transaction
            (bnd (sql_insert_order order) (\<lambda>_.
             bnd (sql_insert_outbox entry) (\<lambda>lastrowid.
             ret (entry\<lparr>oe_id := Some lastrowid\<rparr>))))) (\<lambda>entry.
      bnd (incr ''transactional_outbox'' ''orders_inserted'' 1) (\<lambda>_.
      ret entry)) w)"

definition row_entry :: "outbox_row \<Rightarrow> outbox_entry" where
  "row_entry row = \<lparr>oe_order_id = or_order_id row, oe_payload = or_payload row, oe_id = Some (or_id row),
     oe_created_at = or_created_at row\<rparr>"

text \<open>\<^verbatim>\<open>ORDER BY id LIMIT n\<close>: a negative limit is none.\<close>

definition poll_outbox :: "int \<Rightarrow> (('r, 'x) outbox_world_scheme, outbox_entry list) io" where
  "poll_outbox limit w =
     (if ''outbox'' \<notin> set (tables w) then (Inl (no_table ''outbox''), w)
      else let rows = sort_key or_id (outbox_rows w) in
        (Inr (map row_entry (if limit < 0 then rows else take (nat limit) rows)), w))"

definition delete_outbox_entry :: "int \<Rightarrow> (('r, 'x) outbox_world_scheme, unit) io" where
  "delete_outbox_entry entry_id =
     transaction (\<lambda>w. if ''outbox'' \<notin> set (tables w) then (Inl (no_table ''outbox''), w)
       else (Inr (), w\<lparr>outbox_rows := filter (\<lambda>row. or_id row \<noteq> entry_id) (outbox_rows w)\<rparr>))"

subsection \<open>Broker and relay\<close>

definition rb_publish :: "'r redis \<Rightarrow> string \<Rightarrow> (string, string) dict \<Rightarrow> (('r, 'x) outbox_world_scheme, string) io" where
  "rb_publish R stream payload = redis_call (xadd R stream payload)"

text \<open>\<^verbatim>\<open>str(v)\<close> of the values \<open>json_loads\<close> returns.\<close>

fun value_str :: "float_text \<Rightarrow> json \<Rightarrow> string" where
  "value_str fl (JStr s) = s"
| "value_str fl (JInt i) = py_str_int i"
| "value_str fl (JFloat x) = show_float fl x"

text \<open>One entry of the relay's loop; \<open>elsewhere\<close> is what other tasks do before the broker has answered.\<close>

definition relay_entry :: "'r redis \<Rightarrow> float_text \<Rightarrow> string \<Rightarrow>
    (('r, 'x) outbox_world_scheme \<Rightarrow> ('r, 'x) outbox_world_scheme) \<Rightarrow> outbox_entry \<Rightarrow>
    (('r, 'x) outbox_world_scheme, unit) io" where
  "relay_entry R fl stream elsewhere entry =
     bnd (liftr (json_loads fl (oe_payload entry))) (\<lambda>payload.
     bnd (modify elsewhere) (\<lambda>_.
     bnd (rb_publish R stream (map (\<lambda>(k, v). (k, value_str fl v)) payload)) (\<lambda>_.
     bnd (case oe_id entry of
         None \<Rightarrow> raise AssertionError
       | Some i \<Rightarrow> delete_outbox_entry i) (\<lambda>_.
     incr ''transactional_outbox'' ''entries_relayed'' 1))))"

definition relay_turn :: "'r redis \<Rightarrow> float_text \<Rightarrow> string \<Rightarrow>
    (('r, 'x) outbox_world_scheme \<Rightarrow> ('r, 'x) outbox_world_scheme) \<Rightarrow> (('r, 'x) outbox_world_scheme, unit) io" where
  "relay_turn R fl stream elsewhere =
     bnd (poll_outbox 10) (\<lambda>entries.
     for_each (\<lambda>entry _. relay_entry R fl stream elsewhere entry) entries ())"

text \<open>The loop, once per pair: what happens during the turn's publications, and while it sleeps.\<close>

fun relay_run :: "'r redis \<Rightarrow> float_text \<Rightarrow> string \<Rightarrow>
    ((('r, 'x) outbox_world_scheme \<Rightarrow> ('r, 'x) outbox_world_scheme) \<times>
     (('r, 'x) outbox_world_scheme \<Rightarrow> ('r, 'x) outbox_world_scheme)) list \<Rightarrow>
    (('r, 'x) outbox_world_scheme, unit) io" where
  "relay_run R fl stream [] = ret ()"
| "relay_run R fl stream ((elsewhere, nap) # envs) =
     bnd (relay_turn R fl stream elsewhere) (\<lambda>_.
     bnd (modify nap) (\<lambda>_.
     relay_run R fl stream envs))"

subsection \<open>The dual-write baseline\<close>

definition create_orders_table :: "(('r, 'x) outbox_world_scheme, unit) io" where
  "create_orders_table = modify (add_table ''orders'')"

definition order_created_event :: "float_text \<Rightarrow> ob_order \<Rightarrow> (string, string) dict" where
  "order_created_event fl order =
     [(''event'', ''order_created''), (''order_id'', ob_order_id order), (''customer_id'', ob_customer_id order),
      (''amount'', show_float fl (ob_amount order))]"

text \<open>
  \<open>conn\<close> runs a database operation in the world the publication lives in, which may have more in it than
  the database and the broker.
\<close>

definition place_order_dual_write ::
    "((('r, 'x) outbox_world_scheme, unit) io \<Rightarrow> ('w, unit) io) \<Rightarrow> float_text \<Rightarrow>
     (string \<Rightarrow> (string, string) dict \<Rightarrow> ('w, string) io) \<Rightarrow> ob_order \<Rightarrow> string \<Rightarrow> ('w, string) io" where
  "place_order_dual_write conn fl publish order stream =
     (let event = order_created_event fl order in
      bnd (conn (transaction (sql_insert_order order))) (\<lambda>_.
      publish stream event))"

definition count_orders :: "(('r, 'x) outbox_world_scheme, int) io" where
  "count_orders w = (if ''orders'' \<notin> set (tables w) then (Inl (no_table ''orders''), w)
     else (Inr (int (length (order_rows w))), w))"

subsection \<open>Operations on the database\<close>

definition ob_text_ok :: "ob_order \<Rightarrow> bool" where
  "ob_text_ok order \<longleftrightarrow> valid_utf8 (ob_order_id order) \<and> valid_utf8 (ob_customer_id order)"

lemma payload_loads:
  assumes "ob_text_ok order" and "float_json_ok fl"
  shows "json_loads fl (order_payload fl order) = Inr
    [(''event'', JStr ''order_created''), (''order_id'', JStr (ob_order_id order)),
     (''customer_id'', JStr (ob_customer_id order)), (''amount'', JFloat (ob_amount order))]"
  unfolding order_payload_def using assms by (intro json_loads_dumps) (auto simp: ob_text_ok_def)

lemma payload_event:
  assumes "ob_text_ok order" and "float_json_ok fl"
  obtains payload where "json_loads fl (order_payload fl order) = Inr payload"
    and "map (\<lambda>(k, v). (k, value_str fl v)) payload = order_created_event fl order"
  using payload_loads [OF assms] by (simp add: order_created_event_def)

lemma insert_order_cases:
  obtains (refused) e where "insert_order_with_outbox fl order w = (Inl e, w)"
      and "''orders'' \<notin> set (tables w) \<or> ''outbox'' \<notin> set (tables w) \<or> ob_amount order = NaN \<or>
        ob_order_id order \<in> ob_order_id ` set (order_rows w)"
  | (inserted) w' where "insert_order_with_outbox fl order w = (Inr \<lparr>oe_order_id = ob_order_id order,
        oe_payload = order_payload fl order, oe_id = Some (outbox_seq w + 1), oe_created_at = wall w\<rparr>, w')"
      and "order_rows w' = order_rows w @ [order]" and "tables w' = tables w" and "srv w' = srv w"
      and "outbox_rows w' = outbox_rows w @ [\<lparr>or_id = outbox_seq w + 1, or_order_id = ob_order_id order,
        or_payload = order_payload fl order, or_created_at = wall w\<rparr>]"
      and "outbox_seq w' = outbox_seq w + 1"
      and "ob_amount order \<noteq> NaN" and "ob_order_id order \<notin> ob_order_id ` set (order_rows w)"
      and "{''orders'', ''outbox''} \<subseteq> set (tables w)"
  using that
  by (cases "''orders'' \<in> set (tables w)"; cases "''outbox'' \<in> set (tables w)"; cases "ob_amount order = NaN";
      cases "ob_order_id order \<in> ob_order_id ` set (order_rows w)")
    (simp_all add: insert_order_with_outbox_def transaction_def sql_insert_order_def sql_insert_outbox_def bnd_def
      incr_def Let_def)

end
