(* ===== verification/Outbox_Relay.thy ===== *)
theory Outbox_Relay
  imports Outbox
begin

section \<open>The relay over a durable broker\<close>

text \<open>
  What the outbox relies on beyond the commands' laws: a stream keeps its entries whatever \<^verbatim>\<open>XADD\<close>
  answers, so a failed publication loses nothing that was published. Under this contract
  \<open>outbox_inv\<close> (every committed order still has its row or has its event on the stream) is kept by
  each operation, by a relay however it ends, and by any tasks that only do these things; \<open>outbox_step\<close>
  is the relation between worlds that expresses it.
\<close>

locale durable_redis = redis_server R view for R :: "'r redis" and view :: "'r \<Rightarrow> keyspace" +
  assumes xadd_keeps: "xadd R s f r = (res, r') \<Longrightarrow> set (ks_entries (view r) t) \<subseteq> set (ks_entries (view r') t)"

interpretation mem_durable: durable_redis mem_redis "\<lambda>k. k"
  by unfold_locales (auto simp: mem_redis_def mem_xadd_def Let_def split: if_splits)

subsection \<open>The invariant and the steps that keep it\<close>

definition is_published :: "('r \<Rightarrow> keyspace) \<Rightarrow> float_text \<Rightarrow> string \<Rightarrow> ('r, 'x) world_scheme \<Rightarrow> ob_order \<Rightarrow> bool" where
  "is_published view fl stream w order \<longleftrightarrow>
     order_created_event fl order \<in> snd ` set (ks_entries (view (srv w)) stream)"

definition outbox_inv :: "('r \<Rightarrow> keyspace) \<Rightarrow> float_text \<Rightarrow> string \<Rightarrow> ('r, 'x) outbox_world_scheme \<Rightarrow> bool" where
  "outbox_inv view fl stream w \<longleftrightarrow>
     (\<forall>order \<in> set (order_rows w). ob_text_ok order \<and> (is_published view fl stream w order \<or>
        order_payload fl order \<in> or_payload ` set (outbox_rows w))) \<and>
     (\<forall>row \<in> set (outbox_rows w). \<exists>order. ob_text_ok order \<and> or_payload row = order_payload fl order) \<and>
     distinct (map or_id (outbox_rows w)) \<and> (\<forall>row \<in> set (outbox_rows w). or_id row \<le> outbox_seq w)"

text \<open>A step keeps the invariant, and a row number is never given out again.\<close>

definition outbox_step :: "('r \<Rightarrow> keyspace) \<Rightarrow> float_text \<Rightarrow> string \<Rightarrow> ('r, 'x) outbox_world_scheme \<Rightarrow>
    ('r, 'x) outbox_world_scheme \<Rightarrow> bool" where
  "outbox_step view fl stream w w' \<longleftrightarrow>
     (outbox_inv view fl stream w \<longrightarrow> outbox_inv view fl stream w') \<and> outbox_seq w \<le> outbox_seq w' \<and>
     (\<forall>row \<in> set (outbox_rows w'). or_id row \<le> outbox_seq w \<longrightarrow> row \<in> set (outbox_rows w))"

lemma outbox_step_refl [simp]: "outbox_step view fl stream w w"
  by (simp add: outbox_step_def)

lemma outbox_step_trans [trans]:
  "outbox_step view fl stream w w1 \<Longrightarrow> outbox_step view fl stream w1 w2 \<Longrightarrow> outbox_step view fl stream w w2"
  by (fastforce simp: outbox_step_def)

lemma outbox_step_reg [simp]:
  "outbox_step view fl stream w (w'\<lparr>reg := r\<rparr>) = outbox_step view fl stream w w'"
  by (simp add: outbox_step_def outbox_inv_def is_published_def)

lemma incr_step:
  "outbox_step view fl stream w w' \<Longrightarrow> outbox_step view fl stream w (snd (incr p k n w'))"
  by (simp add: incr_def)

lemma insert_step:
  assumes "ob_text_ok order"
  shows "outbox_step view fl stream w (snd (insert_order_with_outbox fl order w))"
proof (cases rule: insert_order_cases [of fl order w])
  case (refused e)
  then show ?thesis by simp
next
  case (inserted w')
  have "outbox_step view fl stream w w'"
    using inserted(2-6) assms by (auto simp: outbox_step_def outbox_inv_def is_published_def)
  then show ?thesis using inserted(1) by simp
qed

text \<open>What a poll hands out: entries of rows that are in the table.\<close>

definition polled :: "('r, 'x) outbox_world_scheme \<Rightarrow> outbox_entry \<Rightarrow> bool" where
  "polled w entry \<longleftrightarrow> (\<exists>row \<in> set (outbox_rows w). entry = row_entry row)"

lemma poll_outbox_run:
  "poll_outbox limit w = (res, w') \<Longrightarrow> w' = w \<and> (case res of Inr es \<Rightarrow> \<forall>e \<in> set es. polled w e | Inl _ \<Rightarrow> True)"
  by (auto simp: poll_outbox_def Let_def polled_def split: if_splits dest!: in_set_takeD) blast+

text \<open>An entry that was polled once and may have been deleted since.\<close>

definition was_polled :: "float_text \<Rightarrow> ('r, 'x) outbox_world_scheme \<Rightarrow> outbox_entry \<Rightarrow> bool" where
  "was_polled fl w entry \<longleftrightarrow> (\<exists>i order. oe_id entry = Some i \<and> i \<le> outbox_seq w \<and> ob_text_ok order \<and>
     oe_payload entry = order_payload fl order \<and>
     (\<forall>row \<in> set (outbox_rows w). or_id row = i \<longrightarrow> or_payload row = oe_payload entry))"

lemma polled_was_polled: "polled w e \<Longrightarrow> outbox_inv view fl stream w \<Longrightarrow> was_polled fl w e"
proof -
  assume "polled w e" and inv: "outbox_inv view fl stream w"
  then obtain row where row: "row \<in> set (outbox_rows w)" "e = row_entry row" by (auto simp: polled_def)
  moreover obtain order where "ob_text_ok order" "or_payload row = order_payload fl order"
    using inv row(1) by (auto simp: outbox_inv_def)
  moreover have "or_payload row' = or_payload row" if "row' \<in> set (outbox_rows w)" "or_id row' = or_id row" for row'
  proof -
    have "inj_on or_id (set (outbox_rows w))" using inv by (simp add: outbox_inv_def distinct_map)
    then show ?thesis using inj_onD [OF _ that(2,1) row(1)] by simp
  qed
  moreover have "or_id row \<le> outbox_seq w" using inv row(1) by (simp add: outbox_inv_def)
  moreover have "oe_id e = Some (or_id row)" "oe_payload e = or_payload row" by (simp_all add: row(2) row_entry_def)
  ultimately show ?thesis unfolding was_polled_def by metis
qed

lemma was_polled_step: "was_polled fl w e \<Longrightarrow> outbox_step view fl stream w w' \<Longrightarrow> was_polled fl w' e"
  by (fastforce simp: was_polled_def outbox_step_def)

lemma delete_step:
  assumes "was_polled fl w e" and "oe_id e = Some i" 
    and "\<And>order. ob_text_ok order \<Longrightarrow> order_payload fl order = oe_payload e \<Longrightarrow> is_published view fl stream w order"
  shows "outbox_step view fl stream w (snd (delete_outbox_entry i w))"
proof (cases "''outbox'' \<in> set (tables w)")
  case False
  then show ?thesis by (simp add: delete_outbox_entry_def transaction_def)
next
  case True
  let ?w = "w\<lparr>outbox_rows := filter (\<lambda>row. or_id row \<noteq> i) (outbox_rows w)\<rparr>"
  have run: "snd (delete_outbox_entry i w) = ?w" using True by (simp add: delete_outbox_entry_def transaction_def)
  have gone: "is_published view fl stream w order" if "row \<in> set (outbox_rows w)" "or_id row = i"
    "or_payload row = order_payload fl order" "ob_text_ok order" for row order
    using assms that by (auto simp: was_polled_def)
  have "outbox_inv view fl stream ?w" if inv: "outbox_inv view fl stream w"
  proof -
    have "is_published view fl stream ?w order \<or> order_payload fl order \<in> or_payload ` set (outbox_rows ?w)"
      if "order \<in> set (order_rows w)" for order
      using inv that gone by (force simp: outbox_inv_def is_published_def image_iff)
    then show ?thesis using inv by (auto simp: outbox_inv_def distinct_map_filter)
  qed
  then show ?thesis unfolding run by (simp add: outbox_step_def)
qed

subsection \<open>The relay\<close>

text \<open>Two orders with the same payload have the same event, because the payload is read back to it.\<close>

lemma payload_determines_event:
  assumes "ob_text_ok order" and "float_json_ok fl" and "ob_text_ok order'"
    and "order_payload fl order' = order_payload fl order"
  shows "order_created_event fl order' = order_created_event fl order"
  using payload_loads [OF assms(1,2)] payload_loads [OF assms(3,2)] assms(4) by (simp add: order_created_event_def)

context durable_redis
begin

lemma publish_step:
  assumes "rb_publish R stream event w = (res, w')"
  shows "outbox_step view fl stream w w'" and "outbox_rows w' = outbox_rows w" and "outbox_seq w' = outbox_seq w"
    and "res = Inr i \<Longrightarrow> event \<in> snd ` set (ks_entries (view (srv w')) stream)"
proof -
  obtain r' where r: "xadd R stream event (srv w) = (res, r')" "w' = w\<lparr>srv := r'\<rparr>"
    using assms by (auto simp: rb_publish_def redis_call_eq_iff)
  have "snd ` set (ks_entries (view (srv w)) stream) \<subseteq> snd ` set (ks_entries (view r') stream)"
    by (rule image_mono [OF xadd_keeps [OF r(1)]])
  then show "outbox_step view fl stream w w'" using r(2)
    by (auto simp: outbox_step_def outbox_inv_def is_published_def)
  show "outbox_rows w' = outbox_rows w" "outbox_seq w' = outbox_seq w" using r(2) by simp_all
  show "event \<in> snd ` set (ks_entries (view (srv w')) stream)" if "res = Inr i"
    using xadd_law [of stream event "srv w" i r'] r that by simp
qed

lemma relay_entry_step:
  assumes fl: "float_json_ok fl" and env: "\<And>w. outbox_step view fl stream w (elsewhere w)"
    and e: "was_polled fl w e" and run: "relay_entry R fl stream elsewhere e w = (res, w')"
  shows "outbox_step view fl stream w w'"
proof -
  obtain i order where o: "oe_id e = Some i" "ob_text_ok order" "oe_payload e = order_payload fl order"
    using e by (auto simp: was_polled_def)
  obtain payload where p: "json_loads fl (oe_payload e) = Inr payload"
    "map (\<lambda>(k, v). (k, value_str fl v)) payload = order_created_event fl order"
    using payload_event [OF o(2) fl] o(3) by metis
  obtain r1 w1 where pub: "rb_publish R stream (order_created_event fl order) (elsewhere w) = (r1, w1)" by fastforce
  have s1: "outbox_step view fl stream w w1" using env publish_step(1) [OF pub] outbox_step_trans by blast
  show ?thesis
  proof (cases r1)
    case (Inl x)
    then have "w' = w1" using run p pub by (simp add: relay_entry_def bnd_def [of "rb_publish _ _ _"])
    then show ?thesis using s1 by simp
  next
    case (Inr msg)
    have w1: "was_polled fl w1 e" by (rule was_polled_step [OF e s1])
    have "is_published view fl stream w1 order'" if "ob_text_ok order'" "order_payload fl order' = oe_payload e" for order'
      using publish_step(4) [OF pub Inr] payload_determines_event [OF o(2) fl that(1)] that(2) o(3)
      by (simp add: is_published_def)
    then have s2: "outbox_step view fl stream w1 (snd (delete_outbox_entry i w1))" by (rule delete_step [OF w1 o(1)])
    obtain r2 w2 where del: "delete_outbox_entry i w1 = (r2, w2)" by fastforce
    have "w' = w2 \<or> w' = snd (incr ''transactional_outbox'' ''entries_relayed'' 1 w2)"
      using run p pub Inr o(1) del
      by (cases r2) (simp_all add: relay_entry_def bnd_def [of "rb_publish _ _ _"] bnd_def [of "delete_outbox_entry _"])
    moreover have "outbox_step view fl stream w w2" using outbox_step_trans [OF s1 s2] del by simp
    ultimately show ?thesis using incr_step by blast
  qed
qed

lemma relay_entries_step:
  assumes fl: "float_json_ok fl" and env: "\<And>w. outbox_step view fl stream w (elsewhere w)"
    and "\<forall>e \<in> set es. was_polled fl w e"
    and "for_each (\<lambda>entry _. relay_entry R fl stream elsewhere entry) es u w = (res, w')"
  shows "outbox_step view fl stream w w'"
  using assms(3,4)
proof (induction es arbitrary: u w)
  case Nil
  then show ?case by simp
next
  case (Cons e es)
  obtain r1 w1 where one: "relay_entry R fl stream elsewhere e w = (r1, w1)" by fastforce
  have s1: "outbox_step view fl stream w w1" using relay_entry_step [OF fl env _ one] Cons.prems(1) by simp
  show ?case
  proof (cases r1)
    case (Inl x)
    then show ?thesis using Cons.prems(2) one s1 by (simp add: bnd_def)
  next
    case (Inr u1)
    have "\<forall>e \<in> set es. was_polled fl w1 e" using Cons.prems(1) was_polled_step [OF _ s1] by simp
    moreover have "for_each (\<lambda>entry _. relay_entry R fl stream elsewhere entry) es u1 w1 = (res, w')"
      using Cons.prems(2) one Inr by (simp add: bnd_def)
    ultimately show ?thesis using Cons.IH s1 outbox_step_trans by blast
  qed
qed

lemma relay_run_step:
  assumes fl: "float_json_ok fl" and "outbox_inv view fl stream w"
    and "\<forall>(elsewhere, nap) \<in> set envs. \<forall>w. outbox_step view fl stream w (elsewhere w) \<and> outbox_step view fl stream w (nap w)"
    and "relay_run R fl stream envs w = (res, w')"
  shows "outbox_step view fl stream w w'"
  using assms(2-4)
proof (induction envs arbitrary: w)
  case Nil
  then show ?case by simp
next
  case (Cons env envs)
  obtain elsewhere nap where env: "env = (elsewhere, nap)" by (cases env)
  have steps: "outbox_step view fl stream w (elsewhere w)" "outbox_step view fl stream w (nap w)" for w
    using Cons.prems(2) env by auto
  obtain r1 w1 where one: "relay_turn R fl stream elsewhere w = (r1, w1)" by fastforce
  have s1: "outbox_step view fl stream w w1"
  proof (cases "poll_outbox 10 w")
    case (Pair r w0)
    note p = poll_outbox_run [OF Pair]
    show ?thesis
    proof (cases r)
      case (Inl x)
      then show ?thesis using one Pair p by (simp add: relay_turn_def bnd_def)
    next
      case (Inr es)
      then have "\<forall>e \<in> set es. was_polled fl w e" using p polled_was_polled [OF _ Cons.prems(1)] by simp
      moreover have "for_each (\<lambda>entry _. relay_entry R fl stream elsewhere entry) es () w = (r1, w1)"
        using one Pair p Inr by (simp add: relay_turn_def bnd_def)
      ultimately show ?thesis by (rule relay_entries_step [OF fl steps(1)])
    qed
  qed
  show ?case
  proof (cases r1)
    case (Inl x)
    then show ?thesis using Cons.prems(3) env one s1 by (simp add: bnd_def)
  next
    case (Inr u)
    have s2: "outbox_step view fl stream w (nap w1)" using s1 steps(2) outbox_step_trans by blast
    then have "outbox_inv view fl stream (nap w1)" using Cons.prems(1) by (simp add: outbox_step_def)
    then have "outbox_step view fl stream (nap w1) w'"
      using Cons.IH [of "nap w1"] Cons.prems(2,3) env one Inr by (simp add: bnd_def)
    then show ?thesis using s2 outbox_step_trans by blast
  qed
qed

end

end
