(* ===== verification/Outbox_Drain.thy ===== *)
theory Outbox_Drain
  imports Outbox_Relay
begin

section \<open>The relay at work\<close>

text \<open>
  With the broker up and no other task, a turn of the relay publishes the events of the first ten rows in
  the order of their numbers and deletes those rows, so enough turns empty the table.
\<close>

text \<open>The rows of these orders, with ascending numbers.\<close>

definition rows_of :: "float_text \<Rightarrow> ob_order list \<Rightarrow> outbox_row list \<Rightarrow> bool" where
  "rows_of fl os rows \<longleftrightarrow> list_all2 (\<lambda>order row. ob_text_ok order \<and> or_payload row = order_payload fl order) os rows \<and>
     sorted_wrt (<) (map or_id rows)"

lemma rows_of_drop: "rows_of fl os rows \<Longrightarrow> rows_of fl (drop n os) (drop n rows)"
  by (simp add: rows_of_def list_all2_dropI drop_map [symmetric] sorted_wrt_drop)

definition stream_events :: "('r \<Rightarrow> keyspace) \<Rightarrow> string \<Rightarrow> ('r, 'x) world_scheme \<Rightarrow> fields list" where
  "stream_events view stream w = map snd (ks_entries (view (srv w)) stream)"

context redis_available
begin

lemma relay_entry_run:
  assumes fl: "float_json_ok fl" and o: "ob_text_ok order" "or_payload row = order_payload fl order"
    and tab: "''outbox'' \<in> set (tables w)"
  shows "\<exists>w'. relay_entry R fl stream (\<lambda>w. w) (row_entry row) w = (Inr (), w') \<and>
    stream_events view stream w' = stream_events view stream w @ [order_created_event fl order] \<and>
    outbox_rows w' = filter (\<lambda>r. or_id r \<noteq> or_id row) (outbox_rows w) \<and> order_rows w' = order_rows w \<and>
    tables w' = tables w \<and> outbox_seq w' = outbox_seq w"
proof -
  obtain payload where p: "json_loads fl (order_payload fl order) = Inr payload"
    "map (\<lambda>(k, v). (k, value_str fl v)) payload = order_created_event fl order"
    by (rule payload_event [OF o(1) fl])
  have "order_created_event fl order \<noteq> []" by (simp add: order_created_event_def)
  then obtain i r' where x: "xadd R stream (order_created_event fl order) (srv w) = (Inr i, r')"
    using xadd_up by blast
  then have pub: "rb_publish R stream (order_created_event fl order) w = (Inr i, w\<lparr>srv := r'\<rparr>)"
    by (simp add: rb_publish_def redis_call_def)
  have del: "delete_outbox_entry (or_id row) (w\<lparr>srv := r'\<rparr>) =
      (Inr (), w\<lparr>srv := r', outbox_rows := filter (\<lambda>r. or_id r \<noteq> or_id row) (outbox_rows w)\<rparr>)"
    using tab by (simp add: delete_outbox_entry_def transaction_def)
  have "view r' = ks_xadd stream i (order_created_event fl order) (view (srv w))" using xadd_law [OF x] by simp
  then show ?thesis using o(2) p pub del
    by (simp add: relay_entry_def row_entry_def bnd_def [of "rb_publish _ _ _"] bnd_def [of "delete_outbox_entry _"]
        incr_def stream_events_def)
qed

lemma relay_entries_run:
  assumes fl: "float_json_ok fl" and "rows_of fl (os @ os') (rs @ rest)" and "length os = length rs"
    and "outbox_rows w = rs @ rest" and "''outbox'' \<in> set (tables w)"
  shows "\<exists>w'. for_each (\<lambda>entry _. relay_entry R fl stream (\<lambda>w. w) entry) (map row_entry rs) () w = (Inr (), w') \<and>
    stream_events view stream w' = stream_events view stream w @ map (order_created_event fl) os \<and>
    outbox_rows w' = rest \<and> order_rows w' = order_rows w \<and> tables w' = tables w \<and> outbox_seq w' = outbox_seq w"
  using assms(2-5)
proof (induction rs arbitrary: os w)
  case Nil
  then show ?case by simp
next
  case (Cons row rs)
  obtain order os1 where os: "os = order # os1" using Cons.prems(2) by (cases os) auto
  have o: "ob_text_ok order" "or_payload row = order_payload fl order" and rest: "rows_of fl (os1 @ os') (rs @ rest)"
    and later: "\<forall>r \<in> set (rs @ rest). or_id row < or_id r"
    using Cons.prems(1) by (auto simp: rows_of_def os)
  obtain w1 where w1: "relay_entry R fl stream (\<lambda>w. w) (row_entry row) w = (Inr (), w1)"
    "stream_events view stream w1 = stream_events view stream w @ [order_created_event fl order]"
    "outbox_rows w1 = filter (\<lambda>r. or_id r \<noteq> or_id row) (outbox_rows w)" "order_rows w1 = order_rows w"
    "tables w1 = tables w" "outbox_seq w1 = outbox_seq w"
    using relay_entry_run [OF fl o Cons.prems(4)] by blast
  have "outbox_rows w1 = rs @ rest" using w1(3) Cons.prems(3) filter_True [of "rs @ rest" "\<lambda>r. or_id r \<noteq> or_id row"] later
    by fastforce
  then obtain w' where "for_each (\<lambda>entry _. relay_entry R fl stream (\<lambda>w. w) entry) (map row_entry rs) () w1 = (Inr (), w')"
    "stream_events view stream w' = stream_events view stream w1 @ map (order_created_event fl) os1"
    "outbox_rows w' = rest" "order_rows w' = order_rows w1" "tables w' = tables w1" "outbox_seq w' = outbox_seq w1"
    using Cons.IH [OF rest _ _, of w1] Cons.prems(2,4) w1(5) os by auto
  then show ?case using w1 os by (simp add: bnd_def)
qed

lemma relay_turn_run:
  assumes fl: "float_json_ok fl" and rows: "rows_of fl os (outbox_rows w)" and tab: "''outbox'' \<in> set (tables w)"
  shows "\<exists>w'. relay_turn R fl stream (\<lambda>w. w) w = (Inr (), w') \<and>
    stream_events view stream w' = stream_events view stream w @ map (order_created_event fl) (take 10 os) \<and>
    outbox_rows w' = drop 10 (outbox_rows w) \<and> order_rows w' = order_rows w \<and> tables w' = tables w \<and>
    outbox_seq w' = outbox_seq w"
proof -
  have len: "length os = length (outbox_rows w)" using rows by (auto simp: rows_of_def dest: list_all2_lengthD)
  have "sorted (map or_id (outbox_rows w))" using rows by (simp add: rows_of_def strict_sorted_iff)
  then have "sort_key or_id (outbox_rows w) = outbox_rows w" by (rule sort_key_id_if_sorted)
  then have poll: "poll_outbox 10 w = (Inr (map row_entry (take 10 (outbox_rows w))), w)"
    using tab by (simp add: poll_outbox_def Let_def)
  obtain w' where "for_each (\<lambda>entry _. relay_entry R fl stream (\<lambda>w. w) entry) (map row_entry (take 10 (outbox_rows w))) () w
      = (Inr (), w')"
    "stream_events view stream w' = stream_events view stream w @ map (order_created_event fl) (take 10 os)"
    "outbox_rows w' = drop 10 (outbox_rows w)" "order_rows w' = order_rows w" "tables w' = tables w" "outbox_seq w' = outbox_seq w"
    using relay_entries_run [OF fl, of "take 10 os" "drop 10 os" "take 10 (outbox_rows w)" "drop 10 (outbox_rows w)" w stream]
      rows len tab by auto
  then show ?thesis using poll by (simp add: relay_turn_def bnd_def)
qed

lemma relay_drains:
  assumes fl: "float_json_ok fl" and "rows_of fl os (outbox_rows w)" and "''outbox'' \<in> set (tables w)"
    and "length os \<le> 10 * n"
  shows "\<exists>w'. relay_run R fl stream (replicate n (\<lambda>w. w, \<lambda>w. w)) w = (Inr (), w') \<and>
    stream_events view stream w' = stream_events view stream w @ map (order_created_event fl) os \<and>
    outbox_rows w' = [] \<and> order_rows w' = order_rows w"
  using assms(2-4)
proof (induction n arbitrary: os w)
  case 0
  then show ?case by (simp add: rows_of_def)
next
  case (Suc n)
  obtain w1 where w1: "relay_turn R fl stream (\<lambda>w. w) w = (Inr (), w1)"
    "stream_events view stream w1 = stream_events view stream w @ map (order_created_event fl) (take 10 os)"
    "outbox_rows w1 = drop 10 (outbox_rows w)" "order_rows w1 = order_rows w" "tables w1 = tables w"
    using relay_turn_run [OF fl Suc.prems(1,2)] by blast
  have "rows_of fl (drop 10 os) (outbox_rows w1)" unfolding w1(3) by (rule rows_of_drop [OF Suc.prems(1)])
  moreover have "length (drop 10 os) \<le> 10 * n" using Suc.prems(3) by simp
  ultimately obtain w' where "relay_run R fl stream (replicate n (\<lambda>w. w, \<lambda>w. w)) w1 = (Inr (), w')"
    "stream_events view stream w' = stream_events view stream w1 @ map (order_created_event fl) (drop 10 os)"
    "outbox_rows w' = []" "order_rows w' = order_rows w1"
    using Suc.IH [of "drop 10 os" w1] Suc.prems(2,3) w1(5) by auto
  then show ?case using w1 by (simp add: bnd_def map_append [symmetric])
qed

end

subsection \<open>Placing orders\<close>

definition place_orders :: "float_text \<Rightarrow> ob_order list \<Rightarrow> (('r, 'x) outbox_world_scheme, unit) io" where
  "place_orders fl os = for_each (\<lambda>order _. bnd (insert_order_with_outbox fl order) (\<lambda>_. ret ())) os ()"

lemma rows_of_snoc:
  assumes "rows_of fl os rows" and "ob_text_ok order" and "or_payload row = order_payload fl order"
    and "\<forall>r \<in> set rows. or_id r < or_id row"
  shows "rows_of fl (os @ [order]) (rows @ [row])"
  using assms by (auto simp: rows_of_def list_all2_appendI sorted_wrt_append)

lemma place_orders_run:
  assumes "{''orders'', ''outbox''} \<subseteq> set (tables w)" and "rows_of fl done_os (outbox_rows w)"
    and "\<forall>r \<in> set (outbox_rows w). or_id r \<le> outbox_seq w"
    and "distinct (map ob_order_id (order_rows w @ os))"
    and "\<forall>order \<in> set os. ob_text_ok order \<and> ob_amount order \<noteq> NaN"
  shows "\<exists>w'. place_orders fl os w = (Inr (), w') \<and> order_rows w' = order_rows w @ os \<and>
    rows_of fl (done_os @ os) (outbox_rows w') \<and> tables w' = tables w \<and> srv w' = srv w"
  using assms
proof (induction os arbitrary: w done_os)
  case Nil
  then show ?case by (simp add: place_orders_def)
next
  case (Cons order os)
  show ?case
  proof (cases rule: insert_order_cases [of fl order w])
    case (refused e)
    then show ?thesis using Cons.prems by auto
  next
    case (inserted w1)
    let ?row = "\<lparr>or_id = outbox_seq w + 1, or_order_id = ob_order_id order, or_payload = order_payload fl order,
      or_created_at = wall w\<rparr>"
    have rows: "rows_of fl (done_os @ [order]) (outbox_rows w1)" unfolding inserted(5)
      using Cons.prems(2,3,5) by (intro rows_of_snoc) (auto simp: less_eq_Suc_le)
    have "\<exists>w'. place_orders fl os w1 = (Inr (), w') \<and> order_rows w' = order_rows w1 @ os \<and>
        rows_of fl ((done_os @ [order]) @ os) (outbox_rows w') \<and> tables w' = tables w1 \<and> srv w' = srv w1"
      using Cons.prems inserted rows by (intro Cons.IH) auto
    then show ?thesis using inserted by (auto simp: place_orders_def bnd_def)
  qed
qed

end
