(* ===== verification/Outbox_Properties.thy ===== *)
theory Outbox_Properties
  imports Outbox_Drain
begin

section \<open>Properties of the transactional outbox\<close>

text \<open>
  No committed order loses its event, a working relay delivers every event, and the dual write loses
  them. The witnesses run on \<open>mem_redis\<close>, with the float texts of \<open>demo_floats\<close>.
\<close>

definition outbox_demo_world :: "keyspace outbox_world" where
  "outbox_demo_world = \<lparr>reg = [], wall = ''now'', srv = empty_keyspace, tables = [''orders'', ''outbox''],
     order_rows = [], outbox_rows = [], outbox_seq = 0\<rparr>"

definition demo_ob_order :: "string \<Rightarrow> ob_order" where
  "demo_ob_order i = \<lparr>ob_order_id = i, ob_customer_id = ''c'', ob_amount = Finite 5, ob_created_at = ''now''\<rparr>"

lemma demo_ob_order_ok: "ob_text_ok (demo_ob_order ''o1'')" "ob_text_ok (demo_ob_order ''o2'')"
  by (simp_all add: ob_text_ok_def demo_ob_order_def)

lemma outbox_demo_inv: "outbox_inv view fl stream outbox_demo_world"
  by (simp add: outbox_inv_def outbox_demo_world_def)

text \<open>
  C31: no event of a committed order is lost. However a run of the relay ends (the broker may refuse a
  publication, which ends it), and whatever other tasks insert or relay meanwhile, every order in the
  database still has its event in the outbox or has it on the stream. Inserting orders and running
  another relay are such other tasks; and an insertion that fails changes nothing.
\<close>

theorem outbox_no_event_lost:
  assumes "durable_redis R view" and "float_json_ok fl" and "outbox_inv view fl stream w"
    and "\<forall>(elsewhere, nap) \<in> set envs. \<forall>w.
      outbox_step view fl stream w (elsewhere w) \<and> outbox_step view fl stream w (nap w)"
    and "relay_run R fl stream envs w = (res, w')"
  shows "(\<forall>order \<in> set (order_rows w'). order_created_event fl order \<in> set (stream_events view stream w') \<or>
      (\<exists>row \<in> set (outbox_rows w'). or_payload row = order_payload fl order)) \<and>
    outbox_step view fl stream w w' \<and>
    (\<forall>order. ob_text_ok order \<longrightarrow> outbox_step view fl stream w (snd (insert_order_with_outbox fl order w))) \<and>
    (\<forall>order. case insert_order_with_outbox fl order w of (Inl e, w2) \<Rightarrow> w2 = w | (Inr entry, w2) \<Rightarrow>
      order_rows w2 = order_rows w @ [order] \<and> length (outbox_rows w2) = Suc (length (outbox_rows w)))"
proof -
  have step: "outbox_step view fl stream w w'"
    by (rule durable_redis.relay_run_step [OF assms(1,2,3,4,5)])
  then have "outbox_inv view fl stream w'" using assms(3) by (simp add: outbox_step_def)
  then have kept: "\<forall>order \<in> set (order_rows w'). order_created_event fl order \<in> set (stream_events view stream w') \<or>
      (\<exists>row \<in> set (outbox_rows w'). or_payload row = order_payload fl order)"
    by (fastforce simp: outbox_inv_def is_published_def stream_events_def)
  have "case insert_order_with_outbox fl order w of (Inl e, w2) \<Rightarrow> w2 = w | (Inr entry, w2) \<Rightarrow>
      order_rows w2 = order_rows w @ [order] \<and> length (outbox_rows w2) = Suc (length (outbox_rows w))" for order
    by (cases rule: insert_order_cases [of fl order w]) simp_all
  then show ?thesis using kept step insert_step by blast
qed

theorem outbox_no_event_lost_witness:
  "outbox_step (\<lambda>k. k) demo_floats ''s'' (snd (insert_order_with_outbox demo_floats (demo_ob_order ''o1'') outbox_demo_world))
     (snd (relay_run mem_redis demo_floats ''s''
       [(\<lambda>w. snd (insert_order_with_outbox demo_floats (demo_ob_order ''o2'') w), \<lambda>w. w)]
       (snd (insert_order_with_outbox demo_floats (demo_ob_order ''o1'') outbox_demo_world))))"
proof -
  let ?w = "snd (insert_order_with_outbox demo_floats (demo_ob_order ''o1'') outbox_demo_world)"
  let ?envs = "[(\<lambda>w. snd (insert_order_with_outbox demo_floats (demo_ob_order ''o2'') w), \<lambda>w. w)]"
  have inv: "outbox_inv (\<lambda>k. k) demo_floats ''s'' ?w"
    using insert_step [OF demo_ob_order_ok(1), where w = outbox_demo_world and view = "\<lambda>k. k" and fl = demo_floats]
      outbox_demo_inv by (simp add: outbox_step_def)
  have envs: "\<forall>(elsewhere, nap) \<in> set ?envs. \<forall>w. outbox_step (\<lambda>k. k) demo_floats ''s'' w (elsewhere w) \<and>
      outbox_step (\<lambda>k. k) demo_floats ''s'' w (nap w)"
    by (simp add: insert_step [OF demo_ob_order_ok(2)])
  show ?thesis
    using outbox_no_event_lost [OF mem_durable.durable_redis_axioms demo_floats_ok inv envs, of
        "fst (relay_run mem_redis demo_floats ''s'' ?envs ?w)" "snd (relay_run mem_redis demo_floats ''s'' ?envs ?w)"]
    by (simp only: prod.collapse simp_thms)
qed

text \<open>
  C32: a working relay delivers everything. New orders with distinct ids are all accepted, and as many
  turns as there are tens of them publish exactly their events, once each and in the order of placing,
  and empty the outbox. The events are the ones the dual write would have sent: the payload survives
  \<^verbatim>\<open>json.dumps\<close> and \<^verbatim>\<open>json.loads\<close>.
\<close>

theorem outbox_relays_every_order:
  assumes "redis_available R view" and "float_json_ok fl"
    and "{''orders'', ''outbox''} \<subseteq> set (tables w)" and "outbox_rows w = []"
    and "distinct (map ob_order_id (order_rows w @ os))"
    and "\<forall>order \<in> set os. ob_text_ok order \<and> ob_amount order \<noteq> NaN"
    and "length os \<le> 10 * n"
  shows "\<exists>w1 w2. place_orders fl os w = (Inr (), w1) \<and> order_rows w1 = order_rows w @ os \<and>
    relay_run R fl stream (replicate n (\<lambda>w. w, \<lambda>w. w)) w1 = (Inr (), w2) \<and>
    stream_events view stream w2 = stream_events view stream w @ map (order_created_event fl) os \<and>
    outbox_rows w2 = [] \<and> order_rows w2 = order_rows w @ os"
proof -
  have "rows_of fl [] (outbox_rows w)" using assms(4) by (simp add: rows_of_def)
  then obtain w1 where w1: "place_orders fl os w = (Inr (), w1)" "order_rows w1 = order_rows w @ os"
    "rows_of fl os (outbox_rows w1)" "tables w1 = tables w" "srv w1 = srv w"
    using place_orders_run [OF assms(3) _ _ assms(5,6), of fl "[]"] assms(4) by auto
  have "''outbox'' \<in> set (tables w1)" using w1(4) assms(3) by simp
  then obtain w2 where "relay_run R fl stream (replicate n (\<lambda>w. w, \<lambda>w. w)) w1 = (Inr (), w2)"
    "stream_events view stream w2 = stream_events view stream w1 @ map (order_created_event fl) os"
    "outbox_rows w2 = []" "order_rows w2 = order_rows w1"
    using redis_available.relay_drains [OF assms(1,2) w1(3) _ assms(7)] by blast
  then show ?thesis using w1 by (auto simp: stream_events_def)
qed

theorem outbox_relays_every_order_witness:
  "\<exists>w1 w2. place_orders demo_floats [demo_ob_order ''o1'', demo_ob_order ''o2''] outbox_demo_world = (Inr (), w1) \<and>
     relay_run mem_redis demo_floats ''s'' [(\<lambda>w. w, \<lambda>w. w)] w1 = (Inr (), w2) \<and> outbox_rows w2 = [] \<and>
     length (stream_events (\<lambda>k. k) ''s'' w2) = 2"
proof -
  have ok: "\<forall>order \<in> set [demo_ob_order ''o1'', demo_ob_order ''o2'']. ob_text_ok order \<and> ob_amount order \<noteq> NaN"
    using demo_ob_order_ok by (simp add: demo_ob_order_def)
  have none: "stream_events (\<lambda>k. k) ''s'' outbox_demo_world = []"
    by (simp add: stream_events_def outbox_demo_world_def empty_keyspace_def ks_entries_def)
  have start: "{''orders'', ''outbox''} \<subseteq> set (tables outbox_demo_world)" "outbox_rows outbox_demo_world = []"
    "distinct (map ob_order_id (order_rows outbox_demo_world @ [demo_ob_order ''o1'', demo_ob_order ''o2'']))"
    by (simp_all add: outbox_demo_world_def demo_ob_order_def)
  from outbox_relays_every_order [OF mem.redis_available_axioms demo_floats_ok start ok, of 1 "''s''"] show ?thesis
    by (auto simp: none)
qed

text \<open>
  The dual write loses the event. If the broker refuses, the order is committed, the caller gets the
  broker's error, and nothing in the database says that a publication is owed. If it accepts, the
  event is the one the relay would have sent.
\<close>

theorem dual_write_loses_event:
  assumes "''orders'' \<in> set (tables w)" and "ob_order_id order \<notin> ob_order_id ` set (order_rows w)"
    and "ob_amount order \<noteq> NaN"
    and "publish stream (order_created_event fl order) (w\<lparr>order_rows := order_rows w @ [order]\<rparr>) = (res, w')"
    and "order_rows w' = order_rows w @ [order] \<and> outbox_rows w' = outbox_rows w \<and> tables w' = tables w"
  shows "place_order_dual_write (\<lambda>m. m) fl publish order stream w = (res, w') \<and> outbox_rows w' = outbox_rows w \<and>
    fst (count_orders w') = Inr (int (length (order_rows w)) + 1) \<and>
    fst (place_order_dual_write (\<lambda>m. m) fl publish order stream w') = Inl IntegrityError"
  using assms by (simp add: place_order_dual_write_def transaction_def sql_insert_order_def bnd_def count_orders_def)

theorem dual_write_loses_event_witness:
  "fst (place_order_dual_write (\<lambda>m. m) demo_floats (\<lambda>s e. raise BrokerUnavailableError) (demo_ob_order ''o1'') ''s''
      outbox_demo_world) = Inl BrokerUnavailableError"
  using dual_write_loses_event [where w = outbox_demo_world and order = "demo_ob_order ''o1''" and fl = demo_floats
      and publish = "\<lambda>s e. raise BrokerUnavailableError" and stream = "''s''" and res = "Inl BrokerUnavailableError"
      and w' = "outbox_demo_world\<lparr>order_rows := [demo_ob_order ''o1'']\<rparr>"]
  by (simp add: outbox_demo_world_def demo_ob_order_def)

end
