(* ===== verification/Demo_Base.thy ===== *)
theory Demo_Base
  imports Redis_Memory "HOL-Library.List_Lexorder" "HOL-Library.Char_ord"
begin

section \<open>What the demonstrations share\<close>

text \<open>
  A backlog put on a stream before the consumers start, \<^verbatim>\<open>collections.Counter\<close>, and local variables of a
  script that its closures append to: the part of the world after the broker (\<open>on_app\<close>). Python orders
  strings by code points, which is the order of their UTF-8 bytes: \<open>sort\<close> with the lexicographic order of
  lists.
\<close>

definition on_app :: "('x, 'a) io \<Rightarrow> (('r, 'x) world_scheme, 'a) io" where
  "on_app m w = (case m (world.more w) of (r, x) \<Rightarrow> (r, w\<lparr>world.more := x\<rparr>))"

lemma on_app_apply [io_simps]: "m (app w) = (r, x) \<Longrightarrow> on_app m w = (r, w\<lparr>world.more := x\<rparr>)"
  by (simp add: on_app_def)

text \<open>\<^verbatim>\<open>collections.Counter(xs)\<close>: a dictionary in the order of first occurrence.\<close>

definition Counter :: "'a list \<Rightarrow> ('a, int) dict" where
  "Counter xs = fold (\<lambda>x d. AList.update x (dict_get d x 0 + 1) d) xs []"

lemma dict_get_update [simp]: "dict_get (AList.update k v d) j x = (if j = k then v else dict_get d j x)"
  by (simp add: dict_get_def)

lemma keys_update [simp]: "fst ` set (AList.update k v d) = insert k (fst ` set d)"
  by (metis dom_update insert_absorb list.set_map dom_map_of_conv_image_fst update_conv' dom_fun_upd option.distinct(1))

lemma Counter_fold:
  "dict_get (fold (\<lambda>x d. AList.update x (dict_get d x 0 + 1) d) xs d) y 0 = dict_get d y 0 + int (count_list xs y)"
  "distinct (dict_keys d) \<Longrightarrow> distinct (dict_keys (fold (\<lambda>x d. AList.update x (dict_get d x 0 + 1) d) xs d))"
  "set (dict_keys (fold (\<lambda>x d. AList.update x (dict_get d x 0 + 1) d) xs d)) = set (dict_keys d) \<union> set xs"
proof (induction xs arbitrary: d)
  case (Cons x xs)
  { case 1 show ?case using Cons.IH(1) by simp }
  { case 2 then show ?case using Cons.IH(2) by (simp add: distinct_update) }
  { case 3 show ?case using Cons.IH(3) by auto }
qed simp_all

lemma Counter_facts:
  "dict_get (Counter xs) y 0 = int (count_list xs y)" "distinct (dict_keys (Counter xs))"
  "set (dict_keys (Counter xs)) = set xs"
  unfolding Counter_def using Counter_fold [where xs = xs and d = "[]"] by (simp_all add: dict_get_def)

lemma Counter_item: "(k, n) \<in> set (Counter xs) \<Longrightarrow> n = int (count_list xs k)"
  using Counter_facts(1) [of xs k] Counter_facts(2) [of xs] by (simp add: dict_get_def map_of_is_SomeI)

text \<open>Counting several copies of a list without repetitions.\<close>

lemma count_list_distinct: "distinct xs \<Longrightarrow> count_list xs x = (if x \<in> set xs then 1 else 0)"
  by (induction xs) auto

lemma count_list_copies: "distinct xs \<Longrightarrow> x \<in> set xs \<Longrightarrow> count_list (concat (replicate n xs)) x = n"
proof (induction n)
  case (Suc n)
  then show ?case by (simp add: count_list_distinct)
qed simp

lemma Counter_copies:
  assumes "distinct xs" and "xs \<noteq> []" and "0 < n"
  shows "length (Counter (concat (replicate n xs))) = length xs"
    and "snd ` set (Counter (concat (replicate n xs))) = {int n}"
proof -
  let ?c = "Counter (concat (replicate n xs))"
  have keys: "set (dict_keys ?c) = set xs" using assms(3) by (simp only: Counter_facts) auto
  have "length ?c = card (set (dict_keys ?c))"
    using distinct_card [OF Counter_facts(2) [of "concat (replicate n xs)"]] by simp
  then show "length ?c = length xs" using distinct_card [OF assms(1)] by (simp only: keys)
  have "v = int n" if "(k, v) \<in> set ?c" for k v
    using Counter_item [OF that] count_list_copies [OF assms(1), of k n] keys that by (force simp: image_iff)
  moreover have "?c \<noteq> []" using keys assms(2) by auto
  ultimately show "snd ` set ?c = {int n}" by (cases ?c) force+
qed

definition push_all :: "'r redis \<Rightarrow> string \<Rightarrow> fields list \<Rightarrow> (('r, 'x) world_scheme, unit) io" where
  "push_all R stream fs = for_each (\<lambda>f _. bnd (redis_call (xadd R stream f)) (\<lambda>_. ret ())) fs ()"

context redis_available
begin

lemma push_all_run:
  assumes "\<forall>f \<in> set fs. f \<noteq> []"
    and "distinct (map fst (ks_entries (kv w) s))" and "''0'' \<notin> fst ` set (ks_entries (kv w) s)"
  shows "\<exists>w'. push_all R s fs w = (Inr (), w') \<and> app w' = app w \<and> reg w' = reg w \<and> wall w' = wall w \<and>
    map snd (ks_entries (kv w') s) = map snd (ks_entries (kv w) s) @ fs \<and>
    distinct (map fst (ks_entries (kv w') s)) \<and> ''0'' \<notin> fst ` set (ks_entries (kv w') s) \<and>
    (\<forall>g. ks_group (kv w) s g = None \<longrightarrow> ks_group (kv w') s g = None) \<and>
    (\<forall>s'. s' \<noteq> s \<longrightarrow> ks_streams (kv w') s' = ks_streams (kv w) s')"
  using assms
proof (induction fs arbitrary: w)
  case Nil
  then show ?case by (simp add: push_all_def)
next
  case (Cons f fs)
  then obtain i r' where x: "xadd R s f (srv w) = (Inr i, r')" using xadd_up [of f s "srv w"] by auto
  define w1 where "w1 = w\<lparr>srv := r'\<rparr>"
  have w1: "kv w1 = ks_xadd s i f (kv w)" "i \<noteq> ''0''" "i \<notin> fst ` set (ks_entries (kv w) s)"
    using xadd_law [OF x] by (simp_all add: w1_def)
  have prems: "\<forall>f \<in> set fs. f \<noteq> []" "distinct (map fst (ks_entries (kv w1) s))" "''0'' \<notin> fst ` set (ks_entries (kv w1) s)"
    using Cons.prems w1 by (auto simp: w1(1))
  have "ks_streams (kv w1) s' = ks_streams (kv w) s'" if "s' \<noteq> s" for s'
    using that by (simp add: w1(1) ks_xadd_def)
  moreover have "map snd (ks_entries (kv w1) s) = map snd (ks_entries (kv w) s) @ [f]" "app w1 = app w" "reg w1 = reg w"
      "wall w1 = wall w" "ks_group (kv w) s g = None \<longrightarrow> ks_group (kv w1) s g = None" for g
    unfolding w1(1) by (simp_all add: w1_def)
  moreover have "push_all R s (f # fs) w = push_all R s fs w1"
    by (simp add: push_all_def bnd_def redis_call_def x w1_def)
  moreover obtain w' where "push_all R s fs w1 = (Inr (), w')" "app w' = app w1" "reg w' = reg w1" "wall w' = wall w1"
    "map snd (ks_entries (kv w') s) = map snd (ks_entries (kv w1) s) @ fs"
    "distinct (map fst (ks_entries (kv w') s))" "''0'' \<notin> fst ` set (ks_entries (kv w') s)"
    "\<forall>g. ks_group (kv w1) s g = None \<longrightarrow> ks_group (kv w') s g = None"
    "\<forall>s'. s' \<noteq> s \<longrightarrow> ks_streams (kv w') s' = ks_streams (kv w1) s'"
    using Cons.IH [OF prems] by blast
  ultimately show ?case by auto
qed

end

end
