(* ===== verification/DLQ_Demo.thy ===== *)
theory DLQ_Demo
  imports DLQ_Spec DLQ_Naive Demo_Base
begin

section \<open>The dead-letter demonstration\<close>

text \<open>
  \<^verbatim>\<open>scripts/run_dlq_pattern.py\<close>: six payments, two of them malformed, through the pattern, a replay of all
  six, and the same six through the retry-forever baseline. The second task of the script's
  \<^verbatim>\<open>asyncio.gather\<close> only ends the consumer's loop, when the counters say that all payments have left the
  stream: \<open>turns\<close> is how many turns that takes. The script's final \<^verbatim>\<open>close\<close> is left out, what it logs is
  returned.
\<close>

definition dlq_demo_GROUP :: string where
  "dlq_demo_GROUP = ''payment_workers''"

definition MAX_ATTEMPTS :: int where
  "MAX_ATTEMPTS = 2"

definition PAYMENTS :: "payment list" where
  "PAYMENTS = map (\<lambda>(i, a, c, cur). \<lparr>payment_id = i, amount_cents = a, payment_customer_id = c, currency = cur\<rparr>)
     [(''PAY-001'', 9900, ''cust-A'', ''USD''),
      (''PAY-002'', 4500, ''cust-B'', ''EUR''),
      (''PAY-003'', -1, ''cust-C'', ''USD''),
      (''PAY-004'', 12000, ''cust-D'', ''GBP''),
      (''PAY-005'', -99, ''cust-E'', ''USD''),
      (''PAY-006'', 7800, ''cust-F'', ''EUR'')]"

definition charge_handler :: "('r, 'x) dlq_handler" where
  "charge_handler consumer_id payment =
     (if amount_cents payment < 0
      then raise (ValueError (''malformed amount: '' @ py_str_int (amount_cents payment)))
      else ret ())"

definition dlq_publish_all :: "'r redis \<Rightarrow> payment list \<Rightarrow> (('r, 'x) world_scheme, unit) io" where
  "dlq_publish_all R payments = for_each (\<lambda>payment _. bnd (dlq_publish R payment) (\<lambda>_. ret ())) payments ()"

definition dlq_drain :: "'r redis \<Rightarrow> string \<Rightarrow> nat \<Rightarrow> (('r, 'x) world_scheme, int) io" where
  "dlq_drain R consumer_id turns =
     run_idempotent_consumer R consumer_id dlq_demo_GROUP charge_handler MAX_ATTEMPTS 10 20 (replicate turns (\<lambda>w. w))"

definition dead_letter_ids :: "entry list \<Rightarrow> (('r, 'x) world_scheme, string list) io" where
  "dead_letter_ids entries =
     for_each (\<lambda>m ids. bnd (liftr (payment_from_fields (snd m))) (\<lambda>p. ret (ids @ [payment_id p]))) entries []"

definition dlq_demo_main :: "'r redis \<Rightarrow> nat \<Rightarrow> (('r, 'x) world_scheme, int \<times> string list \<times> int) io" where
  "dlq_demo_main R turns =
     bnd (delete_streams R [MAIN_STREAM, DLQ_STREAM, PROCESSED_SET]) (\<lambda>_.
     bnd (dlq_ensure_all_groups R dlq_demo_GROUP) (\<lambda>_.
     bnd (dlq_publish_all R PAYMENTS) (\<lambda>_.
     bnd (dlq_drain R ''worker-1'' turns) (\<lambda>processed.
     bnd (read_dlq R dlq_demo_GROUP ''inspector-1'' 100) (\<lambda>entries.
     bnd (dead_letter_ids entries) (\<lambda>dlq_ids.
     bnd (dlq_publish_all R PAYMENTS) (\<lambda>_.
     bnd (dlq_drain R ''worker-2'' turns) (\<lambda>processed_2.
     bnd (delete_streams R [MAIN_STREAM, DLQ_STREAM, PROCESSED_SET]) (\<lambda>_.
     ret (processed, dlq_ids, processed_2))))))))))"

subsection \<open>The baseline\<close>

definition dlq_NAIVE_GROUP :: string where
  "dlq_NAIVE_GROUP = ''naive_payment_workers''"

definition dlq_NAIVE_MAX_POLLS :: int where
  "dlq_NAIVE_MAX_POLLS = 10"

text \<open>\<^verbatim>\<open>max(d.items(), key=lambda item: item[1])\<close>: the first item with the greatest value.\<close>

definition max_item :: "(string, int) dict \<Rightarrow> exn + (string \<times> int)" where
  "max_item d = (case d of [] \<Rightarrow> Inl (ValueError ''max() iterable argument is empty'')
     | item # items \<Rightarrow> Inr (foldl (\<lambda>best item. if snd best < snd item then item else best) item items))"

record starvation_report =
  naive_result :: naive_run_result
  poison_id :: string
  poison_attempts :: int
  starved :: "string list"
  dlq_length :: int
  still_pending :: int

definition dlq_run_naive :: "'r redis \<Rightarrow> (('r, 'x) world_scheme, starvation_report) io" where
  "dlq_run_naive R =
     bnd (delete_streams R [MAIN_STREAM, DLQ_STREAM, PROCESSED_SET]) (\<lambda>_.
     bnd (dlq_ensure_all_groups R dlq_NAIVE_GROUP) (\<lambda>_.
     bnd (dlq_publish_all R PAYMENTS) (\<lambda>_.
     bnd (run_retry_forever_consumer R ''naive-worker-1'' dlq_NAIVE_GROUP charge_handler dlq_NAIVE_MAX_POLLS 10 (\<lambda>_ w. w)) (\<lambda>result.
     bnd (liftr (max_item (nr_failures result))) (\<lambda>(pid, attempts).
     let starved = map payment_id (filter (\<lambda>p. payment_id p \<notin> set (nr_processed result) \<and>
       payment_id p \<notin> fst ` set (nr_failures result)) PAYMENTS) in
     bnd (redis_call (xlen R DLQ_STREAM)) (\<lambda>dlq_length.
     bnd (redis_call (xpending R MAIN_STREAM dlq_NAIVE_GROUP)) (\<lambda>pending.
     bnd (delete_streams R [MAIN_STREAM, DLQ_STREAM, PROCESSED_SET]) (\<lambda>_.
     ret \<lparr>naive_result = result, poison_id = pid, poison_attempts = attempts, starved = starved,
       dlq_length = dlq_length, still_pending = pending\<rparr>))))))))"

subsection \<open>What happens to the pipeline around a run\<close>

definition charge_verdict :: verdict where
  "charge_verdict p = (if amount_cents p < 0
     then Some (ValueError (''malformed amount: '' @ py_str_int (amount_cents p))) else None)"

lemma charge_handler_decides: "decides charge_verdict c charge_handler"
  by (simp add: decides_def charge_handler_def charge_verdict_def raise_def ret_def)

lemma payments_ok: "\<forall>p \<in> set PAYMENTS. payment_text_ok p"
  by (simp add: PAYMENTS_def payment_text_ok_def valid_utf8_ascii)

definition fresh_pipeline :: pipeline where
  "fresh_pipeline = \<lparr>pl_new = [], pl_pending = [], pl_processed = {}, pl_parked = [], pl_inspected = 0,
     pl_tries = (\<lambda>_. 0), pl_total = 0\<rparr>"

abbreviation no_locals :: dlq_locals where
  "no_locals \<equiv> \<lparr>attempts = [], total_processed = 0\<rparr>"

lemma implements_new_ids: "implements g c others k l s \<Longrightarrow> distinct (map fst (pl_new s))"
proof -
  assume "implements g c others k l s"
  then obtain gr where gr: "list_all2 parsed (g_new gr) (pl_new s)" "group_wf (ks_entries k MAIN_STREAM) gr"
    by (rule implements_group)
  have "map fst (g_new gr) = map fst (pl_new s)"
    using gr(1) by (induction rule: list_all2_induct) (simp_all add: parsed_def)
  moreover have "distinct (map fst (g_new gr))" using gr(2) by (simp add: group_wf_def outstanding_def)
  ultimately show ?thesis by simp
qed

lemma implements_restart:
  "implements g c others k l s \<Longrightarrow> pl_tries s = (\<lambda>_. 0) \<Longrightarrow> implements g c others k no_locals (s\<lparr>pl_total := 0\<rparr>)"
  by (simp add: implements_def dict_get_def)

context redis_available
begin

lemma ensure_fresh:
  assumes "ks_group (kv w) MAIN_STREAM g = None" and "ks_group (kv w) DLQ_STREAM g = None"
    and "ks_entries (kv w) MAIN_STREAM = []" and "ks_entries (kv w) DLQ_STREAM = []"
    and "ks_live_set (kv w) PROCESSED_SET = {}"
  obtains w' where "dlq_ensure_all_groups R g w = (Inr (), w')" and "implements g c {} (kv w') no_locals fresh_pipeline"
proof -
  obtain b1 w1 where 1: "dlq_ensure_group R MAIN_STREAM g w = (Inr b1, w1)"
    using dlq_ensure_group_up by blast
  obtain b2 w2 where 2: "dlq_ensure_group R DLQ_STREAM g w1 = (Inr b2, w2)"
    using dlq_ensure_group_up by blast
  have "dlq_ensure_all_groups R g w = (Inr (), w2)"
    by (simp add: dlq_ensure_all_groups_def bnd_def 1 2)
  moreover have "implements g c {} (kv w2) no_locals fresh_pipeline"
    using assms dlq_ensure_group_effect [OF 1] dlq_ensure_group_effect [OF 2]
    by (simp add: implements_def fresh_pipeline_def owned_by_def new_group_def group_wf_def outstanding_def
        pel_entries_def dict_get_def)
  ultimately show ?thesis by (rule that)
qed

lemma publish_all_implements:
  assumes "implements g c others (kv w) l s" and "\<forall>p \<in> set ps. payment_text_ok p"
  shows "\<exists>w' xs. dlq_publish_all R ps w = (Inr (), w') \<and> map snd xs = ps \<and>
    implements g c others (kv w') l (s\<lparr>pl_new := pl_new s @ xs\<rparr>)"
  using assms
proof (induction ps arbitrary: w s)
  case Nil
  then show ?case by (auto simp: dlq_publish_all_def)
next
  case (Cons p ps)
  obtain i w1 where pub: "dlq_publish R p w = (Inr i, w1)" using dlq_publish_up by blast
  have "implements g c others (kv w1) l (s\<lparr>pl_new := pl_new s @ [(i, p)]\<rparr>)"
    using dlq_publish_effect [OF pub] implements_publish [OF Cons.prems(1), of p i] Cons.prems(2) by simp
  then obtain w' xs where *: "dlq_publish_all R ps w1 = (Inr (), w')" "map snd xs = ps"
    "implements g c others (kv w') l (s\<lparr>pl_new := (pl_new s @ [(i, p)]) @ xs\<rparr>)"
    using Cons.IH [of w1 "s\<lparr>pl_new := pl_new s @ [(i, p)]\<rparr>"] Cons.prems(2) by auto
  have "dlq_publish_all R (p # ps) w = dlq_publish_all R ps w1"
    by (simp add: dlq_publish_all_def bnd_def pub)
  then show ?case using * by (intro exI [of _ w'] exI [of _ "(i, p) # xs"]) simp
qed

lemma read_dlq_implements:
  assumes imp: "implements g c others (kv w) l s" and n: "1 \<le> n"
  shows "\<exists>es w'. read_dlq R g insp n w = (Inr es, w') \<and>
    map snd es = map (\<lambda>(p, reason, n). dlq_fields p reason n) (take (nat n) (drop (pl_inspected s) (pl_parked s))) \<and>
    implements g c others (kv w') l (s\<lparr>pl_inspected := min (length (pl_parked s)) (pl_inspected s + nat n)\<rparr>)"
proof -
  obtain dg where dg: "ks_group (kv w) DLQ_STREAM g = Some dg"
    "g_new dg = drop (pl_inspected s) (ks_entries (kv w) DLQ_STREAM)"
    and parked: "map snd (ks_entries (kv w) DLQ_STREAM) = map (\<lambda>(p, reason, n). dlq_fields p reason n) (pl_parked s)"
    using imp by (auto simp: implements_def)
  have len: "length (ks_entries (kv w) DLQ_STREAM) = length (pl_parked s)" using parked by (metis length_map)
  obtain rep r' where x: "xreadgroup R g insp DLQ_STREAM ''>'' n None (srv w) = (Inr rep, r')"
    using xreadgroup_up [of "srv w" DLQ_STREAM g n "''>''"] dg(1) n by fastforce
  define w' where "w' = w\<lparr>srv := r'\<rparr>"
  have law: "rep = mk_reply DLQ_STREAM (take (nat n) (g_new dg))"
    "kv w' = ks_put_group DLQ_STREAM g (deliver insp (ks_time (kv w)) (nat n) dg) (kv w)"
    using xreadgroup_new_law [OF x n] dg(1) by (auto simp: w'_def)
  have read: "read_dlq R g insp n w = (Inr (take (nat n) (g_new dg)), w')"
    by (simp add: read_dlq_def bnd_def redis_call_def x law(1) w'_def)
  have "drop (nat n) (g_new dg) = drop (min (length (pl_parked s)) (pl_inspected s + nat n)) (ks_entries (kv w) DLQ_STREAM)"
    by (simp add: dg(2) add.commute min_def len)
  then have "implements g c others (kv w') l (s\<lparr>pl_inspected := min (length (pl_parked s)) (pl_inspected s + nat n)\<rparr>)"
    using imp by (simp add: implements_def law(2))
  moreover have "map snd (take (nat n) (g_new dg)) =
      map (\<lambda>(p, reason, n). dlq_fields p reason n) (take (nat n) (drop (pl_inspected s) (pl_parked s)))"
    using parked by (simp add: dg(2) flip: take_map drop_map)
  ultimately show ?thesis using read by blast
qed

end

subsection \<open>The demonstration\<close>

lemma sorted_out_payments:
  "map snd (accepted v s xs) = filter (\<lambda>p. payment_id p \<notin> pl_processed s \<and> v p = None) (map snd xs)"
  "map snd (refused v s xs) = filter (\<lambda>p. payment_id p \<notin> pl_processed s \<and> v p \<noteq> None) (map snd xs)"
  by (simp_all add: accepted_def refused_def unseen_def filter_map comp_def filter_filter conj_commute)

lemma payments_separate:
  assumes "map snd xs = PAYMENTS" and "distinct (map fst xs)"
  shows "separate xs" and "length xs = 6"
proof -
  have "distinct (map payment_id PAYMENTS)" by code_simp
  then have "distinct (map (payment_id \<circ> snd) xs)" using assms(1) by (metis map_map)
  then show "separate xs" using assms(2) by (simp add: separate_def)
  show "length xs = 6" using arg_cong [OF assms(1), of length] by (simp add: PAYMENTS_def)
qed

definition refused_once :: "(payment \<times> string \<times> int) list" where
  "refused_once = map (\<lambda>p. (p, ''ValueError'', 2)) (filter (\<lambda>p. amount_cents p < 0) PAYMENTS)"

lemma parked_payments:
  assumes "map snd xs = PAYMENTS" and "\<forall>p \<in> set PAYMENTS. amount_cents p < 0 \<longrightarrow> payment_id p \<notin> pl_processed s"
  shows "map (parked_as charge_verdict 2) (refused charge_verdict s xs) = refused_once"
proof -
  have "map (parked_as charge_verdict 2) (refused charge_verdict s xs) =
      map (\<lambda>p. (p, exn_name (the (charge_verdict p)), 2)) (map snd (refused charge_verdict s xs))"
    by (simp add: parked_as_def)
  also have "map snd (refused charge_verdict s xs) = filter (\<lambda>p. amount_cents p < 0) PAYMENTS"
    unfolding sorted_out_payments assms(1) using assms(2) by (auto simp: charge_verdict_def intro!: filter_cong)
  also have "map (\<lambda>p. (p, exn_name (the (charge_verdict p)), 2)) \<dots> = refused_once"
    by (auto simp: refused_once_def charge_verdict_def)
  finally show ?thesis .
qed

context redis_available
begin

lemma dlq_drain_run:
  assumes imp: "implements dlq_demo_GROUP c {} (kv w) no_locals s" and none: "pl_pending s = []"
    and new: "map snd (pl_new s) = PAYMENTS" and turns: "2 \<le> turns"
    and seen: "\<forall>p \<in> set PAYMENTS. amount_cents p < 0 \<longrightarrow> payment_id p \<notin> pl_processed s"
  shows "\<exists>w' l'. dlq_drain R c turns w =
      (Inr (int (length (filter (\<lambda>p. payment_id p \<notin> pl_processed s \<and> 0 \<le> amount_cents p) PAYMENTS))), w') \<and>
    implements dlq_demo_GROUP c {} (kv w') l' (after_turns 2 charge_verdict 2 s) \<and>
    pl_parked (after_turns 2 charge_verdict 2 s) = pl_parked s @ refused_once"
proof -
  note xs = payments_separate [OF new implements_new_ids [OF imp]]
  have "length (accepted charge_verdict s (pl_new s)) =
      length (filter (\<lambda>p. payment_id p \<notin> pl_processed s \<and> charge_verdict p = None) PAYMENTS)"
    using arg_cong [OF sorted_out_payments(1) [of charge_verdict s "pl_new s"], of length] by (simp add: new)
  also have "\<dots> = length (filter (\<lambda>p. payment_id p \<notin> pl_processed s \<and> 0 \<le> amount_cents p) PAYMENTS)"
    by (intro arg_cong [of _ _ length] filter_cong) (auto simp: charge_verdict_def)
  finally have count: "length (accepted charge_verdict s (pl_new s)) = \<dots>" .
  have "\<exists>w' l'. dlq_drain R c turns w = (Inr (int (length (accepted charge_verdict s (pl_new s)))), w') \<and>
      implements dlq_demo_GROUP c {} (kv w') l' (after_turns 2 charge_verdict 2 s)"
    unfolding dlq_drain_def MAX_ATTEMPTS_def
    using run_settles [OF imp charge_handler_decides xs(1) _ _ none, of 10 2 turns 20] xs(2) turns by auto
  moreover have "pl_parked (after_turns 2 charge_verdict 2 s) = pl_parked s @ refused_once"
    by (simp add: after_turns_def parked_payments [OF new seen])
  ultimately show ?thesis unfolding count by blast
qed

lemma dead_letter_ids_run:
  assumes "map snd es = map (\<lambda>(p, reason, n). dlq_fields p reason n) ps" and "\<forall>(p, r, n) \<in> set ps. payment_text_ok p"
  shows "dead_letter_ids es w = (Inr (map (payment_id \<circ> fst) ps), w)"
proof -
  have "for_each (\<lambda>m ids. bnd (liftr (payment_from_fields (snd m))) (\<lambda>p. ret (ids @ [payment_id p]))) es ids w =
      (Inr (ids @ map (payment_id \<circ> fst) ps), w)" for ids
    using assms
  proof (induction es arbitrary: ids ps)
    case (Cons e es)
    obtain p r n qs where ps: "ps = (p, r, n) # qs" using Cons.prems(1) by (cases ps) auto
    have "payment_from_fields (snd e) = Inr p"
      using Cons.prems payment_roundtrip_extra [of p] by (simp add: ps dlq_fields_eq)
    then show ?case using Cons.IH [of qs "ids @ [payment_id p]"] Cons.prems by (simp add: ps bnd_def)
  qed simp
  from this [of "[]"] show ?thesis by (simp add: dead_letter_ids_def)
qed

lemma dlq_demo_main_run:
  assumes turns: "2 \<le> turns"
  shows "\<exists>w'. dlq_demo_main R turns w = (Inr (4, [''PAY-003'', ''PAY-005''], 0), w')"
proof -
  let ?keys = "[MAIN_STREAM, DLQ_STREAM, PROCESSED_SET]" and ?g = dlq_demo_GROUP
  obtain d w1 where del: "delete_streams R ?keys w = (Inr d, w1)" by (rule delete_streams_up)
  obtain w2 where w2: "dlq_ensure_all_groups R ?g w1 = (Inr (), w2)"
    "implements ?g ''worker-1'' {} (kv w2) no_locals fresh_pipeline"
    by (rule ensure_fresh [of w1 ?g]) (use delete_streams_effect [OF del] in auto)
  obtain w3 xs where w3: "dlq_publish_all R PAYMENTS w2 = (Inr (), w3)" "map snd xs = PAYMENTS"
    "implements ?g ''worker-1'' {} (kv w3) no_locals (fresh_pipeline\<lparr>pl_new := xs\<rparr>)"
    using publish_all_implements [OF w2(2) payments_ok] by (auto simp: fresh_pipeline_def)
  define s1 where "s1 = fresh_pipeline\<lparr>pl_new := xs\<rparr>"
  define s2 where "s2 = after_turns 2 charge_verdict 2 s1"
  have s1: "pl_new s1 = xs" "pl_pending s1 = []" "pl_processed s1 = {}" "pl_parked s1 = []" "pl_inspected s1 = 0"
    by (simp_all add: s1_def fresh_pipeline_def)
  obtain w4 l4 where w4: "dlq_drain R ''worker-1'' turns w3 =
      (Inr (int (length (filter (\<lambda>p. payment_id p \<notin> pl_processed s1 \<and> 0 \<le> amount_cents p) PAYMENTS))), w4)"
    "implements ?g ''worker-1'' {} (kv w4) l4 s2" "pl_parked s2 = pl_parked s1 @ refused_once"
    unfolding s2_def using dlq_drain_run [OF w3(3) [folded s1_def] _ _ turns] s1 w3(2) by auto
  have four: "length (filter (\<lambda>p. payment_id p \<notin> pl_processed s1 \<and> 0 \<le> amount_cents p) PAYMENTS) = 4"
    by (simp add: s1 PAYMENTS_def)
  have s2: "pl_new s2 = []" "pl_pending s2 = []" "pl_tries s2 = (\<lambda>_. 0)" "pl_inspected s2 = 0"
    by (simp_all add: s2_def after_turns_def s1)
  have "pl_processed s2 = payment_id ` set (map snd (accepted charge_verdict s1 xs))"
    by (simp add: s2_def after_turns_def s1 image_image)
  also have "\<dots> = payment_id ` set (filter (\<lambda>p. 0 \<le> amount_cents p) PAYMENTS)"
    unfolding sorted_out_payments w3(2) by (auto simp: s1 charge_verdict_def split: if_splits)
  also have "\<dots> = {''PAY-001'', ''PAY-002'', ''PAY-004'', ''PAY-006''}" by (simp add: PAYMENTS_def)
  finally have processed: "pl_processed s2 = \<dots>" .
  obtain es w5 where read: "read_dlq R ?g ''inspector-1'' 100 w4 = (Inr es, w5)"
    "map snd es = map (\<lambda>(p, reason, n). dlq_fields p reason n) (take 100 (drop (pl_inspected s2) (pl_parked s2)))"
    and w5: "implements ?g ''worker-1'' {} (kv w5) l4 (s2\<lparr>pl_inspected := min (length (pl_parked s2)) (pl_inspected s2 + 100)\<rparr>)"
    using read_dlq_implements [OF w4(2), of 100 "''inspector-1''"] by auto
  have two: "take 100 (drop (pl_inspected s2) (pl_parked s2)) = refused_once"
    by (simp add: w4(3) s1 s2 refused_once_def PAYMENTS_def)
  have ids: "dead_letter_ids es w5 = (Inr [''PAY-003'', ''PAY-005''], w5)"
    using dead_letter_ids_run [OF read(2) [unfolded two]] payments_ok by (simp add: refused_once_def PAYMENTS_def)
  define s3 where "s3 = s2\<lparr>pl_inspected := min (length (pl_parked s2)) (pl_inspected s2 + 100), pl_total := 0\<rparr>"
  have "implements ?g ''worker-2'' {} (kv w5) l4 (s2\<lparr>pl_inspected := min (length (pl_parked s2)) (pl_inspected s2 + 100)\<rparr>)"
    by (rule implements_drained(2) [OF w5]) (simp_all add: s2)
  then have "implements ?g ''worker-2'' {} (kv w5) no_locals s3"
    unfolding s3_def by (drule_tac implements_restart) (simp_all add: s2)
  then obtain w6 ys where w6: "dlq_publish_all R PAYMENTS w5 = (Inr (), w6)" "map snd ys = PAYMENTS"
    "implements ?g ''worker-2'' {} (kv w6) no_locals (s3\<lparr>pl_new := pl_new s3 @ ys\<rparr>)"
    using publish_all_implements [OF _ payments_ok] by blast
  obtain w7 where w7: "dlq_drain R ''worker-2'' turns w6 =
      (Inr (int (length (filter (\<lambda>p. payment_id p \<notin> pl_processed s3 \<and> 0 \<le> amount_cents p) PAYMENTS))), w7)"
    using dlq_drain_run [OF w6(3) _ _ turns] w6(2) by (auto simp: s3_def s2 processed PAYMENTS_def)
  have "filter (\<lambda>p. payment_id p \<notin> pl_processed s3 \<and> 0 \<le> amount_cents p) PAYMENTS = []"
    by (simp add: s3_def processed PAYMENTS_def)
  moreover obtain d' w8 where "delete_streams R ?keys w7 = (Inr d', w8)" by (rule delete_streams_up)
  ultimately show ?thesis
    using del w2(1) w3(1) w4(1) read(1) ids w6(1) w7 four by (simp add: dlq_demo_main_def bnd_Inr)
qed

end

subsection \<open>The baseline's run\<close>

text \<open>
  \<open>sole g c es k\<close>: whatever the group has pending was handed to \<open>c\<close>, and the dead-letter stream holds \<open>es\<close>.
\<close>

definition sole :: "string \<Rightarrow> string \<Rightarrow> entry list \<Rightarrow> keyspace \<Rightarrow> bool" where
  "sole g c es k \<longleftrightarrow> (\<exists>gr. ks_group k MAIN_STREAM g = Some gr \<and> pe_owner ` set (g_pel gr) \<subseteq> {c}) \<and>
     ks_entries k DLQ_STREAM = es"

lemma sole_owner:
  "pe_owner ` set (g_pel gr) \<subseteq> {c} \<Longrightarrow> pe_owner ` set (g_pel (deliver c t n gr)) \<subseteq> {c}"
  "pe_owner ` set (g_pel gr) \<subseteq> {c} \<Longrightarrow> pe_owner ` set (g_pel (touch c t ids gr)) \<subseteq> {c}"
  "pe_owner ` set (g_pel gr) \<subseteq> {c} \<Longrightarrow> pe_owner ` set (g_pel (unpend i gr)) \<subseteq> {c}"
  by (auto simp: deliver_def touch_def unpend_def)

lemma sole_pel: "pe_owner ` set (g_pel gr) \<subseteq> {c} \<Longrightarrow> length (g_pel gr) = length (owned_by c gr)"
  by (force simp: owned_by_def intro: arg_cong [of _ _ length] filter_id_conv [THEN iffD2, symmetric])

context redis_available
begin

lemma naive_batch_sole:
  assumes "retry_forever_batch R c g h batch res w = (Inr res', w')" and h: "decides v c h" and "sole g c es (kv w)"
  shows "sole g c es (kv w')"
  using assms(1,3)
proof (induction batch arbitrary: res w)
  case (Cons m batch)
  obtain p where p: "payment_from_fields (snd m) = Inr p" using Cons.prems(1) by (auto elim!: bnd_InrE)
  obtain w1 where w1: "h c p w = (case v p of None \<Rightarrow> Inr () | Some e \<Rightarrow> Inl e, w1)" "srv w1 = srv w"
    using h unfolding decides_def by metis
  show ?case
  proof (cases "v p")
    case (Some e)
    then show ?thesis using Cons.prems p w1 by (simp add: bnd_def try_io_def)
  next
    case None
    obtain a w2 where ack: "dlq_ack R g (fst m) w1 = (Inr a, w2)" "kv w2 = ks_ack MAIN_STREAM g (fst m) (kv w1)"
      by (rule dlq_ack_up)
    have "sole g c es (kv w2)" using Cons.prems(2) w1(2) sole_owner(3) by (auto simp: sole_def ack(2))
    then show ?thesis using Cons.prems(1) Cons.IH p w1(1) None ack(1) by (simp add: bnd_def try_io_def)
  qed
qed simp

lemma naive_poll_sole:
  assumes "retry_forever_poll R c g h n res w = (Inr res', w')" and h: "decides v c h" and n: "1 \<le> n"
    and sole: "sole g c es (kv w)"
  shows "sole g c es (kv w')"
proof -
  obtain pending w1 batch w2 where 1: "dlq_read_pending R g c n w = (Inr pending, w1)"
    and 2: "(if pending = [] then dlq_read_new R g c n 0 else ret pending) w1 = (Inr batch, w2)"
    and 3: "retry_forever_batch R c g h batch (res\<lparr>nr_polls := nr_polls res + 1\<rparr>) w2 = (Inr res', w')"
    using assms(1) by (auto simp: retry_forever_poll_def Let_def elim!: bnd_InrE)
  have s1: "sole g c es (kv w1)"
    using dlq_read_pending_effect [OF 1 n] sole sole_owner(2) by (auto simp: sole_def)
  have "sole g c es (kv w2)"
  proof (cases "pending = []")
    case True
    then have "dlq_read_new R g c n 0 w1 = (Inr batch, w2)" using 2 by simp
    from dlq_read_new_effect [OF this n] show ?thesis using s1 sole_owner(1) by (auto simp: sole_def)
  qed (use 2 s1 in simp)
  then show ?thesis by (rule naive_batch_sole [OF 3 h])
qed

lemma naive_loop_sole:
  assumes "retry_forever_loop R c g h n (\<lambda>_ w. w) k res w = (Inr res', w')" and h: "decides v c h" and n: "1 \<le> n"
    and "sole g c es (kv w)"
  shows "sole g c es (kv w')"
  using assms(1,4)
proof (induction k arbitrary: res w)
  case (Suc k)
  then show ?case by (auto elim!: bnd_InrE dest: naive_poll_sole [OF _ h n])
qed simp

lemma waiting_distinct: "waiting g c es k \<Longrightarrow> distinct (map fst es)"
proof -
  assume "waiting g c es k"
  then obtain gr where "distinct (map pe_id (g_pel gr))" "es = owned_by c gr" by (auto simp: waiting_def)
  then show ?thesis by (simp add: owned_by_def comp_def distinct_map_filter)
qed

text \<open>The first poll: the batch is left at the first payment the handler refuses.\<close>

lemma naive_batch_stops:
  assumes "list_all2 parsed es xs" and "\<forall>x \<in> set xs. v (snd x) = None" and "parsed m y" and "v (snd y) = Some e"
    and h: "decides v c h" and "waiting g c (es @ m # rest) (kv w)"
  shows "\<exists>w'. retry_forever_batch R c g h (es @ m # batch) res w =
      (Inr (res\<lparr>nr_processed := nr_processed res @ map (payment_id \<circ> snd) xs,
        nr_failures := AList.update (payment_id (snd y)) (dict_get (nr_failures res) (payment_id (snd y)) 0 + 1)
          (nr_failures res)\<rparr>), w') \<and> waiting g c (m # rest) (kv w')"
  using assms(1,2,6)
proof (induction arbitrary: res w rule: list_all2_induct)
  case Nil
  obtain w1 where w1: "h c (snd y) w = (Inl e, w1)" "srv w1 = srv w"
    using h assms(4) unfolding decides_def by (metis option.simps(5))
  have "payment_from_fields (snd m) = Inr (snd y)" using assms(3) by (simp add: parsed_def)
  then show ?case using w1 Nil.prems by (simp add: bnd_def try_io_def)
next
  case (Cons m' es x xs)
  have p: "payment_from_fields (snd m') = Inr (snd x)" using Cons.hyps(1) by (simp add: parsed_def)
  obtain w1 where w1: "h c (snd x) w = (Inr (), w1)" "srv w1 = srv w"
    using h Cons.prems(1) unfolding decides_def by (metis list.set_intros(1) option.simps(4))
  obtain a w2 where ack: "dlq_ack R g (fst m') w1 = (Inr a, w2)" "kv w2 = ks_ack MAIN_STREAM g (fst m') (kv w1)"
    by (rule dlq_ack_up)
  have "fst m' \<notin> fst ` set (es @ m # rest)"
    using waiting_distinct [OF Cons.prems(2)] by (simp add: image_Un)
  then have "filter (\<lambda>e. fst e \<noteq> fst m') (es @ m # rest) = es @ m # rest"
    by (intro filter_True ballI) (metis imageI)
  then have "waiting g c (es @ m # rest) (kv w2)"
    using waiting_ack [OF Cons.prems(2), of "fst m'"] w1(2) by (simp add: ack(2))
  then obtain w' where "retry_forever_batch R c g h (es @ m # batch)
        (res\<lparr>nr_processed := nr_processed res @ [payment_id (snd x)]\<rparr>) w2 =
      (Inr (res\<lparr>nr_processed := nr_processed res @ payment_id (snd x) # map (payment_id \<circ> snd) xs,
        nr_failures := AList.update (payment_id (snd y)) (dict_get (nr_failures res) (payment_id (snd y)) 0 + 1)
          (nr_failures res)\<rparr>), w')" "waiting g c (m # rest) (kv w')"
    using Cons.IH [of w2 "res\<lparr>nr_processed := nr_processed res @ [payment_id (snd x)]\<rparr>"] Cons.prems(1) by auto
  then show ?case using p w1(1) ack(1) by (simp add: bnd_def try_io_def)
qed

lemma naive_first_poll:
  assumes imp: "implements g c {} (kv w) no_locals s" and none: "pl_pending s = []"
    and new: "pl_new s = xs @ y # zs" and ok: "\<forall>x \<in> set xs. v (snd x) = None" and bad: "v (snd y) = Some e"
    and h: "decides v c h" and len: "int (length (pl_new s)) \<le> n"
  shows "\<exists>w' m rest. retry_forever_poll R c g h n res w =
      (Inr (res\<lparr>nr_polls := nr_polls res + 1, nr_processed := nr_processed res @ map (payment_id \<circ> snd) xs,
        nr_failures := AList.update (payment_id (snd y)) (dict_get (nr_failures res) (payment_id (snd y)) 0 + 1)
          (nr_failures res)\<rparr>), w') \<and> waiting g c (m # rest) (kv w') \<and> parsed m y \<and> length rest = length zs"
proof -
  have n: "1 \<le> n" using len new by simp
  obtain gr where gr: "ks_group (kv w) MAIN_STREAM g = Some gr" "list_all2 parsed (g_new gr) (pl_new s)"
    "list_all2 parsed (owned_by c gr) (pl_pending s)" "group_wf (ks_entries (kv w) MAIN_STREAM) gr"
    by (rule implements_group [OF imp])
  have own: "owned_by c gr = []" using gr(3) none by simp
  obtain es m rest where es: "g_new gr = es @ m # rest" "list_all2 parsed es xs" "parsed m y" "list_all2 parsed rest zs"
    using gr(2) unfolding new list_all2_append2 list_all2_Cons2 by blast
  have all: "take (nat n) (g_new gr) = g_new gr" "drop (nat n) (g_new gr) = []"
    using len list_all2_lengthD [OF gr(2)] by simp_all
  obtain w1 where r1: "dlq_read_pending R g c n w = (Inr [], w1)"
    "kv w1 = ks_put_group MAIN_STREAM g (touch c (ks_time (kv w)) [] gr) (kv w)"
    using dlq_read_pending_up [OF gr(1) n] own by (metis list.simps(8) take_Nil)
  define gr1 where "gr1 = touch c (ks_time (kv w)) [] gr"
  have gr1: "ks_group (kv w1) MAIN_STREAM g = Some gr1" "g_new gr1 = g_new gr" "owned_by c gr1 = []"
    "distinct (map pe_id (g_pel gr1))"
    using pel_distinct [OF gr(4)] own by (simp_all add: r1(2) gr1_def owned_by_touch)
  obtain w2 where r2: "dlq_read_new R g c n 0 w1 = (Inr (g_new gr), w2)"
    "kv w2 = ks_put_group MAIN_STREAM g (deliver c (ks_time (kv w1)) (nat n) gr1) (kv w1)"
    using dlq_read_new_up [OF gr1(1) n] gr1(2) all(1) by metis
  have "distinct (map pe_id (g_pel (deliver c (ks_time (kv w1)) (nat n) gr1)))"
    by (rule pel_distinct [of "ks_entries (kv w) MAIN_STREAM"]) (use gr(4) in \<open>simp add: group_wf_def gr1_def\<close>)
  moreover have "owned_by c (deliver c (ks_time (kv w1)) (nat n) gr1) = es @ m # rest"
    by (simp only: owned_by_deliver gr1(2,3) all append_Nil es(1) [symmetric])
  ultimately have "waiting g c (es @ m # rest) (kv w2)"
    by (simp add: waiting_def r2(2) gr1(2) all(2))
  from naive_batch_stops [OF es(2) ok es(3) bad h this, of rest "res\<lparr>nr_polls := nr_polls res + 1\<rparr>"]
  obtain w' where "retry_forever_batch R c g h (g_new gr) (res\<lparr>nr_polls := nr_polls res + 1\<rparr>) w2 =
      (Inr (res\<lparr>nr_polls := nr_polls res + 1, nr_processed := nr_processed res @ map (payment_id \<circ> snd) xs,
        nr_failures := AList.update (payment_id (snd y)) (dict_get (nr_failures res) (payment_id (snd y)) 0 + 1)
          (nr_failures res)\<rparr>), w')" "waiting g c (m # rest) (kv w')"
    unfolding es(1) by auto
  moreover have "retry_forever_poll R c g h n res w =
      retry_forever_batch R c g h (g_new gr) (res\<lparr>nr_polls := nr_polls res + 1\<rparr>) w2"
    using r1(1) r2(1) by (simp add: retry_forever_poll_def bnd_def Let_def)
  ultimately show ?thesis using es(3) list_all2_lengthD [OF es(4)] by metis
qed

lemma naive_run:
  assumes imp: "implements g c {} (kv w) no_locals s" and none: "pl_pending s = []"
    and new: "pl_new s = xs @ y # zs" and ok: "\<forall>x \<in> set xs. v (snd x) = None" and bad: "v (snd y) = Some e"
    and h: "decides v c h" and len: "int (length (pl_new s)) \<le> n" and polls: "2 \<le> max_polls"
  shows "\<exists>w' m rest. run_retry_forever_consumer R c g h max_polls n (\<lambda>_ w. w) w =
      (Inr \<lparr>nr_processed = map (payment_id \<circ> snd) xs, nr_failures = [(payment_id (snd y), max_polls)], nr_polls = max_polls\<rparr>, w') \<and>
    waiting g c (m # rest) (kv w') \<and> length rest = length zs \<and> sole g c (ks_entries (kv w) DLQ_STREAM) (kv w')"
proof -
  have n: "1 \<le> n" using len new by simp
  obtain w1 where start: "dlq_ensure_all_groups R g w = (Inr (), w1)" by (rule dlq_ensure_all_up)
  have k1: "kv w1 = kv w" using imp by (intro dlq_ensure_all_again [OF start]) (auto simp: implements_def)
  define r0 where "r0 = \<lparr>nr_processed = [] :: string list, nr_failures = [], nr_polls = 0\<rparr>"
  define r1 where "r1 = \<lparr>nr_processed = map (payment_id \<circ> snd) xs, nr_failures = [(payment_id (snd y), 1)], nr_polls = 1\<rparr>"
  have "implements g c {} (kv w1) no_locals s" using imp k1 by simp
  from naive_first_poll [OF this none new ok bad h len, of r0] obtain w2 m rest where
    poll: "retry_forever_poll R c g h n r0 w1 = (Inr r1, w2)"
    and w2: "waiting g c (m # rest) (kv w2)" "parsed m y" "length rest = length zs"
    by (auto simp: r0_def r1_def dict_get_def)
  have fails: "always_fails h c (snd y) e"
    using h bad unfolding always_fails_def decides_def by (metis option.simps(5))
  obtain k where k: "nat max_polls = Suc (Suc k)" using that [of "nat max_polls - 2"] polls by simp
  have m: "payment_from_fields (snd m) = Inr (snd y)" using w2(2) by (simp add: parsed_def)
  have "int (Suc k) + 1 = max_polls" using k polls by linarith
  then obtain w3 where loop: "retry_forever_loop R c g h n (\<lambda>_ w. w) (Suc k) r1 w2 =
      (Inr (r1\<lparr>nr_polls := max_polls, nr_failures := [(payment_id (snd y), max_polls)]\<rparr>), w3)"
    and w3: "waiting g c (m # rest) (kv w3)"
    using retry_forever_loop_blocked [where i = "fst m" and f = "snd m" and k = k and res = r1 and es = rest and w = w2, OF _ n fails m] w2(1)
    by (auto simp: r1_def dict_get_def add.commute simp del: retry_forever_loop.simps)
  have all: "retry_forever_loop R c g h n (\<lambda>_ w. w) (Suc (Suc k)) r0 w1 =
      (Inr (r1\<lparr>nr_polls := max_polls, nr_failures := [(payment_id (snd y), max_polls)]\<rparr>), w3)"
    by (subst retry_forever_loop.simps(2)) (simp add: bnd_def poll loop del: retry_forever_loop.simps)
  have "sole g c (ks_entries (kv w) DLQ_STREAM) (kv w1)" using imp k1 by (auto simp: sole_def implements_def)
  then have "sole g c (ks_entries (kv w) DLQ_STREAM) (kv w3)" by (rule naive_loop_sole [OF all h n])
  moreover have "run_retry_forever_consumer R c g h max_polls n (\<lambda>_ w. w) w =
      (Inr \<lparr>nr_processed = map (payment_id \<circ> snd) xs, nr_failures = [(payment_id (snd y), max_polls)], nr_polls = max_polls\<rparr>, w3)"
    using all start k by (simp add: run_retry_forever_consumer_def bnd_Inr r0_def r1_def del: retry_forever_loop.simps)
  ultimately show ?thesis using w3 w2(3) by blast
qed

lemma dlq_run_naive_run:
  "\<exists>w'. dlq_run_naive R w = (Inr \<lparr>
     naive_result = \<lparr>nr_processed = [''PAY-001'', ''PAY-002''], nr_failures = [(''PAY-003'', 10)], nr_polls = 10\<rparr>,
     poison_id = ''PAY-003'', poison_attempts = 10, starved = [''PAY-004'', ''PAY-005'', ''PAY-006''],
     dlq_length = 0, still_pending = 4\<rparr>, w')"
proof -
  let ?keys = "[MAIN_STREAM, DLQ_STREAM, PROCESSED_SET]" and ?g = dlq_NAIVE_GROUP and ?c = "''naive-worker-1''"
  obtain d w1 where del: "delete_streams R ?keys w = (Inr d, w1)" by (rule delete_streams_up)
  obtain w2 where w2: "dlq_ensure_all_groups R ?g w1 = (Inr (), w2)" "implements ?g ?c {} (kv w2) no_locals fresh_pipeline"
    by (rule ensure_fresh [of w1 ?g]) (use delete_streams_effect [OF del] in auto)
  obtain w3 ps where w3: "dlq_publish_all R PAYMENTS w2 = (Inr (), w3)" "map snd ps = PAYMENTS"
    "implements ?g ?c {} (kv w3) no_locals (fresh_pipeline\<lparr>pl_new := ps\<rparr>)"
    using publish_all_implements [OF w2(2) payments_ok] by (auto simp: fresh_pipeline_def)
  have no_dead: "ks_entries (kv w3) DLQ_STREAM = []"
    using w3(3) by (simp add: implements_def fresh_pipeline_def)
  define xs y zs where "xs = take 2 ps" and "y = ps ! 2" and "zs = drop 3 ps"
  have len: "length ps = 6" using arg_cong [OF w3(2), of length] by (simp add: PAYMENTS_def)
  have ps: "ps = xs @ y # zs" using id_take_nth_drop [of 2 ps] len by (simp add: xs_def y_def zs_def)
  have xs: "map snd xs = take 2 PAYMENTS" by (simp add: xs_def take_map flip: w3(2))
  have y: "snd y = PAYMENTS ! 2" using len by (simp add: y_def flip: w3(2))
  have ok: "\<forall>x \<in> set xs. charge_verdict (snd x) = None"
  proof
    fix x assume "x \<in> set xs"
    then have "snd x \<in> set (take 2 PAYMENTS)" by (simp flip: xs)
    then show "charge_verdict (snd x) = None" by (auto simp: PAYMENTS_def charge_verdict_def)
  qed
  have bad: "charge_verdict (snd y) = Some (ValueError (''malformed amount: '' @ py_str_int (-1)))"
    by (simp add: y PAYMENTS_def charge_verdict_def)
  obtain w4 m rest where w4: "run_retry_forever_consumer R ?c ?g charge_handler 10 10 (\<lambda>_ w. w) w3 =
      (Inr \<lparr>nr_processed = map (payment_id \<circ> snd) xs, nr_failures = [(payment_id (snd y), 10)], nr_polls = 10\<rparr>, w4)"
    "waiting ?g ?c (m # rest) (kv w4)" "length rest = length zs" "sole ?g ?c [] (kv w4)"
    using naive_run [OF w3(3) _ _ ok bad charge_handler_decides, of zs 10 10] len
    unfolding no_dead by (auto simp: fresh_pipeline_def ps)
  obtain gr where gr: "ks_group (kv w4) MAIN_STREAM ?g = Some gr" "length (g_pel gr) = 4" "ks_entries (kv w4) DLQ_STREAM = []"
    using w4(2,3,4) sole_pel by (fastforce simp: waiting_def sole_def zs_def len)
  obtain n r5 where xl: "xlen R DLQ_STREAM (srv w4) = (Inr n, r5)" using xlen_up by blast
  then have r5: "n = 0" "view r5 = kv w4" using xlen_law [OF xl] gr(3) by simp_all
  obtain q r6 where xp: "xpending R MAIN_STREAM ?g r5 = (Inr q, r6)" using xpending_up [of r5 MAIN_STREAM ?g] gr(1) r5(2) by auto
  then have q: "q = 4" using xpending_law [OF xp] gr(1,2) r5(2) by simp
  obtain d' w7 where del': "delete_streams R ?keys (w4\<lparr>srv := r6\<rparr>) = (Inr d', w7)" by (rule delete_streams_up)
  have ids: "map (payment_id \<circ> snd) xs = [''PAY-001'', ''PAY-002'']" "payment_id (snd y) = ''PAY-003''"
    using arg_cong [OF xs, of "map payment_id"] by (simp_all add: y PAYMENTS_def numeral_2_eq_2)
  have starved: "map payment_id (filter (\<lambda>p. payment_id p \<notin> set [''PAY-001'', ''PAY-002''] \<and>
      payment_id p \<notin> fst ` set [(''PAY-003'', 10 :: int)]) PAYMENTS) = [''PAY-004'', ''PAY-005'', ''PAY-006'']"
    by (simp add: PAYMENTS_def)
  show ?thesis
    using del w2(1) w3(1) w4(1) xl xp r5 q del' starved
    by (simp add: dlq_run_naive_def bnd_Inr dlq_NAIVE_MAX_POLLS_def ids max_item_def Let_def redis_call_def)
qed

end

end
