(* ===== verification/DLQ_Bench.thy ===== *)
theory DLQ_Bench
  imports DLQ_Demo Bench
begin

section \<open>The dead-letter benchmark\<close>

text \<open>
  \<^verbatim>\<open>scripts/bench_dlq_pattern.py\<close>: one configuration of the sweep (\<^verbatim>\<open>bench_max_attempts\<close>). An operation
  publishes one payment and waits for its future; every fifth payment can never be charged. Operations run
  one at a time, as the script says, against a consumer that keeps its own state from one to the next:
  \<open>turns i\<close> is how many turns of its loop pass while the \<open>i\<close>-th operation waits, and \<open>None\<close> is a future
  that they leave without a result. The run id, the clock and the sampling of the depth are the harness's
  (\<open>run_bench\<close>). A consumer that dies fails the operation that waits, with its exception, and so the run.
  The closures' variables are a record after the broker in the world.
\<close>

definition bench_GROUP :: "string \<Rightarrow> string" where
  "bench_GROUP run_id = ''bench_payment_workers_'' @ run_id"

definition bench_CONSUMER :: "string \<Rightarrow> string" where
  "bench_CONSUMER run_id = ''bench-worker-1-'' @ run_id"

definition POISON_EVERY :: int where
  "POISON_EVERY = 5"

definition BLOCK_MS :: int where
  "BLOCK_MS = 5"

text \<open>\<open>awaiting\<close> are the payment ids with a future in the dictionary, \<open>resolved\<close> those whose future has its result.\<close>

record dlq_bench =
  awaiting :: "string list"
  resolved :: "string list"
  failed_attempts :: "(string, int) dict"
  bench_charged :: int
  poisoned :: int
  next_index :: int

definition new_bench :: dlq_bench where
  "new_bench = \<lparr>awaiting = [], resolved = [], failed_attempts = [], bench_charged = 0, poisoned = 0, next_index = 1\<rparr>"

definition resolve_payment :: "string \<Rightarrow> dlq_bench \<Rightarrow> dlq_bench" where
  "resolve_payment pid b =
     (if pid \<in> set (awaiting b) then b\<lparr>awaiting := removeAll pid (awaiting b), resolved := resolved b @ [pid]\<rparr> else b)"

definition charge_or_fail :: "int \<Rightarrow> payment \<Rightarrow> (dlq_bench, unit) io" where
  "charge_or_fail max_attempts payment b =
     (if amount_cents payment < 0 then
        let attempt = dict_get (failed_attempts b) (payment_id payment) 0 + 1;
          b' = b\<lparr>failed_attempts := AList.update (payment_id payment) attempt (failed_attempts b)\<rparr>
        in (Inl (ValueError (''malformed amount: '' @ py_str_int (amount_cents payment))),
          if max_attempts \<le> attempt then resolve_payment (payment_id payment) b' else b')
      else (Inr (), resolve_payment (payment_id payment) (b\<lparr>bench_charged := bench_charged b + 1\<rparr>)))"

definition bench_handler :: "int \<Rightarrow> ('r, dlq_bench) dlq_handler" where
  "bench_handler max_attempts consumer_id payment = on_app (charge_or_fail max_attempts payment)"

definition bench_payment :: "string \<Rightarrow> int \<Rightarrow> int \<Rightarrow> payment" where
  "bench_payment run_id max_attempts index = \<lparr>
     payment_id = ''BENCH-'' @ run_id @ ''-'' @ py_str_int max_attempts @ ''-'' @ zero_pad 6 (nat index),
     amount_cents = (if index mod POISON_EVERY = 0 then -1 else 9900),
     payment_customer_id = ''cust-bench'', currency = ''USD''\<rparr>"

definition next_payment :: "string \<Rightarrow> int \<Rightarrow> (dlq_bench, int \<times> payment) io" where
  "next_payment run_id max_attempts b =
     (let index = next_index b; payment = bench_payment run_id max_attempts index in
      (Inr (index, payment), b\<lparr>next_index := index + 1,
         poisoned := poisoned b + (if index mod POISON_EVERY = 0 then 1 else 0),
         awaiting := awaiting b @ [payment_id payment]\<rparr>))"

definition publish_and_await_outcome :: "'r redis \<Rightarrow> string \<Rightarrow> int \<Rightarrow> (int \<Rightarrow> nat) \<Rightarrow> dlq_locals \<Rightarrow>
    (('r, dlq_bench) world_scheme, dlq_locals option) io" where
  "publish_and_await_outcome R run_id max_attempts turns l =
     bnd (on_app (next_payment run_id max_attempts)) (\<lambda>(index, payment).
     bnd (dlq_publish R payment) (\<lambda>_.
     bnd (dlq_loop R (bench_CONSUMER run_id) (bench_GROUP run_id) (bench_handler max_attempts) max_attempts 10 BLOCK_MS
       (replicate (turns index) (\<lambda>w. w)) l) (\<lambda>l'.
     on_app (\<lambda>b. (Inr (if payment_id payment \<in> set (resolved b) then Some l' else None), b)))))"

definition bench_operations :: "'r redis \<Rightarrow> string \<Rightarrow> int \<Rightarrow> (int \<Rightarrow> nat) \<Rightarrow> nat \<Rightarrow> dlq_locals \<Rightarrow>
    (('r, dlq_bench) world_scheme, dlq_locals option) io" where
  "bench_operations R run_id max_attempts turns n l =
     for_each (\<lambda>_ waiting. case waiting of None \<Rightarrow> ret None
       | Some l \<Rightarrow> publish_and_await_outcome R run_id max_attempts turns l) (replicate n ()) (Some l)"

record dlq_bench_extra =
  poison_every :: int
  payments_published :: int
  poison_published :: int
  payments_charged :: int
  bench_dlq_length :: int
  main_pending :: int

definition bench_max_attempts :: "'r redis \<Rightarrow> float_text \<Rightarrow> string \<Rightarrow> int \<Rightarrow> int \<Rightarrow> int \<Rightarrow> (int \<Rightarrow> nat) \<Rightarrow>
    (('r, dlq_bench) world_scheme, dlq_bench_extra option) io" where
  "bench_max_attempts R fl run_id max_attempts warmup measured turns =
     bnd (delete_streams R [MAIN_STREAM, DLQ_STREAM, PROCESSED_SET]) (\<lambda>_.
     bnd (dlq_ensure_all_groups R (bench_GROUP run_id)) (\<lambda>_.
     bnd (on_app (\<lambda>b. (Inr (), new_bench))) (\<lambda>_.
     bnd (dlq_ensure_all_groups R (bench_GROUP run_id)) (\<lambda>_.
     bnd (liftr (of_ops fl warmup)) (\<lambda>_.
     bnd (liftr (of_ops fl measured)) (\<lambda>_.
     bnd (bench_operations R run_id max_attempts turns (nat (warmup + measured)) \<lparr>attempts = [], total_processed = 0\<rparr>) (\<lambda>l.
     if l = None then ret None else
     bnd (on_app (\<lambda>b. (Inr b, b))) (\<lambda>b.
     bnd (redis_call (xlen R DLQ_STREAM)) (\<lambda>len.
     bnd (redis_call (xpending R MAIN_STREAM (bench_GROUP run_id))) (\<lambda>pending.
     bnd (delete_streams R [MAIN_STREAM, DLQ_STREAM, PROCESSED_SET]) (\<lambda>_.
     ret (Some \<lparr>poison_every = POISON_EVERY, payments_published = warmup + measured, poison_published = poisoned b,
       payments_charged = bench_charged b, bench_dlq_length = len, main_pending = pending\<rparr>))))))))))))"

subsection \<open>The payments\<close>

lemma bench_payment_inj:
  "0 \<le> i \<Longrightarrow> 0 \<le> j \<Longrightarrow> payment_id (bench_payment run_id mx i) = payment_id (bench_payment run_id mx j) \<longleftrightarrow> i = j"
  by (auto simp: bench_payment_def zero_pad_inj)

lemma bench_payment_ok: "is_ascii run_id \<Longrightarrow> payment_text_ok (bench_payment run_id mx i)"
  by (auto simp: payment_text_ok_def bench_payment_def intro!: valid_utf8_ascii)

lemma bench_handler_decides: "decides charge_verdict c (bench_handler mx)"
  by (auto simp: decides_def bench_handler_def charge_or_fail_def charge_verdict_def on_app_def Let_def)

definition bench_effect :: "int \<Rightarrow> payment \<Rightarrow> dlq_bench \<Rightarrow> dlq_bench" where
  "bench_effect mx p b = snd (charge_or_fail mx p b)"

lemma bench_handler_acts: "acts (bench_effect mx) c (bench_handler mx)"
  by (simp add: acts_def bench_handler_def bench_effect_def on_app_def split: prod.split)

text \<open>What the calls of one operation come to: one for a good payment, one per attempt for a poison one.\<close>

lemma fold_replicate_Suc: "fold f (replicate (Suc k) x) b = f x (fold f (replicate k x) b)"
proof -
  have "replicate (Suc k) x = replicate k x @ [x]" by (simp add: replicate_append_same)
  then show ?thesis by (simp only: fold_append fold.simps comp_def id_def)
qed

lemma poison_effect:
  assumes "amount_cents p < 0"
  shows "bench_effect mx p b = (let n = dict_get (failed_attempts b) (payment_id p) 0 + 1;
      b' = b\<lparr>failed_attempts := AList.update (payment_id p) n (failed_attempts b)\<rparr>
    in if mx \<le> n then resolve_payment (payment_id p) b' else b')"
  using assms by (simp add: bench_effect_def charge_or_fail_def Let_def)

lemma poison_tries:
  assumes "amount_cents p < 0" and "int k < mx" and "dict_get (failed_attempts b) (payment_id p) 0 = 0"
  shows "fold (bench_effect mx) (replicate k p) b =
    (if k = 0 then b else b\<lparr>failed_attempts := AList.update (payment_id p) (int k) (failed_attempts b)\<rparr>)"
  using assms(2)
proof (induction k)
  case (Suc k)
  then show ?case unfolding fold_replicate_Suc using assms(1,3)
    by (auto simp: poison_effect Let_def add.commute)
qed simp

lemma poison_effects:
  assumes "amount_cents p < 0" and "1 \<le> mx" and "dict_get (failed_attempts b) (payment_id p) 0 = 0"
  shows "fold (bench_effect mx) (replicate (nat mx) p) b =
    resolve_payment (payment_id p) (b\<lparr>failed_attempts := AList.update (payment_id p) mx (failed_attempts b)\<rparr>)"
proof -
  obtain k where k: "nat mx = Suc k" using assms(2) by (cases "nat mx") auto
  then have mx: "int k < mx" "mx = int k + 1" by linarith+
  have "fold (bench_effect mx) (replicate (nat mx) p) b = bench_effect mx p (fold (bench_effect mx) (replicate k p) b)"
    unfolding k by (rule fold_replicate_Suc)
  then show ?thesis unfolding poison_tries [OF assms(1) mx(1) assms(3)] using assms(1,3) mx(2)
    by (simp add: poison_effect Let_def)
qed

lemma charge_effect:
  "\<not> amount_cents p < 0 \<Longrightarrow> bench_effect mx p b = resolve_payment (payment_id p) (b\<lparr>bench_charged := bench_charged b + 1\<rparr>)"
  by (simp add: bench_effect_def charge_or_fail_def)

subsection \<open>One operation\<close>

text \<open>
  Between two operations, with \<open>n\<close> of them done: nothing of the group is outstanding, the good payments are
  processed and charged, the poison ones are parked, and no payment from \<open>n + 1\<close> on has left a trace.
\<close>

definition bench_at :: "string \<Rightarrow> int \<Rightarrow> nat \<Rightarrow> pipeline \<Rightarrow> dlq_bench \<Rightarrow> bool" where
  "bench_at run_id mx n s b \<longleftrightarrow>
     pl_new s = [] \<and> pl_pending s = [] \<and> pl_tries s = (\<lambda>_. 0) \<and> length (pl_parked s) = n div 5 \<and>
     bench_charged b = int n - int (n div 5) \<and> poisoned b = int (n div 5) \<and> next_index b = int n + 1 \<and>
     (\<forall>i > int n. payment_id (bench_payment run_id mx i) \<notin> pl_processed s \<and>
       dict_get (failed_attempts b) (payment_id (bench_payment run_id mx i)) 0 = 0)"

lemma Suc_div_5: "Suc n div 5 = n div 5 + (if (int n + 1) mod 5 = 0 then 1 else 0)"
proof -
  have "(int n + 1) mod 5 = 0 \<longleftrightarrow> Suc n mod 5 = 0" by presburger
  then show ?thesis by presburger
qed

lemma bench_operation_settles:
  assumes at: "bench_at run_id mx n s b" and mx: "1 \<le> mx" "mx \<le> int k"
  defines "p \<equiv> bench_payment run_id mx (int n + 1)"
  defines "b1 \<equiv> b\<lparr>next_index := int n + 2, poisoned := poisoned b + (if (int n + 1) mod POISON_EVERY = 0 then 1 else 0),
    awaiting := awaiting b @ [payment_id p]\<rparr>"
  shows "bench_at run_id mx (Suc n) (pipeline_turns mx 10 charge_verdict k (s\<lparr>pl_new := [(i, p)]\<rparr>))
      (fold (bench_effect mx) (turns_calls mx 10 charge_verdict k (s\<lparr>pl_new := [(i, p)]\<rparr>)) b1)"
    and "payment_id p \<in> set (resolved (fold (bench_effect mx) (turns_calls mx 10 charge_verdict k (s\<lparr>pl_new := [(i, p)]\<rparr>)) b1))"
proof -
  define s1 where "s1 = s\<lparr>pl_new := [(i, p)]\<rparr>"
  have fresh: "payment_id p \<notin> pl_processed s" "dict_get (failed_attempts b1) (payment_id p) 0 = 0"
    "payment_id p \<in> set (awaiting b1)"
    using at by (simp_all add: bench_at_def p_def b1_def)
  have other: "payment_id (bench_payment run_id mx j) \<noteq> payment_id p" if "int (Suc n) < j" for j
    using that by (simp add: p_def bench_payment_inj)
  have s1: "separate (pl_new s1)" "length (pl_new s1) \<le> 10" "pl_pending s1 = []" "pl_tries s1 = (\<lambda>_. 0)"
    using at by (simp_all add: s1_def separate_def bench_at_def)
  have fields: "pl_parked s1 = pl_parked s" "pl_processed s1 = pl_processed s" "pl_new s1 = [(i, p)]" by (simp_all add: s1_def)
  obtain j where j: "k = Suc j" using mx by (cases k) auto
  have min: "min j (nat mx - 1) = nat mx - 1" using mx j by simp
  have unseen: "unseen s1 (pl_new s1) = [(i, p)]" using fresh(1) by (simp add: unseen_def s1_def)
  have turns: "pipeline_turns mx 10 charge_verdict k s1 = after_turns mx charge_verdict (int k) s1"
    unfolding j by (rule pipeline_turns_eq [OF s1 mx(1)])
  have calls: "turns_calls mx 10 charge_verdict k s1 =
      p # concat (replicate (nat mx - 1) (map snd (refused charge_verdict s1 (pl_new s1))))"
    unfolding j turns_calls_eq [OF s1 mx(1)] min unseen by simp
  have poison: "amount_cents p < 0 \<longleftrightarrow> (int n + 1) mod 5 = 0" by (simp add: p_def bench_payment_def POISON_EVERY_def)
  let ?b = "fold (bench_effect mx) (turns_calls mx 10 charge_verdict k s1) b1"
  have "bench_at run_id mx (Suc n) (pipeline_turns mx 10 charge_verdict k s1) ?b \<and> payment_id p \<in> set (resolved ?b)"
  proof (cases "amount_cents p < 0")
    case True
    then have out: "accepted charge_verdict s1 (pl_new s1) = []" "refused charge_verdict s1 (pl_new s1) = [(i, p)]"
      by (simp_all add: accepted_def refused_def unseen charge_verdict_def)
    have "concat (replicate m [p]) = replicate m p" for m by (induction m) simp_all
    then have "turns_calls mx 10 charge_verdict k s1 = replicate (Suc (nat mx - 1)) p" by (simp add: calls out)
    then have "turns_calls mx 10 charge_verdict k s1 = replicate (nat mx) p" using mx(1) by simp
    then have b: "?b = resolve_payment (payment_id p) (b1\<lparr>failed_attempts := AList.update (payment_id p) mx (failed_attempts b1)\<rparr>)"
      using poison_effects [OF True mx(1) fresh(2)] by simp
    show ?thesis unfolding b turns using at fresh other True poison mx(2)
      by (simp add: bench_at_def after_turns_def out [unfolded fields] fields resolve_payment_def b1_def POISON_EVERY_def Suc_div_5)
  next
    case False
    then have out: "accepted charge_verdict s1 (pl_new s1) = [(i, p)]" "refused charge_verdict s1 (pl_new s1) = []"
      by (simp_all add: accepted_def refused_def unseen charge_verdict_def)
    have "concat (replicate m []) = []" for m :: nat by (induction m) simp_all
    then have b: "?b = resolve_payment (payment_id p) (b1\<lparr>bench_charged := bench_charged b1 + 1\<rparr>)"
      by (simp add: calls out charge_effect [OF False])
    show ?thesis unfolding b turns using at fresh other False poison mx(2)
      by (simp add: bench_at_def after_turns_def out [unfolded fields] fields resolve_payment_def b1_def POISON_EVERY_def Suc_div_5)
  qed
  then show "bench_at run_id mx (Suc n) (pipeline_turns mx 10 charge_verdict k (s\<lparr>pl_new := [(i, p)]\<rparr>))
      (fold (bench_effect mx) (turns_calls mx 10 charge_verdict k (s\<lparr>pl_new := [(i, p)]\<rparr>)) b1)"
    and "payment_id p \<in> set (resolved (fold (bench_effect mx) (turns_calls mx 10 charge_verdict k (s\<lparr>pl_new := [(i, p)]\<rparr>)) b1))"
    by (simp_all add: s1_def)
qed

subsection \<open>A configuration\<close>

context redis_available
begin

lemma bench_operation_run:
  assumes imp: "implements (bench_GROUP run_id) (bench_CONSUMER run_id) {} (kv w) l s" and at: "bench_at run_id mx n s (app w)"
    and mx: "1 \<le> mx" "mx \<le> int (turns (int n + 1))" and run_id: "is_ascii run_id"
  shows "\<exists>w' l' s'. publish_and_await_outcome R run_id mx turns l w = (Inr (Some l'), w') \<and>
    implements (bench_GROUP run_id) (bench_CONSUMER run_id) {} (kv w') l' s' \<and> bench_at run_id mx (Suc n) s' (app w')"
proof -
  let ?g = "bench_GROUP run_id" and ?c = "bench_CONSUMER run_id" and ?k = "turns (int n + 1)"
  define p where "p = bench_payment run_id mx (int n + 1)"
  define b1 where "b1 = (app w)\<lparr>next_index := int n + 2,
    poisoned := poisoned (app w) + (if (int n + 1) mod POISON_EVERY = 0 then 1 else 0), awaiting := awaiting (app w) @ [payment_id p]\<rparr>"
  define w1 where "w1 = w\<lparr>world.more := b1\<rparr>"
  have drawn: "on_app (next_payment run_id mx) w = (Inr (int n + 1, p), w1)"
    using at by (simp add: on_app_def next_payment_def bench_at_def Let_def p_def w1_def b1_def add.commute)
  obtain i w2 where pub: "dlq_publish R p w1 = (Inr i, w2)" using dlq_publish_up by blast
  have imp2: "implements ?g ?c {} (kv w2) l (s\<lparr>pl_new := [(i, p)]\<rparr>)" and app2: "app w2 = b1"
    using dlq_publish_effect [OF pub] implements_publish [OF imp, of p i] bench_payment_ok [OF run_id, of mx "int n + 1"] at
    by (simp_all add: w1_def p_def bench_at_def)
  obtain l' w' where loop: "dlq_loop R ?c ?g (bench_handler mx) mx 10 BLOCK_MS (replicate ?k (\<lambda>w. w)) l w2 = (Inr l', w')"
    "implements ?g ?c {} (kv w') l' (pipeline_turns mx (nat 10) charge_verdict ?k (s\<lparr>pl_new := [(i, p)]\<rparr>))"
    "app w' = fold (bench_effect mx) (turns_calls mx (nat 10) charge_verdict ?k (s\<lparr>pl_new := [(i, p)]\<rparr>)) (app w2)"
    using loop_implements [OF imp2 bench_handler_decides [of _ mx], where n = 10 and mx = mx and b = BLOCK_MS and k = ?k]
      bench_handler_acts [of mx ?c] by auto
  have app': "app w' = fold (bench_effect mx) (turns_calls mx 10 charge_verdict ?k (s\<lparr>pl_new := [(i, p)]\<rparr>)) b1"
    using loop(3) by (simp add: app2)
  note settled = bench_operation_settles [OF at mx, of i, folded p_def, folded b1_def, folded app']
  have "publish_and_await_outcome R run_id mx turns l w = (Inr (Some l'), w')"
    using drawn pub loop(1) settled(2) by (simp add: publish_and_await_outcome_def bnd_Inr on_app_def)
  then show ?thesis using loop(2) settled(1) by auto
qed

lemma bench_operations_run:
  assumes "implements (bench_GROUP run_id) (bench_CONSUMER run_id) {} (kv w) l s" and "bench_at run_id mx m s (app w)"
    and mx: "1 \<le> mx" "\<forall>i. mx \<le> int (turns i)" and run_id: "is_ascii run_id"
  shows "\<exists>w' l' s'. bench_operations R run_id mx turns n l w = (Inr (Some l'), w') \<and>
    implements (bench_GROUP run_id) (bench_CONSUMER run_id) {} (kv w') l' s' \<and> bench_at run_id mx (m + n) s' (app w')"
  using assms(1,2)
proof (induction n arbitrary: w l s m)
  case 0
  then show ?case by (auto simp: bench_operations_def)
next
  case (Suc n)
  obtain w1 l1 s1 where 1: "publish_and_await_outcome R run_id mx turns l w = (Inr (Some l1), w1)"
    "implements (bench_GROUP run_id) (bench_CONSUMER run_id) {} (kv w1) l1 s1" "bench_at run_id mx (Suc m) s1 (app w1)"
    using bench_operation_run [OF Suc.prems mx(1) _ run_id] mx(2) by blast
  have "bench_operations R run_id mx turns (Suc n) l w = bench_operations R run_id mx turns n l1 w1"
    by (simp add: bench_operations_def bnd_Inr 1(1))
  then show ?case using Suc.IH [OF 1(2,3)] by simp
qed

lemma bench_max_attempts_run:
  assumes mx: "1 \<le> mx" "\<forall>i. mx \<le> int (turns i)" and run_id: "is_ascii run_id" and n: "1 \<le> warmup" "1 \<le> measured"
  shows "\<exists>w'. bench_max_attempts R fl run_id mx warmup measured turns w =
    (Inr (Some \<lparr>poison_every = 5, payments_published = warmup + measured, poison_published = (warmup + measured) div 5,
       payments_charged = (warmup + measured) - (warmup + measured) div 5,
       bench_dlq_length = (warmup + measured) div 5, main_pending = 0\<rparr>), w')"
proof -
  let ?keys = "[MAIN_STREAM, DLQ_STREAM, PROCESSED_SET]" and ?g = "bench_GROUP run_id" and ?c = "bench_CONSUMER run_id"
  define n where "n = nat (warmup + measured)"
  obtain d w1 where del: "delete_streams R ?keys w = (Inr d, w1)" by (rule delete_streams_up)
  obtain w2 where w2: "dlq_ensure_all_groups R ?g w1 = (Inr (), w2)" "implements ?g ''x'' {} (kv w2) no_locals fresh_pipeline"
    by (rule ensure_fresh [of w1 ?g]) (use delete_streams_effect [OF del] in auto)
  define w3 where "w3 = w2\<lparr>world.more := new_bench\<rparr>"
  have "implements ?g ?c {} (kv w3) no_locals fresh_pipeline"
    using implements_drained(2) [OF w2(2)] by (simp add: fresh_pipeline_def w3_def)
  moreover obtain w4 where w4: "dlq_ensure_all_groups R ?g w3 = (Inr (), w4)" by (rule dlq_ensure_all_up)
  ultimately have imp: "implements ?g ?c {} (kv w4) no_locals fresh_pipeline"
    using dlq_ensure_all_again [OF w4] by (fastforce simp: implements_def)
  have at: "bench_at run_id mx 0 fresh_pipeline (app w4)"
    using dlq_ensure_all_effect [OF w4] by (simp add: bench_at_def fresh_pipeline_def w3_def new_bench_def dict_get_def)
  obtain w5 l' s where ops: "bench_operations R run_id mx turns n no_locals w4 = (Inr (Some l'), w5)"
    "implements ?g ?c {} (kv w5) l' s" "bench_at run_id mx n s (app w5)"
    using bench_operations_run [OF imp at mx run_id, of n] by auto
  obtain gr where gr: "ks_group (kv w5) MAIN_STREAM ?g = Some gr" "outstanding gr = []"
    using implements_drained(1) [OF ops(2)] ops(3) by (auto simp: bench_at_def)
  have "map snd (ks_entries (kv w5) DLQ_STREAM) = map (\<lambda>(p, reason, n). dlq_fields p reason n) (pl_parked s)"
    using ops(2) by (simp add: implements_def)
  from arg_cong [OF this, of length] have len: "length (ks_entries (kv w5) DLQ_STREAM) = n div 5"
    using ops(3) by (simp add: bench_at_def)
  obtain m r6 where xl: "xlen R DLQ_STREAM (srv w5) = (Inr m, r6)" using xlen_up by blast
  then have r6: "m = int (n div 5)" "view r6 = kv w5" using xlen_law [OF xl] len by simp_all
  obtain q r7 where xp: "xpending R MAIN_STREAM ?g r6 = (Inr q, r7)" using xpending_up [of r6 MAIN_STREAM ?g] gr(1) r6(2) by auto
  then have q: "q = 0" using xpending_law [OF xp] gr r6(2) by (simp add: outstanding_def pel_entries_def)
  obtain d' w8 where "delete_streams R ?keys (w5\<lparr>srv := r7\<rparr>) = (Inr d', w8)" by (rule delete_streams_up)
  moreover have "int n = warmup + measured" using n by (simp add: n_def)
  then have "int (n div 5) = (warmup + measured) div 5" by (simp add: zdiv_int)
  moreover have "of_ops fl warmup \<noteq> Inl e" "of_ops fl measured \<noteq> Inl e" for e
    using n by (simp_all add: of_ops_def new_window_def)
  then obtain x y where "of_ops fl warmup = Inr x" "of_ops fl measured = Inr y"
    by (metis sum.exhaust)
  ultimately show ?thesis
    using del w2(1) w4 ops(1,3) xl r6(1) xp q \<open>int n = _\<close>
    by (simp add: bench_max_attempts_def bnd_Inr on_app_def bench_at_def redis_call_def POISON_EVERY_def
      flip: w3_def n_def)
qed

end

end
