(* ===== verification/Outbox_Demo.thy ===== *)
theory Outbox_Demo
  imports Outbox_Drain Chaos "HOL-Library.List_Lexorder" "HOL-Library.Char_ord"
begin

section \<open>The outbox demonstration\<close>

text \<open>
  \<^verbatim>\<open>scripts/run_outbox_pattern.py\<close>: the pattern and its baseline, each run as the script runs it. The
  baseline's world is a \<open>chaos_world\<close> around the world of the outbox: the publication goes through an
  injector, the database does not. What the script prints are the results. \<open>u n\<close> is the \<open>n\<close>-th
  \<^verbatim>\<open>uuid4\<close>, \<open>gen seed\<close> the draws of a seeded generator.
\<close>

definition ob_demo_STREAM :: string where
  "ob_demo_STREAM = ''orders:events''"

definition ob_NAIVE_STREAM :: string where
  "ob_NAIVE_STREAM = ''orders:events:naive''"

definition NAIVE_ORDER_COUNT :: nat where
  "NAIVE_ORDER_COUNT = 12"

definition NAIVE_OUTAGE_PROBABILITY :: pyfloat where
  "NAIVE_OUTAGE_PROBABILITY = Finite (1 / 4)"

text \<open>\<^verbatim>\<open>sqlite3.connect(":memory:")\<close>, and \<^verbatim>\<open>Order(...)\<close> with its default creation time.\<close>

definition connect_memory :: "(('r, 'x) outbox_world_scheme, unit) io" where
  "connect_memory = modify (\<lambda>w. w\<lparr>tables := [], order_rows := [], outbox_rows := [], outbox_seq := 0\<rparr>)"

definition new_order :: "string \<Rightarrow> string \<Rightarrow> pyfloat \<Rightarrow> (('r, 'x) outbox_world_scheme, ob_order) io" where
  "new_order oid customer amount w =
     (Inr \<lparr>ob_order_id = oid, ob_customer_id = customer, ob_amount = amount, ob_created_at = wall w\<rparr>, w)"

text \<open>The turns of the relay in the second that the script sleeps are \<open>envs\<close>, as in \<open>relay_run\<close>.\<close>

definition outbox_demo :: "'r redis \<Rightarrow> float_text \<Rightarrow> (nat \<Rightarrow> string) \<Rightarrow>
    ((('r, 'x) outbox_world_scheme \<Rightarrow> ('r, 'x) outbox_world_scheme) \<times>
     (('r, 'x) outbox_world_scheme \<Rightarrow> ('r, 'x) outbox_world_scheme)) list \<Rightarrow>
    (('r, 'x) outbox_world_scheme, entry list) io" where
  "outbox_demo R fl u envs =
     bnd connect_memory (\<lambda>_.
     bnd create_tables (\<lambda>_.
     bnd (new_order (u 0) ''cust-1'' (round53 (9999 / 100))) (\<lambda>o1.
     bnd (new_order (u 1) ''cust-2'' (round53 149)) (\<lambda>o2.
     bnd (new_order (u 2) ''cust-3'' (round53 (999 / 100))) (\<lambda>o3.
     bnd (place_orders fl [o1, o2, o3]) (\<lambda>_.
     bnd (relay_run R fl ob_demo_STREAM envs) (\<lambda>_.
     redis_call (xrange R ob_demo_STREAM))))))))"

subsection \<open>The baseline under an outage\<close>

type_synonym ('r, 'x) outage_world = "('r, 'x) outbox_world_scheme chaos_world_scheme"

definition naive_order_id :: "nat \<Rightarrow> string" where
  "naive_order_id index = ''naive-ord-'' @ zero_pad 2 index"

text \<open>\<^verbatim>\<open>publish\<close>: the broker's method behind the injector \<open>i\<close>.\<close>

definition outage_publish :: "'r redis \<Rightarrow> nat \<Rightarrow> string \<Rightarrow> (string, string) dict \<Rightarrow>
    (('r, 'x) outage_world, string) io" where
  "outage_publish R i stream event = chaos_call i (\<lambda>(s, e). on_rest (rb_publish R s e)) (stream, event)"

definition naive_attempt :: "'r redis \<Rightarrow> float_text \<Rightarrow> nat \<Rightarrow> nat \<Rightarrow> string list \<Rightarrow>
    (('r, 'x) outage_world, string list) io" where
  "naive_attempt R fl i index lost =
     bnd (on_rest (new_order (naive_order_id index) ''cust-1'' (round53 (9999 / 100)))) (\<lambda>order.
     bnd (try_io (place_order_dual_write on_rest fl (outage_publish R i) order ob_NAIVE_STREAM)) (\<lambda>res.
     case res of
       Inr _ \<Rightarrow> ret lost
     | Inl exc \<Rightarrow> (case exc of
         BrokerUnavailableError \<Rightarrow> ret (lost @ [ob_order_id order])
       | _ \<Rightarrow> raise exc)))"

record outage_report =
  committed :: int
  published :: int
  lost_ids :: "string list"
  table_names :: "string list"

definition outbox_naive_demo :: "'r redis \<Rightarrow> float_text \<Rightarrow> (int \<Rightarrow> nat \<Rightarrow> rat) \<Rightarrow>
    (('r, 'x) outage_world, outage_report) io" where
  "outbox_naive_demo R fl gen =
     bnd (on_rest (bnd connect_memory (\<lambda>_. create_orders_table))) (\<lambda>_.
     bnd (on_rest (delete_streams R [ob_NAIVE_STREAM])) (\<lambda>_.
     bnd (broker_unavailable fl gen (Some NAIVE_OUTAGE_PROBABILITY) None DEFAULT_SEED None) (\<lambda>i.
     bnd (for_each (naive_attempt R fl i) [1..<NAIVE_ORDER_COUNT + 1] []) (\<lambda>lost.
     bnd (on_rest count_orders) (\<lambda>n.
     bnd (on_rest (redis_call (xlen R ob_NAIVE_STREAM))) (\<lambda>m.
     bnd (on_rest (\<lambda>w. (Inr (tables w), w))) (\<lambda>names.
     bnd (on_rest (delete_streams R [ob_NAIVE_STREAM])) (\<lambda>_.
     ret \<lparr>committed = n, published = m, lost_ids = lost, table_names = sort names\<rparr>))))))))"

subsection \<open>What the outage costs\<close>

lemma outage_publish_run:
  assumes "kind (injectors w i) = BrokerUnavailable" and "probability (policy (injectors w i)) = Some p"
  shows "outage_publish R i stream event w =
    (if fless (Finite (rngs w (rng (injectors w i)) 0)) p
     then (Inl BrokerUnavailableError, after_calls i 1 1 (chaos_world.more w) w)
     else (case rb_publish R stream event (chaos_world.more w) of (r, m) \<Rightarrow> (r, after_calls i 1 0 m w)))"
  using chaos_call_run [of i "\<lambda>(s, e). rb_publish R s e" "(stream, event)" w] assms
  by (simp add: outage_publish_def schedule_def case_prod_beta' cong: if_cong)

lemma rngs_after_calls:
  "probability (policy (injectors w i)) = Some p \<Longrightarrow>
    rngs (after_calls i made fired m w) (rng (injectors w i)) = (\<lambda>n. rngs w (rng (injectors w i)) (n + made))"
  by (simp add: after_calls_def Let_def)

lemma on_rest_Inr: "g (chaos_world.more w) = (r, m) \<Longrightarrow> on_rest g w = (r, w\<lparr>chaos_world.more := m\<rparr>)"
  by (simp add: on_rest_def)

text \<open>The joint world without the injector's own part: which orders and events there are.\<close>

context redis_available
begin

lemma naive_attempt_run:
  fixes w :: "('a, 'x) outage_world" and i :: nat
  defines "j \<equiv> injectors w i" and "m \<equiv> chaos_world.more w"
  assumes k: "kind j = BrokerUnavailable" "probability (policy j) = Some p"
    and tab: "''orders'' \<in> set (tables m)" and fresh: "naive_order_id index \<notin> ob_order_id ` set (order_rows m)"
    and out: "b = fless (Finite (rngs w (rng j) 0)) p"
  shows "\<exists>w'. naive_attempt R fl i index lost w = (Inr (if b then lost @ [naive_order_id index] else lost), w') \<and>
    injectors w' i = j\<lparr>calls := calls j + 1, fires := fires j + (if b then 1 else 0)\<rparr> \<and>
    rngs w' (rng j) = (\<lambda>n. rngs w (rng j) (Suc n)) \<and> tables (chaos_world.more w') = tables m \<and>
    outbox_rows (chaos_world.more w') = outbox_rows m \<and>
    map ob_order_id (order_rows (chaos_world.more w')) = map ob_order_id (order_rows m) @ [naive_order_id index] \<and>
    map (\<lambda>e. dict_get e ''order_id'' []) (stream_events view ob_NAIVE_STREAM (chaos_world.more w')) =
      map (\<lambda>e. dict_get e ''order_id'' []) (stream_events view ob_NAIVE_STREAM m) @
        (if b then [] else [naive_order_id index])"
proof -
  define order where "order = \<lparr>ob_order_id = naive_order_id index, ob_customer_id = ''cust-1'',
    ob_amount = round53 (9999 / 100), ob_created_at = wall m\<rparr>"
  define m1 where "m1 = m\<lparr>order_rows := order_rows m @ [order]\<rparr>"
  define w1 where "w1 = w\<lparr>chaos_world.more := m1\<rparr>"
  have "round53 (9999 / 100) \<noteq> NaN" by (simp add: round53_def Let_def)
  then have ins: "on_rest (transaction (sql_insert_order order)) w = (Inr (), w1)"
    using tab fresh by (simp add: on_rest_def transaction_def sql_insert_order_def order_def w1_def m1_def m_def)
  have new: "on_rest (new_order (naive_order_id index) ''cust-1'' (round53 (9999 / 100))) w = (Inr order, w)"
    by (simp add: on_rest_def new_order_def order_def m_def)
  have w1: "injectors w1 = injectors w" "rngs w1 = rngs w" "chaos_world.more w1 = m1"
    by (simp_all add: w1_def)
  have "order_created_event fl order \<noteq> []" by (simp add: order_created_event_def)
  then obtain msg r' where x: "xadd R ob_NAIVE_STREAM (order_created_event fl order) (srv m1) = (Inr msg, r')"
    using xadd_up by blast
  then have pub: "rb_publish R ob_NAIVE_STREAM (order_created_event fl order) m1 = (Inr msg, m1\<lparr>srv := r'\<rparr>)"
    by (simp add: rb_publish_def redis_call_def)
  have seen: "stream_events view ob_NAIVE_STREAM (m1\<lparr>srv := r'\<rparr>) =
      stream_events view ob_NAIVE_STREAM m @ [order_created_event fl order]"
    using xadd_law [OF x] by (simp add: stream_events_def m1_def)
  have id: "dict_get (order_created_event fl order) ''order_id'' [] = naive_order_id index"
    by (simp add: order_created_event_def dict_get_def order_def)
  define w2 where "w2 = after_calls i 1 (if b then 1 else 0) (if b then m1 else m1\<lparr>srv := r'\<rparr>) w1"
  have "naive_attempt R fl i index lost w = (Inr (if b then lost @ [naive_order_id index] else lost), w2)"
    using outage_publish_run [of w1 i p R ob_NAIVE_STREAM "order_created_event fl order"] k pub ins new
    by (simp add: naive_attempt_def place_order_dual_write_def bnd_def try_io_def w1 j_def out w2_def order_def)
  moreover have "injectors w2 i = j\<lparr>calls := calls j + 1, fires := fires j + (if b then 1 else 0)\<rparr>"
    by (simp add: w2_def injectors_after_calls w1 j_def)
  moreover have "rngs w2 (rng j) = (\<lambda>n. rngs w (rng j) (Suc n))"
    using rngs_after_calls [of w1 i p 1 "if b then 1 else 0" "if b then m1 else m1\<lparr>srv := r'\<rparr>"] k(2)
    by (simp add: w2_def w1 j_def)
  moreover have "chaos_world.more w2 = (if b then m1 else m1\<lparr>srv := r'\<rparr>)"
    by (simp add: w2_def after_calls_def Let_def)
  moreover have "stream_events view ob_NAIVE_STREAM m1 = stream_events view ob_NAIVE_STREAM m"
    by (simp add: stream_events_def m1_def)
  moreover have "map ob_order_id (order_rows m1) = map ob_order_id (order_rows m) @ [naive_order_id index]"
    "tables m1 = tables m" "outbox_rows m1 = outbox_rows m" by (simp_all add: m1_def order_def)
  ultimately show ?thesis using seen id by (cases b) simp_all
qed

abbreviation event_ids :: "('a, 'x) outage_world \<Rightarrow> string list" where
  "event_ids w \<equiv> map (\<lambda>e. dict_get e ''order_id'' []) (stream_events view ob_NAIVE_STREAM (chaos_world.more w))"

lemma naive_attempts_run:
  fixes w :: "('a, 'x) outage_world" and i :: nat
  defines "j \<equiv> injectors w i" and "m \<equiv> chaos_world.more w"
  assumes k: "kind j = BrokerUnavailable" "probability (policy j) = Some p"
    and tab: "''orders'' \<in> set (tables m)"
    and ids: "distinct (map ob_order_id (order_rows m) @ map naive_order_id [a..<b])"
    and ds: "rngs w (rng j) = (\<lambda>n. ds (n + a))" and hit: "hit = (\<lambda>index. fless (Finite (ds index)) p)"
  shows "\<exists>w'. for_each (naive_attempt R fl i) [a..<b] lost w =
      (Inr (lost @ map naive_order_id (filter hit [a..<b])), w') \<and>
    tables (chaos_world.more w') = tables m \<and> outbox_rows (chaos_world.more w') = outbox_rows m \<and>
    map ob_order_id (order_rows (chaos_world.more w')) =
      map ob_order_id (order_rows m) @ map naive_order_id [a..<b] \<and>
    event_ids w' = event_ids w @ map naive_order_id (filter (\<lambda>index. \<not> hit index) [a..<b])"
  using k tab ids ds unfolding j_def m_def
proof (induction "b - a" arbitrary: a w lost)
  case 0
  then show ?case by simp
next
  case (Suc n)
  then have ab: "[a..<b] = a # [Suc a..<b]" and n: "n = b - Suc a" by (auto simp: upt_conv_Cons)
  have fresh: "naive_order_id a \<notin> ob_order_id ` set (order_rows (chaos_world.more w))"
    using Suc.prems(4) by (auto simp: ab)
  have h: "hit a = fless (Finite (rngs w (rng (injectors w i)) 0)) p"
    by (simp add: hit Suc.prems(5))
  obtain w1 where w1: "naive_attempt R fl i a lost w = (Inr (if hit a then lost @ [naive_order_id a] else lost), w1)"
    "injectors w1 i = (injectors w i)\<lparr>calls := calls (injectors w i) + 1,
      fires := fires (injectors w i) + (if hit a then 1 else 0)\<rparr>"
    "rngs w1 (rng (injectors w i)) = (\<lambda>n. rngs w (rng (injectors w i)) (Suc n))"
    "tables (chaos_world.more w1) = tables (chaos_world.more w)"
    "outbox_rows (chaos_world.more w1) = outbox_rows (chaos_world.more w)"
    "map ob_order_id (order_rows (chaos_world.more w1)) =
      map ob_order_id (order_rows (chaos_world.more w)) @ [naive_order_id a]"
    "event_ids w1 = event_ids w @ (if hit a then [] else [naive_order_id a])"
    using naive_attempt_run [OF Suc.prems(1-3) fresh h] by blast
  have "rngs w1 (rng (injectors w1 i)) = (\<lambda>n. ds (n + Suc a))" by (simp add: w1(2,3) Suc.prems(5))
  then obtain w2 where "for_each (naive_attempt R fl i) [Suc a..<b] (if hit a then lost @ [naive_order_id a] else lost) w1 =
      (Inr ((if hit a then lost @ [naive_order_id a] else lost) @ map naive_order_id (filter hit [Suc a..<b])), w2)"
    "tables (chaos_world.more w2) = tables (chaos_world.more w1)"
    "outbox_rows (chaos_world.more w2) = outbox_rows (chaos_world.more w1)"
    "map ob_order_id (order_rows (chaos_world.more w2)) =
      map ob_order_id (order_rows (chaos_world.more w1)) @ map naive_order_id [Suc a..<b]"
    "event_ids w2 = event_ids w1 @ map naive_order_id (filter (\<lambda>index. \<not> hit index) [Suc a..<b])"
    using Suc.hyps(1) [OF n, of w1 "if hit a then lost @ [naive_order_id a] else lost"] Suc.prems(1-4) w1(2,4,6)
    by (simp add: ab) blast
  then show ?case using w1 by (cases "hit a") (simp_all add: ab bnd_def)
qed

lemma outbox_naive_demo_run:
  fixes w :: "('a, 'x) outage_world" and gen :: "int \<Rightarrow> nat \<Rightarrow> rat"
  defines "hit \<equiv> \<lambda>index. gen DEFAULT_SEED (index - 1) < 1 / 4"
  shows "\<exists>w'. outbox_naive_demo R fl gen w = (Inr \<lparr>committed = 12,
      published = int (length (filter (\<lambda>index. \<not> hit index) [1..<13])),
      lost_ids = map naive_order_id (filter hit [1..<13]), table_names = [''orders'']\<rparr>, w')"
proof -
  let ?new = "\<lparr>probability = Some NAIVE_OUTAGE_PROBABILITY, on_call = None\<rparr>"
  define w1 where "w1 = w\<lparr>chaos_world.more := (chaos_world.more w)\<lparr>order_rows := [], outbox_rows := [],
    outbox_seq := 0, tables := [''orders'']\<rparr>\<rparr>"
  have conn: "on_rest (bnd connect_memory (\<lambda>_. create_orders_table)) w = (Inr (), w1)"
    by (simp add: on_rest_def connect_memory_def create_orders_table_def add_table_def w1_def)
  obtain d m2 where del: "delete_streams R [ob_NAIVE_STREAM] (chaos_world.more w1) = (Inr d, m2)"
    by (rule delete_streams_up)
  define w2 where "w2 = w1\<lparr>chaos_world.more := m2\<rparr>"
  have delete: "on_rest (delete_streams R [ob_NAIVE_STREAM]) w1 = (Inr d, w2)"
    by (simp add: on_rest_def del w2_def)
  define w3 where "w3 = w2\<lparr>next_rng := next_rng w2 + 1, rngs := (rngs w2)(next_rng w2 := gen DEFAULT_SEED),
    next_injector := next_injector w2 + 1, injectors := (injectors w2)(next_injector w2 :=
      \<lparr>kind = BrokerUnavailable, policy = ?new, calls = 0, fires = 0, rng = next_rng w2\<rparr>)\<rparr>"
  have inj: "broker_unavailable fl gen (Some NAIVE_OUTAGE_PROBABILITY) None DEFAULT_SEED None w2 =
      (Inr (next_injector w2), w3)"
    by (simp add: broker_unavailable_def new_injector_def new_policy_def NAIVE_OUTAGE_PROBABILITY_def new_rng_def
        add_injector_def bnd_def w3_def)
  have m2: "tables m2 = [''orders'']" "order_rows m2 = []" "stream_events view ob_NAIVE_STREAM m2 = []"
    using del delete_streams_effect [OF del]
    by (auto simp: delete_streams_def redis_call_eq_iff w1_def stream_events_def)
  have hits: "hit = (\<lambda>index. fless (Finite (gen DEFAULT_SEED (index - 1))) NAIVE_OUTAGE_PROBABILITY)"
    by (simp add: hit_def NAIVE_OUTAGE_PROBABILITY_def)
  have "distinct (map naive_order_id [1..<13])" by code_simp
  then obtain w4 where w4: "for_each (naive_attempt R fl (next_injector w2)) [1..<13] [] w3 =
      (Inr (map naive_order_id (filter hit [1..<13])), w4)"
    "tables (chaos_world.more w4) = [''orders'']"
    "map ob_order_id (order_rows (chaos_world.more w4)) = map naive_order_id [1..<13]"
    "event_ids w4 = map naive_order_id (filter (\<lambda>index. \<not> hit index) [1..<13])"
    using naive_attempts_run [of w3 "next_injector w2" NAIVE_OUTAGE_PROBABILITY 1 13 "\<lambda>k. gen DEFAULT_SEED (k - 1)"
        hit fl "[]"] m2 hits by (auto simp: w3_def w2_def)
  have count: "on_rest count_orders w4 = (Inr 12, w4)"
    using w4(2,3) map_eq_imp_length_eq [OF w4(3)] by (simp add: on_rest_def count_orders_def)
  obtain len r5 where xl: "xlen R ob_NAIVE_STREAM (srv (chaos_world.more w4)) = (Inr len, r5)"
    using xlen_up by blast
  have "length (event_ids w4) = length (ks_entries (kv (chaos_world.more w4)) ob_NAIVE_STREAM)"
    by (simp add: stream_events_def)
  then have len: "len = int (length (filter (\<lambda>index. \<not> hit index) [1..<13]))"
    using xlen_law [OF xl] w4(4) by simp
  define w5 where "w5 = w4\<lparr>chaos_world.more := (chaos_world.more w4)\<lparr>srv := r5\<rparr>\<rparr>"
  have pub: "on_rest (redis_call (xlen R ob_NAIVE_STREAM)) w4 = (Inr len, w5)"
    by (simp add: on_rest_def redis_call_def xl w5_def)
  obtain d' m6 where del': "delete_streams R [ob_NAIVE_STREAM] (chaos_world.more w5) = (Inr d', m6)"
    by (rule delete_streams_up)
  have delete': "on_rest (delete_streams R [ob_NAIVE_STREAM]) w5 = (Inr d', w5\<lparr>chaos_world.more := m6\<rparr>)"
    by (simp add: on_rest_def del')
  have names: "on_rest (\<lambda>w. (Inr (tables w), w)) w5 = (Inr [''orders''], w5)"
    using w4(2) by (simp add: on_rest_def w5_def)
  have "outbox_naive_demo R fl gen w = (Inr \<lparr>committed = 12, published = len,
      lost_ids = map naive_order_id (filter hit [1..<13]), table_names = [''orders'']\<rparr>,
      w5\<lparr>chaos_world.more := m6\<rparr>)"
    using conn delete inj w4(1) count pub names delete' unfolding outbox_naive_demo_def NAIVE_ORDER_COUNT_def
    by (simp add: bnd_def)
  then show ?thesis using len by blast
qed

lemma outbox_demo_run:
  assumes fl: "float_json_ok fl" and u: "distinct [u 0, u 1, u 2]" "valid_utf8 (u 0)" "valid_utf8 (u 1)" "valid_utf8 (u 2)"
  shows "\<exists>w'. outbox_demo R fl u (replicate (Suc n) (\<lambda>w. w, \<lambda>w. w)) w = (Inr (ks_entries (kv w') ob_demo_STREAM), w') \<and>
    stream_events view ob_demo_STREAM w' = stream_events view ob_demo_STREAM w @ map (order_created_event fl)
      (map2 (\<lambda>i (c, a). \<lparr>ob_order_id = i, ob_customer_id = c, ob_amount = a, ob_created_at = wall w\<rparr>) [u 0, u 1, u 2]
        [(''cust-1'', round53 (9999 / 100)), (''cust-2'', round53 149), (''cust-3'', round53 (999 / 100))]) \<and>
    outbox_rows w' = []"
proof -
  define mk where "mk i c a = \<lparr>ob_order_id = i, ob_customer_id = c, ob_amount = a, ob_created_at = wall w\<rparr>" for i c a
  define os where "os = [mk (u 0) ''cust-1'' (round53 (9999 / 100)), mk (u 1) ''cust-2'' (round53 149),
    mk (u 2) ''cust-3'' (round53 (999 / 100))]"
  define w1 where "w1 = w\<lparr>order_rows := [], outbox_rows := [], outbox_seq := 0, tables := [''orders'', ''outbox'']\<rparr>"
  have "round53 q \<noteq> NaN" for q by (simp add: round53_def Let_def)
  then have ok: "\<forall>order \<in> set os. ob_text_ok order \<and> ob_amount order \<noteq> NaN"
    using u by (simp add: os_def mk_def ob_text_ok_def)
  have "rows_of fl [] (outbox_rows w1)" "distinct (map ob_order_id (order_rows w1 @ os))"
    using u by (simp_all add: rows_of_def w1_def os_def mk_def)
  then obtain w2 where w2: "place_orders fl os w1 = (Inr (), w2)" "rows_of fl os (outbox_rows w2)"
    "tables w2 = tables w1" "srv w2 = srv w1"
    using place_orders_run [of w1 fl "[]" os] ok by (auto simp: w1_def)
  then obtain w3 where w3: "relay_run R fl ob_demo_STREAM (replicate (Suc n) (\<lambda>w. w, \<lambda>w. w)) w2 = (Inr (), w3)"
    "stream_events view ob_demo_STREAM w3 = stream_events view ob_demo_STREAM w2 @ map (order_created_event fl) os"
    "outbox_rows w3 = []"
    using relay_drains [OF fl w2(2), of "Suc n" ob_demo_STREAM] by (auto simp: w1_def os_def)
  obtain es r4 where es: "xrange R ob_demo_STREAM (srv w3) = (Inr es, r4)" using xrange_up by blast
  define w4 where "w4 = w3\<lparr>srv := r4\<rparr>"
  have "outbox_demo R fl u (replicate (Suc n) (\<lambda>w. w, \<lambda>w. w)) w = (Inr es, w4)"
    using w2(1) w3(1) es
    by (simp add: outbox_demo_def connect_memory_def create_tables_def add_table_def new_order_def bnd_def os_def mk_def
        w1_def redis_call_def w4_def del: replicate_Suc)
  moreover have "es = ks_entries (kv w4) ob_demo_STREAM" "stream_events view ob_demo_STREAM w4 = stream_events view ob_demo_STREAM w3"
    using xrange_law [OF es] by (simp_all add: w4_def stream_events_def)
  ultimately show ?thesis using w2(4) w3 by (simp add: stream_events_def w1_def os_def mk_def w4_def)
qed

end

end
