(* ===== verification/Outbox_Bench.thy ===== *)
theory Outbox_Bench
  imports Outbox_Demo Bench
begin

section \<open>The outbox benchmark\<close>

text \<open>
  \<^verbatim>\<open>scripts/bench_outbox_pattern.py\<close>: one configuration of the sweep (\<^verbatim>\<open>bench_poll_interval\<close>). Up to
  \<open>concurrency\<close> workers each place an order and wait until its row is gone, while the relay sweeps: the run is
  a sequence of steps, a worker's next order or a sweep of the relay, in any order. A worker's order placed
  while a sweep publishes only adds a row behind those the sweep has polled, so it is one after the sweep. The
  run is over when as many orders were placed as the two windows count and none of them waits; a sequence
  that stops before that gives \<open>None\<close>. The waiting itself, the clock and the sampling are the harness's.
\<close>

definition ob_bench_STREAM :: string where
  "ob_bench_STREAM = ''bench:orders:events''"

definition outbox_depth :: "(('r, 'x) outbox_world_scheme, int) io" where
  "outbox_depth w = (if ''outbox'' \<notin> set (tables w) then (Inl (no_table ''outbox''), w)
     else (Inr (int (length (outbox_rows w))), w))"

definition bench_order_id :: "nat \<Rightarrow> string" where
  "bench_order_id index = ''bench-ord-'' @ zero_pad 6 index"

definition submit_one_order :: "float_text \<Rightarrow> nat \<Rightarrow> (('r, 'x) outbox_world_scheme, outbox_entry) io" where
  "submit_one_order fl index =
     bnd (new_order (bench_order_id index) ''cust-bench'' (round53 (9999 / 100))) (insert_order_with_outbox fl)"

datatype bench_step = Submit | Sweep

fun bench_steps :: "'r redis \<Rightarrow> float_text \<Rightarrow> bench_step list \<Rightarrow> nat \<Rightarrow> (('r, 'x) outbox_world_scheme, nat) io" where
  "bench_steps R fl [] index = ret index"
| "bench_steps R fl (Submit # steps) index =
     bnd (submit_one_order fl index) (\<lambda>_. bench_steps R fl steps (index + 1))"
| "bench_steps R fl (Sweep # steps) index =
     bnd (relay_turn R fl ob_bench_STREAM (\<lambda>w. w)) (\<lambda>_. bench_steps R fl steps index)"

record outbox_bench_extra =
  events_on_stream :: int
  outbox_rows_remaining :: int

definition bench_poll_interval :: "'r redis \<Rightarrow> float_text \<Rightarrow> int \<Rightarrow> int \<Rightarrow> bench_step list \<Rightarrow>
    (('r, 'x) outbox_world_scheme, outbox_bench_extra option) io" where
  "bench_poll_interval R fl warmup measured steps =
     bnd connect_memory (\<lambda>_.
     bnd create_tables (\<lambda>_.
     bnd (delete_streams R [ob_bench_STREAM]) (\<lambda>_.
     bnd (liftr (of_ops fl warmup)) (\<lambda>_.
     bnd (liftr (of_ops fl measured)) (\<lambda>_.
     bnd (bench_steps R fl steps 1) (\<lambda>index.
     bnd (\<lambda>w. (Inr (map or_order_id (outbox_rows w)), w)) (\<lambda>waiting.
     if waiting \<noteq> [] \<or> int index \<noteq> warmup + measured + 1 then ret None else
     bnd (redis_call (xlen R ob_bench_STREAM)) (\<lambda>events.
     bnd outbox_depth (\<lambda>rows.
     bnd (delete_streams R [ob_bench_STREAM]) (\<lambda>_.
     ret (Some \<lparr>events_on_stream = events, outbox_rows_remaining = rows\<rparr>)))))))))))"

subsection \<open>Orders, rows and events\<close>

text \<open>
  After \<open>n\<close> orders, \<open>sent\<close> of them are on the stream and the others have their rows, in order.
\<close>

definition bench_books :: "('r \<Rightarrow> keyspace) \<Rightarrow> float_text \<Rightarrow> nat \<Rightarrow> ('r, 'x) outbox_world_scheme \<Rightarrow> bool" where
  "bench_books view fl n w \<longleftrightarrow> (\<exists>sent waiting.
     stream_events view ob_bench_STREAM w = map (order_created_event fl) sent \<and> rows_of fl waiting (outbox_rows w) \<and>
     order_rows w = sent @ waiting \<and> map ob_order_id (order_rows w) = map bench_order_id [1..<n + 1] \<and>
     {''orders'', ''outbox''} \<subseteq> set (tables w) \<and> (\<forall>row \<in> set (outbox_rows w). or_id row \<le> outbox_seq w))"

context redis_available
begin

lemma submit_books:
  assumes "bench_books view fl n w"
  shows "\<exists>e w'. submit_one_order fl (n + 1) w = (Inr e, w') \<and> bench_books view fl (n + 1) w'"
proof -
  obtain sent waiting where b: "stream_events view ob_bench_STREAM w = map (order_created_event fl) sent"
    "rows_of fl waiting (outbox_rows w)" "order_rows w = sent @ waiting"
    "map ob_order_id (order_rows w) = map bench_order_id [1..<n + 1]" "{''orders'', ''outbox''} \<subseteq> set (tables w)"
    "\<forall>row \<in> set (outbox_rows w). or_id row \<le> outbox_seq w" using assms by (auto simp: bench_books_def)
  define order where "order = \<lparr>ob_order_id = bench_order_id (n + 1), ob_customer_id = ''cust-bench'',
    ob_amount = round53 (9999 / 100), ob_created_at = wall w\<rparr>"
  have run: "submit_one_order fl (n + 1) w = insert_order_with_outbox fl order w"
    by (simp add: submit_one_order_def new_order_def bnd_def order_def)
  have "ob_order_id ` set (order_rows w) = bench_order_id ` {1..<n + 1}"
    using arg_cong [OF b(4), of set] by (simp only: list.set_map set_upt)
  then have fresh: "ob_order_id order \<notin> ob_order_id ` set (order_rows w)"
    by (auto simp: order_def bench_order_id_def zero_pad_inj)
  have amount: "ob_amount order \<noteq> NaN" by (simp add: order_def round53_def Let_def)
  have ok: "ob_text_ok order" by (simp add: ob_text_ok_def order_def bench_order_id_def valid_utf8_ascii)
  show ?thesis
  proof (cases rule: insert_order_cases [of fl order w])
    case (refused e)
    then show ?thesis using fresh amount b(5) by simp
  next
    case (inserted w')
    have "rows_of fl (waiting @ [order]) (outbox_rows w')" unfolding inserted(5)
      using b(2,6) ok by (intro rows_of_snoc) (auto simp: less_eq_Suc_le)
    moreover have "map ob_order_id (order_rows w') = map bench_order_id [1..<(n + 1) + 1]"
      using b(4) by (simp add: inserted(2) order_def)
    moreover have "stream_events view ob_bench_STREAM w' = map (order_created_event fl) sent"
      using b(1) by (simp add: stream_events_def inserted(4))
    ultimately have "bench_books view fl (n + 1) w'" unfolding bench_books_def
      using b(3,5,6) inserted(2,3,5,6) by (intro exI [of _ sent] exI [of _ "waiting @ [order]"]) auto
    then show ?thesis using inserted(1) run by auto
  qed
qed

lemma sweep_books:
  assumes "bench_books view fl n w" and fl: "float_json_ok fl"
  shows "\<exists>w'. relay_turn R fl ob_bench_STREAM (\<lambda>w. w) w = (Inr (), w') \<and> bench_books view fl n w' \<and>
    outbox_rows w' = drop 10 (outbox_rows w)"
proof -
  obtain sent waiting where b: "stream_events view ob_bench_STREAM w = map (order_created_event fl) sent"
    "rows_of fl waiting (outbox_rows w)" "order_rows w = sent @ waiting"
    "map ob_order_id (order_rows w) = map bench_order_id [1..<n + 1]" "{''orders'', ''outbox''} \<subseteq> set (tables w)"
    "\<forall>row \<in> set (outbox_rows w). or_id row \<le> outbox_seq w" using assms(1) by (auto simp: bench_books_def)
  obtain w' where w': "relay_turn R fl ob_bench_STREAM (\<lambda>w. w) w = (Inr (), w')"
    "stream_events view ob_bench_STREAM w' = stream_events view ob_bench_STREAM w @ map (order_created_event fl) (take 10 waiting)"
    "outbox_rows w' = drop 10 (outbox_rows w)" "order_rows w' = order_rows w" "tables w' = tables w" "outbox_seq w' = outbox_seq w"
    using relay_turn_run [OF fl b(2)] b(5) by auto
  have "bench_books view fl n w'" unfolding bench_books_def
    using b w' rows_of_drop [OF b(2), of 10]
    by (intro exI [of _ "sent @ take 10 waiting"] exI [of _ "drop 10 waiting"]) (auto dest: in_set_dropD)
  then show ?thesis using w'(1,3) by blast
qed

lemma bench_steps_run:
  assumes "bench_books view fl n w" and fl: "float_json_ok fl"
  shows "\<exists>w'. bench_steps R fl steps (n + 1) w = (Inr (n + count_list steps Submit + 1), w') \<and>
    bench_books view fl (n + count_list steps Submit) w'"
  using assms(1)
proof (induction steps arbitrary: n w)
  case (Cons step steps)
  show ?case
  proof (cases step)
    case Submit
    obtain e w1 where w1: "submit_one_order fl (n + 1) w = (Inr e, w1)" "bench_books view fl (n + 1) w1"
      using submit_books [OF Cons.prems] by blast
    then show ?thesis using Cons.IH [OF w1(2)] Submit by (simp add: bnd_def)
  next
    case Sweep
    obtain w1 where w1: "relay_turn R fl ob_bench_STREAM (\<lambda>w. w) w = (Inr (), w1)" "bench_books view fl n w1"
      using sweep_books [OF Cons.prems fl] by blast
    then show ?thesis using Cons.IH [OF w1(2)] Sweep by (simp add: bnd_def)
  qed
qed simp

lemma bench_sweeps_run:
  assumes "bench_books view fl n w" and fl: "float_json_ok fl"
  shows "\<exists>w'. bench_steps R fl (replicate k Sweep) i w = (Inr i, w') \<and> outbox_rows w' = drop (10 * k) (outbox_rows w)"
  using assms(1)
proof (induction k arbitrary: w)
  case (Suc k)
  obtain w1 where w1: "relay_turn R fl ob_bench_STREAM (\<lambda>w. w) w = (Inr (), w1)" "bench_books view fl n w1"
    "outbox_rows w1 = drop 10 (outbox_rows w)"
    using sweep_books [OF Suc.prems fl] by blast
  then show ?case using Suc.IH [OF w1(2)] by (simp add: bnd_def add.commute)
qed simp

lemma bench_steps_append:
  "bench_steps R fl (steps @ steps') i = bnd (bench_steps R fl steps i) (bench_steps R fl steps')"
  by (induction R fl steps i rule: bench_steps.induct) (simp_all add: bnd_assoc, simp add: bnd_def fun_eq_iff)

text \<open>The whole configuration.\<close>

lemma books_length:
  assumes "bench_books view fl n w"
  shows "length (outbox_rows w) \<le> n" and "outbox_rows w = [] \<Longrightarrow> length (ks_entries (kv w) ob_bench_STREAM) = n"
proof -
  obtain sent waiting where b: "map snd (ks_entries (kv w) ob_bench_STREAM) = map (order_created_event fl) sent"
    "list_all2 (\<lambda>order row. ob_text_ok order \<and> or_payload row = order_payload fl order) waiting (outbox_rows w)"
    "order_rows w = sent @ waiting" "map ob_order_id (order_rows w) = map bench_order_id [1..<n + 1]"
    using assms by (auto simp: bench_books_def stream_events_def rows_of_def)
  have n: "length sent + length waiting = n" using map_eq_imp_length_eq [OF b(4)] by (simp add: b(3))
  then show "length (outbox_rows w) \<le> n" using list_all2_lengthD [OF b(2)] by simp
  show "outbox_rows w = [] \<Longrightarrow> length (ks_entries (kv w) ob_bench_STREAM) = n"
    using n b(2) map_eq_imp_length_eq [OF b(1)] by simp
qed

lemma bench_poll_interval_run:
  assumes fl: "float_json_ok fl" and n: "1 \<le> warmup" "1 \<le> measured"
  shows "\<exists>res w'. bench_poll_interval R fl warmup measured steps w = (Inr res, w') \<and>
    (res = None \<or> res = Some \<lparr>events_on_stream = warmup + measured, outbox_rows_remaining = 0\<rparr>) \<and>
    (int (count_list steps Submit) = warmup + measured \<and> (\<exists>steps' k. steps = steps' @ replicate k Sweep \<and>
      warmup + measured \<le> 10 * int k) \<longrightarrow> res \<noteq> None)"
proof -
  let ?m = "count_list steps Submit"
  define w0 where "w0 = w\<lparr>order_rows := [], outbox_rows := [], outbox_seq := 0, tables := [''orders'', ''outbox'']\<rparr>"
  obtain d w1 where del: "delete_streams R [ob_bench_STREAM] w0 = (Inr d, w1)" by (rule delete_streams_up)
  have "stream_events view ob_bench_STREAM w1 = []" "outbox_rows w1 = []" "order_rows w1 = []"
    "tables w1 = [''orders'', ''outbox'']"
    using del delete_streams_effect [OF del]
    by (auto simp: delete_streams_def redis_call_eq_iff w0_def stream_events_def)
  then have start: "bench_books view fl 0 w1" by (simp add: bench_books_def rows_of_def)
  obtain w2 where w2: "bench_steps R fl steps 1 w1 = (Inr (?m + 1), w2)" "bench_books view fl ?m w2"
    using bench_steps_run [OF start fl, of steps] by auto
  have drained: "outbox_rows w2 = []" if m: "int ?m = warmup + measured" and steps: "steps = steps' @ replicate k Sweep"
    and k: "warmup + measured \<le> 10 * int k" for steps' k
  proof -
    obtain w3 where w3: "bench_steps R fl steps' 1 w1 = (Inr (count_list steps' Submit + 1), w3)"
      "bench_books view fl (count_list steps' Submit) w3"
      using bench_steps_run [OF start fl, of steps'] by auto
    obtain w4 where w4: "bench_steps R fl (replicate k Sweep) (count_list steps' Submit + 1) w3 =
        (Inr (count_list steps' Submit + 1), w4)" "outbox_rows w4 = drop (10 * k) (outbox_rows w3)"
      using bench_sweeps_run [OF w3(2) fl] by blast
    have "w2 = w4" using w2(1) w3(1) w4(1) by (simp add: steps bench_steps_append bnd_def)
    moreover have "count_list steps' Submit \<le> ?m" by (simp add: steps)
    then have "length (outbox_rows w3) \<le> 10 * k" using books_length(1) [OF w3(2)] m k by linarith
    ultimately show ?thesis by (simp add: w4(2))
  qed
  obtain x y where wins: "of_ops fl warmup = Inr x" "of_ops fl measured = Inr y"
    using n by (simp add: of_ops_def new_window_def)
  have conn: "bnd connect_memory (\<lambda>_. create_tables) w = (Inr (), w0)"
    by (simp add: connect_memory_def create_tables_def add_table_def w0_def)
  then have conn': "bnd connect_memory (\<lambda>_. bnd create_tables k) w = k () w0" for k :: "unit \<Rightarrow> _"
    using conn by (simp add: bnd_def split: prod.splits sum.splits)
  show ?thesis
  proof (cases "outbox_rows w2 = [] \<and> int ?m = warmup + measured")
    case False
    then have "bench_poll_interval R fl warmup measured steps w = (Inr None, w2)"
      unfolding bench_poll_interval_def conn' using del w2(1) wins by (auto simp: bnd_def)
    then show ?thesis using False drained by blast
  next
    case True
    obtain m r3 where xl: "xlen R ob_bench_STREAM (srv w2) = (Inr m, r3)" using xlen_up by blast
    then have m: "m = warmup + measured" using xlen_law [OF xl] books_length(2) [OF w2(2)] True by simp
    define w3 where "w3 = w2\<lparr>srv := r3\<rparr>"
    have "outbox_depth w3 = (Inr 0, w3)" using True w2(2) by (auto simp: outbox_depth_def w3_def bench_books_def)
    moreover obtain d' w4 where "delete_streams R [ob_bench_STREAM] w3 = (Inr d', w4)" by (rule delete_streams_up)
    ultimately have "bench_poll_interval R fl warmup measured steps w =
        (Inr (Some \<lparr>events_on_stream = warmup + measured, outbox_rows_remaining = 0\<rparr>), w4)"
      unfolding bench_poll_interval_def conn' using del w2(1) wins True xl m
      by (auto simp: bnd_def redis_call_def w3_def)
    then show ?thesis by blast
  qed
qed

end

end
