(* ===== verification/CC_Demo.thy ===== *)
theory CC_Demo
  imports Competing_Consumers Demo_Base Chaos
begin

section \<open>The competing-consumers demonstration\<close>

text \<open>
  \<^verbatim>\<open>scripts/run_competing_consumers_pattern.py\<close>: the crash recovery of the pattern, and both
  demonstrations of the baseline. A worker of the baseline only reads the stream and only writes its own
  list, so the order in which the turns of different workers interleave cannot be seen, and they run one
  after another. The second task of each \<^verbatim>\<open>asyncio.gather\<close> only ends the loops: \<open>turns\<close> is how many
  turns of the loop that takes. The state of a script's closures is the application part of the world.
\<close>

definition cc_demo_GROUP :: string where
  "cc_demo_GROUP = ''workers''"

definition NUM_TASKS :: nat where
  "NUM_TASKS = 30"

definition NUM_CONSUMERS :: nat where
  "NUM_CONSUMERS = 3"

definition cc_NAIVE_STREAM :: string where
  "cc_NAIVE_STREAM = ''tasks:naive''"

definition NAIVE_CRASH_STREAM :: string where
  "NAIVE_CRASH_STREAM = ''tasks:naive-crash''"

definition NAIVE_CRASH_TASKS :: nat where
  "NAIVE_CRASH_TASKS = 3"

definition index_error :: exn where
  "index_error = OtherException ''IndexError'' ''list index out of range''"

subsection \<open>Crash recovery with a group\<close>

record recovery_report =
  in_flight :: "entry list"
  pending_after_crash :: int
  recovered :: "string \<times> task"
  pending_after_recovery :: int

definition demo_crash_recovery :: "'r redis \<Rightarrow> nat \<Rightarrow> (('r, (string \<times> task) list) world_scheme, recovery_report) io" where
  "demo_crash_recovery R turns =
     (let crash_stream = ''tasks:crash''; crash_group = ''workers'';
          handler = (\<lambda>consumer_id task. modify (world.more_update (\<lambda>handled. handled @ [(consumer_id, task)]))) in
      bnd (cc_ensure_group R crash_stream crash_group) (\<lambda>_.
      bnd (cc_publish R crash_stream (task_to_fields \<lparr>task_id = ''orphan-1'', task_payload = ''needs-recovery''\<rparr>)) (\<lambda>_.
      bnd (cc_read_new R crash_stream crash_group ''doomed-worker'' 10 50) (\<lambda>batch.
      bnd (cc_pending_count R crash_stream crash_group) (\<lambda>pending.
      bnd (modify (world.more_update (\<lambda>_. []))) (\<lambda>_.
      bnd (run_consumer R crash_stream crash_group ''survivor-worker'' handler 10 50 0 (replicate turns (\<lambda>w. w))) (\<lambda>_ w.
      bnd (case world.more w of [] \<Rightarrow> raise index_error | x # _ \<Rightarrow> ret x) (\<lambda>first.
      bnd (cc_pending_count R crash_stream crash_group) (\<lambda>pending'.
      ret \<lparr>in_flight = batch, pending_after_crash = pending, recovered = first, pending_after_recovery = pending'\<rparr>)) w)))))))"

subsection \<open>The baseline: duplication\<close>

definition worker_id :: "nat \<Rightarrow> string" where
  "worker_id i = ''worker-'' @ nat_digits i"

definition demo_task :: "nat \<Rightarrow> task" where
  "demo_task i = \<lparr>task_id = ''task-'' @ nat_digits i, task_payload = ''payload-'' @ nat_digits i\<rparr>"

text \<open>\<^verbatim>\<open>make_handler(consumer_id)\<close>: appends to \<^verbatim>\<open>handled_by[consumer_id]\<close>, whichever id it is called with.\<close>

definition make_handler :: "string \<Rightarrow> ('r, (string, string list) dict) cc_handler" where
  "make_handler consumer_id cid task w =
     bnd (liftr (dict_item (world.more w) consumer_id)) (\<lambda>ids.
     modify (world.more_update (AList.update consumer_id (ids @ [task_id task])))) w"

record duplication_report =
  total_executions :: int
  unique_tasks :: int
  most_runs :: int
  exactly_once :: bool

definition gather_bare_workers :: "'r redis \<Rightarrow> string \<Rightarrow> nat \<Rightarrow> string list \<Rightarrow>
    (('r, (string, string list) dict) world_scheme, unit) io" where
  "gather_bare_workers R stream turns ids =
     for_each (\<lambda>consumer_id _. bnd (run_bare_read_consumer R stream consumer_id (make_handler consumer_id) 10
       (replicate turns (\<lambda>w. w))) (\<lambda>_. ret ())) ids ()"

definition naive_demo_duplication :: "'r redis \<Rightarrow> nat \<Rightarrow>
    (('r, (string, string list) dict) world_scheme, duplication_report) io" where
  "naive_demo_duplication R turns =
     bnd (push_all R cc_NAIVE_STREAM (map (\<lambda>i. task_to_fields (demo_task i)) [0..<NUM_TASKS])) (\<lambda>_.
     bnd (modify (world.more_update (\<lambda>_. map (\<lambda>i. (worker_id i, [])) [0..<NUM_CONSUMERS]))) (\<lambda>_.
     bnd (gather_bare_workers R cc_NAIVE_STREAM turns (map worker_id [0..<NUM_CONSUMERS])) (\<lambda>_ w.
     let handled_by = world.more w;
         total_executions = sum_list (map (\<lambda>v. int (length v)) (map snd handled_by));
         per_task = Counter (concat (map snd handled_by));
         unique_tasks = int (length per_task) in
     bnd (if per_task = [] then raise (ValueError ''max() iterable argument is empty'')
          else ret (Max (set (map snd per_task)))) (\<lambda>most.
     ret \<lparr>total_executions = total_executions, unique_tasks = unique_tasks, most_runs = most,
       exactly_once = (total_executions = unique_tasks \<and> unique_tasks = int NUM_TASKS)\<rparr>) w)))"

subsection \<open>The baseline: no recovery\<close>

type_synonym executions = "(string \<times> string) list"

definition record_execution :: "string \<times> task \<Rightarrow> (executions, unit) io" where
  "record_execution = (\<lambda>(consumer_id, task). modify (\<lambda>l. l @ [(consumer_id, task_id task)]))"

definition crash_task :: "nat \<Rightarrow> task" where
  "crash_task i = \<lparr>task_id = ''crash-'' @ nat_digits i, task_payload = ''needs-recovery''\<rparr>"

definition naive_demo_no_reclaim :: "'r redis \<Rightarrow> float_text \<Rightarrow> (int \<Rightarrow> nat \<Rightarrow> rat) \<Rightarrow> nat \<Rightarrow> nat \<Rightarrow>
    (('r, executions chaos_world_scheme) world_scheme, executions \<times> string list) io" where
  "naive_demo_no_reclaim R fl gen doomed_turns turns =
     bnd (push_all R NAIVE_CRASH_STREAM (map (\<lambda>i. task_to_fields (crash_task i)) [1..<NAIVE_CRASH_TASKS + 1])) (\<lambda>_.
     bnd (on_app (on_rest (modify (\<lambda>_. [])))) (\<lambda>_.
     bnd (on_app (crash_before_ack fl gen None (Some 1) DEFAULT_SEED None)) (\<lambda>doomed.
     let handler = (\<lambda>consumer_id task. on_app (on_rest (record_execution (consumer_id, task))));
         doomed_handler = (\<lambda>consumer_id task.
           on_app (chaos_call doomed (\<lambda>x. on_rest (record_execution x)) (consumer_id, task))) in
     bnd (try_io (run_bare_read_consumer R NAIVE_CRASH_STREAM ''doomed-worker'' doomed_handler 10
            (replicate doomed_turns (\<lambda>w. w)))) (\<lambda>res.
     bnd (case res of Inl exc \<Rightarrow> (case exc of ConsumerCrashError \<Rightarrow> ret () | _ \<Rightarrow> raise exc) | Inr _ \<Rightarrow> ret ()) (\<lambda>_.
     bnd (run_bare_read_consumer R NAIVE_CRASH_STREAM ''survivor-worker'' handler 10
            (replicate turns (\<lambda>w. w))) (\<lambda>_ w.
     let executions = chaos_world.more (world.more w);
         done_twice = sort (map fst (filter (\<lambda>(_, n). n > 1) (Counter (map snd executions)))) in
     ret (executions, done_twice) w))))))"

subsection \<open>Tasks and handlers\<close>

lemma demo_tasks_parse:
  "task_from_fields (task_to_fields (demo_task i)) = Inr (demo_task i)"
  "task_from_fields (task_to_fields (crash_task i)) = Inr (crash_task i)"
  by (simp_all add: task_roundtrip valid_utf8_ascii demo_task_def crash_task_def)

lemma demo_tasks_distinct: "distinct (map (\<lambda>i. task_id (demo_task i)) [0..<n])"
  by (auto simp: distinct_map demo_task_def inj_on_def dest: injD [OF inj_nat_digits])

lemma worker_ids_distinct: "distinct (map worker_id [0..<n])"
  by (auto simp: distinct_map worker_id_def inj_on_def dest: injD [OF inj_nat_digits])

lemma stream_tasks_parse:
  assumes "map snd es = map (\<lambda>i. task_to_fields (tk i)) is" and "\<And>i. task_from_fields (task_to_fields (tk i)) = Inr (tk i)"
  shows "map (\<lambda>e. task_from_fields (snd e)) es = map Inr (map tk is)"
proof -
  have "map task_from_fields (map snd es) = map task_from_fields (map (\<lambda>i. task_to_fields (tk i)) is)"
    by (simp only: assms(1))
  then show ?thesis by (simp add: comp_def assms(2))
qed

text \<open>\<^verbatim>\<open>handled_by\<close> as a function on the workers, and one worker's entry of it.\<close>

lemma update_map_keys:
  "distinct cs \<Longrightarrow> c \<in> set cs \<Longrightarrow> AList.update c v (map (\<lambda>c. (c, f c)) cs) = map (\<lambda>c'. (c', (f(c := v)) c')) cs"
  by (induction cs) auto

lemma make_handler_logs:
  assumes "distinct cs" and "c \<in> set cs"
  shows "logs_in (\<lambda>d. \<exists>v. d = map (\<lambda>c'. (c', (f(c := v)) c')) cs) (\<lambda>d. dict_get d c []) task_id c (make_handler c)"
proof -
  have get: "map_of (map (\<lambda>c'. (c', g c')) cs) c = Some (g c)" for g :: "string \<Rightarrow> string list"
    using assms by (induction cs) auto
  show ?thesis unfolding logs_in_def
  proof (intro allI impI)
    fix t :: task and w :: "('b, (string, string list) dict) world_scheme"
    assume "\<exists>v. app w = map (\<lambda>c'. (c', (f(c := v)) c')) cs"
    then obtain v where v: "app w = map (\<lambda>c'. (c', (f(c := v)) c')) cs" by blast
    have item: "dict_item (app w) c = Inr v" unfolding dict_item_def v get by simp
    have "dict_get (app w) c [] = v" unfolding dict_get_def v get by simp
    moreover have upd: "AList.update c (v @ [task_id t]) (app w) = map (\<lambda>c'. (c', (f(c := v @ [task_id t])) c')) cs"
      unfolding v update_map_keys [OF assms] by simp
    moreover have "make_handler c c t w = (Inr (), w\<lparr>world.more := AList.update c (v @ [task_id t]) (app w)\<rparr>)"
      using item by (simp add: make_handler_def bnd_def)
    moreover have "dict_get (map (\<lambda>c'. (c', (f(c := v @ [task_id t])) c')) cs) c [] = v @ [task_id t]"
      unfolding dict_get_def get by simp
    ultimately show "\<exists>w'. make_handler c c t w = (Inr (), w') \<and> srv w' = srv w \<and>
        (\<exists>v. app w' = map (\<lambda>c'. (c', (f(c := v)) c')) cs) \<and> dict_get (app w') c [] = dict_get (app w) c [] @ [task_id t]"
      by (intro exI [of _ "w\<lparr>world.more := AList.update c (v @ [task_id t]) (app w)\<rparr>"] conjI exI [of _ "v @ [task_id t]"])
        simp_all
  qed
qed

subsection \<open>A consumer that finds its group's tasks pending\<close>

context redis_available
begin

lemma cc_turn_reclaims:
  assumes h: "logs_with lg item c h" and n: "1 \<le> n"
    and gr: "ks_group (kv w) s g = Some gr" "g_new gr = []" "g_pel gr \<noteq> []" "length (g_pel gr) \<le> nat n"
    and idle: "\<forall>x \<in> set (g_pel gr). mi \<le> ks_time (kv w) - pe_since x"
    and ts: "map (\<lambda>e. task_from_fields (snd e)) (pel_entries gr) = map Inr ts" "distinct (map fst (pel_entries gr))"
  shows "\<exists>w'. cc_turn R s g c h n b mi t w = (Inr (t + int (length ts)), w') \<and>
    ks_group (kv w') s g = Some \<lparr>g_new = [], g_pel = []\<rparr> \<and> ks_entries (kv w') = ks_entries (kv w) \<and>
    lg (app w') = lg (app w) @ map item ts"
proof -
  obtain cl w1 where cl: "cc_reclaim_stale R s g c mi n w = (Inr cl, w1)"
    unfolding cc_broker_idioms using gr(1) n by (metis group_claim_up option.distinct(1))
  have all: "claimable (ks_time (kv w)) mi (nat n) gr = pel_entries gr"
    using gr(4) idle n by (simp add: claimable_def pel_entries_def)
  then have w1: "cl = pel_entries gr"
    "kv w1 = ks_put_group s g (touch c (ks_time (kv w)) (map fst cl) gr) (kv w)" "app w1 = app w"
    using group_claim_effect [OF cl [unfolded cc_broker_idioms] n] gr(1) by auto
  define gr1 where "gr1 = touch c (ks_time (kv w)) (map fst cl) gr"
  have gr1: "ks_group (kv w1) s g = Some gr1" "pel_entries gr1 = cl" "g_new gr1 = []"
    using w1(2) gr(2) by (simp_all add: gr1_def w1(1))
  have len: "length cl = length ts" using ts(1) w1(1) by (metis length_map)
  obtain w2 gr2 where w2: "for_each (cc_handle_one R s g c h) cl 0 w1 = (Inr (0 + int (length cl)), w2)"
    "ks_group (kv w2) s g = Some gr2" "g_pel gr2 = []" "g_new gr2 = g_new gr1"
    "ks_entries (kv w2) = ks_entries (kv w1)" "lg (app w2) = lg (app w1) @ map item ts"
    using cc_batch_logs [OF h _ gr1(1,2)] ts w1(1) by blast
  have gr2: "gr2 = \<lparr>g_new = [], g_pel = []\<rparr>" using w2(3,4) gr1(3) by simp
  obtain bt w3 where bt: "cc_read_new R s g c n b w2 = (Inr bt, w3)"
    unfolding cc_broker_idioms using w2(2) n by (metis group_read_up insertI1 option.distinct(1))
  have w3: "bt = []" "ks_group (kv w3) s g = Some \<lparr>g_new = [], g_pel = []\<rparr>" "ks_entries (kv w3) = ks_entries (kv w2)"
    "app w3 = app w2"
    using group_read_new_effect [OF bt [unfolded cc_broker_idioms] n] w2(2) gr2 by (auto simp: deliver_def)
  have "cl \<noteq> []" using gr(3) w1(1) by (simp add: pel_entries_def)
  then have "cc_turn R s g c h n b mi t w = (Inr (t + int (length ts)), w3)"
    using w2(1) len w3(1) by (simp add: cc_turn_def bnd_def cl cc_handle_batch_def bt)
  then show ?thesis using w3 w2(5,6) w1 by simp
qed

lemma demo_crash_recovery_run:
  assumes "ks_entries (kv w) ''tasks:crash'' = []" and "ks_group (kv w) ''tasks:crash'' ''workers'' = None"
  defines "orphan \<equiv> \<lparr>task_id = ''orphan-1'', task_payload = ''needs-recovery''\<rparr>"
  shows "\<exists>i w'. demo_crash_recovery R (Suc n) w = (Inr \<lparr>in_flight = [(i, task_to_fields orphan)],
      pending_after_crash = 1, recovered = (''survivor-worker'', orphan), pending_after_recovery = 0\<rparr>, w') \<and>
    app w' = [(''survivor-worker'', orphan)]"
proof -
  let ?s = "''tasks:crash''" and ?g = "''workers''" and ?f = "task_to_fields orphan"
  define h :: "('a, (string \<times> task) list) cc_handler" where
    "h = (\<lambda>consumer_id task. modify (world.more_update (\<lambda>handled. handled @ [(consumer_id, task)])))"
  obtain b1 w1 where mk: "cc_ensure_group R ?s ?g w = (Inr b1, w1)"
    unfolding cc_broker_idioms by (rule group_create_up)
  have w1: "ks_entries (kv w1) ?s = []" "ks_group (kv w1) ?s ?g = Some \<lparr>g_new = [], g_pel = []\<rparr>"
    using group_create_effect [OF mk [unfolded cc_broker_idioms]] assms(1,2) by (auto simp: new_group_def)
  obtain i r2 where x: "xadd R ?s ?f (srv w1) = (Inr i, r2)" using xadd_up [of ?f ?s "srv w1"] by (auto simp: task_to_fields_def)
  define w2 where "w2 = w1\<lparr>srv := r2, reg := increment ''competing_consumers'' ''messages_published'' 1 (wall w1) (reg w1)\<rparr>"
  have pub: "cc_publish R ?s ?f w1 = (Inr i, w2)"
    by (simp add: cc_publish_def bnd_def redis_call_def x incr_def w2_def)
  have w2: "ks_group (kv w2) ?s ?g = Some \<lparr>g_new = [(i, ?f)], g_pel = []\<rparr>"
    using xadd_law [OF x] w1 by (simp add: w2_def)
  obtain es w3 where rd: "cc_read_new R ?s ?g ''doomed-worker'' 10 50 w2 = (Inr es, w3)"
    unfolding cc_broker_idioms using w2 by (metis group_read_up insertI1 option.distinct(1) one_le_numeral)
  define gr where "gr = deliver ''doomed-worker'' (ks_time (kv w2)) 10 \<lparr>g_new = [(i, ?f)], g_pel = []\<rparr>"
  have w3: "es = [(i, ?f)]" "kv w3 = ks_put_group ?s ?g gr (kv w2)"
    using group_read_new_effect [OF rd [unfolded cc_broker_idioms]] w2 by (auto simp: gr_def)
  have gr: "g_new gr = []" "g_pel gr = [\<lparr>pe_id = i, pe_owner = ''doomed-worker'', pe_fields = ?f, pe_since = ks_time (kv w2)\<rparr>]"
    by (simp_all add: gr_def deliver_def)
  obtain m r4 where pc: "xpending R ?s ?g (srv w3) = (Inr m, r4)" "m = 1" "view r4 = kv w3"
    using xpending_up [of "srv w3" ?s ?g] xpending_law w3(2) gr(2) by fastforce
  define w4 where "w4 = w3\<lparr>srv := r4, world.more := []\<rparr>"
  obtain b5 w5 where join: "cc_ensure_group R ?s ?g w4 = (Inr b5, w5)"
    unfolding cc_broker_idioms by (rule group_create_up)
  have w5: "kv w5 = kv w3" "app w5 = []"
    using group_create_effect [OF join [unfolded cc_broker_idioms]] w3(2) pc(3) by (auto simp: w4_def)
  define w6 where "w6 = w5\<lparr>reg := increment ''competing_consumers'' ''consumer_joins'' 1 (wall w5) (reg w5)\<rparr>"
  have lg: "logs_with (\<lambda>l. l) (\<lambda>t. (''survivor-worker'', t)) ''survivor-worker'' h"
    by (simp add: logs_with_def h_def)
  have "task_from_fields ?f = Inr orphan" by (simp add: task_roundtrip orphan_def)
  then obtain w7 where w7: "cc_turn R ?s ?g ''survivor-worker'' h 10 50 0 0 w6 = (Inr (0 + int (length [orphan])), w7)"
    "ks_group (kv w7) ?s ?g = Some \<lparr>g_new = [], g_pel = []\<rparr>" "app w7 = [(''survivor-worker'', orphan)]"
    using cc_turn_reclaims [OF lg, of 10 w6 ?s ?g gr 0 "[orphan]" 50 0] gr w5 w3(2)
    by (auto simp: w6_def pel_entries_def)
  obtain w8 where w8: "cc_loop R ?s ?g ''survivor-worker'' h 10 50 0 (replicate n (\<lambda>w. w)) 1 w7 = (Inr 1, w8)"
    "ks_group (kv w8) ?s ?g = Some \<lparr>g_new = [], g_pel = []\<rparr>" "app w8 = [(''survivor-worker'', orphan)]"
    using cc_loop_drains [OF lg, of 10 "[]" "[]" w7 ?s ?g n 50 0 1] w7(2,3) by auto
  obtain m9 r9 where pc': "xpending R ?s ?g (srv w8) = (Inr m9, r9)" "m9 = 0"
    using xpending_up [of "srv w8" ?s ?g] xpending_law w8(2) by fastforce
  have "run_consumer R ?s ?g ''survivor-worker'' h 10 50 0 (replicate (Suc n) (\<lambda>w. w)) w4 = (Inr 1, w8)"
    using w7(1) w8(1) by (simp add: run_consumer_def bnd_def join incr_def w6_def)
  then have "demo_crash_recovery R (Suc n) w = (Inr \<lparr>in_flight = [(i, ?f)], pending_after_crash = 1,
      recovered = (''survivor-worker'', orphan), pending_after_recovery = 0\<rparr>, w8\<lparr>srv := r9\<rparr>)"
    using mk pub rd pc pc' w8(3) w3(1) unfolding demo_crash_recovery_def h_def [symmetric] orphan_def [symmetric]
    by (simp add: Let_def bnd_def cc_pending_count_def redis_call_def w4_def del: replicate_Suc)
  then show ?thesis using w8(3) by auto
qed

lemma bare_worker_run:
  fixes w :: "('a, (string, string list) dict) world_scheme"
  assumes cs: "distinct cs" "c \<in> set cs" and app: "app w = map (\<lambda>c. (c, f c)) cs"
    and es: "map (\<lambda>e. task_from_fields (snd e)) (ks_entries (kv w) s) = map Inr ts"
      "distinct (map fst (ks_entries (kv w) s))" "''0'' \<notin> fst ` set (ks_entries (kv w) s)"
    and n: "length (ks_entries (kv w) s) \<le> 10 * n"
  shows "\<exists>k w'. run_bare_read_consumer R s c (make_handler c) 10 (replicate n (\<lambda>w. w)) w = (Inr k, w') \<and>
    kv w' = kv w \<and> app w' = map (\<lambda>c'. (c', (f(c := f c @ map task_id ts)) c')) cs"
proof -
  let ?P = "\<lambda>d. \<exists>v. d = map (\<lambda>c'. (c', (f(c := v)) c')) cs"
  have get: "dict_get (map (\<lambda>c'. (c', g c')) cs) c [] = g c" for g
    using cs by (induction cs) (auto simp: dict_get_def)
  have "?P (app w)" unfolding app by (rule exI [of _ "f c"]) simp
  then obtain l' w' where w': "bare_loop R s c (make_handler c) 10 (replicate n (\<lambda>w. w)) \<lparr>last_id = ''0'', bare_handled = 0\<rparr> w
      = (Inr l', w')" "dict_get (app w') c [] = dict_get (app w) c [] @ map task_id ts" "?P (app w')" "kv w' = kv w"
    using bare_loop_reads_all [OF make_handler_logs [OF cs, of f], where envs = "replicate n (\<lambda>w. w)" and m = 0 and n = 10
        and s = s and w = w and l = "\<lparr>last_id = ''0'', bare_handled = 0\<rparr>", OF _ _ refl es] n
    by (auto simp: bare_unrelated_def)
  then obtain v where v: "app w' = map (\<lambda>c'. (c', (f(c := v)) c')) cs" by blast
  have "v = f c @ map task_id ts" using w'(2) unfolding v app get by simp
  then show ?thesis using w'(1,4) v by (simp add: run_bare_read_consumer_def bnd_def)
qed

lemma bare_workers_run:
  fixes w :: "('a, (string, string list) dict) world_scheme"
  assumes cs: "distinct cs" "distinct todo" "set todo \<subseteq> set cs" and app: "app w = map (\<lambda>c. (c, f c)) cs"
    and es: "map (\<lambda>e. task_from_fields (snd e)) (ks_entries (kv w) s) = map Inr ts"
      "distinct (map fst (ks_entries (kv w) s))" "''0'' \<notin> fst ` set (ks_entries (kv w) s)"
    and n: "length (ks_entries (kv w) s) \<le> 10 * n"
  shows "\<exists>w'. gather_bare_workers R s n todo w = (Inr (), w') \<and>
    app w' = map (\<lambda>c. (c, if c \<in> set todo then f c @ map task_id ts else f c)) cs"
  using cs(2,3) app es n
proof (induction todo arbitrary: w f)
  case Nil
  then show ?case by (simp add: gather_bare_workers_def)
next
  case (Cons c todo)
  then obtain k w1 where w1: "run_bare_read_consumer R s c (make_handler c) 10 (replicate n (\<lambda>w. w)) w = (Inr k, w1)"
    "kv w1 = kv w" "app w1 = map (\<lambda>c'. (c', (f(c := f c @ map task_id ts)) c')) cs"
    using bare_worker_run [OF cs(1), of c w f s ts n] by auto
  have "distinct todo" "set todo \<subseteq> set cs" using Cons.prems(1,2) by auto
  moreover have "map (\<lambda>e. task_from_fields (snd e)) (ks_entries (kv w1) s) = map Inr ts"
    "distinct (map fst (ks_entries (kv w1) s))" "''0'' \<notin> fst ` set (ks_entries (kv w1) s)"
    "length (ks_entries (kv w1) s) \<le> 10 * n" using Cons.prems(4-7) unfolding w1(2) by simp_all
  ultimately obtain w' where w': "gather_bare_workers R s n todo w1 = (Inr (), w')"
    "app w' = map (\<lambda>c'. (c', if c' \<in> set todo then (f(c := f c @ map task_id ts)) c' @ map task_id ts
      else (f(c := f c @ map task_id ts)) c')) cs"
    using Cons.IH [OF _ _ w1(3)] by blast
  have "app w' = map (\<lambda>c'. (c', if c' \<in> set (c # todo) then f c' @ map task_id ts else f c')) cs"
    unfolding w'(2) using Cons.prems(1) by auto
  moreover have "gather_bare_workers R s n (c # todo) w = gather_bare_workers R s n todo w1"
    using w1(1) by (simp add: gather_bare_workers_def bnd_assoc bnd_Inr)
  ultimately show ?case using w'(1) by auto
qed

lemma naive_demo_duplication_run:
  assumes "ks_entries (kv w) cc_NAIVE_STREAM = []" and n: "3 \<le> n"
  shows "\<exists>w'. naive_demo_duplication R n w =
    (Inr \<lparr>total_executions = 90, unique_tasks = 30, most_runs = 3, exactly_once = False\<rparr>, w') \<and>
    app w' = map (\<lambda>i. (worker_id i, map (\<lambda>i. task_id (demo_task i)) [0..<30])) [0..<3]"
proof -
  let ?fs = "map (\<lambda>i. task_to_fields (demo_task i)) [0..<30]" and ?ts = "map demo_task [0..<30]"
  let ?ids = "map (\<lambda>i. task_id (demo_task i)) [0..<30]"
  have "\<forall>f \<in> set ?fs. f \<noteq> []" by (auto simp: task_to_fields_def)
  then obtain w1 where w1: "push_all R cc_NAIVE_STREAM ?fs w = (Inr (), w1)"
    "map snd (ks_entries (kv w1) cc_NAIVE_STREAM) = ?fs" "distinct (map fst (ks_entries (kv w1) cc_NAIVE_STREAM))"
    "''0'' \<notin> fst ` set (ks_entries (kv w1) cc_NAIVE_STREAM)"
    using push_all_run [of ?fs w cc_NAIVE_STREAM] assms(1) by auto
  define w2 where "w2 = w1\<lparr>world.more := map (\<lambda>c. (c, [])) (map worker_id [0..<3])\<rparr>"
  have tasks: "map (\<lambda>e. task_from_fields (snd e)) (ks_entries (kv w2) cc_NAIVE_STREAM) = map Inr ?ts"
    using stream_tasks_parse [OF w1(2) demo_tasks_parse(1)] by (simp add: w2_def)
  have "length (ks_entries (kv w2) cc_NAIVE_STREAM) = 30" using tasks map_eq_imp_length_eq by fastforce
  then obtain w3 where w3: "gather_bare_workers R cc_NAIVE_STREAM n (map worker_id [0..<3]) w2 = (Inr (), w3)"
    "app w3 = map (\<lambda>c. (c, if c \<in> set (map worker_id [0..<3]) then [] @ map task_id ?ts else [])) (map worker_id [0..<3])"
    using bare_workers_run [OF worker_ids_distinct [of 3] worker_ids_distinct [of 3] subset_refl _ tasks, of "\<lambda>_. []" n]
      w1(3,4) n by (auto simp: w2_def comp_def)
  then have app: "app w3 = map (\<lambda>i. (worker_id i, ?ids)) [0..<3]" by (simp add: comp_def)
  have values3: "map snd (app w3) = replicate 3 ?ids" unfolding app by (simp add: comp_def map_replicate_const)
  have sum3: "(\<Sum>x\<leftarrow>app w3. int (length (snd x))) = 90"
    using arg_cong [OF values3, of "\<lambda>l. sum_list (map (\<lambda>v. int (length v)) l)"]
    by (simp add: comp_def sum_list_replicate)
  have nonempty: "Counter (concat (replicate 3 ?ids)) \<noteq> []" "snd ` set (Counter (concat (replicate 3 ?ids))) = {3}"
    "length (Counter (concat (replicate 3 ?ids))) = 30"
    using Counter_copies [OF demo_tasks_distinct [of 30], of 3] by (simp_all add: upt_rec) auto
  have "naive_demo_duplication R n w =
      (Inr \<lparr>total_executions = 90, unique_tasks = 30, most_runs = 3, exactly_once = False\<rparr>, w3)"
    using w1(1) w3(1) nonempty values3 sum3
    by (simp add: bnd_Inr naive_demo_duplication_def NUM_TASKS_def NUM_CONSUMERS_def w2_def Let_def comp_def)
  then show ?thesis using app by blast
qed

lemma doomed_handler_crashes:
  fixes w :: "('a, executions chaos_world_scheme) world_scheme" and i :: nat
  defines "j \<equiv> injectors (app w) i"
  assumes "kind j = CrashBeforeAck" and "policy j = \<lparr>probability = None, on_call = Some 1\<rparr>" and "calls j = 0"
  shows "on_app (chaos_call i (\<lambda>x. on_rest (record_execution x)) (c, t)) w =
    (Inl ConsumerCrashError, w\<lparr>world.more :=
      after_calls i 1 1 (chaos_world.more (app w) @ [(c, task_id t)]) (app w)\<rparr>)"
  using chaos_call_run [of i record_execution "(c, t)" "app w"] assms
  by (simp add: on_app_def schedule_def record_execution_def)

lemma naive_demo_no_reclaim_run:
  assumes "ks_entries (kv w) NAIVE_CRASH_STREAM = []" and grp: "\<forall>g. ks_group (kv w) NAIVE_CRASH_STREAM g = None"
    and n: "1 \<le> n"
  shows "\<exists>w'. naive_demo_no_reclaim R fl gen (Suc k) n w =
      (Inr ((''doomed-worker'', ''crash-1'') # map (\<lambda>i. (''survivor-worker'', ''crash-'' @ nat_digits i)) [1..<4],
        [''crash-1'']), w') \<and>
    (\<forall>g. ks_group (kv w') NAIVE_CRASH_STREAM g = None)"
proof -
  let ?s = NAIVE_CRASH_STREAM and ?ts = "map crash_task [1..<4]" and ?fs = "map (\<lambda>i. task_to_fields (crash_task i)) [1..<4]"
  define handler where "handler = (\<lambda>(c :: string) (t :: task). on_app (on_rest (record_execution (c, t)))
    :: ('a, executions chaos_world_scheme) world_scheme \<Rightarrow> _)"
  have "\<forall>f \<in> set ?fs. f \<noteq> []" by (auto simp: task_to_fields_def)
  then obtain w1 where w1: "push_all R ?s ?fs w = (Inr (), w1)" "map snd (ks_entries (kv w1) ?s) = ?fs"
    "distinct (map fst (ks_entries (kv w1) ?s))" "''0'' \<notin> fst ` set (ks_entries (kv w1) ?s)"
    "\<forall>g. ks_group (kv w1) ?s g = None"
    using push_all_run [of ?fs w ?s] assms(1) grp by auto
  define i where "i = next_injector (app w1)"
  define x2 where "x2 = (app w1)\<lparr>chaos_world.more := [], next_rng := next_rng (app w1) + 1,
    rngs := (rngs (app w1))(next_rng (app w1) := gen DEFAULT_SEED), next_injector := i + 1,
    injectors := (injectors (app w1))(i := \<lparr>kind = CrashBeforeAck,
      policy = \<lparr>probability = None, on_call = Some 1\<rparr>, calls = 0, fires = 0, rng = next_rng (app w1)\<rparr>)\<rparr>"
  define w2 where "w2 = w1\<lparr>world.more := x2\<rparr>"
  have inj: "on_app (crash_before_ack fl gen None (Some 1) DEFAULT_SEED None) (w1\<lparr>world.more := (app w1)\<lparr>chaos_world.more := []\<rparr>\<rparr>) =
      (Inr i, w2)"
    by (simp add: crash_before_ack_def new_injector_def new_policy_def new_rng_def add_injector_def bnd_def on_app_def
        w2_def x2_def i_def)
  have tasks: "map (\<lambda>e. task_from_fields (snd e)) (ks_entries (kv w2) ?s) = map Inr ?ts"
    using stream_tasks_parse [OF w1(2) demo_tasks_parse(2)] by (simp add: w2_def)
  have len: "length (ks_entries (kv w2) ?s) = 3" using tasks map_eq_imp_length_eq by fastforce
  then obtain e es where es: "ks_entries (kv w2) ?s = e # es" "length es = 2" by (cases "ks_entries (kv w2) ?s") auto
  then have e: "task_from_fields (snd e) = Inr (crash_task 1)" using tasks by (simp add: upt_rec)
  obtain rep r' where rd: "xread R ?s ''0'' 10 (srv w2) = (Inr rep, r')" using xread_up [of 10] by fastforce
  have rep: "view r' = kv w2" "first_stream rep = e # es"
    using xread_law [OF rd] es by (auto simp: after_id_def)
  define w3 where "w3 = w2\<lparr>srv := r', world.more :=
    after_calls i 1 1 [(''doomed-worker'', task_id (crash_task 1))] x2\<rparr>"
  have crash: "on_app (chaos_call i (\<lambda>x. on_rest (record_execution x)) (''doomed-worker'', crash_task 1)) (w2\<lparr>srv := r'\<rparr>) =
      (Inl ConsumerCrashError, w3)"
    using doomed_handler_crashes [of "w2\<lparr>srv := r'\<rparr>" i "''doomed-worker''" "crash_task 1"]
    by (simp add: w2_def w3_def x2_def)
  have doomed: "run_bare_read_consumer R ?s ''doomed-worker'' (\<lambda>c t. on_app (chaos_call i (\<lambda>x. on_rest (record_execution x)) (c, t)))
      10 (replicate (Suc k) (\<lambda>w. w)) w2 = (Inl ConsumerCrashError, w3)"
    using crash rd by (simp add: run_bare_read_consumer_def bnd_def redis_call_def rep(2) bare_one_def e)
  have logs: "logs_in (\<lambda>_. True) (\<lambda>x. chaos_world.more x) (\<lambda>t. (''survivor-worker'', task_id t)) ''survivor-worker'' handler"
    by (auto simp: logs_in_def handler_def on_app_def on_rest_def record_execution_def)
  have w3: "kv w3 = kv w1" "chaos_world.more (app w3) = [(''doomed-worker'', task_id (crash_task 1))]"
    using rep(1) by (simp_all add: w3_def w2_def after_calls_def Let_def)
  have "length (ks_entries (kv w3) ?s) \<le> 10 * n" using len n w3(1) by (simp add: w2_def)
  then obtain l' w4 where w4: "bare_loop R ?s ''survivor-worker'' handler 10 (replicate n (\<lambda>w. w)) \<lparr>last_id = ''0'', bare_handled = 0\<rparr> w3
      = (Inr l', w4)" "chaos_world.more (app w4) = chaos_world.more (app w3) @ map (\<lambda>t. (''survivor-worker'', task_id t)) ?ts"
      "kv w4 = kv w3"
    using bare_loop_reads_all [OF logs, where envs = "replicate n (\<lambda>w. w)" and m = 0 and n = 10 and s = ?s and w = w3
        and l = "\<lparr>last_id = ''0'', bare_handled = 0\<rparr>" and ts = ?ts and es = "ks_entries (kv w3) ?s"] w1(3,4) tasks w3(1)
    by (auto simp: bare_unrelated_def w2_def)
  let ?ex = "(''doomed-worker'', ''crash-1'') # map (\<lambda>i. (''survivor-worker'', ''crash-'' @ nat_digits i)) [1..<4]"
  have "task_id (crash_task 1) = ''crash-1''" by code_simp
  then have ex: "chaos_world.more (app w4) = ?ex" using w4(2) w3(2) by (simp add: comp_def crash_task_def)
  have twice: "sort (map fst (filter (\<lambda>(_, n). n > 1) (Counter (map snd ?ex)))) = [''crash-1'']" by code_simp
  have survivor: "run_bare_read_consumer R ?s ''survivor-worker'' handler 10 (replicate n (\<lambda>w. w)) w3 = (Inr (bare_handled l'), w4)"
    using w4(1) by (simp add: run_bare_read_consumer_def bnd_def)
  have start: "on_app (on_rest (modify (\<lambda>_. []))) w1 = (Inr (), w1\<lparr>world.more := (app w1)\<lparr>chaos_world.more := []\<rparr>\<rparr>)"
    by (simp add: on_app_def on_rest_def)
  have "naive_demo_no_reclaim R fl gen (Suc k) n w = (Inr (?ex, [''crash-1'']), w4)"
    using w1(1) start inj doomed survivor twice ex
    unfolding naive_demo_no_reclaim_def NAIVE_CRASH_TASKS_def handler_def [symmetric]
    by (simp add: bnd_Inr try_io_def Let_def del: replicate_Suc)
  then show ?thesis using w4(3) w3(1) w1(5) by auto
qed

end

end
