(* ===== verification/CC_Shared.thy ===== *)
theory CC_Shared
  imports Competing_Consumers "HOL-Library.Multiset"
begin

section \<open>Competing consumers side by side\<close>

text \<open>
  Several \<^verbatim>\<open>run_consumer\<close> coroutines on one event loop. \<open>worker_step\<close> is one consumer cut where it awaits the
  broker: it joins the group, asks for stale messages, handles what it got one message at a time, asks for new
  ones, handles those, and starts over unless the stop event is set. A step of the loop lets one of the workers
  go on, and an interleaving is the list of their indices. \<open>run_consumer_steps\<close> shows that the steps of one
  worker are the coroutine. Handling one message (the handler, the acknowledgement and the count) is one step.
\<close>

datatype cc_phase = Joining | At_Top | Reading

record cc_worker =
  w_phase :: cc_phase
  w_batch :: "entry list"
  w_total :: int

definition new_worker :: cc_worker where
  "new_worker = \<lparr>w_phase = Joining, w_batch = [], w_total = 0\<rparr>"

definition worker_step :: "'r redis \<Rightarrow> string \<Rightarrow> string \<Rightarrow> string \<Rightarrow> ('r, 'x) cc_handler \<Rightarrow> int \<Rightarrow> int \<Rightarrow> int \<Rightarrow> bool \<Rightarrow>
    cc_worker \<Rightarrow> (('r, 'x) world_scheme, cc_worker) io" where
  "worker_step R stream grp consumer_id handler cnt block_ms min_idle stop l =
     (case w_batch l of
       m # ms \<Rightarrow> bnd (cc_handle_one R stream grp consumer_id handler m (w_total l)) (\<lambda>n.
         ret (l\<lparr>w_batch := ms, w_total := n\<rparr>))
     | [] \<Rightarrow> (case w_phase l of
         Joining \<Rightarrow> bnd (cc_ensure_group R stream grp) (\<lambda>_.
           bnd (incr ''competing_consumers'' ''consumer_joins'' 1) (\<lambda>_. ret (l\<lparr>w_phase := At_Top\<rparr>)))
       | At_Top \<Rightarrow> if stop then ret l
           else bnd (cc_reclaim_stale R stream grp consumer_id min_idle cnt) (\<lambda>es.
             ret (l\<lparr>w_phase := Reading, w_batch := es\<rparr>))
       | Reading \<Rightarrow> bnd (cc_read_new R stream grp consumer_id cnt block_ms) (\<lambda>es.
           ret (l\<lparr>w_phase := At_Top, w_batch := es\<rparr>))))"

text \<open>The coroutines of an \<^verbatim>\<open>asyncio.gather\<close>: the consumer ids, a handler for each id, and their states.\<close>

definition worker_turn :: "'r redis \<Rightarrow> string \<Rightarrow> string \<Rightarrow> string list \<Rightarrow> (string \<Rightarrow> ('r, 'x) cc_handler) \<Rightarrow> int \<Rightarrow> int \<Rightarrow>
    int \<Rightarrow> bool \<Rightarrow> nat \<Rightarrow> cc_worker list \<Rightarrow> (('r, 'x) world_scheme, cc_worker list) io" where
  "worker_turn R stream grp ids handlers cnt block_ms min_idle stop i ls =
     (if i < length ls \<and> i < length ids
      then bnd (worker_step R stream grp (ids ! i) (handlers (ids ! i)) cnt block_ms min_idle stop (ls ! i)) (\<lambda>l.
        ret (ls[i := l]))
      else ret ls)"

definition returned :: "cc_worker list \<Rightarrow> bool" where
  "returned ls \<longleftrightarrow> (\<forall>l \<in> set ls. w_phase l = At_Top \<and> w_batch l = [])"

text \<open>
  What may happen next on the loop: the producer publishes, a worker goes on, or the task that looks whether
  everything has been handled runs, and sets the stop event when it has.
\<close>

datatype move = Publish | Work nat | Look

fun shared_run :: "(bool \<Rightarrow> nat \<Rightarrow> cc_worker list \<Rightarrow> ('w, cc_worker list) io) \<Rightarrow> ('w, unit) io \<Rightarrow> ('w, bool) io \<Rightarrow>
    move list \<Rightarrow> cc_worker list \<Rightarrow> bool \<Rightarrow> ('w, cc_worker list \<times> bool) io" where
  "shared_run turn publish look [] ls stop = ret (ls, stop)"
| "shared_run turn publish look (Publish # moves) ls stop =
     bnd publish (\<lambda>_. shared_run turn publish look moves ls stop)"
| "shared_run turn publish look (Work i # moves) ls stop =
     bnd (turn stop i ls) (\<lambda>ls'. shared_run turn publish look moves ls' stop)"
| "shared_run turn publish look (Look # moves) ls stop =
     (if stop then shared_run turn publish look moves ls stop
      else bnd look (\<lambda>stop'. shared_run turn publish look moves ls stop'))"

subsection \<open>The steps of one worker are the coroutine\<close>

definition worker_steps :: "'r redis \<Rightarrow> string \<Rightarrow> string \<Rightarrow> string \<Rightarrow> ('r, 'x) cc_handler \<Rightarrow> int \<Rightarrow> int \<Rightarrow> int \<Rightarrow> nat \<Rightarrow>
    cc_worker \<Rightarrow> (('r, 'x) world_scheme, cc_worker) io" where
  "worker_steps R s g c h n b mi k l = for_each (\<lambda>_ l. worker_step R s g c h n b mi False l) (replicate k ()) l"

lemma ret_Pair: "ret x = Pair (Inr x)"
  by (simp add: fun_eq_iff)

lemma bnd_Pair: "bnd (Pair (Inr x)) k = k x"
  by (simp add: bnd_def fun_eq_iff)

lemmas io_norm = bnd_assoc ret_Pair bnd_Pair

lemma worker_steps_fun: "worker_steps R s g c h n b mi k = for_each (\<lambda>_ l. worker_step R s g c h n b mi False l) (replicate k ())"
  by (simp add: worker_steps_def fun_eq_iff)

lemma worker_steps_add:
  "worker_steps R s g c h n b mi (j + k) l = bnd (worker_steps R s g c h n b mi j l) (worker_steps R s g c h n b mi k)"
  by (simp add: worker_steps_fun replicate_add for_each_append)

lemma worker_steps_Suc:
  "worker_steps R s g c h n b mi (Suc k) l = bnd (worker_step R s g c h n b mi False l) (worker_steps R s g c h n b mi k)"
  by (simp add: worker_steps_fun)

lemma worker_steps_0 [simp]: "worker_steps R s g c h n b mi 0 l = ret l"
  by (simp add: worker_steps_def)

lemma handle_batch_shift:
  "for_each (cc_handle_one R s g c h) es (t + k) = bnd (for_each (cc_handle_one R s g c h) es k) (\<lambda>n. ret (t + n))"
proof (induction es arbitrary: k)
  case (Cons e es)
  have "cc_handle_one R s g c h e (t + k) = bnd (cc_handle_one R s g c h e k) (\<lambda>n. ret (t + n))" for k
    by (simp add: cc_handle_one_def add.assoc io_norm)
  then show ?case using Cons by (simp add: bnd_assoc)
qed (simp add: ret_Pair bnd_Pair)

lemma worker_handles_batch:
  "worker_steps R s g c h n b mi (length es) (l\<lparr>w_batch := es\<rparr>) =
    bnd (cc_handle_batch R s g c es h) (\<lambda>k. ret (l\<lparr>w_batch := [], w_total := w_total l + k\<rparr>))"
proof -
  have "worker_steps R s g c h n b mi (length es) (l\<lparr>w_batch := es, w_total := t\<rparr>) =
      bnd (for_each (cc_handle_one R s g c h) es t) (\<lambda>t'. ret (l\<lparr>w_batch := [], w_total := t'\<rparr>))" for t
    by (induction es arbitrary: t) (simp_all add: worker_steps_Suc worker_step_def io_norm)
  from this [of "w_total l + 0"] show ?thesis
    unfolding handle_batch_shift by (simp add: cc_handle_batch_def io_norm)
qed

text \<open>One turn of the loop, then the loop, then the coroutine, whichever way they end.\<close>

lemma worker_drains:
  assumes "cc_handle_batch R s g c es h w = (r, w')"
  shows "worker_steps R s g c h n b mi (length es) (l\<lparr>w_batch := es\<rparr>) w =
    (map_sum id (\<lambda>k. l\<lparr>w_batch := [], w_total := w_total l + k\<rparr>) r, w')"
  unfolding worker_handles_batch using assms by (cases r) (simp_all add: bnd_def)

lemma worker_steps_trans:
  assumes "worker_steps R s g c h n b mi j l w = (Inr l1, w1)"
  shows "worker_steps R s g c h n b mi (j + k) l w = worker_steps R s g c h n b mi k l1 w1"
  by (simp add: worker_steps_add bnd_Inr [where m = "worker_steps R s g c h n b mi j l", OF assms])

lemma cc_turn_uniform:
  "cc_turn R s g c h n b mi t =
    bnd (cc_reclaim_stale R s g c mi n) (\<lambda>es. bnd (cc_handle_batch R s g c es h) (\<lambda>k.
    bnd (cc_read_new R s g c n b) (\<lambda>es'. bnd (cc_handle_batch R s g c es' h) (\<lambda>k'. ret (t + k + k')))))"
proof -
  have "(if es = [] then ret t else bnd (cc_handle_batch R s g c es h) (\<lambda>k. ret (t + k))) =
      bnd (cc_handle_batch R s g c es h) (\<lambda>k. ret (t + k))" for es and t :: int
    by (simp add: cc_handle_batch_def ret_Pair bnd_Pair)
  then show ?thesis by (simp add: cc_turn_def bnd_assoc)
qed

lemma cc_turn_steps:
  assumes run: "cc_turn R s g c h n b mi (w_total l) w = (r, w')" and l: "w_phase l = At_Top" "w_batch l = []"
  shows "\<exists>k. worker_steps R s g c h n b mi k l w = (map_sum id (\<lambda>t. l\<lparr>w_total := t\<rparr>) r, w')"
proof -
  have one: "worker_steps R s g c h n b mi 1 l w = worker_step R s g c h n b mi False l w" for l w
    by (simp add: worker_steps_def bnd_def split: prod.split sum.split)
  obtain r1 w1 where r1: "cc_reclaim_stale R s g c mi n w = (r1, w1)" by fastforce
  show ?thesis
  proof (cases r1)
    case (Inl e)
    then have "worker_steps R s g c h n b mi 1 l w = (Inl e, w1)" unfolding one
      using r1 l by (simp add: worker_step_def bnd_def)
    then show ?thesis using run r1 Inl by (auto simp: cc_turn_uniform bnd_def)
  next
    case (Inr es)
    define l1 where "l1 = l\<lparr>w_phase := Reading\<rparr>"
    have s1: "worker_steps R s g c h n b mi 1 l w = (Inr (l1\<lparr>w_batch := es\<rparr>), w1)" unfolding one
      using r1 l Inr by (simp add: worker_step_def bnd_def l1_def)
    obtain r2 w2 where r2: "cc_handle_batch R s g c es h w1 = (r2, w2)" by fastforce
    note s2 = worker_drains [OF r2, of n b mi l1]
    show ?thesis
    proof (cases r2)
      case (Inl e)
      then have "worker_steps R s g c h n b mi (1 + length es) l w = (Inl e, w2)"
        unfolding worker_steps_trans [OF s1] using s2 by simp
      moreover have "(r, w') = (Inl e, w2)" using run r1 \<open>r1 = Inr es\<close> r2 Inl by (simp add: cc_turn_uniform bnd_def)
      ultimately show ?thesis by auto
    next
      case (Inr k)
      define l2 where "l2 = l1\<lparr>w_batch := [], w_total := w_total l + k\<rparr>"
      have s2: "worker_steps R s g c h n b mi (length es) (l1\<lparr>w_batch := es\<rparr>) w1 = (Inr l2, w2)"
        using s2 Inr by (simp add: l1_def l2_def)
      obtain r3 w3 where r3: "cc_read_new R s g c n b w2 = (r3, w3)" by fastforce
      show ?thesis
      proof (cases r3)
        case (Inl e)
        then have "worker_steps R s g c h n b mi 1 l2 w2 = (Inl e, w3)" unfolding one
          using r3 by (simp add: worker_step_def bnd_def l1_def l2_def)
        then have "worker_steps R s g c h n b mi (1 + (length es + 1)) l w = (Inl e, w3)"
          unfolding worker_steps_trans [OF s1] worker_steps_trans [OF s2] .
        moreover have "(r, w') = (Inl e, w3)"
          using run r1 \<open>r1 = Inr es\<close> r2 \<open>r2 = Inr k\<close> r3 Inl by (simp add: cc_turn_uniform bnd_def)
        ultimately show ?thesis by auto
      next
        case (Inr es')
        have s3: "worker_steps R s g c h n b mi 1 l2 w2 = (Inr (l2\<lparr>w_phase := At_Top, w_batch := es'\<rparr>), w3)" unfolding one
          using r3 Inr by (simp add: worker_step_def bnd_def l1_def l2_def)
        obtain r4 w4 where r4: "cc_handle_batch R s g c es' h w3 = (r4, w4)" by fastforce
        have "l2\<lparr>w_phase := At_Top, w_batch := [], w_total := w_total l2 + k'\<rparr> = l\<lparr>w_total := w_total l + k + k'\<rparr>" for k'
          using l by (cases l) (simp add: l1_def l2_def)
        then have "worker_steps R s g c h n b mi (1 + (length es + (1 + length es'))) l w =
            (map_sum id (\<lambda>k'. l\<lparr>w_total := w_total l + k + k'\<rparr>) r4, w4)"
          unfolding worker_steps_trans [OF s1] worker_steps_trans [OF s2] worker_steps_trans [OF s3]
          using worker_drains [OF r4, of n b mi "l2\<lparr>w_phase := At_Top\<rparr>"] by simp
        moreover have "(r, w') = (map_sum id (\<lambda>k'. w_total l + k + k') r4, w4)"
          using run r1 \<open>r1 = Inr es\<close> r2 \<open>r2 = Inr k\<close> r3 Inr r4 by (cases r4) (auto simp: cc_turn_uniform bnd_def)
        ultimately show ?thesis by (cases r4) auto
      qed
    qed
  qed
qed

lemma cc_loop_steps:
  assumes "cc_loop R s g c h n b mi (replicate m (\<lambda>w. w)) (w_total l) w = (r, w')" and l: "w_phase l = At_Top" "w_batch l = []"
  shows "\<exists>k. worker_steps R s g c h n b mi k l w = (map_sum id (\<lambda>t. l\<lparr>w_total := t\<rparr>) r, w')"
  using assms
proof (induction m arbitrary: l w)
  case 0
  then show ?case by (auto intro!: exI [of _ 0])
next
  case (Suc m)
  obtain r1 w1 where r1: "cc_turn R s g c h n b mi (w_total l) w = (r1, w1)" by fastforce
  obtain k where k: "worker_steps R s g c h n b mi k l w = (map_sum id (\<lambda>t. l\<lparr>w_total := t\<rparr>) r1, w1)"
    using cc_turn_steps [OF r1 Suc.prems(2,3)] by blast
  show ?case
  proof (cases r1)
    case (Inl e)
    then show ?thesis using Suc.prems(1) r1 k by (auto simp: bnd_def)
  next
    case (Inr t)
    then have "cc_loop R s g c h n b mi (replicate m (\<lambda>w. w)) (w_total (l\<lparr>w_total := t\<rparr>)) w1 = (r, w')"
      using Suc.prems(1) r1 by (simp add: bnd_def)
    from Suc.IH [OF this] have "\<exists>k'. worker_steps R s g c h n b mi k' (l\<lparr>w_total := t\<rparr>) w1 =
        (map_sum id (\<lambda>t. l\<lparr>w_total := t\<rparr>) r, w')"
      using Suc.prems(2,3) by (simp add: id_def)
    then obtain k' where k': "worker_steps R s g c h n b mi k' (l\<lparr>w_total := t\<rparr>) w1 =
        (map_sum id (\<lambda>t. l\<lparr>w_total := t\<rparr>) r, w')" ..
    have "worker_steps R s g c h n b mi k l w = (Inr (l\<lparr>w_total := t\<rparr>), w1)" using k Inr by simp
    from worker_steps_trans [OF this, of k'] k' show ?thesis by metis
  qed
qed

lemma run_consumer_steps:
  assumes run: "run_consumer R s g c h n b mi (replicate m (\<lambda>w. w)) w = (r, w')"
  shows "\<exists>k. worker_steps R s g c h n b mi k new_worker w =
    (map_sum id (\<lambda>t. \<lparr>w_phase = At_Top, w_batch = [], w_total = t\<rparr>) r, w')"
proof -
  define l0 where "l0 = \<lparr>w_phase = At_Top, w_batch = [], w_total = 0\<rparr>"
  have join: "worker_step R s g c h n b mi False new_worker =
      bnd (cc_ensure_group R s g) (\<lambda>_. bnd (incr ''competing_consumers'' ''consumer_joins'' 1) (\<lambda>_. ret l0))"
    by (simp add: worker_step_def new_worker_def l0_def)
  obtain r1 w1 where r1: "worker_step R s g c h n b mi False new_worker w = (r1, w1)" by fastforce
  have run': "run_consumer R s g c h n b mi (replicate m (\<lambda>w. w)) w =
      bnd (worker_step R s g c h n b mi False new_worker) (\<lambda>_. cc_loop R s g c h n b mi (replicate m (\<lambda>w. w)) 0) w"
    by (simp add: run_consumer_def join bnd_assoc)
  show ?thesis
  proof (cases r1)
    case (Inl e)
    then have "worker_steps R s g c h n b mi (Suc 0) new_worker w = (r1, w1)"
      using r1 by (simp add: worker_steps_Suc bnd_def)
    then show ?thesis using run run' r1 Inl by (auto simp: bnd_def)
  next
    case (Inr l)
    have "l = l0" using r1 Inr unfolding join by (auto elim!: bnd_InrE)
    moreover have "cc_loop R s g c h n b mi (replicate m (\<lambda>w. w)) (w_total l0) w1 = (r, w')"
      using run run' r1 Inr by (simp add: bnd_def l0_def)
    from cc_loop_steps [OF this] have
      "\<exists>k. worker_steps R s g c h n b mi k l0 w1 = (map_sum id (\<lambda>t. l0\<lparr>w_total := t\<rparr>) r, w')" by (simp add: l0_def)
    then obtain k where
      "worker_steps R s g c h n b mi k l0 w1 = (map_sum id (\<lambda>t. l0\<lparr>w_total := t\<rparr>) r, w')" ..
    ultimately have "worker_steps R s g c h n b mi (Suc k) new_worker w = (map_sum id (\<lambda>t. l0\<lparr>w_total := t\<rparr>) r, w')"
      using r1 Inr by (simp add: worker_steps_Suc bnd_def)
    then show ?thesis by (auto simp: l0_def)
  qed
qed

end
