(* ===== verification/CC_Sched.thy ===== *)
theory CC_Sched
  imports CC_Shared
begin

section \<open>Schedules of competing consumers\<close>

text \<open>
  What a schedule comes to, without the broker: of each worker only its phase and how many messages it holds,
  of the group only how many messages are undelivered, of the producer how many it has still to publish.
  \<open>enough\<close> is a condition on schedules under which everything is published, delivered, handled and noticed.
\<close>

type_synonym abs_worker = "cc_phase \<times> nat"

fun advance :: "nat \<Rightarrow> bool \<Rightarrow> abs_worker \<Rightarrow> nat \<Rightarrow> abs_worker \<times> nat" where
  "advance n stop (p, Suc k) b = ((p, k), b)"
| "advance n stop (Joining, 0) b = ((At_Top, 0), b)"
| "advance n stop (At_Top, 0) b = ((if stop then At_Top else Reading, 0), b)"
| "advance n stop (Reading, 0) b = ((At_Top, min n b), b - n)"

record sched =
  a_workers :: "abs_worker list"
  a_backlog :: nat
  a_left :: nat
  a_stop :: bool

definition drained :: "sched \<Rightarrow> bool" where
  "drained a \<longleftrightarrow> a_left a = 0 \<and> a_backlog a = 0 \<and> (\<forall>x \<in> set (a_workers a). snd x = 0)"

fun sched_step :: "nat \<Rightarrow> move \<Rightarrow> sched \<Rightarrow> sched" where
  "sched_step n Publish a = (if a_left a = 0 then a else a\<lparr>a_left := a_left a - 1, a_backlog := a_backlog a + 1\<rparr>)"
| "sched_step n (Work i) a = (if i < length (a_workers a)
     then (case advance n (a_stop a) (a_workers a ! i) (a_backlog a) of (x, b) \<Rightarrow>
       a\<lparr>a_workers := (a_workers a)[i := x], a_backlog := b\<rparr>)
     else a)"
| "sched_step n Look a = a\<lparr>a_stop := a_stop a \<or> drained a\<rparr>"

definition works :: "nat \<Rightarrow> move list \<Rightarrow> nat" where
  "works N moves = length (filter (\<lambda>m. case m of Work i \<Rightarrow> i < N | _ \<Rightarrow> False) moves)"

definition enough :: "nat \<Rightarrow> nat \<Rightarrow> nat \<Rightarrow> nat \<Rightarrow> move list \<Rightarrow> bool" where
  "enough N n todo tasks moves \<longleftrightarrow> (\<exists>s0 s1 s2 s3. moves = s0 @ s1 @ s2 @ Look # s3 \<and>
     todo \<le> count_list s0 Publish \<and> 3 * tasks + 2 * N \<le> works N s1 \<and>
     (\<forall>i < N. n \<le> count_list s2 (Work i)) \<and> (\<forall>i < N. Work i \<in> set s3))"

subsection \<open>What every step keeps\<close>

fun weight :: "abs_worker \<Rightarrow> nat" where
  "weight (p, k) = k + (case p of Joining \<Rightarrow> 2 | At_Top \<Rightarrow> 1 | Reading \<Rightarrow> 0)"

definition held :: "abs_worker list \<Rightarrow> nat" where
  "held as = sum_list (map snd as)"

definition effort :: "sched \<Rightarrow> nat" where
  "effort a = 3 * a_backlog a + sum_list (map weight (a_workers a))"

definition sched_ok :: "nat \<Rightarrow> sched \<Rightarrow> bool" where
  "sched_ok n a \<longleftrightarrow> (a_stop a \<longrightarrow> drained a) \<and> (\<forall>x \<in> set (a_workers a). snd x \<le> n)"

abbreviation sched_run :: "nat \<Rightarrow> move list \<Rightarrow> sched \<Rightarrow> sched" where
  "sched_run n moves a \<equiv> fold (sched_step n) moves a"

lemma sum_list_update':
  fixes f :: "'a \<Rightarrow> nat"
  shows "i < length xs \<Longrightarrow> sum_list (map f (xs[i := x])) + f (xs ! i) = sum_list (map f xs) + f x"
  by (induction xs arbitrary: i) (auto split: nat.split)

lemma advance_cases:
  assumes "advance n stop x b = (x', b')" and "snd x \<le> n"
  shows "snd x' \<le> n" and "snd x' + b' \<le> snd x + b" and "b' \<le> b"
    and "b = 0 \<Longrightarrow> snd x' = snd x - 1"
    and "\<not> stop \<Longrightarrow> 0 < b \<Longrightarrow> 1 \<le> n \<Longrightarrow> 3 * b' + weight x' < 3 * b + weight x"
    and "b = 0 \<Longrightarrow> snd x = 0 \<Longrightarrow> stop \<Longrightarrow> x' = (At_Top, 0)"
    and "3 * b' + weight x' \<le> 3 * b + weight x + 1"
  using assms by (cases "(n, stop, x, b)" rule: advance.cases; auto simp: min_def)+

lemma sched_ok_step:
  assumes "sched_ok n a"
  shows "sched_ok n (sched_step n m a)"
proof (cases m)
  case (Work i)
  show ?thesis
  proof (cases "i < length (a_workers a)")
    case True
    obtain x' b' where adv: "advance n (a_stop a) (a_workers a ! i) (a_backlog a) = (x', b')" by fastforce
    have len: "snd (a_workers a ! i) \<le> n" using assms True by (auto simp: sched_ok_def)
    note cs = advance_cases [OF adv len]
    have "snd x' = 0" "b' = 0" if "a_stop a"
    proof -
      have "drained a" using assms that by (simp add: sched_ok_def)
      then have "a_backlog a = 0" "snd (a_workers a ! i) = 0" using True by (simp_all add: drained_def)
      then show "snd x' = 0" "b' = 0" using cs(3,4) by simp_all
    qed
    then show ?thesis using assms True Work adv cs(1)
      by (auto simp: sched_ok_def drained_def dest!: set_update_subset_insert [THEN subsetD])
  next
    case False
    then show ?thesis using assms Work by simp
  qed
qed (use assms in \<open>auto simp: sched_ok_def drained_def\<close>)

lemma sched_ok_run: "sched_ok n a \<Longrightarrow> sched_ok n (sched_run n moves a)"
  by (induction moves arbitrary: a) (auto intro: sched_ok_step)

lemma length_sched_step [simp]: "length (a_workers (sched_step n m a)) = length (a_workers a)"
  by (cases m) (auto split: prod.split)

lemma length_sched_run [simp]: "length (a_workers (sched_run n moves a)) = length (a_workers a)"
  by (induction moves arbitrary: a) auto

subsection \<open>Enough moves\<close>

definition load :: "sched \<Rightarrow> nat" where
  "load a = a_left a + a_backlog a + held (a_workers a)"

lemma load_step:
  assumes "sched_ok n a"
  shows "load (sched_step n m a) \<le> load a"
proof (cases m)
  case (Work i)
  show ?thesis
  proof (cases "i < length (a_workers a)")
    case True
    obtain x' b' where adv: "advance n (a_stop a) (a_workers a ! i) (a_backlog a) = (x', b')" by fastforce
    have "snd (a_workers a ! i) \<le> n" using assms True by (auto simp: sched_ok_def)
    from advance_cases(2) [OF adv this] show ?thesis
      using True Work adv sum_list_update' [OF True, of snd x'] by (simp add: load_def held_def)
  qed (simp add: Work)
qed (auto simp: load_def)

lemma load_run: "sched_ok n a \<Longrightarrow> load (sched_run n moves a) \<le> load a"
  by (induction moves arbitrary: a) (auto intro: sched_ok_step load_step order_trans)

lemma left_run: "a_left (sched_run n moves a) = a_left a - count_list moves Publish"
proof (induction moves arbitrary: a)
  case (Cons m moves)
  then show ?case by (cases m) (auto split: prod.split)
qed simp

lemma effort_step:
  assumes "sched_ok n a" and "a_left a = 0" and "1 \<le> n" and "0 < a_backlog (sched_step n m a)"
  shows "effort (sched_step n m a) + works (length (a_workers a)) [m] \<le> effort a \<and> 0 < a_backlog a"
proof (cases m)
  case (Work i)
  show ?thesis
  proof (cases "i < length (a_workers a)")
    case True
    obtain x' b' where adv: "advance n (a_stop a) (a_workers a ! i) (a_backlog a) = (x', b')" by fastforce
    have "snd (a_workers a ! i) \<le> n" using assms True by (auto simp: sched_ok_def)
    note cs = advance_cases [OF adv this]
    have "0 < b'" using assms(4) Work True adv by simp
    then have b: "0 < a_backlog a" using cs(3) by linarith
    then have "\<not> a_stop a" using assms(1) by (auto simp: sched_ok_def drained_def)
    with b cs(5) assms(3) show ?thesis
      using True Work adv sum_list_update' [OF True, of weight x'] by (simp add: effort_def works_def)
  qed (use Work assms in \<open>simp add: works_def\<close>)
qed (use assms in \<open>auto simp: works_def effort_def\<close>)

lemma works_Cons: "works N (m # ms) = works N [m] + works N ms"
  by (simp add: works_def)

lemma left_zero_step: "a_left a = 0 \<Longrightarrow> a_left (sched_step n m a) = 0"
  using left_run [of n "[m]" a] by simp

lemma idle_step:
  assumes "sched_ok n a" and "a_left a = 0" and "a_backlog a = 0"
  shows "a_backlog (sched_step n m a) = 0 \<and> (\<forall>i < length (a_workers a).
    snd (a_workers (sched_step n m a) ! i) = snd (a_workers a ! i) - count_list [m] (Work i))"
proof (cases m)
  case (Work i)
  show ?thesis
  proof (cases "i < length (a_workers a)")
    case True
    obtain x' b' where adv: "advance n (a_stop a) (a_workers a ! i) (a_backlog a) = (x', b')" by fastforce
    have "snd (a_workers a ! i) \<le> n" using assms True by (auto simp: sched_ok_def)
    from advance_cases(3,4) [OF adv this] show ?thesis
      using True Work adv assms(3) by (auto simp: nth_list_update)
  qed (use Work assms in auto)
qed (use assms in auto)

lemma idle_run:
  assumes "sched_ok n a" and "a_left a = 0" and "a_backlog a = 0"
  shows "a_backlog (sched_run n moves a) = 0 \<and> (\<forall>i < length (a_workers a).
    snd (a_workers (sched_run n moves a) ! i) = snd (a_workers a ! i) - count_list moves (Work i))"
  using assms
proof (induction moves arbitrary: a)
  case (Cons m moves)
  note st = idle_step [OF Cons.prems, of m]
  have "a_backlog (sched_run n moves (sched_step n m a)) = 0 \<and> (\<forall>i < length (a_workers (sched_step n m a)).
    snd (a_workers (sched_run n moves (sched_step n m a)) ! i) =
      snd (a_workers (sched_step n m a) ! i) - count_list moves (Work i))"
    using st by (intro Cons.IH sched_ok_step left_zero_step Cons.prems) simp
  then show ?case using st by auto
qed simp

lemma backlog_run:
  assumes "sched_ok n a" and "a_left a = 0" and "1 \<le> n"
  shows "a_backlog (sched_run n moves a) = 0 \<or>
    effort (sched_run n moves a) + works (length (a_workers a)) moves \<le> effort a"
  using assms(1,2)
proof (induction moves arbitrary: a)
  case (Cons m moves)
  let ?a = "sched_step n m a"
  have ok: "sched_ok n ?a" "a_left ?a = 0" by (rule sched_ok_step left_zero_step Cons.prems)+
  show ?case
  proof (cases "a_backlog ?a = 0")
    case True
    then show ?thesis using idle_run [OF ok True, of moves] by simp
  next
    case False
    then have "effort ?a + works (length (a_workers a)) [m] \<le> effort a"
      using effort_step [OF Cons.prems assms(3), of m] by simp
    then show ?thesis using Cons.IH [OF ok] works_Cons [of "length (a_workers a)" m moves] by auto
  qed
qed (simp add: works_def)

lemma stopped_step:
  assumes "sched_ok n a" and "a_stop a" and "i < length (a_workers a)"
    and "a_workers a ! i = (At_Top, 0) \<or> m = Work i"
  shows "a_workers (sched_step n m a) ! i = (At_Top, 0)"
proof (cases m)
  case (Work j)
  have dr: "drained a" using assms(1,2) by (simp add: sched_ok_def)
  show ?thesis
  proof (cases "j < length (a_workers a)")
    case True
    obtain x' b' where adv: "advance n (a_stop a) (a_workers a ! j) (a_backlog a) = (x', b')" by fastforce
    have "snd (a_workers a ! j) \<le> n" using assms(1) True by (auto simp: sched_ok_def)
    moreover have "snd (a_workers a ! j) = 0" "a_backlog a = 0" using dr True by (auto simp: drained_def)
    ultimately have "x' = (At_Top, 0)" using advance_cases(6) [OF adv] assms(2) by blast
    then show ?thesis using True Work adv assms(3,4) by (auto simp: nth_list_update)
  qed (use Work assms in auto)
qed (use assms in auto)

lemma stop_step: "a_stop a \<Longrightarrow> a_stop (sched_step n m a)"
  by (cases m) (auto split: prod.split)

lemma stop_run: "a_stop a \<Longrightarrow> a_stop (sched_run n moves a)"
  by (induction moves arbitrary: a) (auto intro: stop_step)

lemma stopped_run:
  assumes "sched_ok n a" and "a_stop a" and "i < length (a_workers a)"
    and "a_workers a ! i = (At_Top, 0) \<or> Work i \<in> set moves"
  shows "a_workers (sched_run n moves a) ! i = (At_Top, 0)"
  using assms
proof (induction moves arbitrary: a)
  case (Cons m moves)
  have "a_workers (sched_step n m a) ! i = (At_Top, 0) \<or> Work i \<in> set moves"
    using Cons.prems stopped_step [OF Cons.prems(1-3), of m] by auto
  then show ?case using Cons.IH [OF sched_ok_step [OF Cons.prems(1)] stop_step [OF Cons.prems(2)]] Cons.prems(3) by simp
qed simp

lemma weight_bound: "sum_list (map weight as) \<le> held as + 2 * length as"
  by (induction as) (auto simp: held_def split: cc_phase.split)

lemma enough_returns:
  assumes ok: "sched_ok n a" and n: "1 \<le> n" and tasks: "load a \<le> tasks"
    and en: "enough (length (a_workers a)) n (a_left a) tasks moves"
  shows "a_stop (sched_run n moves a)" and "set (a_workers (sched_run n moves a)) \<subseteq> {(At_Top, 0)}"
proof -
  let ?N = "length (a_workers a)"
  obtain s0 s1 s2 s3 where m: "moves = s0 @ s1 @ s2 @ Look # s3" "a_left a \<le> count_list s0 Publish"
    "3 * tasks + 2 * ?N \<le> works ?N s1" "\<forall>i < ?N. n \<le> count_list s2 (Work i)" "\<forall>i < ?N. Work i \<in> set s3"
    using en unfolding enough_def by blast
  define a0 where "a0 = sched_run n s0 a"
  define a1 where "a1 = sched_run n s1 a0"
  define a2 where "a2 = sched_run n s2 a1"
  define a3 where "a3 = sched_step n Look a2"
  have oks: "sched_ok n a0" "sched_ok n a1" "sched_ok n a2" "sched_ok n a3"
    unfolding a0_def a1_def a2_def a3_def by (intro sched_ok_step sched_ok_run ok)+
  have N: "length (a_workers a0) = ?N" "length (a_workers a1) = ?N" "length (a_workers a2) = ?N" "length (a_workers a3) = ?N"
    by (simp_all add: a0_def a1_def a2_def a3_def)
  have left: "a_left a0 = 0" "a_left a1 = 0" "a_left a2 = 0" using m(2) by (simp_all add: a0_def a1_def a2_def left_run)
  have "effort a0 \<le> 3 * load a0 + 2 * ?N"
    using weight_bound [of "a_workers a0"] by (simp add: effort_def load_def N)
  moreover have "load a0 \<le> tasks" using load_run [OF ok, of s0] tasks by (simp add: a0_def)
  ultimately have eff: "effort a0 \<le> works ?N s1" using m(3) by linarith
  have b1: "a_backlog a1 = 0"
    using backlog_run [OF oks(1) left(1) n, of s1] eff by (auto simp: a1_def [symmetric] N effort_def)
  have "snd (a_workers a2 ! i) = 0" if "i < ?N" for i
  proof -
    have "snd (a_workers a1 ! i) \<le> n" using oks(2) that N by (auto simp: sched_ok_def)
    then show ?thesis using idle_run [OF oks(2) left(2) b1, of s2] that N m(4) by (fastforce simp: a2_def)
  qed
  then have "\<forall>x \<in> set (a_workers a2). snd x = 0" by (metis in_set_conv_nth N(3))
  moreover have "a_backlog a2 = 0" using idle_run [OF oks(2) left(2) b1, of s2] by (simp add: a2_def)
  ultimately have st: "a_stop a3" using left(3) by (simp add: a3_def drained_def)
  have run: "sched_run n moves a = sched_run n s3 a3" by (simp add: m(1) a0_def a1_def a2_def a3_def)
  show "a_stop (sched_run n moves a)" unfolding run by (rule stop_run [OF st])
  show "set (a_workers (sched_run n moves a)) \<subseteq> {(At_Top, 0)}" unfolding run
    using stopped_run [OF oks(4) st, of _ s3] m(5) N by (auto simp: in_set_conv_nth)
qed

text \<open>There are such schedules: everything published, then the workers in turn.\<close>

definition rounds :: "nat \<Rightarrow> nat \<Rightarrow> move list" where
  "rounds N k = concat (replicate k (map Work [0..<N]))"

lemma rounds_facts:
  "works N (rounds N k) = N * k" "i < N \<Longrightarrow> count_list (rounds N k) (Work i) = k"
  "i < N \<Longrightarrow> 0 < k \<Longrightarrow> Work i \<in> set (rounds N k)"
proof -
  have one: "works N (map Work [0..<M]) = M" if "M \<le> N" for M using that by (induction M) (simp_all add: works_def)
  have app: "works N (xs @ ys) = works N xs + works N ys" for xs ys by (simp add: works_def)
  show "works N (rounds N k) = N * k"
    by (induction k) (simp_all add: rounds_def app one, simp add: works_def)
  have "count_list (map Work [0..<M]) (Work i) = (if i < M then 1 else 0)" for M by (induction M) auto
  then show "i < N \<Longrightarrow> count_list (rounds N k) (Work i) = k" by (induction k) (simp_all add: rounds_def)
  show "i < N \<Longrightarrow> 0 < k \<Longrightarrow> Work i \<in> set (rounds N k)" by (cases k) (auto simp: rounds_def)
qed

lemma round_robin_enough:
  assumes "0 < N"
  shows "enough N n todo tasks (replicate todo Publish @ rounds N (3 * tasks + 2) @ rounds N n @ Look # rounds N 1)"
proof -
  have "1 * (3 * tasks) \<le> N * (3 * tasks)" using assms by (intro mult_le_mono1) simp
  then have "3 * tasks + 2 * N \<le> works N (rounds N (3 * tasks + 2))"
    unfolding rounds_facts(1) by (simp add: algebra_simps)
  moreover have "count_list (replicate todo Publish) Publish = todo" by (induction todo) simp_all
  ultimately show ?thesis unfolding enough_def
    by (intro exI [of _ "replicate todo Publish"] exI [of _ "rounds N (3 * tasks + 2)"] exI [of _ "rounds N n"] exI [of _ "rounds N 1"])
      (simp add: rounds_facts)
qed

end
