(* ===== verification/CC_Together.thy ===== *)
theory CC_Together
  imports CC_Sched
begin

section \<open>Competing consumers keep to the schedule\<close>

text \<open>
  The workers over the broker do what their schedule says: \<open>worker_turn\<close> refines \<open>advance\<close>. The invariant
  \<open>shares\<close>: every message of the stream was handled, or is held by one worker and pending, or is undelivered.
  The time of the server stands still, that is, the run is shorter than the idle time after which a message
  counts as stale.
\<close>

definition task_of :: "entry \<Rightarrow> task" where
  "task_of e = projr (task_from_fields (snd e))"

definition shares :: "string \<Rightarrow> string \<Rightarrow> int \<Rightarrow> int \<Rightarrow> keyspace \<Rightarrow> cc_worker list \<Rightarrow> entry multiset \<Rightarrow> bool" where
  "shares s g mi n k ls H \<longleftrightarrow> (\<exists>gr. ks_group k s g = Some gr \<and> distinct (map fst (ks_entries k s)) \<and>
     (\<forall>e \<in> set (ks_entries k s). task_from_fields (snd e) = Inr (task_of e)) \<and>
     mset (ks_entries k s) = H + mset (concat (map w_batch ls)) + mset (g_new gr) \<and>
     mset (pel_entries gr) = mset (concat (map w_batch ls)) \<and> (\<forall>x \<in> set (g_pel gr). ks_time k - pe_since x < mi) \<and>
     (\<forall>l \<in> set ls. int (length (w_batch l)) \<le> n))"

lemma sharesE:
  assumes "shares s g mi n k ls H"
  obtains gr where "ks_group k s g = Some gr" and "distinct (map fst (ks_entries k s))"
    and "\<forall>e \<in> set (ks_entries k s). task_from_fields (snd e) = Inr (task_of e)"
    and "mset (ks_entries k s) = H + mset (concat (map w_batch ls)) + mset (g_new gr)"
    and "mset (pel_entries gr) = mset (concat (map w_batch ls))" and "\<forall>x \<in> set (g_pel gr). ks_time k - pe_since x < mi"
    and "\<forall>l \<in> set ls. int (length (w_batch l)) \<le> n"
  using assms unfolding shares_def by blast

definition waiting_in :: "string \<Rightarrow> string \<Rightarrow> keyspace \<Rightarrow> nat" where
  "waiting_in s g k = (case ks_group k s g of None \<Rightarrow> 0 | Some gr \<Rightarrow> length (g_new gr))"

definition outline :: "cc_worker \<Rightarrow> abs_worker" where
  "outline l = (w_phase l, length (w_batch l))"

abbreviation tasks_of :: "entry multiset \<Rightarrow> task multiset" where
  "tasks_of \<equiv> image_mset task_of"

lemma distinct_submset:
  assumes "mset xs \<subseteq># mset ys" and "distinct ys"
  shows "distinct xs"
proof -
  obtain zs where "mset ys = mset (xs @ zs)"
    using assms(1) by (metis ex_mset mset_append subset_mset.less_eqE)
  then show ?thesis using assms(2) mset_eq_imp_distinct_iff by (metis distinct_append)
qed

lemma filter_remove1:
  "distinct (map fst xs) \<Longrightarrow> m \<in> set xs \<Longrightarrow> filter (\<lambda>e. fst e \<noteq> fst m) xs = remove1 m xs"
proof (induction xs)
  case (Cons x xs)
  show ?case
  proof (cases "x = m")
    case True
    then have "\<forall>e \<in> set xs. fst e \<noteq> fst m" using Cons.prems(1) by (auto simp: image_iff)
    then show ?thesis using True by (simp add: filter_id_conv)
  next
    case False
    then have "m \<in> set xs" using Cons.prems(2) by simp
    moreover have "fst x \<noteq> fst m" using Cons.prems(1) \<open>m \<in> set xs\<close> by force
    ultimately show ?thesis using Cons False by simp
  qed
qed simp

lemma batches_update:
  "i < length ls \<Longrightarrow> mset (concat (map w_batch (ls[i := l]))) + mset (w_batch (ls ! i)) =
    mset (concat (map w_batch ls)) + mset (w_batch l)"
  by (induction ls arbitrary: i) (auto split: nat.split simp: ac_simps)

lemma batches_member:
  assumes "i < length ls"
  shows "mset (w_batch (ls ! i)) \<subseteq># mset (concat (map w_batch ls))"
  using batches_update [OF assms, of "(ls ! i)\<lparr>w_batch := []\<rparr>"] by (simp, metis mset_subset_eq_add_right)

lemma pel_entries_unpend: "pel_entries (unpend i gr) = filter (\<lambda>e. fst e \<noteq> i) (pel_entries gr)"
  by (simp add: pel_entries_def unpend_def filter_map comp_def)

text \<open>Only the one stream changes.\<close>

definition elsewhere :: "string \<Rightarrow> keyspace \<Rightarrow> keyspace \<Rightarrow> bool" where
  "elsewhere s k k' \<longleftrightarrow> (\<forall>s'. s' \<noteq> s \<longrightarrow> ks_streams k' s' = ks_streams k s')"

lemma elsewhere_intros [simp, intro]:
  "elsewhere s k k" "elsewhere s k (ks_put_group s g gr k)" "elsewhere s k (ks_xadd s i f k)" "elsewhere s k (ks_ack s g i k)"
  by (auto simp: elsewhere_def ks_put_group_def ks_xadd_def ks_ack_def split: option.split)

lemma elsewhere_chain [trans]: "elsewhere s k1 k2 \<Longrightarrow> elsewhere s k2 k3 \<Longrightarrow> elsewhere s k1 k3"
  by (simp add: elsewhere_def)

lemma elsewhere_other: "elsewhere s k k' \<Longrightarrow> s' \<noteq> s \<Longrightarrow> ks_entries k' s' = ks_entries k s' \<and> ks_group k' s' g = ks_group k s' g"
  by (simp add: elsewhere_def ks_entries_def ks_group_def)

text \<open>One message of a worker's batch is handled and acknowledged.\<close>

lemma shares_ack:
  assumes sh: "shares s g mi n k ls H" and i: "i < length ls" and b: "w_batch (ls ! i) = m # ms"
    and l: "w_batch l = ms"
  shows "shares s g mi n (ks_ack s g (fst m) k) (ls[i := l]) (add_mset m H)"
proof -
  obtain gr where gr: "ks_group k s g = Some gr" "distinct (map fst (ks_entries k s))"
    "\<forall>e \<in> set (ks_entries k s). task_from_fields (snd e) = Inr (task_of e)"
    "mset (ks_entries k s) = H + mset (concat (map w_batch ls)) + mset (g_new gr)"
    "mset (pel_entries gr) = mset (concat (map w_batch ls))" "\<forall>x \<in> set (g_pel gr). ks_time k - pe_since x < mi"
    "\<forall>l \<in> set ls. int (length (w_batch l)) \<le> n" using sh by (rule sharesE)
  have up: "mset (concat (map w_batch ls)) = add_mset m (mset (concat (map w_batch (ls[i := l]))))"
    using batches_update [OF i, of l] by (simp add: b l)
  have "mset (pel_entries gr) \<subseteq># mset (ks_entries k s)" by (simp add: gr(4,5))
  then have "mset (map fst (pel_entries gr)) \<subseteq># mset (map fst (ks_entries k s))" by (simp add: image_mset_subseteq_mono)
  then have d: "distinct (map fst (pel_entries gr))" using gr(2) by (rule distinct_submset)
  have "m \<in> set (pel_entries gr)" using gr(5) up by (metis mset_eq_setD set_mset_mset union_single_eq_member)
  then have "mset (pel_entries (unpend (fst m) gr)) = mset (concat (map w_batch (ls[i := l])))"
    using filter_remove1 [OF d] gr(5) up by (simp add: pel_entries_unpend)
  moreover have "\<forall>x \<in> set (g_pel (unpend (fst m) gr)). ks_time k - pe_since x < mi" using gr(6) by (simp add: unpend_def)
  moreover have "int (length ms) \<le> n" using gr(7) nth_mem [OF i] b by force
  then have "\<forall>l' \<in> set (ls[i := l]). int (length (w_batch l')) \<le> n"
    using gr(7) l by (auto dest!: set_update_subset_insert [THEN subsetD])
  moreover have "ks_group (ks_ack s g (fst m) k) s g = Some (unpend (fst m) gr)"
    "ks_entries (ks_ack s g (fst m) k) s = ks_entries k s" "ks_time (ks_ack s g (fst m) k) = ks_time k"
    using gr(1) by (simp_all add: ks_ack_def)
  moreover have "g_new (unpend (fst m) gr) = g_new gr" by (simp add: unpend_def)
  ultimately show ?thesis using gr(2,3,4) unfolding shares_def
    by (intro exI [of _ "unpend (fst m) gr"]) (simp add: up)
qed

text \<open>A worker with nothing in hand changes its phase, or takes up messages that were undelivered.\<close>

lemma shares_phase:
  assumes "shares s g mi n k ls H" and "i < length ls" and "w_batch l = w_batch (ls ! i)"
  shows "shares s g mi n k (ls[i := l]) H"
proof -
  have "map w_batch (ls[i := l]) = map w_batch ls" using assms(2,3) by (metis list_update_id map_update)
  then have "w_batch ` set (ls[i := l]) = w_batch ` set ls" by (metis list.set_map)
  then have "(\<forall>l' \<in> set (ls[i := l]). int (length (w_batch l')) \<le> n) = (\<forall>l' \<in> set ls. int (length (w_batch l')) \<le> n)"
    by (metis (mono_tags, lifting) image_iff)
  with \<open>map w_batch (ls[i := l]) = map w_batch ls\<close> show ?thesis using assms(1) unfolding shares_def by presburger
qed

lemma shares_deliver:
  assumes sh: "shares s g mi n k ls H" and i: "i < length ls" and b: "w_batch (ls ! i) = []" and n: "1 \<le> n" and mi: "0 < mi"
    and gr: "ks_group k s g = Some gr" and l: "w_batch l = take (nat n) (g_new gr)"
  shows "shares s g mi n (ks_put_group s g (deliver c (ks_time k) (nat n) gr) k) (ls[i := l]) H"
proof -
  have f: "distinct (map fst (ks_entries k s))"
    "\<forall>e \<in> set (ks_entries k s). task_from_fields (snd e) = Inr (task_of e)"
    "mset (ks_entries k s) = H + mset (concat (map w_batch ls)) + mset (g_new gr)"
    "mset (pel_entries gr) = mset (concat (map w_batch ls))" "\<forall>x \<in> set (g_pel gr). ks_time k - pe_since x < mi"
    "\<forall>l \<in> set ls. int (length (w_batch l)) \<le> n" using sh gr by (auto elim!: sharesE)
  have up: "mset (concat (map w_batch (ls[i := l]))) = mset (concat (map w_batch ls)) + mset (take (nat n) (g_new gr))"
    using batches_update [OF i, of l] by (simp add: b l)
  have split: "mset (g_new gr) = mset (take (nat n) (g_new gr)) + mset (drop (nat n) (g_new gr))"
    by (metis append_take_drop_id mset_append)
  have "\<forall>l' \<in> set (ls[i := l]). int (length (w_batch l')) \<le> n"
    using f(6) l n by (auto dest!: set_update_subset_insert [THEN subsetD])
  moreover have "pel_entries (deliver c (ks_time k) (nat n) gr) = pel_entries gr @ take (nat n) (g_new gr)"
    by (simp add: pel_entries_def deliver_def comp_def split_def)
  moreover have "\<forall>x \<in> set (g_pel (deliver c (ks_time k) (nat n) gr)). ks_time k - pe_since x < mi"
    using f(5) mi by (auto simp: deliver_def)
  moreover have "g_new (deliver c (ks_time k) (nat n) gr) = drop (nat n) (g_new gr)" by (simp add: deliver_def)
  ultimately show ?thesis using f(1-4) split unfolding shares_def
    by (intro exI [of _ "deliver c (ks_time k) (nat n) gr"]) (simp add: up)
qed

lemma touch_nothing: "touch c t [] gr = gr"
  by (simp add: touch_def)

lemma put_same_group: "ks_group k s g = Some gr \<Longrightarrow> ks_put_group s g gr k = k"
  by (cases k) (auto simp: ks_put_group_def ks_group_def fun_eq_iff intro!: strm.equality)

lemma nothing_stale: "\<forall>x \<in> set (g_pel gr). t - pe_since x < mi \<Longrightarrow> claimable t mi n gr = []"
  unfolding claimable_def by (subst filter_False) (auto simp: not_le dest!: in_set_takeD)

subsection \<open>A worker's turn\<close>

text \<open>
  What a client of the group brings: \<open>I\<close> relates its own state to the tasks published and handled, \<open>left\<close> counts
  what it has still to publish. A handler called on a task that was not handled before succeeds, keeps
  \<open>I\<close> and does not talk to the broker.
\<close>

definition serves :: "('x \<Rightarrow> task multiset \<Rightarrow> task multiset \<Rightarrow> bool) \<Rightarrow> ('x \<Rightarrow> nat) \<Rightarrow> string set \<Rightarrow>
    (string \<Rightarrow> ('r, 'x) cc_handler) \<Rightarrow> bool" where
  "serves I left ids handlers \<longleftrightarrow> (\<forall>c \<in> ids. \<forall>t w P H. I (app w) P H \<and> t \<in># P - H \<longrightarrow>
     (\<exists>w'. handlers c c t w = (Inr (), w') \<and> srv w' = srv w \<and> I (app w') P (add_mset t H) \<and> left (app w') = left (app w)))"

definition books :: "('x \<Rightarrow> task multiset \<Rightarrow> task multiset \<Rightarrow> bool) \<Rightarrow> string \<Rightarrow> keyspace \<Rightarrow> 'x \<Rightarrow> entry multiset \<Rightarrow> bool" where
  "books I s k x H \<longleftrightarrow> I x (tasks_of (mset (ks_entries k s))) (tasks_of H)"

context redis_available
begin

lemma handle_step:
  assumes sv: "serves I left ids handlers" and c: "c \<in> ids" and sh: "shares s g mi n (kv w) ls H"
    and bk: "books I s (kv w) (app w) H" and i: "i < length ls" and b: "w_batch (ls ! i) = m # ms"
  shows "\<exists>w'. worker_step R s g c (handlers c) n blk mi stop (ls ! i) w =
      (Inr ((ls ! i)\<lparr>w_batch := ms, w_total := w_total (ls ! i) + 1\<rparr>), w') \<and>
    kv w' = ks_ack s g (fst m) (kv w) \<and> books I s (kv w') (app w') (add_mset m H) \<and> left (app w') = left (app w)"
proof -
  obtain gr where gr: "ks_group (kv w) s g = Some gr"
    "\<forall>e \<in> set (ks_entries (kv w) s). task_from_fields (snd e) = Inr (task_of e)"
    "mset (ks_entries (kv w) s) = H + mset (concat (map w_batch ls)) + mset (g_new gr)" using sh by (auto elim!: sharesE)
  have "m \<in># mset (concat (map w_batch ls))" using batches_member [OF i] b by (simp add: insert_subset_eq_iff)
  then obtain B where B: "mset (concat (map w_batch ls)) = add_mset m B" by (meson multi_member_split)
  then have mem: "m \<in> set (ks_entries (kv w) s)" using gr(3) by (metis in_multiset_in_set union_iff union_single_eq_member)
  have "task_of m \<in># tasks_of (mset (ks_entries (kv w) s)) - tasks_of H" by (simp add: gr(3) B)
  then obtain w1 where w1: "handlers c c (task_of m) w = (Inr (), w1)" "srv w1 = srv w"
    "I (app w1) (tasks_of (mset (ks_entries (kv w) s))) (add_mset (task_of m) (tasks_of H))" "left (app w1) = left (app w)"
    using sv c bk unfolding serves_def books_def by blast
  obtain k w2 where ack: "cc_ack R s g (fst m) w1 = (Inr k, w2)"
    unfolding cc_broker_idioms by (rule group_ack_up)
  have w2: "kv w2 = ks_ack s g (fst m) (kv w)" "app w2 = app w1"
    using group_ack_effect [OF ack [unfolded cc_broker_idioms]] w1(2) by simp_all
  define w3 where "w3 = w2\<lparr>reg := increment ''competing_consumers'' ''messages_consumed'' 1 (wall w2) (reg w2)\<rparr>"
  have "cc_handle_one R s g c (handlers c) m t w = (Inr (t + 1), w3)" for t
    using gr(2) mem w1(1) ack by (simp add: cc_handle_one_def bnd_def incr_def w3_def)
  then have "worker_step R s g c (handlers c) n blk mi stop (ls ! i) w =
      (Inr ((ls ! i)\<lparr>w_batch := ms, w_total := w_total (ls ! i) + 1\<rparr>), w3)"
    by (simp add: worker_step_def b bnd_def)
  moreover have "ks_entries (kv w2) s = ks_entries (kv w) s" using w2(1) gr(1) by (simp add: ks_ack_def)
  ultimately show ?thesis using w2 w1(3,4) by (auto simp: w3_def books_def)
qed

lemma idle_worker_step:
  fixes w :: "('a, 'x) world_scheme"
  assumes sh: "shares s g mi n (kv w) ls H" and i: "i < length ls" and b: "w_batch (ls ! i) = []" and n: "1 \<le> n" and mi: "0 < mi"
  shows "\<exists>l w'. worker_step R s g c h n blk mi stop (ls ! i) w = (Inr l, w') \<and> shares s g mi n (kv w') (ls[i := l]) H \<and>
    ks_entries (kv w') s = ks_entries (kv w) s \<and> app w' = app w \<and> elsewhere s (kv w) (kv w') \<and>
    advance (nat n) stop (outline (ls ! i)) (waiting_in s g (kv w)) = (outline l, waiting_in s g (kv w'))"
proof -
  obtain gr where gr: "ks_group (kv w) s g = Some gr" "\<forall>x \<in> set (g_pel gr). ks_time (kv w) - pe_since x < mi"
    using sh by (auto elim!: sharesE)
  show ?thesis
  proof (cases "w_phase (ls ! i)")
    case Joining
    obtain b1 w1 where mk: "cc_ensure_group R s g w = (Inr b1, w1)"
      unfolding cc_broker_idioms by (rule group_create_up)
    have w1: "kv w1 = kv w" "app w1 = app w"
      using group_create_effect [OF mk [unfolded cc_broker_idioms]] gr(1) by auto
    define w2 where "w2 = w1\<lparr>reg := increment ''competing_consumers'' ''consumer_joins'' 1 (wall w1) (reg w1)\<rparr>"
    have "worker_step R s g c h n blk mi stop (ls ! i) w = (Inr ((ls ! i)\<lparr>w_phase := At_Top\<rparr>), w2)"
      using mk by (simp add: worker_step_def b Joining bnd_def incr_def w2_def)
    moreover have "shares s g mi n (kv w2) (ls[i := (ls ! i)\<lparr>w_phase := At_Top\<rparr>]) H"
      using shares_phase [OF sh i] w1(1) by (simp add: w2_def)
    ultimately show ?thesis using w1 by (auto simp: outline_def b Joining w2_def)
  next
    case At_Top
    show ?thesis
    proof (cases stop)
      case True
      then have "worker_step R s g c h n blk mi stop (ls ! i) w = (Inr (ls ! i), w)" by (simp add: worker_step_def b At_Top)
      then show ?thesis using sh True by (auto simp: outline_def b At_Top)
    next
      case False
      obtain es w1 where cl: "cc_reclaim_stale R s g c mi n w = (Inr es, w1)"
        unfolding cc_broker_idioms using gr(1) n by (metis group_claim_up option.distinct(1))
      have "es = []" "kv w1 = kv w" "app w1 = app w"
        using group_claim_effect [OF cl [unfolded cc_broker_idioms] n] gr nothing_stale [OF gr(2), of "nat n"]
        by (auto simp: touch_nothing put_same_group)
      moreover from this have "worker_step R s g c h n blk mi stop (ls ! i) w = (Inr ((ls ! i)\<lparr>w_phase := Reading, w_batch := []\<rparr>), w1)"
        using cl False by (simp add: worker_step_def b At_Top bnd_def)
      moreover have "shares s g mi n (kv w) (ls[i := (ls ! i)\<lparr>w_phase := Reading, w_batch := []\<rparr>]) H"
        by (rule shares_phase [OF sh i]) (simp add: b)
      ultimately show ?thesis using False by (auto simp: outline_def b At_Top)
    qed
  next
    case Reading
    obtain es w1 where rd: "cc_read_new R s g c n blk w = (Inr es, w1)"
      unfolding cc_broker_idioms using gr(1) n by (metis group_read_up insertI1 option.distinct(1))
    have w1: "es = take (nat n) (g_new gr)" "kv w1 = ks_put_group s g (deliver c (ks_time (kv w)) (nat n) gr) (kv w)"
      "app w1 = app w"
      using group_read_new_effect [OF rd [unfolded cc_broker_idioms] n] gr(1) by auto
    define l where "l = (ls ! i)\<lparr>w_phase := At_Top, w_batch := es\<rparr>"
    have "worker_step R s g c h n blk mi stop (ls ! i) w = (Inr l, w1)"
      using rd by (simp add: worker_step_def b Reading bnd_def l_def)
    moreover have "shares s g mi n (kv w1) (ls[i := l]) H" unfolding w1(2)
      by (rule shares_deliver [OF sh i b n mi gr(1)]) (simp add: l_def w1(1))
    moreover have "waiting_in s g (kv w1) = length (g_new gr) - nat n" "waiting_in s g (kv w) = length (g_new gr)"
      using w1(2) gr(1) by (simp_all add: waiting_in_def deliver_def)
    ultimately show ?thesis using w1 by (auto simp: outline_def b Reading l_def min.commute)
  qed
qed

end

subsection \<open>A run\<close>

definition plan :: "string \<Rightarrow> string \<Rightarrow> keyspace \<Rightarrow> nat \<Rightarrow> cc_worker list \<Rightarrow> bool \<Rightarrow> sched" where
  "plan s g k todo ls stop = \<lparr>a_workers = map outline ls, a_backlog = waiting_in s g k, a_left = todo, a_stop = stop\<rparr>"

definition publishes :: "('r \<Rightarrow> keyspace) \<Rightarrow> ('x \<Rightarrow> task multiset \<Rightarrow> task multiset \<Rightarrow> bool) \<Rightarrow> ('x \<Rightarrow> nat) \<Rightarrow> string \<Rightarrow>
    (('r, 'x) world_scheme, unit) io \<Rightarrow> bool" where
  "publishes view I left s publish \<longleftrightarrow> (\<forall>w. if left (app w) = 0 then publish w = (Inr (), w)
     else \<exists>w' i f t. publish w = (Inr (), w') \<and> view (srv w') = ks_xadd s i f (view (srv w)) \<and>
       i \<notin> fst ` set (ks_entries (view (srv w)) s) \<and> task_from_fields f = Inr t \<and> left (app w') = left (app w) - 1 \<and>
       (\<forall>P H. I (app w) P H \<longrightarrow> I (app w') (add_mset t P) H))"

definition looks :: "('r \<Rightarrow> keyspace) \<Rightarrow> ('x \<Rightarrow> task multiset \<Rightarrow> task multiset \<Rightarrow> bool) \<Rightarrow> ('x \<Rightarrow> nat) \<Rightarrow> string \<Rightarrow> string \<Rightarrow>
    int \<Rightarrow> int \<Rightarrow> (('r, 'x) world_scheme, bool) io \<Rightarrow> bool" where
  "looks view I left s g mi n look \<longleftrightarrow> (\<forall>w ls H. shares s g mi n (view (srv w)) ls H \<and> books I s (view (srv w)) (app w) H \<longrightarrow>
     (\<exists>w'. look w = (Inr (drained (plan s g (view (srv w)) (left (app w)) ls False)), w') \<and>
       view (srv w') = view (srv w) \<and> app w' = app w))"

lemma shares_xadd:
  assumes "shares s g mi n k ls H" and "i \<notin> fst ` set (ks_entries k s)" and "task_from_fields f = Inr t"
  shows "shares s g mi n (ks_xadd s i f k) ls H" and "waiting_in s g (ks_xadd s i f k) = waiting_in s g k + 1"
proof -
  obtain gr where gr: "ks_group k s g = Some gr" "distinct (map fst (ks_entries k s))"
    "\<forall>e \<in> set (ks_entries k s). task_from_fields (snd e) = Inr (task_of e)"
    "mset (ks_entries k s) = H + mset (concat (map w_batch ls)) + mset (g_new gr)"
    "mset (pel_entries gr) = mset (concat (map w_batch ls))" "\<forall>x \<in> set (g_pel gr). ks_time k - pe_since x < mi"
    "\<forall>l \<in> set ls. int (length (w_batch l)) \<le> n" using assms(1) by (rule sharesE)
  then show "waiting_in s g (ks_xadd s i f k) = waiting_in s g k + 1" by (simp add: waiting_in_def)
  have "ks_time (ks_xadd s i f k) = ks_time k" by (simp add: ks_xadd_def)
  then show "shares s g mi n (ks_xadd s i f k) ls H" unfolding shares_def
    using gr assms(2,3) by (intro exI [of _ "gr\<lparr>g_new := g_new gr @ [(i, f)]\<rparr>"]) (auto simp: task_of_def pel_entries_def)
qed

context redis_available
begin

lemma turn_follows:
  fixes w :: "('a, 'x) world_scheme"
  assumes sv: "serves I left (set ids) handlers" and len: "length ids = length ls" and n: "1 \<le> n" and mi: "0 < mi"
    and sh: "shares s g mi n (kv w) ls H" and bk: "books I s (kv w) (app w) H"
  shows "\<exists>ls' w' H'. worker_turn R s g ids handlers n blk mi stop i ls w = (Inr ls', w') \<and> length ls' = length ls \<and>
    shares s g mi n (kv w') ls' H' \<and> books I s (kv w') (app w') H' \<and> ks_entries (kv w') s = ks_entries (kv w) s \<and>
    elsewhere s (kv w) (kv w') \<and> plan s g (kv w') (left (app w')) ls' stop = sched_step (nat n) (Work i) (plan s g (kv w) (left (app w)) ls stop)"
proof (cases "i < length ls")
  case False
  then show ?thesis using sh bk by (auto simp: worker_turn_def plan_def)
next
  case True
  then have c: "ids ! i \<in> set ids" by (simp add: len)
  show ?thesis
  proof (cases "w_batch (ls ! i)")
    case Nil
    obtain l w' where w': "worker_step R s g (ids ! i) (handlers (ids ! i)) n blk mi stop (ls ! i) w = (Inr l, w')"
      "shares s g mi n (kv w') (ls[i := l]) H" "ks_entries (kv w') s = ks_entries (kv w) s" "app w' = app w" "elsewhere s (kv w) (kv w')"
      "advance (nat n) stop (outline (ls ! i)) (waiting_in s g (kv w)) = (outline l, waiting_in s g (kv w'))"
      using idle_worker_step [OF sh True Nil n mi] by blast
    then have "worker_turn R s g ids handlers n blk mi stop i ls w = (Inr (ls[i := l]), w')"
      using True len by (simp add: worker_turn_def bnd_def)
    moreover have "plan s g (kv w') (left (app w')) (ls[i := l]) stop =
        sched_step (nat n) (Work i) (plan s g (kv w) (left (app w)) ls stop)"
      using w'(4,6) True by (simp add: plan_def map_update)
    ultimately show ?thesis using w'(2-5) bk by (auto simp: books_def)
  next
    case (Cons m ms)
    define l where "l = (ls ! i)\<lparr>w_batch := ms, w_total := w_total (ls ! i) + 1\<rparr>"
    obtain w' where w': "worker_step R s g (ids ! i) (handlers (ids ! i)) n blk mi stop (ls ! i) w = (Inr l, w')"
      "kv w' = ks_ack s g (fst m) (kv w)" "books I s (kv w') (app w') (add_mset m H)" "left (app w') = left (app w)"
      using handle_step [OF sv c sh bk True Cons, of blk stop] unfolding l_def by blast
    have sh': "shares s g mi n (kv w') (ls[i := l]) (add_mset m H)"
      unfolding w'(2) by (rule shares_ack [OF sh True Cons]) (simp add: l_def)
    have same: "ks_entries (kv w') s = ks_entries (kv w) s" "waiting_in s g (kv w') = waiting_in s g (kv w)"
      using w'(2) sh by (auto simp: ks_ack_def waiting_in_def unpend_def elim!: sharesE)
    have "worker_turn R s g ids handlers n blk mi stop i ls w = (Inr (ls[i := l]), w')"
      using w'(1) True len by (simp add: worker_turn_def bnd_def)
    moreover have "plan s g (kv w') (left (app w')) (ls[i := l]) stop =
        sched_step (nat n) (Work i) (plan s g (kv w) (left (app w)) ls stop)"
      using w'(4) same(2) True Cons by (simp add: plan_def map_update outline_def l_def)
    moreover have "elsewhere s (kv w) (kv w')" by (simp add: w'(2))
    ultimately show ?thesis using sh' w'(3) same(1) by auto
  qed
qed

lemma shared_run_follows:
  fixes w :: "('a, 'x) world_scheme"
  assumes sv: "serves I left (set ids) handlers" and pub: "publishes view I left s publish"
    and look: "looks view I left s g mi n look" and n: "1 \<le> n" and mi: "0 < mi"
  shows "length ids = length ls \<Longrightarrow> shares s g mi n (kv w) ls H \<Longrightarrow> books I s (kv w) (app w) H \<Longrightarrow>
    \<exists>ls' stop' w' H'. shared_run (worker_turn R s g ids handlers n blk mi) publish look moves ls stop w = (Inr (ls', stop'), w') \<and>
      elsewhere s (kv w) (kv w') \<and> shares s g mi n (kv w') ls' H' \<and> books I s (kv w') (app w') H' \<and>
      plan s g (kv w') (left (app w')) ls' stop' = sched_run (nat n) moves (plan s g (kv w) (left (app w)) ls stop)"
proof (induction moves arbitrary: w ls stop H)
  case Nil
  then show ?case by auto
next
  case (Cons m moves)
  note len = Cons.prems(1) and sh = Cons.prems(2) and bk = Cons.prems(3)
  show ?case
  proof (cases m)
    case Publish
    show ?thesis
    proof (cases "left (app w) = 0")
      case True
      then have "publish w = (Inr (), w)" using pub by (auto simp: publishes_def)
      then show ?thesis using Cons.IH [OF Cons.prems, of stop] Publish True by (simp add: bnd_def plan_def)
    next
      case False
      then obtain w1 i f t where w1: "publish w = (Inr (), w1)" "kv w1 = ks_xadd s i f (kv w)"
        "i \<notin> fst ` set (ks_entries (kv w) s)" "task_from_fields f = Inr t" "left (app w1) = left (app w) - 1"
        "\<forall>P H. I (app w) P H \<longrightarrow> I (app w1) (add_mset t P) H"
        using pub [unfolded publishes_def, THEN spec, of w, unfolded if_not_P [OF False]] by blast
      have sh1: "shares s g mi n (kv w1) ls H" unfolding w1(2) by (rule shares_xadd [OF sh w1(3,4)])
      have "books I s (kv w1) (app w1) H" using bk w1(2,4,6) by (simp add: books_def task_of_def)
      note IH = Cons.IH [OF len sh1 this, of stop]
      have other: "elsewhere s (kv w) (kv w1)" by (simp add: w1(2))
      show ?thesis by (rule exE [OF IH], elim exE conjE, drule elsewhere_chain [OF other])
        (use Publish False w1(1,2,5) shares_xadd(2) [OF sh w1(3,4)] in \<open>auto simp: bnd_def plan_def\<close>)
    qed
  next
    case (Work i)
    obtain ls1 w1 H1 where w1: "worker_turn R s g ids handlers n blk mi stop i ls w = (Inr ls1, w1)" "length ls1 = length ls"
      "shares s g mi n (kv w1) ls1 H1" "books I s (kv w1) (app w1) H1" "elsewhere s (kv w) (kv w1)"
      "plan s g (kv w1) (left (app w1)) ls1 stop = sched_step (nat n) (Work i) (plan s g (kv w) (left (app w)) ls stop)"
      using turn_follows [OF sv len n mi sh bk] by blast
    have "length ids = length ls1" using len w1(2) by simp
    note IH = Cons.IH [OF this w1(3,4), of stop]
    show ?thesis by (rule exE [OF IH], elim exE conjE, drule elsewhere_chain [OF w1(5)])
      (use Work w1(1,6) in \<open>auto simp: bnd_def simp del: sched_step.simps\<close>)
  next
    case Look
    show ?thesis
    proof (cases stop)
      case True
      then show ?thesis using Cons.IH [OF Cons.prems, of True] Look by (simp add: plan_def)
    next
      case False
      obtain w1 where w1: "look w = (Inr (drained (plan s g (kv w) (left (app w)) ls False)), w1)" "kv w1 = kv w" "app w1 = app w"
        using look sh bk unfolding looks_def by blast
      have "shares s g mi n (kv w1) ls H" "books I s (kv w1) (app w1) H" using sh bk w1 by simp_all
      from Cons.IH [OF len this, of "drained (plan s g (kv w) (left (app w)) ls False)"] show ?thesis
        using Look False w1 by (simp add: bnd_def plan_def drained_def)
    qed
  qed
qed

end

text \<open>What holds at the end: everything was handled, and nothing is pending.\<close>

lemma drained_shares:
  assumes "shares s g mi n k ls H" and "drained (plan s g k m ls stop)"
  shows "ks_group k s g = Some \<lparr>g_new = [], g_pel = []\<rparr>" and "mset (ks_entries k s) = H" and "m = 0"
proof -
  obtain gr where gr: "ks_group k s g = Some gr" "mset (ks_entries k s) = H + mset (concat (map w_batch ls)) + mset (g_new gr)"
    "mset (pel_entries gr) = mset (concat (map w_batch ls))" using assms(1) by (auto elim!: sharesE)
  have "\<forall>l \<in> set ls. w_batch l = []" "g_new gr = []" "m = 0"
    using assms(2) gr(1) by (auto simp: drained_def plan_def outline_def waiting_in_def)
  then have e: "concat (map w_batch ls) = []" "g_new gr = []" by simp_all
  show "m = 0" by fact
  show "ks_group k s g = Some \<lparr>g_new = [], g_pel = []\<rparr>" using gr(1,3) e by (simp add: pel_entries_def)
  show "mset (ks_entries k s) = H" using gr(2) e by simp
qed

context redis_available
begin

lemma cc_publish_up:
  fixes w :: "('a, 'x) world_scheme"
  assumes "f \<noteq> []"
  obtains i w' where "cc_publish R s f w = (Inr i, w')" and "kv w' = ks_xadd s i f (kv w)"
    and "i \<notin> fst ` set (ks_entries (kv w) s)" and "app w' = app w"
proof -
  obtain i r where x: "xadd R s f (srv w) = (Inr i, r)" using xadd_up [OF assms] by blast
  then show ?thesis using that xadd_law [OF x] by (auto simp: cc_publish_def bnd_def redis_call_def incr_def)
qed

lemma shared_run_outcome:
  fixes w :: "('a, 'x) world_scheme"
  assumes sv: "serves I left (set ids) handlers" and pub: "publishes view I left s publish"
    and look: "looks view I left s g mi n look" and n: "1 \<le> n" and mi: "0 < mi"
    and sh: "shares s g mi n (kv w) (map (\<lambda>_. new_worker) ids) {#}" and bk: "books I s (kv w) (app w) {#}"
  shows "\<exists>ls stop w' H. shared_run (worker_turn R s g ids handlers n blk mi) publish look moves (map (\<lambda>_. new_worker) ids) False w =
      (Inr (ls, stop), w') \<and> elsewhere s (kv w) (kv w') \<and> books I s (kv w') (app w') H \<and>
    (stop \<longrightarrow> ks_group (kv w') s g = Some \<lparr>g_new = [], g_pel = []\<rparr> \<and> mset (ks_entries (kv w') s) = H \<and> left (app w') = 0) \<and>
    (enough (length ids) (nat n) (left (app w)) (left (app w) + waiting_in s g (kv w)) moves \<longrightarrow> stop \<and> returned ls)"
proof -
  let ?ls = "map (\<lambda>_. new_worker) ids" and ?p = "plan s g (kv w) (left (app w)) (map (\<lambda>_. new_worker) ids) False"
  obtain ls stop w' H where w': "shared_run (worker_turn R s g ids handlers n blk mi) publish look moves ?ls False w = (Inr (ls, stop), w')"
    "shares s g mi n (kv w') ls H" "books I s (kv w') (app w') H"
    "plan s g (kv w') (left (app w')) ls stop = sched_run (nat n) moves ?p" "elsewhere s (kv w) (kv w')"
    using shared_run_follows [OF sv pub look n mi _ sh bk] by fastforce
  have ok: "sched_ok (nat n) ?p" by (auto simp: sched_ok_def plan_def outline_def new_worker_def)
  have "stop \<Longrightarrow> drained (plan s g (kv w') (left (app w')) ls stop)"
    using sched_ok_run [OF ok, of moves] unfolding w'(4) [symmetric] by (simp add: sched_ok_def plan_def)
  then have "stop \<Longrightarrow> ks_group (kv w') s g = Some \<lparr>g_new = [], g_pel = []\<rparr> \<and> mset (ks_entries (kv w') s) = H \<and> left (app w') = 0"
    using drained_shares [OF w'(2)] by blast
  moreover have "stop \<and> returned ls"
    if en: "enough (length ids) (nat n) (left (app w)) (left (app w) + waiting_in s g (kv w)) moves"
  proof -
    have load: "load ?p \<le> left (app w) + waiting_in s g (kv w)"
      by (simp add: load_def plan_def held_def comp_def outline_def new_worker_def sum_list_triv)
    have "enough (length (a_workers ?p)) (nat n) (a_left ?p) (left (app w) + waiting_in s g (kv w)) moves"
      using en by (simp add: plan_def)
    from enough_returns [OF ok _ load this] n
    have "a_stop (sched_run (nat n) moves ?p)" "set (a_workers (sched_run (nat n) moves ?p)) \<subseteq> {(At_Top, 0)}" by simp_all
    then show ?thesis unfolding w'(4) [symmetric] by (auto simp: plan_def returned_def outline_def)
  qed
  ultimately show ?thesis using w'(1,3,5) by blast
qed

end

end
