(* ===== verification/CC_Balance.thy ===== *)
theory CC_Balance
  imports CC_Demo CC_Together
begin

section \<open>Load balancing\<close>

text \<open>
  The first demonstration of \<^verbatim>\<open>scripts/run_competing_consumers_pattern.py\<close>, and its \<^verbatim>\<open>main\<close>: three consumers of
  one group share thirty tasks. The schedule is a parameter, and so is every print-out it can lead to; a
  schedule on which \<^verbatim>\<open>asyncio.gather\<close> has not returned gives \<open>None\<close>. The variables of a demonstration are
  local to it (\<open>with_locals\<close>).
\<close>

definition cc_demo_STREAM :: string where
  "cc_demo_STREAM = ''tasks:work''"

record balance_report =
  distribution :: "(string \<times> int \<times> string list) list"
  processed_count :: int
  unique_count :: int
  balanced_once :: bool

type_synonym handled_by = "(string, string list) dict"

definition handled_total :: "handled_by \<Rightarrow> int" where
  "handled_total d = sum_list (map (\<lambda>v. int (length v)) (map snd d))"

definition stop_when_drained :: "'r redis \<Rightarrow> (('r, handled_by) world_scheme, bool) io" where
  "stop_when_drained R =
     bnd (cc_pending_count R cc_demo_STREAM cc_demo_GROUP) (\<lambda>pending w.
       (Inr (\<not> (pending > 0 \<or> handled_total (world.more w) < int NUM_TASKS)), w))"

definition push_demo_tasks :: "'r redis \<Rightarrow> nat list \<Rightarrow> (('r, 'x) world_scheme, unit) io" where
  "push_demo_tasks R is = for_each (\<lambda>i _.
     bnd (cc_publish R cc_demo_STREAM (task_to_fields (demo_task i))) (\<lambda>_. ret ())) is ()"

definition demo_load_balancing :: "'r redis \<Rightarrow> move list \<Rightarrow> (('r, handled_by) world_scheme, balance_report option) io" where
  "demo_load_balancing R moves =
     (let ids = map worker_id [0..<NUM_CONSUMERS] in
      bnd (modify (world.more_update (\<lambda>_. map (\<lambda>c. (c, [])) ids))) (\<lambda>_.
      bnd (push_demo_tasks R [0..<NUM_TASKS]) (\<lambda>_.
      bnd (shared_run (worker_turn R cc_demo_STREAM cc_demo_GROUP ids make_handler 4 50 5000) (ret ())
        (stop_when_drained R) moves (map (\<lambda>_. new_worker) ids) False) (\<lambda>(ls, stop) w.
      if \<not> stop \<or> \<not> returned ls then (Inr None, w) else
      let handled_by = world.more w;
          total_ids = handled_total handled_by;
          unique_ids = int (length (remdups (concat (map snd handled_by)))) in
      (Inr (Some \<lparr>distribution = map (\<lambda>(consumer_id, ids). (consumer_id, int (length ids), sort ids)) handled_by,
         processed_count = total_ids, unique_count = unique_ids,
         balanced_once = (total_ids = unique_ids \<and> unique_ids = int NUM_TASKS)\<rparr>), w)))))"

definition with_locals :: "'x \<Rightarrow> (('r, 'x) world_scheme, 'a) io \<Rightarrow> (('r, 'y) world_scheme, 'a) io" where
  "with_locals x m w = (case m (world.extend (world.truncate w) x) of (res, w') \<Rightarrow>
     (res, world.extend (world.truncate w') (world.more w)))"

definition cc_demo_main :: "'r redis \<Rightarrow> move list \<Rightarrow> nat \<Rightarrow>
    (('r, 'y) world_scheme, (balance_report \<times> recovery_report) option) io" where
  "cc_demo_main R moves turns =
     bnd (delete_streams R [cc_demo_STREAM, ''tasks:crash'']) (\<lambda>_.
     bnd (cc_ensure_group R cc_demo_STREAM cc_demo_GROUP) (\<lambda>_.
     bnd (with_locals [] (demo_load_balancing R moves)) (\<lambda>balance. case balance of
       None \<Rightarrow> ret None
     | Some balance \<Rightarrow>
       bnd (with_locals [] (demo_crash_recovery R turns)) (\<lambda>recovery.
       bnd (delete_streams R [cc_demo_STREAM, ''tasks:crash'']) (\<lambda>_.
       ret (Some (balance, recovery)))))))"

subsection \<open>The handlers and the task that looks\<close>

definition balance_books :: "string list \<Rightarrow> handled_by \<Rightarrow> task multiset \<Rightarrow> task multiset \<Rightarrow> bool" where
  "balance_books cs d P H \<longleftrightarrow> P = mset (map demo_task [0..<NUM_TASKS]) \<and> (\<exists>f. d = map (\<lambda>c. (c, f c)) cs \<and>
     mset (concat (map f cs)) = image_mset task_id H)"

lemma concat_update:
  "distinct cs \<Longrightarrow> c \<in> set cs \<Longrightarrow> mset (concat (map (f(c := f c @ [x])) cs)) = add_mset x (mset (concat (map f cs)))"
proof (induction cs)
  case (Cons a cs)
  then show ?case
  proof (cases "a = c")
    case True
    then have "map (f(c := f c @ [x])) (a # cs) = (f c @ [x]) # map f cs" using Cons.prems(1) by auto
    then show ?thesis unfolding \<open>map (f(c := f c @ [x])) (a # cs) = _\<close> using True by simp
  next
    case False
    then show ?thesis using Cons by simp
  qed
qed simp

lemma make_handler_serves:
  assumes "distinct cs"
  shows "serves (balance_books cs) (\<lambda>_. 0) (set cs) (make_handler :: string \<Rightarrow> ('r, handled_by) cc_handler)"
  unfolding serves_def
proof (intro ballI allI impI)
  fix c t P H and w :: "('r, handled_by) world_scheme"
  assume c: "c \<in> set cs" and "balance_books cs (app w) P H \<and> t \<in># P - H"
  then obtain f where f: "P = mset (map demo_task [0..<NUM_TASKS])" "app w = map (\<lambda>c. (c, f c)) cs"
    "mset (concat (map f cs)) = image_mset task_id H" by (auto simp: balance_books_def)
  have "dict_item (app w) c = Inr (f c)"
    using c by (simp add: f(2) dict_item_def map_of_mapk_SomeI map_of_map_restrict)
  then have "make_handler c c t w = (Inr (), w\<lparr>world.more := map (\<lambda>c'. (c', (f(c := f c @ [task_id t])) c')) cs\<rparr>)"
    using update_map_keys [OF assms c, of "f c @ [task_id t]" f] by (simp add: make_handler_def bnd_def f(2))
  moreover have "balance_books cs (map (\<lambda>c'. (c', (f(c := f c @ [task_id t])) c')) cs) P (add_mset t H)"
    using f concat_update [OF assms c, of f "task_id t"] unfolding balance_books_def
    by (intro conjI exI [of _ "f(c := f c @ [task_id t])"]) (simp_all del: fun_upd_apply)
  ultimately show "\<exists>w'. make_handler c c t w = (Inr (), w') \<and> srv w' = srv w \<and>
      balance_books cs (app w') P (add_mset t H) \<and> (0 :: nat) = 0" by auto
qed

lemma handled_total_books:
  assumes "balance_books cs d P H"
  shows "handled_total d = int (size H)"
proof -
  obtain f where f: "d = map (\<lambda>c. (c, f c)) cs" "mset (concat (map f cs)) = image_mset task_id H"
    using assms by (auto simp: balance_books_def)
  have "handled_total d = int (length (concat (map f cs)))"
    unfolding f(1) handled_total_def by (induction cs) simp_all
  also have "\<dots> = int (size H)" using f(2) by (metis size_image_mset size_mset)
  finally show ?thesis .
qed

subsection \<open>The demonstration\<close>

context redis_available
begin

lemma stop_when_drained_looks:
  "looks view (balance_books cs) (\<lambda>_. 0) cc_demo_STREAM cc_demo_GROUP mi n (stop_when_drained R)"
  unfolding looks_def
proof (intro allI impI)
  fix w :: "('a, handled_by) world_scheme" and ls H
  assume w: "shares cc_demo_STREAM cc_demo_GROUP mi n (kv w) ls H \<and> books (balance_books cs) cc_demo_STREAM (kv w) (app w) H"
  then obtain gr where gr: "ks_group (kv w) cc_demo_STREAM cc_demo_GROUP = Some gr"
    "mset (ks_entries (kv w) cc_demo_STREAM) = H + mset (concat (map w_batch ls)) + mset (g_new gr)"
    "mset (pel_entries gr) = mset (concat (map w_batch ls))" by (auto elim!: sharesE)
  obtain m r where pc: "xpending R cc_demo_STREAM cc_demo_GROUP (srv w) = (Inr m, r)"
    using xpending_up gr(1) by blast
  have pel: "length (g_pel gr) = length (concat (map w_batch ls))"
    using arg_cong [OF gr(3), of size] by (simp add: pel_entries_def)
  have m: "m = int (length (concat (map w_batch ls)))" "view r = kv w" using xpending_law [OF pc] gr(1) pel by auto
  have P: "tasks_of (mset (ks_entries (kv w) cc_demo_STREAM)) = mset (map demo_task [0..<NUM_TASKS])"
    using w by (simp add: books_def balance_books_def)
  have sizes: "NUM_TASKS = size H + length (concat (map w_batch ls)) + length (g_new gr)"
    using arg_cong [OF P, of size] arg_cong [OF gr(2), of size] by simp
  have "handled_total (app w) = int (size H)" using w handled_total_books [of cs] by (force simp: books_def)
  then have "(\<not> (m > 0 \<or> handled_total (app w) < int NUM_TASKS)) =
      (length (concat (map w_batch ls)) = 0 \<and> length (g_new gr) = 0)"
    by (simp only: \<open>handled_total (app w) = int (size H)\<close> m(1) sizes) linarith
  also have "\<dots> = drained (plan cc_demo_STREAM cc_demo_GROUP (kv w) 0 ls False)"
    using gr(1) by (auto simp: drained_def plan_def outline_def waiting_in_def)
  finally show "\<exists>w'. stop_when_drained R w = (Inr (drained (plan cc_demo_STREAM cc_demo_GROUP (kv w) 0 ls False)), w') \<and>
      kv w' = kv w \<and> app w' = app w"
    using pc m(2) by (simp add: stop_when_drained_def cc_pending_count_def bnd_def redis_call_def)
qed

lemma push_demo_tasks_run:
  fixes w :: "('a, 'x) world_scheme"
  assumes "shares cc_demo_STREAM g mi n (kv w) ls H"
  shows "\<exists>w'. push_demo_tasks R is w = (Inr (), w') \<and> shares cc_demo_STREAM g mi n (kv w') ls H \<and> app w' = app w \<and>
    tasks_of (mset (ks_entries (kv w') cc_demo_STREAM)) =
      tasks_of (mset (ks_entries (kv w) cc_demo_STREAM)) + mset (map demo_task is) \<and>
    waiting_in cc_demo_STREAM g (kv w') = waiting_in cc_demo_STREAM g (kv w) + length is \<and> elsewhere cc_demo_STREAM (kv w) (kv w')"
  using assms
proof (induction "is" arbitrary: w)
  case Nil
  then show ?case by (simp add: push_demo_tasks_def)
next
  case (Cons i "is")
  obtain k w1 where w1: "cc_publish R cc_demo_STREAM (task_to_fields (demo_task i)) w = (Inr k, w1)"
    "kv w1 = ks_xadd cc_demo_STREAM k (task_to_fields (demo_task i)) (kv w)"
    "k \<notin> fst ` set (ks_entries (kv w) cc_demo_STREAM)" "app w1 = app w"
    by (rule cc_publish_up [of "task_to_fields (demo_task i)" cc_demo_STREAM w]) (simp add: task_to_fields_def)
  note x = shares_xadd [OF Cons.prems w1(3) demo_tasks_parse(1) [of i], folded w1(2)]
  have "task_of (k, task_to_fields (demo_task i)) = demo_task i" by (simp add: task_of_def demo_tasks_parse)
  then have "tasks_of (mset (ks_entries (kv w1) cc_demo_STREAM)) =
      tasks_of (mset (ks_entries (kv w) cc_demo_STREAM)) + {#demo_task i#}" using w1(2) by simp
  moreover obtain w2 where "push_demo_tasks R is w1 = (Inr (), w2)" "shares cc_demo_STREAM g mi n (kv w2) ls H" "app w2 = app w1"
    "tasks_of (mset (ks_entries (kv w2) cc_demo_STREAM)) =
      tasks_of (mset (ks_entries (kv w1) cc_demo_STREAM)) + mset (map demo_task is)"
    "waiting_in cc_demo_STREAM g (kv w2) = waiting_in cc_demo_STREAM g (kv w1) + length is" "elsewhere cc_demo_STREAM (kv w1) (kv w2)"
    using Cons.IH [OF x(1)] by blast
  moreover have "elsewhere cc_demo_STREAM (kv w) (kv w1)" by (simp add: w1(2))
  ultimately show ?case using w1(1,4) x(2) elsewhere_chain by (fastforce simp: push_demo_tasks_def bnd_def)
qed

lemma demo_load_balancing_run:
  fixes w :: "('a, handled_by) world_scheme"
  assumes g: "ks_group (kv w) cc_demo_STREAM cc_demo_GROUP = Some \<lparr>g_new = [], g_pel = []\<rparr>" "ks_entries (kv w) cc_demo_STREAM = []"
  shows "\<exists>res w'. demo_load_balancing R moves w = (Inr res, w') \<and>
    (\<forall>rep. res = Some rep \<longrightarrow> processed_count rep = 30 \<and> unique_count rep = 30 \<and> balanced_once rep \<and>
      map fst (distribution rep) = [''worker-0'', ''worker-1'', ''worker-2''] \<and>
      mset (concat (map (\<lambda>(_, _, ids). ids) (distribution rep))) = mset (map (\<lambda>i. task_id (demo_task i)) [0..<30])) \<and>
    (enough 3 4 0 30 moves \<longrightarrow> res \<noteq> None) \<and>
    (res \<noteq> None \<longrightarrow> ks_group (kv w') cc_demo_STREAM cc_demo_GROUP = Some \<lparr>g_new = [], g_pel = []\<rparr>) \<and>
    elsewhere cc_demo_STREAM (kv w) (kv w')"
proof -
  let ?s = cc_demo_STREAM and ?g = cc_demo_GROUP and ?ids = "map worker_id [0..<NUM_CONSUMERS]"
  let ?ls = "map (\<lambda>_. new_worker) ?ids" and ?I = "balance_books (map worker_id [0..<NUM_CONSUMERS])"
  define w0 where "w0 = w\<lparr>world.more := map (\<lambda>c. (c, [] :: string list)) ?ids\<rparr>"
  have start: "modify (world.more_update (\<lambda>_. map (\<lambda>c. (c, [])) ?ids)) w = (Inr (), w0)" by (simp add: w0_def)
  have "shares ?s ?g 5000 4 (kv w0) ?ls {#}"
    unfolding shares_def using g by (intro exI [of _ "\<lparr>g_new = [], g_pel = []\<rparr>"])
      (auto simp: w0_def new_worker_def pel_entries_def comp_def)
  then obtain w1 where w1: "push_demo_tasks R [0..<NUM_TASKS] w0 = (Inr (), w1)" "shares ?s ?g 5000 4 (kv w1) ?ls {#}"
    "app w1 = app w0" "tasks_of (mset (ks_entries (kv w1) ?s)) = mset (map demo_task [0..<NUM_TASKS])"
    "waiting_in ?s ?g (kv w1) = NUM_TASKS" "elsewhere ?s (kv w0) (kv w1)"
    using push_demo_tasks_run [of ?g 5000 4 w0 ?ls "{#}" "[0..<NUM_TASKS]"] g by (auto simp: w0_def waiting_in_def)
  have bk: "books ?I ?s (kv w1) (app w1) {#}" unfolding books_def balance_books_def w1(3,4)
    by (intro conjI exI [of _ "\<lambda>_. []"]) (simp_all add: w0_def comp_def)
  have "publishes view ?I (\<lambda>_. 0) ?s (ret () :: (('a, handled_by) world_scheme, unit) io)" by (simp add: publishes_def)
  from shared_run_outcome [OF make_handler_serves [OF worker_ids_distinct] this stop_when_drained_looks _ _ w1(2) bk, of 50 moves]
  obtain ls stop w2 H where w2: "shared_run (worker_turn R ?s ?g ?ids make_handler 4 50 5000) (ret ()) (stop_when_drained R)
      moves ?ls False w1 = (Inr (ls, stop), w2)" "books ?I ?s (kv w2) (app w2) H"
    "stop \<Longrightarrow> ks_group (kv w2) ?s ?g = Some \<lparr>g_new = [], g_pel = []\<rparr> \<and> mset (ks_entries (kv w2) ?s) = H"
    "enough 3 4 0 30 moves \<Longrightarrow> stop \<and> returned ls" "elsewhere ?s (kv w1) (kv w2)"
    using w1(5) by (auto simp: NUM_CONSUMERS_def NUM_TASKS_def)
  have run: "demo_load_balancing R moves w = (if \<not> stop \<or> \<not> returned ls then (Inr None, w2) else
      (Inr (Some \<lparr>distribution = map (\<lambda>(consumer_id, ids). (consumer_id, int (length ids), sort ids)) (app w2),
        processed_count = handled_total (app w2), unique_count = int (length (remdups (concat (map snd (app w2))))),
        balanced_once = (handled_total (app w2) = int (length (remdups (concat (map snd (app w2))))) \<and>
          int (length (remdups (concat (map snd (app w2))))) = int NUM_TASKS)\<rparr>), w2))"
    unfolding demo_load_balancing_def Let_def by (simp only: bnd_def start w1(1) w2(1) prod.case sum.case)
  have other: "elsewhere ?s (kv w) (kv w2)" using elsewhere_chain [OF w1(6) w2(5)] by (simp add: w0_def)
  show ?thesis
  proof (cases "stop \<and> returned ls")
    case False
    then show ?thesis using run w2(4) other by auto
  next
    case True
    then have fin: "ks_group (kv w2) ?s ?g = Some \<lparr>g_new = [], g_pel = []\<rparr>" "H = mset (ks_entries (kv w2) ?s)" using w2(3) by auto
    obtain f where f: "app w2 = map (\<lambda>c. (c, f c)) ?ids" "mset (concat (map f ?ids)) = image_mset task_id (tasks_of H)"
      "tasks_of H = mset (map demo_task [0..<NUM_TASKS])"
      using w2(2) unfolding books_def balance_books_def fin(2) by blast
    let ?tids = "map (\<lambda>i. task_id (demo_task i)) [0..<30]"
    have "mset ?tids = image_mset task_id (mset (map demo_task [0..<NUM_TASKS]))"
      by (simp add: NUM_TASKS_def multiset.map_comp comp_def)
    then have all: "mset (concat (map f ?ids)) = mset ?tids" by (simp only: f(2,3))
    have ids: "map snd (app w2) = map f ?ids" by (simp add: f(1) comp_def)
    have "distinct (concat (map f ?ids))" using all demo_tasks_distinct mset_eq_imp_distinct_iff by metis
    moreover have "length (concat (map f ?ids)) = 30" using mset_eq_length [OF all] by simp
    ultimately have unique: "int (length (remdups (concat (map snd (app w2))))) = 30"
      by (simp only: ids) (simp add: distinct_remdups_id)
    have handled: "handled_total (app w2) = 30"
      using handled_total_books [of ?ids "app w2"] w2(2) arg_cong [OF f(3), of size] by (auto simp: books_def NUM_TASKS_def)
    have sorted: "mset (concat (map (\<lambda>c. sort (f c)) cs)) = mset (concat (map f cs))" for cs by (induction cs) simp_all
    have "mset (concat (map (\<lambda>(_, _, ids). ids) (map (\<lambda>(consumer_id, ids). (consumer_id, int (length ids), sort ids)) (app w2)))) = mset ?tids"
      using sorted [of ?ids] all by (simp add: f(1) comp_def)
    moreover have "map worker_id [0..<3] = [''worker-0'', ''worker-1'', ''worker-2'']" by code_simp
    then have "map fst (map (\<lambda>(consumer_id, ids). (consumer_id, int (length ids), sort ids)) (app w2)) =
        [''worker-0'', ''worker-1'', ''worker-2'']" by (simp add: f(1) comp_def NUM_CONSUMERS_def)
    ultimately show ?thesis using run True fin(1) unique handled other by (simp add: NUM_TASKS_def)
  qed
qed

lemma srv_locals [simp]: "srv (world.extend (world.truncate w) x) = srv w" "app (world.extend (world.truncate w) x) = x"
  by (simp_all add: world.defs)

lemma cc_demo_main_run:
  fixes w :: "('a, 'y) world_scheme"
  defines "orphan \<equiv> \<lparr>task_id = ''orphan-1'', task_payload = ''needs-recovery''\<rparr>"
  shows "\<exists>res w'. cc_demo_main R moves (Suc n) w = (Inr res, w') \<and> (enough 3 4 0 30 moves \<longrightarrow> res \<noteq> None) \<and>
    (\<forall>rep recovery. res = Some (rep, recovery) \<longrightarrow>
      processed_count rep = 30 \<and> unique_count rep = 30 \<and> balanced_once rep \<and>
      map fst (distribution rep) = [''worker-0'', ''worker-1'', ''worker-2''] \<and>
      mset (concat (map (\<lambda>(_, _, ids). ids) (distribution rep))) = mset (map (\<lambda>i. task_id (demo_task i)) [0..<30]) \<and>
      (\<exists>i. recovery = \<lparr>in_flight = [(i, task_to_fields orphan)], pending_after_crash = 1,
        recovered = (''survivor-worker'', orphan), pending_after_recovery = 0\<rparr>))"
proof -
  let ?keys = "[cc_demo_STREAM, ''tasks:crash'']"
  obtain d w1 where w1: "delete_streams R ?keys w = (Inr d, w1)" by (rule delete_streams_up)
  obtain b w2 where w2: "cc_ensure_group R cc_demo_STREAM cc_demo_GROUP w1 = (Inr b, w2)"
    unfolding cc_broker_idioms by (rule group_create_up)
  have k1: "ks_entries (kv w1) s = []" "ks_group (kv w1) s g = None" if "s \<in> set ?keys" for s g
    using delete_streams_effect [OF w1] that by auto
  have w2': "ks_group (kv w2) cc_demo_STREAM cc_demo_GROUP = Some \<lparr>g_new = [], g_pel = []\<rparr>" "ks_entries (kv w2) cc_demo_STREAM = []"
    "ks_entries (kv w2) ''tasks:crash'' = []" "ks_group (kv w2) ''tasks:crash'' ''workers'' = None"
    using k1 group_create_effect [OF w2 [unfolded cc_broker_idioms]]
      elsewhere_other [OF elsewhere_intros(2), of "''tasks:crash''" cc_demo_STREAM]
    by (auto simp: new_group_def cc_demo_STREAM_def)
  define w2l where "w2l = world.extend (world.truncate w2) ([] :: handled_by)"
  have sub: "kv w2l = kv w2" by (simp add: w2l_def)
  obtain bal w3l where bal: "demo_load_balancing R moves w2l = (Inr bal, w3l)"
    "\<forall>rep. bal = Some rep \<longrightarrow> processed_count rep = 30 \<and> unique_count rep = 30 \<and> balanced_once rep \<and>
      map fst (distribution rep) = [''worker-0'', ''worker-1'', ''worker-2''] \<and>
      mset (concat (map (\<lambda>(_, _, ids). ids) (distribution rep))) = mset (map (\<lambda>i. task_id (demo_task i)) [0..<30])"
    "enough 3 4 0 30 moves \<longrightarrow> bal \<noteq> None" "elsewhere cc_demo_STREAM (kv w2l) (kv w3l)"
    using demo_load_balancing_run [of w2l moves] w2'(1,2) unfolding sub by blast
  define w3 where "w3 = world.extend (world.truncate w3l) (world.more w2)"
  have m3: "with_locals [] (demo_load_balancing R moves) w2 = (Inr bal, w3)"
    using bal(1) by (simp add: with_locals_def w2l_def w3_def)
  show ?thesis
  proof (cases bal)
    case None
    then have "cc_demo_main R moves (Suc n) w = (Inr None, w3)"
      using w1 w2 m3 by (simp add: cc_demo_main_def bnd_def)
    then show ?thesis using bal(3) None by auto
  next
    case (Some rep)
    define w3c where "w3c = world.extend (world.truncate w3) ([] :: (string \<times> task) list)"
    have "kv w3c = kv w3l" by (simp add: w3c_def w3_def)
    moreover have "''tasks:crash'' \<noteq> cc_demo_STREAM" by (simp add: cc_demo_STREAM_def)
    ultimately have "ks_entries (kv w3c) ''tasks:crash'' = []" "ks_group (kv w3c) ''tasks:crash'' ''workers'' = None"
      using elsewhere_other [OF bal(4), of "''tasks:crash''"] w2'(3,4) sub by simp_all
    from demo_crash_recovery_run [OF this, of n] obtain i w4c where crash: "demo_crash_recovery R (Suc n) w3c =
        (Inr \<lparr>in_flight = [(i, task_to_fields orphan)], pending_after_crash = 1,
          recovered = (''survivor-worker'', orphan), pending_after_recovery = 0\<rparr>, w4c)"
      unfolding orphan_def by blast
    define w4 where "w4 = world.extend (world.truncate w4c) (world.more w3)"
    have m4: "with_locals [] (demo_crash_recovery R (Suc n)) w3 =
        (Inr \<lparr>in_flight = [(i, task_to_fields orphan)], pending_after_crash = 1,
          recovered = (''survivor-worker'', orphan), pending_after_recovery = 0\<rparr>, w4)"
      using crash by (simp add: with_locals_def w3c_def w4_def)
    obtain d' w5 where w5: "delete_streams R ?keys w4 = (Inr d', w5)" by (rule delete_streams_up)
    have "cc_demo_main R moves (Suc n) w = (Inr (Some (rep, \<lparr>in_flight = [(i, task_to_fields orphan)],
        pending_after_crash = 1, recovered = (''survivor-worker'', orphan), pending_after_recovery = 0\<rparr>)), w5)"
      using w1 w2 m3 m4 w5 Some by (simp add: cc_demo_main_def bnd_def)
    then show ?thesis using bal(2) Some by auto
  qed
qed

end

end
