(* ===== verification/CC_Bench.thy ===== *)
theory CC_Bench
  imports CC_Together Demo_Base Bench
begin

section \<open>The competing-consumers benchmark\<close>

text \<open>
  \<^verbatim>\<open>scripts/bench_competing_consumers_pattern.py\<close>: one configuration (\<^verbatim>\<open>bench_consumer_count\<close>). The run is a
  schedule: the operations publish tasks, as many as the two windows count, the consumers go on, and
  \<open>Look\<close> is the moment at which \<^verbatim>\<open>run_bench\<close> finds all its operations over, so that the stop event is set. A
  schedule on which the run is not over gives \<open>None\<close>. How many operations are in flight at once only limits
  which schedules occur. The closures' variables are a record after the broker in the world.
\<close>

definition cc_bench_STREAM :: "string \<Rightarrow> string" where
  "cc_bench_STREAM run_id = ''bench:'' @ run_id @ '':tasks:work''"

definition cc_bench_GROUP :: "string \<Rightarrow> string" where
  "cc_bench_GROUP run_id = ''bench_workers_'' @ run_id"

definition WORK_SECONDS :: pyfloat where
  "WORK_SECONDS = round53 (5 / 1000)"

text \<open>\<open>cb_awaiting\<close> are the task ids with a future in the dictionary, \<open>cb_next\<close> the next value of \<^verbatim>\<open>task_ids\<close>.\<close>

record cc_bench =
  cb_awaiting :: "string list"
  cb_handled_by :: "(string, int) dict"
  cb_next :: nat

definition new_cc_bench :: cc_bench where
  "new_cc_bench = \<lparr>cb_awaiting = [], cb_handled_by = [], cb_next = 1\<rparr>"

definition count_and_resolve :: "string \<Rightarrow> task \<Rightarrow> (cc_bench, unit) io" where
  "count_and_resolve consumer_id task = modify (\<lambda>b. b\<lparr>
     cb_handled_by := AList.update consumer_id (dict_get (cb_handled_by b) consumer_id 0 + 1) (cb_handled_by b),
     cb_awaiting := removeAll (task_id task) (cb_awaiting b)\<rparr>)"

definition cc_bench_handler :: "('r, cc_bench) cc_handler" where
  "cc_bench_handler consumer_id task = on_app (count_and_resolve consumer_id task)"

definition bench_worker_id :: "string \<Rightarrow> nat \<Rightarrow> string" where
  "bench_worker_id run_id index = ''bench-worker-'' @ nat_digits index @ ''-'' @ run_id"

definition cc_bench_task :: "nat \<Rightarrow> task" where
  "cc_bench_task index = \<lparr>task_id = ''bench-task-'' @ zero_pad 6 index, task_payload = ''payload''\<rparr>"

definition publish_next_task :: "'r redis \<Rightarrow> string \<Rightarrow> (('r, cc_bench) world_scheme, unit) io" where
  "publish_next_task R run_id w =
     (let task = cc_bench_task (cb_next (world.more w)) in
      bnd (on_app (modify (\<lambda>b. b\<lparr>cb_next := cb_next b + 1, cb_awaiting := cb_awaiting b @ [task_id task]\<rparr>))) (\<lambda>_.
      bnd (cc_publish R (cc_bench_STREAM run_id) (task_to_fields task)) (\<lambda>_. ret ())) w)"

text \<open>The windows let only so many operations start; the run is over when they all have their results.\<close>

definition next_operation :: "'r redis \<Rightarrow> string \<Rightarrow> nat \<Rightarrow> (('r, cc_bench) world_scheme, unit) io" where
  "next_operation R run_id operations w =
     (if cb_next (world.more w) \<le> operations then publish_next_task R run_id w else (Inr (), w))"

definition operations_over :: "nat \<Rightarrow> (('r, cc_bench) world_scheme, bool) io" where
  "operations_over operations w = (Inr (operations < cb_next (world.more w) \<and> cb_awaiting (world.more w) = []), w)"

record cc_bench_extra =
  bench_in_flight :: int
  handler_work_s :: pyfloat
  handled_per_consumer :: "(string, int) dict"
  stream_length :: int
  pending_at_end :: int

definition bench_consumer_count :: "'r redis \<Rightarrow> float_text \<Rightarrow> string \<Rightarrow> int \<Rightarrow> int \<Rightarrow> int \<Rightarrow> int \<Rightarrow> move list \<Rightarrow>
    (('r, cc_bench) world_scheme, cc_bench_extra option) io" where
  "bench_consumer_count R fl run_id consumers concurrency warmup measured moves =
     (let stream = cc_bench_STREAM run_id; grp = cc_bench_GROUP run_id;
          ids = map (bench_worker_id run_id) [0..<nat consumers]; operations = nat (warmup + measured) in
      bnd (delete_streams R [stream]) (\<lambda>_.
      bnd (cc_ensure_group R stream grp) (\<lambda>_.
      bnd (on_app (modify (\<lambda>_. new_cc_bench))) (\<lambda>_.
      bnd (liftr (of_ops fl warmup)) (\<lambda>_.
      bnd (liftr (of_ops fl measured)) (\<lambda>_.
      bnd (shared_run (worker_turn R stream grp ids (\<lambda>_. cc_bench_handler) 10 20 5000)
        (next_operation R run_id operations) (operations_over operations) moves (map (\<lambda>_. new_worker) ids) False) (\<lambda>(ls, stop).
      if \<not> stop \<or> \<not> returned ls then ret None else
      bnd (\<lambda>w. (Inr (cb_handled_by (world.more w)), w)) (\<lambda>handled_by.
      bnd (redis_call (xlen R stream)) (\<lambda>len.
      bnd (cc_pending_count R stream grp) (\<lambda>pending.
      bnd (delete_streams R [stream]) (\<lambda>_.
      ret (Some \<lparr>bench_in_flight = concurrency, handler_work_s = WORK_SECONDS,
        handled_per_consumer = sort_key fst handled_by, stream_length = len, pending_at_end = pending\<rparr>))))))))))))"

subsection \<open>The operations and the handler\<close>

definition bench_ledger :: "nat \<Rightarrow> cc_bench \<Rightarrow> task multiset \<Rightarrow> task multiset \<Rightarrow> bool" where
  "bench_ledger operations b P H \<longleftrightarrow> 1 \<le> cb_next b \<and> P = mset (map cc_bench_task [1..<cb_next b]) \<and> H \<subseteq># P \<and>
     image_mset task_id P = image_mset task_id H + mset (cb_awaiting b) \<and>
     cb_next b \<le> operations + 1 \<and> sum_list (map snd (cb_handled_by b)) = int (size H)"

definition to_publish :: "nat \<Rightarrow> cc_bench \<Rightarrow> nat" where
  "to_publish operations b = operations + 1 - cb_next b"

lemma cc_bench_task_parses: "task_from_fields (task_to_fields (cc_bench_task i)) = Inr (cc_bench_task i)"
  by (simp add: task_roundtrip valid_utf8_ascii cc_bench_task_def)

lemma cc_bench_ids_distinct: "distinct (map task_id (map cc_bench_task xs)) \<longleftrightarrow> distinct xs"
  by (auto simp: distinct_map cc_bench_task_def zero_pad_inj inj_on_def)

lemma sum_update_count: "sum_list (map snd (AList.update k (dict_get d k 0 + 1) d)) = sum_list (map snd d) + (1 :: int)"
  by (induction d) (auto simp: dict_get_def)

lemma cc_bench_handler_serves:
  "serves (bench_ledger operations) (to_publish operations) ids (\<lambda>_. cc_bench_handler :: ('r, cc_bench) cc_handler)"
  unfolding serves_def
proof (intro ballI allI impI)
  fix c t P H and w :: "('r, cc_bench) world_scheme"
  assume "bench_ledger operations (app w) P H \<and> t \<in># P - H"
  then have b: "bench_ledger operations (app w) P H" and t: "t \<in># P - H" by simp_all
  define b' where "b' = snd (count_and_resolve c t (app w))"
  have HP: "H \<subseteq># P" "P = mset (map cc_bench_task [1..<cb_next (app w)])"
    "image_mset task_id P = image_mset task_id H + mset (cb_awaiting (app w))" using b unfolding bench_ledger_def by blast+
  have H': "add_mset t H \<subseteq># P" using t HP(1) by (metis insert_subset_eq_iff mset_subset_eq_single subset_mset.le_diff_conv2 union_mset_add_mset_left add_mset_add_single add.commute)
  have wait: "mset (cb_awaiting (app w)) = image_mset task_id (P - H)"
    using HP(1,3) by (simp add: image_mset_Diff)
  have "distinct (map task_id (map cc_bench_task [1..<cb_next (app w)]))" unfolding cc_bench_ids_distinct by simp
  moreover have "mset (cb_awaiting (app w)) \<subseteq># mset (map task_id (map cc_bench_task [1..<cb_next (app w)]))"
    using HP(2,3) by (metis mset_map mset_subset_eq_add_right)
  ultimately have "distinct (cb_awaiting (app w))" by (metis distinct_submset)
  then have "mset (removeAll (task_id t) (cb_awaiting (app w))) = mset (cb_awaiting (app w)) - {#task_id t#}"
    by (metis distinct_remove1_removeAll mset_remove1)
  moreover have "task_id t \<in># mset (cb_awaiting (app w))" unfolding wait using t by auto
  ultimately have "bench_ledger operations b' P (add_mset t H)"
    using b H' HP(3) sum_update_count [of c "cb_handled_by (app w)"]
    by (simp add: bench_ledger_def b'_def count_and_resolve_def)
  moreover have "cc_bench_handler c t w = (Inr (), w\<lparr>world.more := b'\<rparr>)"
    by (simp add: cc_bench_handler_def on_app_def count_and_resolve_def b'_def)
  moreover have "to_publish operations b' = to_publish operations (app w)" by (simp add: to_publish_def b'_def count_and_resolve_def)
  ultimately show "\<exists>w'. cc_bench_handler c t w = (Inr (), w') \<and> srv w' = srv w \<and>
      bench_ledger operations (app w') P (add_mset t H) \<and> to_publish operations (app w') = to_publish operations (app w)"
    by auto
qed

lemma operations_over_looks:
  "looks view (bench_ledger operations) (to_publish operations) s g mi n (operations_over operations)"
  unfolding looks_def
proof (intro allI impI)
  fix w :: "('a, cc_bench) world_scheme" and ls H
  assume w: "shares s g mi n (view (srv w)) ls H \<and> books (bench_ledger operations) s (view (srv w)) (app w) H"
  then obtain gr where gr: "ks_group (view (srv w)) s g = Some gr"
    "mset (ks_entries (view (srv w)) s) = H + mset (concat (map w_batch ls)) + mset (g_new gr)" by (auto elim!: sharesE)
  have "image_mset task_id (tasks_of (mset (ks_entries (view (srv w)) s))) = image_mset task_id (tasks_of H) + mset (cb_awaiting (app w))"
    using w unfolding books_def bench_ledger_def by blast
  from arg_cong [OF this, of size] have "length (cb_awaiting (app w)) = length (concat (map w_batch ls)) + length (g_new gr)"
    using arg_cong [OF gr(2), of size] by simp
  then have "cb_awaiting (app w) = [] \<longleftrightarrow> concat (map w_batch ls) = [] \<and> g_new gr = []"
    by (metis add_is_0 length_0_conv)
  then have "(operations < cb_next (app w) \<and> cb_awaiting (app w) = []) =
      drained (plan s g (view (srv w)) (to_publish operations (app w)) ls False)"
    using gr(1) by (auto simp: drained_def plan_def outline_def waiting_in_def to_publish_def)
  then show "\<exists>w'. operations_over operations w =
      (Inr (drained (plan s g (view (srv w)) (to_publish operations (app w)) ls False)), w') \<and>
      view (srv w') = view (srv w) \<and> app w' = app w" by (simp add: operations_over_def)
qed

context redis_available
begin

lemma next_operation_publishes:
  "publishes view (bench_ledger operations) (to_publish operations) (cc_bench_STREAM run_id) (next_operation R run_id operations)"
  unfolding publishes_def
proof
  fix w :: "('a, cc_bench) world_scheme"
  let ?t = "cc_bench_task (cb_next (app w))" and ?s = "cc_bench_STREAM run_id"
  show "if to_publish operations (app w) = 0 then next_operation R run_id operations w = (Inr (), w)
    else \<exists>w' i f t. next_operation R run_id operations w = (Inr (), w') \<and> kv w' = ks_xadd ?s i f (kv w) \<and>
      i \<notin> fst ` set (ks_entries (kv w) ?s) \<and> task_from_fields f = Inr t \<and> to_publish operations (app w') = to_publish operations (app w) - 1 \<and>
      (\<forall>P H. bench_ledger operations (app w) P H \<longrightarrow> bench_ledger operations (app w') (add_mset t P) H)"
  proof (cases "cb_next (app w) \<le> operations")
    case False
    then show ?thesis by (simp add: to_publish_def next_operation_def)
  next
    case True
    define w1 where "w1 = w\<lparr>world.more := (app w)\<lparr>cb_next := cb_next (app w) + 1, cb_awaiting := cb_awaiting (app w) @ [task_id ?t]\<rparr>\<rparr>"
    obtain i w2 where w2: "cc_publish R ?s (task_to_fields ?t) w1 = (Inr i, w2)" "kv w2 = ks_xadd ?s i (task_to_fields ?t) (kv w1)"
      "i \<notin> fst ` set (ks_entries (kv w1) ?s)" "app w2 = app w1"
      by (rule cc_publish_up [of "task_to_fields ?t" ?s w1]) (simp add: task_to_fields_def)
    have "next_operation R run_id operations w = (Inr (), w2)"
      using True w2(1) by (simp add: next_operation_def publish_next_task_def bnd_def on_app_def w1_def Let_def)
    moreover have "bench_ledger operations (app w2) (add_mset ?t P) H" if "bench_ledger operations (app w) P H" for P H
      using that True by (auto simp: bench_ledger_def w2(4) w1_def intro: subset_mset.order_trans)
    moreover have "kv w1 = kv w" by (simp add: w1_def)
    moreover have "to_publish operations (app w2) = to_publish operations (app w) - 1"
      using w2(4) by (simp add: to_publish_def w1_def)
    moreover have "to_publish operations (app w) \<noteq> 0" using True by (simp add: to_publish_def)
    ultimately show ?thesis using w2(2,3) cc_bench_task_parses [of "cb_next (app w)"] by (simp only: if_False) metis
  qed
qed

lemma bench_consumer_count_run:
  fixes w :: "('a, cc_bench) world_scheme"
  assumes n: "1 \<le> warmup" "1 \<le> measured"
  shows "\<exists>res w'. bench_consumer_count R fl run_id consumers concurrency warmup measured moves w = (Inr res, w') \<and>
    (\<forall>rep. res = Some rep \<longrightarrow> sum_list (map snd (handled_per_consumer rep)) = warmup + measured \<and>
      stream_length rep = warmup + measured \<and> pending_at_end rep = 0) \<and>
    (enough (nat consumers) 10 (nat (warmup + measured)) (nat (warmup + measured)) moves \<longrightarrow> res \<noteq> None)"
proof -
  let ?s = "cc_bench_STREAM run_id" and ?g = "cc_bench_GROUP run_id" and ?ids = "map (bench_worker_id run_id) [0..<nat consumers]"
  let ?ops = "nat (warmup + measured)"
  obtain d w1 where w1: "delete_streams R [?s] w = (Inr d, w1)" by (rule delete_streams_up)
  obtain b w2 where w2: "cc_ensure_group R ?s ?g w1 = (Inr b, w2)"
    unfolding cc_broker_idioms by (rule group_create_up)
  have k1: "ks_entries (kv w1) ?s = []" "ks_group (kv w1) ?s g = None" for g
    using delete_streams_effect [OF w1] by auto
  define w3 where "w3 = w2\<lparr>world.more := new_cc_bench\<rparr>"
  have w3: "ks_group (kv w3) ?s ?g = Some \<lparr>g_new = [], g_pel = []\<rparr>" "ks_entries (kv w3) ?s = []"
    using k1 group_create_effect [OF w2 [unfolded cc_broker_idioms]] by (auto simp: new_group_def w3_def)
  have reset: "on_app (modify (\<lambda>_. new_cc_bench)) w2 = (Inr (), w3)" by (simp add: on_app_def w3_def)
  obtain x y where wins: "of_ops fl warmup = Inr x" "of_ops fl measured = Inr y"
    using n by (simp add: of_ops_def new_window_def)
  have sh: "shares ?s ?g 5000 10 (kv w3) (map (\<lambda>_. new_worker) ?ids) {#}" unfolding shares_def
    using w3 by (intro exI [of _ "\<lparr>g_new = [], g_pel = []\<rparr>"]) (auto simp: new_worker_def pel_entries_def comp_def)
  have bk: "books (bench_ledger ?ops) ?s (kv w3) (app w3) {#}"
    using w3(2) by (simp add: books_def bench_ledger_def w3_def new_cc_bench_def)
  have st: "to_publish ?ops (app w3) = ?ops" "waiting_in ?s ?g (kv w3) = 0"
    using w3(1) by (simp_all add: to_publish_def w3_def new_cc_bench_def waiting_in_def)
  obtain ls stop w4 H where w4: "shared_run (worker_turn R ?s ?g ?ids (\<lambda>_. cc_bench_handler) 10 20 5000)
      (next_operation R run_id ?ops) (operations_over ?ops) moves (map (\<lambda>_. new_worker) ?ids) False w3 = (Inr (ls, stop), w4)"
    "books (bench_ledger ?ops) ?s (kv w4) (app w4) H"
    "stop \<longrightarrow> ks_group (kv w4) ?s ?g = Some \<lparr>g_new = [], g_pel = []\<rparr> \<and> mset (ks_entries (kv w4) ?s) = H \<and>
      to_publish ?ops (app w4) = 0"
    "enough (nat consumers) 10 ?ops ?ops moves \<longrightarrow> stop \<and> returned ls"
    using shared_run_outcome [OF cc_bench_handler_serves next_operation_publishes operations_over_looks _ _ sh bk, of 20 moves] st
    by auto
  show ?thesis
  proof (cases "stop \<and> returned ls")
    case False
    then have "bench_consumer_count R fl run_id consumers concurrency warmup measured moves w = (Inr None, w4)"
      unfolding bench_consumer_count_def Let_def
      by (simp add: bnd_def w1 w2 reset wins w4(1) del: map_map)
    then show ?thesis using w4(4) False by auto
  next
    case True
    then have fin: "ks_group (kv w4) ?s ?g = Some \<lparr>g_new = [], g_pel = []\<rparr>" "mset (ks_entries (kv w4) ?s) = H"
      "to_publish ?ops (app w4) = 0" using w4(3) by auto
    have b: "bench_ledger ?ops (app w4) (tasks_of H) (tasks_of H)" using w4(2) by (simp add: books_def fin(2))
    have H: "tasks_of H = mset (map cc_bench_task [1..<cb_next (app w4)])" using b unfolding bench_ledger_def by blast
    have "cb_next (app w4) = ?ops + 1" using b fin(3) unfolding bench_ledger_def to_publish_def by simp
    with arg_cong [OF H, of size] have size: "size H = ?ops" by simp
    obtain m r5 where xl: "xlen R ?s (srv w4) = (Inr m, r5)" using xlen_up by blast
    have m: "m = warmup + measured" "view r5 = kv w4"
      using xlen_law [OF xl] arg_cong [OF fin(2), of size] size n by auto
    obtain p r6 where pc: "xpending R ?s ?g r5 = (Inr p, r6)" using xpending_up [of r5 ?s ?g] m(2) fin(1) by auto
    have p: "p = 0" using xpending_law [OF pc] m(2) fin(1) by auto
    obtain d' w7 where w7: "delete_streams R [?s] (w4\<lparr>srv := r6\<rparr>) = (Inr d', w7)" by (rule delete_streams_up)
    have run: "bench_consumer_count R fl run_id consumers concurrency warmup measured moves w =
        (Inr (Some \<lparr>bench_in_flight = concurrency, handler_work_s = WORK_SECONDS,
          handled_per_consumer = sort_key fst (cb_handled_by (app w4)), stream_length = warmup + measured, pending_at_end = 0\<rparr>), w7)"
      using True unfolding bench_consumer_count_def Let_def
      by (simp add: bnd_def w1 w2 reset wins w4(1) redis_call_def cc_pending_count_def xl pc m(1) p w7 del: map_map)
    have "sum_list (map snd (sort_key fst d)) = sum_list (map snd d)" for d :: "(string, int) dict"
      by (metis mset_map mset_sort sum_mset_sum_list)
    moreover have "sum_list (map snd (cb_handled_by (app w4))) = warmup + measured"
      using b size n unfolding bench_ledger_def by simp
    ultimately show ?thesis using run by auto
  qed
qed

end

end
