(* ===== verification/Priority_Demo.thy ===== *)
theory Priority_Demo
  imports Priority Demo_Base
begin

section \<open>The priority-queue demonstration\<close>

text \<open>
  \<^verbatim>\<open>scripts/run_priority_queue_pattern.py\<close>: the same ten tickets through the pattern and through the single
  queue. The second task of the script's \<^verbatim>\<open>asyncio.gather\<close> only ends the consumer's loop: \<open>turns\<close> is how
  many turns that takes. \<^verbatim>\<open>handled_by\<close> is the application part of the world. The baseline's last print
  asks the server which keys exist; that command is not modelled.
\<close>

definition pq_demo_GROUP :: string where
  "pq_demo_GROUP = ''support_agents''"

definition TICKETS :: "support_ticket list" where
  "TICKETS = map (\<lambda>(i, s, p, c). \<lparr>ticket_id = i, subject = s, ticket_priority = p, ticket_customer_id = c\<rparr>)
     [(''T-001'', ''FRAUD ALERT: suspicious transaction'', HIGH, ''cust-A''),
      (''T-002'', ''Card stolen, need immediate block'', HIGH, ''cust-B''),
      (''T-003'', ''Account locked, cannot login'', HIGH, ''cust-C''),
      (''T-004'', ''Billing discrepancy on last invoice'', NORMAL, ''cust-D''),
      (''T-005'', ''Password reset not working'', NORMAL, ''cust-E''),
      (''T-006'', ''Update shipping address'', NORMAL, ''cust-F''),
      (''T-007'', ''API docs unclear'', NORMAL, ''cust-G''),
      (''T-008'', ''Feature request: dark mode'', LOW, ''cust-H''),
      (''T-009'', ''Nightly report not emailed'', LOW, ''cust-I''),
      (''T-010'', ''Export CSV missing column'', LOW, ''cust-J'')]"

text \<open>\<^verbatim>\<open>handled_by.setdefault(consumer_id, []).append(ticket.ticket_id)\<close>\<close>

definition ticket_handler :: "('r, (string, string list) dict) pq_handler" where
  "ticket_handler consumer_id ticket = modify (world.more_update (\<lambda>handled_by.
     AList.update consumer_id (dict_get handled_by consumer_id [] @ [ticket_id ticket]) handled_by))"

definition pq_publish_all :: "'r redis \<Rightarrow> support_ticket list \<Rightarrow> (('r, 'x) world_scheme, unit) io" where
  "pq_publish_all R tickets = for_each (\<lambda>ticket _. bnd (pq_publish R ticket) (\<lambda>_. ret ())) tickets ()"

definition pq_demo_main :: "'r redis \<Rightarrow> nat \<Rightarrow>
    (('r, (string, string list) dict) world_scheme, (string \<times> string list) list) io" where
  "pq_demo_main R turns =
     (let cid = ''strict-agent'' in
      bnd (delete_streams R (map STREAMS all_priorities)) (\<lambda>_.
      bnd (pq_ensure_all_groups R pq_demo_GROUP) (\<lambda>_.
      bnd (pq_publish_all R TICKETS) (\<lambda>_.
      bnd (modify (world.more_update (\<lambda>_. []))) (\<lambda>_.
      bnd (run_strict_priority_consumer R cid pq_demo_GROUP ticket_handler None 10 (replicate turns (\<lambda>w. w))) (\<lambda>_ w.
      bnd (ret (sort_key fst (app w))) (\<lambda>handled.
      bnd (delete_streams R (map STREAMS all_priorities)) (\<lambda>_. ret handled)) w))))))"

subsection \<open>The baseline\<close>

definition pq_NAIVE_GROUP :: string where
  "pq_NAIVE_GROUP = ''naive_support_agents''"

definition NAIVE_MAX_POLLS :: nat where
  "NAIVE_MAX_POLLS = 2"

definition naive_arrival_order :: "support_ticket list \<times> support_ticket list" where
  "naive_arrival_order =
     (filter (\<lambda>t. ticket_priority t \<noteq> HIGH) TICKETS, filter (\<lambda>t. ticket_priority t = HIGH) TICKETS)"

record inversion_report =
  served_tickets :: "support_ticket list"
  first_high :: support_ticket
  first_position :: nat

text \<open>\<^verbatim>\<open>next(t for t in served if ...)\<close> raises \<^verbatim>\<open>StopIteration\<close> when there is none; \<^verbatim>\<open>served.index\<close> is the
  first index of an equal ticket.\<close>

definition fifo_publish_all :: "'r redis \<Rightarrow> support_ticket list \<Rightarrow> (('r, 'x) world_scheme, unit) io" where
  "fifo_publish_all R arrivals = for_each (\<lambda>ticket _. bnd (fifo_publish R ticket) (\<lambda>_. ret ())) arrivals ()"

definition pq_run_naive :: "'r redis \<Rightarrow> (('r, 'x) world_scheme, inversion_report) io" where
  "pq_run_naive R =
     bnd (delete_streams R (SINGLE_STREAM # map STREAMS all_priorities)) (\<lambda>_.
     let (routine, urgent) = naive_arrival_order; arrivals = routine @ urgent in
     bnd (fifo_publish_all R arrivals) (\<lambda>_.
     bnd (run_fifo_consumer R pq_NAIVE_GROUP ''naive-agent'' (\<lambda>consumer_id ticket. ret ()) NAIVE_MAX_POLLS 10) (\<lambda>served.
     bnd (case find (\<lambda>t. ticket_priority t = HIGH) served of
         None \<Rightarrow> raise (OtherException ''StopIteration'' [])
       | Some t \<Rightarrow> ret t) (\<lambda>first.
     let position = length (takeWhile (\<lambda>t. t \<noteq> first) served) + 1 in
     bnd (delete_streams R [SINGLE_STREAM]) (\<lambda>_.
     ret \<lparr>served_tickets = served, first_high = first, first_position = position\<rparr>)))))"

subsection \<open>Publishing to groups that wait\<close>

lemma tickets_ok: "\<forall>t \<in> set TICKETS. ticket_ok t"
  by (simp add: TICKETS_def ticket_ok_def valid_utf8_ascii)

text \<open>Every tier's group holds its whole stream undelivered, and those are the tickets \<open>ts\<close>.\<close>

definition backlog :: "keyspace \<Rightarrow> string \<Rightarrow> support_ticket list \<Rightarrow> bool" where
  "backlog k g ts \<longleftrightarrow> (\<forall>p. ks_group k (STREAMS p) g = Some \<lparr>g_new = ks_entries k (STREAMS p), g_pel = []\<rparr> \<and>
     distinct (map fst (ks_entries k (STREAMS p))) \<and> readable (ks_entries k (STREAMS p)) \<and>
     map the_ticket (ks_entries k (STREAMS p)) = filter (\<lambda>t. ticket_priority t = p) ts)"

lemma the_ticket_fields: "ticket_ok t \<Longrightarrow> the_ticket (i, ticket_to_fields t) = t"
  by (simp add: the_ticket_def ticket_from_to_fields)

text \<open>
  The log of one consumer's tickets, with a mark in front if the dictionary holds anything else: so a log
  without the mark determines the dictionary.
\<close>

fun tidy :: "string \<Rightarrow> (string, string list) dict \<Rightarrow> bool" where
  "tidy c [] \<longleftrightarrow> True"
| "tidy c [(c', ids)] \<longleftrightarrow> c' = c"
| "tidy c (x # y # d) \<longleftrightarrow> False"

definition marked_log :: "string \<Rightarrow> (string, string list) dict \<Rightarrow> string option list" where
  "marked_log c d = (if tidy c d then [] else [None]) @ map Some (dict_get d c [])"

lemma tidy_update: "tidy c (AList.update c v d) \<longleftrightarrow> tidy c d"
  by (cases "(c, d)" rule: tidy.cases) auto

lemma marked_log_tidy: "marked_log c d = map Some ids \<Longrightarrow> ids \<noteq> [] \<Longrightarrow> d = [(c, ids)]"
  by (cases "(c, d)" rule: tidy.cases) (auto simp: marked_log_def dict_get_def inj_map_eq_map Cons_eq_map_conv split: if_splits)

lemma ticket_handler_logs: "logs_ticket_as (\<lambda>t. [Some (ticket_id t)]) (marked_log c) c ticket_handler"
  by (simp add: logs_ticket_as_def ticket_handler_def marked_log_def tidy_update)

context redis_available
begin

lemma pq_publish_backlog:
  assumes "backlog (kv w) g ts" and t: "ticket_ok t"
  shows "\<exists>i w'. pq_publish R t w = (Inr i, w') \<and> backlog (kv w') g (ts @ [t]) \<and> app w' = app w"
proof -
  let ?s = "STREAMS (ticket_priority t)" and ?f = "ticket_to_fields t"
  have "?f \<noteq> []" by (simp add: ticket_to_fields_def)
  then obtain i r' where x: "xadd R ?s ?f (srv w) = (Inr i, r')" using xadd_up by blast
  have run: "\<exists>w'. pq_publish R t w = (Inr i, w') \<and> srv w' = r' \<and> app w' = app w"
    by (simp add: pq_publish_def bnd_def redis_call_def x incr_def)
  note law = xadd_law [OF x]
  have "backlog (view r') g (ts @ [t])" unfolding backlog_def
  proof
    fix p
    have k: "ks_group (kv w) (STREAMS p) g = Some \<lparr>g_new = ks_entries (kv w) (STREAMS p), g_pel = []\<rparr>"
      "distinct (map fst (ks_entries (kv w) (STREAMS p)))" "readable (ks_entries (kv w) (STREAMS p))"
      "map the_ticket (ks_entries (kv w) (STREAMS p)) = filter (\<lambda>t. ticket_priority t = p) ts"
      using assms(1) by (simp_all add: backlog_def)
    show "ks_group (view r') (STREAMS p) g = Some \<lparr>g_new = ks_entries (view r') (STREAMS p), g_pel = []\<rparr> \<and>
        distinct (map fst (ks_entries (view r') (STREAMS p))) \<and> readable (ks_entries (view r') (STREAMS p)) \<and>
        map the_ticket (ks_entries (view r') (STREAMS p)) = filter (\<lambda>t. ticket_priority t = p) (ts @ [t])"
      using k law by (cases "p = ticket_priority t") (auto simp: the_ticket_fields [OF t] ticket_from_to_fields [OF t])
  qed
  then show ?thesis using run by blast
qed

lemma pq_publish_all_backlog:
  assumes "backlog (kv w) g ts" and "\<forall>t \<in> set us. ticket_ok t"
  shows "\<exists>w'. pq_publish_all R us w = (Inr (), w') \<and> backlog (kv w') g (ts @ us) \<and> app w' = app w"
  using assms
proof (induction us arbitrary: w ts)
  case Nil
  then show ?case by (simp add: pq_publish_all_def)
next
  case (Cons t us)
  obtain i w1 where "pq_publish R t w = (Inr i, w1)" "backlog (kv w1) g (ts @ [t])" "app w1 = app w"
    using pq_publish_backlog [OF Cons.prems(1), of t] Cons.prems(2) by fastforce
  then show ?case using Cons.IH [of w1 "ts @ [t]"] Cons.prems(2) by (simp add: pq_publish_all_def bnd_def)
qed

text \<open>Creating groups that exist changes nothing.\<close>

lemma pq_ensure_groups_again:
  assumes "\<forall>p \<in> set order. ks_group (kv w) (STREAMS p) g \<noteq> None"
  shows "\<exists>w'. pq_ensure_groups R order g w = (Inr (), w') \<and> kv w' = kv w \<and> app w' = app w"
  using assms
proof (induction order arbitrary: w)
  case Nil
  then show ?case by (simp add: pq_ensure_groups_def)
next
  case (Cons p order)
  obtain b w1 where mk: "pq_ensure_group R p g w = (Inr b, w1)"
    unfolding pq_idioms by (rule group_create_up)
  have w1: "kv w1 = kv w" "app w1 = app w"
    using group_create_effect [OF mk [unfolded pq_idioms]] Cons.prems by auto
  have "pq_ensure_groups R (p # order) g w = pq_ensure_groups R order g w1"
    by (simp add: pq_ensure_groups_def bnd_def mk)
  then show ?case using Cons.IH [of w1] Cons.prems w1 by auto
qed

lemma strict_run_backlog:
  assumes h: "logs_ticket_as item lg c h" and n: "1 \<le> n" and b: "backlog (kv w) g ts" and k: "length ts \<le> k"
  shows "\<exists>w'. run_strict_priority_consumer R c g h None n (replicate k (\<lambda>w. w)) w = (Inr (int (length ts)), w') \<and>
    lg (app w') = lg (app w) @ concat (map item (concat (map (\<lambda>p. filter (\<lambda>t. ticket_priority t = p) ts) [HIGH, NORMAL, LOW])))"
proof -
  let ?o = "[HIGH, NORMAL, LOW]" and ?q = "\<lambda>p. ks_entries (kv w) (STREAMS p)"
  have exist: "\<forall>p \<in> set ?o. ks_group (kv w) (STREAMS p) g \<noteq> None" using b by (auto simp: backlog_def)
  obtain w1 where mk: "pq_ensure_groups R ?o g w = (Inr (), w1)" "kv w1 = kv w" "app w1 = app w"
    using pq_ensure_groups_again [OF exist] by blast
  have t: "tiers (kv w1) g ?o ?q (\<lambda>_. [])" using b mk(2) by (simp add: tiers_def backlog_def pel_entries_def)
  have rd: "\<forall>p \<in> set ?o. readable (?q p)" using b unfolding backlog_def by blast
  have tk: "map the_ticket (?q p) = filter (\<lambda>t. ticket_priority t = p) ts" for p using b unfolding backlog_def by blast
  have "length (?q p) = length (filter (\<lambda>t. ticket_priority t = p) ts)" for p using tk [of p] by (metis length_map)
  moreover have "length (filter (\<lambda>t. ticket_priority t = HIGH) ts) + length (filter (\<lambda>t. ticket_priority t = NORMAL) ts) +
      length (filter (\<lambda>t. ticket_priority t = LOW) ts) = length ts"
  proof (induction ts)
    case (Cons t ts)
    then show ?case by (cases "ticket_priority t") auto
  qed simp
  ultimately have len: "length (concat (map ?q ?o)) = length ts" by simp
  have all: "fst (serve_turns (nat n) ?o k ?q) = concat (map ?q ?o)"
    by (rule serve_turns_all) (use n len k in simp_all)
  obtain w' where w': "strict_loop R g c h n ?o (replicate k (\<lambda>w. w)) 0 w1 =
      (Inr (0 + int (length (fst (serve_turns (nat n) ?o k ?q)))), w')"
    "lg (app w') = lg (app w1) @ log_of item (fst (serve_turns (nat n) ?o k ?q))"
    using strict_loop_serves [OF h n _ t rd] by (metis (no_types, lifting) distinct.simps(2) distinct_singleton
        empty_iff insert_iff list.set(1) list.simps(15) priority.distinct(1,3,5))
  have "log_of item (concat (map ?q ?o)) =
      concat (map item (concat (map (\<lambda>p. filter (\<lambda>t. ticket_priority t = p) ts) ?o)))"
    by (simp add: log_of_def tk [symmetric] comp_def)
  moreover have "strict_loop R g c h n ?o (replicate k (\<lambda>w. w)) 0 w1 = (Inr (int (length ts)), w')"
    using w'(1) unfolding all len by simp
  then have "run_strict_priority_consumer R c g h None n (replicate k (\<lambda>w. w)) w = (Inr (int (length ts)), w')"
    using mk(1) by (simp add: run_strict_priority_consumer_def bnd_Inr Let_def)
  ultimately show ?thesis using w'(2) mk(3) unfolding all by auto
qed

lemma pq_ensure_all_backlog:
  assumes "\<forall>p. ks_entries (kv w) (STREAMS p) = [] \<and> ks_group (kv w) (STREAMS p) g = None"
  shows "\<exists>w'. pq_ensure_all_groups R g w = (Inr (), w') \<and> backlog (kv w') g [] \<and> app w' = app w"
proof -
  obtain w' where w': "pq_ensure_groups R all_priorities g w = (Inr (), w')" "app w' = app w"
    "ks_entries (kv w') = ks_entries (kv w)"
    "\<forall>p. ks_group (kv w') (STREAMS p) g =
      (if p \<in> set all_priorities then Some (new_group (ks_entries (kv w) (STREAMS p))) else ks_group (kv w) (STREAMS p) g)"
    using pq_ensure_groups_up [of all_priorities w g] assms by (auto simp: all_priorities_def)
  then show ?thesis using assms
    by (auto simp: pq_ensure_all_groups_def backlog_def all_priorities_complete new_group_def)
qed

lemma pq_demo_main_run:
  assumes "10 \<le> turns"
  shows "\<exists>w'. pq_demo_main R turns w = (Inr [(''strict-agent'', map ticket_id TICKETS)], w')"
proof -
  let ?cid = "''strict-agent''"
  obtain d w1 where del: "delete_streams R (map STREAMS all_priorities) w = (Inr d, w1)" by (rule delete_streams_up)
  have "\<forall>p. ks_entries (kv w1) (STREAMS p) = [] \<and> ks_group (kv w1) (STREAMS p) pq_demo_GROUP = None"
    using delete_streams_effect [OF del] all_priorities_complete by simp
  then obtain w2 where w2: "pq_ensure_all_groups R pq_demo_GROUP w1 = (Inr (), w2)" "backlog (kv w2) pq_demo_GROUP []"
    using pq_ensure_all_backlog by blast
  obtain w3 where w3: "pq_publish_all R TICKETS w2 = (Inr (), w3)" "backlog (kv w3) pq_demo_GROUP ([] @ TICKETS)"
    using pq_publish_all_backlog [OF w2(2) tickets_ok] by blast
  define w4 where "w4 = w3\<lparr>world.more := [] :: (string, string list) dict\<rparr>"
  have b: "backlog (kv w4) pq_demo_GROUP TICKETS" using w3(2) by (simp add: w4_def)
  have tiers: "concat (map (\<lambda>p. filter (\<lambda>t. ticket_priority t = p) TICKETS) [HIGH, NORMAL, LOW]) = TICKETS"
    "length TICKETS = 10" by code_simp+
  obtain w5 where w5: "run_strict_priority_consumer R ?cid pq_demo_GROUP ticket_handler None 10 (replicate turns (\<lambda>w. w)) w4 =
      (Inr (int (length TICKETS)), w5)"
    "marked_log ?cid (app w5) = marked_log ?cid [] @ concat (map (\<lambda>t. [Some (ticket_id t)]) TICKETS)"
    using strict_run_backlog [OF ticket_handler_logs [of ?cid] _ b, of 10 turns] assms unfolding tiers by (auto simp: w4_def)
  have "marked_log ?cid (app w5) = map Some (map ticket_id TICKETS)"
    using w5(2) by (simp add: marked_log_def dict_get_def comp_def)
  then have app: "app w5 = [(?cid, map ticket_id TICKETS)]"
    by (rule marked_log_tidy) (simp add: TICKETS_def)
  obtain d' w6 where del': "delete_streams R (map STREAMS all_priorities) w5 = (Inr d', w6)" by (rule delete_streams_up)
  have "pq_demo_main R turns w = (Inr [(?cid, map ticket_id TICKETS)], w6)"
    using del w2(1) w3(1) w5(1) del' app by (simp add: pq_demo_main_def bnd_Inr w4_def)
  then show ?thesis by blast
qed

subsection \<open>The baseline's order\<close>

lemma fifo_publish_run:
  assumes "readable (ks_entries (kv w) SINGLE_STREAM)" and "distinct (map fst (ks_entries (kv w) SINGLE_STREAM))"
    and "\<forall>t \<in> set ts. ticket_ok t"
  shows "\<exists>w'. fifo_publish_all R ts w = (Inr (), w') \<and>
    readable (ks_entries (kv w') SINGLE_STREAM) \<and> distinct (map fst (ks_entries (kv w') SINGLE_STREAM)) \<and>
    map the_ticket (ks_entries (kv w') SINGLE_STREAM) = map the_ticket (ks_entries (kv w) SINGLE_STREAM) @ ts \<and>
    (\<forall>g. ks_group (kv w) SINGLE_STREAM g = None \<longrightarrow> ks_group (kv w') SINGLE_STREAM g = None)"
  using assms
proof (induction ts arbitrary: w)
  case (Cons t ts)
  have "ticket_to_fields t \<noteq> []" by (simp add: ticket_to_fields_def)
  then obtain i r' where x: "xadd R SINGLE_STREAM (ticket_to_fields t) (srv w) = (Inr i, r')" using xadd_up by blast
  define w1 where "w1 = w\<lparr>srv := r'\<rparr>"
  have w1: "kv w1 = ks_xadd SINGLE_STREAM i (ticket_to_fields t) (kv w)" "i \<notin> fst ` set (ks_entries (kv w) SINGLE_STREAM)"
    using xadd_law [OF x] by (simp_all add: w1_def)
  have t: "ticket_ok t" using Cons.prems(3) by simp
  have "readable (ks_entries (kv w1) SINGLE_STREAM)" "distinct (map fst (ks_entries (kv w1) SINGLE_STREAM))"
    using Cons.prems(1,2) w1(2) by (simp_all add: w1(1) the_ticket_fields [OF t] ticket_from_to_fields [OF t])
  then obtain w' where "fifo_publish_all R ts w1 = (Inr (), w')"
    "readable (ks_entries (kv w') SINGLE_STREAM)" "distinct (map fst (ks_entries (kv w') SINGLE_STREAM))"
    "map the_ticket (ks_entries (kv w') SINGLE_STREAM) = map the_ticket (ks_entries (kv w1) SINGLE_STREAM) @ ts"
    "\<forall>g. ks_group (kv w1) SINGLE_STREAM g = None \<longrightarrow> ks_group (kv w') SINGLE_STREAM g = None"
    using Cons.IH [of w1] Cons.prems(3) by (metis list.set_intros(2))
  moreover have "fifo_publish R t w = (Inr i, w1)" by (simp add: fifo_publish_def redis_call_def x w1_def)
  moreover have "map the_ticket (ks_entries (kv w1) SINGLE_STREAM) = map the_ticket (ks_entries (kv w) SINGLE_STREAM) @ [t]"
    "ks_group (kv w) SINGLE_STREAM g = None \<Longrightarrow> ks_group (kv w1) SINGLE_STREAM g = None" for g
    by (simp_all add: w1(1) the_ticket_fields [OF t])
  ultimately show ?case by (intro exI [of _ w']) (simp add: bnd_Inr fifo_publish_all_def)
qed (simp add: fifo_publish_all_def)

lemma pq_run_naive_run:
  "\<exists>w'. pq_run_naive R w = (Inr \<lparr>served_tickets = drop 3 TICKETS @ take 3 TICKETS, first_high = TICKETS ! 0,
     first_position = 8\<rparr>, w')"
proof -
  let ?ts = "drop 3 TICKETS @ take 3 TICKETS"
  obtain d w1 where del: "delete_streams R (SINGLE_STREAM # map STREAMS all_priorities) w = (Inr d, w1)"
    by (rule delete_streams_up)
  have w1: "ks_entries (kv w1) SINGLE_STREAM = []" "ks_group (kv w1) SINGLE_STREAM pq_NAIVE_GROUP = None"
    using delete_streams_effect [OF del] by simp_all
  have order: "naive_arrival_order = (drop 3 TICKETS, take 3 TICKETS)" by code_simp
  have ok: "\<forall>t \<in> set ?ts. ticket_ok t" using tickets_ok by (auto dest: in_set_takeD in_set_dropD)
  obtain w2 where w2: "fifo_publish_all R ?ts w1 = (Inr (), w2)"
    "readable (ks_entries (kv w2) SINGLE_STREAM)" "distinct (map fst (ks_entries (kv w2) SINGLE_STREAM))"
    "map the_ticket (ks_entries (kv w2) SINGLE_STREAM) = ?ts" "ks_group (kv w2) SINGLE_STREAM pq_NAIVE_GROUP = None"
    using fifo_publish_run [of w1 ?ts] w1 ok by auto
  have silent: "logs_ticket_as (\<lambda>t. []) (\<lambda>_. [] :: unit list) ''naive-agent'' (\<lambda>consumer_id ticket. ret ())"
    by (simp add: logs_ticket_as_def)
  have "length (ks_entries (kv w2) SINGLE_STREAM) = 10" using w2(4) map_eq_imp_length_eq by (fastforce simp: TICKETS_def)
  then obtain w3 where w3: "run_fifo_consumer R pq_NAIVE_GROUP ''naive-agent'' (\<lambda>consumer_id ticket. ret ()) NAIVE_MAX_POLLS 10 w2 =
      (Inr ?ts, w3)"
    using fifo_run_serves [OF silent _ w2(5,3,2), of 10 NAIVE_MAX_POLLS] w2(4) by (auto simp: NAIVE_MAX_POLLS_def)
  have first: "find (\<lambda>t. ticket_priority t = HIGH) ?ts = Some (TICKETS ! 0)"
    "length (takeWhile (\<lambda>t. t \<noteq> TICKETS ! 0) ?ts) = 7" by code_simp+
  obtain d' w4 where del': "delete_streams R [SINGLE_STREAM] w3 = (Inr d', w4)" by (rule delete_streams_up)
  have "pq_run_naive R w = (Inr \<lparr>served_tickets = ?ts, first_high = TICKETS ! 0, first_position = 8\<rparr>, w4)"
    using del w2(1) w3 first del' by (simp add: pq_run_naive_def order bnd_Inr Let_def)
  then show ?thesis by blast
qed

end

end
