(* ===== verification/Saga_Demo.thy ===== *)
theory Saga_Demo
  imports Saga_Progress Saga_Naive Redis_Memory
begin

section \<open>The saga demonstration\<close>

text \<open>
  \<^verbatim>\<open>scripts/run_saga_pattern.py\<close>: one payable and one unpayable order through the saga, and three orders
  through the baseline, the second of which shipping refuses after the charge. \<^verbatim>\<open>run_demo\<close> makes new
  services (an empty dictionary of orders) and a new order object, the \<open>ref\<close>-th. What the script prints are
  the results.
\<close>

record saga_report =
  final_status :: "saga_status option"
  orders_messages :: "entry list"
  payments_messages :: "entry list"
  shipping_messages :: "entry list"

definition saga_run_demo :: "'r redis \<Rightarrow> float_text \<Rightarrow> (nat \<Rightarrow> string) \<Rightarrow> nat \<Rightarrow> pyfloat \<Rightarrow>
    ('r saga_world \<Rightarrow> 'r saga_world) list \<Rightarrow> ('r, saga_report) saga_io" where
  "saga_run_demo R fl u ref amt envs =
     bnd (uuid4 u) (\<lambda>oid.
     bnd (modify (\<lambda>w. w\<lparr>order_heap := (order_heap w)(ref := \<lparr>order_id = oid, customer_id = ''demo-user'',
       amount = amt, status = PENDING, created_at = wall w\<rparr>), orders := []\<rparr>)) (\<lambda>_.
     bnd (run_saga R fl u ref envs) (\<lambda>_.
     bnd (\<lambda>w. (Inr (map_option status (get_order oid w)), w)) (\<lambda>final.
     bnd (redis_call (xrange R STREAM_ORDERS)) (\<lambda>os.
     bnd (redis_call (xrange R STREAM_PAYMENTS)) (\<lambda>ps.
     bnd (redis_call (xrange R STREAM_SHIPPING)) (\<lambda>ss.
     bnd (delete_streams R [STREAM_ORDERS, STREAM_PAYMENTS, STREAM_SHIPPING]) (\<lambda>_.
     ret \<lparr>final_status = final, orders_messages = os, payments_messages = ps, shipping_messages = ss\<rparr>))))))))"

definition saga_demo_main :: "'r redis \<Rightarrow> float_text \<Rightarrow> (nat \<Rightarrow> string) \<Rightarrow>
    (nat \<Rightarrow> ('r saga_world \<Rightarrow> 'r saga_world) list) \<Rightarrow> ('r, saga_report \<times> saga_report) saga_io" where
  "saga_demo_main R fl u envs =
     bnd (saga_run_demo R fl u 0 (Finite 150) (envs 0)) (\<lambda>happy.
     bnd (saga_run_demo R fl u 1 (Finite (- 1)) (envs 1)) (\<lambda>failure. ret (happy, failure)))"

text \<open>\<^verbatim>\<open>fields.get(b"event_type", b"?")\<close> of each message, as listed by the script.\<close>

definition event_types :: "entry list \<Rightarrow> string list" where
  "event_types msgs = map (\<lambda>m. dict_get (snd m) ''event_type'' ''?'') msgs"

subsection \<open>The baseline\<close>

definition NAIVE_ORDERS :: "(string \<times> pyfloat) list" where
  "NAIVE_ORDERS = [(''naive-ord-1'', Finite 150), (''naive-ord-2'', Finite 42), (''naive-ord-3'', Finite (159 / 2))]"

definition NAIVE_REJECTED_ORDER :: string where
  "NAIVE_REJECTED_ORDER = ''naive-ord-2''"

text \<open>The \<open>i\<close>-th turn of the loop over \<open>NAIVE_ORDERS\<close>; \<open>now\<close> reads the clock for the order.\<close>

definition naive_turn :: "(nat \<Rightarrow> string) \<Rightarrow> (nat \<Rightarrow> string) \<Rightarrow> nat \<times> string \<times> pyfloat \<Rightarrow> (string \<times> string) list \<Rightarrow>
    (naive_world, (string \<times> string) list) io" where
  "naive_turn u now = (\<lambda>(i, oid, amt) failures.
     bnd (modify (\<lambda>w. w\<lparr>nv_heap := (nv_heap w)(i := \<lparr>order_id = oid, customer_id = ''demo-user'',
       amount = amt, status = PENDING, created_at = now i\<rparr>)\<rparr>)) (\<lambda>_.
     bnd (try_io (place_order_without_compensation u i)) (\<lambda>res.
     case res of
       Inr _ \<Rightarrow> ret failures
     | Inl exc \<Rightarrow> (case exc of ShippingUnavailableError why \<Rightarrow> ret (failures @ [(oid, why)]) | _ \<Rightarrow> raise exc))))"

record stranded_report =
  sr_failures :: "(string \<times> string \<times> int \<times> saga_status option) list"
  sr_ledger :: "(string \<times> int) list"
  sr_shipments :: "string list"

definition saga_run_naive :: "(nat \<Rightarrow> string) \<Rightarrow> (nat \<Rightarrow> string) \<Rightarrow> (naive_world, stranded_report) io" where
  "saga_run_naive u now =
     bnd (modify (\<lambda>w. w\<lparr>decline_for := {}, ledger := [], reject_for := {NAIVE_REJECTED_ORDER}, shipments := [],
       order_svc := []\<rparr>)) (\<lambda>_.
     bnd (for_each (naive_turn u now) (enumerate 0 NAIVE_ORDERS) []) (\<lambda>failures w.
     ret \<lparr>sr_failures = map (\<lambda>(oid, why). (oid, why, net_cents oid w, map_option status (naive_get_order oid w))) failures,
       sr_ledger = ledger w, sr_shipments = shipments w\<rparr> w))"

subsection \<open>What the demonstration shows\<close>

context redis_available
begin

lemma xrange_run: "\<exists>w'. redis_call (xrange R s) w = (Inr (ks_entries (kv w) s), w') \<and> kv w' = kv w"
proof -
  obtain es r' where x: "xrange R s (srv w) = (Inr es, r')" using xrange_up by blast
  then show ?thesis using xrange_law [OF x] by (auto simp: redis_call_def)
qed

lemma saga_run_demo_run:
  fixes w :: "'a saga_world" and ref :: nat and u :: "nat \<Rightarrow> string" and amt :: pyfloat
  defines "o1 \<equiv> \<lparr>order_id = u (uuids_drawn w), customer_id = ''demo-user'', amount = amt, status = PENDING, created_at = wall w\<rparr>"
  defines "w1 \<equiv> w\<lparr>uuids_drawn := uuids_drawn w + 1, order_heap := (order_heap w)(ref := o1), orders := []\<rparr>"
  assumes run: "run_saga R fl u ref envs w1 = (Inr (), w2)"
    and final: "get_order (order_id o1) w2 = Some (o1\<lparr>status := st\<rparr>)"
  shows "\<exists>w'. saga_run_demo R fl u ref amt envs w = (Inr \<lparr>final_status = Some st,
      orders_messages = ks_entries (kv w2) STREAM_ORDERS, payments_messages = ks_entries (kv w2) STREAM_PAYMENTS,
      shipping_messages = ks_entries (kv w2) STREAM_SHIPPING\<rparr>, w') \<and>
    ks_entries (kv w') STREAM_ORDERS = [] \<and> ks_entries (kv w') STREAM_PAYMENTS = [] \<and>
    ks_entries (kv w') STREAM_SHIPPING = []"
proof -
  obtain w3 where w3: "redis_call (xrange R STREAM_ORDERS) w2 = (Inr (ks_entries (kv w2) STREAM_ORDERS), w3)" "kv w3 = kv w2"
    using xrange_run by blast
  obtain w4 where w4: "redis_call (xrange R STREAM_PAYMENTS) w3 = (Inr (ks_entries (kv w2) STREAM_PAYMENTS), w4)" "kv w4 = kv w2"
    using xrange_run [of STREAM_PAYMENTS w3] w3(2) by auto
  obtain w5 where w5: "redis_call (xrange R STREAM_SHIPPING) w4 = (Inr (ks_entries (kv w2) STREAM_SHIPPING), w5)" "kv w5 = kv w2"
    using xrange_run [of STREAM_SHIPPING w4] w4(2) by auto
  obtain d w6 where del: "delete_streams R [STREAM_ORDERS, STREAM_PAYMENTS, STREAM_SHIPPING] w5 = (Inr d, w6)"
    by (rule delete_streams_up)
  have start: "bnd (uuid4 u) (\<lambda>oid. bnd (modify (\<lambda>w. w\<lparr>order_heap := (order_heap w)(ref := \<lparr>order_id = oid,
      customer_id = ''demo-user'', amount = amt, status = PENDING, created_at = wall w\<rparr>), orders := []\<rparr>)) (k oid)) w =
      k (order_id o1) () w1" for k :: "string \<Rightarrow> unit \<Rightarrow> ('a saga_world, 'b) io"
    by (simp add: uuid4_def bnd_def o1_def w1_def)
  have "saga_run_demo R fl u ref amt envs w = (Inr \<lparr>final_status = Some st,
      orders_messages = ks_entries (kv w2) STREAM_ORDERS, payments_messages = ks_entries (kv w2) STREAM_PAYMENTS,
      shipping_messages = ks_entries (kv w2) STREAM_SHIPPING\<rparr>, w6)"
    unfolding saga_run_demo_def start using run final w3(1) w4(1) w5(1) del by (simp add: bnd_Inr)
  then show ?thesis using delete_streams_effect [OF del] by auto
qed

lemma saga_demo_main_run:
  fixes w :: "'a saga_world"
  assumes fl: "float_text_ok fl" and u: "\<And>n. is_ascii (u n)"
    and empty: "ks_entries (kv w) STREAM_ORDERS = []" "ks_entries (kv w) STREAM_PAYMENTS = []"
      "ks_entries (kv w) STREAM_SHIPPING = []"
  shows "\<exists>happy failure w'. saga_demo_main R fl u (\<lambda>_. (\<lambda>w. w) # envs) w = (Inr (happy, failure), w') \<and>
    final_status happy = Some COMPLETED \<and> event_types (orders_messages happy) = [''OrderCreated''] \<and>
    event_types (payments_messages happy) = [''PaymentProcessed''] \<and>
    event_types (shipping_messages happy) = [''OrderShipped''] \<and>
    final_status failure = Some CANCELLED \<and>
    event_types (orders_messages failure) = [''OrderCreated'', ''OrderCancelled''] \<and>
    event_types (payments_messages failure) = [''PaymentFailed''] \<and> shipping_messages failure = []"
proof -
  define o1 where "o1 = \<lparr>order_id = u (uuids_drawn w), customer_id = ''demo-user'', amount = Finite 150, status = PENDING, created_at = wall w\<rparr>"
  define w1 where "w1 = w\<lparr>uuids_drawn := uuids_drawn w + 1, order_heap := (order_heap w)(0 := o1), orders := []\<rparr>"
  have ok: "saga_order_ok \<lparr>order_id = u n, customer_id = ''demo-user'', amount = x, status = st, created_at = t\<rparr>" for n x st t
    using u by (simp add: saga_order_ok_def valid_utf8_ascii)
  have heap1: "order_heap w1 0 = o1" "kv w1 = kv w" by (simp_all add: w1_def)
  obtain w2 i j k tx tn where w2: "run_saga R fl u 0 ((\<lambda>w. w) # envs) w1 = (Inr (), w2)"
    "get_order (order_id o1) w2 = Some (o1\<lparr>status := COMPLETED\<rparr>)"
    "ks_entries (kv w2) STREAM_ORDERS = [(i, order_created_to_dict (created_event fl o1))]"
    "ks_entries (kv w2) STREAM_PAYMENTS = [(j, payment_processed_to_dict \<lparr>pp_order_id = order_id o1, transaction_id = tx\<rparr>)]"
    "ks_entries (kv w2) STREAM_SHIPPING = [(k, order_shipped_to_dict \<lparr>os_order_id = order_id o1, tracking_number = tn\<rparr>)]"
    using run_saga_completes [of w1 0 o1 fl u envs] heap1 fl u ok empty by (auto simp: o1_def)
  obtain w3 where w3: "saga_run_demo R fl u 0 (Finite 150) ((\<lambda>w. w) # envs) w = (Inr \<lparr>final_status = Some COMPLETED,
      orders_messages = ks_entries (kv w2) STREAM_ORDERS, payments_messages = ks_entries (kv w2) STREAM_PAYMENTS,
      shipping_messages = ks_entries (kv w2) STREAM_SHIPPING\<rparr>, w3)"
    "ks_entries (kv w3) STREAM_ORDERS = []" "ks_entries (kv w3) STREAM_PAYMENTS = []" "ks_entries (kv w3) STREAM_SHIPPING = []"
    using saga_run_demo_run [of fl u 0 "(\<lambda>w. w) # envs" w "Finite 150" w2 COMPLETED] w2(1,2)
    by (auto simp: o1_def w1_def)
  define o2 where "o2 = \<lparr>order_id = u (uuids_drawn w3), customer_id = ''demo-user'', amount = Finite (- 1), status = PENDING, created_at = wall w3\<rparr>"
  define w4 where "w4 = w3\<lparr>uuids_drawn := uuids_drawn w3 + 1, order_heap := (order_heap w3)(1 := o2), orders := []\<rparr>"
  have heap2: "order_heap w4 1 = o2" "kv w4 = kv w3" by (simp_all add: w4_def)
  obtain w5 i' j' k' where w5: "run_saga R fl u 1 ((\<lambda>w. w) # envs) w4 = (Inr (), w5)"
    "get_order (order_id o2) w5 = Some (o2\<lparr>status := CANCELLED\<rparr>)"
    "ks_entries (kv w5) STREAM_ORDERS = [(i', order_created_to_dict (created_event fl o2)),
      (k', order_cancelled_to_dict \<lparr>ox_order_id = order_id o2, ox_reason = ''Invalid amount: '' @ show_float fl (amount o2)\<rparr>)]"
    "ks_entries (kv w5) STREAM_PAYMENTS = [(j', payment_failed_to_dict \<lparr>pf_order_id = order_id o2,
      pf_reason = ''Invalid amount: '' @ show_float fl (amount o2)\<rparr>)]" "ks_entries (kv w5) STREAM_SHIPPING = []"
    using run_saga_cancels [of w4 1 o2 fl u envs] heap2 fl ok w3(2-4) by (auto simp: o2_def)
  obtain w6 where w6: "saga_run_demo R fl u 1 (Finite (- 1)) ((\<lambda>w. w) # envs) w3 = (Inr \<lparr>final_status = Some CANCELLED,
      orders_messages = ks_entries (kv w5) STREAM_ORDERS, payments_messages = ks_entries (kv w5) STREAM_PAYMENTS,
      shipping_messages = ks_entries (kv w5) STREAM_SHIPPING\<rparr>, w6)"
    using saga_run_demo_run [of fl u 1 "(\<lambda>w. w) # envs" w3 "Finite (- 1)" w5 CANCELLED] w5(1,2)
    by (auto simp: o2_def w4_def)
  show ?thesis
    using w3(1) w6 by (simp add: saga_demo_main_def bnd_Inr w2(3-5) w5(3-5) event_types_def dict_get_def
        order_created_to_dict_def payment_processed_to_dict_def order_shipped_to_dict_def order_cancelled_to_dict_def
        payment_failed_to_dict_def)
qed

end

text \<open>The baseline: the refused order stays paid, with the money taken.\<close>

lemma naive_exponents: "exponent_of 15000 = 13" "exponent_of 4200 = 12" "exponent_of 7950 = 12"
  by code_simp+

lemma naive_cents:
  "round53 15000 = Finite 15000" "round53 4200 = Finite 4200" "round53 7950 = Finite 7950"
  by (simp_all add: round53_def naive_exponents pow2_def round_even_def Let_def)

lemma saga_run_naive_run:
  "fst (saga_run_naive u now w) = Inr \<lparr>
     sr_failures = [(''naive-ord-2'', ''no stock for naive-ord-2'', 4200, Some PAID)],
     sr_ledger = [(''naive-ord-1'', 15000), (''naive-ord-2'', 4200), (''naive-ord-3'', 7950)],
     sr_shipments = [''naive-ord-1'', ''naive-ord-3'']\<rparr>"
  by (simp add: saga_run_naive_def NAIVE_ORDERS_def NAIVE_REJECTED_ORDER_def naive_turn_def try_io_def bnd_def
      place_order_without_compensation_def naive_create_order_def naive_status_def charge_def ship_def nv_uuid4_def
      naive_cents net_cents_def naive_get_order_def)

end
