(* ===== verification/ES_Demo.thy ===== *)
theory ES_Demo
  imports ES_Store ES_Naive Demo_Base
begin

section \<open>The event-sourcing demonstration\<close>

text \<open>
  \<^verbatim>\<open>scripts/run_event_sourcing_pattern.py\<close>: the happy path (live account, replayed account and read model
  side by side), the refused overdraft, and the state-only baseline. What the script prints are the results;
  \<open>envs\<close> are the turns of the projector. The balances are compared by the script's own \<^verbatim>\<open>==\<close> chain.
\<close>

text \<open>\<^verbatim>\<open>await _persist(store, live.<command>(...))\<close>: the command raises before anything is stored.\<close>

definition persist_command :: "'r redis \<Rightarrow> (bank_account, account_event) io \<Rightarrow> bank_account \<Rightarrow>
    (('r, 'x) world_scheme, bank_account) io" where
  "persist_command R command live =
     command_then command live (\<lambda>ev live'. bnd (es_persist R ev) (\<lambda>_. ret live'))"

text \<open>\<^verbatim>\<open>BankAccount.replay(decode_event(raw) for _, raw in raw_events)\<close>: decoding and folding alternate.\<close>

fun replay_raws :: "entry list \<Rightarrow> bank_account \<Rightarrow> exn + bank_account" where
  "replay_raws [] acc = Inr acc"
| "replay_raws (m # ms) acc =
     bndr (decode_event (snd m)) (\<lambda>ev. bndr (apply_event ev acc) (\<lambda>acc'. replay_raws ms acc'))"

record balances_report =
  live_balance :: int
  replayed_balance :: int
  summary_balance :: int
  all_equal :: bool
  stream_listing :: "entry list"

definition run_happy_path :: "'r redis \<Rightarrow> string \<Rightarrow> (('r, 'x) world_scheme \<Rightarrow> ('r, 'x) world_scheme) list \<Rightarrow>
    (('r, 'x) world_scheme, balances_report) io" where
  "run_happy_path R aid envs =
     bnd (persist_command R (account_create ''demo-user'') (new_account aid)) (\<lambda>live.
     bnd (persist_command R (account_deposit 1500) live) (\<lambda>live.
     bnd (persist_command R (account_deposit 400) live) (\<lambda>live.
     bnd (persist_command R (account_withdraw 300) live) (\<lambda>live.
     bnd (persist_command R (account_withdraw 200) live) (\<lambda>live.
     bnd (persist_command R (account_withdraw 700) live) (\<lambda>live.
     bnd (es_read R aid ''0'') (\<lambda>raw_events.
     bnd (liftr (replay_raws raw_events (new_account []))) (\<lambda>replayed.
     bnd (project R aid (version live) envs) (\<lambda>summary.
     bnd (redis_call (xrange R (account_stream aid))) (\<lambda>msgs.
     bnd (delete_streams R [account_stream aid]) (\<lambda>_.
     ret \<lparr>live_balance = balance live, replayed_balance = balance replayed, summary_balance = sm_balance summary,
       all_equal = (balance live = balance replayed \<and> balance replayed = sm_balance summary),
       stream_listing = msgs\<rparr>)))))))))))"

record overdraft_report =
  length_before :: int
  refusal :: "exn option"
  length_after :: int

definition run_failure_path :: "'r redis \<Rightarrow> string \<Rightarrow> (('r, 'x) world_scheme, overdraft_report) io" where
  "run_failure_path R aid =
     bnd (persist_command R (account_create ''demo-user'') (new_account aid)) (\<lambda>live.
     bnd (persist_command R (account_deposit 100) live) (\<lambda>live.
     bnd (es_length R aid) (\<lambda>before.
     bnd (try_io (persist_command R (account_withdraw 101) live)) (\<lambda>res.
     bnd (case res of
         Inr _ \<Rightarrow> ret None
       | Inl exc \<Rightarrow> (case exc of InsufficientFundsError _ _ \<Rightarrow> ret (Some exc) | _ \<Rightarrow> raise exc)) (\<lambda>refused.
     bnd (es_length R aid) (\<lambda>after.
     bnd (delete_streams R [account_stream aid]) (\<lambda>_.
     ret \<lparr>length_before = before, refusal = refused, length_after = after\<rparr>)))))))"

text \<open>\<^verbatim>\<open>main\<close>: \<open>u\<close> gives the two \<^verbatim>\<open>uuid4\<close> account ids.\<close>

definition es_demo_main :: "'r redis \<Rightarrow> (nat \<Rightarrow> string) \<Rightarrow> (('r, 'x) world_scheme \<Rightarrow> ('r, 'x) world_scheme) list \<Rightarrow>
    (('r, 'x) world_scheme, balances_report \<times> overdraft_report) io" where
  "es_demo_main R u envs =
     bnd (run_happy_path R (u 0) envs) (\<lambda>happy.
     bnd (run_failure_path R (u 1)) (\<lambda>failure. ret (happy, failure)))"

subsection \<open>The baseline\<close>

definition NAIVE_ACCOUNT :: string where
  "NAIVE_ACCOUNT = ''acc-naive-1''"

definition NAIVE_TWIN :: string where
  "NAIVE_TWIN = ''acc-naive-2''"

definition NAIVE_COMMANDS :: "(string \<times> int) list" where
  "NAIVE_COMMANDS =
     [(''deposit'', 1500), (''deposit'', 400), (''withdraw'', 300), (''withdraw'', 200), (''withdraw'', 700)]"

text \<open>\<^verbatim>\<open>getattr(naive, command)(conn, account_id, amount)\<close>\<close>

definition naive_getattr :: "string \<Rightarrow> string \<Rightarrow> int \<Rightarrow> (accounts_db, int) io" where
  "naive_getattr command = (if command = ''deposit'' then deposit
     else if command = ''withdraw'' then withdraw
     else (\<lambda>_ _. raise (OtherException ''AttributeError'' command)))"

record state_only_report =
  naive_balance :: int
  twin_balance :: int
  stored_rows :: "(string \<times> int) list"
  db_tables :: "string list"
  overdraft_refused :: bool

text \<open>\<^verbatim>\<open>ORDER BY account_id\<close> compares the ids as texts; \<^verbatim>\<open>sqlite_master\<close> lists the one table.\<close>

definition run_naive_es :: "(accounts_db, state_only_report) io" where
  "run_naive_es =
     bnd (modify (\<lambda>db. db\<lparr>accounts := None\<rparr>)) (\<lambda>_.
     bnd create_accounts_table (\<lambda>_.
     bnd (create_account NAIVE_ACCOUNT ''demo-user'') (\<lambda>_.
     bnd (for_each (\<lambda>(command, amount) _. bnd (naive_getattr command NAIVE_ACCOUNT amount) (\<lambda>_. ret ())) NAIVE_COMMANDS ()) (\<lambda>_.
     bnd (create_account NAIVE_TWIN ''demo-user'') (\<lambda>_.
     bnd (deposit NAIVE_TWIN 700) (\<lambda>_.
     bnd (get_balance NAIVE_ACCOUNT) (\<lambda>bal.
     bnd (get_balance NAIVE_TWIN) (\<lambda>twin.
     bnd (\<lambda>db. case accounts db of None \<Rightarrow> (Inl no_such_table, db)
        | Some rows \<Rightarrow> (Inr (map (\<lambda>(k, row). (k, ar_balance row)) (sort_key fst rows)), db)) (\<lambda>rows.
     bnd (\<lambda>db. (Inr (case accounts db of None \<Rightarrow> [] | Some _ \<Rightarrow> [''accounts'']), db)) (\<lambda>names.
     bnd (try_io (withdraw NAIVE_TWIN (bal + 1))) (\<lambda>res.
     bnd (case res of
         Inr _ \<Rightarrow> ret False
       | Inl exc \<Rightarrow> (case exc of InsufficientFundsError _ _ \<Rightarrow> ret True | _ \<Rightarrow> raise exc)) (\<lambda>refused.
     ret \<lparr>naive_balance = bal, twin_balance = twin, stored_rows = rows, db_tables = names,
       overdraft_refused = refused\<rparr>))))))))))))"

subsection \<open>What the demonstration shows\<close>

lemma replay_raws_decoded:
  "map (\<lambda>e. decode_event (snd e)) raws = map Inr evs \<Longrightarrow> replay_raws raws acc = replay_onto evs acc"
proof (induction raws arbitrary: evs acc)
  case (Cons m raws)
  then show ?case by (cases evs) (auto simp: bndr_def split: sum.splits)
qed simp

text \<open>Accepted commands, one after another, are the write side of the store.\<close>

fun accepted :: "account_command list \<Rightarrow> bank_account \<Rightarrow> bool" where
  "accepted [] acc \<longleftrightarrow> True"
| "accepted (c # cs) acc \<longleftrightarrow> (case run_command c acc of (Inl _, _) \<Rightarrow> False | (Inr _, acc') \<Rightarrow> accepted cs acc')"

fun persist_commands :: "'r redis \<Rightarrow> account_command list \<Rightarrow> bank_account \<Rightarrow>
    (('r, 'x) world_scheme, bank_account) io" where
  "persist_commands R [] live = ret live"
| "persist_commands R (c # cs) live = bnd (persist_command R (run_command c) live) (persist_commands R cs)"

lemma persist_command_run_command:
  "persist_command R (account_create owner) = persist_command R (run_command (Create owner))"
  "persist_command R (account_deposit n) = persist_command R (run_command (Deposit n))"
  "persist_command R (account_withdraw n) = persist_command R (run_command (Withdraw n))"
  by simp_all

lemma persist_command_refused:
  "run_command c acc = (Inl exc, acc') \<Longrightarrow> persist_command R (run_command c) acc w = (Inl exc, w)"
  by (simp add: persist_command_def command_then_def)

definition happy_commands :: "account_command list" where
  "happy_commands = [Create ''demo-user'', Deposit 1500, Deposit 400, Withdraw 300, Withdraw 200, Withdraw 700]"

definition happy_events :: "string \<Rightarrow> account_event list" where
  "happy_events aid = [AccountCreated aid ''demo-user'', MoneyDeposited aid (py_str_int 1500), MoneyDeposited aid (py_str_int 400),
     MoneyWithdrawn aid (py_str_int 300), MoneyWithdrawn aid (py_str_int 200), MoneyWithdrawn aid (py_str_int 700)]"

lemma happy_live:
  "account.live happy_commands (new_account aid) = (happy_events aid,
     \<lparr>account_id = aid, owner_id = ''demo-user'', balance = 700, version = 6, created = True\<rparr>)"
  "accepted happy_commands (new_account aid)" "owners_ok happy_commands"
proof -
  show "account.live happy_commands (new_account aid) = (happy_events aid,
     \<lparr>account_id = aid, owner_id = ''demo-user'', balance = 700, version = 6, created = True\<rparr>)"
    "accepted happy_commands (new_account aid)"
    by (simp_all add: happy_commands_def happy_events_def command_defs new_account_def)
  show "owners_ok happy_commands" by code_simp
qed

context redis_available
begin

lemma persist_commands_run:
  assumes "accepted cs acc"
  shows "\<exists>w'. persist_commands R cs acc w = (Inr (snd (account.live cs acc)), w') \<and>
    write_side R cs acc w = (Inr (snd (account.live cs acc)), w') \<and>
    (\<forall>s. s \<noteq> account_stream (account_id acc) \<longrightarrow> ks_entries (es_kv w') s = ks_entries (es_kv w) s)"
  using assms
proof (induction cs arbitrary: acc w)
  case (Cons c cs)
  then obtain ev acc' where c: "run_command c acc = (Inr ev, acc')" and ok: "accepted cs acc'"
    by (auto split: prod.splits sum.splits)
  have aid: "event_account ev = account_id acc" "account_id acc' = account_id acc"
    using c by (cases c; auto simp: command_defs split: if_splits)+
  obtain w1 where per: "es_persist R ev w = (Inr (), w1)" by (rule es_persist_up)
  have one: "persist_command R (run_command c) acc w = (Inr acc', w1)"
    by (simp add: persist_command_def command_then_def c bnd_Inr per)
  have "ks_entries (es_kv w1) s = ks_entries (es_kv w) s" if "s \<noteq> account_stream (account_id acc)" for s
    using es_persist_effect [OF per] that by (auto simp: aid)
  then show ?case using Cons.IH [OF ok, of w1] one per c by (auto simp: bnd_def aid split: prod.splits)
qed simp

text \<open>One account's part of the demonstration: after its commands, all three views of it agree.\<close>

lemma account_views_agree:
  assumes empty: "ks_entries (es_kv w) (account_stream aid) = []" and utf8: "valid_utf8 aid" "owners_ok cs"
    and ok: "accepted cs (new_account aid)" and acc: "acc = snd (account.live cs (new_account aid))"
    and v: "created acc" "version acc \<le> 100"
  shows "\<exists>evs w1 raws w2 s w3 es w4. account.live cs (new_account aid) = (evs, acc) \<and>
    persist_commands R cs (new_account aid) w = (Inr acc, w1) \<and>
    es_read R aid ''0'' w1 = (Inr raws, w2) \<and> replay_raws raws (new_account []) = Inr acc \<and>
    project R aid (version acc) (replicate (Suc n) (\<lambda>w. w)) w2 = (Inr s, w3) \<and> sm_balance s = balance acc \<and>
    redis_call (xrange R (account_stream aid)) w3 = (Inr es, w4) \<and> map (\<lambda>e. decode_event (snd e)) es = map Inr evs \<and>
    (\<forall>s. s \<noteq> account_stream aid \<longrightarrow> ks_entries (es_kv w4) s = ks_entries (es_kv w) s)"
proof -
  obtain w1 where w1: "persist_commands R cs (new_account aid) w = (Inr acc, w1)"
    "write_side R cs (new_account aid) w = (Inr acc, w1)"
    "\<forall>s. s \<noteq> account_stream aid \<longrightarrow> ks_entries (es_kv w1) s = ks_entries (es_kv w) s"
    using persist_commands_run [OF ok] by (auto simp: acc new_account_def)
  obtain evs where good: "good_stream (es_kv w1) aid evs" and live: "account.live cs (new_account aid) = (evs, acc)"
    and ver: "version acc = int (length evs)"
    by (rule write_side_good [OF w1(2) empty utf8])
  obtain raws w2 where rd: "es_read R aid ''0'' w1 = (Inr raws, w2)" by (rule es_read_up)
  then have k2: "es_kv w2 = es_kv w1" using es_read_effect [OF rd] by simp
  have "replay_raws raws (new_account []) = Inr acc"
    using read_replays [OF empty utf8 w1(2) v rd] by (auto simp: replay_raws_decoded replay_def)
  moreover obtain s w3 where pr: "project R aid (version acc) (replicate (Suc n) (\<lambda>w. w)) w2 = (Inr s, w3)"
    "sm_balance s = balance acc" "es_kv w3 = es_kv w2"
    using project_follows [of w2 aid evs cs acc "Suc n"] good live ver v(2) k2 by auto
  moreover obtain es r4 where es: "xrange R (account_stream aid) (srv w3) = (Inr es, r4)" using xrange_up by blast
  moreover have "es_kv (w3\<lparr>srv := r4\<rparr>) = es_kv w1" "map (\<lambda>e. decode_event (snd e)) es = map Inr evs"
    using xrange_law [OF es] pr(3) k2 good by (simp_all add: good_stream_def history_def)
  moreover have "redis_call (xrange R (account_stream aid)) w3 = (Inr es, w3\<lparr>srv := r4\<rparr>)"
    by (simp add: redis_call_def es)
  ultimately show ?thesis using live w1(1,3) rd by (metis (no_types, lifting))
qed

lemma run_happy_path_run:
  assumes empty: "ks_entries (es_kv w) (account_stream aid) = []" and utf8: "valid_utf8 aid"
  shows "\<exists>es w'. run_happy_path R aid (replicate (Suc n) (\<lambda>w. w)) w =
      (Inr \<lparr>live_balance = 700, replayed_balance = 700, summary_balance = 700, all_equal = True, stream_listing = es\<rparr>, w') \<and>
    map (\<lambda>e. decode_event (snd e)) es = map Inr (happy_events aid) \<and>
    ks_entries (es_kv w') (account_stream aid) = [] \<and>
    (\<forall>s. s \<noteq> account_stream aid \<longrightarrow> ks_entries (es_kv w') s = ks_entries (es_kv w) s)"
proof -
  define acc where "acc = \<lparr>account_id = aid, owner_id = ''demo-user'', balance = 700, version = 6, created = True\<rparr>"
  have acc: "acc = snd (account.live happy_commands (new_account aid))" "created acc" "version acc \<le> 100" "balance acc = 700"
    by (simp_all add: happy_live acc_def)
  obtain evs w1 raws w2 s w3 es w4 where r: "account.live happy_commands (new_account aid) = (evs, acc)"
    "persist_commands R happy_commands (new_account aid) w = (Inr acc, w1)"
    "es_read R aid ''0'' w1 = (Inr raws, w2)" "replay_raws raws (new_account []) = Inr acc"
    "project R aid (version acc) (replicate (Suc n) (\<lambda>w. w)) w2 = (Inr s, w3)" "sm_balance s = balance acc"
    "redis_call (xrange R (account_stream aid)) w3 = (Inr es, w4)" "map (\<lambda>e. decode_event (snd e)) es = map Inr evs"
    "\<forall>s. s \<noteq> account_stream aid \<longrightarrow> ks_entries (es_kv w4) s = ks_entries (es_kv w) s"
    using account_views_agree [OF empty utf8 happy_live(3,2) acc(1-3), of n] by blast
  obtain d w5 where del: "delete_streams R [account_stream aid] w4 = (Inr d, w5)" by (rule delete_streams_up)
  have "run_happy_path R aid (replicate (Suc n) (\<lambda>w. w)) w = bnd (persist_commands R happy_commands (new_account aid)) (\<lambda>live.
     bnd (es_read R aid ''0'') (\<lambda>raw_events.
     bnd (liftr (replay_raws raw_events (new_account []))) (\<lambda>replayed.
     bnd (project R aid (version live) (replicate (Suc n) (\<lambda>w. w))) (\<lambda>summary.
     bnd (redis_call (xrange R (account_stream aid))) (\<lambda>msgs.
     bnd (delete_streams R [account_stream aid]) (\<lambda>_.
     ret \<lparr>live_balance = balance live, replayed_balance = balance replayed, summary_balance = sm_balance summary,
       all_equal = (balance live = balance replayed \<and> balance replayed = sm_balance summary),
       stream_listing = msgs\<rparr>)))))) w"
    unfolding run_happy_path_def happy_commands_def persist_command_run_command
    by (simp only: persist_commands.simps bnd_assoc bnd_ret)
  then have "run_happy_path R aid (replicate (Suc n) (\<lambda>w. w)) w = (Inr \<lparr>live_balance = 700, replayed_balance = 700,
      summary_balance = 700, all_equal = True, stream_listing = es\<rparr>, w5)"
    using r(2-7) del acc(4) by (simp add: bnd_Inr del: replicate_Suc)
  moreover have "evs = happy_events aid" using r(1) by (simp add: happy_live)
  ultimately show ?thesis using r(8,9) delete_streams_effect [OF del] by auto
qed

lemma run_failure_path_run:
  assumes empty: "ks_entries (es_kv w) (account_stream aid) = []" and utf8: "valid_utf8 aid"
  shows "\<exists>w'. run_failure_path R aid w =
      (Inr \<lparr>length_before = 2, refusal = Some (InsufficientFundsError 101 100), length_after = 2\<rparr>, w')"
proof -
  define cs where "cs = [Create ''demo-user'', Deposit 100]"
  define acc where "acc = \<lparr>account_id = aid, owner_id = ''demo-user'', balance = 100, version = 2, created = True\<rparr>"
  have cs: "accepted cs (new_account aid)" "snd (account.live cs (new_account aid)) = acc" "owners_ok cs"
    by (simp_all add: cs_def acc_def command_defs new_account_def) code_simp
  obtain w1 where w1: "persist_commands R cs (new_account aid) w = (Inr acc, w1)"
    "write_side R cs (new_account aid) w = (Inr acc, w1)"
    using persist_commands_run [OF cs(1), of w] cs(2) by auto
  obtain evs where good: "good_stream (es_kv w1) aid evs" and "version acc = int (length evs)"
    by (rule write_side_good [OF w1(2) empty utf8 cs(3)])
  then have len: "length (ks_entries (es_kv w1) (account_stream aid)) = 2"
    using map_eq_imp_length_eq [of "\<lambda>e. decode_event (snd e)" "ks_entries (es_kv w1) (account_stream aid)" Inr evs]
    by (simp add: good_stream_def history_def acc_def)
  obtain n r2 where x: "xlen R (account_stream aid) (srv w1) = (Inr n, r2)" using xlen_up by blast
  define w2 where "w2 = w1\<lparr>srv := r2\<rparr>"
  have n: "n = 2" "es_length R aid w1 = (Inr n, w2)" "es_kv w2 = es_kv w1"
    using xlen_law [OF x] len x by (simp_all add: es_length_def redis_call_def w2_def)
  obtain m r3 where y: "xlen R (account_stream aid) (srv w2) = (Inr m, r3)" using xlen_up by blast
  have m: "m = 2" "es_length R aid w2 = (Inr m, w2\<lparr>srv := r3\<rparr>)"
    using xlen_law [OF y] len n(3) y by (simp_all add: es_length_def redis_call_def)
  obtain d w4 where del: "delete_streams R [account_stream aid] (w2\<lparr>srv := r3\<rparr>) = (Inr d, w4)" by (rule delete_streams_up)
  have over: "persist_command R (account_withdraw 101) acc w2 = (Inl (InsufficientFundsError 101 100), w2)"
    unfolding persist_command_run_command by (rule persist_command_refused) (simp add: command_defs acc_def)
  have "run_failure_path R aid w = bnd (persist_commands R cs (new_account aid)) (\<lambda>live.
     bnd (es_length R aid) (\<lambda>before.
     bnd (try_io (persist_command R (account_withdraw 101) live)) (\<lambda>res.
     bnd (case res of
         Inr _ \<Rightarrow> ret None
       | Inl exc \<Rightarrow> (case exc of InsufficientFundsError _ _ \<Rightarrow> ret (Some exc) | _ \<Rightarrow> raise exc)) (\<lambda>refused.
     bnd (es_length R aid) (\<lambda>after.
     bnd (delete_streams R [account_stream aid]) (\<lambda>_.
     ret \<lparr>length_before = before, refusal = refused, length_after = after\<rparr>)))))) w"
    unfolding run_failure_path_def cs_def persist_command_run_command(1,2)
    by (simp only: persist_commands.simps bnd_assoc bnd_ret)
  then have "run_failure_path R aid w =
      (Inr \<lparr>length_before = 2, refusal = Some (InsufficientFundsError 101 100), length_after = 2\<rparr>, w4)"
    using w1(1) n m del over by (simp add: bnd_Inr try_io_def)
  then show ?thesis by blast
qed

lemma es_demo_main_run:
  assumes "ks_entries (es_kv w) (account_stream (u 0)) = []" "ks_entries (es_kv w) (account_stream (u 1)) = []"
    and "valid_utf8 (u 0)" "valid_utf8 (u 1)"
  shows "\<exists>es w'. es_demo_main R u (replicate (Suc n) (\<lambda>w. w)) w =
      (Inr (\<lparr>live_balance = 700, replayed_balance = 700, summary_balance = 700, all_equal = True, stream_listing = es\<rparr>,
        \<lparr>length_before = 2, refusal = Some (InsufficientFundsError 101 100), length_after = 2\<rparr>), w') \<and>
    map (\<lambda>e. decode_event (snd e)) es = map Inr (happy_events (u 0))"
proof -
  obtain es w1 where w1: "run_happy_path R (u 0) (replicate (Suc n) (\<lambda>w. w)) w =
      (Inr \<lparr>live_balance = 700, replayed_balance = 700, summary_balance = 700, all_equal = True, stream_listing = es\<rparr>, w1)"
    "map (\<lambda>e. decode_event (snd e)) es = map Inr (happy_events (u 0))"
    "ks_entries (es_kv w1) (account_stream (u 0)) = []"
    "\<forall>s. s \<noteq> account_stream (u 0) \<longrightarrow> ks_entries (es_kv w1) s = ks_entries (es_kv w) s"
    using run_happy_path_run [OF assms(1,3), of n] by blast
  have "ks_entries (es_kv w1) (account_stream (u 1)) = []"
    using w1(3,4) assms(2) by (cases "account_stream (u 1) = account_stream (u 0)") auto
  then obtain w2 where "run_failure_path R (u 1) w1 =
      (Inr \<lparr>length_before = 2, refusal = Some (InsufficientFundsError 101 100), length_after = 2\<rparr>, w2)"
    using run_failure_path_run assms(4) by blast
  then show ?thesis using w1(1,2) by (auto simp: es_demo_main_def bnd_Inr simp del: replicate_Suc)
qed

end

lemma run_naive_es_run:
  "fst (run_naive_es db) = Inr \<lparr>naive_balance = 700, twin_balance = 700,
     stored_rows = [(NAIVE_ACCOUNT, 700), (NAIVE_TWIN, 700)], db_tables = [''accounts''], overdraft_refused = True\<rparr>"
  by (simp add: run_naive_es_def NAIVE_ACCOUNT_def NAIVE_TWIN_def NAIVE_COMMANDS_def naive_getattr_def
      create_accounts_table_def create_account_def deposit_def withdraw_def get_balance_def overwrite_balance_def
      sqlite_int_def bnd_def try_io_def)

end
