(* ===== verification/Scatter_Demo.thy ===== *)
theory Scatter_Demo
  imports Scatter_Search Chaos
begin

section \<open>The flight-search demonstration\<close>

text \<open>
  \<^verbatim>\<open>scripts/run_scatter_gather_pattern.py\<close>: five airlines, of which one answers long after the deadline and
  one never, searched by both distribution strategies; and the same airlines asked one after another, with
  the two faults injected. Instants are microseconds. The airlines' tasks are the agenda of the search
  (\<open>airline_steps\<close>): whether an airline answers in time is decided by the clock. What is left of the agenda runs
  when the script awaits the tasks at the end. The correlation ids (\<^verbatim>\<open>uuid4\<close>) are parameters; what the script
  prints is returned.
\<close>

definition DEPART :: int where
  "DEPART = 1785576600000000"

definition AIRLINES :: "(string, int) dict" where
  "AIRLINES = [(''BudgetJet'', 18900), (''SkyHigh'', 24500), (''Nimbus'', 21200)]"

text \<open>\<^verbatim>\<open>str.upper\<close> on ASCII text.\<close>

definition upper_char :: "char \<Rightarrow> char" where
  "upper_char c = (if 97 \<le> code c \<and> code c \<le> 122 then char_of (code c - 32) else c)"

definition make_lookup :: "string \<Rightarrow> int \<Rightarrow> quote_lookup" where
  "make_lookup name price request = Inr \<lparr>fq_correlation_id = rq_correlation_id request, airline = name,
     flight_number = map upper_char (take 2 name) @ py_str_int (price div 100), price_cents = price, depart_at = DEPART\<rparr>"

definition ghost_lookup :: quote_lookup where
  "ghost_lookup request = Inl (OtherException ''RuntimeError'' ''inventory system offline'')"

definition build_services :: "(string \<Rightarrow> string) \<Rightarrow> ('x topic_world_scheme, airline_service list) io" where
  "build_services request_topic_for =
     bnd (for_each (\<lambda>(name, price) services.
       bnd (new_airline name (make_lookup name price) (request_topic_for name) RESPONSE_TOPIC 0) (\<lambda>a.
       ret (services @ [a]))) AIRLINES []) (\<lambda>services.
     bnd (new_airline ''SlowAir'' (make_lookup ''SlowAir'' 15000) (request_topic_for ''SlowAir'') RESPONSE_TOPIC 500000) (\<lambda>slow.
     bnd (new_airline ''GhostAir'' ghost_lookup (request_topic_for ''GhostAir'') RESPONSE_TOPIC 0) (\<lambda>ghost.
     ret (services @ [slow, ghost]))))"

definition flight_search :: "string \<Rightarrow> string \<Rightarrow> search_request" where
  "flight_search cid created_at = \<lparr>rq_correlation_id = cid, origin = ''New York (JFK)'',
     destination = ''Los Angeles (LAX)'', departure_date = ''2026-08-01'', passengers = 2, rq_created_at = created_at\<rparr>"

fun quotes_in :: "sg_message list \<Rightarrow> flight_quote list" where
  "quotes_in [] = []"
| "quotes_in (Quote q # ms) = q # quotes_in ms"
| "quotes_in (Request r # ms) = quotes_in ms"

definition new_topic_broker :: "('x topic_world_scheme, unit) io" where
  "new_topic_broker = modify (\<lambda>w. w\<lparr>subs := []\<rparr>)"

definition demo_coordinator_of :: coordinator where
  "demo_coordinator_of = \<lparr>response_topic = RESPONSE_TOPIC, broadcast_topic = BROADCAST_REQUEST_TOPIC\<rparr>"

definition responses_published :: "('x topic_world_scheme, int) io" where
  "responses_published w = (Inr (counter (reg w) PATTERN_ID ''responses_published''), w)"

text \<open>
  The result: the quotes sorted by price, the cheapest, and how many answers were published after the
  search. The tasks end in the \<^verbatim>\<open>finally\<close> clause, so the rest of the agenda runs whatever the search did.
\<close>

definition sg_run_demo :: "string \<Rightarrow> distribution_strategy \<Rightarrow> (string \<Rightarrow> string) \<Rightarrow> string list option \<Rightarrow>
    ('x topic_world_scheme, flight_quote list \<times> flight_quote option \<times> int) io" where
  "sg_run_demo cid strategy request_topic_for recipients =
     bnd new_topic_broker (\<lambda>_.
     bnd (build_services request_topic_for) (\<lambda>services.
     bnd (\<lambda>w. (Inr (flight_search cid (wall w)), w)) (\<lambda>request.
     bnd (modify (\<lambda>w. w\<lparr>stop_set := False\<rparr>)) (\<lambda>_.
     bnd (\<lambda>w. (Inr (airline_steps (loop_time w) services), w)) (\<lambda>tasks.
     bnd (try_io (scatter_gather demo_coordinator_of request strategy 5 200000 recipients tasks)) (\<lambda>res.
     bnd (modify (\<lambda>w. w\<lparr>stop_set := True\<rparr>)) (\<lambda>_.
     bnd responses_published (\<lambda>before.
     bnd (modify (run_agenda (case res of Inl _ \<Rightarrow> tasks | Inr (_, rest) \<Rightarrow> rest))) (\<lambda>_.
     bnd responses_published (\<lambda>after.
     case res of
       Inl e \<Rightarrow> raise e
     | Inr (ms, _) \<Rightarrow> let quotes = quotes_in ms in ret (sort_by_price quotes, cheapest quotes, after - before)))))))))))"

definition sg_demo_main :: "string \<Rightarrow> string \<Rightarrow> ('x topic_world_scheme,
    (flight_quote list \<times> flight_quote option \<times> int) \<times> (flight_quote list \<times> flight_quote option \<times> int)) io" where
  "sg_demo_main cid1 cid2 =
     bnd (sg_run_demo cid1 PUBLISH_SUBSCRIBE (\<lambda>_. BROADCAST_REQUEST_TOPIC) None) (\<lambda>broadcast.
     bnd (sg_run_demo cid2 RECIPIENT_LIST recipient_request_topic (Some (map fst AIRLINES @ [''SlowAir'', ''GhostAir'']))) (\<lambda>listed.
     ret (broadcast, listed)))"

subsection \<open>The airlines of the demonstration\<close>

type_synonym airline_spec = "string \<times> quote_lookup \<times> int"

definition five_specs :: "airline_spec list" where
  "five_specs = [(''BudgetJet'', make_lookup ''BudgetJet'' 18900, 0), (''SkyHigh'', make_lookup ''SkyHigh'' 24500, 0),
     (''Nimbus'', make_lookup ''Nimbus'' 21200, 0), (''SlowAir'', make_lookup ''SlowAir'' 15000, 500000),
     (''GhostAir'', ghost_lookup, 0)]"

fun services_from :: "nat \<Rightarrow> airline_spec list \<Rightarrow> airline_service list" where
  "services_from n [] = []"
| "services_from n ((name, lk, lat) # specs) = \<lparr>service_name = name, lookup = lk, service_response_topic = RESPONSE_TOPIC,
     latency = lat, service_queue = n\<rparr> # services_from (n + 1) specs"

definition add_airline :: "(string \<Rightarrow> string) \<Rightarrow> airline_spec \<Rightarrow> airline_service list \<Rightarrow>
    ('x topic_world_scheme, airline_service list) io" where
  "add_airline f = (\<lambda>(name, lk, lat) services. bnd (new_airline name lk (f name) RESPONSE_TOPIC lat) (\<lambda>a. ret (services @ [a])))"

lemma add_airline_run:
  obtains w' where "add_airline f (name, lk, lat) services w = (Inr (services @ services_from (next_queue w) [(name, lk, lat)]), w')"
    and "next_queue w' = next_queue w + 1" and "loop_time w' = loop_time w" and "queues w' = (queues w)(next_queue w := [])"
    and "\<And>t. subscribers t w' = subscribers t w @ (if f name = t then [next_queue w] else [])"
proof (rule that)
  let ?w = "w\<lparr>next_queue := next_queue w + 1, queues := (queues w)(next_queue w := []),
    subs := AList.update (f name) (dict_get (subs w) (f name) [] @ [next_queue w]) (subs w)\<rparr>"
  show "add_airline f (name, lk, lat) services w = (Inr (services @ services_from (next_queue w) [(name, lk, lat)]), ?w)"
    by (simp add: add_airline_def new_airline_def bnd_def subscribe_def Let_def)
  show "subscribers t ?w = subscribers t w @ (if f name = t then [next_queue w] else [])" for t
    by (simp add: subscribers_def dict_get_def)
qed simp_all

lemma add_airlines_run:
  "\<exists>w'. for_each (add_airline f) specs services w = (Inr (services @ services_from (next_queue w) specs), w') \<and>
    next_queue w' = next_queue w + length specs \<and> loop_time w' = loop_time w \<and>
    (\<forall>q. queues w' q = (if next_queue w \<le> q \<and> q < next_queue w + length specs then [] else queues w q)) \<and>
    (\<forall>t. subscribers t w' = subscribers t w @
      map service_queue (filter (\<lambda>a. f (service_name a) = t) (services_from (next_queue w) specs)))"
proof (induction specs arbitrary: services w)
  case (Cons spec specs)
  obtain name lk lat where spec: "spec = (name, lk, lat)" by (cases spec)
  obtain w1 where w1: "add_airline f spec services w = (Inr (services @ services_from (next_queue w) [spec]), w1)"
    "next_queue w1 = next_queue w + 1" "loop_time w1 = loop_time w" "queues w1 = (queues w)(next_queue w := [])"
    "\<And>t. subscribers t w1 = subscribers t w @ (if f name = t then [next_queue w] else [])"
    using add_airline_run [of f name lk lat services w] unfolding spec by blast
  obtain w' where w': "for_each (add_airline f) specs (services @ services_from (next_queue w) [spec]) w1 =
      (Inr ((services @ services_from (next_queue w) [spec]) @ services_from (next_queue w1) specs), w')"
    "next_queue w' = next_queue w1 + length specs" "loop_time w' = loop_time w1"
    "\<forall>q. queues w' q = (if next_queue w1 \<le> q \<and> q < next_queue w1 + length specs then [] else queues w1 q)"
    "\<forall>t. subscribers t w' = subscribers t w1 @
      map service_queue (filter (\<lambda>a. f (service_name a) = t) (services_from (next_queue w1) specs))"
    using Cons.IH by blast
  have "for_each (add_airline f) (spec # specs) services w = (Inr (services @ services_from (next_queue w) (spec # specs)), w')"
    using w'(1) w1(1,2) by (simp add: bnd_def spec)
  then show ?case using w'(2-5) w1(2-5) by (auto simp: spec)
qed auto

lemma build_services_run:
  fixes w :: "'a topic_world_scheme"
  assumes none: "\<And>t. subscribers t w = []"
  obtains w' where "build_services f w = (Inr (services_from (next_queue w) five_specs), w')"
    and "next_queue w' = next_queue w + 5" and "loop_time w' = loop_time w" and "\<And>q. next_queue w \<le> q \<Longrightarrow> q < next_queue w + 5 \<Longrightarrow> queues w' q = []"
    and "\<And>t. subscribers t w' = map service_queue (filter (\<lambda>a. f (service_name a) = t) (services_from (next_queue w) five_specs))"
proof -
  have "bnd (Pair (Inr x)) k = k x" for x :: "airline_service list" and k :: "airline_service list \<Rightarrow> ('a topic_world_scheme, airline_service list) io"
    by (simp add: bnd_def fun_eq_iff)
  moreover have "(ret services :: ('a topic_world_scheme, airline_service list) io) = Pair (Inr services)" for services
    by (simp add: fun_eq_iff)
  ultimately have "build_services f w = for_each (add_airline f) five_specs [] w"
    by (simp add: build_services_def AIRLINES_def five_specs_def add_airline_def bnd_assoc)
  then show ?thesis using that add_airlines_run [of f five_specs "[]" w] none by (auto simp: five_specs_def)
qed

subsection \<open>Both searches\<close>

lemma services_from_queues: "map service_queue (services_from n specs) = [n..<n + length specs]"
  by (induction n specs rule: services_from.induct) (simp_all add: upt_rec)

definition found :: "string \<Rightarrow> flight_quote list" where
  "found cid = map (\<lambda>(name, code, price). \<lparr>fq_correlation_id = cid, airline = name, flight_number = code,
     price_cents = price, depart_at = DEPART\<rparr>)
     [(''BudgetJet'', ''BU189'', 18900), (''Nimbus'', ''NI212'', 21200), (''SkyHigh'', ''SK245'', 24500)]"

lemma flight_numbers:
  "map upper_char (take 2 ''BudgetJet'') @ py_str_int (18900 div 100) = ''BU189''"
  "map upper_char (take 2 ''SkyHigh'') @ py_str_int (24500 div 100) = ''SK245''"
  "map upper_char (take 2 ''Nimbus'') @ py_str_int (21200 div 100) = ''NI212''"
  by (simp_all add: py_str_int_def nat_digits.simps) (code_simp)+

text \<open>What comes before 200 ms, and what is then still to come.\<close>

lemma prompt_answers:
  "concat (map (\<lambda>a. answers a (flight_search cid t)) (in_time 200000 (services_from n five_specs))) =
    map Quote [found cid ! 0, found cid ! 2, found cid ! 1]"
  by (simp add: five_specs_def in_time_def answers_def make_lookup_def ghost_lookup_def found_def flight_search_def
      flight_numbers [simplified])

lemma late_halves:
  "filter (\<lambda>h. now + 200000 \<le> half_due now h) (half_turns (services_from n five_specs)) = [Respond (services_from n five_specs ! 3)]"
  by (simp add: five_specs_def half_turns_def)

lemma halves_Respond: "halves rs ss = [Respond a] \<longleftrightarrow> rs = [] \<and> ss = [a]"
  by (cases rs; cases ss) (auto simp: halves_def)

lemma sg_run_demo_run:
  assumes "strategy = PUBLISH_SUBSCRIBE \<and> (\<forall>name. f name = BROADCAST_REQUEST_TOPIC) \<or>
    strategy = RECIPIENT_LIST \<and> f = recipient_request_topic \<and> recipients = Some (map fst five_specs)"
  shows "\<exists>w'. sg_run_demo cid strategy f recipients w = (Inr (found cid, Some (found cid ! 0), 1), w') \<and>
    loop_time w' = loop_time w + 500000"
proof -
  define w0 where "w0 = w\<lparr>subs := []\<rparr>"
  define services where "services = services_from (next_queue w0) five_specs"
  have none: "subscribers t w0 = []" for t by (simp add: w0_def subscribers_def dict_get_def)
  obtain w1 where w1: "build_services f w0 = (Inr services, w1)" "next_queue w1 = next_queue w0 + 5" "loop_time w1 = loop_time w0"
    "\<And>q. next_queue w0 \<le> q \<Longrightarrow> q < next_queue w0 + 5 \<Longrightarrow> queues w1 q = []"
    "\<And>t. subscribers t w1 = map service_queue (filter (\<lambda>a. f (service_name a) = t) services)"
    unfolding services_def using build_services_run [OF none, of f] by metis
  define ws where "ws = w1\<lparr>stop_set := False\<rparr>"
  have sub: "subscribers t ws = map service_queue (filter (\<lambda>a. f (service_name a) = t) services)" for t by (simp add: ws_def w1(5))
  let ?co = demo_coordinator_of and ?r = "flight_search cid (wall w1)"
  have silent: "f name \<noteq> RESPONSE_TOPIC" for name
    using assms by (auto simp: BROADCAST_REQUEST_TOPIC_def RESPONSE_TOPIC_def recipient_request_topic_def)
  have ready: "services_ready ?co services ws"
    using silent w1(2,4) by (simp add: services_ready_def demo_coordinator_of_def sub services_def five_specs_def) (simp add: ws_def)
  have to: "addressed ?co strategy recipients services ws"
    using assms silent
    by (auto simp: addressed_def demo_coordinator_of_def sub services_def five_specs_def RESPONSE_TOPIC_def
        BROADCAST_REQUEST_TOPIC_def recipient_request_topic_def)
  obtain c rs ss w2 where search: "scatter_gather ?co ?r strategy 5 200000 recipients (airline_steps (loop_time ws) services) ws =
      (Inr (c, timed_halves (loop_time ws) (halves rs ss)), w2)"
    and c: "c = take (nat 5) (filter (\<lambda>m. correlation_of m = rq_correlation_id ?r) (concat (map (\<lambda>a. answers a ?r) (in_time 200000 services))))"
    and s2: "subscribers (response_topic ?co) w2 = subscribers (response_topic ?co) ws" and tc: "to_come (response_topic ?co) ?r rs ss w2"
    and left: "if int (length c) < 5 then loop_time w2 = loop_time ws + 200000 \<and>
        halves rs ss = filter (\<lambda>h. loop_time ws + 200000 \<le> half_due (loop_time ws) h) (half_turns services)
      else loop_time w2 < loop_time ws + 200000"
    by (rule search_settles [OF to ready, of 200000 ?r 5]) simp_all
  have c': "c = map Quote [found cid ! 0, found cid ! 2, found cid ! 1]"
    unfolding c services_def prompt_answers by (simp add: found_def flight_search_def)
  define slow where "slow = services ! 3"
  have rest: "rs = []" "ss = [slow]" "loop_time w2 = loop_time ws + 200000"
    using left unfolding services_def late_halves slow_def by (auto simp: c' halves_Respond)
  define w3 where "w3 = run_agenda (timed_halves (loop_time ws) (halves [] [slow])) (w2\<lparr>stop_set := True\<rparr>)"
  have slow: "length (answers slow ?r) = 1" "latency slow = 500000"
    by (simp_all add: slow_def services_def five_specs_def answers_def make_lookup_def)
  have "to_come (response_topic ?co) ?r [] [slow] (w2\<lparr>stop_set := True, loop_time := loop_time ws + 500000\<rparr>)"
    using tc unfolding rest by (simp add: to_come_def)
  from conjunct1 [OF Respond_run [OF this]] have "half_done (response_topic ?co) slow (answers slow ?r) (w2\<lparr>stop_set := True, loop_time := loop_time ws + 500000\<rparr>) w3"
    unfolding w3_def by (simp add: timed_halves_def slow(2) rest(3))
  then have w3: "counter (reg w3) PATTERN_ID ''responses_published'' = counter (reg w2) PATTERN_ID ''responses_published'' + 1"
    "loop_time w3 = loop_time ws + 500000"
    using slow(1) by (simp_all add: half_done_def)
  have time: "loop_time ws = loop_time w1" by (simp add: ws_def)
  have "sg_run_demo cid strategy f recipients w = (Inr (found cid, Some (found cid ! 0), 1), w3)"
    using w1(1) search w3(1) c' time
    by (simp add: sg_run_demo_def new_topic_broker_def bnd_def w0_def ws_def [symmetric] try_io_def responses_published_def rest
        w3_def found_def sort_by_price_def cheapest_def)
  moreover have "loop_time w3 = loop_time w + 500000" using w3(2) w1(3) by (simp add: ws_def w0_def)
  ultimately show ?thesis by blast
qed

lemma sg_demo_main_run:
  "\<exists>w'. sg_demo_main cid1 cid2 w = (Inr ((found cid1, Some (found cid1 ! 0), 1), (found cid2, Some (found cid2 ! 0), 1)), w') \<and>
    loop_time w' = loop_time w + 2 * 500000"
proof -
  obtain w1 where 1: "sg_run_demo cid1 PUBLISH_SUBSCRIBE (\<lambda>_. BROADCAST_REQUEST_TOPIC) None w =
      (Inr (found cid1, Some (found cid1 ! 0), 1), w1)" "loop_time w1 = loop_time w + 500000"
    using sg_run_demo_run [of PUBLISH_SUBSCRIBE "\<lambda>_. BROADCAST_REQUEST_TOPIC"] by blast
  have names: "map fst AIRLINES @ [''SlowAir'', ''GhostAir''] = map fst five_specs" by (simp add: AIRLINES_def five_specs_def)
  obtain w2 where 2: "sg_run_demo cid2 RECIPIENT_LIST recipient_request_topic (Some (map fst five_specs)) w1 =
      (Inr (found cid2, Some (found cid2 ! 0), 1), w2)" "loop_time w2 = loop_time w1 + 500000"
    using sg_run_demo_run [of RECIPIENT_LIST recipient_request_topic "Some (map fst five_specs)"] by blast
  show ?thesis unfolding sg_demo_main_def names using 1 2 by (simp add: bnd_def)
qed

subsection \<open>The sequential baseline\<close>

text \<open>
  The same airlines asked one \<^verbatim>\<open>await\<close> at a time. The clock advances with what is slept; \<open>asked\<close> is the list
  the lookups record themselves in. A deadline imposed by the caller (\<^verbatim>\<open>asyncio.wait_for\<close>) cancels the lookup
  in flight at its sleep: what it did before stays, and the quotes gathered so far are lost with it.
\<close>

record search_world = chaos_world +
  asked :: "string list"

definition NAIVE_AIRLINE_LATENCY :: pyfloat where
  "NAIVE_AIRLINE_LATENCY = round53 (5 / 100)"

definition NAIVE_SLOW_LATENCY :: pyfloat where
  "NAIVE_SLOW_LATENCY = round53 (5 / 10)"

definition NAIVE_DEADLINE :: pyfloat where
  "NAIVE_DEADLINE = round53 (2 / 10)"

fun seconds_of :: "pyfloat \<Rightarrow> rat" where
  "seconds_of (Finite q) = q"
| "seconds_of _ = 0"

definition perf_counter :: "'x chaos_world_scheme \<Rightarrow> rat" where
  "perf_counter w = sum_list (map seconds_of (slept w))"

type_synonym async_lookup = "search_request \<Rightarrow> (search_world, flight_quote) io"

definition make_async_lookup :: "string \<Rightarrow> int \<Rightarrow> async_lookup" where
  "make_async_lookup name price request =
     bnd (sleep NAIVE_AIRLINE_LATENCY) (\<lambda>_. liftr (make_lookup name price request))"

definition recording :: "string \<Rightarrow> async_lookup \<Rightarrow> async_lookup" where
  "recording name lk request = bnd (modify (\<lambda>w. w\<lparr>asked := asked w @ [name]\<rparr>)) (\<lambda>_. lk request)"

fun gather_until :: "rat \<Rightarrow> search_request \<Rightarrow> async_lookup list \<Rightarrow> flight_quote list \<Rightarrow> (search_world, flight_quote list) io" where
  "gather_until deadline request [] quotes w = (Inr quotes, w)"
| "gather_until deadline request (lk # lookups) quotes w = (case lk request w of (res, w') \<Rightarrow>
     if perf_counter w' < deadline then (case res of
         Inl e \<Rightarrow> (Inl e, w')
       | Inr quote \<Rightarrow> gather_until deadline request lookups (quotes @ [quote]) w')
     else (Inl TimeoutError, w'\<lparr>slept := slept w @ [Finite (deadline - perf_counter w)]\<rparr>))"

definition healthy_airlines :: "(string, int) dict \<Rightarrow> async_lookup list" where
  "healthy_airlines airlines = map (\<lambda>(name, price). recording name (make_async_lookup name price)) airlines"

definition slow_air :: "float_text \<Rightarrow> (int \<Rightarrow> nat \<Rightarrow> rat) \<Rightarrow> (search_world, async_lookup) io" where
  "slow_air fl gen =
     bnd (slow_consumer fl gen NAIVE_SLOW_LATENCY (Some (Finite 1)) None DEFAULT_SEED None) (\<lambda>i.
     ret (recording ''SlowAir'' (chaos_call i (make_async_lookup ''SlowAir'' 15000))))"

definition ghost_air :: "float_text \<Rightarrow> (int \<Rightarrow> nat \<Rightarrow> rat) \<Rightarrow> (search_world, async_lookup) io" where
  "ghost_air fl gen =
     bnd (broker_unavailable fl gen (Some (Finite 1)) None DEFAULT_SEED None) (\<lambda>i.
     ret (recording ''GhostAir'' (chaos_call i (make_async_lookup ''GhostAir'' 0))))"

definition forget_asked :: "(search_world, unit) io" where
  "forget_asked = modify (\<lambda>w. w\<lparr>asked := []\<rparr>)"

definition timed_search :: "search_request \<Rightarrow> async_lookup list \<Rightarrow> (search_world, flight_quote list \<times> rat) io" where
  "timed_search request lookups w =
     bnd (gather_quotes_sequentially request lookups []) (\<lambda>quotes w'. (Inr (quotes, perf_counter w' - perf_counter w), w')) w"

text \<open>The three parts of \<^verbatim>\<open>run_naive\<close>.\<close>

definition naive_healthy :: "search_request \<Rightarrow> (search_world, flight_quote list \<times> rat) io" where
  "naive_healthy request = bnd forget_asked (\<lambda>_. timed_search request (healthy_airlines AIRLINES))"

definition naive_slow :: "float_text \<Rightarrow> (int \<Rightarrow> nat \<Rightarrow> rat) \<Rightarrow> search_request \<Rightarrow> (search_world, flight_quote list \<times> rat) io" where
  "naive_slow fl gen request =
     bnd forget_asked (\<lambda>_.
     bnd (slow_air fl gen) (\<lambda>slow.
     timed_search request (healthy_airlines AIRLINES @ [slow])))"

definition naive_deadline :: "float_text \<Rightarrow> (int \<Rightarrow> nat \<Rightarrow> rat) \<Rightarrow> search_request \<Rightarrow> (search_world, flight_quote list \<times> int) io" where
  "naive_deadline fl gen request =
     bnd forget_asked (\<lambda>_.
     bnd (slow_air fl gen) (\<lambda>slow.
     bnd (try_io (\<lambda>w. gather_until (perf_counter w + seconds_of NAIVE_DEADLINE) request (healthy_airlines AIRLINES @ [slow]) [] w)) (\<lambda>res.
     bnd (case res of Inr quotes \<Rightarrow> ret quotes | Inl e \<Rightarrow> if e = TimeoutError then ret [] else raise e) (\<lambda>salvaged w.
     (Inr (salvaged, int (length (asked w)) - 1), w)))))"

definition naive_ghost :: "float_text \<Rightarrow> (int \<Rightarrow> nat \<Rightarrow> rat) \<Rightarrow> search_request \<Rightarrow>
    (search_world, (string list \<times> string list) option) io" where
  "naive_ghost fl gen request =
     bnd forget_asked (\<lambda>_.
     bnd (ghost_air fl gen) (\<lambda>ghost.
     bnd (try_io (gather_quotes_sequentially request
       (healthy_airlines (take 1 AIRLINES) @ ghost # healthy_airlines (drop 1 AIRLINES)) [])) (\<lambda>res.
     case res of
       Inr _ \<Rightarrow> ret None
     | Inl e \<Rightarrow> if e = BrokerUnavailableError
         then (\<lambda>w. (Inr (Some (asked w, filter (\<lambda>n. n \<notin> set (asked w))
           (map fst (take 1 AIRLINES) @ ''GhostAir'' # map fst (drop 1 AIRLINES)))), w))
         else raise e)))"

definition naive_request :: "string \<Rightarrow> string \<Rightarrow> search_request" where
  "naive_request cid created_at = flight_search cid created_at"

record sequential_report =
  all_healthy :: "flight_quote list \<times> rat"
  with_slow :: "flight_quote list \<times> rat"
  with_deadline :: "flight_quote list \<times> int"
  with_ghost :: "(string list \<times> string list) option"

definition sg_run_naive :: "float_text \<Rightarrow> (int \<Rightarrow> nat \<Rightarrow> rat) \<Rightarrow> (nat \<Rightarrow> string) \<Rightarrow> string \<Rightarrow> (search_world, sequential_report) io" where
  "sg_run_naive fl gen u created_at =
     bnd (naive_healthy (naive_request (u 0) created_at)) (\<lambda>healthy.
     bnd (naive_slow fl gen (naive_request (u 1) created_at)) (\<lambda>slow.
     bnd (naive_deadline fl gen (naive_request (u 2) created_at)) (\<lambda>salvaged.
     bnd (naive_ghost fl gen (naive_request (u 3) created_at)) (\<lambda>ghost.
     ret \<lparr>all_healthy = healthy, with_slow = slow, with_deadline = salvaged, with_ghost = ghost\<rparr>))))"

subsection \<open>What the baseline returns\<close>

lemma rounded_latencies:
  "round53 (5 / 100) = Finite (3602879701896397 / 72057594037927936)" "round53 (5 / 10) = Finite (1 / 2)"
  "round53 (2 / 10) = Finite (3602879701896397 / 18014398509481984)"
  subgoal by code_simp
  subgoal by code_simp
  subgoal by code_simp
  done

lemmas naive_latencies = NAIVE_AIRLINE_LATENCY_def [unfolded rounded_latencies] NAIVE_SLOW_LATENCY_def [unfolded rounded_latencies]
  NAIVE_DEADLINE_def [unfolded rounded_latencies]

definition offer :: "search_request \<Rightarrow> string \<Rightarrow> int \<Rightarrow> flight_quote" where
  "offer request name price = projr (make_lookup name price request)"

lemma ask_healthy:
  "gather_quotes_sequentially request (healthy_airlines airlines @ lookups) quotes w =
    gather_quotes_sequentially request lookups (quotes @ map (\<lambda>(name, price). offer request name price) airlines)
      (w\<lparr>slept := slept w @ replicate (length airlines) NAIVE_AIRLINE_LATENCY, asked := asked w @ map fst airlines\<rparr>)"
proof (induction airlines arbitrary: quotes w)
  case (Cons a airlines)
  then show ?case
    by (cases a) (simp add: healthy_airlines_def recording_def make_async_lookup_def sleep_def bnd_def offer_def make_lookup_def)
qed (simp add: healthy_airlines_def)

text \<open>An injector that always fires.\<close>

definition sure :: "fault \<Rightarrow> nat \<Rightarrow> injector" where
  "sure k g = \<lparr>kind = k, policy = \<lparr>probability = Some (Finite 1), on_call = None\<rparr>, calls = 0, fires = 0, rng = g\<rparr>"

lemma sure_fires:
  assumes "injectors w i = sure k g" and "rngs w g 0 < 1"
  shows "\<exists>w'. chaos_call i call x w = fire k (call x) w' \<and> slept w' = slept w \<and> search_world.asked w' = search_world.asked w"
proof -
  let ?w = "w\<lparr>rngs := (rngs w)(g := \<lambda>n. rngs w g (Suc n)),
    injectors := (injectors w)(i := (sure k g)\<lparr>calls := 1, fires := 1\<rparr>)\<rparr>"
  have "chaos_call i call x w = fire k (call x) ?w"
    using assms by (simp add: chaos_call_def bnd_def Let_def sure_def should_fire_def draw_def fless_def)
  then show ?thesis by (intro exI [of _ ?w]) simp
qed

text \<open>A lookup \<open>lk\<close> whose calls, as long as nobody else touched the injectors of \<open>w\<close>, end in \<open>r\<close> after the naps \<open>naps\<close>.\<close>

definition asks :: "async_lookup \<Rightarrow> string \<Rightarrow> search_request \<Rightarrow> pyfloat list \<Rightarrow> exn + flight_quote \<Rightarrow> search_world \<Rightarrow> bool" where
  "asks lk name request naps r w \<longleftrightarrow> (\<forall>w1. injectors w1 = injectors w \<and> rngs w1 = rngs w \<longrightarrow>
     (\<exists>w2. lk request w1 = (r, w2) \<and> slept w2 = slept w1 @ naps \<and> asked w2 = asked w1 @ [name]))"

lemma asksE:
  assumes "asks lk name request naps r w" and "injectors w1 = injectors w" and "rngs w1 = rngs w"
  obtains w2 where "lk request w1 = (r, w2)" and "slept w2 = slept w1 @ naps" and "asked w2 = asked w1 @ [name]"
  using assms unfolding asks_def by blast

lemma injected_asks:
  assumes "injectors w i = sure k g" and "rngs w g 0 < 1"
    and fires: "\<And>w3. \<exists>w4. fire k (call request) w3 = (r, w4) \<and> slept w4 = slept w3 @ naps \<and> asked w4 = asked w3"
  shows "asks (recording name (chaos_call i call)) name request naps r w"
  unfolding asks_def
proof (intro allI impI)
  fix w1 :: search_world assume w1: "injectors w1 = injectors w \<and> rngs w1 = rngs w"
  define w2 where "w2 = w1\<lparr>asked := asked w1 @ [name]\<rparr>"
  obtain w3 where w3: "chaos_call i call request w2 = fire k (call request) w3" "slept w3 = slept w2" "asked w3 = asked w2"
    using sure_fires [of w2 i k g call request] w1 assms(1,2) by (auto simp: w2_def)
  obtain w4 where "fire k (call request) w3 = (r, w4)" "slept w4 = slept w3 @ naps" "asked w4 = asked w3"
    using fires by blast
  then show "\<exists>w2. recording name (chaos_call i call) request w1 = (r, w2) \<and> slept w2 = slept w1 @ naps \<and> asked w2 = asked w1 @ [name]"
    using w3 by (intro exI [of _ w4]) (auto simp: recording_def w2_def)
qed

text \<open>The two injectors, as the factories build them.\<close>

lemma sure_injector:
  assumes "gen DEFAULT_SEED 0 < 1"
  obtains i g w' where "new_injector fl gen k (Some (Finite 1)) None DEFAULT_SEED None w = (Inr i, w')"
    and "injectors w' i = sure k g" and "rngs w' g 0 < 1" and "slept w' = slept w" and "search_world.asked w' = search_world.asked w"
  using assms by (simp add: new_injector_def new_policy_def new_rng_def add_injector_def bnd_def sure_def)

lemma slow_air_run:
  assumes draws: "gen DEFAULT_SEED 0 < 1"
  obtains lk w' where "slow_air fl gen w = (Inr lk, w')" and "slept w' = slept w" and "asked w' = asked w"
    and "asks lk ''SlowAir'' request [NAIVE_SLOW_LATENCY, NAIVE_AIRLINE_LATENCY] (Inr (offer request ''SlowAir'' 15000)) w'"
proof -
  obtain i g w' where i: "new_injector fl gen (SlowConsumer NAIVE_SLOW_LATENCY) (Some (Finite 1)) None DEFAULT_SEED None w = (Inr i, w')"
    and w': "injectors w' i = sure (SlowConsumer NAIVE_SLOW_LATENCY) g" "rngs w' g 0 < 1" "slept w' = slept w" "asked w' = asked w"
    by (rule sure_injector [where gen = gen and w = w and fl = fl and k = "SlowConsumer NAIVE_SLOW_LATENCY", OF draws])
  have "slow_air fl gen w = (Inr (recording ''SlowAir'' (chaos_call i (make_async_lookup ''SlowAir'' 15000))), w')"
    using i by (simp add: slow_air_def slow_consumer_def new_slow_consumer_def naive_latencies is_finite_def bnd_def)
  moreover have "asks (recording ''SlowAir'' (chaos_call i (make_async_lookup ''SlowAir'' 15000))) ''SlowAir'' request
      [NAIVE_SLOW_LATENCY, NAIVE_AIRLINE_LATENCY] (Inr (offer request ''SlowAir'' 15000)) w'"
    by (rule injected_asks [OF w'(1,2)]) (simp add: fire_def slow_fire_def make_async_lookup_def sleep_def
      bnd_def make_lookup_def offer_def)
  ultimately show ?thesis using that w'(3,4) by blast
qed

lemma ghost_air_run:
  assumes draws: "gen DEFAULT_SEED 0 < 1"
  obtains lk w' where "ghost_air fl gen w = (Inr lk, w')" and "slept w' = slept w" and "asked w' = asked w"
    and "asks lk ''GhostAir'' request [] (Inl BrokerUnavailableError) w'"
proof -
  obtain i g w' where i: "new_injector fl gen BrokerUnavailable (Some (Finite 1)) None DEFAULT_SEED None w = (Inr i, w')"
    and w': "injectors w' i = sure BrokerUnavailable g" "rngs w' g 0 < 1" "slept w' = slept w" "asked w' = asked w"
    by (rule sure_injector [where gen = gen and w = w and fl = fl and k = BrokerUnavailable, OF draws])
  have "ghost_air fl gen w = (Inr (recording ''GhostAir'' (chaos_call i (make_async_lookup ''GhostAir'' 0))), w')"
    using i by (simp add: ghost_air_def broker_unavailable_def bnd_def)
  moreover have "asks (recording ''GhostAir'' (chaos_call i (make_async_lookup ''GhostAir'' 0))) ''GhostAir'' request []
      (Inl BrokerUnavailableError) w'"
    by (rule injected_asks [OF w'(1,2)]) (simp add: fire_def unavailable_fire_def raise_def)
  ultimately show ?thesis using that w'(3,4) by blast
qed

subsection \<open>The baseline's run\<close>

lemma perf_counter_slept: "perf_counter (w\<lparr>slept := xs\<rparr>) = sum_list (map seconds_of xs)"
  by (simp add: perf_counter_def)

lemma naive_healthy_run:
  "\<exists>w'. naive_healthy request w =
    (Inr (map (\<lambda>(name, price). offer request name price) AIRLINES, 3 * seconds_of NAIVE_AIRLINE_LATENCY), w')"
  using ask_healthy [of request AIRLINES "[]" "[]" "w\<lparr>asked := []\<rparr>"]
  by (simp add: naive_healthy_def forget_asked_def timed_search_def bnd_def AIRLINES_def perf_counter_def eval_nat_numeral)

lemma naive_slow_run:
  assumes "gen DEFAULT_SEED 0 < 1"
  shows "\<exists>w'. naive_slow fl gen request w =
    (Inr (map (\<lambda>(name, price). offer request name price) AIRLINES @ [offer request ''SlowAir'' 15000],
      4 * seconds_of NAIVE_AIRLINE_LATENCY + seconds_of NAIVE_SLOW_LATENCY), w')"
proof -
  obtain lk w1 where w1: "slow_air fl gen (w\<lparr>asked := []\<rparr>) = (Inr lk, w1)"
    "slept w1 = slept (w\<lparr>asked := []\<rparr>)" "asked w1 = asked (w\<lparr>asked := []\<rparr>)"
    and lk: "asks lk ''SlowAir'' request [NAIVE_SLOW_LATENCY, NAIVE_AIRLINE_LATENCY] (Inr (offer request ''SlowAir'' 15000)) w1"
    by (rule slow_air_run [where gen = gen and fl = fl and w = "w\<lparr>asked := []\<rparr>" and request = request, OF assms])
  define w2 where "w2 = w1\<lparr>slept := slept w1 @ replicate (length AIRLINES) NAIVE_AIRLINE_LATENCY,
    asked := asked w1 @ map fst AIRLINES\<rparr>"
  obtain w3 where w3: "lk request w2 = (Inr (offer request ''SlowAir'' 15000), w3)"
    "slept w3 = slept w2 @ [NAIVE_SLOW_LATENCY, NAIVE_AIRLINE_LATENCY]"
    by (rule asksE [OF lk, of w2]) (simp_all add: w2_def)
  have "gather_quotes_sequentially request (healthy_airlines AIRLINES @ [lk]) [] w1 =
      (Inr (map (\<lambda>(name, price). offer request name price) AIRLINES @ [offer request ''SlowAir'' 15000]), w3)"
    using w3(1) by (simp add: ask_healthy bnd_def flip: w2_def)
  moreover have "perf_counter w3 - perf_counter w1 = 4 * seconds_of NAIVE_AIRLINE_LATENCY + seconds_of NAIVE_SLOW_LATENCY"
    by (simp add: perf_counter_def w3(2) w2_def AIRLINES_def)
  ultimately show ?thesis using w1(1) by (simp add: naive_slow_def forget_asked_def timed_search_def bnd_def)
qed

text \<open>The deadline passes while the slow airline stalls: the others had answered, and nothing is returned.\<close>

lemma gather_until_healthy:
  assumes "perf_counter w + of_nat (length airlines) * seconds_of NAIVE_AIRLINE_LATENCY < deadline"
  shows "gather_until deadline request (healthy_airlines airlines @ lookups) quotes w =
    gather_until deadline request lookups (quotes @ map (\<lambda>(name, price). offer request name price) airlines)
      (w\<lparr>slept := slept w @ replicate (length airlines) NAIVE_AIRLINE_LATENCY, asked := asked w @ map fst airlines\<rparr>)"
  using assms
proof (induction airlines arbitrary: quotes w)
  case (Cons a airlines)
  obtain name price where a: "a = (name, price)" by (cases a)
  let ?w = "w\<lparr>asked := asked w @ [name], slept := slept w @ [NAIVE_AIRLINE_LATENCY]\<rparr>"
  have pos: "0 \<le> of_nat (length airlines) * seconds_of NAIVE_AIRLINE_LATENCY" by (simp add: naive_latencies)
  have time: "perf_counter ?w = perf_counter w + seconds_of NAIVE_AIRLINE_LATENCY" by (simp add: perf_counter_def)
  have "perf_counter ?w + of_nat (length airlines) * seconds_of NAIVE_AIRLINE_LATENCY < deadline"
    using Cons.prems by (simp add: time algebra_simps)
  moreover from this have "perf_counter ?w < deadline" using pos by linarith
  moreover have "recording name (make_async_lookup name price) request w = (Inr (offer request name price), ?w)"
    by (simp add: recording_def make_async_lookup_def sleep_def offer_def make_lookup_def bnd_def)
  ultimately show ?case using Cons.IH [of ?w "quotes @ [offer request name price]"] by (simp add: healthy_airlines_def a)
qed (simp add: healthy_airlines_def)

lemma naive_deadline_run:
  assumes "gen DEFAULT_SEED 0 < 1"
  shows "\<exists>w'. naive_deadline fl gen request w = (Inr ([], 3), w')"
proof -
  obtain lk w1 where w1: "slow_air fl gen (w\<lparr>asked := []\<rparr>) = (Inr lk, w1)"
    "slept w1 = slept (w\<lparr>asked := []\<rparr>)" "asked w1 = asked (w\<lparr>asked := []\<rparr>)"
    and lk: "asks lk ''SlowAir'' request [NAIVE_SLOW_LATENCY, NAIVE_AIRLINE_LATENCY] (Inr (offer request ''SlowAir'' 15000)) w1"
    by (rule slow_air_run [where gen = gen and fl = fl and w = "w\<lparr>asked := []\<rparr>" and request = request, OF assms])
  define w2 where "w2 = w1\<lparr>slept := slept w1 @ replicate (length AIRLINES) NAIVE_AIRLINE_LATENCY,
    asked := asked w1 @ map fst AIRLINES\<rparr>"
  define d where "d = perf_counter w1 + seconds_of NAIVE_DEADLINE"
  obtain w3 where w3: "lk request w2 = (Inr (offer request ''SlowAir'' 15000), w3)"
    "slept w3 = slept w2 @ [NAIVE_SLOW_LATENCY, NAIVE_AIRLINE_LATENCY]" "asked w3 = asked w2 @ [''SlowAir'']"
    by (rule asksE [OF lk, of w2]) (simp_all add: w2_def)
  have late: "\<not> perf_counter w3 < d"
    by (simp add: perf_counter_def w3(2) w2_def d_def naive_latencies AIRLINES_def)
  have "perf_counter w1 + of_nat (length AIRLINES) * seconds_of NAIVE_AIRLINE_LATENCY < d"
    by (simp add: d_def naive_latencies AIRLINES_def)
  from gather_until_healthy [OF this, of request "[lk]" "[]"]
  have "\<exists>w4. gather_until d request (healthy_airlines AIRLINES @ [lk]) [] w1 = (Inl TimeoutError, w4) \<and> asked w4 = asked w3"
    using w3(1) late by (simp flip: w2_def)
  then show ?thesis using w1(1) w3(3)
    by (auto simp: naive_deadline_def forget_asked_def bnd_def try_io_def w2_def w1(3) AIRLINES_def simp flip: d_def)
qed

lemma naive_ghost_run:
  assumes "gen DEFAULT_SEED 0 < 1"
  shows "\<exists>w'. naive_ghost fl gen request w = (Inr (Some ([''BudgetJet'', ''GhostAir''], [''SkyHigh'', ''Nimbus''])), w')"
proof -
  obtain lk w1 where w1: "ghost_air fl gen (w\<lparr>asked := []\<rparr>) = (Inr lk, w1)"
    "slept w1 = slept (w\<lparr>asked := []\<rparr>)" "asked w1 = asked (w\<lparr>asked := []\<rparr>)"
    and lk: "asks lk ''GhostAir'' request [] (Inl BrokerUnavailableError) w1"
    by (rule ghost_air_run [where gen = gen and fl = fl and w = "w\<lparr>asked := []\<rparr>" and request = request, OF assms])
  define w2 where "w2 = w1\<lparr>slept := slept w1 @ [NAIVE_AIRLINE_LATENCY], asked := asked w1 @ [''BudgetJet'']\<rparr>"
  obtain w3 where w3: "lk request w2 = (Inl BrokerUnavailableError, w3)" "asked w3 = asked w2 @ [''GhostAir'']"
    by (rule asksE [OF lk, of w2]) (simp_all add: w2_def)
  have "gather_quotes_sequentially request
      (healthy_airlines (take 1 AIRLINES) @ lk # healthy_airlines (drop 1 AIRLINES)) [] w1 = (Inl BrokerUnavailableError, w3)"
    using w3(1) by (simp add: ask_healthy AIRLINES_def bnd_def flip: w2_def)
  then show ?thesis using w1 w3(2)
    by (simp add: naive_ghost_def forget_asked_def bnd_def try_io_def w2_def AIRLINES_def)
qed

lemma sg_run_naive_run:
  assumes "gen DEFAULT_SEED 0 < 1"
  shows "\<exists>report w'. sg_run_naive fl gen u created_at w = (Inr report, w') \<and>
    map airline (fst (all_healthy report)) = [''BudgetJet'', ''SkyHigh'', ''Nimbus''] \<and>
    snd (all_healthy report) = 3 * seconds_of NAIVE_AIRLINE_LATENCY \<and>
    map airline (fst (with_slow report)) = [''BudgetJet'', ''SkyHigh'', ''Nimbus'', ''SlowAir''] \<and>
    3 * seconds_of NAIVE_DEADLINE < snd (with_slow report) \<and>
    with_deadline report = ([], 3) \<and> with_ghost report = Some ([''BudgetJet'', ''GhostAir''], [''SkyHigh'', ''Nimbus''])"
proof -
  obtain w1 where 1: "naive_healthy (flight_search (u 0) created_at) w =
      (Inr (map (\<lambda>(name, price). offer (flight_search (u 0) created_at) name price) AIRLINES, 3 * seconds_of NAIVE_AIRLINE_LATENCY), w1)"
    using naive_healthy_run by blast
  obtain w2 where 2: "naive_slow fl gen (flight_search (u 1) created_at) w1 =
      (Inr (map (\<lambda>(name, price). offer (flight_search (u 1) created_at) name price) AIRLINES @
        [offer (flight_search (u 1) created_at) ''SlowAir'' 15000],
      4 * seconds_of NAIVE_AIRLINE_LATENCY + seconds_of NAIVE_SLOW_LATENCY), w2)"
    using naive_slow_run [of gen fl] assms by blast
  obtain w3 where 3: "naive_deadline fl gen (flight_search (u 2) created_at) w2 = (Inr ([], 3), w3)"
    using naive_deadline_run [of gen fl] assms by blast
  obtain w4 where 4: "naive_ghost fl gen (flight_search (u 3) created_at) w3 =
      (Inr (Some ([''BudgetJet'', ''GhostAir''], [''SkyHigh'', ''Nimbus''])), w4)"
    using naive_ghost_run [of gen fl] assms by blast
  have named: "airline (offer request name price) = name" for request name price by (simp add: offer_def make_lookup_def)
  show ?thesis
    by (simp add: sg_run_naive_def naive_request_def bnd_def 1 2 3 4 del: One_nat_def) (simp add: AIRLINES_def named naive_latencies)
qed

end
