(* ===== verification/Claim_Demo.thy ===== *)
theory Claim_Demo
  imports Claim_Check PyFloat
begin

section \<open>The claim-check demonstration\<close>

text \<open>
  \<^verbatim>\<open>scripts/run_claim_check_pattern.py\<close>: three large payloads through the claim check, and through the inline
  baseline. The temporary directory and the broker are new: an empty store and an empty queue. The second
  task of the script's \<^verbatim>\<open>asyncio.gather\<close> only ends the consumer's loop: \<open>turns\<close> is how many turns that
  takes. \<^verbatim>\<open>processed\<close> is the application part of the world. What the script logs is returned, without the
  formatting of the numbers.
\<close>

definition PAYLOADS :: "payload list" where
  "PAYLOADS = [
     \<lparr>data = replicate 2000000 CHR ''A'', content_type = ''image/png'', original_name = ''hero-banner.png''\<rparr>,
     \<lparr>data = replicate 5000000 CHR ''B'', content_type = ''video/mp4'', original_name = ''product-demo.mp4''\<rparr>,
     \<lparr>data = replicate 1000000 CHR ''C'', content_type = ''application/pdf'', original_name = ''annual-report.pdf''\<rparr>]"

text \<open>\<^verbatim>\<open>handler\<close> sleeps and logs.\<close>

definition media_handler :: "'x claim_handler" where
  "media_handler consumer_id claim p = ret ()"

definition counting_handler :: "string list claim_handler" where
  "counting_handler cid claim p =
     bnd (media_handler cid claim p) (\<lambda>_.
     modify (claim_world.more_update (\<lambda>processed. processed @ [claim_id claim])))"

record traffic_report =
  processed_total :: int
  reclaimed :: int
  remaining :: "string list"
  total_payload_bytes :: int
  total_wire_bytes :: int
  total_saved :: int

definition claim_demo_main :: "float_text \<Rightarrow> string \<Rightarrow> (nat \<Rightarrow> string) \<Rightarrow> nat \<Rightarrow>
    (string list claim_world_scheme, traffic_report) io" where
  "claim_demo_main fl tmp u turns =
     bnd (modify (\<lambda>w. w\<lparr>cq := [], cstore := (cstore w)\<lparr>files := []\<rparr>, claim_world.more := []\<rparr>)) (\<lambda>_.
     bnd (check_in_all fl tmp u PAYLOADS []) (\<lambda>claims.
     bnd (run_claim_consumer tmp counting_handler ''consumer-0'' True (replicate turns (\<lambda>w. w))) (\<lambda>total w.
     let remaining = map claim_id (filter (\<lambda>c. store_exists tmp (claim_id c) (cstore w)) claims);
         payload_bytes = int (sum_list (map cl_size_bytes claims));
         wire_bytes = int (sum_list (map (wire_size_bytes fl) claims)) in
     ret \<lparr>processed_total = total, reclaimed = int (length claims) - int (length remaining), remaining = remaining,
       total_payload_bytes = payload_bytes, total_wire_bytes = wire_bytes,
       total_saved = payload_bytes - wire_bytes\<rparr> w)))"

subsection \<open>The baseline\<close>

record inline_world = metrics_world +
  inline :: inline_broker
  minted :: nat

definition on_inline :: "(inline_broker, 'a) io \<Rightarrow> ('x inline_world_scheme, 'a) io" where
  "on_inline m w = (case m (inline w) of (r, b) \<Rightarrow> (r, w\<lparr>inline := b\<rparr>))"

definition claim_for :: "(nat \<Rightarrow> string) \<Rightarrow> payload \<Rightarrow> ('x inline_world_scheme, claim_check) io" where
  "claim_for u p w =
     (Inr \<lparr>claim_id = u (minted w), cl_content_type = content_type p, cl_original_name = original_name p,
        cl_size_bytes = size_bytes p, cl_created_at = wall w\<rparr>, w\<lparr>minted := minted w + 1\<rparr>)"

text \<open>\<^verbatim>\<open>sum(_claim_for(payload).wire_size_bytes() for payload in ...)\<close>\<close>

definition claims_wire_bytes :: "float_text \<Rightarrow> (nat \<Rightarrow> string) \<Rightarrow> payload list \<Rightarrow> ('x inline_world_scheme, nat) io" where
  "claims_wire_bytes fl u ps =
     for_each (\<lambda>p total. bnd (claim_for u p) (\<lambda>claim. ret (total + wire_size_bytes fl claim))) ps 0"

definition inline_attempt :: "float_text \<Rightarrow> payload \<Rightarrow> string list \<times> payload list \<Rightarrow>
    ('x inline_world_scheme, string list \<times> payload list) io" where
  "inline_attempt fl p = (\<lambda>(rejected, delivered).
     bnd (try_io (on_inline (publish_payload_inline fl p))) (\<lambda>res. case res of
       Inr wire_size \<Rightarrow> ret (rejected, delivered @ [p])
     | Inl (MessageTooLargeError n limit) \<Rightarrow> ret (rejected @ [original_name p], delivered)
     | Inl exc \<Rightarrow> raise exc))"

record inline_report =
  rejected_names :: "string list"
  delivered_payloads :: "payload list"
  carried_bytes :: nat
  claim_bytes :: nat
  traffic_ratio :: pyfloat
  all_claim_bytes :: nat

definition claim_run_naive :: "float_text \<Rightarrow> (nat \<Rightarrow> string) \<Rightarrow> ('x inline_world_scheme, inline_report) io" where
  "claim_run_naive fl u =
     bnd (modify (\<lambda>w. w\<lparr>inline := new_inline_broker MAX_MESSAGE_BYTES\<rparr>)) (\<lambda>_.
     bnd (for_each (inline_attempt fl) PAYLOADS ([], [])) (\<lambda>(rejected, delivered).
     bnd (claims_wire_bytes fl u delivered) (\<lambda>n.
     bnd (claims_wire_bytes fl u PAYLOADS) (\<lambda>all_bytes w.
     ret \<lparr>rejected_names = rejected, delivered_payloads = delivered, carried_bytes = bytes_transferred (inline w),
       claim_bytes = n,
       traffic_ratio = (if n \<noteq> 0 then round53 (of_nat (bytes_transferred (inline w)) / of_nat n) else Finite 0),
       all_claim_bytes = all_bytes\<rparr> w))))"

subsection \<open>The claim check's run\<close>

lemma payload_sizes: "map size_bytes PAYLOADS = [2000000, 5000000, 1000000]" "length PAYLOADS = 3"
  by (simp_all add: PAYLOADS_def size_bytes_def)

lemma counting_handler_logs: "logs_payload_as (\<lambda>c p. claim_id c) (\<lambda>ids. ids) counting_handler"
  by (simp add: logs_payload_as_def counting_handler_def media_handler_def)

text \<open>Where a claim's texts come from.\<close>

definition minted_claim :: "(nat \<Rightarrow> string) \<Rightarrow> nat \<Rightarrow> string \<Rightarrow> claim_check \<Rightarrow> bool" where
  "minted_claim u k now c \<longleftrightarrow> claim_id c \<in> u ` {..<k} \<and> cl_created_at c = now"

lemma minted_claim_mono: "minted_claim u j now c \<Longrightarrow> j \<le> k \<Longrightarrow> minted_claim u k now c"
  by (auto simp: minted_claim_def)

lemma claim_check_in_minted:
  "claim_check_in fl dir u p w = (Inr c, w') \<Longrightarrow>
    minted_claim u (uuids_minted (cstore w')) (wall w) c \<and> wall w' = wall w \<and>
    uuids_minted (cstore w') = uuids_minted (cstore w) + 1"
  by (auto simp: claim_check_in_def claim_publish_def bnd_assoc Let_def store_put_def minted_claim_def)

lemma check_in_all_minted:
  "check_in_all fl dir u ps cs w = (Inr cs', w') \<Longrightarrow> \<forall>c \<in> set cs. minted_claim u (uuids_minted (cstore w)) (wall w) c \<Longrightarrow>
    \<forall>c \<in> set cs'. minted_claim u (uuids_minted (cstore w) + length ps) (wall w) c"
proof (induction ps arbitrary: cs w)
  case (Cons p ps)
  obtain c w1 where c: "claim_check_in fl dir u p w = (Inr c, w1)" "check_in_all fl dir u ps (cs @ [c]) w1 = (Inr cs', w')"
    using Cons.prems(1) by (auto elim!: bnd_InrE)
  note c1 = claim_check_in_minted [OF c(1)]
  have "\<forall>x \<in> set (cs @ [c]). minted_claim u (uuids_minted (cstore w1)) (wall w1) x"
    using c1 Cons.prems(2) minted_claim_mono [of u "uuids_minted (cstore w)" "wall w" _ "uuids_minted (cstore w1)"] by auto
  then show ?case using Cons.IH [OF c(2)] c1 by simp
qed simp

text \<open>Ids and times of at most 32 characters, as \<^verbatim>\<open>uuid4().hex\<close> and \<^verbatim>\<open>isoformat\<close> have.\<close>

lemma wire_size_minted:
  assumes "minted_claim u k now c" and "token_of c p" and "\<forall>n<k. length (u n) \<le> 32" and "length now \<le> 32" and "size_bytes p < 10 ^ 7"
  shows "wire_size_bytes fl c \<le> 485 + 6 * (length (content_type p) + length (original_name p))"
proof -
  have "length (claim_id c) \<le> 32" "length (cl_created_at c) \<le> 32" using assms(1,3,4) by (auto simp: minted_claim_def)
  moreover have "cl_size_bytes c < 10 ^ 7" using assms(2,5) by (simp add: token_of_def)
  ultimately show ?thesis using wire_size_bound [of c 7 fl] assms(2) by (simp add: token_of_def)
qed

lemma claims_of_payloads:
  assumes "list_all2 token_of claims PAYLOADS" and "\<forall>c \<in> set claims. minted_claim u k now c"
    and "\<forall>n<k. length (u n) \<le> 32" and "length now \<le> 32"
  shows "length claims = 3" and "sum_list (map cl_size_bytes claims) = 8000000"
    and "sum_list (map (wire_size_bytes fl) claims) \<le> 1941"
proof -
  obtain a b c where claims: "claims = [a, b, c]" and
    t: "token_of a (PAYLOADS ! 0)" "token_of b (PAYLOADS ! 1)" "token_of c (PAYLOADS ! 2)"
    using assms(1) unfolding PAYLOADS_def list_all2_Cons2 list_all2_Nil2 by auto
  have m: "minted_claim u k now a" "minted_claim u k now b" "minted_claim u k now c" using assms(2) by (auto simp: claims)
  show "length claims = 3" by (simp add: claims)
  show "sum_list (map cl_size_bytes claims) = 8000000"
    using t by (simp add: claims token_of_def PAYLOADS_def size_bytes_def)
  have "wire_size_bytes fl a \<le> 629" "wire_size_bytes fl b \<le> 635" "wire_size_bytes fl c \<le> 677"
    using wire_size_minted [OF m(1) t(1) assms(3,4), of fl] wire_size_minted [OF m(2) t(2) assms(3,4), of fl]
      wire_size_minted [OF m(3) t(3) assms(3,4), of fl] by (simp_all add: PAYLOADS_def size_bytes_def)
  then show "sum_list (map (wire_size_bytes fl) claims) \<le> 1941" by (simp add: claims)
qed

lemma claim_demo_main_run:
  assumes "inj u" and "\<forall>n < uuids_minted (cstore w) + 3. length (u n) \<le> 32" and "length (wall w) \<le> 32" and "3 \<le> turns"
  shows "\<exists>wire w'. claim_demo_main fl tmp u turns w = (Inr \<lparr>processed_total = 3, reclaimed = 3, remaining = [],
      total_payload_bytes = 8000000, total_wire_bytes = wire, total_saved = 8000000 - wire\<rparr>, w') \<and> wire \<le> 1941 \<and>
    length (claim_app w') = 3"
proof -
  define w0 where "w0 = w\<lparr>cq := [], cstore := (cstore w)\<lparr>files := []\<rparr>, claim_world.more := [] :: string list\<rparr>"
  obtain claims w1 where c: "check_in_all fl tmp u PAYLOADS [] w0 = (Inr ([] @ claims), w1)"
    "list_all2 token_of ([] @ claims) ([] @ PAYLOADS)" "cq w1 = [] @ [] @ claims"
    "fs.redeemable tmp (claims_data ([] @ claims) ([] @ PAYLOADS)) (cstore w1)" "claim_app w1 = claim_app w0"
    using check_in_all_run [OF assms(1), of "[]" "[]" w0 "[]" tmp fl PAYLOADS] by (auto simp: w0_def)
  have minted: "\<forall>c \<in> set claims. minted_claim u (uuids_minted (cstore w) + 3) (wall w) c"
    using check_in_all_minted [OF c(1)] by (simp add: w0_def payload_sizes)
  note of_payloads = claims_of_payloads [OF c(2) [simplified] minted assms(2,3)]
  obtain w2 where w2: "claim_loop tmp ''consumer-0'' True counting_handler (replicate turns (\<lambda>w. w)) 0 w1 =
      (Inr (0 + int (length PAYLOADS)), w2)"
    "claim_app w2 = claim_app w1 @ map (case_prod (\<lambda>c p. claim_id c)) (zip (cq w1) PAYLOADS)"
    "\<forall>c \<in> set (cq w1). store_exists tmp (claim_id c) (cstore w2) = (\<not> True)"
    using claim_loop_delivers [OF counting_handler_logs, of w1 PAYLOADS tmp turns "''consumer-0''" True 0] c(2,3,4) assms(4)
    by (auto simp: payload_sizes)
  have none: "filter (\<lambda>c. store_exists tmp (claim_id c) (cstore w2)) claims = []"
    using w2(3) c(3) by (simp add: filter_empty_conv)
  have "length (claim_app w2) = 3" using w2(2) c(3,5) of_payloads(1) by (simp add: payload_sizes w0_def)
  moreover have "claim_demo_main fl tmp u turns w = (Inr \<lparr>processed_total = 3, reclaimed = 3, remaining = [],
      total_payload_bytes = 8000000, total_wire_bytes = int (sum_list (map (wire_size_bytes fl) claims)),
      total_saved = 8000000 - int (sum_list (map (wire_size_bytes fl) claims))\<rparr>, w2)"
    using c(1) w2(1) of_payloads(1,2)
    by (simp add: claim_demo_main_def bnd_Inr w0_def [symmetric] run_claim_consumer_def none payload_sizes Let_def)
  moreover have "int (sum_list (map (wire_size_bytes fl) claims)) \<le> 1941"
    using of_payloads(3) [of fl] by (simp only: of_nat_le_numeral_iff)
  ultimately show ?thesis by blast
qed

subsection \<open>The baseline's run\<close>

lemma report_encoding: "length (encode_inline fl (PAYLOADS ! 2)) = 1000097"
proof -
  have "length (py_str_int 1000000) = 7" by (simp add: py_str_int_def nat_digits.simps)
  then show ?thesis by (simp add: encode_inline_def PAYLOADS_def json_str_ascii size_bytes_def Let_def)
qed

definition claim_cost :: "payload \<Rightarrow> nat" where
  "claim_cost p = 485 + 6 * (length (content_type p) + length (original_name p))"

lemma wire_size_positive: "0 < wire_size_bytes fl c"
  by (simp add: wire_size_bytes_def)

lemma claims_wire_bytes_run:
  fixes w :: "'x inline_world_scheme"
  assumes "\<forall>n < minted w + length ps. length (u n) \<le> 32" and "length (wall w) \<le> 32" and "\<forall>p \<in> set ps. size_bytes p < 10 ^ 7"
  shows "\<exists>n w'. claims_wire_bytes fl u ps w = (Inr n, w') \<and> wall w' = wall w \<and> inline w' = inline w \<and>
    minted w' = minted w + length ps \<and> length ps \<le> n \<and> n \<le> sum_list (map claim_cost ps)"
proof -
  define step :: "payload \<Rightarrow> nat \<Rightarrow> ('x inline_world_scheme, nat) io" where "step = (\<lambda>p total. bnd (claim_for u p) (\<lambda>claim :: claim_check. ret (total + wire_size_bytes fl claim)))"
  have "\<exists>n w'. for_each step ps acc w = (Inr n, w') \<and> wall w' = wall w \<and> inline w' = inline w \<and>
      minted w' = minted w + length ps \<and> acc + length ps \<le> n \<and> n \<le> acc + sum_list (map claim_cost ps)" for acc
    using assms
  proof (induction ps arbitrary: acc w)
    case (Cons p ps)
    obtain c w1 where c: "claim_for u p w = (Inr c, w1)" "minted_claim u (minted w + 1) (wall w) c" "token_of c p"
      "wall w1 = wall w" "inline w1 = inline w" "minted w1 = minted w + 1"
      by (simp add: claim_for_def minted_claim_def token_of_def)
    have "wire_size_bytes fl c \<le> claim_cost p"
      using wire_size_minted [OF c(2,3)] Cons.prems by (simp add: claim_cost_def)
    moreover obtain n w' where "for_each step ps (acc + wire_size_bytes fl c) w1 = (Inr n, w')"
      "wall w' = wall w1" "inline w' = inline w1" "minted w' = minted w1 + length ps" "acc + wire_size_bytes fl c + length ps \<le> n"
      "n \<le> acc + wire_size_bytes fl c + sum_list (map claim_cost ps)"
      using Cons.IH [of w1 "acc + wire_size_bytes fl c"] Cons.prems c(4,6) by auto
    moreover have "for_each step (p # ps) acc w = for_each step ps (acc + wire_size_bytes fl c) w1"
      using c(1) by (simp add: step_def bnd_def)
    ultimately show ?case using c(4,5,6) wire_size_positive [of fl c] by (intro exI [of _ n] exI [of _ w']) auto
  qed simp
  from this [of 0] show ?thesis by (simp add: claims_wire_bytes_def step_def)
qed

lemma inline_attempt_large:
  assumes "max_message_bytes (inline w) \<le> size_bytes p"
  shows "inline_attempt fl p (rej, del) w = (Inr (rej @ [original_name p], del), w)"
  using assms encode_inline_length [of p fl]
  by (simp add: inline_attempt_def on_inline_def publish_payload_inline_def inline_publish_def size_bytes_def
      try_io_def bnd_def)

lemma inline_attempt_small:
  assumes "length (encode_inline fl p) \<le> max_message_bytes (inline w)"
  shows "inline_attempt fl p (rej, del) w = (Inr (rej, del @ [p]), w\<lparr>inline := (inline w)\<lparr>
    iq := iq (inline w) @ [encode_inline fl p],
    bytes_transferred := bytes_transferred (inline w) + length (encode_inline fl p)\<rparr>\<rparr>)"
  using assms by (simp add: inline_attempt_def on_inline_def publish_payload_inline_def inline_publish_def try_io_def bnd_def)

lemma payload_list: "PAYLOADS = [PAYLOADS ! 0, PAYLOADS ! 1, PAYLOADS ! 2]"
  by (simp add: PAYLOADS_def)

lemma claim_run_naive_run:
  assumes "\<forall>n < minted w + 4. length (u n) \<le> 32" and "length (wall w) \<le> 32"
  shows "\<exists>n ratio total w'. claim_run_naive fl u w = (Inr \<lparr>rejected_names = [''hero-banner.png'', ''product-demo.mp4''],
      delivered_payloads = [PAYLOADS ! 2], carried_bytes = 1000097, claim_bytes = n, traffic_ratio = ratio,
      all_claim_bytes = total\<rparr>, w') \<and> 0 < n \<and> n \<le> 677 \<and> total \<le> 1941 \<and>
    ratio = round53 (1000097 / of_nat n)"
proof -
  define w0 where "w0 = w\<lparr>inline := new_inline_broker MAX_MESSAGE_BYTES\<rparr>"
  have limit: "max_message_bytes (inline w0) = 1048576" "bytes_transferred (inline w0) = 0"
    by (simp_all add: w0_def new_inline_broker_def MAX_MESSAGE_BYTES_def)
  have sizes: "size_bytes (PAYLOADS ! 0) = 2000000" "size_bytes (PAYLOADS ! Suc 0) = 5000000" "size_bytes (PAYLOADS ! 2) = 1000000"
    by (simp_all add: PAYLOADS_def size_bytes_def)
  define w1 where "w1 = w0\<lparr>inline := (inline w0)\<lparr>iq := iq (inline w0) @ [encode_inline fl (PAYLOADS ! 2)],
    bytes_transferred := 1000097\<rparr>\<rparr>"
  have small: "inline_attempt fl (PAYLOADS ! 2) (rej, del) w0 = (Inr (rej, del @ [PAYLOADS ! 2]), w1)" for rej del
    using inline_attempt_small [of fl "PAYLOADS ! 2" w0] by (simp add: limit report_encoding w1_def)
  have attempts: "for_each (inline_attempt fl) PAYLOADS ([], []) w0 =
      (Inr ([original_name (PAYLOADS ! 0), original_name (PAYLOADS ! 1)], [PAYLOADS ! 2]), w1)"
    by (subst payload_list) (simp add: bnd_def inline_attempt_large limit sizes small)
  obtain n w2 where n: "claims_wire_bytes fl u [PAYLOADS ! 2] w1 = (Inr n, w2)" "wall w2 = wall w1" "inline w2 = inline w1"
    "minted w2 = minted w1 + 1" "1 \<le> n" "n \<le> claim_cost (PAYLOADS ! 2)"
    using claims_wire_bytes_run [of w1 "[PAYLOADS ! 2]" u fl] assms by (auto simp: w1_def w0_def sizes)
  have small_sizes: "\<forall>p \<in> set PAYLOADS. size_bytes p < 10 ^ 7"
    by (subst payload_list) (simp add: sizes)
  obtain total w3 where t: "claims_wire_bytes fl u PAYLOADS w2 = (Inr total, w3)" "inline w3 = inline w2"
    "total \<le> sum_list (map claim_cost PAYLOADS)"
    using claims_wire_bytes_run [of w2 PAYLOADS u fl] assms n(2,4) small_sizes by (auto simp: w1_def w0_def payload_sizes)
  have costs: "claim_cost (PAYLOADS ! 2) = 677" "sum_list (map claim_cost PAYLOADS) = 1941"
    by (simp_all add: PAYLOADS_def claim_cost_def)
  have names: "original_name (PAYLOADS ! 0) = ''hero-banner.png''" "original_name (PAYLOADS ! Suc 0) = ''product-demo.mp4''"
    by (simp_all add: PAYLOADS_def)
  have carried: "bytes_transferred (inline w3) = 1000097" using n(3) t(2) by (simp add: w1_def)
  have "claim_run_naive fl u w = (Inr \<lparr>rejected_names = [''hero-banner.png'', ''product-demo.mp4''],
      delivered_payloads = [PAYLOADS ! 2], carried_bytes = 1000097, claim_bytes = n,
      traffic_ratio = round53 (1000097 / of_nat n), all_claim_bytes = total\<rparr>, w3)"
    using attempts n(1,5) t(1) carried by (simp add: claim_run_naive_def bnd_Inr w0_def [symmetric] names)
  then show ?thesis using n(5,6) t(3) costs by auto
qed

end
