(* ===== verification/Metrics_Server.thy ===== *)
theory Metrics_Server
  imports Metrics PyJson
begin

section \<open>The metrics server's surface\<close>

text \<open>
  \<^verbatim>\<open>scripts/run_metrics_server.py\<close>: the patterns \<^verbatim>\<open>main\<close> registers and the request handler. A response is
  what the handler writes, in order: the status, the headers, and the body if there is one. The patterns'
  loops, which fill the registry, are in \<open>Metrics_Loops\<close>.
\<close>

definition LOOP_INTERVAL_SECONDS :: pyfloat where
  "LOOP_INTERVAL_SECONDS = Finite 2"

record response =
  resp_status :: int
  resp_headers :: "(string \<times> string) list"
  resp_body :: "string option"

text \<open>\<^verbatim>\<open>send_response\<close>, \<^verbatim>\<open>send_header\<close> and \<^verbatim>\<open>wfile.write\<close> on the response being written.\<close>

definition send_response :: "int \<Rightarrow> response" where
  "send_response status_code = \<lparr>resp_status = status_code, resp_headers = [], resp_body = None\<rparr>"

definition send_header :: "string \<Rightarrow> string \<Rightarrow> response \<Rightarrow> response" where
  "send_header k v r = r\<lparr>resp_headers := resp_headers r @ [(k, v)]\<rparr>"

definition write_cors_headers :: "response \<Rightarrow> response" where
  "write_cors_headers r =
     send_header ''Access-Control-Allow-Methods'' ''GET, OPTIONS'' (send_header ''Access-Control-Allow-Origin'' ''*'' r)"

definition do_OPTIONS :: "string \<Rightarrow> response" where
  "do_OPTIONS path =
     (if path \<noteq> ''/metrics'' then send_response 404
      else write_cors_headers (send_response 200))"

definition snapshot_json :: "snapshot_row \<Rightarrow> json" where
  "snapshot_json row = JObj
     [(''id'', JStr (row_id row)), (''label'', JStr (row_label row)),
      (''counters'', JObj (map (\<lambda>(k, n). (k, JInt n)) (row_counters row))),
      (''last_updated'', JStr (row_last_updated row))]"

definition metrics_json :: "registry \<Rightarrow> string \<Rightarrow> json" where
  "metrics_json r now = JObj
     [(''patterns'', JList (map snapshot_json (snapshot r))), (''server_time'', JStr now)]"

definition do_GET :: "float_text \<Rightarrow> string \<Rightarrow> 'x metrics_world_scheme \<Rightarrow> response" where
  "do_GET fl path w =
     (if path \<noteq> ''/metrics'' then send_response 404
      else
        let body = json_dumps fl (metrics_json (reg w) (wall w)) in
        (send_header ''Content-Length'' (py_str_int (int (length body)))
          (write_cors_headers (send_header ''Content-Type'' ''application/json'' (send_response 200))))
        \<lparr>resp_body := Some body\<rparr>)"

definition served_patterns :: "(string \<times> string) list" where
  "served_patterns =
     [(''competing_consumers'', ''Competing Consumers''), (''event_sourcing'', ''Event Sourcing''),
      (''transactional_outbox'', ''Transactional Outbox''), (''saga'', ''Saga (Choreography)''),
      (''priority_queue'', ''Priority Queue'')]"

text \<open>What \<^verbatim>\<open>main\<close> does before the threads start.\<close>

definition register_patterns :: "('x metrics_world_scheme, unit) io" where
  "register_patterns =
     for_each (\<lambda>(pattern_id, lbl) _ w. (Inr (), w\<lparr>reg := snd (register pattern_id lbl (wall w) (reg w))\<rparr>)) served_patterns ()"

subsection \<open>The type of what is served\<close>

text \<open>
  Shapes of JSON values: an object with these fields in this order, an object used as a dictionary of one
  kind of value, or a list. \<open>shaped\<close> is the judgement; an object never repeats a key.
\<close>

datatype shape = SStr | SInt | SFloat | SRecord "(string \<times> shape) list" | SDict shape | SList shape

inductive shaped :: "json \<Rightarrow> shape \<Rightarrow> bool"
  and shaped_fields :: "(string \<times> json) list \<Rightarrow> (string \<times> shape) list \<Rightarrow> bool" where
  "shaped (JStr s) SStr"
| "shaped (JInt i) SInt"
| "shaped (JFloat x) SFloat"
| "shaped_fields kvs ts \<Longrightarrow> distinct (map fst kvs) \<Longrightarrow> shaped (JObj kvs) (SRecord ts)"
| "(\<And>k v. (k, v) \<in> set kvs \<Longrightarrow> shaped v t) \<Longrightarrow> distinct (map fst kvs) \<Longrightarrow> shaped (JObj kvs) (SDict t)"
| "(\<And>x. x \<in> set xs \<Longrightarrow> shaped x t) \<Longrightarrow> shaped (JList xs) (SList t)"
| "shaped_fields [] []"
| "shaped v t \<Longrightarrow> shaped_fields kvs ts \<Longrightarrow> shaped_fields ((k, v) # kvs) ((k, t) # ts)"

inductive_simps shaped_simps:
  "shaped (JStr s) t" "shaped (JInt i) t" "shaped (JObj kvs) (SRecord ts)" "shaped (JObj kvs) (SDict t)"
  "shaped (JList xs) (SList t)" "shaped_fields [] ts" "shaped_fields ((k, v) # kvs) ts"

definition metrics_shape :: shape where
  "metrics_shape = SRecord
     [(''patterns'', SList (SRecord
        [(''id'', SStr), (''label'', SStr), (''counters'', SDict SInt), (''last_updated'', SStr)])),
      (''server_time'', SStr)]"

text \<open>A registry as the operations build it: no pattern twice, no counter twice.\<close>

definition registry_ok :: "registry \<Rightarrow> bool" where
  "registry_ok r \<longleftrightarrow> distinct (dict_keys r) \<and> (\<forall>(p, m) \<in> set r. distinct (dict_keys (counters m)))"

lemma set_update_subset: "set (AList.update k v d) \<subseteq> insert (k, v) (set d)"
  by (induction d) auto

lemma registry_ok_update:
  "registry_ok r \<Longrightarrow> distinct (dict_keys (counters m)) \<Longrightarrow> registry_ok (AList.update p m r)"
  using set_update_subset [of p m r] by (auto simp: registry_ok_def distinct_update)

lemma registry_ok_register: "registry_ok r \<Longrightarrow> registry_ok (snd (register p l now r))"
  by (auto simp: register_def Let_def intro!: registry_ok_update split: option.splits)

lemma registry_ok_increment: "registry_ok r \<Longrightarrow> registry_ok (increment p k n now r)"
proof -
  assume r: "registry_ok r"
  have "distinct (dict_keys (counters m))" if "map_of r p = Some m" for m
    using r map_of_SomeD [OF that] by (auto simp: registry_ok_def)
  then show ?thesis using r
    by (auto simp: increment_def Let_def intro!: registry_ok_update distinct_update split: option.splits)
qed

lemma metrics_shaped: "registry_ok r \<Longrightarrow> shaped (metrics_json r now) metrics_shape"
  by (auto simp: metrics_json_def metrics_shape_def snapshot_json_def snapshot_def shaped_simps list_all_iff
      registry_ok_def comp_def case_prod_beta') force

subsection \<open>What is written is ASCII\<close>

lemma hex_digit_ascii: "n < 16 \<Longrightarrow> code (hex_digit n) < 128"
  by (auto simp: hex_digit_def)

lemma json_escape_ascii: "is_ascii (json_escape p)"
  by (simp add: json_escape_def hex4_def hex_digit_ascii backslash_def quote_mark_def)

lemma json_text_ascii: "is_ascii (json_str s)"
proof -
  have "is_ascii (concat (map json_escape ps))" for ps
    by (induction ps) (simp_all add: json_escape_ascii)
  then show ?thesis by (simp add: json_str_def quote_mark_def)
qed

lemma join_ascii: "is_ascii sep \<Longrightarrow> \<forall>x \<in> set xs. is_ascii x \<Longrightarrow> is_ascii (join sep xs)"
  by (induction sep xs rule: join.induct) auto

lemma metrics_body_ascii: "is_ascii (json_dumps fl (metrics_json r now))"
  by (auto simp: metrics_json_def snapshot_json_def json_text_ascii intro!: join_ascii)

subsection \<open>The registered patterns stay, in order\<close>

abbreviation titles :: "registry \<Rightarrow> (string \<times> string) list" where
  "titles r \<equiv> map (\<lambda>(p, m). (p, label m)) r"

lemma titles_update:
  "map_of r p = None \<Longrightarrow> titles (AList.update p m' r) = titles r @ [(p, label m')]"
  "map_of r p = Some m \<Longrightarrow> label m' = label m \<Longrightarrow> titles (AList.update p m' r) = titles r"
  by (induction r) (auto split: if_splits)

lemma titles_increment:
  "titles (increment p k n now r) = (if p \<in> set (dict_keys r) then titles r else titles r @ [(p, p)])"
proof (cases "map_of r p")
  case None
  then show ?thesis using map_of_eq_None_iff [of r p] by (simp add: increment_def Let_def titles_update(1) [OF None])
next
  case (Some m)
  then have "p \<in> set (dict_keys r)" by (force dest: map_of_SomeD)
  then show ?thesis by (simp add: increment_def Let_def Some titles_update(2) [OF Some])
qed

lemma titles_increments: "\<exists>rest. titles (increments ops r) = titles r @ rest"
proof (induction ops arbitrary: r)
  case (Cons op ops)
  obtain p k n now where "op = (p, k, n, now)" by (cases op)
  then show ?case using Cons [of "increment p k n now r"] by (auto simp: increments_def titles_increment)
qed (simp add: increments_def)

lemma registry_ok_increments: "registry_ok r \<Longrightarrow> registry_ok (increments ops r)"
  by (induction ops arbitrary: r) (auto simp: increments_def registry_ok_increment)

lemma register_fresh:
  "p \<notin> set (dict_keys r) \<Longrightarrow> snd (register p l now r) = r @ [(p, \<lparr>label = l, counters = [], last_updated = now\<rparr>)]"
  using map_of_eq_None_iff [of r p] by (simp add: register_def Let_def dict_update_fresh)

lemma register_all_fresh:
  "distinct (dict_keys (reg w) @ map fst ps) \<Longrightarrow>
    for_each (\<lambda>(p, l) _ w. (Inr (), w\<lparr>reg := snd (register p l (wall w) (reg w))\<rparr>)) ps () w =
      (Inr (), w\<lparr>reg := reg w @ map (\<lambda>(p, l). (p, \<lparr>label = l, counters = [], last_updated = wall w\<rparr>)) ps\<rparr>)"
proof (induction ps arbitrary: w)
  case (Cons pl ps)
  then show ?case by (cases pl) (simp add: bnd_def register_fresh)
qed simp

lemma register_patterns_run:
  assumes "reg w = []"
  shows "register_patterns w =
    (Inr (), w\<lparr>reg := map (\<lambda>(p, l). (p, \<lparr>label = l, counters = [], last_updated = wall w\<rparr>)) served_patterns\<rparr>)"
  unfolding register_patterns_def using assms by (subst register_all_fresh) (simp_all add: served_patterns_def)

lemma registered_ok:
  "registry_ok (map (\<lambda>(p, l). (p, \<lparr>label = l, counters = [], last_updated = now\<rparr>)) served_patterns)"
  "titles (map (\<lambda>(p, l). (p, \<lparr>label = l, counters = [], last_updated = now\<rparr>)) served_patterns) = served_patterns"
  by (simp_all add: registry_ok_def served_patterns_def)

subsection \<open>What is served of a pattern\<close>

lemma map_of_increment: "map_of (increment p k n now r) q = (if q = p then
    Some (case map_of r p of
        None \<Rightarrow> \<lparr>label = p, counters = [(k, n)], last_updated = now\<rparr>
      | Some m \<Rightarrow> m\<lparr>counters := AList.update k (dict_get (counters m) k 0 + n) (counters m), last_updated := now\<rparr>)
    else map_of r q)"
  by (simp add: increment_def Let_def dict_get_def split: option.split)

lemma last_updated_increments:
  "map_option last_updated (map_of (increments ops r) q) =
    (case rev (filter (\<lambda>(p, _). p = q) ops) of [] \<Rightarrow> map_option last_updated (map_of r q) | (p, k, n, now) # _ \<Rightarrow> Some now)"
proof (induction ops rule: rev_induct)
  case (snoc op ops)
  then show ?case
    by (cases op) (auto simp: increments_def map_of_increment split: option.splits)
qed (simp add: increments_def)

lemma served_row:
  assumes "registry_ok r" and "(p, m) \<in> set r"
  shows "map_of r p = Some m" and "counter r p k = dict_get (counters m) k 0" and "distinct (dict_keys (counters m))"
proof -
  show "map_of r p = Some m" using assms by (simp add: registry_ok_def map_of_is_SomeI)
  then show "counter r p k = dict_get (counters m) k 0" by (simp add: counter_def)
  show "distinct (dict_keys (counters m))" using assms by (auto simp: registry_ok_def)
qed

lemma counted_listed: "fst ` set ops \<subseteq> fst ` set (increments ops r)"
proof (induction ops rule: rev_induct)
  case (snoc op ops)
  obtain p k n now where op: "op = (p, k, n, now)" by (cases op)
  have "fst ` set (increment p k n now r') = insert p (fst ` set r')" for r'
    by (simp add: increment_def Let_def dom_update flip: dom_map_of_conv_image_fst)
  then show ?case using snoc by (auto simp: increments_def op)
qed simp

end
