(* ===== verification/Metrics_Loops.thy ===== *)
theory Metrics_Loops
  imports Metrics_Server Competing_Consumers ES_Store Outbox_Drain Saga Priority Demo_Base
begin

section \<open>The metrics server's loops\<close>

text \<open>
  The coroutines of \<^verbatim>\<open>scripts/run_metrics_server.py\<close>, one per pattern, each on its own thread. A loop runs
  its body once per element of \<open>naps\<close>: what the other threads do around its sleep; then \<^verbatim>\<open>stop\<close> is found set.
  The threads share the registry and the server, but not their streams and counters (\<open>quiet\<close>).
\<close>

fun server_loop :: "(nat \<Rightarrow> ('w, unit) io) \<Rightarrow> ('w \<Rightarrow> 'w) list \<Rightarrow> nat \<Rightarrow> ('w, unit) io" where
  "server_loop body [] idx = ret ()"
| "server_loop body (nap # naps) idx =
     bnd (body idx) (\<lambda>_.
     bnd (modify nap) (\<lambda>_.
     server_loop body naps (idx + 1)))"

definition run_in_thread :: "('w, unit) io \<Rightarrow> ('w, unit) io" where
  "run_in_thread coro w = (case coro w of (_, w') \<Rightarrow> (Inr (), w'))"

subsection \<open>Competing consumers\<close>

definition cc_server_task :: "nat \<Rightarrow> nat \<Rightarrow> task" where
  "cc_server_task batch_n i = \<lparr>task_id = ''batch'' @ nat_digits batch_n @ ''-task'' @ nat_digits i,
     task_payload = ''payload-'' @ nat_digits i\<rparr>"

definition cc_server_worker :: "'r redis \<Rightarrow> string \<Rightarrow> string \<Rightarrow> string \<Rightarrow> (('r, 'x) world_scheme, unit) io" where
  "cc_server_worker R stream grp cid =
     bnd (cc_read_new R stream grp cid 3 100) (\<lambda>batch.
     for_each (\<lambda>m _. bnd (cc_ack R stream grp (fst m)) (\<lambda>_.
       incr ''competing_consumers'' ''messages_consumed'' 1)) batch ())"

definition cc_server_iteration :: "'r redis \<Rightarrow> string \<Rightarrow> string \<Rightarrow> nat \<Rightarrow> (('r, 'x) world_scheme, unit) io" where
  "cc_server_iteration R stream grp batch_n =
     bnd (for_each (\<lambda>i _. bnd (cc_publish R stream (task_to_fields (cc_server_task batch_n i))) (\<lambda>_. ret ())) [0..<5] ()) (\<lambda>_.
     for_each (\<lambda>cid _. cc_server_worker R stream grp cid) [''worker-0'', ''worker-1''] ())"

definition competing_consumers_loop :: "'r redis \<Rightarrow> (('r, 'x) world_scheme \<Rightarrow> ('r, 'x) world_scheme) list \<Rightarrow>
    (('r, 'x) world_scheme, unit) io" where
  "competing_consumers_loop R naps =
     (let stream = ''metrics_server:cc''; grp = ''metrics_workers'' in
      bnd (delete_streams R [stream]) (\<lambda>_.
      bnd (cc_ensure_group R stream grp) (\<lambda>_.
      bnd (server_loop (cc_server_iteration R stream grp) naps 0) (\<lambda>_.
      bnd (delete_streams R [stream]) (\<lambda>_. ret ())))))"

subsection \<open>Event sourcing\<close>

definition es_server_iteration :: "'r redis \<Rightarrow> nat \<Rightarrow> (('r, 'x) world_scheme, unit) io" where
  "es_server_iteration R idx =
     (let aid = ''metrics-acc-'' @ nat_digits idx in
      command_then (account_create (''owner-'' @ nat_digits idx)) (new_account aid) (\<lambda>ev acct.
      bnd (es_append R aid (event_type ev) (event_to_dict ev)) (\<lambda>_.
      command_then (account_deposit 100) acct (\<lambda>ev acct.
      bnd (es_append R aid (event_type ev) (event_to_dict ev)) (\<lambda>_.
      command_then (account_withdraw 30) acct (\<lambda>ev acct.
      bnd (es_append R aid (event_type ev) (event_to_dict ev)) (\<lambda>_.
      ret ())))))))"

definition event_sourcing_loop :: "'r redis \<Rightarrow> (('r, 'x) world_scheme \<Rightarrow> ('r, 'x) world_scheme) list \<Rightarrow>
    (('r, 'x) world_scheme, unit) io" where
  "event_sourcing_loop R naps = server_loop (es_server_iteration R) naps 0"

subsection \<open>The outbox, relayed inline\<close>

definition inline_relay_entry :: "'r redis \<Rightarrow> float_text \<Rightarrow> string \<Rightarrow> outbox_entry \<Rightarrow>
    (('r, 'x) outbox_world_scheme, unit) io" where
  "inline_relay_entry R fl stream entry =
     bnd (liftr (json_loads fl (oe_payload entry))) (\<lambda>payload.
     bnd (rb_publish R stream (map (\<lambda>(k, v). (k, value_str fl v)) payload)) (\<lambda>_.
     bnd (case oe_id entry of None \<Rightarrow> raise AssertionError | Some i \<Rightarrow> delete_outbox_entry i) (\<lambda>_.
     incr ''transactional_outbox'' ''entries_relayed'' 1)))"

definition outbox_server_iteration :: "'r redis \<Rightarrow> float_text \<Rightarrow> string \<Rightarrow> nat \<Rightarrow>
    (('r, 'x) outbox_world_scheme, unit) io" where
  "outbox_server_iteration R fl stream idx w =
     (let order = \<lparr>ob_order_id = ''m-order-'' @ nat_digits idx, ob_customer_id = ''cust-'' @ nat_digits idx,
        ob_amount = Finite 99, ob_created_at = wall w\<rparr> in
      bnd (insert_order_with_outbox fl order) (\<lambda>_.
      bnd (poll_outbox 10) (\<lambda>entries.
      for_each (\<lambda>entry _. inline_relay_entry R fl stream entry) entries ())) w)"

definition outbox_loop :: "'r redis \<Rightarrow> float_text \<Rightarrow> (('r, 'x) outbox_world_scheme \<Rightarrow> ('r, 'x) outbox_world_scheme) list \<Rightarrow>
    (('r, 'x) outbox_world_scheme, unit) io" where
  "outbox_loop R fl naps =
     (let stream = ''metrics_server:outbox'' in
      bnd (modify (\<lambda>w. w\<lparr>tables := [], order_rows := [], outbox_rows := [], outbox_seq := 0\<rparr>)) (\<lambda>_.
      bnd create_tables (\<lambda>_.
      bnd (server_loop (outbox_server_iteration R fl stream) naps 0) (\<lambda>_.
      bnd (delete_streams R [stream]) (\<lambda>_. ret ())))))"

subsection \<open>The saga\<close>

text \<open>
  Each iteration makes new services, so an empty dictionary of orders, and a new order object, the
  \<open>idx\<close>-th; \<open>runs idx\<close> is the environment of that iteration's saga.
\<close>

definition saga_server_iteration :: "'r redis \<Rightarrow> float_text \<Rightarrow> (nat \<Rightarrow> string) \<Rightarrow>
    (nat \<Rightarrow> ('r saga_world \<Rightarrow> 'r saga_world) list) \<Rightarrow> nat \<Rightarrow> ('r saga_world, unit) io" where
  "saga_server_iteration R fl u runs idx =
     bnd (delete_streams R [STREAM_ORDERS, STREAM_PAYMENTS, STREAM_SHIPPING]) (\<lambda>_.
     bnd (uuid4 u) (\<lambda>oid.
     bnd (modify (\<lambda>w. w\<lparr>order_heap := (order_heap w)(idx := \<lparr>order_id = oid, customer_id = ''cust-'' @ nat_digits idx,
       amount = Finite 50, status = PENDING, created_at = wall w\<rparr>), orders := []\<rparr>)) (\<lambda>_.
     run_saga R fl u idx (runs idx))))"

definition saga_loop_thread :: "'r redis \<Rightarrow> float_text \<Rightarrow> (nat \<Rightarrow> string) \<Rightarrow>
    (nat \<Rightarrow> ('r saga_world \<Rightarrow> 'r saga_world) list) \<Rightarrow> ('r saga_world \<Rightarrow> 'r saga_world) list \<Rightarrow> ('r saga_world, unit) io" where
  "saga_loop_thread R fl u runs naps =
     bnd (server_loop (saga_server_iteration R fl u runs) naps 0) (\<lambda>_.
     bnd (delete_streams R [STREAM_ORDERS, STREAM_PAYMENTS, STREAM_SHIPPING]) (\<lambda>_. ret ()))"

subsection \<open>The priority queue\<close>

definition pq_server_ticket :: "nat \<Rightarrow> priority \<Rightarrow> string \<Rightarrow> support_ticket" where
  "pq_server_ticket idx priority prefix = \<lparr>ticket_id = prefix @ ''-'' @ zero_pad 4 idx,
     subject = ''ticket '' @ nat_digits idx, ticket_priority = priority, ticket_customer_id = ''cust-'' @ nat_digits idx\<rparr>"

definition pq_server_step :: "'r redis \<Rightarrow> string \<Rightarrow> nat \<Rightarrow> priority \<Rightarrow> string \<Rightarrow> (('r, 'x) world_scheme, unit) io" where
  "pq_server_step R grp idx priority prefix =
     bnd (pq_publish R (pq_server_ticket idx priority prefix)) (\<lambda>_.
     bnd (pq_read_new R priority grp ''metrics-agent'' 10 50) (\<lambda>batch.
     for_each (\<lambda>m _. bnd (pq_ack R priority grp (fst m)) (\<lambda>_.
       bnd (incr ''priority_queue'' ''tickets_consumed'' 1) (\<lambda>_.
       incr ''priority_queue'' (priority_value priority @ ''_consumed'') 1))) batch ()))"

definition pq_server_iteration :: "'r redis \<Rightarrow> string \<Rightarrow> nat \<Rightarrow> (('r, 'x) world_scheme, unit) io" where
  "pq_server_iteration R grp idx =
     for_each (\<lambda>(priority, prefix) _. pq_server_step R grp idx priority prefix)
       [(HIGH, ''H''), (NORMAL, ''N''), (LOW, ''L'')] ()"

definition priority_queue_loop :: "'r redis \<Rightarrow> (('r, 'x) world_scheme \<Rightarrow> ('r, 'x) world_scheme) list \<Rightarrow>
    (('r, 'x) world_scheme, unit) io" where
  "priority_queue_loop R naps =
     (let grp = ''metrics_agents'' in
      bnd (delete_streams R (map STREAMS all_priorities)) (\<lambda>_.
      bnd (pq_ensure_all_groups R grp) (\<lambda>_.
      bnd (server_loop (pq_server_iteration R grp) naps 0) (\<lambda>_.
      bnd (delete_streams R (map STREAMS all_priorities)) (\<lambda>_. ret ())))))"

subsection \<open>What an effect adds to the counters\<close>

definition counts :: "'x metrics_world_scheme \<Rightarrow> 'x metrics_world_scheme \<Rightarrow> (string \<Rightarrow> string \<Rightarrow> int) \<Rightarrow> bool" where
  "counts w w' f \<longleftrightarrow> (\<forall>p k. counter (reg w') p k = counter (reg w) p k + f p k)"

definition once :: "string \<Rightarrow> string \<Rightarrow> string \<Rightarrow> string \<Rightarrow> int" where
  "once p k = (\<lambda>p' k'. if p' = p \<and> k' = k then 1 else 0)"

lemma counts_trans: "counts w w1 f \<Longrightarrow> counts w1 w2 g \<Longrightarrow> (\<And>p k. h p k = f p k + g p k) \<Longrightarrow> counts w w2 h"
  by (simp add: counts_def)

lemma counts_incr: "counts w (w\<lparr>reg := increment p k 1 now (reg w)\<rparr>) (once p k)"
  by (simp add: counts_def counter_increment once_def)

lemma counts_same: "reg w' = reg w \<Longrightarrow> counts w w' (\<lambda>p k. 0)"
  by (simp add: counts_def)

text \<open>An effect that only counts.\<close>

definition counting :: "(('r, 'x) world_scheme, unit) io \<Rightarrow> (string \<Rightarrow> string \<Rightarrow> int) \<Rightarrow> bool" where
  "counting act f \<longleftrightarrow> (\<forall>w. \<exists>w'. act w = (Inr (), w') \<and> srv w' = srv w \<and> counts w w' f)"

lemma counting_incr: "counting (incr p k 1) (once p k)"
  by (simp add: counting_def incr_def counts_incr)

lemma counting_bnd:
  "counting a f \<Longrightarrow> counting b g \<Longrightarrow> counting (bnd a (\<lambda>_. b)) (\<lambda>p k. f p k + g p k)"
  unfolding counting_def by (metis (no_types, lifting) bnd_Inr counts_trans)

text \<open>The group of a stream, and everything else the server holds left alone.\<close>

definition settled :: "keyspace \<Rightarrow> string \<Rightarrow> string \<Rightarrow> bool" where
  "settled k s g \<longleftrightarrow> ks_group k s g = Some \<lparr>g_new = [], g_pel = []\<rparr> \<and> distinct (map fst (ks_entries k s))"

definition elsewhere_same :: "string \<Rightarrow> keyspace \<Rightarrow> keyspace \<Rightarrow> bool" where
  "elsewhere_same s k k' \<longleftrightarrow> (\<forall>s'. s' \<noteq> s \<longrightarrow> ks_entries k' s' = ks_entries k s' \<and> (\<forall>g. ks_group k' s' g = ks_group k s' g))"

lemma elsewhere_trans: "elsewhere_same s k k1 \<Longrightarrow> elsewhere_same s k1 k2 \<Longrightarrow> elsewhere_same s k k2"
  by (simp add: elsewhere_same_def)

lemma elsewhere_refl [simp]: "elsewhere_same s k k"
  by (simp add: elsewhere_same_def)

lemma elsewhere_updates [simp]:
  "elsewhere_same s k (ks_put_group s g gr k)" "elsewhere_same s k (ks_xadd s i f k)" "elsewhere_same s k (ks_ack s g i k)"
  by (simp_all add: elsewhere_same_def ks_ack_def split: option.splits)

text \<open>\<open>waiting\<close>: the group has delivered and settled all but the last entries, which are \<open>n\<close>.\<close>

definition waiting :: "keyspace \<Rightarrow> string \<Rightarrow> string \<Rightarrow> nat \<Rightarrow> bool" where
  "waiting k s g n \<longleftrightarrow> (\<exists>pre es. ks_entries k s = pre @ es \<and> length es = n \<and> distinct (map fst (ks_entries k s)) \<and>
     ks_group k s g = Some \<lparr>g_new = es, g_pel = []\<rparr>)"

lemma waiting_elsewhere: "elsewhere_same s k k' \<Longrightarrow> s' \<noteq> s \<Longrightarrow> waiting k' s' g n = waiting k s' g n"
  by (simp add: waiting_def elsewhere_same_def)

text \<open>One iteration of the priority queue: each tier publishes one ticket and consumes it.\<close>

definition tier_counts :: "string \<Rightarrow> string \<Rightarrow> int" where
  "tier_counts = (\<lambda>p k. \<Sum>priority \<leftarrow> all_priorities. once ''priority_queue'' ''tickets_published'' p k +
      once ''priority_queue'' (priority_value priority @ ''_published'') p k +
      once ''priority_queue'' ''tickets_consumed'' p k + once ''priority_queue'' (priority_value priority @ ''_consumed'') p k)"

context redis_available
begin

lemma ack_batch_run:
  assumes act: "counting act f"
    and "ks_group (kv w) s g = Some gr" and "pel_entries gr = batch" and "distinct (map fst batch)"
  shows "\<exists>w' gr'. for_each (\<lambda>m _. bnd (group_ack R s g (fst m)) (\<lambda>_. act)) batch () w = (Inr (), w') \<and>
    ks_group (kv w') s g = Some gr' \<and> g_pel gr' = [] \<and> g_new gr' = g_new gr \<and>
    ks_entries (kv w') = ks_entries (kv w) \<and> elsewhere_same s (kv w) (kv w') \<and>
    counts w w' (\<lambda>p k. int (length batch) * f p k)"
  using assms(2-)
proof (induction batch arbitrary: w gr)
  case Nil
  then show ?case by (auto simp: counts_def)
next
  case (Cons m batch)
  obtain n w1 where a: "group_ack R s g (fst m) w = (Inr n, w1)" by (rule group_ack_up)
  have w1: "kv w1 = ks_ack s g (fst m) (kv w)" "reg w1 = reg w"
    using group_ack_effect [OF a] a by (auto simp: group_ack_def redis_call_eq_iff)
  obtain w2 where w2: "act w1 = (Inr (), w2)" "srv w2 = srv w1" "counts w1 w2 f"
    using act by (auto simp: counting_def)
  have "filter (\<lambda>e. fst e \<noteq> fst m) batch = batch"
    using Cons.prems(3) by (intro filter_True) (metis distinct.simps(2) image_eqI list.simps(9) set_map)
  then have gr2: "ks_group (kv w2) s g = Some (unpend (fst m) gr)" "pel_entries (unpend (fst m) gr) = batch"
    using Cons.prems(1,2) w1(1) w2(2) by (simp_all add: ks_ack_def)
  then obtain w' gr' where w': "for_each (\<lambda>m _. bnd (group_ack R s g (fst m)) (\<lambda>_. act)) batch () w2 = (Inr (), w')"
    "ks_group (kv w') s g = Some gr'" "g_pel gr' = []" "g_new gr' = g_new gr"
    "ks_entries (kv w') = ks_entries (kv w2)" "elsewhere_same s (kv w2) (kv w')"
    "counts w2 w' (\<lambda>p k. int (length batch) * f p k)"
    using Cons.IH [OF gr2] Cons.prems(3) by auto
  have "ks_entries (kv w2) = ks_entries (kv w)" using w1(1) w2(2) by (simp add: ks_ack_def split: option.splits)
  moreover have "elsewhere_same s (kv w) (kv w2)" using w1(1) w2(2) by simp
  moreover have "counts w w2 f" using w1(2) w2(3) by (simp add: counts_def)
  ultimately show ?case using w' w2(1) a elsewhere_trans counts_trans [of w w2 f w']
    by (auto simp: bnd_Inr distrib_right)
qed

lemma read_ack_run:
  assumes act: "counting act f" and n: "1 \<le> n"
    and gr: "ks_group (kv w) s g = Some \<lparr>g_new = es, g_pel = []\<rparr>" and es: "distinct (map fst es)"
  shows "\<exists>w'. bnd (group_read R g c s ''>'' n b) (\<lambda>batch.
      for_each (\<lambda>m _. bnd (group_ack R s g (fst m)) (\<lambda>_. act)) batch ()) w = (Inr (), w') \<and>
    ks_group (kv w') s g = Some \<lparr>g_new = drop (nat n) es, g_pel = []\<rparr> \<and>
    ks_entries (kv w') = ks_entries (kv w) \<and> elsewhere_same s (kv w) (kv w') \<and>
    counts w w' (\<lambda>p k. int (min (nat n) (length es)) * f p k)"
proof -
  obtain bt w1 where rd: "group_read R g c s ''>'' n b w = (Inr bt, w1)"
    using gr n by (metis group_read_up insertI1 option.distinct(1))
  define d where "d = deliver c (ks_time (kv w)) (nat n) \<lparr>g_new = es, g_pel = []\<rparr>"
  have w1: "bt = take (nat n) es" "kv w1 = ks_put_group s g d (kv w)"
    using group_read_new_effect [OF rd n] gr by (auto simp: d_def)
  have reg: "reg w1 = reg w" using rd by (auto simp: group_read_def redis_call_eq_iff elim!: bnd_InrE)
  have "ks_group (kv w1) s g = Some d" "pel_entries d = bt" "g_new d = drop (nat n) es"
    using w1 by (simp_all add: d_def)
  moreover have "distinct (map fst bt)" using es by (simp add: w1(1) take_map [symmetric])
  ultimately obtain w' gr' where w': "for_each (\<lambda>m _. bnd (group_ack R s g (fst m)) (\<lambda>_. act)) bt () w1 = (Inr (), w')"
    "ks_group (kv w') s g = Some gr'" "g_pel gr' = []" "g_new gr' = drop (nat n) es" "ks_entries (kv w') = ks_entries (kv w1)"
    "elsewhere_same s (kv w1) (kv w')" "counts w1 w' (\<lambda>p k. int (length bt) * f p k)"
    using ack_batch_run [OF act, of w1 s g d bt] by metis
  have "gr' = \<lparr>g_new = drop (nat n) es, g_pel = []\<rparr>" using w'(3,4) by simp
  moreover have "elsewhere_same s (kv w) (kv w')" using w'(6) w1(2) elsewhere_trans elsewhere_updates(1) by metis
  ultimately show ?thesis using w' w1 reg rd by (simp add: bnd_Inr counts_def min.commute)
qed

lemma xadd_counted:
  assumes act: "counting act f" and "fs \<noteq> []" and wait: "waiting (kv w) s g n"
  shows "\<exists>i w'. bnd (redis_call (xadd R s fs)) (\<lambda>i. bnd act (\<lambda>_. ret i)) w = (Inr i, w') \<and>
    waiting (kv w') s g (Suc n) \<and> elsewhere_same s (kv w) (kv w') \<and> counts w w' f"
proof -
  obtain pre es where es: "ks_entries (kv w) s = pre @ es" "length es = n" "distinct (map fst (ks_entries (kv w) s))"
    "ks_group (kv w) s g = Some \<lparr>g_new = es, g_pel = []\<rparr>" using wait by (auto simp: waiting_def)
  obtain i r' where x: "xadd R s fs (srv w) = (Inr i, r')" using xadd_up [OF assms(2)] by blast
  note law = xadd_law [OF x]
  obtain w' where w': "act (w\<lparr>srv := r'\<rparr>) = (Inr (), w')" "srv w' = r'" "counts (w\<lparr>srv := r'\<rparr>) w' f"
    using spec [OF act [unfolded counting_def], of "w\<lparr>srv := r'\<rparr>"] by auto
  have "kv w' = ks_xadd s i fs (kv w)" using law w'(2) by simp
  moreover have "waiting (ks_xadd s i fs (kv w)) s g (Suc n)" unfolding waiting_def
    using es law by (intro exI [of _ pre] exI [of _ "es @ [(i, fs)]"]) auto
  ultimately show ?thesis using w' x by (auto simp: bnd_def redis_call_def counts_def)
qed

lemma read_ack_waiting:
  assumes act: "counting act f" and n: "1 \<le> n" and wait: "waiting (kv w) s g m"
  shows "\<exists>w'. bnd (group_read R g c s ''>'' n b) (\<lambda>batch.
      for_each (\<lambda>m _. bnd (group_ack R s g (fst m)) (\<lambda>_. act)) batch ()) w = (Inr (), w') \<and>
    waiting (kv w') s g (m - nat n) \<and> elsewhere_same s (kv w) (kv w') \<and>
    counts w w' (\<lambda>p k. int (min (nat n) m) * f p k)"
proof -
  obtain pre es where es: "ks_entries (kv w) s = pre @ es" "length es = m" "distinct (map fst (ks_entries (kv w) s))"
    "ks_group (kv w) s g = Some \<lparr>g_new = es, g_pel = []\<rparr>" using wait by (auto simp: waiting_def)
  then have "distinct (map fst es)" by simp
  from read_ack_run [OF act n es(4) this] es(2) obtain w' where w': "bnd (group_read R g c s ''>'' n b) (\<lambda>batch.
      for_each (\<lambda>m _. bnd (group_ack R s g (fst m)) (\<lambda>_. act)) batch ()) w = (Inr (), w')"
    "ks_group (kv w') s g = Some \<lparr>g_new = drop (nat n) es, g_pel = []\<rparr>" "ks_entries (kv w') = ks_entries (kv w)"
    "elsewhere_same s (kv w) (kv w')" "counts w w' (\<lambda>p k. int (min (nat n) m) * f p k)" by blast
  have "ks_entries (kv w') s = (pre @ take (nat n) es) @ drop (nat n) es" using es(1) w'(3) by simp
  then have "waiting (kv w') s g (m - nat n)" unfolding waiting_def using es w'(2,3)
    by (intro exI [of _ "pre @ take (nat n) es"] exI [of _ "drop (nat n) es"]) simp
  then show ?thesis using w' by blast
qed

subsection \<open>The loops keep up\<close>

lemma cc_publishes_run:
  assumes "waiting (kv w) s g n"
  shows "\<exists>w'. for_each (\<lambda>i _. bnd (cc_publish R s (task_to_fields (tk i))) (\<lambda>_. ret ())) is () w = (Inr (), w') \<and>
    waiting (kv w') s g (n + length is) \<and>
    counts w w' (\<lambda>p k. int (length is) * once ''competing_consumers'' ''messages_published'' p k)"
  using assms
proof (induction "is" arbitrary: w n)
  case Nil
  then show ?case by (simp add: counts_def)
next
  case (Cons i "is")
  have "task_to_fields (tk i) \<noteq> []" by (simp add: task_to_fields_def)
  then obtain m w1 where w1: "cc_publish R s (task_to_fields (tk i)) w = (Inr m, w1)" "waiting (kv w1) s g (Suc n)"
    "counts w w1 (once ''competing_consumers'' ''messages_published'')"
    using xadd_counted [OF counting_incr _ Cons.prems] unfolding cc_publish_def by blast
  then show ?case using Cons.IH [OF w1(2)] counts_trans [OF w1(3)]
    by (fastforce simp: bnd_Inr bnd_assoc distrib_right)
qed

lemma cc_server_worker_run:
  assumes "waiting (kv w) s g m"
  shows "\<exists>w'. cc_server_worker R s g c w = (Inr (), w') \<and> waiting (kv w') s g (m - 3) \<and>
    counts w w' (\<lambda>p k. int (min 3 m) * once ''competing_consumers'' ''messages_consumed'' p k)"
  using read_ack_waiting [OF counting_incr _ assms, where n = 3 and c = c and b = "Some 100"]
  unfolding cc_server_worker_def cc_broker_idioms by auto

lemma cc_server_iteration_run:
  assumes "waiting (kv w) s g 0"
  shows "\<exists>w'. cc_server_iteration R s g batch_n w = (Inr (), w') \<and> waiting (kv w') s g 0 \<and>
    counts w w' (\<lambda>p k. 5 * once ''competing_consumers'' ''messages_published'' p k +
      5 * once ''competing_consumers'' ''messages_consumed'' p k)"
proof -
  obtain w1 where w1: "for_each (\<lambda>i _. bnd (cc_publish R s (task_to_fields (cc_server_task batch_n i))) (\<lambda>_. ret ())) [0..<5] () w
      = (Inr (), w1)" "waiting (kv w1) s g 5"
    "counts w w1 (\<lambda>p k. 5 * once ''competing_consumers'' ''messages_published'' p k)"
    using cc_publishes_run [OF assms, of "cc_server_task batch_n" "[0..<5]"] by auto
  obtain w2 where w2: "cc_server_worker R s g ''worker-0'' w1 = (Inr (), w2)" "waiting (kv w2) s g 2"
    "counts w1 w2 (\<lambda>p k. 3 * once ''competing_consumers'' ''messages_consumed'' p k)"
    using cc_server_worker_run [OF w1(2), of "''worker-0''"] by auto
  obtain w3 where w3: "cc_server_worker R s g ''worker-1'' w2 = (Inr (), w3)" "waiting (kv w3) s g 0"
    "counts w2 w3 (\<lambda>p k. 2 * once ''competing_consumers'' ''messages_consumed'' p k)"
    using cc_server_worker_run [OF w2(2), of "''worker-1''"] by auto
  have "counts w w3 (\<lambda>p k. 5 * once ''competing_consumers'' ''messages_published'' p k +
      5 * once ''competing_consumers'' ''messages_consumed'' p k)"
    using w1(3) w2(3) w3(3) by (simp add: counts_def)
  then show ?thesis using w1(1) w2(1) w3(1,2) by (simp add: cc_server_iteration_def bnd_Inr)
qed

lemma pq_server_step_run:
  assumes wait: "waiting (kv w) (STREAMS priority) g 0"
  shows "\<exists>w'. pq_server_step R g idx priority prefix w = (Inr (), w') \<and> waiting (kv w') (STREAMS priority) g 0 \<and>
    elsewhere_same (STREAMS priority) (kv w) (kv w') \<and>
    counts w w' (\<lambda>p k. once ''priority_queue'' ''tickets_published'' p k +
      once ''priority_queue'' (priority_value priority @ ''_published'') p k +
      once ''priority_queue'' ''tickets_consumed'' p k + once ''priority_queue'' (priority_value priority @ ''_consumed'') p k)"
proof -
  let ?t = "pq_server_ticket idx priority prefix"
  have "ticket_to_fields ?t \<noteq> []" by (simp add: ticket_to_fields_def)
  moreover have pub: "pq_publish R ?t = bnd (redis_call (xadd R (STREAMS priority) (ticket_to_fields ?t))) (\<lambda>i.
      bnd (bnd (incr ''priority_queue'' ''tickets_published'' 1)
        (\<lambda>_. incr ''priority_queue'' (priority_value priority @ ''_published'') 1)) (\<lambda>_. ret i))"
    by (simp add: pq_publish_def pq_server_ticket_def bnd_assoc Let_def)
  ultimately obtain i w1 where
    w1: "pq_publish R ?t w = (Inr i, w1)" "waiting (kv w1) (STREAMS priority) g (Suc 0)"
    "elsewhere_same (STREAMS priority) (kv w) (kv w1)"
    "counts w w1 (\<lambda>p k. once ''priority_queue'' ''tickets_published'' p k +
      once ''priority_queue'' (priority_value priority @ ''_published'') p k)"
    using xadd_counted [OF counting_bnd [OF counting_incr counting_incr] _ wait] unfolding pub by blast
  have rd: "pq_read_new R priority g ''metrics-agent'' 10 50 = group_read R g ''metrics-agent'' (STREAMS priority) ''>'' 10 (Some 50)"
    "pq_ack R priority g = group_ack R (STREAMS priority) g" by (simp_all add: pq_idioms fun_eq_iff)
  obtain w2 where
    w2: "bnd (pq_read_new R priority g ''metrics-agent'' 10 50) (\<lambda>batch. for_each (\<lambda>m _. bnd (pq_ack R priority g (fst m)) (\<lambda>_.
      bnd (incr ''priority_queue'' ''tickets_consumed'' 1) (\<lambda>_. incr ''priority_queue'' (priority_value priority @ ''_consumed'') 1)))
      batch ()) w1 = (Inr (), w2)" "waiting (kv w2) (STREAMS priority) g 0"
    "elsewhere_same (STREAMS priority) (kv w1) (kv w2)"
    "counts w1 w2 (\<lambda>p k. once ''priority_queue'' ''tickets_consumed'' p k +
      once ''priority_queue'' (priority_value priority @ ''_consumed'') p k)"
    using read_ack_waiting [OF counting_bnd [OF counting_incr [of "''priority_queue''" "''tickets_consumed''"]
        counting_incr [of "''priority_queue''" "priority_value priority @ ''_consumed''"]] _ w1(2),
      where n = 10 and c = "''metrics-agent''" and b = "Some 50"] unfolding rd by force
  have "counts w w2 (\<lambda>p k. once ''priority_queue'' ''tickets_published'' p k +
      once ''priority_queue'' (priority_value priority @ ''_published'') p k +
      once ''priority_queue'' ''tickets_consumed'' p k + once ''priority_queue'' (priority_value priority @ ''_consumed'') p k)"
    using w1(4) w2(4) by (simp add: counts_def)
  then show ?thesis using w1 w2 elsewhere_trans [OF w1(3) w2(3)] by (simp add: pq_server_step_def bnd_Inr)
qed

lemma pq_server_iteration_run:
  assumes wait: "\<forall>p. waiting (kv w) (STREAMS p) g 0"
  shows "\<exists>w'. pq_server_iteration R g idx w = (Inr (), w') \<and> (\<forall>p. waiting (kv w') (STREAMS p) g 0) \<and> counts w w' tier_counts"
proof -
  have step: "\<exists>w'. pq_server_step R g idx priority prefix w = (Inr (), w') \<and> (\<forall>p. waiting (kv w') (STREAMS p) g 0) \<and>
    counts w w' (\<lambda>p k. once ''priority_queue'' ''tickets_published'' p k +
      once ''priority_queue'' (priority_value priority @ ''_published'') p k +
      once ''priority_queue'' ''tickets_consumed'' p k + once ''priority_queue'' (priority_value priority @ ''_consumed'') p k)"
    if all: "\<forall>p. waiting (kv w) (STREAMS p) g 0" for priority prefix and w :: "('a, 'b) world_scheme"
  proof -
    obtain w' where w': "pq_server_step R g idx priority prefix w = (Inr (), w')" "waiting (kv w') (STREAMS priority) g 0"
      "elsewhere_same (STREAMS priority) (kv w) (kv w')"
      "counts w w' (\<lambda>p k. once ''priority_queue'' ''tickets_published'' p k +
        once ''priority_queue'' (priority_value priority @ ''_published'') p k +
        once ''priority_queue'' ''tickets_consumed'' p k + once ''priority_queue'' (priority_value priority @ ''_consumed'') p k)"
      using pq_server_step_run [of w priority g idx prefix] all by blast
    have "waiting (kv w') (STREAMS p) g 0" for p
      using waiting_elsewhere [OF w'(3), of "STREAMS p"] w'(2) all by (cases "p = priority") auto
    then show ?thesis using w' by blast
  qed
  obtain w1 where w1: "pq_server_step R g idx HIGH ''H'' w = (Inr (), w1)" "\<forall>p. waiting (kv w1) (STREAMS p) g 0"
    "counts w w1 (\<lambda>p k. once ''priority_queue'' ''tickets_published'' p k +
      once ''priority_queue'' (priority_value HIGH @ ''_published'') p k +
      once ''priority_queue'' ''tickets_consumed'' p k + once ''priority_queue'' (priority_value HIGH @ ''_consumed'') p k)"
    using step [OF wait] by blast
  obtain w2 where w2: "pq_server_step R g idx NORMAL ''N'' w1 = (Inr (), w2)" "\<forall>p. waiting (kv w2) (STREAMS p) g 0"
    "counts w1 w2 (\<lambda>p k. once ''priority_queue'' ''tickets_published'' p k +
      once ''priority_queue'' (priority_value NORMAL @ ''_published'') p k +
      once ''priority_queue'' ''tickets_consumed'' p k + once ''priority_queue'' (priority_value NORMAL @ ''_consumed'') p k)"
    using step [OF w1(2)] by blast
  obtain w3 where w3: "pq_server_step R g idx LOW ''L'' w2 = (Inr (), w3)" "\<forall>p. waiting (kv w3) (STREAMS p) g 0"
    "counts w2 w3 (\<lambda>p k. once ''priority_queue'' ''tickets_published'' p k +
      once ''priority_queue'' (priority_value LOW @ ''_published'') p k +
      once ''priority_queue'' ''tickets_consumed'' p k + once ''priority_queue'' (priority_value LOW @ ''_consumed'') p k)"
    using step [OF w2(2)] by blast
  have "counts w w3 tier_counts" using w1(3) w2(3) w3(3) by (simp add: counts_def tier_counts_def all_priorities_def)
  then show ?thesis using w1(1) w2(1) w3(1,2) by (simp add: pq_server_iteration_def bnd_Inr)
qed

end

subsection \<open>Any number of iterations\<close>

definition quiet :: "('r \<Rightarrow> keyspace) \<Rightarrow> string set \<Rightarrow> string \<Rightarrow> (('r, 'x) world_scheme \<Rightarrow> ('r, 'x) world_scheme) \<Rightarrow> bool" where
  "quiet view ss pattern nap \<longleftrightarrow> (\<forall>w. (\<forall>s \<in> ss. ks_entries (view (srv (nap w))) s = ks_entries (view (srv w)) s \<and>
       (\<forall>g. ks_group (view (srv (nap w))) s g = ks_group (view (srv w)) s g)) \<and>
     (\<forall>k. counter (reg (nap w)) pattern k = counter (reg w) pattern k))"

lemma quiet_waiting:
  "quiet view ss p nap \<Longrightarrow> s \<in> ss \<Longrightarrow> waiting (view (srv (nap w))) s g n = waiting (view (srv w)) s g n"
  by (simp add: quiet_def waiting_def)

lemma server_loop_run:
  assumes body: "\<And>idx w. I idx w \<Longrightarrow> \<exists>w'. body idx w = (Inr (), w') \<and> I (idx + 1) w' \<and> counts w w' f"
    and naps: "\<And>nap idx w. nap \<in> set naps \<Longrightarrow> I idx w \<Longrightarrow>
      I idx (nap w) \<and> (\<forall>k. counter (reg (nap w)) p k = counter (reg w) p k)"
    and init: "I idx w"
  shows "\<exists>w'. server_loop body naps idx w = (Inr (), w') \<and> I (idx + length naps) w' \<and>
    (\<forall>k. counter (reg w') p k = counter (reg w) p k + int (length naps) * f p k)"
  using naps init
proof (induction naps arbitrary: idx w)
  case Nil
  then show ?case by simp
next
  case (Cons nap naps)
  obtain w1 where w1: "body idx w = (Inr (), w1)" "I (idx + 1) w1" "counts w w1 f" using body [OF Cons.prems(2)] by blast
  have nap: "I (idx + 1) (nap w1)" "\<forall>k. counter (reg (nap w1)) p k = counter (reg w1) p k"
    using Cons.prems(1) w1(2) by auto
  have later: "I idx (nap w) \<and> (\<forall>k. counter (reg (nap w)) p k = counter (reg w) p k)"
    if "nap \<in> set naps" "I idx w" for nap idx w using Cons.prems(1) that by simp
  obtain w' where "server_loop body naps (idx + 1) (nap w1) = (Inr (), w')" "I (idx + 1 + length naps) w'"
    "\<forall>k. counter (reg w') p k = counter (reg (nap w1)) p k + int (length naps) * f p k"
    using Cons.IH [where idx = "idx + 1" and w = "nap w1", OF _ nap(1)] later by blast
  then show ?case using w1 nap(2) by (simp add: bnd_Inr counts_def distrib_right)
qed

lemma group_create_reg: "group_create R s g w = (res, w') \<Longrightarrow> reg w' = reg w"
  by (auto simp: group_create_def created_or_busy_def bnd_def try_io_def redis_call_def split: prod.splits sum.splits
      exn.splits if_splits)

lemma pq_ensure_groups_reg: "pq_ensure_groups R ps g w = (Inr (), w') \<Longrightarrow> reg w' = reg w"
  unfolding pq_ensure_groups_def
  by (rule for_each_invariant [where P = "\<lambda>_ w1. reg w1 = reg w"])
    (auto simp: pq_idioms elim!: bnd_InrE dest: group_create_reg)

definition server_order :: "nat \<Rightarrow> string \<Rightarrow> ob_order" where
  "server_order idx now = \<lparr>ob_order_id = ''m-order-'' @ nat_digits idx, ob_customer_id = ''cust-'' @ nat_digits idx,
     ob_amount = Finite 99, ob_created_at = now\<rparr>"

definition outbox_at :: "nat \<Rightarrow> ('r, 'x) outbox_world_scheme \<Rightarrow> bool" where
  "outbox_at idx w \<longleftrightarrow> {''orders'', ''outbox''} \<subseteq> set (tables w) \<and> outbox_rows w = [] \<and>
     map ob_order_id (order_rows w) = map (\<lambda>i. ''m-order-'' @ nat_digits i) [0..<idx]"

context redis_available
begin

lemma competing_consumers_loop_run:
  assumes naps: "\<forall>nap \<in> set naps. quiet view {''metrics_server:cc''} ''competing_consumers'' nap"
  shows "\<exists>w'. competing_consumers_loop R naps w = (Inr (), w') \<and> ks_entries (kv w') ''metrics_server:cc'' = [] \<and>
    (\<forall>k. counter (reg w') ''competing_consumers'' k = counter (reg w) ''competing_consumers'' k +
      int (length naps) * (5 * once ''competing_consumers'' ''messages_published'' ''competing_consumers'' k +
        5 * once ''competing_consumers'' ''messages_consumed'' ''competing_consumers'' k))"
proof -
  let ?s = "''metrics_server:cc''" and ?g = "''metrics_workers''"
  obtain d w1 where del: "delete_streams R [?s] w = (Inr d, w1)" by (rule delete_streams_up)
  note w1 = delete_streams_effect [OF del]
  obtain b w2 where mk: "cc_ensure_group R ?s ?g w1 = (Inr b, w2)"
    unfolding cc_broker_idioms by (rule group_create_up)
  have w2: "waiting (kv w2) ?s ?g 0" "reg w2 = reg w1"
    using group_create_effect [OF mk [unfolded cc_broker_idioms]] group_create_reg [OF mk [unfolded cc_broker_idioms]] w1
    by (auto simp: waiting_def new_group_def)
  have keep: "waiting (kv (nap w)) ?s ?g 0 \<and>
      (\<forall>k. counter (reg (nap w)) ''competing_consumers'' k = counter (reg w) ''competing_consumers'' k)"
    if "nap \<in> set naps" "waiting (kv w) ?s ?g 0" for nap and w :: "('a, 'b) world_scheme"
    using naps that by (auto simp: quiet_def waiting_def)
  obtain w3 where w3: "server_loop (cc_server_iteration R ?s ?g) naps 0 w2 = (Inr (), w3)"
    "\<forall>k. counter (reg w3) ''competing_consumers'' k = counter (reg w2) ''competing_consumers'' k +
      int (length naps) * (5 * once ''competing_consumers'' ''messages_published'' ''competing_consumers'' k +
        5 * once ''competing_consumers'' ''messages_consumed'' ''competing_consumers'' k)"
    using server_loop_run [where I = "\<lambda>_ w. waiting (kv w) ?s ?g 0" and body = "cc_server_iteration R ?s ?g" and naps = naps
        and p = "''competing_consumers''" and idx = 0 and w = w2 and f = "\<lambda>p k. 5 * once ''competing_consumers'' ''messages_published'' p k +
      5 * once ''competing_consumers'' ''messages_consumed'' p k"] cc_server_iteration_run [where s = ?s and g = ?g] keep w2(1)
    by blast
  obtain d' w4 where del': "delete_streams R [?s] w3 = (Inr d', w4)" by (rule delete_streams_up)
  note w4 = delete_streams_effect [OF del']
  have "competing_consumers_loop R naps w = (Inr (), w4)"
    using del mk w3(1) del' by (simp add: competing_consumers_loop_def bnd_Inr Let_def)
  then show ?thesis using w3(2) w4 w2(2) w1 by auto
qed

lemma priority_queue_loop_run:
  assumes naps: "\<forall>nap \<in> set naps. quiet view (range STREAMS) ''priority_queue'' nap"
  shows "\<exists>w'. priority_queue_loop R naps w = (Inr (), w') \<and> (\<forall>p. ks_entries (kv w') (STREAMS p) = []) \<and>
    (\<forall>k. counter (reg w') ''priority_queue'' k = counter (reg w) ''priority_queue'' k +
      int (length naps) * tier_counts ''priority_queue'' k)"
proof -
  let ?g = "''metrics_agents''"
  have mem: "STREAMS p \<in> set (map STREAMS all_priorities)" for p using all_priorities_complete by auto
  obtain d w1 where del: "delete_streams R (map STREAMS all_priorities) w = (Inr d, w1)" by (rule delete_streams_up)
  note w1 = delete_streams_effect [OF del]
  have "\<forall>p \<in> set all_priorities. ks_group (kv w1) (STREAMS p) ?g = None" using w1 mem by simp
  moreover have "distinct all_priorities" by (simp add: all_priorities_def)
  ultimately obtain w2 where w2: "pq_ensure_all_groups R ?g w1 = (Inr (), w2)" "ks_entries (kv w2) = ks_entries (kv w1)"
    "\<forall>p. ks_group (kv w2) (STREAMS p) ?g = Some (new_group (ks_entries (kv w1) (STREAMS p)))"
    using pq_ensure_groups_up [of all_priorities w1 ?g] all_priorities_complete by (auto simp: pq_ensure_all_groups_def)
  have reg2: "reg w2 = reg w1" using w2(1) pq_ensure_groups_reg by (auto simp: pq_ensure_all_groups_def)
  have wait: "\<forall>p. waiting (kv w2) (STREAMS p) ?g 0" using w1 w2(2,3) mem by (auto simp: waiting_def new_group_def)
  have keep: "(\<forall>p. waiting (kv (nap w)) (STREAMS p) ?g 0) \<and>
      (\<forall>k. counter (reg (nap w)) ''priority_queue'' k = counter (reg w) ''priority_queue'' k)"
    if "nap \<in> set naps" "\<forall>p. waiting (kv w) (STREAMS p) ?g 0" for nap and w :: "('a, 'b) world_scheme"
    using naps that by (auto simp: quiet_def waiting_def)
  obtain w3 where w3: "server_loop (pq_server_iteration R ?g) naps 0 w2 = (Inr (), w3)"
    "\<forall>k. counter (reg w3) ''priority_queue'' k = counter (reg w2) ''priority_queue'' k +
      int (length naps) * tier_counts ''priority_queue'' k"
    using server_loop_run [where I = "\<lambda>_ w. \<forall>p. waiting (kv w) (STREAMS p) ?g 0" and body = "pq_server_iteration R ?g"
        and naps = naps and p = "''priority_queue''" and idx = 0 and w = w2 and f = tier_counts]
      pq_server_iteration_run [where g = ?g] keep wait
    by blast
  obtain d' w4 where del': "delete_streams R (map STREAMS all_priorities) w3 = (Inr d', w4)" by (rule delete_streams_up)
  note w4 = delete_streams_effect [OF del']
  have "priority_queue_loop R naps w = (Inr (), w4)"
    using del w2(1) w3(1) del' by (simp add: priority_queue_loop_def bnd_Inr Let_def)
  then show ?thesis using w3(2) w4 reg2 w1 mem by auto
qed

subsection \<open>The outbox's loop\<close>

lemma inline_relay: "inline_relay_entry R fl stream = relay_entry R fl stream (\<lambda>w. w)"
  by (simp add: inline_relay_entry_def relay_entry_def fun_eq_iff bnd_def [of "liftr _"] split: sum.splits)

lemma relay_entry_counts:
  assumes "relay_entry R fl stream (\<lambda>w. w) entry w = (Inr (), w')"
  shows "counts w w' (once ''transactional_outbox'' ''entries_relayed'')"
  using assms unfolding relay_entry_def
  by (auto elim!: bnd_InrE simp: rb_publish_def redis_call_eq_iff incr_def delete_outbox_entry_def transaction_def
      counts_def counter_increment once_def split: option.splits if_splits)

lemma outbox_server_iteration_run:
  assumes fl: "float_json_ok fl" and at: "outbox_at idx w"
  shows "\<exists>w'. outbox_server_iteration R fl s idx w = (Inr (), w') \<and> outbox_at (idx + 1) w' \<and>
    counts w w' (\<lambda>p k. once ''transactional_outbox'' ''orders_inserted'' p k +
      once ''transactional_outbox'' ''entries_relayed'' p k)"
proof -
  define order where "order = server_order idx (wall w)"
  define row where "row = \<lparr>or_id = outbox_seq w + 1, or_order_id = ob_order_id order,
    or_payload = order_payload fl order, or_created_at = wall w\<rparr>"
  have "ob_order_id order \<notin> ob_order_id ` set (order_rows w)"
  proof
    assume "ob_order_id order \<in> ob_order_id ` set (order_rows w)"
    then have "ob_order_id order \<in> set (map ob_order_id (order_rows w))" by simp
    also have "\<dots> = set (map (\<lambda>i. ''m-order-'' @ nat_digits i) [0..<idx])" using at by (simp only: outbox_at_def)
    finally obtain i where "i < idx" "nat_digits idx = nat_digits i" by (auto simp: order_def server_order_def)
    then show False using injD [OF inj_nat_digits] by blast
  qed
  then obtain w1 where w1: "insert_order_with_outbox fl order w = (Inr \<lparr>oe_order_id = ob_order_id order,
        oe_payload = order_payload fl order, oe_id = Some (outbox_seq w + 1), oe_created_at = wall w\<rparr>, w1)"
      "order_rows w1 = order_rows w @ [order]" "tables w1 = tables w" "outbox_rows w1 = [row]"
    using at by (cases rule: insert_order_cases [of fl order w])
      (auto simp: outbox_at_def order_def server_order_def row_def)
  have c1: "counts w w1 (once ''transactional_outbox'' ''orders_inserted'')"
    using w1(1) unfolding insert_order_with_outbox_def Let_def
    by (auto elim!: bnd_InrE simp: transaction_def sql_insert_order_def sql_insert_outbox_def incr_def counts_def
        counter_increment once_def bnd_def split: if_splits)
  have poll: "poll_outbox 10 w1 = (Inr [row_entry row], w1)"
    using at w1(3,4) by (simp add: poll_outbox_def outbox_at_def)
  have "ob_text_ok order" by (simp add: ob_text_ok_def order_def server_order_def valid_utf8_ascii)
  then obtain w2 where w2: "relay_entry R fl s (\<lambda>w. w) (row_entry row) w1 = (Inr (), w2)"
    "outbox_rows w2 = []" "order_rows w2 = order_rows w1" "tables w2 = tables w1"
    using relay_entry_run [OF fl, of order row w1 s] w1(3,4) at by (auto simp: outbox_at_def row_def)
  have "outbox_server_iteration R fl s idx w = (Inr (), w2)"
    using w1(1) poll w2(1) unfolding outbox_server_iteration_def inline_relay order_def server_order_def Let_def
    by (simp add: bnd_Inr)
  moreover have "outbox_at (idx + 1) w2"
    using at w1(2,3) w2(2-4) by (simp add: outbox_at_def order_def server_order_def)
  moreover have "counts w w2 (\<lambda>p k. once ''transactional_outbox'' ''orders_inserted'' p k +
      once ''transactional_outbox'' ''entries_relayed'' p k)"
    using c1 relay_entry_counts [OF w2(1)] by (simp add: counts_def)
  ultimately show ?thesis by blast
qed

lemma outbox_loop_run:
  fixes w :: "('a, 'x) outbox_world_scheme"
  assumes fl: "float_json_ok fl"
    and naps: "\<forall>nap \<in> set naps. quiet view {} ''transactional_outbox'' nap \<and> (\<forall>w. tables (nap w) = tables w \<and>
      outbox_rows (nap w) = outbox_rows w \<and> order_rows (nap w) = order_rows w)"
  shows "\<exists>w'. outbox_loop R fl naps w = (Inr (), w') \<and> outbox_rows w' = [] \<and> length (order_rows w') = length naps \<and>
    (\<forall>k. counter (reg w') ''transactional_outbox'' k = counter (reg w) ''transactional_outbox'' k +
      int (length naps) * (once ''transactional_outbox'' ''orders_inserted'' ''transactional_outbox'' k +
        once ''transactional_outbox'' ''entries_relayed'' ''transactional_outbox'' k))"
proof -
  define w1 where "w1 = w\<lparr>order_rows := [], outbox_rows := [], outbox_seq := 0, tables := [''orders'', ''outbox'']\<rparr>"
  have start: "outbox_at 0 w1" by (simp add: outbox_at_def w1_def)
  have keep: "outbox_at idx (nap w) \<and>
      (\<forall>k. counter (reg (nap w)) ''transactional_outbox'' k = counter (reg w) ''transactional_outbox'' k)"
    if "nap \<in> set naps" "outbox_at idx w" for nap idx and w :: "('a, 'x) outbox_world_scheme"
    using naps that by (auto simp: quiet_def outbox_at_def)
  obtain w2 where w2: "server_loop (outbox_server_iteration R fl ''metrics_server:outbox'') naps 0 w1 = (Inr (), w2)"
    "outbox_at (0 + length naps) w2"
    "\<forall>k. counter (reg w2) ''transactional_outbox'' k = counter (reg w1) ''transactional_outbox'' k +
      int (length naps) * (once ''transactional_outbox'' ''orders_inserted'' ''transactional_outbox'' k +
        once ''transactional_outbox'' ''entries_relayed'' ''transactional_outbox'' k)"
    using server_loop_run [where I = outbox_at and body = "outbox_server_iteration R fl ''metrics_server:outbox''"
        and naps = naps and p = "''transactional_outbox''" and idx = 0 and w = w1
        and f = "\<lambda>p k. once ''transactional_outbox'' ''orders_inserted'' p k + once ''transactional_outbox'' ''entries_relayed'' p k"]
      outbox_server_iteration_run [OF fl, where s = "''metrics_server:outbox''"] keep start by blast
  obtain d w3 where del: "delete_streams R [''metrics_server:outbox''] w2 = (Inr d, w3)" by (rule delete_streams_up)
  have w3: "reg w3 = reg w2" "order_rows w3 = order_rows w2" "outbox_rows w3 = outbox_rows w2"
    using del by (auto simp: delete_streams_def redis_call_eq_iff)
  have "outbox_loop R fl naps w = (Inr (), w3)"
    using w2(1) del by (simp add: outbox_loop_def create_tables_def add_table_def bnd_Inr w1_def Let_def)
  moreover have "length (order_rows w3) = length naps" using w2(2) w3(2) map_eq_imp_length_eq by (fastforce simp: outbox_at_def)
  ultimately show ?thesis using w2(2,3) w3 by (auto simp: outbox_at_def w1_def)
qed

end

subsection \<open>The event store's loop\<close>

definition metrics_account :: "nat \<Rightarrow> string" where
  "metrics_account idx = ''metrics-acc-'' @ nat_digits idx"

definition metrics_events :: "nat \<Rightarrow> account_event list" where
  "metrics_events idx = [AccountCreated (metrics_account idx) (''owner-'' @ nat_digits idx),
     MoneyDeposited (metrics_account idx) (py_str_int 100), MoneyWithdrawn (metrics_account idx) (py_str_int 30)]"

lemma metrics_events_replay: "\<exists>acc. replay (metrics_events idx) = Inr acc \<and> balance acc = 70 \<and> version acc = 3"
  by (simp add: replay_def metrics_events_def new_account_def)

lemma metrics_account_inj: "metrics_account i = metrics_account j \<longleftrightarrow> i = j"
  using injD [OF inj_nat_digits] by (auto simp: metrics_account_def)

lemma history_xadd:
  "history (ks_xadd s i f k) aid = (if s = account_stream aid then history k aid @ [decode_event f] else history k aid)"
  by (simp add: history_def)

context redis_available
begin

lemma es_append_run:
  "\<exists>i w'. es_append R aid (event_type ev) (event_to_dict ev) w = (Inr i, w') \<and>
    kv w' = ks_xadd (account_stream aid) i (event_to_dict ev) (kv w) \<and>
    counts w w' (once ''event_sourcing'' ''events_appended'')"
proof -
  have "event_to_dict ev \<noteq> []" by (cases ev) simp_all
  then obtain i r' where x: "xadd R (account_stream aid) (event_to_dict ev) (srv w) = (Inr i, r')" using xadd_up by blast
  define w1 where "w1 = w\<lparr>srv := r'\<rparr>"
  define w2 where "w2 = w1\<lparr>reg := increment ''event_sourcing'' ''events_appended'' 1 (wall w1) (reg w1)\<rparr>"
  have "es_append R aid (event_type ev) (event_to_dict ev) w = (Inr i, w2)"
    by (simp add: es_append_def es_append_payload bnd_def redis_call_def x incr_def w1_def w2_def)
  moreover have "counts w w2 (once ''event_sourcing'' ''events_appended'')"
    using counts_incr [of w1] by (simp add: counts_def w2_def w1_def)
  ultimately show ?thesis using xadd_law [OF x] by (auto simp: w2_def w1_def)
qed

lemma es_server_iteration_run:
  "\<exists>w'. es_server_iteration R idx w = (Inr (), w') \<and>
    (\<forall>aid. history (kv w') aid = history (kv w) aid @ (if aid = metrics_account idx then map Inr (metrics_events idx) else [])) \<and>
    counts w w' (\<lambda>p k. 3 * once ''event_sourcing'' ''events_appended'' p k)"
proof -
  let ?aid = "metrics_account idx"
  let ?e1 = "AccountCreated ?aid (''owner-'' @ nat_digits idx)" and ?e2 = "MoneyDeposited ?aid (py_str_int 100)"
    and ?e3 = "MoneyWithdrawn ?aid (py_str_int 30)"
  obtain i1 w1 where w1: "es_append R ?aid (event_type ?e1) (event_to_dict ?e1) w = (Inr i1, w1)"
    "kv w1 = ks_xadd (account_stream ?aid) i1 (event_to_dict ?e1) (kv w)" "counts w w1 (once ''event_sourcing'' ''events_appended'')"
    using es_append_run by blast
  obtain i2 w2 where w2: "es_append R ?aid (event_type ?e2) (event_to_dict ?e2) w1 = (Inr i2, w2)"
    "kv w2 = ks_xadd (account_stream ?aid) i2 (event_to_dict ?e2) (kv w1)" "counts w1 w2 (once ''event_sourcing'' ''events_appended'')"
    using es_append_run by blast
  obtain i3 w3 where w3: "es_append R ?aid (event_type ?e3) (event_to_dict ?e3) w2 = (Inr i3, w3)"
    "kv w3 = ks_xadd (account_stream ?aid) i3 (event_to_dict ?e3) (kv w2)" "counts w2 w3 (once ''event_sourcing'' ''events_appended'')"
    using es_append_run by blast
  define a1 where "a1 = \<lparr>account_id = ?aid, owner_id = ''owner-'' @ nat_digits idx, balance = 0, version = 1, created = True\<rparr>"
  have cmd: "account_create (''owner-'' @ nat_digits idx) (new_account ?aid) = (Inr ?e1, a1)"
    "account_deposit 100 a1 = (Inr ?e2, a1\<lparr>balance := 100, version := 2\<rparr>)"
    "account_withdraw 30 (a1\<lparr>balance := 100, version := 2\<rparr>) = (Inr ?e3, a1\<lparr>balance := 70, version := 3\<rparr>)"
    by (simp_all add: command_defs new_account_def a1_def)
  have "es_server_iteration R idx w = (Inr (), w3)"
    by (simp only: es_server_iteration_def metrics_account_def [symmetric] command_then_def Let_def cmd prod.case sum.case
        bnd_Inr w1(1) w2(1) w3(1) ret_apply)
  moreover have "event_text_ok ?e1" "event_text_ok ?e2" "event_text_ok ?e3"
    by (simp_all add: metrics_account_def valid_utf8_ascii)
  note dec = this [THEN decode_event_to_dict]
  have "history (kv w3) aid = history (kv w) aid @ (if aid = ?aid then map Inr (metrics_events idx) else [])" for aid
    using dec by (cases "aid = ?aid") (simp_all add: w1(2) w2(2) w3(2) history_xadd account_stream_inj metrics_events_def
        del: event_to_dict.simps)
  ultimately show ?thesis using w1(3) w2(3) w3(3) by (simp add: counts_def)
qed

text \<open>
  An account of the loop gets its three events whatever its stream held before: the loop does not delete the
  streams of an earlier run, whose accounts have the same names.
\<close>

lemma event_sourcing_loop_run:
  fixes w :: "('a, 'x) world_scheme"
  assumes naps: "\<forall>nap \<in> set naps. quiet view (range account_stream) ''event_sourcing'' nap"
  shows "\<exists>w'. event_sourcing_loop R naps w = (Inr (), w') \<and>
    (\<forall>i. history (kv w') (metrics_account i) =
      history (kv w) (metrics_account i) @ (if i < length naps then map Inr (metrics_events i) else [])) \<and>
    (\<forall>k. counter (reg w') ''event_sourcing'' k = counter (reg w) ''event_sourcing'' k +
      int (length naps) * (3 * once ''event_sourcing'' ''events_appended'' ''event_sourcing'' k))"
proof -
  define I where "I idx w1 \<longleftrightarrow> (\<forall>i. history (kv w1) (metrics_account i) =
      history (kv w) (metrics_account i) @ (if i < idx then map Inr (metrics_events i) else []))"
    for idx and w1 :: "('a, 'x) world_scheme"
  have body: "\<exists>w'. es_server_iteration R idx w = (Inr (), w') \<and> I (idx + 1) w' \<and>
      counts w w' (\<lambda>p k. 3 * once ''event_sourcing'' ''events_appended'' p k)" if I: "I idx w" for idx and w :: "('a, 'x) world_scheme"
    using es_server_iteration_run [of idx w] I unfolding I_def by (fastforce simp: metrics_account_inj less_Suc_eq)
  have keep: "I idx (nap w) \<and> (\<forall>k. counter (reg (nap w)) ''event_sourcing'' k = counter (reg w) ''event_sourcing'' k)"
    if "nap \<in> set naps" "I idx w" for nap idx and w :: "('a, 'x) world_scheme"
    using naps that by (auto simp: quiet_def I_def history_def)
  have "I 0 w" by (simp add: I_def)
  with body keep obtain w' where "server_loop (es_server_iteration R) naps 0 w = (Inr (), w')" "I (0 + length naps) w'"
    "\<forall>k. counter (reg w') ''event_sourcing'' k = counter (reg w) ''event_sourcing'' k +
      int (length naps) * (3 * once ''event_sourcing'' ''events_appended'' ''event_sourcing'' k)"
    using server_loop_run [where I = I and body = "es_server_iteration R" and naps = naps and p = "''event_sourcing''" and idx = 0
        and w = w and f = "\<lambda>p k. 3 * once ''event_sourcing'' ''events_appended'' p k"] by blast
  then show ?thesis by (auto simp: event_sourcing_loop_def I_def)
qed

end

text \<open>Three more events of the loop are 70 more in the balance.\<close>

lemma metrics_events_again:
  assumes "replay evs = Inr acc"
  shows "\<exists>acc'. replay (evs @ metrics_events idx) = Inr acc' \<and> balance acc' = balance acc + 70"
  using assms by (simp add: replay_def replay_onto_append metrics_events_def)

subsection \<open>The saga's loop\<close>

lemma server_loop_keeps:
  assumes body: "\<And>idx w. I idx w \<Longrightarrow> \<exists>w'. body idx w = (Inr (), w') \<and> I (idx + 1) w'"
    and naps: "\<And>nap idx w. nap \<in> set naps \<Longrightarrow> I idx w \<Longrightarrow> I idx (nap w)" and init: "I idx w"
  shows "\<exists>w'. server_loop body naps idx w = (Inr (), w') \<and> I (idx + length naps) w'"
  using naps init
proof (induction naps arbitrary: idx w)
  case (Cons nap naps)
  obtain w1 where w1: "body idx w = (Inr (), w1)" "I (idx + 1) w1" using body [OF Cons.prems(2)] by blast
  have "I (idx + 1) (nap w1)" using Cons.prems(1) w1(2) by simp
  then obtain w' where "server_loop body naps (idx + 1) (nap w1) = (Inr (), w')" "I (idx + 1 + length naps) w'"
    using Cons.IH [of "idx + 1" "nap w1"] Cons.prems(1) by auto
  then show ?case using w1(1) by (simp add: bnd_Inr)
qed simp

context redis_available
begin

lemma saga_server_iteration_run:
  assumes fl: "float_text_ok fl" and u: "\<And>n. is_ascii (u n)" and runs: "runs idx = (\<lambda>w. w) # envs"
  shows "\<exists>w' o1. saga_server_iteration R fl u runs idx w = (Inr (), w') \<and>
    order_heap w' = (order_heap w)(idx := o1\<lparr>status := COMPLETED\<rparr>)"
proof -
  obtain d w1 where del: "delete_streams R [STREAM_ORDERS, STREAM_PAYMENTS, STREAM_SHIPPING] w = (Inr d, w1)" by (rule delete_streams_up)
  note w1 = delete_streams_effect [OF del]
  define o1 where "o1 = \<lparr>order_id = u (uuids_drawn w1), customer_id = ''cust-'' @ nat_digits idx, amount = Finite 50,
    status = PENDING, created_at = wall w1\<rparr>"
  define w2 where "w2 = w1\<lparr>uuids_drawn := uuids_drawn w1 + 1, order_heap := (order_heap w1)(idx := o1), orders := []\<rparr>"
  have ok: "order_heap w2 idx = o1" "saga_order_ok o1" "\<not> le_zero (amount o1)"
    using u by (simp_all add: w2_def o1_def saga_order_ok_def valid_utf8_ascii)
  have empty: "ks_entries (kv w2) s = []" if "s \<in> {STREAM_ORDERS, STREAM_PAYMENTS, STREAM_SHIPPING}" for s
    using that w1 by (auto simp: w2_def)
  obtain w3 where w3: "run_saga R fl u idx (runs idx) w2 = (Inr (), w3)" "order_heap w3 = (order_heap w2)(idx := o1\<lparr>status := COMPLETED\<rparr>)"
    using run_saga_completes_heap [where envs = envs and u = u, OF ok(1,2) fl u ok(3)] empty runs by auto
  have "order_heap w1 = order_heap w" using saga_fields_same w1 by blast
  then have "order_heap w3 = (order_heap w)(idx := o1\<lparr>status := COMPLETED\<rparr>)" using w3(2) by (simp add: w2_def)
  moreover have "saga_server_iteration R fl u runs idx w = (Inr (), w3)"
    using del w3(1) by (simp add: saga_server_iteration_def bnd_Inr uuid4_def o1_def w2_def bnd_def [of "uuid4 u"])
  ultimately show ?thesis by blast
qed

lemma saga_loop_thread_run:
  assumes fl: "float_text_ok fl" and u: "\<And>n. is_ascii (u n)" and runs: "\<And>idx. \<exists>envs. runs idx = (\<lambda>w. w) # envs"
    and naps: "\<forall>nap \<in> set naps. \<forall>w. order_heap (nap w) = order_heap w"
  shows "\<exists>w'. saga_loop_thread R fl u runs naps w = (Inr (), w') \<and>
    (\<forall>idx < length naps. status (order_heap w' idx) = COMPLETED) \<and>
    (\<forall>s \<in> {STREAM_ORDERS, STREAM_PAYMENTS, STREAM_SHIPPING}. ks_entries (kv w') s = [])"
proof -
  have "\<exists>w'. server_loop (saga_server_iteration R fl u runs) naps 0 w = (Inr (), w') \<and>
      (\<forall>i < 0 + length naps. status (order_heap w' i) = COMPLETED)"
  proof (rule server_loop_keeps [where I = "\<lambda>n w. \<forall>i < n. status (order_heap w i) = COMPLETED"])
    fix idx and w :: "'a saga_world" assume I: "\<forall>i < idx. status (order_heap w i) = COMPLETED"
    obtain envs where "runs idx = (\<lambda>w. w) # envs" using runs by blast
    then obtain w' o1 where "saga_server_iteration R fl u runs idx w = (Inr (), w')"
      "order_heap w' = (order_heap w)(idx := o1\<lparr>status := COMPLETED\<rparr>)"
      using saga_server_iteration_run [where w = w and u = u and runs = runs and idx = idx and envs = envs, OF fl] u by auto
    with I show "\<exists>w'. saga_server_iteration R fl u runs idx w = (Inr (), w') \<and> (\<forall>i < idx + 1. status (order_heap w' i) = COMPLETED)"
      by (auto simp: less_Suc_eq)
  qed (use naps in auto)
  then obtain w1 where w1: "server_loop (saga_server_iteration R fl u runs) naps 0 w = (Inr (), w1)"
    "\<forall>i < length naps. status (order_heap w1 i) = COMPLETED" by auto
  obtain d w2 where del: "delete_streams R [STREAM_ORDERS, STREAM_PAYMENTS, STREAM_SHIPPING] w1 = (Inr d, w2)" by (rule delete_streams_up)
  note w2 = delete_streams_effect [OF del]
  have "order_heap w2 = order_heap w1" using saga_fields_same w2 by blast
  moreover have "saga_loop_thread R fl u runs naps w = (Inr (), w2)"
    using w1(1) del by (simp add: saga_loop_thread_def bnd_Inr)
  ultimately show ?thesis using w1(2) w2 by auto
qed

end

end
