(* ===== verification/Demo_Properties.thy ===== *)
theory Demo_Properties
  imports DLQ_Bench Outbox_Bench CC_Balance CC_Bench Priority_Demo Saga_Demo ES_Demo Scatter_Demo Claim_Demo Metrics_Loops
    Outbox_Properties Scatter_Properties
begin

section \<open>Properties of the demonstrations and of the metrics server\<close>

text \<open>
  The scripts run the patterns and their baselines side by side; the theorems say what each run shows, for
  every server that keeps the laws. The witnesses run them on \<open>mem_redis\<close>.
\<close>

definition demo_world_of :: "'x \<Rightarrow> (keyspace, 'x) world_scheme" where
  "demo_world_of x = \<lparr>reg = [], wall = ''now'', srv = empty_keyspace, \<dots> = x\<rparr>"

lemma demo_world_facts' [simp]:
  "reg (demo_world_of x) = []" "ks_entries (srv (demo_world_of x)) s = []" "ks_group (srv (demo_world_of x)) s g = None"
  by (simp_all add: demo_world_of_def empty_keyspace_def ks_entries_def ks_group_def)

subsection \<open>The metrics server\<close>

text \<open>
  C33: what the metrics server serves. Once the five patterns are registered, and whatever the threads have
  counted since, a request for the metrics is answered by an ASCII JSON document whose length is the announced
  one: an object with the list of patterns and the time, in which no key is twice and which has the shape
  \<open>metrics_shape\<close> of the dashboard's contract. The registered patterns come first, with their ids and labels and in
  their order, no id comes twice, and every pattern that was counted is there; each counter is the total of
  what was counted under its key, and \<open>last_updated\<close> is the instant of the pattern's last count, or of its
  registration. Any other path is not found.
\<close>

theorem served_metrics_typed:
  assumes "reg w0 = []" and "register_patterns w0 = (Inr (), w1)" and "reg w = increments counted (reg w1)"
  shows "\<exists>rows. let served = JObj [(''patterns'', JList (map (\<lambda>(p, l, cs, t). JObj
        [(''id'', JStr p), (''label'', JStr l), (''counters'', JObj (map (\<lambda>(k, n). (k, JInt n)) cs)),
         (''last_updated'', JStr t)]) rows)), (''server_time'', JStr (wall w))];
      body = json_dumps fl served in
    do_GET fl path w = (if path = ''/metrics''
      then \<lparr>resp_status = 200, resp_headers =
        [(''Content-Type'', ''application/json''), (''Access-Control-Allow-Origin'', ''*''),
         (''Access-Control-Allow-Methods'', ''GET, OPTIONS''), (''Content-Length'', py_str_int (int (length body)))],
        resp_body = Some body\<rparr>
      else \<lparr>resp_status = 404, resp_headers = [], resp_body = None\<rparr>) \<and>
    is_ascii body \<and> shaped served metrics_shape \<and>
    map (\<lambda>(p, l, _). (p, l)) (take 5 rows) = served_patterns \<and> distinct (map fst rows) \<and>
    fst ` set counted \<subseteq> fst ` set rows \<and>
    (\<forall>(p, l, cs, t) \<in> set rows.
      (\<forall>k. dict_get cs k 0 = (\<Sum>(q, j, n, _) \<leftarrow> counted. if q = p \<and> j = k then n else 0)) \<and>
      t = last (wall w0 # map (\<lambda>(_, _, _, now). now) (filter (\<lambda>(q, _). q = p) counted)))"
proof -
  let ?rows = "map (\<lambda>(p, m). (p, label m, counters m, last_updated m)) (reg w)"
  have w1: "reg w1 = map (\<lambda>(p, l). (p, \<lparr>label = l, counters = [], last_updated = wall w0\<rparr>)) served_patterns"
    using assms(2) by (auto simp: register_patterns_run [OF assms(1)])
  have ok1: "registry_ok (reg w1)" "titles (reg w1) = served_patterns" unfolding w1 by (rule registered_ok)+
  have ok: "registry_ok (reg w)" using registry_ok_increments [OF ok1(1)] assms(3) by simp
  obtain rest where "titles (reg w) = served_patterns @ rest"
    using titles_increments [of counted "reg w1"] ok1(2) assms(3) by auto
  then have "take 5 (titles (reg w)) = served_patterns" by (simp add: served_patterns_def)
  then have titles: "map (\<lambda>(p, l, _). (p, l)) (take 5 ?rows) = served_patterns"
    by (simp add: take_map comp_def case_prod_beta')
  have json: "metrics_json (reg w) (wall w) = JObj [(''patterns'', JList (map (\<lambda>(p, l, cs, t). JObj
        [(''id'', JStr p), (''label'', JStr l), (''counters'', JObj (map (\<lambda>(k, n). (k, JInt n)) cs)),
         (''last_updated'', JStr t)]) ?rows)), (''server_time'', JStr (wall w))]"
    by (simp add: metrics_json_def snapshot_json_def snapshot_def comp_def case_prod_beta')
  have "distinct (map fst ?rows)" using ok by (simp add: registry_ok_def comp_def case_prod_beta')
  moreover have "fst ` set counted \<subseteq> fst ` set ?rows"
    using counted_listed [of counted "reg w1"] assms(3) by (force simp: image_iff)
  moreover have "\<forall>(p, l, cs, t) \<in> set ?rows.
      (\<forall>k. dict_get cs k 0 = (\<Sum>(q, j, n, _) \<leftarrow> counted. if q = p \<and> j = k then n else 0)) \<and>
      t = last (wall w0 # map (\<lambda>(_, _, _, now). now) (filter (\<lambda>(q, _). q = p) counted))"
  proof -
    have "(\<forall>k. dict_get (counters m) k 0 = (\<Sum>(q, j, n, _) \<leftarrow> counted. if q = p \<and> j = k then n else 0)) \<and>
        last_updated m = last (wall w0 # map (\<lambda>(_, _, _, now). now) (filter (\<lambda>(q, _). q = p) counted))"
      if m: "(p, m) \<in> set (reg w)" for p m
    proof -
      have "counter (reg w1) p k = 0" for k by (simp add: w1 served_patterns_def counter_def dict_get_def)
      then have "dict_get (counters m) k 0 = (\<Sum>(q, j, n, _) \<leftarrow> counted. if q = p \<and> j = k then n else 0)" for k
        using served_row(2) [OF ok m, of k] counter_increments [of counted "reg w1" p k] assms(3) by simp
      moreover have fresh: "map_of (reg w1) p = Some m1 \<Longrightarrow> last_updated m1 = wall w0" for m1
        by (auto simp: w1 served_patterns_def split: if_splits)
      have "Some (last_updated m) = map_option last_updated (map_of (increments counted (reg w1)) p)"
        using served_row(1) [OF ok m] assms(3) by simp
      then have "last_updated m = last (wall w0 # map (\<lambda>(_, _, _, now). now) (filter (\<lambda>(q, _). q = p) counted))"
        unfolding last_updated_increments
        by (cases "filter (\<lambda>(q, _). q = p) counted" rule: rev_cases)
          (auto dest!: sym [of "Some (last_updated m)"] simp: fresh split: list.splits prod.splits)
      ultimately show ?thesis by blast
    qed
    then show ?thesis by auto
  qed
  moreover have "shaped (metrics_json (reg w) (wall w)) metrics_shape" "is_ascii (json_dumps fl (metrics_json (reg w) (wall w)))"
    by (rule metrics_shaped [OF ok], rule metrics_body_ascii)
  moreover have "do_GET fl path w = (let body = json_dumps fl (metrics_json (reg w) (wall w)) in if path = ''/metrics''
      then \<lparr>resp_status = 200, resp_headers =
        [(''Content-Type'', ''application/json''), (''Access-Control-Allow-Origin'', ''*''),
         (''Access-Control-Allow-Methods'', ''GET, OPTIONS''), (''Content-Length'', py_str_int (int (length body)))],
        resp_body = Some body\<rparr>
      else \<lparr>resp_status = 404, resp_headers = [], resp_body = None\<rparr>)"
    by (simp add: do_GET_def send_response_def send_header_def write_cors_headers_def Let_def)
  ultimately show ?thesis using titles unfolding Let_def json by (intro exI [of _ ?rows] conjI)
qed

definition counted_world :: "(keyspace, unit) world_scheme" where
  "counted_world = (snd (register_patterns (demo_world_of ())))
     \<lparr>reg := increments [(''saga'', ''sagas_started'', 1, ''t'')] (reg (snd (register_patterns (demo_world_of ()))))\<rparr>"

theorem served_metrics_typed_witness:
  "\<exists>body rows. resp_body (do_GET demo_floats ''/metrics'' counted_world) = Some body \<and>
    map (\<lambda>(p, l, _). (p, l)) (take 5 rows) = served_patterns \<and>
    (\<forall>(p, l, cs, t) \<in> set rows. p = ''saga'' \<longrightarrow> dict_get cs ''sagas_started'' 0 = (1 :: int) \<and> t = ''t'')"
proof -
  have r: "register_patterns (demo_world_of ()) = (Inr (), snd (register_patterns (demo_world_of ())))"
    by (simp add: register_patterns_run)
  have c: "reg counted_world = increments [(''saga'', ''sagas_started'', 1, ''t'')] (reg (snd (register_patterns (demo_world_of ()))))"
    by (simp add: counted_world_def)
  have saga: "\<forall>(p, l, cs, t) \<in> set rows. (\<forall>k. dict_get cs k 0 =
        (\<Sum>(q, j, n, _) \<leftarrow> [(''saga'', ''sagas_started'', 1, ''t'')]. if q = p \<and> j = k then n else 0)) \<and>
      t = last (wall (demo_world_of ()) # map (\<lambda>(_, _, _, now). now)
        (filter (\<lambda>(q, _). q = p) [(''saga'', ''sagas_started'', 1, ''t'')])) \<Longrightarrow>
    \<forall>(p, l, cs, t) \<in> set rows. p = ''saga'' \<longrightarrow> dict_get cs ''sagas_started'' 0 = (1 :: int) \<and> t = ''t''"
    for rows :: "(string \<times> string \<times> (string, int) dict \<times> string) list"
    by fastforce
  note serve = served_metrics_typed [OF demo_world_facts'(1) r c, of demo_floats "''/metrics''", unfolded Let_def]
  show ?thesis
    by (rule exE [OF serve], elim conjE, intro exI conjI, simp only: refl if_True response.select_convs) (assumption, erule saga)
qed

text \<open>
  C34: the five loops of the metrics server keep up. Let a loop iterate any number of times, with whatever
  the other threads do while it sleeps as long as they leave its streams, tables, orders and counters alone
  (\<open>quiet\<close>): it never raises, and when it is stopped everything it published was consumed. Of the competing
  consumers these are five tasks an iteration and of the priority queue one ticket of each priority; the outbox
  has one order an iteration, each relayed; every saga has ended completed, and its streams are deleted. The
  event store got an account an iteration, whose balance is 70 if its stream was new; the streams are never
  deleted, and an account that an earlier run of the server left there gets the three events once more, and
  70 more in its balance.
\<close>

theorem metrics_loops_keep_up:
  fixes w :: "('r, 'x) world_scheme" and wo :: "('r, 'y) outbox_world_scheme" and ws :: "'r saga_world"
  assumes "redis_available R view" and fl: "float_json_ok fl" and u: "\<And>n. is_ascii (u n)"
    and "\<forall>nap \<in> set cc_naps. quiet view {''metrics_server:cc''} ''competing_consumers'' nap"
    and "\<forall>nap \<in> set pq_naps. quiet view (range STREAMS) ''priority_queue'' nap"
    and "\<forall>nap \<in> set es_naps. quiet view (range account_stream) ''event_sourcing'' nap"
    and "\<forall>nap \<in> set ob_naps. quiet view {} ''transactional_outbox'' nap \<and> (\<forall>w. tables (nap w) = tables w \<and>
      outbox_rows (nap w) = outbox_rows w \<and> order_rows (nap w) = order_rows w)"
    and runs: "\<And>idx. \<exists>envs. runs idx = (\<lambda>w. w) # envs"
    and "\<forall>nap \<in> set saga_naps. \<forall>w. order_heap (nap w) = order_heap w"
  shows "(\<exists>w'. competing_consumers_loop R cc_naps w = (Inr (), w') \<and> (\<forall>k \<in> {''messages_published'', ''messages_consumed''}.
      counter (reg w') ''competing_consumers'' k = counter (reg w) ''competing_consumers'' k + 5 * int (length cc_naps))) \<and>
    (\<exists>w'. priority_queue_loop R pq_naps w = (Inr (), w') \<and> (\<forall>k \<in> {''tickets_published'', ''tickets_consumed''}.
      counter (reg w') ''priority_queue'' k = counter (reg w) ''priority_queue'' k + 3 * int (length pq_naps))) \<and>
    (\<exists>w'. outbox_loop R fl ob_naps wo = (Inr (), w') \<and> outbox_rows w' = [] \<and> length (order_rows w') = length ob_naps \<and>
      (\<forall>k \<in> {''orders_inserted'', ''entries_relayed''}.
        counter (reg w') ''transactional_outbox'' k = counter (reg wo) ''transactional_outbox'' k + int (length ob_naps))) \<and>
    (\<exists>w'. saga_loop_thread R fl u runs saga_naps ws = (Inr (), w') \<and>
      (\<forall>idx < length saga_naps. status (order_heap w' idx) = COMPLETED) \<and>
      (\<forall>s \<in> {STREAM_ORDERS, STREAM_PAYMENTS, STREAM_SHIPPING}. ks_entries (view (srv w')) s = [])) \<and>
    (\<exists>w'. event_sourcing_loop R es_naps w = (Inr (), w') \<and> (\<forall>idx < length es_naps. \<exists>new.
      length new = 3 \<and> history (view (srv w')) (metrics_account idx) = history (view (srv w)) (metrics_account idx) @ map Inr new \<and>
      (\<forall>evs acc. history (view (srv w)) (metrics_account idx) = map Inr evs \<and> replay evs = Inr acc \<longrightarrow>
        (\<exists>acc'. replay (evs @ new) = Inr acc' \<and> balance acc' = balance acc + 70))))"
proof -
  obtain w1 where w1: "competing_consumers_loop R cc_naps w = (Inr (), w1)"
    "\<forall>k. counter (reg w1) ''competing_consumers'' k = counter (reg w) ''competing_consumers'' k +
      int (length cc_naps) * (5 * once ''competing_consumers'' ''messages_published'' ''competing_consumers'' k +
        5 * once ''competing_consumers'' ''messages_consumed'' ''competing_consumers'' k)"
    using redis_available.competing_consumers_loop_run [OF assms(1,4), of w] by blast
  obtain w2 where w2: "priority_queue_loop R pq_naps w = (Inr (), w2)"
    "\<forall>k. counter (reg w2) ''priority_queue'' k = counter (reg w) ''priority_queue'' k +
      int (length pq_naps) * tier_counts ''priority_queue'' k"
    using redis_available.priority_queue_loop_run [OF assms(1,5), of w] by blast
  obtain w3 where w3: "event_sourcing_loop R es_naps w = (Inr (), w3)"
    "\<forall>i. history (view (srv w3)) (metrics_account i) = history (view (srv w)) (metrics_account i) @
      (if i < length es_naps then map Inr (metrics_events i) else [])"
    using redis_available.event_sourcing_loop_run [OF assms(1,6), of w] by blast
  obtain w4 where w4: "outbox_loop R fl ob_naps wo = (Inr (), w4)" "outbox_rows w4 = []" "length (order_rows w4) = length ob_naps"
    "\<forall>k. counter (reg w4) ''transactional_outbox'' k = counter (reg wo) ''transactional_outbox'' k +
      int (length ob_naps) * (once ''transactional_outbox'' ''orders_inserted'' ''transactional_outbox'' k +
        once ''transactional_outbox'' ''entries_relayed'' ''transactional_outbox'' k)"
    using redis_available.outbox_loop_run [OF assms(1) fl assms(7), of wo] by blast
  have flt: "float_text_ok fl" using fl by (simp add: float_json_ok_def)
  note w5 = redis_available.saga_loop_thread_run [where w = ws and u = u and runs = runs, OF assms(1) flt u runs assms(9)]
  have "\<exists>new. length new = 3 \<and> history (view (srv w3)) (metrics_account idx) = history (view (srv w)) (metrics_account idx) @ map Inr new \<and>
      (\<forall>evs acc. history (view (srv w)) (metrics_account idx) = map Inr evs \<and> replay evs = Inr acc \<longrightarrow>
        (\<exists>acc'. replay (evs @ new) = Inr acc' \<and> balance acc' = balance acc + 70))" if "idx < length es_naps" for idx
    using w3(2) that metrics_events_again [where idx = idx]
    by (intro exI [of _ "metrics_events idx"]) (simp add: metrics_events_def)
  moreover have "tier_counts ''priority_queue'' ''tickets_published'' = 3" "tier_counts ''priority_queue'' ''tickets_consumed'' = 3"
    by (simp_all add: tier_counts_def all_priorities_def once_def)
  ultimately show ?thesis using w1 w2 w3(1) w4 w5 by (intro conjI) (simp_all add: once_def)
qed

definition saga_start :: "keyspace saga_world" where
  "saga_start = \<lparr>reg = [], wall = ''now'', srv = empty_keyspace, order_heap = (\<lambda>_. \<lparr>order_id = [], customer_id = [],
     amount = Finite 0, status = PENDING, created_at = []\<rparr>), orders = [], uuids_drawn = 0\<rparr>"

theorem metrics_loops_keep_up_witness:
  "(\<exists>w'. competing_consumers_loop mem_redis [\<lambda>w. w, \<lambda>w. w] (demo_world_of ()) = (Inr (), w') \<and>
     counter (reg w') ''competing_consumers'' ''messages_consumed'' = 10) \<and>
   (\<exists>w'. outbox_loop mem_redis demo_floats [\<lambda>w. w, \<lambda>w. w] outbox_demo_world = (Inr (), w') \<and> length (order_rows w') = 2) \<and>
   (\<exists>w'. saga_loop_thread mem_redis demo_floats nat_digits (\<lambda>_. [\<lambda>w. w]) [\<lambda>w. w, \<lambda>w. w] saga_start = (Inr (), w') \<and>
     status (order_heap w' 1) = COMPLETED) \<and>
   (\<exists>new acc w'. event_sourcing_loop mem_redis [\<lambda>w. w] (demo_world_of ()) = (Inr (), w') \<and>
     history (srv w') (metrics_account 0) = map Inr new \<and> replay new = Inr acc \<and> balance acc = 70)"
proof -
  have none: "history (srv (demo_world_of ())) aid = []" for aid by (simp add: history_def)
  have start: "replay [] = Inr (new_account [])" by (simp add: replay_def)
  note all = metrics_loops_keep_up [where view = "\<lambda>k. k" and w = "demo_world_of ()" and wo = outbox_demo_world and ws = saga_start
      and cc_naps = "[\<lambda>w. w, \<lambda>w. w]" and pq_naps = "[]" and es_naps = "[\<lambda>w. w]" and ob_naps = "[\<lambda>w. w, \<lambda>w. w]"
      and u = nat_digits and runs = "\<lambda>_. [\<lambda>w. w]" and saga_naps = "[\<lambda>w. w, \<lambda>w. w]",
      OF mem.redis_available_axioms demo_floats_ok is_ascii_nat_digits]
  show ?thesis
    using all none start
    by (simp add: quiet_def counter_def numeral_2_eq_2 All_less_Suc new_account_def) blast
qed

subsection \<open>The outbox\<close>

text \<open>
  C36: the outbox against the dual write. The demonstration of the pattern, on a stream that is empty at its start,
  puts exactly the three orders' events on it, in order, and leaves nothing to publish. In the baseline's demonstration all twelve
  orders are committed, but an order's event is on the stream only if the outage did not hit its
  publication (its draw is below one quarter): the others are lost, and there is no table they could be
  relayed from.
\<close>

theorem outbox_demo_contrast:
  fixes w :: "('r, 'x) outbox_world_scheme" and wc :: "('r, 'x) outage_world" and gen :: "int \<Rightarrow> nat \<Rightarrow> rat"
  defines "hit \<equiv> \<lambda>index. gen DEFAULT_SEED (index - 1) < 1 / 4"
  assumes "redis_available R view" and "float_json_ok fl" and "distinct [u 0, u 1, u 2]"
    and "valid_utf8 (u 0)" and "valid_utf8 (u 1)" and "valid_utf8 (u 2)"
    and "ks_entries (view (srv w)) ob_demo_STREAM = []"
  shows "(\<exists>events w'. outbox_demo R fl u (replicate (Suc n) (\<lambda>w. w, \<lambda>w. w)) w = (Inr events, w') \<and>
      map snd events = map (order_created_event fl)
        (map2 (\<lambda>i (c, a). \<lparr>ob_order_id = i, ob_customer_id = c, ob_amount = a, ob_created_at = wall w\<rparr>) [u 0, u 1, u 2]
          [(''cust-1'', round53 (9999 / 100)), (''cust-2'', round53 149), (''cust-3'', round53 (999 / 100))]) \<and>
      outbox_rows w' = []) \<and>
    fst (outbox_naive_demo R fl gen wc) = Inr \<lparr>committed = 12,
      published = int (length (filter (\<lambda>index. \<not> hit index) [1..<13])),
      lost_ids = map naive_order_id (filter hit [1..<13]), table_names = [''orders'']\<rparr>"
proof -
  obtain w' where "outbox_demo R fl u (replicate (Suc n) (\<lambda>w. w, \<lambda>w. w)) w = (Inr (ks_entries (view (srv w')) ob_demo_STREAM), w')"
    "stream_events view ob_demo_STREAM w' = stream_events view ob_demo_STREAM w @ map (order_created_event fl)
      (map2 (\<lambda>i (c, a). \<lparr>ob_order_id = i, ob_customer_id = c, ob_amount = a, ob_created_at = wall w\<rparr>) [u 0, u 1, u 2]
        [(''cust-1'', round53 (9999 / 100)), (''cust-2'', round53 149), (''cust-3'', round53 (999 / 100))])"
    "outbox_rows w' = []"
    using redis_available.outbox_demo_run [OF assms(2-7)] by blast
  moreover from this(2) have "map snd (ks_entries (view (srv w')) ob_demo_STREAM) = map (order_created_event fl)
      (map2 (\<lambda>i (c, a). \<lparr>ob_order_id = i, ob_customer_id = c, ob_amount = a, ob_created_at = wall w\<rparr>) [u 0, u 1, u 2]
        [(''cust-1'', round53 (9999 / 100)), (''cust-2'', round53 149), (''cust-3'', round53 (999 / 100))])"
    by (simp add: stream_events_def assms(8))
  ultimately show ?thesis
    using redis_available.outbox_naive_demo_run [OF assms(2), of fl gen wc] unfolding hit_def by (metis fst_conv)
qed

definition fresh_chaos :: "'x \<Rightarrow> 'x chaos_world_scheme" where
  "fresh_chaos x = \<lparr>injectors = (\<lambda>_. \<lparr>kind = BrokerUnavailable,
     policy = \<lparr>probability = None, on_call = Some 1\<rparr>, calls = 0, fires = 0, rng = 0\<rparr>), next_injector = 0, rngs = (\<lambda>_ _. 0), next_rng = 0, slept = [], \<dots> = x\<rparr>"

theorem outbox_demo_contrast_witness:
  "fst (outbox_naive_demo mem_redis demo_floats (\<lambda>seed n. if n = 2 then 1 / 8 else 1 / 2) (fresh_chaos outbox_demo_world)) =
     Inr \<lparr>committed = 12, published = 11, lost_ids = [''naive-ord-03''], table_names = [''orders'']\<rparr>"
proof -
  let ?g = "\<lambda>(seed :: int) (n :: nat). if n = 2 then 1 / 8 else 1 / 2 :: rat"
  have ids: "distinct [nat_digits 0, nat_digits 1, nat_digits 2]" by code_simp
  have utf: "valid_utf8 (nat_digits n)" for n by (simp add: valid_utf8_ascii)
  have lost: "map naive_order_id (filter (\<lambda>index. ?g DEFAULT_SEED (index - 1) < 1 / 4) [1..<13]) = [''naive-ord-03'']"
    and sent: "length (filter (\<lambda>index. \<not> ?g DEFAULT_SEED (index - 1) < 1 / 4) [1..<13]) = 11"
    by code_simp+
  have empty: "ks_entries (srv outbox_demo_world) ob_demo_STREAM = []"
    by (simp add: outbox_demo_world_def empty_keyspace_def ks_entries_def)
  show ?thesis
    using outbox_demo_contrast [where view = "\<lambda>k. k" and u = nat_digits and gen = ?g and wc = "fresh_chaos outbox_demo_world"
        and w = outbox_demo_world and n = 0, OF mem.redis_available_axioms demo_floats_ok ids utf utf utf empty]
    unfolding lost sent by simp
qed

subsection \<open>Competing consumers\<close>

text \<open>
  C37: a group against bare reads. With a group, three consumers share thirty tasks: however their steps
  interleave, a run that ends reports every task handled, by one worker and once, and the message of a consumer
  that died is recovered by the survivor, which leaves nothing pending; and the run does end on every schedule with
  \<open>enough\<close> steps. Without a group, a worker that dies after handling its first task leaves no trace: the survivor
  reads from the beginning and does the finished task again, and the server holds no group that could say so;
  and three workers do all thirty tasks three times.
\<close>

theorem cc_demo_contrast:
  fixes w :: "('r, 'y) world_scheme" and wn :: "('r, executions chaos_world_scheme) world_scheme"
    and wd :: "('r, (string, string list) dict) world_scheme"
  defines "orphan \<equiv> \<lparr>task_id = ''orphan-1'', task_payload = ''needs-recovery''\<rparr>"
  assumes "redis_available R view"
    and "ks_entries (view (srv wn)) NAIVE_CRASH_STREAM = []" and "\<forall>g. ks_group (view (srv wn)) NAIVE_CRASH_STREAM g = None"
    and "ks_entries (view (srv wd)) cc_NAIVE_STREAM = []" and "3 \<le> turns"
  shows "(\<exists>res w'. cc_demo_main R moves turns w = (Inr res, w') \<and> (enough 3 4 0 30 moves \<longrightarrow> res \<noteq> None) \<and>
      (\<forall>rep recovery. res = Some (rep, recovery) \<longrightarrow>
        processed_count rep = 30 \<and> unique_count rep = 30 \<and> balanced_once rep \<and>
        map fst (distribution rep) = [''worker-0'', ''worker-1'', ''worker-2''] \<and>
        mset (concat (map (\<lambda>(_, _, ids). ids) (distribution rep))) = mset (map (\<lambda>i. task_id (demo_task i)) [0..<30]) \<and>
        (\<exists>i. recovery = \<lparr>in_flight = [(i, task_to_fields orphan)], pending_after_crash = 1,
          recovered = (''survivor-worker'', orphan), pending_after_recovery = 0\<rparr>))) \<and>
    (\<exists>w'. naive_demo_no_reclaim R fl gen turns turns wn =
      (Inr ((''doomed-worker'', ''crash-1'') # map (\<lambda>i. (''survivor-worker'', ''crash-'' @ nat_digits i)) [1..<4],
        [''crash-1'']), w') \<and> (\<forall>g. ks_group (view (srv w')) NAIVE_CRASH_STREAM g = None)) \<and>
    fst (naive_demo_duplication R turns wd) =
      Inr \<lparr>total_executions = 90, unique_tasks = 30, most_runs = 3, exactly_once = False\<rparr>"
proof -
  obtain n where n: "turns = Suc n" using assms(6) by (cases turns) auto
  have "1 \<le> turns" using assms(6) by simp
  note main = redis_available.cc_demo_main_run [OF assms(2), of moves n w]
    and crash = redis_available.naive_demo_no_reclaim_run [OF assms(2-4) this, of fl gen n]
    and dup = redis_available.naive_demo_duplication_run [OF assms(2,5,6)]
  have "fst (naive_demo_duplication R turns wd) =
      Inr \<lparr>total_executions = 90, unique_tasks = 30, most_runs = 3, exactly_once = False\<rparr>"
    using dup by auto
  with main crash show ?thesis unfolding n orphan_def by (intro conjI) assumption+
qed

theorem cc_demo_contrast_witness:
  "\<exists>rep recovery w'. cc_demo_main mem_redis (rounds 3 92 @ rounds 3 4 @ Look # rounds 3 1) 3 (demo_world_of ()) =
      (Inr (Some (rep, recovery)), w') \<and> processed_count rep = 30 \<and> balanced_once rep \<and> pending_after_recovery recovery = 0"
proof -
  have "enough 3 4 0 30 (rounds 3 92 @ rounds 3 4 @ Look # rounds 3 1)"
    using round_robin_enough [of 3 4 0 30] by simp
  then show ?thesis
    using cc_demo_contrast [where view = "\<lambda>k. k" and w = "demo_world_of ()" and wd = "demo_world_of []"
        and wn = "demo_world_of (fresh_chaos [])" and turns = 3 and moves = "rounds 3 92 @ rounds 3 4 @ Look # rounds 3 1",
        OF mem.redis_available_axioms] by fastforce
qed

text \<open>
  C38: the benchmark of the group, whatever the schedule and the number of consumers. A run that is over reports
  as many tasks handled, over all consumers, as the two windows count, as many entries on the stream, and
  nothing pending. And the run is over on every schedule with enough steps: all publications, then as many
  steps of the consumers as \<open>3\<close> per task and \<open>2\<close> per consumer, ten more of each, a look and one more of each.
\<close>

theorem cc_bench_accounts:
  fixes w :: "('r, cc_bench) world_scheme"
  assumes "redis_available R view" and "1 \<le> warmup" and "1 \<le> measured"
  shows "\<exists>res w'. bench_consumer_count R fl run_id consumers concurrency warmup measured moves w = (Inr res, w') \<and>
    (\<forall>rep. res = Some rep \<longrightarrow> sum_list (map snd (handled_per_consumer rep)) = warmup + measured \<and>
      stream_length rep = warmup + measured \<and> pending_at_end rep = 0) \<and>
    (enough (nat consumers) 10 (nat (warmup + measured)) (nat (warmup + measured)) moves \<longrightarrow> res \<noteq> None)"
  by (rule redis_available.bench_consumer_count_run [OF assms])

theorem cc_bench_accounts_witness:
  "\<exists>rep w'. bench_consumer_count mem_redis demo_floats ''r1'' 4 20 2 7
      (replicate 9 Publish @ rounds 4 29 @ rounds 4 10 @ Look # rounds 4 1) (demo_world_of new_cc_bench) = (Inr (Some rep), w') \<and>
    sum_list (map snd (handled_per_consumer rep)) = 9 \<and> stream_length rep = 9 \<and> pending_at_end rep = 0"
proof -
  have "enough 4 10 9 9 (replicate 9 Publish @ rounds 4 29 @ rounds 4 10 @ Look # rounds 4 1)"
    using round_robin_enough [of 4 10 9 9] by simp
  then show ?thesis
    using cc_bench_accounts [where view = "\<lambda>k. k" and w = "demo_world_of new_cc_bench" and warmup = 2 and measured = 7
        and consumers = 4 and concurrency = 20 and fl = demo_floats and run_id = "''r1''"
        and moves = "replicate 9 Publish @ rounds 4 29 @ rounds 4 10 @ Look # rounds 4 1", OF mem.redis_available_axioms]
    by fastforce
qed

subsection \<open>Priorities\<close>

text \<open>
  The same ten tickets, routed or not. The strict consumer handles them high, normal, low, each tier in
  the order of arrival, which is the order of \<open>TICKETS\<close>. The single queue serves them as they arrived, the
  seven routine ones first: the first urgent ticket is the eighth of ten.
\<close>

theorem pq_demo_contrast:
  fixes wn :: "('r, 'x) world_scheme"
  assumes "redis_available R view" and "10 \<le> turns"
  shows "fst (pq_demo_main R turns w) = Inr [(''strict-agent'', map ticket_id TICKETS)] \<and>
    sorted (map ticket_priority TICKETS) \<and>
    fst (pq_run_naive R wn) = Inr \<lparr>served_tickets = drop 3 TICKETS @ take 3 TICKETS, first_high = TICKETS ! 0,
      first_position = 8\<rparr>"
proof -
  have "sorted (map ticket_priority TICKETS)" by code_simp
  then show ?thesis
    using redis_available.pq_demo_main_run [OF assms, of w] redis_available.pq_run_naive_run [OF assms(1), of wn]
    by (metis fst_conv)
qed

theorem pq_demo_contrast_witness:
  "fst (pq_demo_main mem_redis 10 (demo_world_of [])) = Inr [(''strict-agent'', map ticket_id TICKETS)]"
  using pq_demo_contrast [where view = "\<lambda>k. k" and turns = 10 and wn = "demo_world_of ()", OF mem.redis_available_axioms]
  by simp

subsection \<open>The saga\<close>

text \<open>
  Compensation against none. The saga ends the payable order completed and the other cancelled, with
  the events to show for it, and nothing shipped for the second. Without compensation the order that
  shipping refuses stays paid: its money is on the ledger, it is neither completed nor cancelled, and only
  the other two are shipped.
\<close>

theorem saga_demo_contrast:
  fixes w :: "'r saga_world"
  assumes "redis_available R view" and "float_text_ok fl" and "\<And>n. is_ascii (u n)"
    and "ks_entries (view (srv w)) STREAM_ORDERS = []" and "ks_entries (view (srv w)) STREAM_PAYMENTS = []"
    and "ks_entries (view (srv w)) STREAM_SHIPPING = []"
  shows "(\<exists>happy failure w'. saga_demo_main R fl u (\<lambda>_. (\<lambda>w. w) # envs) w = (Inr (happy, failure), w') \<and>
      final_status happy = Some COMPLETED \<and> event_types (orders_messages happy) = [''OrderCreated''] \<and>
      event_types (payments_messages happy) = [''PaymentProcessed''] \<and>
      event_types (shipping_messages happy) = [''OrderShipped''] \<and>
      final_status failure = Some CANCELLED \<and>
      event_types (orders_messages failure) = [''OrderCreated'', ''OrderCancelled''] \<and>
      event_types (payments_messages failure) = [''PaymentFailed''] \<and> shipping_messages failure = []) \<and>
    fst (saga_run_naive u now wn) = Inr \<lparr>
      sr_failures = [(''naive-ord-2'', ''no stock for naive-ord-2'', 4200, Some PAID)],
      sr_ledger = [(''naive-ord-1'', 15000), (''naive-ord-2'', 4200), (''naive-ord-3'', 7950)],
      sr_shipments = [''naive-ord-1'', ''naive-ord-3'']\<rparr>"
  by (intro conjI saga_run_naive_run redis_available.saga_demo_main_run [OF assms])

lemma saga_start_empty: "ks_entries (srv saga_start) s = []"
  by (simp add: saga_start_def empty_keyspace_def ks_entries_def)

theorem saga_demo_contrast_witness:
  "\<exists>happy failure w'. saga_demo_main mem_redis demo_floats nat_digits (\<lambda>_. [\<lambda>w. w]) saga_start = (Inr (happy, failure), w') \<and>
     final_status happy = Some COMPLETED \<and> final_status failure = Some CANCELLED"
proof -
  have "float_text_ok demo_floats" using demo_floats_ok by (simp add: float_json_ok_def)
  from saga_demo_contrast [where view = "\<lambda>k. k" and envs = "[]" and u = nat_digits, OF mem.redis_available_axioms this _
      saga_start_empty saga_start_empty saga_start_empty]
  show ?thesis by (simp add: is_ascii_nat_digits) blast
qed

subsection \<open>Event sourcing\<close>

text \<open>
  Three views of one account, or one. After the happy path, the live aggregate, the replayed one and the
  read model all have balance 700, and the stream lists the six events; the refused overdraft of the second
  account appends nothing. The state-only store has the same balance and refuses the same overdraft, but an
  account with another history is stored identically, and there is no other table.
\<close>

theorem es_demo_contrast:
  fixes w :: "('r, 'x) world_scheme"
  assumes "redis_available R view" and "ks_entries (view (srv w)) (account_stream (u 0)) = []"
    and "ks_entries (view (srv w)) (account_stream (u 1)) = []" and "valid_utf8 (u 0)" and "valid_utf8 (u 1)"
  shows "(\<exists>es w'. es_demo_main R u (replicate (Suc n) (\<lambda>w. w)) w =
      (Inr (\<lparr>live_balance = 700, replayed_balance = 700, summary_balance = 700, all_equal = True, stream_listing = es\<rparr>,
        \<lparr>length_before = 2, refusal = Some (InsufficientFundsError 101 100), length_after = 2\<rparr>), w') \<and>
      map (\<lambda>e. decode_event (snd e)) es = map Inr (happy_events (u 0))) \<and>
    fst (run_naive_es db) = Inr \<lparr>naive_balance = 700, twin_balance = 700,
      stored_rows = [(NAIVE_ACCOUNT, 700), (NAIVE_TWIN, 700)], db_tables = [''accounts''], overdraft_refused = True\<rparr>"
  using redis_available.es_demo_main_run [OF assms, of n] run_naive_es_run [of db] by blast

theorem es_demo_contrast_witness:
  "\<exists>es w'. es_demo_main mem_redis nat_digits [\<lambda>w. w] (demo_world_of ()) =
     (Inr (\<lparr>live_balance = 700, replayed_balance = 700, summary_balance = 700, all_equal = True, stream_listing = es\<rparr>,
       \<lparr>length_before = 2, refusal = Some (InsufficientFundsError 101 100), length_after = 2\<rparr>), w') \<and>
     map (\<lambda>e. decode_event (snd e)) es = map Inr (happy_events (nat_digits 0))"
  using es_demo_contrast [where view = "\<lambda>k. k" and u = nat_digits and n = 0 and w = "demo_world_of ()",
      OF mem.redis_available_axioms] by (auto simp: valid_utf8_ascii)

subsection \<open>Dead letters\<close>

text \<open>
  C35: with an attempt budget the malformed payments step aside, without one they block the rest. Given two
  turns or more for each drain, the demonstration charges the four well-formed payments, parks the two
  malformed ones in order, and the replay of all six by another worker charges nobody again. The
  retry-forever baseline charges the two payments before the first malformed one, fails on that one in
  every one of its ten polls, never attempts the three behind it, dead-letters nothing and leaves four
  messages pending.
\<close>

theorem dlq_demo_contrast:
  fixes w :: "('r, 'x) world_scheme"
  assumes "redis_available R view" and "2 \<le> turns"
  shows "(\<exists>w'. dlq_demo_main R turns w = (Inr (4, [''PAY-003'', ''PAY-005''], 0), w')) \<and>
    (\<exists>w'. dlq_run_naive R w = (Inr \<lparr>
       naive_result = \<lparr>nr_processed = [''PAY-001'', ''PAY-002''], nr_failures = [(''PAY-003'', 10)], nr_polls = 10\<rparr>,
       poison_id = ''PAY-003'', poison_attempts = 10, starved = [''PAY-004'', ''PAY-005'', ''PAY-006''],
       dlq_length = 0, still_pending = 4\<rparr>, w'))"
  using redis_available.dlq_demo_main_run [OF assms, of w] redis_available.dlq_run_naive_run [OF assms(1), of w] by blast

theorem dlq_demo_contrast_witness:
  "(\<exists>w'. dlq_demo_main mem_redis 2 (demo_world_of ()) = (Inr (4, [''PAY-003'', ''PAY-005''], 0), w')) \<and>
    (\<exists>w'. dlq_run_naive mem_redis (demo_world_of ()) = (Inr \<lparr>
       naive_result = \<lparr>nr_processed = [''PAY-001'', ''PAY-002''], nr_failures = [(''PAY-003'', 10)], nr_polls = 10\<rparr>,
       poison_id = ''PAY-003'', poison_attempts = 10, starved = [''PAY-004'', ''PAY-005'', ''PAY-006''],
       dlq_length = 0, still_pending = 4\<rparr>, w'))"
  by (rule dlq_demo_contrast [where view = "\<lambda>k. k", OF mem.redis_available_axioms]) simp

text \<open>
  C40: the dead-letter benchmark's books balance. With any number of warm-up and measured operations, run one at
  a time, and at least \<open>max_attempts\<close> turns of the consumer for each: every operation's future is resolved, so
  the run ends; every fifth payment is poison and stands on the dead-letter stream, every other one is charged
  exactly once, and nothing is pending on the main stream.
\<close>

theorem dlq_bench_accounts:
  fixes w :: "('r, dlq_bench) world_scheme"
  assumes "redis_available R view" and "1 \<le> max_attempts" and "\<forall>i. max_attempts \<le> int (turns i)" and "is_ascii run_id"
    and "1 \<le> warmup" and "1 \<le> measured"
  shows "\<exists>w'. bench_max_attempts R fl run_id max_attempts warmup measured turns w =
    (Inr (Some \<lparr>poison_every = 5, payments_published = warmup + measured, poison_published = (warmup + measured) div 5,
       payments_charged = (warmup + measured) - (warmup + measured) div 5,
       bench_dlq_length = (warmup + measured) div 5, main_pending = 0\<rparr>), w')"
  by (rule redis_available.bench_max_attempts_run [OF assms])

theorem dlq_bench_accounts_witness:
  "\<exists>w'. bench_max_attempts mem_redis demo_floats ''r1'' 3 20 200 (\<lambda>_. 3) (demo_world_of new_bench) =
    (Inr (Some \<lparr>poison_every = 5, payments_published = 220, poison_published = 44, payments_charged = 176,
       bench_dlq_length = 44, main_pending = 0\<rparr>), w')"
  using dlq_bench_accounts [where view = "\<lambda>k. k" and max_attempts = 3 and turns = "\<lambda>_. 3" and run_id = "''r1''"
      and warmup = 20 and measured = 200 and fl = demo_floats and w = "demo_world_of new_bench", OF mem.redis_available_axioms]
  by simp

text \<open>
  The outbox's benchmark, whatever the interleaving of the workers' orders with the relay's sweeps: a run that is
  over reports every order on the stream and no row left. A run in which every order was placed and the relay
  swept often enough after the last is over: ten rows a sweep.
\<close>

theorem outbox_bench_accounts:
  fixes w :: "('r, 'x) outbox_world_scheme"
  assumes "redis_available R view" and "float_json_ok fl" and "1 \<le> warmup" and "1 \<le> measured"
  shows "\<exists>res w'. bench_poll_interval R fl warmup measured steps w = (Inr res, w') \<and>
    (res = None \<or> res = Some \<lparr>events_on_stream = warmup + measured, outbox_rows_remaining = 0\<rparr>) \<and>
    (int (count_list steps Submit) = warmup + measured \<and> (\<exists>steps' k. steps = steps' @ replicate k Sweep \<and>
      warmup + measured \<le> 10 * int k) \<longrightarrow> res \<noteq> None)"
  by (rule redis_available.bench_poll_interval_run [OF assms])

theorem outbox_bench_accounts_witness:
  "\<exists>w'. bench_poll_interval mem_redis demo_floats 4 11 (replicate 6 Submit @ Sweep # replicate 9 Submit @ replicate 2 Sweep)
      outbox_demo_world = (Inr (Some \<lparr>events_on_stream = 15, outbox_rows_remaining = 0\<rparr>), w')"
proof -
  let ?steps = "replicate 6 Submit @ Sweep # replicate 9 Submit @ replicate 2 Sweep"
  have "\<exists>steps' k. ?steps = steps' @ replicate k Sweep \<and> (15 :: int) \<le> 10 * int k"
    by (intro exI [of _ "replicate 6 Submit @ Sweep # replicate 9 Submit"] exI [of _ 2]) simp
  moreover have "count_list ?steps Submit = 15" by code_simp
  ultimately show ?thesis
    using outbox_bench_accounts [where view = "\<lambda>k. k" and warmup = 4 and measured = 11 and steps = ?steps
        and w = outbox_demo_world, OF mem.redis_available_axioms demo_floats_ok] by auto
qed

subsection \<open>Scatter-gather\<close>

text \<open>
  C39: five airlines under a deadline, or one after another. By both distribution strategies the search, with a
  timeout of 200 ms, returns the three healthy airlines' quotes, of its own correlation id, sorted, with the
  cheapest first; the broken airline is missing, and the quote of the airline with a latency of 500 ms is
  published after the search and is in no result. Each run lasts until that airline's task is over, half a
  second. Asked one at a time,
  the healthy airlines cost the sum of their latencies, the slow one takes the search past three times the
  coordinator's deadline, a deadline imposed from outside returns none of the three quotes that had arrived,
  and behind an airline that is unavailable nobody is asked.
\<close>

theorem sg_demo_contrast:
  fixes w :: "'x topic_world_scheme"
  assumes "gen DEFAULT_SEED 0 < 1"
  defines "quotes \<equiv> \<lambda>cid. map (\<lambda>(name, code, price). \<lparr>fq_correlation_id = cid, airline = name, flight_number = code,
     price_cents = price, depart_at = DEPART\<rparr>)
     [(''BudgetJet'', ''BU189'', 18900), (''Nimbus'', ''NI212'', 21200), (''SkyHigh'', ''SK245'', 24500)]"
  shows "(\<exists>w'. sg_demo_main cid1 cid2 w =
      (Inr ((quotes cid1, Some (quotes cid1 ! 0), 1), (quotes cid2, Some (quotes cid2 ! 0), 1)), w') \<and>
      loop_time w' = loop_time w + 2 * 500000) \<and>
    (\<exists>report w'. sg_run_naive fl gen u now wn = (Inr report, w') \<and>
      map airline (fst (all_healthy report)) = [''BudgetJet'', ''SkyHigh'', ''Nimbus''] \<and>
      snd (all_healthy report) = 3 * seconds_of NAIVE_AIRLINE_LATENCY \<and>
      map airline (fst (with_slow report)) = [''BudgetJet'', ''SkyHigh'', ''Nimbus'', ''SlowAir''] \<and>
      3 * seconds_of NAIVE_DEADLINE < snd (with_slow report) \<and> with_deadline report = ([], 3) \<and>
      with_ghost report = Some ([''BudgetJet'', ''GhostAir''], [''SkyHigh'', ''Nimbus'']))"
  unfolding quotes_def found_def [symmetric] by (intro conjI sg_demo_main_run sg_run_naive_run assms(1))

theorem sg_demo_contrast_witness:
  "(\<exists>cheapest1 cheapest2 sorted1 sorted2 w'. sg_demo_main ''c1'' ''c2'' demo_topics =
      (Inr ((sorted1, cheapest1, 1), (sorted2, cheapest2, 1)), w') \<and> loop_time w' = 1000000 \<and> map airline sorted2 = [''BudgetJet'', ''Nimbus'', ''SkyHigh'']) \<and>
    (\<exists>report w'. sg_run_naive demo_floats (\<lambda>_ _. 1 / 2) nat_digits ''now'' (fresh_chaos \<lparr>asked = []\<rparr>) = (Inr report, w') \<and>
      with_deadline report = ([], 3))"
proof -
  have half: "(\<lambda>(_ :: int) (_ :: nat). 1 / 2 :: rat) DEFAULT_SEED 0 < 1" by simp
  note sg_demo_contrast [OF half, of "''c1''" "''c2''" demo_topics demo_floats nat_digits "''now''" "fresh_chaos \<lparr>asked = []\<rparr>"]
  then show ?thesis by (elim conjE exE) (intro conjI exI, assumption, simp add: demo_topics_def, simp, assumption, assumption)
qed

subsection \<open>Claim checks\<close>

text \<open>
  Three media files as claims, or inline. Every payload reaches the handler and is reclaimed, and the eight
  megabytes cost less than two kilobytes on the channel. Inline, the channel's limit of one megabyte rejects
  two of the three, and the third crosses it whole.
\<close>

theorem claim_demo_contrast:
  fixes w :: "string list claim_world_scheme" and wi :: "'y inline_world_scheme"
  assumes "inj u" and "\<forall>n < uuids_minted (cstore w) + 3. length (u n) \<le> 32" and "length (wall w) \<le> 32" and "3 \<le> turns"
    and "\<forall>n < minted wi + 4. length (u n) \<le> 32" and "length (wall wi) \<le> 32"
  shows "(\<exists>wire w'. claim_demo_main fl tmp u turns w = (Inr \<lparr>processed_total = 3, reclaimed = 3, remaining = [],
      total_payload_bytes = 8000000, total_wire_bytes = wire, total_saved = 8000000 - wire\<rparr>, w') \<and> wire \<le> 1941) \<and>
    (\<exists>n ratio total w'. claim_run_naive fl u wi = (Inr \<lparr>rejected_names = [''hero-banner.png'', ''product-demo.mp4''],
      delivered_payloads = [PAYLOADS ! 2], carried_bytes = 1000097, claim_bytes = n, traffic_ratio = ratio,
      all_claim_bytes = total\<rparr>, w') \<and> 0 < n \<and> n \<le> 677)"
  using claim_demo_main_run [OF assms(1-4), of fl tmp] claim_run_naive_run [OF assms(5,6), of fl] by blast

theorem claim_demo_contrast_witness:
  "\<exists>wire w'. claim_demo_main demo_floats ''tmp'' nat_digits 3
      \<lparr>reg = [], wall = ''now'', cq = [], cstore = \<lparr>files = [], uuids_minted = 0\<rparr>, \<dots> = []\<rparr> =
    (Inr \<lparr>processed_total = 3, reclaimed = 3, remaining = [], total_payload_bytes = 8000000, total_wire_bytes = wire,
      total_saved = 8000000 - wire\<rparr>, w') \<and> wire \<le> 1941"
proof -
  have short: "length (nat_digits n) \<le> 32" if "n < 10" for n using nat_digits_length [of n 1] that by simp
  show ?thesis
    using claim_demo_contrast [OF inj_nat_digits, where turns = 3 and fl = demo_floats and tmp = "''tmp''"
        and w = "\<lparr>reg = [], wall = ''now'', cq = [], cstore = \<lparr>files = [], uuids_minted = 0\<rparr>, \<dots> = []\<rparr>"
        and wi = "\<lparr>reg = [], wall = ''now'', inline = new_inline_broker 0, minted = 0\<rparr>"] short by simp
qed

end
