(* ===== verification/Spec2Isabelle.thy ===== *)
theory Spec2Isabelle
  imports DLQ_Properties ES_Properties CC_Properties Saga_Properties Priority_Properties
    Claim_Check_Properties Idempotency_Properties Scatter_Properties Chaos_Properties Envelope_Properties
    Bench_Properties Outbox_Properties Demo_Properties
begin

text \<open>
  A model of the message broker patterns of \<^verbatim>\<open>packages/backend/src/message_broker_patterns\<close>, and the
  theorems that make them correct. All paths below are relative to that directory.

  \<^bold>\<open>The program.\<close> Eight messaging patterns, each a package of its own with its models, a broker over Redis
  streams or in-memory queues, a consumer or service loop, and a deliberately incorrect baseline that
  fails in the way the pattern prevents. They share a metrics registry (\<^verbatim>\<open>metrics.py\<close>), an envelope and two
  deduplication stores (\<^verbatim>\<open>entities/\<close>), a failure injector (\<^verbatim>\<open>chaos.py\<close>) and a benchmark harness
  (\<^verbatim>\<open>bench.py\<close>). The patterns do not call each other.

  \<^bold>\<open>How a coroutine is modelled.\<close> A value of type \<open>('w, 'a) io\<close> (theory \<open>Prelude\<close>): from a world to an
  outcome (\<open>Inl\<close> an exception, \<open>Inr\<close> a result) and the next world. State changes made before an exception
  stay made. \<open>bnd\<close>, \<open>try_io\<close>, \<open>finally_do\<close> and \<open>for_each\<close> are sequencing, \<^verbatim>\<open>try\<close>, \<^verbatim>\<open>finally\<close> and \<^verbatim>\<open>for\<close>. A
  world is a record extending \<open>metrics_world\<close>. Where a coroutine waits, other tasks may run: a loop that
  ends on a stop event takes a list of environment steps, runs once per element, and the element is what
  the other tasks do while it waits. The properties quantify over these lists, so they cover any number
  of turns and any environment that meets the stated conditions; no fuel is involved, and a loop of the
  model always ends. An environment step is a function on the world. The steps stand where a loop polls or
  sleeps; between two commands that the coroutine sends one after another other tasks act only where a theory
  says so: in \<open>relay_entry\<close> before the append and not between it and the deletion of the row, in the loops of
  the metrics server at their sleep and not at the awaits of an iteration, and for competing consumers a
  task's handler, acknowledgement and count are one step.

  \<^bold>\<open>Time.\<close> Where a result depends on when something happens, the clock is in the world and decides it. The
  deduplication stores read it at every call, and the claims come at instants of their own. In a flight search
  the other tasks of the event loop are an agenda, steps with the instants at which they are due
  (\<open>airline_steps\<close>: each airline receives at once and responds after its latency, those due at one instant in the order
  of the tasks); \<open>await_message\<close> is \<^verbatim>\<open>queue.get\<close> under \<^verbatim>\<open>asyncio.timeout\<close>, which runs what is due before its timer and
  otherwise ends at the timer. A step that is due at the very deadline is late. What has not run when a search
  returns is returned with its result and goes on after it (\<open>run_agenda\<close>).

  \<^bold>\<open>Theories and sources.\<close>
  \<^item> \<open>Prelude\<close>: exceptions, effects, dictionaries as association lists in insertion order. \<open>PyText\<close>: \<^verbatim>\<open>str\<close>
    as UTF-8, strict decoding, \<^verbatim>\<open>int\<close> and \<^verbatim>\<open>str\<close> on integers. \<open>PyFloat\<close>: binary64 values and rounding.
    \<open>PyJson\<close>, \<open>Json_Loads\<close>, \<open>Json_Roundtrip\<close>, \<open>Json_Objects\<close>: \<^verbatim>\<open>json.dumps\<close>, a reader for objects of
    texts and numbers, and that the reader inverts the writer.
  \<^item> \<open>Metrics\<close>: \<^verbatim>\<open>metrics.py\<close>.
  \<^item> \<open>Redis_Client\<close>: the commands the code awaits, as a record, with the locales \<open>redis_server\<close> (the
    documented effect of a command that succeeds) and \<open>redis_available\<close> (it does succeed) over an
    abstract key space. \<open>Redis_Memory\<close>: a server that meets both, used by the witnesses.
  \<^item> \<open>DLQ_Broker\<close>, \<open>DLQ_Consumer\<close>, \<open>DLQ_Naive\<close>, \<open>DLQ_Spec\<close>, \<open>DLQ_Properties\<close>: \<^verbatim>\<open>dlq_pattern/\<close>. No payment is
    lost when the consumer returns, none is charged twice. \<open>DLQ_Spec\<close> is the consumer without a broker, a
    \<open>pipeline\<close> of payments with a verdict on each; the consumer refines it turn by turn, its turns have a
    closed form, and so a batch is settled within \<open>max_attempts\<close> turns, with the calls of the handler that this takes.
    A malformed entry ends the consumer; the order of acknowledgement and append in \<open>move_to_dlq\<close> can lose
    a payment.
  \<^item> \<open>ES_Account\<close>, \<open>ES_Store\<close>, \<open>ES_Naive\<close>, \<open>ES_Properties\<close>: \<^verbatim>\<open>event_sourcing_pattern/\<close>. The account's
    invariant, replay as a refinement of the live aggregate, the projector's read model as the fold of a
    prefix of the stream, the limit of a hundred events per read.
  \<^item> \<open>Competing_Consumers\<close>, \<open>CC_Properties\<close>: \<^verbatim>\<open>competing_consumers_pattern/\<close>. Exclusive delivery under any
    interleaving of the consumers' commands, no task lost however a consumer ends, draining. \<open>CC_Shared\<close> cuts
    \<^verbatim>\<open>run_consumer\<close> where it awaits the broker (\<open>run_consumer_steps\<close>: the steps are the coroutine) and runs several
    of them on a schedule; \<open>CC_Sched\<close> is what a schedule comes to without the broker, with a measure that shows
    which schedules are enough; \<open>CC_Together\<close> proves that the consumers over the broker refine it.
  \<^item> \<open>Saga\<close>, \<open>Saga_Progress\<close>, \<open>Saga_Naive\<close>, \<open>Saga_Properties\<close>: \<^verbatim>\<open>saga_pattern/\<close>. Orders live in a heap, since
    runner and service share them. Completion, compensation, cause and effect of every event on the
    streams, and that a restarted runner charges again.
  \<^item> \<open>Priority\<close>, \<open>Priority_Properties\<close>: \<^verbatim>\<open>priority_queue_pattern/\<close>. One scan refines serving the first
    non-empty tier; a backlog is served in sorted priority order.
  \<^item> \<open>Claim_Check\<close>, \<open>Claim_Check_Properties\<close>: \<^verbatim>\<open>claim_check_pattern/\<close>, with the locale \<open>payload_store\<close>
    interpreted by the file store. Delivery, the bound on the wire size, at-most-once on failure.
  \<^item> \<open>Idempotency\<close>, \<open>Idempotency_Properties\<close>: \<^verbatim>\<open>entities/idempotency.py\<close>. The protocol is the locale
    \<open>dedup_store\<close>; the in-memory store interprets it and the Redis store is a sublocale. The in-memory
    store is equivalent to one that never forgets. Its grants of one key are a lifetime apart; the Redis store
    grants a key once in the window that all its keys share, which the write that creates the set opens.
  \<^item> \<open>Scatter_Gather\<close>, \<open>Scatter_Search\<close>, \<open>Scatter_Properties\<close>: \<^verbatim>\<open>scatter_gather_pattern/\<close>. A gather returns by
    its deadline, whatever the other tasks do; a search returns what the airlines answer before it, and an
    airline that is too slow or fails is only missing from the result.
  \<^item> \<open>Chaos\<close>, \<open>Chaos_Properties\<close>: \<^verbatim>\<open>chaos.py\<close>. Calls through an injector equal a reference schedule.
  \<^item> \<open>Envelope\<close>, \<open>Envelope_Properties\<close>: \<^verbatim>\<open>entities/envelope.py\<close>. Round trips, and additivity over a payload.
  \<^item> \<open>Bench\<close>, \<open>Bench_Floats\<close>, \<open>Bench_Phase\<close>, \<open>Bench_Properties\<close>: \<^verbatim>\<open>bench.py\<close>. Percentiles with their float
    rank, windows, the workers of a phase, the reports.
  \<^item> \<open>Outbox\<close>, \<open>Outbox_Relay\<close>, \<open>Outbox_Drain\<close>, \<open>Outbox_Properties\<close>: \<^verbatim>\<open>outbox_pattern/\<close>. The SQL statements
    act on tables in the world; a \<^verbatim>\<open>with conn:\<close> block restores them on an exception. Under the locale
    \<open>durable_redis\<close> (a stream keeps its entries whatever \<^verbatim>\<open>XADD\<close> answers) no committed order loses its
    event, with any number of relays and writers; a working relay delivers each event once.
  \<^item> \<open>Metrics_Server\<close>, \<open>Metrics_Loops\<close>: \<^verbatim>\<open>scripts/run_metrics_server.py\<close>. The request handler and the five
    coroutines that feed the registry. What is served is a row for every pattern, the registered ones first,
    with the totals counted, of the shape \<open>metrics_shape\<close> (a typing judgement on JSON values); the five loops keep up
    with what they publish, also on the streams that an earlier run left. The threads share the
    registry and the server but not their streams and counters (\<open>quiet\<close>).
  \<^item> \<open>Demo_Base\<close>, \<open>DLQ_Demo\<close>, \<open>Outbox_Demo\<close>, \<open>CC_Demo\<close>, \<open>CC_Balance\<close>, \<open>Priority_Demo\<close>, \<open>Saga_Demo\<close>, \<open>ES_Demo\<close>,
    \<open>Scatter_Demo\<close>, \<open>Claim_Demo\<close>: the demonstrations \<^verbatim>\<open>scripts/run_<pattern>_pattern.py\<close>, all eight, each composing
    the parts above as the script does, for the pattern and for its baseline; what a script prints is the
    result. \<open>Demo_Properties\<close>: what each contrast shows.
  \<^item> \<open>DLQ_Bench\<close>, \<open>Outbox_Bench\<close>, \<open>CC_Bench\<close>: \<^verbatim>\<open>scripts/bench_dlq_pattern.py\<close>, \<^verbatim>\<open>bench_outbox_pattern.py\<close> and
    \<^verbatim>\<open>bench_competing_consumers_pattern.py\<close>, one configuration of each. The workload is a sequence: of operations,
    each with the turns of the consumer that pass while it waits; of orders and sweeps; or of publications and
    steps of the consumers, in any order. A run that is not over is \<open>None\<close>; it is proved how many turns, sweeps
    or steps are enough, and what the run then reports.

  \<^bold>\<open>Parameters.\<close> The Redis client, \<^verbatim>\<open>uuid4\<close>, \<^verbatim>\<open>repr\<close> and \<^verbatim>\<open>float\<close> on floats, \<^verbatim>\<open>isoformat\<close>, the draws of a seeded
  generator, the clock's readings, and the callables a user passes (handlers, lookups, \<^verbatim>\<open>publish\<close>) are
  arguments. The properties name what they assume of them; every such assumption is met by the concrete
  instances in the witnesses.

  \<^bold>\<open>Bounds.\<close> Integers are unbounded, as in Python. A bench sample has fewer than \<open>2 ^ 53\<close> values, so that its
  size is exact as a float. The fuel of \<open>scan_pairs\<close> is the length of the text, which is at least the
  number of pairs in it (\<open>length_join\<close>). \<open>gather_loop\<close> and \<open>scan_str\<close> have termination proofs: a turn of
  the gather takes a step off the agenda or a message off its queue.

  \<^bold>\<open>Not modelled.\<close> Logging; \<^verbatim>\<open>config/\<close> and \<^verbatim>\<open>logging.py\<close> (library set-up); the closing of connections; errors
  of the operating system in the payload store; cancellation of a task in the middle of a wait; the
  range of years of a datetime and the sign of a float's zero; Python's limit on the digits of an
  integer's text; lone surrogates in a \<^verbatim>\<open>str\<close>; the writing of bench reports to files and command line
  options; the formatting of what the demonstrations print, and the questions to the server whose answers
  are only printed (\<^verbatim>\<open>EXISTS\<close>, \<^verbatim>\<open>XINFO GROUPS\<close>); the threads and
  the HTTP server themselves; of the benchmark scripts the command line, the sweep over configurations and the
  sampling, and the one for scatter-gather, whose reports are latencies of many searches (how many airlines answer
  within a deadline is \<open>flight_search_collects\<close>). A flight search's airlines are idle when it starts and get no other
  request meanwhile. The passing of time while competing consumers run side by side: the run is taken to be shorter
  than the idle time after which a sibling's message counts as stale (\<open>cc_step\<close> has steps of time and of
  reclaiming).
\<close>

end
